(* ===== verification/Spg_Prelude.thy ===== *)
theory Spg_Prelude
  imports Main "HOL-Library.Word" "HOL-Library.Multiset"
begin

text \<open>
  What every component of the development shares: the fault values of a C execution
  that touches memory it must not touch, the sequencing of fallible steps, bounds-checked
  reads and writes of a block of bytes (memcpy, memmove), the division of a block into
  units, and the automation collections.
\<close>

unbundle bit_operations_syntax

section \<open>Types\<close>

type_synonym u8 = "8 word"
type_synonym u32 = "32 word"
type_synonym u64 = "64 word"

text \<open>int32_t values are 32-bit words read with \<open>sint\<close>.\<close>

type_synonym s32 = "32 word"

text \<open>Return codes of sponge.h.\<close>

definition SPG_OK :: s32 where "SPG_OK = 0"
definition SPG_ERR :: s32 where "SPG_ERR = - 1"

named_theorems fault_simps \<open>evaluation of fallible steps\<close>
named_theorems mem_simps \<open>reads and writes of blocks\<close>
named_theorems word_arith \<open>machine arithmetic that does not wrap\<close>

section \<open>Faults\<close>

text \<open>
  A C run that dereferences NULL, accesses memory outside a block, fails an assertion
  of the debug build (the Makefile defines _DBG_VER_, so dbg_assert is assert) or hands
  the allocator an address that is no block ends in a fault value, never in a result; so
  does a loop that never ends.
\<close>

datatype fault = Null_Deref | Out_Of_Bounds | Assert_Failed | Invalid_Free | Dangling | Diverges

definition bindE :: "fault + 'a \<Rightarrow> ('a \<Rightarrow> fault + 'b) \<Rightarrow> fault + 'b" where
  "bindE m f = (case m of Inl e \<Rightarrow> Inl e | Inr x \<Rightarrow> f x)"

lemma bindE_simps [simp, fault_simps]:
  "bindE (Inl e) f = Inl e" "bindE (Inr x) f = f x"
  by (simp_all add: bindE_def)

lemma bindE_cong [fundef_cong]:
  "m = m' \<Longrightarrow> (\<And>x. m' = Inr x \<Longrightarrow> f x = g x) \<Longrightarrow> bindE m f = bindE m' g"
  by (cases m') (auto simp: bindE_def)

lemma bindE_Inr_iff: "bindE m f = Inr y \<longleftrightarrow> (\<exists>x. m = Inr x \<and> f x = Inr y)"
  by (cases m) auto

lemma bindE_InrE [elim]:
  assumes "bindE m f = Inr y"
  obtains x where "m = Inr x" "f x = Inr y"
  using assms by (auto simp: bindE_Inr_iff)

lemma bindE_assoc: "bindE (bindE m f) g = bindE m (\<lambda>x. bindE (f x) g)"
  by (cases m) auto

definition guardE :: "bool \<Rightarrow> fault \<Rightarrow> fault + unit" where
  "guardE b e = (if b then Inr () else Inl e)"

lemma guardE_simps [simp, fault_simps]:
  "b \<Longrightarrow> guardE b e = Inr ()" "\<not> b \<Longrightarrow> guardE b e = Inl e"
  by (simp_all add: guardE_def)

text \<open>What holds of the result of a run that does not fault; \<open>gives Q m\<close> also says that it does not.\<close>

definition gives :: "('a \<Rightarrow> bool) \<Rightarrow> fault + 'a \<Rightarrow> bool" where
  "gives Q m = (case m of Inl _ \<Rightarrow> False | Inr x \<Rightarrow> Q x)"

lemma gives_simps [simp]: "gives Q (Inl e) = False" "gives Q (Inr x) = Q x"
  by (simp_all add: gives_def)

lemma gives_bind: "gives P m \<Longrightarrow> (\<And>x. P x \<Longrightarrow> gives Q (f x)) \<Longrightarrow> gives Q (bindE m f)"
  by (cases m) auto

lemma gives_mono: "gives P m \<Longrightarrow> (\<And>x. P x \<Longrightarrow> Q x) \<Longrightarrow> gives Q m"
  by (cases m) auto

lemma gives_conj: "gives P m \<Longrightarrow> gives Q m \<Longrightarrow> gives (\<lambda>x. P x \<and> Q x) m"
  by (cases m) auto

lemma gives_iff: "gives Q m \<longleftrightarrow> (\<exists>x. m = Inr x \<and> Q x)"
  by (cases m) auto

text \<open>Dereferencing: NULL (None) is a fault.\<close>

definition derefE :: "'a option \<Rightarrow> fault + 'a" where
  "derefE p = (case p of None \<Rightarrow> Inl Null_Deref | Some x \<Rightarrow> Inr x)"

lemma derefE_simps [simp, fault_simps]:
  "derefE None = Inl Null_Deref" "derefE (Some x) = Inr x"
  by (simp_all add: derefE_def)

section \<open>Blocks of bytes\<close>

definition mem_slice :: "'b list \<Rightarrow> nat \<Rightarrow> nat \<Rightarrow> fault + 'b list" where
  "mem_slice b off n = (if off + n \<le> length b then Inr (take n (drop off b)) else Inl Out_Of_Bounds)"

definition mem_store :: "'b list \<Rightarrow> nat \<Rightarrow> 'b list \<Rightarrow> fault + 'b list" where
  "mem_store b off d =
     (if d = [] then Inr b
      else if off + length d \<le> length b then Inr (take off b @ d @ drop (off + length d) b)
      else Inl Out_Of_Bounds)"

definition mem_move :: "'b list \<Rightarrow> nat \<Rightarrow> nat \<Rightarrow> nat \<Rightarrow> fault + 'b list" where
  "mem_move b dst src n =
     (if n = 0 then Inr b
      else if src + n \<le> length b \<and> dst + n \<le> length b
      then Inr (take dst b @ take n (drop src b) @ drop (dst + n) b)
      else Inl Out_Of_Bounds)"

lemma mem_slice_length: "mem_slice b off n = Inr d \<Longrightarrow> length d = n"
  by (auto simp: mem_slice_def split: if_splits)

lemma mem_store_length: "mem_store b off d = Inr b' \<Longrightarrow> length b' = length b"
  by (auto simp: mem_store_def split: if_splits)

lemma mem_move_length: "mem_move b dst src n = Inr b' \<Longrightarrow> length b' = length b"
  by (auto simp: mem_move_def split: if_splits)

lemma mem_store_middle [mem_simps]:
  "length d = length m \<Longrightarrow> mem_store (p @ m @ s) (length p) d = Inr (p @ d @ s)"
  by (auto simp: mem_store_def)

lemma mem_slice_middle [mem_simps]: "mem_slice (p @ m @ s) (length p) (length m) = Inr m"
  by (simp add: mem_slice_def)

lemma mem_move_up [mem_simps]:
  assumes "length g = k"
  shows "\<exists>m'. length m' = k \<and>
    mem_move (p @ m @ g @ s) (length p + k) (length p) (length m) = Inr (p @ m' @ m @ s)"
proof (cases "m = []")
  case True
  with assms show ?thesis by (auto simp: mem_move_def)
next
  case False
  then show ?thesis using assms
    by (auto simp: mem_move_def intro!: exI [of _ "take k (m @ g)"])
qed

lemma mem_move_down [mem_simps]:
  "\<exists>t. length t = length g \<and>
     mem_move (p @ g @ m @ s) (length p) (length p + length g) (length m) = Inr (p @ m @ t @ s)"
proof (cases "m = []")
  case False
  have "take (length m) (drop (length p + length g) (p @ g @ m @ s)) = m"
    by simp
  moreover have "drop (length p + length m) (p @ g @ m @ s) = drop (length m) (g @ m) @ s"
    by simp
  ultimately show ?thesis using False
    by (simp add: mem_move_def del: drop_append)
qed (auto simp: mem_move_def)

text \<open>The same through a pointer; a transfer of no bytes touches nothing.\<close>

definition block_slice :: "'b list option \<Rightarrow> nat \<Rightarrow> nat \<Rightarrow> fault + 'b list" where
  "block_slice p off n = bindE (derefE p) (\<lambda>b. mem_slice b off n)"

definition block_store :: "'b list option \<Rightarrow> nat \<Rightarrow> 'b list \<Rightarrow> fault + 'b list option" where
  "block_store p off d =
     (if d = [] then Inr p
      else bindE (derefE p) (\<lambda>b. bindE (mem_store b off d) (\<lambda>b'. Inr (Some b'))))"

definition block_move :: "'b list option \<Rightarrow> nat \<Rightarrow> nat \<Rightarrow> nat \<Rightarrow> fault + 'b list option" where
  "block_move p dst src n =
     (if n = 0 then Inr p
      else bindE (derefE p) (\<lambda>b. bindE (mem_move b dst src n) (\<lambda>b'. Inr (Some b'))))"

lemma block_Some [simp]:
  "block_slice (Some b) off n = mem_slice b off n"
  "block_store (Some b) off d = bindE (mem_store b off d) (\<lambda>b'. Inr (Some b'))"
  "block_move (Some b) dst src n = bindE (mem_move b dst src n) (\<lambda>b'. Inr (Some b'))"
  by (simp_all add: block_slice_def block_store_def block_move_def mem_store_def mem_move_def)

section \<open>Units of a block\<close>

definition unit_at :: "nat \<Rightarrow> nat \<Rightarrow> 'b list \<Rightarrow> 'b list" where
  "unit_at u i b = take u (drop (i * u) b)"

definition units :: "nat \<Rightarrow> nat \<Rightarrow> 'b list \<Rightarrow> 'b list list" where
  "units u n b = map (\<lambda>i. unit_at u i b) [0..<n]"

lemma length_units [simp]: "length (units u n b) = n"
  by (simp add: units_def)

lemma nth_units [simp]: "i < n \<Longrightarrow> units u n b ! i = unit_at u i b"
  by (simp add: units_def)

lemma units_0 [simp]: "units u 0 b = []"
  by (simp add: units_def)

lemma units_Suc: "units u (Suc n) b = take u b # units u n (drop u b)"
proof -
  have "[0..<Suc n] = 0 # map Suc [0..<n]"
    by (simp add: map_Suc_upt upt_conv_Cons)
  then show ?thesis
    by (simp add: units_def unit_at_def comp_def add.commute del: upt_Suc)
qed

lemma unit_length: "n * u \<le> length b \<Longrightarrow> x \<in> set (units u n b) \<Longrightarrow> length x = u"
proof (induction n arbitrary: b)
  case (Suc n)
  then show ?case using Suc.IH [of "drop u b"] by (auto simp: units_Suc)
qed simp

lemma concat_units: "n * u \<le> length b \<Longrightarrow> concat (units u n b) @ drop (n * u) b = b"
proof (induction n arbitrary: b)
  case (Suc n)
  then have "concat (units u n (drop u b)) @ drop (n * u) (drop u b) = drop u b"
    using Suc.IH [of "drop u b"] by (simp del: drop_drop)
  then show ?case by (simp add: units_Suc add.commute)
qed simp

lemma length_concat_units: "n * u \<le> length b \<Longrightarrow> length (concat (units u n b)) = n * u"
proof (induction n arbitrary: b)
  case (Suc n)
  then show ?case by (simp add: units_Suc)
qed simp

lemma units_concat:
  "\<forall>x\<in>set xs. length x = u \<Longrightarrow> units u (length xs) (concat xs @ s) = xs"
  by (induction xs) (simp_all add: units_Suc)

lemma length_concat_same: "\<forall>x\<in>set xs. length x = u \<Longrightarrow> length (concat xs) = length xs * u"
  by (induction xs) simp_all

lemma unit_at_append: "(i + 1) * u \<le> length b \<Longrightarrow> unit_at u i (b @ c) = unit_at u i b"
  by (simp add: unit_at_def)

lemma units_append: "n * u \<le> length b \<Longrightarrow> units u n (b @ c) = units u n b"
proof (induction n arbitrary: b)
  case (Suc n)
  then have "u \<le> length b" by simp
  with Suc show ?case by (simp add: units_Suc)
qed simp

lemma units_prefix:
  assumes "take m b = take m c" "n * u \<le> m" "m \<le> length b" "m \<le> length c"
  shows "units u n b = units u n c"
proof -
  have "units u n b = units u n (take m b @ drop m b)" by simp
  also have "\<dots> = units u n (take m c)" using assms by (simp add: units_append del: append_take_drop_id)
  also have "\<dots> = units u n (take m c @ drop m c)"
    using assms by (simp add: units_append del: append_take_drop_id)
  finally show ?thesis by simp
qed

text \<open>Where the units before and after a position lie in the block.\<close>

lemma units_split:
  assumes n: "n * u \<le> length b" and p: "p \<le> n"
  obtains A B r where "b = A @ B @ r" "length A = p * u" "length B = (n - p) * u"
    "A = concat (take p (units u n b))" "B = concat (drop p (units u n b))"
    "length r = length b - n * u"
proof -
  let ?xs = "units u n b"
  have us: "\<forall>x\<in>set ?xs. length x = u" using unit_length [OF n] by blast
  then have usA: "\<forall>x\<in>set (take p ?xs). length x = u" and usB: "\<forall>x\<in>set (drop p ?xs). length x = u"
    by (auto dest: in_set_takeD in_set_dropD)
  have "b = concat ?xs @ drop (n * u) b" using concat_units [OF n] by simp
  also have "concat ?xs = concat (take p ?xs) @ concat (drop p ?xs)"
    by (metis append_take_drop_id concat_append)
  finally show ?thesis
    using that [of "concat (take p ?xs)" "concat (drop p ?xs)" "drop (n * u) b"]
      length_concat_same [OF usA] length_concat_same [OF usB] p
    by (simp add: min.absorb1)
qed

text \<open>Opening a gap of one unit at position \<open>p\<close> and filling it; closing the gap of a unit.\<close>

lemma units_insert:
  assumes n: "n * u + u \<le> length b" and p: "p \<le> n" and len: "length val = u"
  shows "\<exists>m d. mem_move b (p * u + u) (p * u) ((n - p) * u) = Inr m \<and> mem_store m (p * u) val = Inr d
    \<and> units u (Suc n) d = take p (units u n b) @ val # drop p (units u n b) \<and> length d = length b"
proof -
  let ?xs = "units u n b"
  have n': "n * u \<le> length b" using n by simp
  obtain A B r where b: "b = A @ B @ r" "length A = p * u" "length B = (n - p) * u"
      "A = concat (take p ?xs)" "B = concat (drop p ?xs)" "length r = length b - n * u"
    by (rule units_split [OF n' p])
  define g t where "g = take u r" and "t = drop u r"
  have g: "length g = u" "b = A @ B @ g @ t" using b n by (simp_all add: g_def t_def)
  obtain m' where m': "length m' = u" "mem_move b (p * u + u) (p * u) ((n - p) * u) = Inr (A @ m' @ B @ t)"
    using mem_move_up [OF g(1), of A B t] b(2,3) g(2) by auto
  have "mem_store (A @ m' @ B @ t) (p * u) val = Inr (A @ val @ B @ t)"
    using mem_store_middle [of val m' A "B @ t"] len m'(1) b(2) by simp
  moreover have "\<forall>x\<in>set (take p ?xs @ val # drop p ?xs). length x = u"
    using unit_length [OF n'] len by (auto dest: in_set_takeD in_set_dropD)
  then have "units u (Suc n) (A @ val @ B @ t) = take p ?xs @ val # drop p ?xs"
    using units_concat [of "take p ?xs @ val # drop p ?xs" u t] p b(4,5) by (simp add: min.absorb1)
  moreover have "length (A @ val @ B @ t) = length b" by (subst g(2)) (simp add: g(1) len)
  ultimately show ?thesis using m'(2) by blast
qed

lemma units_remove:
  assumes n: "n * u \<le> length b" and p: "p < n"
  shows "\<exists>d. mem_move b (p * u) (p * u + u) ((n - p - 1) * u) = Inr d
    \<and> units u (n - 1) d = take p (units u n b) @ drop (Suc p) (units u n b) \<and> length d = length b"
proof -
  let ?xs = "units u n b"
  obtain A B r where b: "b = A @ B @ r" "length A = p * u" "length B = (n - p) * u"
      "A = concat (take p ?xs)" "B = concat (drop p ?xs)" "length r = length b - n * u"
    by (rule units_split [OF n less_imp_le [OF p]])
  have d: "drop p ?xs = ?xs ! p # drop (Suc p) ?xs" 
    by (rule Cons_nth_drop_Suc [symmetric]) (simp add: p)
  define g M where "g = ?xs ! p" and "M = concat (drop (Suc p) ?xs)"
  have bb: "b = A @ g @ M @ r" using b(1,5) d by (simp add: g_def M_def)
  have g: "length g = u" 
    unfolding g_def by (rule unit_length [OF n nth_mem]) (simp add: p)
  have "(n - p) * u = u + (n - p - 1) * u" using p by (metis Suc_diff_Suc diff_Suc_eq_diff_pred diff_commute mult_Suc)
  then have lM: "length M = (n - p - 1) * u" using b(3,5) d g by (simp add: g_def M_def)
  obtain t where t: "length t = u" "mem_move b (p * u) (p * u + u) ((n - p - 1) * u) = Inr (A @ M @ t @ r)"
    using mem_move_down [of g A M r] bb b(2) g lM by auto
  have "\<forall>x\<in>set (take p ?xs @ drop (Suc p) ?xs). length x = u"
    using unit_length [OF n] by (auto dest: in_set_takeD in_set_dropD)
  then have "units u (n - 1) (A @ M @ t @ r) = take p ?xs @ drop (Suc p) ?xs"
    using units_concat [of "take p ?xs @ drop (Suc p) ?xs" u "t @ r"] p b(4)
    by (simp add: min.absorb1 M_def)
  moreover have "length (A @ M @ t @ r) = length b" using bb t(1) g by simp
  ultimately show ?thesis using t(2) by blast
qed

section \<open>Machine arithmetic\<close>

lemma unat_less_exp: "unat (x :: 'a::len word) < 2 ^ LENGTH('a)"
  by (rule unsigned_less)

lemma unat_add_no_wrap [word_arith]:
  "unat (a :: 'a::len word) + unat b < 2 ^ LENGTH('a) \<Longrightarrow> unat (a + b) = unat a + unat b"
  by (rule unat_add_lem [THEN iffD1])

lemma unat_mult_no_wrap [word_arith]:
  "unat (a :: 'a::len word) * unat b < 2 ^ LENGTH('a) \<Longrightarrow> unat (a * b) = unat a * unat b"
  by (rule unat_mult_lem [THEN iffD1])

lemma unat_Suc_less:
  "(i :: 'a::len word) < n \<Longrightarrow> unat (i + 1) = Suc (unat i)"
proof -
  assume "i < n"
  then have "unat i + 1 < 2 ^ LENGTH('a)"
    by (metis Suc_eq_plus1 Suc_leI le_less_trans unsigned_less word_less_nat_alt)
  then show ?thesis
    using unat_add_no_wrap [of i 1] by simp
qed

lemma unat_ucast_32_64 [simp]: "unat (ucast (x :: u32) :: u64) = unat x"
  by transfer (simp add: take_bit_nat_eq_self_iff)

section \<open>First hit of a scan\<close>

definition first_hit :: "('a \<Rightarrow> bool) \<Rightarrow> 'a list \<Rightarrow> nat" where
  "first_hit P xs = length (takeWhile (\<lambda>x. \<not> P x) xs)"

lemma first_hit_le: "first_hit P xs \<le> length xs"
  by (simp add: first_hit_def length_takeWhile_le)

lemma first_hit_hit: "first_hit P xs < length xs \<Longrightarrow> P (xs ! first_hit P xs)"
  unfolding first_hit_def using nth_length_takeWhile by blast

lemma first_hit_before: "i < first_hit P xs \<Longrightarrow> \<not> P (xs ! i)"
  unfolding first_hit_def
  by (metis nth_mem set_takeWhileD takeWhile_nth)

lemma first_hit_none: "first_hit P xs = length xs \<longleftrightarrow> (\<forall>x\<in>set xs. \<not> P x)"
  by (metis (no_types, lifting) first_hit_before first_hit_def in_set_conv_nth takeWhile_eq_all_conv)

lemma first_hit_eqI:
  "i < length xs \<Longrightarrow> P (xs ! i) \<Longrightarrow> \<forall>j<i. \<not> P (xs ! j) \<Longrightarrow> first_hit P xs = i"
  by (metis first_hit_before first_hit_hit first_hit_le le_neq_implies_less linorder_neqE_nat
      order_less_le_trans)

end
