(* ===== verification/Allocator.thy ===== *)
theory Allocator
  imports Spg_Prelude
begin

text \<open>
  The contract the containers rely on when they call zmalloc and zrealloc, stated on the
  contents of blocks (what the caller can read and write through the returned pointer).
  A request of the last eight sizes below 2^64 is outside it: there the allocator's own
  size arithmetic wraps (theory Zmalloc).
\<close>

type_synonym zmalloc_fn = "u64 \<Rightarrow> u8 list option"
type_synonym zrealloc_fn = "u8 list option \<Rightarrow> u64 \<Rightarrow> u8 list option"

locale allocator =
  fixes zm :: zmalloc_fn and zr :: zrealloc_fn
  assumes zm_length: "unat n < 2 ^ 64 - 8 \<Longrightarrow> zm n = Some b \<Longrightarrow> length b = unat n"
    and zr_null: "zr None n = zm n"
    and zr_length: "unat n < 2 ^ 64 - 8 \<Longrightarrow> zr (Some b) n = Some b' \<Longrightarrow> length b' = unat n"
    and zr_prefix: "unat n < 2 ^ 64 - 8 \<Longrightarrow> zr (Some b) n = Some b' \<Longrightarrow>
      take (min (length b) (unat n)) b' = take (min (length b) (unat n)) b"
begin

lemma zr_grow:
  assumes "unat n < 2 ^ 64 - 8" "zr (Some b) n = Some b'" "length b \<le> unat n"
  shows "length b' = unat n" "take (length b) b' = b"
  using zr_length [OF assms(1,2)] zr_prefix [OF assms(1,2)] assms(3) by (simp_all add: min_def)

text \<open>Whole units survive a growing reallocation.\<close>

lemma zr_grow_units:
  assumes "unat n < 2 ^ 64 - 8" "zr (Some b) n = Some b'" "length b \<le> unat n"
    "k * u \<le> length b"
  shows "units u k b' = units u k b"
  by (rule units_prefix [of "length b"]) (use assms zr_grow [OF assms(1-3)] in auto)

end

end
