(* ===== verification/Zmalloc.thy ===== *)
theory Zmalloc
  imports Allocator
begin

text \<open>
  src/zmalloc.c: the allocator of the library, which puts the requested size in front of
  every block and keeps the sum of all block sizes. A block is the whole libc block,
  header included; the pointer the caller holds points behind the header. The libc
  functions malloc, calloc and realloc are arguments, their documented behaviour is the
  locale \<open>libc\<close>.
\<close>

section \<open>State and header\<close>

record zm_state =
  used_memory :: u64
  zmalloc_thread_safe :: s32

definition PREFIX_SIZE :: u64 where "PREFIX_SIZE = 8"

text \<open>A size_t as the eight bytes of its object representation (little endian).\<close>

definition size_bytes :: "u64 \<Rightarrow> u8 list" where
  "size_bytes n = map (\<lambda>i. ucast (drop_bit (8 * i) n)) [0..<8]"

definition size_of_bytes :: "u8 list \<Rightarrow> u64" where
  "size_of_bytes b = foldr (\<lambda>x acc. push_bit 8 acc OR ucast x) b 0"

definition read_size :: "u8 list \<Rightarrow> fault + u64" where
  "read_size blk = bindE (mem_slice blk 0 8) (\<lambda>h. Inr (size_of_bytes h))"

text \<open>\<open>_n += sizeof(long)-(_n&(sizeof(long)-1))\<close> where the low bits are set.\<close>

definition stat_size :: "u64 \<Rightarrow> u64" where
  "stat_size n = (if n AND 7 \<noteq> 0 then n + (8 - (n AND 7)) else n)"

text \<open>
  With zmalloc_thread_safe set the addition is the atomic builtin, else a plain one; a
  single caller sees the same sum either way.
\<close>

definition update_zmalloc_stat_alloc :: "zm_state \<Rightarrow> u64 \<Rightarrow> zm_state" where
  "update_zmalloc_stat_alloc st n = st\<lparr>used_memory := used_memory st + stat_size n\<rparr>"

definition update_zmalloc_stat_free :: "zm_state \<Rightarrow> u64 \<Rightarrow> zm_state" where
  "update_zmalloc_stat_free st n = st\<lparr>used_memory := used_memory st - stat_size n\<rparr>"

section \<open>Operations\<close>

type_synonym libc_malloc = "u64 \<Rightarrow> u8 list option"
type_synonym libc_realloc = "u8 list \<Rightarrow> u64 \<Rightarrow> u8 list option"

definition zmalloc :: "libc_malloc \<Rightarrow> zm_state \<Rightarrow> u64 \<Rightarrow> fault + u8 list option \<times> zm_state" where
  "zmalloc malloc st sz =
     (case malloc (sz + PREFIX_SIZE) of
        None \<Rightarrow> Inr (None, st)
      | Some ptr \<Rightarrow> bindE (mem_store ptr 0 (size_bytes sz)) (\<lambda>ptr.
          Inr (Some ptr, update_zmalloc_stat_alloc st (sz + PREFIX_SIZE))))"

text \<open>The second argument is libc's calloc with a count of 1.\<close>

definition zcalloc :: "libc_malloc \<Rightarrow> zm_state \<Rightarrow> u64 \<Rightarrow> fault + u8 list option \<times> zm_state" where
  "zcalloc calloc1 st sz =
     (case calloc1 (sz + PREFIX_SIZE) of
        None \<Rightarrow> Inr (None, st)
      | Some ptr \<Rightarrow> bindE (mem_store ptr 0 (size_bytes sz)) (\<lambda>ptr.
          Inr (Some ptr, update_zmalloc_stat_alloc st (sz + PREFIX_SIZE))))"

text \<open>Where realloc fails the old block stays as it is.\<close>

definition zrealloc :: "libc_malloc \<Rightarrow> libc_realloc \<Rightarrow> zm_state \<Rightarrow> u8 list option \<Rightarrow> u64
    \<Rightarrow> fault + u8 list option \<times> zm_state" where
  "zrealloc malloc realloc st ptr sz =
     (case ptr of
        None \<Rightarrow> zmalloc malloc st sz
      | Some realptr \<Rightarrow>
          bindE (read_size realptr) (\<lambda>oldsize.
          case realloc realptr (sz + PREFIX_SIZE) of
            None \<Rightarrow> Inr (None, st)
          | Some newptr \<Rightarrow> bindE (mem_store newptr 0 (size_bytes sz)) (\<lambda>newptr.
              Inr (Some newptr,
                   update_zmalloc_stat_alloc (update_zmalloc_stat_free st oldsize) sz))))"

definition zmalloc_size :: "u8 list \<Rightarrow> fault + u64" where
  "zmalloc_size ptr = bindE (read_size ptr) (\<lambda>sz. Inr (stat_size sz + PREFIX_SIZE))"

definition zfree :: "zm_state \<Rightarrow> u8 list option \<Rightarrow> fault + zm_state" where
  "zfree st ptr =
     (case ptr of None \<Rightarrow> Inr st
      | Some realptr \<Rightarrow> bindE (read_size realptr) (\<lambda>oldsize.
          Inr (update_zmalloc_stat_free st (oldsize + PREFIX_SIZE))))"

text \<open>\<open>s\<close> is the string up to its terminator; the result of zmalloc is not checked.\<close>

definition zstrdup :: "libc_malloc \<Rightarrow> zm_state \<Rightarrow> u8 list \<Rightarrow> fault + u8 list \<times> zm_state" where
  "zstrdup malloc st s =
     (let l = of_nat (length s) + 1 in
      bindE (zmalloc malloc st l) (\<lambda>(p, st).
      bindE (derefE p) (\<lambda>blk.
      bindE (mem_store blk 8 (s @ [0])) (\<lambda>blk. Inr (blk, st)))))"

definition zmalloc_used_memory :: "zm_state \<Rightarrow> u64" where
  "zmalloc_used_memory st =
     (if zmalloc_thread_safe st \<noteq> 0 then used_memory st + 0 else used_memory st)"

definition zmalloc_enable_thread_safeness :: "zm_state \<Rightarrow> zm_state" where
  "zmalloc_enable_thread_safeness st = st\<lparr>zmalloc_thread_safe := 1\<rparr>"

text \<open>The names that the rest of the library uses (src/include/util/spg_util.h).\<close>

definition smalloc :: "libc_malloc \<Rightarrow> zm_state \<Rightarrow> u64 \<Rightarrow> fault + u8 list option \<times> zm_state" where
  "smalloc malloc st n = zmalloc malloc st n"

definition scalloc :: "libc_malloc \<Rightarrow> zm_state \<Rightarrow> u64 \<Rightarrow> fault + u8 list option \<times> zm_state" where
  "scalloc calloc1 st n = zcalloc calloc1 st n"

definition sfree :: "zm_state \<Rightarrow> u8 list option \<Rightarrow> fault + zm_state" where
  "sfree st ptr = zfree st ptr"

definition sstrdup :: "libc_malloc \<Rightarrow> zm_state \<Rightarrow> u8 list \<Rightarrow> fault + u8 list \<times> zm_state" where
  "sstrdup malloc st str = zstrdup malloc st str"

section \<open>Header lemmas\<close>

lemma length_size_bytes [simp]: "length (size_bytes n) = 8"
  by (simp add: size_bytes_def)

lemma size_bytes_nonempty [simp]: "size_bytes n \<noteq> []"
  by (simp add: size_bytes_def)

lemma bit_size_of_bytes:
  "bit (size_of_bytes b) i \<longleftrightarrow> i < 64 \<and> i div 8 < length b \<and> bit (b ! (i div 8)) (i mod 8)"
proof (induction b arbitrary: i)
  case (Cons x b)
  show ?case
  proof (cases "i < 8")
    case True
    then show ?thesis
      by (simp add: size_of_bytes_def bit_simps)
  next
    case False
    then obtain k where "i = k + 8" by (metis add.commute le_Suc_ex not_less)
    moreover have "(k + 8) div 8 = Suc (k div 8)" by simp
    ultimately show ?thesis using Cons.IH [of k]
      by (auto simp: size_of_bytes_def bit_simps dest: bit_imp_le_length)
  qed
qed (simp add: size_of_bytes_def)

lemma size_of_bytes_size_bytes [simp]: "size_of_bytes (size_bytes n) = n"
  by (rule bit_word_eqI) (auto simp: bit_size_of_bytes size_bytes_def bit_simps)

lemma read_size_header [simp]: "read_size (size_bytes n @ r) = Inr n"
  by (simp add: read_size_def mem_slice_def)

lemma store_header:
  "8 \<le> length b \<Longrightarrow> mem_store b 0 (size_bytes n) = Inr (size_bytes n @ drop 8 b)"
  by (simp add: mem_store_def)

lemma unat_and_7: "unat ((n :: u64) AND 7) = unat n mod 8"
proof -
  have "n AND 7 = n mod 8"
    using take_bit_eq_mask [of 3 n] by (simp add: mask_eq_exp_minus_1 take_bit_eq_mod)
  then show ?thesis by (simp add: unat_mod)
qed

lemma and_7_add_8: "((n :: u64) + 8) AND 7 = n AND 7"
  by (rule word_unat_eq_iff [THEN iffD2]) (simp add: unat_and_7 unat_word_ariths mod_mod_cancel)

lemma stat_size_add_prefix: "stat_size (n + PREFIX_SIZE) = stat_size n + PREFIX_SIZE"
  by (simp add: stat_size_def PREFIX_SIZE_def and_7_add_8)

lemma round_up_8:
  assumes "(n :: nat) mod 8 \<noteq> 0"
  shows "n + (8 - n mod 8) = 8 * ((n + 7) div 8)"
proof -
  define q r where "q = n div 8" and "r = n mod 8"
  have n: "n = 8 * q + r" "r < 8" "1 \<le> r"
    using assms by (simp_all add: q_def r_def)
  have "(8 * q + r + 7) div 8 = Suc q"
    by (rule div_nat_eqI) (use n in simp_all)
  then show ?thesis using n by (simp add: r_def [symmetric])
qed

text \<open>Away from the top of the range the counted size is the next multiple of 8.\<close>

lemma unat_stat_size:
  assumes "unat n \<le> 2 ^ 64 - 8"
  shows "unat (stat_size n) = 8 * ((unat n + 7) div 8)"
proof (cases "unat n mod 8 = 0")
  case True
  then have "n AND 7 = 0" using unat_and_7 [of n] by (simp add: word_unat_eq_iff)
  moreover have "unat n = 8 * ((unat n + 7) div 8)" using True by presburger
  ultimately show ?thesis by (simp add: stat_size_def)
next
  case False
  then have "n AND 7 \<noteq> 0" using unat_and_7 [of n] by (auto simp: word_unat_eq_iff)
  moreover have "unat (8 - (n AND 7)) = 8 - unat n mod 8"
    using unat_and_7 [of n] by (subst unat_sub) (simp_all add: word_le_nat_alt)
  moreover have "unat n + (8 - unat n mod 8) = 8 * ((unat n + 7) div 8)"
    using False by (rule round_up_8)
  moreover have "unat n + (8 - unat n mod 8) < 2 ^ 64" using assms False by linarith
  ultimately show ?thesis
    using unat_add_no_wrap [of n "8 - (n AND 7)"] by (simp add: stat_size_def)
qed

section \<open>The accounting invariant\<close>

text \<open>
  A program that uses the allocator: the allocator's state and the blocks the program
  holds. It may also write behind the header of a block it holds.
\<close>

record zm_world =
  zst :: zm_state
  live :: "u8 list list"

text \<open>What a block counts for: its header plus the prefix, rounded.\<close>

definition charge :: "u8 list \<Rightarrow> u64" where
  "charge b = stat_size (size_of_bytes (take 8 b) + PREFIX_SIZE)"

inductive zm_step :: "libc_malloc \<Rightarrow> libc_malloc \<Rightarrow> libc_realloc \<Rightarrow> zm_world \<Rightarrow> zm_world \<Rightarrow> bool"
  for malloc calloc1 realloc where
  step_malloc: "zmalloc malloc (zst w) n = Inr (p, st) \<Longrightarrow>
     zm_step malloc calloc1 realloc w \<lparr>zst = st, live = (case p of None \<Rightarrow> [] | Some b \<Rightarrow> [b]) @ live w\<rparr>"
| step_calloc: "zcalloc calloc1 (zst w) n = Inr (p, st) \<Longrightarrow>
     zm_step malloc calloc1 realloc w \<lparr>zst = st, live = (case p of None \<Rightarrow> [] | Some b \<Rightarrow> [b]) @ live w\<rparr>"
| step_realloc: "i < length (live w) \<Longrightarrow>
     zrealloc malloc realloc (zst w) (Some (live w ! i)) n = Inr (p, st) \<Longrightarrow>
     zm_step malloc calloc1 realloc w
       \<lparr>zst = st, live = (case p of None \<Rightarrow> live w | Some b \<Rightarrow> (live w)[i := b])\<rparr>"
| step_free: "live w = bs @ b # cs \<Longrightarrow> zfree (zst w) (Some b) = Inr st \<Longrightarrow>
     zm_step malloc calloc1 realloc w \<lparr>zst = st, live = bs @ cs\<rparr>"
| step_strdup: "zstrdup malloc (zst w) s = Inr (b, st) \<Longrightarrow>
     zm_step malloc calloc1 realloc w \<lparr>zst = st, live = b # live w\<rparr>"
| step_write: "i < length (live w) \<Longrightarrow> mem_store (live w ! i) (8 + k) d = Inr b \<Longrightarrow>
     zm_step malloc calloc1 realloc w (w\<lparr>live := (live w)[i := b]\<rparr>)"
| step_thread_safe:
     "zm_step malloc calloc1 realloc w (w\<lparr>zst := zmalloc_enable_thread_safeness (zst w)\<rparr>)"

inductive zm_reach :: "libc_malloc \<Rightarrow> libc_malloc \<Rightarrow> libc_realloc \<Rightarrow> zm_world \<Rightarrow> bool"
  for malloc calloc1 realloc where
  reach_init: "zm_reach malloc calloc1 realloc
     \<lparr>zst = \<lparr>used_memory = 0, zmalloc_thread_safe = 0\<rparr>, live = []\<rparr>"
| reach_step: "zm_reach malloc calloc1 realloc w \<Longrightarrow> zm_step malloc calloc1 realloc w w' \<Longrightarrow>
     zm_reach malloc calloc1 realloc w'"

definition zm_inv :: "zm_world \<Rightarrow> bool" where
  "zm_inv w \<longleftrightarrow> used_memory (zst w) = sum_list (map charge (live w))
     \<and> (\<forall>b\<in>set (live w). 8 \<le> length b)"

lemma mem_store_header:
  assumes "mem_store b 0 (size_bytes n) = Inr b'"
  shows "8 \<le> length b'" "take 8 b' = size_bytes n"
  using assms by (auto simp: mem_store_def split: if_splits)

lemma mem_store_behind:
  assumes "mem_store b (8 + k) d = Inr b'"
  shows "take 8 b' = take 8 b"
  using assms by (auto simp: mem_store_def split: if_splits)

lemma charge_header: "take 8 b = size_bytes n \<Longrightarrow> charge b = stat_size (n + PREFIX_SIZE)"
  by (simp add: charge_def)

lemma read_size_take: "8 \<le> length b \<Longrightarrow> read_size b = Inr (size_of_bytes (take 8 b))"
  by (simp add: read_size_def mem_slice_def)

lemma zmalloc_effect:
  assumes "zmalloc malloc st n = Inr (p, st')"
  shows "case p of None \<Rightarrow> st' = st
    | Some b \<Rightarrow> 8 \<le> length b \<and> take 8 b = size_bytes n
        \<and> used_memory st' = used_memory st + charge b"
  using assms by (auto simp: zmalloc_def update_zmalloc_stat_alloc_def bindE_Inr_iff charge_header
      split: option.splits dest: mem_store_header)

lemma zcalloc_effect:
  assumes "zcalloc calloc1 st n = Inr (p, st')"
  shows "case p of None \<Rightarrow> st' = st
    | Some b \<Rightarrow> 8 \<le> length b \<and> take 8 b = size_bytes n
        \<and> used_memory st' = used_memory st + charge b"
  using assms by (auto simp: zcalloc_def update_zmalloc_stat_alloc_def bindE_Inr_iff charge_header
      split: option.splits dest: mem_store_header)

text \<open>A resize charges the difference: the prefix of the old and the new block cancel.\<close>

lemma zrealloc_effect:
  assumes "zrealloc malloc realloc st (Some b) n = Inr (p, st')" "8 \<le> length b"
  shows "case p of None \<Rightarrow> st' = st
    | Some b' \<Rightarrow> 8 \<le> length b' \<and> take 8 b' = size_bytes n
        \<and> used_memory st' = used_memory st - charge b + charge b'"
  using assms
  by (auto simp: zrealloc_def read_size_take update_zmalloc_stat_alloc_def update_zmalloc_stat_free_def
      bindE_Inr_iff charge_header charge_def stat_size_add_prefix split: option.splits dest: mem_store_header)

lemma zfree_effect:
  assumes "8 \<le> length b"
  shows "zfree st (Some b) = Inr (st\<lparr>used_memory := used_memory st - charge b\<rparr>)"
  using assms by (simp add: zfree_def read_size_take update_zmalloc_stat_free_def charge_def)

lemma zstrdup_effect:
  assumes "zstrdup malloc st s = Inr (b, st')"
  shows "8 \<le> length b \<and> used_memory st' = used_memory st + charge b"
proof -
  obtain blk where z: "zmalloc malloc st (of_nat (length s) + 1) = Inr (Some blk, st')"
      "mem_store blk 8 (s @ [0]) = Inr b"
    using assms by (auto simp: zstrdup_def Let_def bindE_Inr_iff derefE_def split: option.splits)
  then show ?thesis
    using zmalloc_effect [OF z(1)] mem_store_behind [of blk 0 "s @ [0]" b] mem_store_length [OF z(2)]
    by (simp add: charge_def)
qed

lemma sum_charge_update:
  "i < length bs \<Longrightarrow> sum_list (map charge (bs[i := b])) = sum_list (map charge bs) - charge (bs ! i) + charge b"
  by (induction bs arbitrary: i) (auto simp: nth_Cons split: nat.splits)

lemma zm_inv_step:
  assumes "zm_step malloc calloc1 realloc w w'" "zm_inv w"
  shows "zm_inv w'"
  using assms
proof (cases rule: zm_step.cases)
  case (step_malloc n p st)
  then show ?thesis using zmalloc_effect [OF step_malloc(2)] assms(2)
    by (auto simp: zm_inv_def split: option.splits)
next
  case (step_calloc n p st)
  then show ?thesis using zcalloc_effect [OF step_calloc(2)] assms(2)
    by (auto simp: zm_inv_def split: option.splits)
next
  case (step_realloc i n p st)
  then show ?thesis using zrealloc_effect [OF step_realloc(3)] assms(2)
    by (auto simp: zm_inv_def sum_charge_update split: option.splits dest!: set_update_subset_insert [THEN subsetD])
next
  case (step_free bs b cs st)
  then show ?thesis using assms(2) by (auto simp: zm_inv_def zfree_effect)
next
  case (step_strdup s b st)
  then show ?thesis using zstrdup_effect [OF step_strdup(2)] assms(2) by (auto simp: zm_inv_def)
next
  case (step_write i k d b)
  then have "charge b = charge (live w ! i)" "length b = length (live w ! i)"
    using mem_store_behind mem_store_length by (fastforce simp: charge_def)+
  then show ?thesis using step_write assms(2)
    by (auto simp: zm_inv_def sum_charge_update dest!: set_update_subset_insert [THEN subsetD])
next
  case step_thread_safe
  then show ?thesis using assms(2) by (simp add: zm_inv_def zmalloc_enable_thread_safeness_def)
qed

lemma zm_reach_inv: "zm_reach malloc calloc1 realloc w \<Longrightarrow> zm_inv w"
  by (induction rule: zm_reach.induct) (auto simp: zm_inv_def dest: zm_inv_step [unfolded zm_inv_def])

section \<open>libc, and the contract the library's clients get\<close>

locale libc =
  fixes malloc :: libc_malloc and calloc1 :: libc_malloc and realloc :: libc_realloc
  assumes malloc_length: "malloc n = Some b \<Longrightarrow> length b = unat n"
    and calloc_zero: "calloc1 n = Some b \<Longrightarrow> b = replicate (unat n) 0"
    and realloc_length: "realloc b n = Some b' \<Longrightarrow> length b' = unat n"
    and realloc_prefix: "realloc b n = Some b' \<Longrightarrow>
      take (min (length b) (unat n)) b' = take (min (length b) (unat n)) b"
begin

lemma zmalloc_fresh:
  assumes "unat n < 2 ^ 64 - 8" "malloc (n + PREFIX_SIZE) = Some b"
  shows "zmalloc malloc st n =
      Inr (Some (size_bytes n @ drop 8 b), update_zmalloc_stat_alloc st (n + PREFIX_SIZE))"
    "length (drop 8 b) = unat n"
proof -
  have "unat (n + PREFIX_SIZE) = unat n + 8"
    using assms(1) unat_add_no_wrap [of n PREFIX_SIZE] by (simp add: PREFIX_SIZE_def)
  then have "length b = unat n + 8" using malloc_length [OF assms(2)] by simp
  then show "length (drop 8 b) = unat n"
    and "zmalloc malloc st n =
      Inr (Some (size_bytes n @ drop 8 b), update_zmalloc_stat_alloc st (n + PREFIX_SIZE))"
    using assms(2) by (simp_all add: zmalloc_def store_header)
qed

text \<open>For the last eight sizes the sum with the prefix wraps and the header does not fit.\<close>

lemma zmalloc_wraps:
  assumes "2 ^ 64 - 8 \<le> unat n" "malloc (n + PREFIX_SIZE) = Some b"
  shows "zmalloc malloc st n = Inl Out_Of_Bounds"
proof -
  have "unat (n + PREFIX_SIZE) = unat n + 8 - 2 ^ 64"
    using assms(1) unat_less_exp [of n] by (simp add: unat_word_ariths PREFIX_SIZE_def mod_if)
  then have "length b < 8"
    using malloc_length [OF assms(2)] unat_less_exp [of n] by simp
  then show ?thesis using assms(2) by (simp add: zmalloc_def mem_store_def)
qed

lemma zrealloc_fresh:
  assumes "unat n < 2 ^ 64 - 8" "8 \<le> length b" "realloc b (n + PREFIX_SIZE) = Some b'"
  shows "\<exists>st'. zrealloc malloc realloc st (Some b) n = Inr (Some (size_bytes n @ drop 8 b'), st')"
    "length (drop 8 b') = unat n"
    "take (min (length (drop 8 b)) (unat n)) (drop 8 b') = take (min (length (drop 8 b)) (unat n)) (drop 8 b)"
proof -
  have "unat (n + PREFIX_SIZE) = unat n + 8"
    using assms(1) unat_add_no_wrap [of n PREFIX_SIZE] by (simp add: PREFIX_SIZE_def)
  then have l: "length b' = unat n + 8" and
    p: "take (min (length b) (unat n + 8)) b' = take (min (length b) (unat n + 8)) b"
    using realloc_length [OF assms(3)] realloc_prefix [OF assms(3)] by simp_all
  show "\<exists>st'. zrealloc malloc realloc st (Some b) n = Inr (Some (size_bytes n @ drop 8 b'), st')"
    using assms(2,3) l by (simp add: zrealloc_def read_size_take store_header)
  show "length (drop 8 b') = unat n" using l by simp
  have m: "min (length (drop 8 b)) (unat n) = min (length b) (unat n + 8) - 8"
    using assms(2) by (cases "length b \<le> unat n + 8") auto
  show "take (min (length (drop 8 b)) (unat n)) (drop 8 b') =
      take (min (length (drop 8 b)) (unat n)) (drop 8 b)"
    unfolding m by (metis drop_take p)
qed

end

text \<open>What the caller sees through the returned pointer.\<close>

definition zst0 :: zm_state where
  "zst0 = \<lparr>used_memory = 0, zmalloc_thread_safe = 0\<rparr>"

definition zm_user :: "libc_malloc \<Rightarrow> zmalloc_fn" where
  "zm_user malloc n =
     (case zmalloc malloc zst0 n of Inr (Some b, _) \<Rightarrow> Some (drop 8 b) | _ \<Rightarrow> None)"

definition zr_user :: "libc_malloc \<Rightarrow> libc_realloc \<Rightarrow> zrealloc_fn" where
  "zr_user malloc realloc p n =
     (case zrealloc malloc realloc zst0
             (map_option (\<lambda>b. size_bytes (of_nat (length b)) @ b) p) n of
        Inr (Some b, _) \<Rightarrow> Some (drop 8 b) | _ \<Rightarrow> None)"

lemma zm_user_Some: "zm_user malloc n = Some b \<longleftrightarrow>
    (\<exists>blk st. zmalloc malloc zst0 n = Inr (Some blk, st) \<and> b = drop 8 blk)"
  by (auto simp: zm_user_def split: sum.splits option.splits prod.splits)

lemma zr_user_Some: "zr_user malloc realloc (Some p) n = Some b \<longleftrightarrow>
    (\<exists>blk st. zrealloc malloc realloc zst0 (Some (size_bytes (of_nat (length p)) @ p)) n
        = Inr (Some blk, st) \<and> b = drop 8 blk)"
  by (auto simp: zr_user_def split: sum.splits option.splits prod.splits)

sublocale libc \<subseteq> user: allocator "zm_user malloc" "zr_user malloc realloc"
proof unfold_locales
  fix n b
  assume n: "unat n < 2 ^ 64 - 8" and "zm_user malloc n = Some b"
  then obtain blk st where z: "zmalloc malloc zst0 n = Inr (Some blk, st)" "b = drop 8 blk"
    by (auto simp: zm_user_Some)
  then obtain b0 where b0: "malloc (n + PREFIX_SIZE) = Some b0"
    by (auto simp: zmalloc_def split: option.splits)
  then show "length b = unat n" using zmalloc_fresh(1) [OF n b0, of zst0] zmalloc_fresh(2) [OF n b0] z by simp
next
  fix n
  show "zr_user malloc realloc None n = zm_user malloc n"
    by (simp add: zr_user_def zm_user_def zrealloc_def)
next
  fix n p b'
  assume n: "unat n < 2 ^ 64 - 8" and "zr_user malloc realloc (Some p) n = Some b'"
  then obtain blk st where z: "zrealloc malloc realloc zst0 (Some (size_bytes (of_nat (length p)) @ p)) n
      = Inr (Some blk, st)" "b' = drop 8 blk"
    by (auto simp: zr_user_Some)
  obtain b0 where b0: "realloc (size_bytes (of_nat (length p)) @ p) (n + PREFIX_SIZE) = Some b0"
    using z(1) by (auto simp: zrealloc_def split: option.splits)
  have "8 \<le> length (size_bytes (of_nat (length p)) @ p)" by simp
  note f = zrealloc_fresh [OF n this b0]
  have "blk = size_bytes n @ drop 8 b0" using f(1) [of zst0] z(1) by auto
  then have "b' = drop 8 b0" using z(2) by simp
  then show "length b' = unat n"
    and "take (min (length p) (unat n)) b' = take (min (length p) (unat n)) p"
    using f(2,3) by simp_all
qed

text \<open>
  A concrete libc for closed examples: blocks of up to 2^20 bytes, fresh bytes hold 0xa5
  (calloc: 0), a resized block keeps its prefix.
\<close>

definition demo_malloc :: libc_malloc where
  "demo_malloc n = (if n \<le> 0x100000 then Some (replicate (unat n) 0xa5) else None)"

definition demo_calloc :: libc_malloc where
  "demo_calloc n = (if n \<le> 0x100000 then Some (replicate (unat n) 0) else None)"

definition demo_realloc :: libc_realloc where
  "demo_realloc b n =
     (if n \<le> 0x100000 then Some (take (unat n) (b @ replicate (unat n) 0xa5)) else None)"

interpretation demo: libc demo_malloc demo_calloc demo_realloc
  by unfold_locales
    (auto simp: demo_malloc_def demo_calloc_def demo_realloc_def min_def split: if_splits)

abbreviation demo_zm :: zmalloc_fn where "demo_zm \<equiv> zm_user demo_malloc"
abbreviation demo_zr :: zrealloc_fn where "demo_zr \<equiv> zr_user demo_malloc demo_realloc"

lemma demo_allocator: "allocator demo_zm demo_zr"
  by (rule demo.user.allocator_axioms)


lemma demo_zr_total: "unat n \<le> 0xfff00 \<Longrightarrow> demo_zr (Some b) n \<noteq> None"
proof -
  assume n: "unat n \<le> 0xfff00"
  then have u: "unat (n + PREFIX_SIZE) = unat n + 8"
    using unat_add_no_wrap [of n PREFIX_SIZE] by (simp add: PREFIX_SIZE_def)
  then have "n + PREFIX_SIZE \<le> 0x100000" using n by (simp add: word_le_nat_alt)
  then obtain b' where b': "demo_realloc (size_bytes (of_nat (length b)) @ b) (n + PREFIX_SIZE) = Some b'"
    by (simp add: demo_realloc_def)
  have "unat n < 2 ^ 64 - 8" "8 \<le> length (size_bytes (of_nat (length b)) @ b)" using n by simp_all
  note f = demo.zrealloc_fresh(1) [OF this b', of zst0]
  from f obtain st' where "zrealloc demo_malloc demo_realloc zst0
      (Some (size_bytes (of_nat (length b)) @ b)) n = Inr (Some (size_bytes n @ drop 8 b'), st')"
    by blast
  then show ?thesis by (simp add: zr_user_def)
qed

lemma demo_zm_eq:
  assumes "unat n \<le> 0xfff00"
  shows "demo_zm n = Some (replicate (unat n) 0xa5)"
proof -
  have u: "unat (n + PREFIX_SIZE) = unat n + 8"
    using assms unat_add_no_wrap [of n PREFIX_SIZE] by (simp add: PREFIX_SIZE_def)
  then have "demo_malloc (n + PREFIX_SIZE) = Some (replicate (unat n + 8) 0xa5)"
    using assms by (simp add: demo_malloc_def word_le_nat_alt)
  then show ?thesis
    using demo.zmalloc_fresh(1) [of n _ zst0] assms by (simp add: zm_user_def)
qed


section \<open>Properties\<close>

text \<open>C21. After any sequence of allocations, resizes, duplications, frees and writes behind
  the headers, zmalloc_used_memory is the sum of what zmalloc_size answers for the blocks
  still held; it is 0 again once all of them are freed.\<close>

theorem zmalloc_accounting:
  assumes "zm_reach malloc calloc1 realloc w"
  shows "zmalloc_used_memory (zst w) = sum_list (map charge (live w))
    \<and> list_all (\<lambda>b. zmalloc_size b = Inr (charge b)) (live w)
    \<and> (if live w = [] then zmalloc_used_memory (zst w) = 0 else True)"
proof -
  have inv: "zm_inv w" by (rule zm_reach_inv [OF assms])
  then have "zmalloc_size b = Inr (charge b)" if "b \<in> set (live w)" for b
    using that by (simp add: zm_inv_def zmalloc_size_def read_size_take charge_def stat_size_add_prefix)
  then show ?thesis using inv by (simp add: zm_inv_def zmalloc_used_memory_def list_all_iff)
qed

text \<open>zmalloc of a size below 2^64 - 8 that libc can serve gives a block of exactly that many
  bytes behind the header and counts it; for the last eight sizes the sum with the header
  wraps and the header is written outside the block libc returned.\<close>

theorem zmalloc_sizes:
  assumes "libc malloc calloc1 realloc" and "malloc (n + PREFIX_SIZE) = Some b"
  shows "zmalloc malloc st n =
    (if unat n < 2 ^ 64 - 8
     then Inr (Some (size_bytes n @ drop 8 b),
            st\<lparr>used_memory := used_memory st + (stat_size n + PREFIX_SIZE)\<rparr>)
     else Inl Out_Of_Bounds)
    \<and> (if unat n < 2 ^ 64 - 8 then length (drop 8 b) = unat n else length b < 8)"
proof (cases "unat n < 2 ^ 64 - 8")
  case True
  then show ?thesis
    using libc.zmalloc_fresh [OF assms(1) True assms(2)]
    by (simp add: update_zmalloc_stat_alloc_def stat_size_add_prefix)
next
  case False
  then have "2 ^ 64 - 8 \<le> unat n" by simp
  note w = libc.zmalloc_wraps [OF assms(1) this assms(2), of st]
  have "length b < 8"
    using w assms(2) by (auto simp: zmalloc_def mem_store_def split: if_splits)
  then show ?thesis using w False by simp
qed

text \<open>zrealloc of a block to a size below 2^64 - 8 keeps the bytes both sizes have, gives a
  block of the new size, and moves the count by the difference; where libc has no memory it
  answers NULL and the counter and the old block are as before.\<close>

theorem zrealloc_contents:
  assumes "libc malloc calloc1 realloc" and "8 \<le> length b" and "unat n < 2 ^ 64 - 8"
  shows "case realloc b (n + PREFIX_SIZE) of
      None \<Rightarrow> zrealloc malloc realloc st (Some b) n = Inr (None, st)
    | Some b0 \<Rightarrow> \<exists>blk st'. zrealloc malloc realloc st (Some b) n = Inr (Some blk, st')
        \<and> length (drop 8 blk) = unat n
        \<and> take (min (length (drop 8 b)) (unat n)) (drop 8 blk)
            = take (min (length (drop 8 b)) (unat n)) (drop 8 b)
        \<and> used_memory st' = used_memory st - charge b + charge blk"
proof (cases "realloc b (n + PREFIX_SIZE)")
  case None
  then show ?thesis using assms(2) by (simp add: zrealloc_def read_size_take)
next
  case (Some b0)
  note f = libc.zrealloc_fresh [OF assms(1,3,2) Some]
  obtain st' where st': "zrealloc malloc realloc st (Some b) n = Inr (Some (size_bytes n @ drop 8 b0), st')"
    using f(1) by blast
  then show ?thesis using Some f(2,3) zrealloc_effect [OF st' assms(2)] by simp
qed

text \<open>zstrdup copies the string with its terminator behind the header; it does not check
  what zmalloc answers, so without memory it writes through NULL.\<close>

theorem zstrdup_copies:
  assumes "libc malloc calloc1 realloc" and "length s < 2 ^ 64 - 9"
  shows "case malloc (of_nat (length s) + 1 + PREFIX_SIZE) of
      None \<Rightarrow> zstrdup malloc st s = Inl Null_Deref
    | Some b \<Rightarrow> \<exists>blk st'. zstrdup malloc st s = Inr (blk, st') \<and> drop 8 blk = s @ [0]"
proof (cases "malloc (of_nat (length s) + 1 + PREFIX_SIZE)")
  case None
  then show ?thesis by (simp add: zstrdup_def Let_def zmalloc_def)
next
  case (Some b)
  have n: "unat (of_nat (length s) + 1 :: u64) = length s + 1"
  proof -
    have "unat (of_nat (length s) :: u64) = length s"
      using assms(2) by (simp add: unat_of_nat take_bit_nat_eq_self)
    then show ?thesis using assms(2) unat_add_no_wrap [of "of_nat (length s) :: u64" 1] by simp
  qed
  then have lt: "unat (of_nat (length s) + 1 :: u64) < 2 ^ 64 - 8" using assms(2) by simp
  note f = libc.zmalloc_fresh [OF assms(1) lt Some]
  have "length (drop 8 b) = length s + 1" using f(2) n by simp
  then have "mem_store (size_bytes (of_nat (length s) + 1) @ drop 8 b) 8 (s @ [0])
      = Inr (size_bytes (of_nat (length s) + 1) @ (s @ [0]))"
    by (simp add: mem_store_def)
  then show ?thesis using Some f(1) [of st] by (simp add: zstrdup_def Let_def)
qed

text \<open>Witnesses.\<close>

theorem zmalloc_accounting_witness:
  "\<exists>b. zm_reach demo_malloc demo_calloc demo_realloc
         \<lparr>zst = \<lparr>used_memory = 24, zmalloc_thread_safe = 0\<rparr>, live = [b]\<rparr>
     \<and> zmalloc_size b = Inr 24"
proof -
  let ?b = "size_bytes 13 @ replicate 13 0xa5" and ?w = "\<lparr>zst = \<lparr>used_memory = 24, zmalloc_thread_safe = 0\<rparr>,
    live = [size_bytes 13 @ replicate 13 (0xa5 :: u8)]\<rparr>"
  have m: "zmalloc demo_malloc zst0 13 = Inr (Some ?b, zst ?w)"
    using demo.zmalloc_fresh(1) [of 13 _ zst0]
    by (simp add: demo_malloc_def PREFIX_SIZE_def zst0_def update_zmalloc_stat_alloc_def stat_size_def)
  have "zm_step demo_malloc demo_calloc demo_realloc \<lparr>zst = zst0, live = []\<rparr>
      \<lparr>zst = zst ?w, live = (case Some ?b of None \<Rightarrow> [] | Some b \<Rightarrow> [b]) @ live \<lparr>zst = zst0, live = []\<rparr>\<rparr>"
    by (rule zm_step.step_malloc) (use m in simp)
  then have r: "zm_reach demo_malloc demo_calloc demo_realloc ?w"
    using reach_step [OF reach_init] by (simp add: zst0_def)
  show ?thesis
    using zmalloc_accounting [OF r] r by (auto simp: zmalloc_used_memory_def)
qed

theorem zmalloc_sizes_witness:
  "\<exists>blk st. zmalloc demo_malloc zst0 5 = Inr (Some blk, st) \<and> used_memory st = 16
     \<and> zmalloc demo_malloc zst0 (- 1) = Inl Out_Of_Bounds"
proof -
  have "demo_malloc (5 + PREFIX_SIZE) = Some (replicate 13 0xa5)"
    "demo_malloc (- 1 + PREFIX_SIZE) = Some (replicate 7 0xa5)"
    by (simp_all add: demo_malloc_def PREFIX_SIZE_def)
  from zmalloc_sizes [OF demo.libc_axioms this(1), of zst0] zmalloc_sizes [OF demo.libc_axioms this(2), of zst0]
  show ?thesis by (simp add: zst0_def stat_size_def PREFIX_SIZE_def unsigned_minus_1_eq_mask mask_eq_exp_minus_1)
qed

theorem zrealloc_contents_witness:
  "\<exists>blk st. zrealloc demo_malloc demo_realloc zst0 (Some (size_bytes 3 @ [1, 2, 3])) 2 = Inr (Some blk, st)
     \<and> drop 8 blk = [1, 2]"
  using zrealloc_contents [OF demo.libc_axioms, of "size_bytes 3 @ [1, 2, 3]" 2 zst0]
  by (auto simp: demo_realloc_def PREFIX_SIZE_def)

theorem zstrdup_copies_witness:
  "\<exists>blk st. zstrdup demo_malloc zst0 [104, 105] = Inr (blk, st) \<and> drop 8 blk = [104, 105, 0]"
  using zstrdup_copies [OF demo.libc_axioms, of "[104, 105]" zst0]
  by (simp add: demo_malloc_def PREFIX_SIZE_def)

end
