(* ===== verification/Comparators.thy ===== *)
theory Comparators
  imports Spg_Prelude
begin

text \<open>
  The compare callbacks of the containers (_vec_compare of spg_vector.h, _compare of
  spg_skiplist.h: negative, zero or positive as the left key is below, equal to or above
  the right one), the contract they must meet, what the contract gives for sorted
  sequences, and the comparators that the repository itself passes to the containers.
\<close>

section \<open>The contract of a compare callback\<close>

type_synonym 'a compare = "'a \<Rightarrow> 'a \<Rightarrow> s32"

definition cmp_le :: "'a compare \<Rightarrow> 'a \<Rightarrow> 'a \<Rightarrow> bool" where
  "cmp_le cmp x y \<longleftrightarrow> sint (cmp x y) \<le> 0"

abbreviation cmp_sorted :: "'a compare \<Rightarrow> 'a list \<Rightarrow> bool" where
  "cmp_sorted cmp \<equiv> sorted_wrt (cmp_le cmp)"

definition cmp_flip :: "'a compare \<Rightarrow> 'a compare" where
  "cmp_flip cmp x y = cmp y x"

lemma cmp_flip_flip [simp]: "cmp_flip (cmp_flip cmp) = cmp"
  by (simp add: cmp_flip_def fun_eq_iff)

text \<open>
  \<open>D\<close> is the set of values the callback is used on: a callback that subtracts two
  machine integers only meets the contract where the subtraction does not wrap.
\<close>

locale comparator =
  fixes D :: "'a set" and cmp :: "'a compare"
  assumes cmp_sign: "x \<in> D \<Longrightarrow> y \<in> D \<Longrightarrow> sgn (sint (cmp y x)) = - sgn (sint (cmp x y))"
    and cmp_trans: "x \<in> D \<Longrightarrow> y \<in> D \<Longrightarrow> z \<in> D \<Longrightarrow>
      sint (cmp x y) \<le> 0 \<Longrightarrow> sint (cmp y z) \<le> 0 \<Longrightarrow> sint (cmp x z) \<le> 0"
begin

lemma cmp_refl: "x \<in> D \<Longrightarrow> sint (cmp x x) = 0"
  using cmp_sign [of x x] by (simp add: sgn_if split: if_splits)

lemma cmp_neg_iff: "x \<in> D \<Longrightarrow> y \<in> D \<Longrightarrow> sint (cmp x y) < 0 \<longleftrightarrow> 0 < sint (cmp y x)"
  using cmp_sign [of x y] by (auto simp: sgn_if split: if_splits)

lemma cmp_zero_iff: "x \<in> D \<Longrightarrow> y \<in> D \<Longrightarrow> sint (cmp x y) = 0 \<longleftrightarrow> sint (cmp y x) = 0"
  using cmp_sign [of x y] by (auto simp: sgn_if split: if_splits)

lemma cmp_le_refl: "x \<in> D \<Longrightarrow> cmp_le cmp x x"
  by (simp add: cmp_le_def cmp_refl)

lemma cmp_le_trans:
  "x \<in> D \<Longrightarrow> y \<in> D \<Longrightarrow> z \<in> D \<Longrightarrow> cmp_le cmp x y \<Longrightarrow> cmp_le cmp y z \<Longrightarrow> cmp_le cmp x z"
  unfolding cmp_le_def by (rule cmp_trans)

lemma cmp_le_iff: "x \<in> D \<Longrightarrow> y \<in> D \<Longrightarrow> cmp_le cmp x y \<longleftrightarrow> 0 \<le> sint (cmp y x)"
  using cmp_neg_iff [of y x] by (simp add: cmp_le_def not_less [symmetric])

lemma cmp_le_total: "x \<in> D \<Longrightarrow> y \<in> D \<Longrightarrow> cmp_le cmp x y \<or> cmp_le cmp y x"
  by (simp add: cmp_le_iff [of y x]) (simp add: cmp_le_def, linarith)

lemma flip_comparator: "comparator D (cmp_flip cmp)"
proof (unfold_locales, unfold cmp_flip_def)
  fix x y assume "x \<in> D" "y \<in> D"
  then show "sgn (sint (cmp x y)) = - sgn (sint (cmp y x))"
    using cmp_sign [of x y] by simp
next
  fix x y z
  assume "x \<in> D" "y \<in> D" "z \<in> D" and "sint (cmp y x) \<le> 0" "sint (cmp z y) \<le> 0"
  then show "sint (cmp z x) \<le> 0" using cmp_trans [of z y x] by blast
qed

text \<open>
  Inserting a value before the first element that is strictly above it, everything
  before that element being not above it, keeps a sequence sorted.
\<close>

lemma sorted_insert_at:
  assumes D: "set xs \<subseteq> D" "v \<in> D" and srt: "cmp_sorted cmp xs" and p: "p \<le> length xs"
    and below: "\<forall>i<p. cmp_le cmp (xs ! i) v"
    and above: "p < length xs \<Longrightarrow> cmp_le cmp v (xs ! p)"
  shows "cmp_sorted cmp (take p xs @ v # drop p xs)"
proof -
  have "cmp_sorted cmp (take p xs @ drop p xs)" using srt by simp
  then have split: "cmp_sorted cmp (take p xs)" "cmp_sorted cmp (drop p xs)"
    by (simp_all only: sorted_wrt_append)
  have lo: "\<forall>x\<in>set (take p xs). cmp_le cmp x v"
    using below p by (auto simp: in_set_conv_nth)
  have hi: "\<forall>x\<in>set (drop p xs). cmp_le cmp v x"
  proof (cases "drop p xs")
    case (Cons y ys)
    then have lt: "p < length xs" by (metis drop_all list.distinct(1) not_le)
    then have y: "y = xs ! p" using Cons by (metis hd_drop_conv_nth list.sel(1))
    have vy: "cmp_le cmp v y" using above lt y by simp
    have "\<forall>x\<in>set ys. cmp_le cmp y x"
      using split Cons by simp
    moreover have "set (drop p xs) \<subseteq> D" using D(1) set_drop_subset by fastforce
    ultimately show ?thesis using vy Cons D(2) cmp_le_trans [of v y] by auto
  qed simp
  have "set (take p xs) \<subseteq> D" "set (drop p xs) \<subseteq> D"
    using D(1) set_take_subset [of p xs] set_drop_subset [of p xs] by blast+
  then have "\<forall>x\<in>set (take p xs). \<forall>y\<in>set (drop p xs). cmp_le cmp x y"
    using lo hi D(2) cmp_le_trans by blast
  then show ?thesis using split lo hi by (auto simp: sorted_wrt_append)
qed

text \<open>In a sorted sequence everything after an element not below the key is not below it.\<close>

lemma sorted_above:
  assumes "set xs \<subseteq> D" "v \<in> D" "cmp_sorted cmp xs" "i < length xs" "cmp_le cmp v (xs ! i)"
    "i \<le> j" "j < length xs"
  shows "cmp_le cmp v (xs ! j)"
proof (cases "i = j")
  case False
  with assms have "cmp_le cmp (xs ! i) (xs ! j)" by (simp add: sorted_wrt_iff_nth_less)
  then show ?thesis using assms cmp_le_trans [of v "xs ! i" "xs ! j"]
    by (meson nth_mem subsetD)
qed (use assms in simp)

end

section \<open>The comparators of the repository\<close>

text \<open>
  int_cmp of unit_test/vector_ut.c and key_compare of unit_test/skiplist_ut.c both return
  the difference of two int32_t values; the values are read from memory in little-endian
  order.
\<close>

definition le32 :: "u8 list \<Rightarrow> u32" where
  "le32 b = ucast (b ! 0) OR push_bit 8 (ucast (b ! 1))
          OR push_bit 16 (ucast (b ! 2)) OR push_bit 24 (ucast (b ! 3))"

text \<open>The bytes of an int32_t.\<close>

definition int_bytes :: "s32 \<Rightarrow> u8 list" where
  "int_bytes x = [ucast x, ucast (drop_bit 8 x), ucast (drop_bit 16 x), ucast (drop_bit 24 x)]"

lemma le32_int_bytes [simp]: "le32 (int_bytes x) = x"
proof (rule bit_word_eqI)
  fix n assume "n < LENGTH(32)"
  then consider "n < 8" | "8 \<le> n" "n < 16" | "16 \<le> n" "n < 24" | "24 \<le> n" "n < 32" by fastforce
  then show "bit (le32 (int_bytes x)) n = bit x n"
    by cases (auto simp: le32_def int_bytes_def bit_simps)
qed

lemma int_bytes_inj [simp]: "int_bytes x = int_bytes y \<longleftrightarrow> x = y"
  by (metis le32_int_bytes)

definition key_compare :: "s32 compare" where
  "key_compare lft rgh = lft - rgh"

definition int_cmp :: "u8 list compare" where
  "int_cmp lft rgh = key_compare (le32 lft) (le32 rgh)"

definition int_half_range :: "s32 set" where
  "int_half_range = {x. - (2 ^ 30) \<le> sint x \<and> sint x < 2 ^ 30}"

lemma sint_key_compare:
  assumes "x \<in> int_half_range" "y \<in> int_half_range"
  shows "sint (key_compare x y) = sint x - sint y"
proof -
  have "signed_take_bit 31 (sint x - sint y) = sint x - sint y"
    by (rule signed_take_bit_int_eq_self) (use assms in \<open>auto simp: int_half_range_def\<close>)
  then show ?thesis
    by (simp add: key_compare_def sint_word_ariths)
qed

interpretation key_compare: comparator int_half_range key_compare
  by unfold_locales (auto simp: sint_key_compare sgn_if)

interpretation int_cmp: comparator "{b. le32 b \<in> int_half_range}" int_cmp
  unfolding int_cmp_def
  by unfold_locales (auto simp: sint_key_compare sgn_if)

text \<open>Beyond the half range the difference wraps and the callback reverses the order.\<close>

lemma key_compare_wraps: "sint (key_compare 0x7fffffff (- 1)) < 0"
  by (simp add: key_compare_def)

end
