(* ===== verification/Locks.thy ===== *)
theory Locks
  imports Spg_Prelude
begin

text \<open>
  The lock wrappers of src/include/util/spg_type.h as the Makefile configures them (_POSIX_ and
  _DBG_VER_), and pthread's locks as POSIX and glibc document them. A call of pthread gives a
  code and the lock afterwards; whether it waits is a predicate of its own, and a call that would
  wait is not made.
\<close>

section \<open>The wrappers\<close>

text \<open>The functions of pthread, on locks of some representation.\<close>

record 'lk rwlock_ops =
  rw_init :: "'lk \<Rightarrow> s32 \<times> 'lk"
  rw_destroy :: "'lk \<Rightarrow> s32 \<times> 'lk"
  rw_rdlock :: "'lk \<Rightarrow> s32 \<times> 'lk"
  rw_tryrdlock :: "'lk \<Rightarrow> s32 \<times> 'lk"
  rw_wrlock :: "'lk \<Rightarrow> s32 \<times> 'lk"
  rw_trywrlock :: "'lk \<Rightarrow> s32 \<times> 'lk"
  rw_unlock :: "'lk \<Rightarrow> s32 \<times> 'lk"

definition wrlock_init :: "'lk rwlock_ops \<Rightarrow> 'lk \<Rightarrow> s32 \<times> 'lk" where
  "wrlock_init P l = rw_init P l"

definition wrlock_destroy :: "'lk rwlock_ops \<Rightarrow> 'lk \<Rightarrow> 'lk" where
  "wrlock_destroy P l = snd (rw_destroy P l)"

definition wrlock_getwr :: "'lk rwlock_ops \<Rightarrow> 'lk \<Rightarrow> 'lk" where
  "wrlock_getwr P l = snd (rw_wrlock P l)"

definition wrlock_getrd :: "'lk rwlock_ops \<Rightarrow> 'lk \<Rightarrow> 'lk" where
  "wrlock_getrd P l = snd (rw_rdlock P l)"

definition wrlock_trygetwr :: "'lk rwlock_ops \<Rightarrow> 'lk \<Rightarrow> s32 \<times> 'lk" where
  "wrlock_trygetwr P l = rw_trywrlock P l"

definition wrlock_trygetrd :: "'lk rwlock_ops \<Rightarrow> 'lk \<Rightarrow> s32 \<times> 'lk" where
  "wrlock_trygetrd P l = rw_tryrdlock P l"

definition wrlock_unlock :: "'lk rwlock_ops \<Rightarrow> 'lk \<Rightarrow> 'lk" where
  "wrlock_unlock P l = snd (rw_unlock P l)"

record 'm mutex_ops =
  mx_init :: "int \<Rightarrow> 'm \<Rightarrow> s32 \<times> 'm"
  mx_destroy :: "'m \<Rightarrow> s32 \<times> 'm"
  mx_lock :: "'m \<Rightarrow> s32 \<times> 'm"
  mx_trylock :: "'m \<Rightarrow> s32 \<times> 'm"
  mx_unlock :: "'m \<Rightarrow> s32 \<times> 'm"

definition PTHREAD_MUTEX_ERRORCHECK :: int where "PTHREAD_MUTEX_ERRORCHECK = 2"

definition mutex_lock :: "'m mutex_ops \<Rightarrow> 'm \<Rightarrow> fault + 'm" where
  "mutex_lock P m = (let (ret, m) = mx_lock P m in if ret \<noteq> 0 then Inl Assert_Failed else Inr m)"

definition mutex_trylock :: "'m mutex_ops \<Rightarrow> 'm \<Rightarrow> s32 \<times> 'm" where
  "mutex_trylock P m = mx_trylock P m"

definition mutex_unlock :: "'m mutex_ops \<Rightarrow> 'm \<Rightarrow> fault + 'm" where
  "mutex_unlock P m = (let (ret, m) = mx_unlock P m in if ret \<noteq> 0 then Inl Assert_Failed else Inr m)"

definition mutex_init :: "'m mutex_ops \<Rightarrow> 'm \<Rightarrow> s32 \<times> 'm" where
  "mutex_init P m = mx_init P PTHREAD_MUTEX_ERRORCHECK m"

definition mutex_destroy :: "'m mutex_ops \<Rightarrow> 'm \<Rightarrow> 'm" where
  "mutex_destroy P m = snd (mx_destroy P m)"

record 's spin_ops =
  sp_init :: "s32 \<Rightarrow> 's \<Rightarrow> s32 \<times> 's"
  sp_lock :: "'s \<Rightarrow> s32 \<times> 's"
  sp_trylock :: "'s \<Rightarrow> s32 \<times> 's"
  sp_unlock :: "'s \<Rightarrow> s32 \<times> 's"
  sp_destroy :: "'s \<Rightarrow> s32 \<times> 's"

definition spin_init :: "'s spin_ops \<Rightarrow> 's \<Rightarrow> s32 \<Rightarrow> s32 \<times> 's" where
  "spin_init P l shared = sp_init P shared l"

definition spin_lock :: "'s spin_ops \<Rightarrow> 's \<Rightarrow> s32 \<times> 's" where
  "spin_lock P l = sp_lock P l"

definition spin_trylock :: "'s spin_ops \<Rightarrow> 's \<Rightarrow> s32 \<times> 's" where
  "spin_trylock P l = sp_trylock P l"

definition spin_unlock :: "'s spin_ops \<Rightarrow> 's \<Rightarrow> s32 \<times> 's" where
  "spin_unlock P l = sp_unlock P l"

definition spin_destroy :: "'s spin_ops \<Rightarrow> 's \<Rightarrow> s32 \<times> 's" where
  "spin_destroy P l = sp_destroy P l"

text \<open>Without _POSIX_ there are no spinlocks: every function answers - 1.\<close>

definition no_spin :: "'s spin_ops" where
  "no_spin = \<lparr>sp_init = (\<lambda>_ l. (- 1, l)), sp_lock = (\<lambda>l. (- 1, l)), sp_trylock = (\<lambda>l. (- 1, l)), sp_unlock = (\<lambda>l. (- 1, l)),
     sp_destroy = (\<lambda>l. (- 1, l))\<rparr>"

section \<open>The locks of pthread\<close>

definition EPERM :: s32 where "EPERM = 1"
definition EBUSY :: s32 where "EBUSY = 16"
definition EDEADLK :: s32 where "EDEADLK = 35"

text \<open>A readers-writer lock: the thread that writes, and the threads that read.\<close>

record rwl =
  wr_owner :: "nat option"
  rd_owners :: "nat list"

definition rwl_free :: rwl where "rwl_free = \<lparr>wr_owner = None, rd_owners = []\<rparr>"

text \<open>Whether the call of a thread waits: for writing, or for reading.\<close>

definition rw_waits :: "nat \<Rightarrow> bool \<Rightarrow> rwl \<Rightarrow> bool" where
  "rw_waits t wr l \<longleftrightarrow> wr_owner l \<noteq> Some t \<and> (wr_owner l \<noteq> None \<or> wr \<and> rd_owners l \<noteq> [])"

definition pthread_rw :: "nat \<Rightarrow> rwl rwlock_ops" where
  "pthread_rw t =
     \<lparr>rw_init = (\<lambda>l. (0, rwl_free)), rw_destroy = (\<lambda>l. (0, l)),
      rw_rdlock = (\<lambda>l. if wr_owner l = Some t then (EDEADLK, l) else (0, l\<lparr>rd_owners := t # rd_owners l\<rparr>)),
      rw_tryrdlock = (\<lambda>l. if wr_owner l \<noteq> None then (EBUSY, l) else (0, l\<lparr>rd_owners := t # rd_owners l\<rparr>)),
      rw_wrlock = (\<lambda>l. if wr_owner l = Some t then (EDEADLK, l) else (0, l\<lparr>wr_owner := Some t\<rparr>)),
      rw_trywrlock = (\<lambda>l. if wr_owner l \<noteq> None \<or> rd_owners l \<noteq> [] then (EBUSY, l) else (0, l\<lparr>wr_owner := Some t\<rparr>)),
      rw_unlock = (\<lambda>l. (0, if wr_owner l = Some t then l\<lparr>wr_owner := None\<rparr>
                         else l\<lparr>rd_owners := remove1 t (rd_owners l)\<rparr>))\<rparr>"

text \<open>A mutex of the error-checking kind: the thread that holds it.\<close>

definition mx_waits :: "nat \<Rightarrow> nat option \<Rightarrow> bool" where
  "mx_waits t m \<longleftrightarrow> m \<noteq> None \<and> m \<noteq> Some t"

definition pthread_mx :: "nat \<Rightarrow> nat option mutex_ops" where
  "pthread_mx t =
     \<lparr>mx_init = (\<lambda>k m. (0, None)), mx_destroy = (\<lambda>m. (0, m)),
      mx_lock = (\<lambda>m. if m = Some t then (EDEADLK, m) else (0, Some t)),
      mx_trylock = (\<lambda>m. if m \<noteq> None then (EBUSY, m) else (0, Some t)),
      mx_unlock = (\<lambda>m. if m = Some t then (0, None) else (EPERM, m))\<rparr>"

lemmas rw_wrappers = wrlock_init_def wrlock_destroy_def wrlock_getwr_def wrlock_getrd_def wrlock_trygetwr_def
  wrlock_trygetrd_def wrlock_unlock_def

lemma rw_calls [simp]:
  "wrlock_getwr (pthread_rw t) l = (if wr_owner l = Some t then l else l\<lparr>wr_owner := Some t\<rparr>)"
  "wrlock_getrd (pthread_rw t) l = (if wr_owner l = Some t then l else l\<lparr>rd_owners := t # rd_owners l\<rparr>)"
  "wrlock_unlock (pthread_rw t) l =
     (if wr_owner l = Some t then l\<lparr>wr_owner := None\<rparr> else l\<lparr>rd_owners := remove1 t (rd_owners l)\<rparr>)"
  "wrlock_trygetrd (pthread_rw t) l = (if wr_owner l \<noteq> None then (EBUSY, l) else (0, l\<lparr>rd_owners := t # rd_owners l\<rparr>))"
  "wrlock_trygetwr (pthread_rw t) l =
     (if wr_owner l \<noteq> None \<or> rd_owners l \<noteq> [] then (EBUSY, l) else (0, l\<lparr>wr_owner := Some t\<rparr>))"
  by (simp_all add: rw_wrappers pthread_rw_def)

text \<open>
  wrlock_getwr drops the answer of pthread: a thread that asks again for a lock it already writes under
  gets EDEADLK, goes on as if it held the lock twice, and its first unlock frees the lock for others.
\<close>

lemma nested_write_lock:
  assumes "wr_owner l = None" "rd_owners l = []" "t \<noteq> u"
  shows "rw_waits u True
      (wrlock_unlock (pthread_rw t) (wrlock_getwr (pthread_rw t) (wrlock_getwr (pthread_rw t) l))) = False"
  using assms by (simp add: rw_waits_def)

text \<open>The debug mutex notices both misuses: locking it twice and unlocking another thread's.\<close>

lemma mutex_misuse:
  "mutex_lock (pthread_mx t) (Some t) = Inl Assert_Failed"
  "m \<noteq> Some t \<Longrightarrow> mutex_unlock (pthread_mx t) m = Inl Assert_Failed"
  "\<not> mx_waits t m \<Longrightarrow> m \<noteq> Some t \<Longrightarrow> bindE (mutex_lock (pthread_mx t) m) (mutex_unlock (pthread_mx t)) = Inr m"
  by (simp_all add: mutex_lock_def mutex_unlock_def pthread_mx_def EDEADLK_def EPERM_def mx_waits_def)

end
