(* ===== verification/Vector.thy ===== *)
theory Vector
  imports Zmalloc Comparators Locks
begin

text \<open>
  src/spg_vector.c: the vector of equal-sized units, sorted by a compare callback when it
  was created with an order. The data block is kept as bytes, positions are multiplied by
  the unit size as the code does it, uint32_t and size_t wrap at their widths. The
  allocator (zmalloc, zrealloc) and the functions of the pthread lock are arguments. The last sections
  relate the bytes to the sequence of units and prove what each operation does to it.
\<close>

section \<open>State\<close>

text \<open>
  struct vec_st; \<open>vdata\<close> is the block behind the data pointer, None for NULL. The lock is
  a pthread object of unknown representation.
\<close>

record 'lk vec_st =
  unitSz :: u64
  vecLen :: u32
  used :: u32
  vcmp :: "u8 list compare"
  rwlock :: 'lk
  flag_order :: "2 word"
  vdata :: "u8 list option"

definition VEC_NONE_ORDER :: "2 word" where "VEC_NONE_ORDER = 0"
definition VEC_ASCEND_ORDER :: "2 word" where "VEC_ASCEND_ORDER = 1"
definition VEC_DSCEND_ORDER :: "2 word" where "VEC_DSCEND_ORDER = 2"
definition VEC_ERROR :: s32 where "VEC_ERROR = - 1"
definition VEC_INFINITE_VAL_32 :: u32 where "VEC_INFINITE_VAL_32 = - 1"
definition DFT_VECTOR_LEN :: u32 where "DFT_VECTOR_LEN = 16"
definition VEC_LEN_ALIGN_MASK :: u32 where "VEC_LEN_ALIGN_MASK = 8"
definition VEC_SPACE_EXPAND :: u32 where "VEC_SPACE_EXPAND = 256"

definition ALIGN_OF :: "u32 \<Rightarrow> u32 \<Rightarrow> u32" where
  "ALIGN_OF x msk = (x + msk) AND NOT msk"

lemma ret_codes [simp]: "SPG_OK \<noteq> VEC_ERROR" "VEC_ERROR \<noteq> SPG_OK" "VEC_ERROR \<noteq> 0"
  by (simp_all add: SPG_OK_def VEC_ERROR_def)

section \<open>Operations\<close>

text \<open>The unit that \<open>buf + idx * unitSz\<close> points to.\<close>

definition vec_unit :: "'lk vec_st \<Rightarrow> u32 \<Rightarrow> fault + u8 list" where
  "vec_unit vec idx = block_slice (vdata vec) (unat (ucast idx * unitSz vec)) (unat (unitSz vec))"

text \<open>
  The loop every search of the file runs: from \<open>idx\<close> on, the first unit whose comparison
  with the value passes the test, else a default.
\<close>

function vec_scan :: "'lk vec_st \<Rightarrow> (s32 \<Rightarrow> bool) \<Rightarrow> u8 list \<Rightarrow> u32 \<Rightarrow> u32 \<Rightarrow> fault + u32" where
  "vec_scan vec test val dflt idx =
     (if idx < used vec
      then bindE (vec_unit vec idx) (\<lambda>x.
             if test (vcmp vec val x) then Inr idx else vec_scan vec test val dflt (idx + 1))
      else Inr dflt)"
  by pat_completeness auto
termination
  by (relation "measure (\<lambda>(vec, test, val, dflt, idx). unat (used vec) - unat idx)")
    (auto simp: unat_Suc_less word_less_nat_alt)

declare vec_scan.simps [simp del]

definition ascend_find_pos :: "'lk vec_st \<Rightarrow> u8 list \<Rightarrow> fault + u32" where
  "ascend_find_pos vec val = vec_scan vec (\<lambda>r. sint r < 0) val (used vec) 0"

definition descend_find_pos :: "'lk vec_st \<Rightarrow> u8 list \<Rightarrow> fault + u32" where
  "descend_find_pos vec val = vec_scan vec (\<lambda>r. sint r > 0) val (used vec) 0"

definition find_pos :: "'lk vec_st \<Rightarrow> u8 list \<Rightarrow> fault + u32" where
  "find_pos vec val =
     (if used vec = 0 then Inr 0
      else if VEC_ASCEND_ORDER = flag_order vec then ascend_find_pos vec val
      else if VEC_DSCEND_ORDER = flag_order vec then descend_find_pos vec val
      else Inr (used vec))"

text \<open>\<open>vec->vecLen\<close> is read and not written.\<close>

definition vec_resize :: "zrealloc_fn \<Rightarrow> 'lk vec_st \<Rightarrow> s32 \<times> 'lk vec_st" where
  "vec_resize zr vec =
     (let newLen = vecLen vec +
            (if push_bit 1 (vecLen vec) \<ge> VEC_SPACE_EXPAND then VEC_SPACE_EXPAND
             else push_bit 1 (vecLen vec));
          vec' = vec\<lparr>vdata := zr (vdata vec) (unitSz vec * ucast newLen)\<rparr>
      in (if vdata vec' = None then VEC_ERROR else SPG_OK, vec'))"

definition vec_expand :: "'lk vec_st \<Rightarrow> u32 \<Rightarrow> u32 \<Rightarrow> fault + 'lk vec_st" where
  "vec_expand vec offset mvCnt =
     (let buf = unat (unitSz vec * ucast offset)
      in bindE (block_move (vdata vec) (buf + unat (ucast mvCnt * unitSz vec)) buf
                 (unat (ucast (used vec - offset) * unitSz vec)))
           (\<lambda>d. Inr (vec\<lparr>vdata := d\<rparr>)))"

definition vec_reduce :: "'lk vec_st \<Rightarrow> u32 \<Rightarrow> u32 \<Rightarrow> fault + 'lk vec_st" where
  "vec_reduce vec offset mvCnt =
     (let buf = unat (unitSz vec * ucast offset)
      in bindE (block_move (vdata vec) buf (buf + unat (ucast mvCnt * unitSz vec))
                 (unat (ucast (used vec - offset - mvCnt) * unitSz vec)))
           (\<lambda>d. Inr (vec\<lparr>vdata := d\<rparr>)))"

text \<open>\<open>val\<close> points to at least \<open>unitSz * cnt\<close> readable bytes, of which these are copied.\<close>

definition vec_set_val :: "'lk vec_st \<Rightarrow> u32 \<Rightarrow> u8 list \<Rightarrow> u32 \<Rightarrow> fault + 'lk vec_st" where
  "vec_set_val vec offset val cnt =
     bindE (mem_slice val 0 (unat (unitSz vec * ucast cnt))) (\<lambda>src.
     bindE (block_store (vdata vec) (unat (unitSz vec * ucast offset)) src) (\<lambda>d.
     Inr (vec\<lparr>vdata := d\<rparr>)))"

definition do_vec_add :: "zrealloc_fn \<Rightarrow> 'lk vec_st \<Rightarrow> u8 list \<Rightarrow> fault + s32 \<times> 'lk vec_st" where
  "do_vec_add zr vec val =
     (let (ret, vec) = (if used vec = vecLen vec then vec_resize zr vec else (SPG_OK, vec))
      in if ret \<noteq> 0 then Inr (ret, vec)
         else bindE (find_pos vec val) (\<lambda>offset.
              bindE (vec_expand vec offset 1) (\<lambda>vec.
              bindE (vec_set_val vec offset val 1) (\<lambda>vec.
              Inr (SPG_OK, vec\<lparr>used := used vec + 1\<rparr>)))))"

definition dichotomy_find :: "'lk vec_st \<Rightarrow> u8 list \<Rightarrow> fault + u32" where
  "dichotomy_find vec val = vec_scan vec (\<lambda>r. 0 = sint r) val VEC_INFINITE_VAL_32 0"

definition do_vec_find :: "'lk vec_st \<Rightarrow> u8 list \<Rightarrow> fault + u32" where
  "do_vec_find vec val =
     (if VEC_NONE_ORDER = flag_order vec
      then vec_scan vec (\<lambda>r. 0 = sint r) val VEC_INFINITE_VAL_32 0
      else dichotomy_find vec val)"

text \<open>A pointer into the data block is its byte offset; \<open>vec_deref\<close> reads a unit there.\<close>

definition do_vec_get :: "'lk vec_st \<Rightarrow> u32 \<Rightarrow> fault + u64" where
  "do_vec_get vec offset =
     bindE (guardE (offset < used vec) Assert_Failed) (\<lambda>_. Inr (unitSz vec * ucast offset))"

definition vec_deref :: "'lk vec_st \<Rightarrow> u64 \<Rightarrow> fault + u8 list" where
  "vec_deref vec p = block_slice (vdata vec) (unat p) (unat (unitSz vec))"

definition do_vec_find_get :: "'lk vec_st \<Rightarrow> u8 list \<Rightarrow> fault + u64 option" where
  "do_vec_find_get vec val =
     bindE (do_vec_find vec val) (\<lambda>offset.
       if VEC_INFINITE_VAL_32 = offset then Inr None
       else bindE (do_vec_get vec offset) (\<lambda>p. Inr (Some p)))"

definition do_vec_get_len :: "'lk vec_st \<Rightarrow> u32" where
  "do_vec_get_len vec = used vec"

definition do_vec_del :: "'lk vec_st \<Rightarrow> u32 \<Rightarrow> fault + s32 \<times> 'lk vec_st" where
  "do_vec_del vec offset =
     (if 0 = used vec then Inr (SPG_OK, vec)
      else bindE (guardE (offset < used vec) Assert_Failed) (\<lambda>_.
           bindE (vec_reduce vec offset 1) (\<lambda>vec.
           Inr (SPG_OK, vec\<lparr>used := used vec - 1\<rparr>))))"

text \<open>
  Creation. \<open>struct_ok\<close> says whether zcalloc found room for the struct, \<open>lk\<close> is the lock
  as pthread_rwlock_init leaves it.
\<close>

definition get_vector :: "bool \<Rightarrow> zmalloc_fn \<Rightarrow> 'lk \<Rightarrow> u64 \<Rightarrow> u8 list compare option \<Rightarrow> u32 \<Rightarrow> u32
    \<Rightarrow> 'lk vec_st option" where
  "get_vector struct_ok zm lk sz cmpf len flag =
     (case cmpf of None \<Rightarrow> None
      | Some f \<Rightarrow>
          if 0 \<ge> sz then None
          else if \<not> struct_ok then None
          else let vl = (if len = 0 then DFT_VECTOR_LEN else ALIGN_OF len VEC_LEN_ALIGN_MASK)
               in case zm (ucast vl * sz) of
                    None \<Rightarrow> None
                  | Some b \<Rightarrow> Some \<lparr>unitSz = sz, vecLen = vl, used = 0, vcmp = f, rwlock = lk,
                                   flag_order = ucast flag, vdata = Some b\<rparr>)"

text \<open>What a destructor does, in order.\<close>

datatype 'lk vec_release =
  Lock_Destroyed 'lk | Freed_Data "u8 list option" | Freed_Struct "'lk vec_st"

definition free_vector :: "'lk vec_st option \<Rightarrow> 'lk vec_release list" where
  "free_vector vec = (case vec of None \<Rightarrow> [] | Some v \<Rightarrow> [Lock_Destroyed (rwlock v), Freed_Data (vdata v), Freed_Struct v])"

text \<open>
  Export: a copy of the struct with its own vecLen, the shared data block and its size in
  use. On failure pack and data are NULL and the size is not written.
\<close>

definition export_vector_pack :: "bool \<Rightarrow> 'lk vec_st \<Rightarrow> u64
    \<Rightarrow> s32 \<times> 'lk vec_st option \<times> u8 list option \<times> u64" where
  "export_vector_pack struct_ok vec sz =
     (if \<not> struct_ok then (VEC_ERROR, None, None, sz)
      else (SPG_OK, Some (vec\<lparr>vecLen := ALIGN_OF (used vec) 8\<rparr>), vdata vec,
            ucast (used vec) * unitSz vec))"

definition free_vector_pack :: "'lk vec_st \<Rightarrow> u8 list option \<Rightarrow> 'lk vec_release list" where
  "free_vector_pack pack data = [Freed_Struct pack]"

definition import_vector_pack :: "bool \<Rightarrow> zmalloc_fn \<Rightarrow> 'lk \<Rightarrow> 'lk vec_st \<Rightarrow> u8 list compare
    \<Rightarrow> u8 list option \<Rightarrow> u64 \<Rightarrow> fault + 'lk vec_st option" where
  "import_vector_pack struct_ok zm lk imp cmpf data sz =
     (if \<not> struct_ok then Inr None
      else let vec = imp\<lparr>rwlock := lk, vcmp := cmpf, vdata := zm sz\<rparr>
           in if vdata vec = None then Inr None
              else bindE (if sz = 0 then Inr [] else block_slice data 0 (unat sz)) (\<lambda>src.
                   bindE (block_store (vdata vec) 0 src) (\<lambda>d.
                   Inr (Some (vec\<lparr>vdata := d\<rparr>)))))"

text \<open>The lock operations, on the lock in the struct.\<close>

definition do_read_lock :: "'lk rwlock_ops \<Rightarrow> 'lk vec_st \<Rightarrow> 'lk vec_st" where
  "do_read_lock P vec = vec\<lparr>rwlock := wrlock_getrd P (rwlock vec)\<rparr>"

definition do_read_trylock :: "'lk rwlock_ops \<Rightarrow> 'lk vec_st \<Rightarrow> s32 \<times> 'lk vec_st" where
  "do_read_trylock P vec =
     (let (r, l) = wrlock_trygetrd P (rwlock vec) in (r, vec\<lparr>rwlock := l\<rparr>))"

definition do_write_lock :: "'lk rwlock_ops \<Rightarrow> 'lk vec_st \<Rightarrow> 'lk vec_st" where
  "do_write_lock P vec = vec\<lparr>rwlock := wrlock_getwr P (rwlock vec)\<rparr>"

definition do_write_trylock :: "'lk rwlock_ops \<Rightarrow> 'lk vec_st \<Rightarrow> s32 \<times> 'lk vec_st" where
  "do_write_trylock P vec =
     (let (r, l) = wrlock_trygetwr P (rwlock vec) in (r, vec\<lparr>rwlock := l\<rparr>))"

definition do_wr_unlock :: "'lk rwlock_ops \<Rightarrow> 'lk vec_st \<Rightarrow> 'lk vec_st" where
  "do_wr_unlock P vec = vec\<lparr>rwlock := wrlock_unlock P (rwlock vec)\<rparr>"

section \<open>The sequence of units\<close>

definition elems :: "'lk vec_st \<Rightarrow> u8 list list" where
  "elems v = (case vdata v of None \<Rightarrow> [] | Some b \<Rightarrow> units (unat (unitSz v)) (unat (used v)) b)"

text \<open>The block exists, is a C object and holds the units in use.\<close>

definition vec_inv :: "'lk vec_st \<Rightarrow> bool" where
  "vec_inv v = (case vdata v of None \<Rightarrow> False
     | Some b \<Rightarrow> 0 < unat (unitSz v) \<and> unat (used v) * unat (unitSz v) \<le> length b \<and> length b < 2 ^ 64)"

text \<open>There is room for one more unit, and the count does not wrap.\<close>

definition vec_room :: "'lk vec_st \<Rightarrow> bool" where
  "vec_room v = (case vdata v of None \<Rightarrow> False
     | Some b \<Rightarrow> (unat (used v) + 1) * unat (unitSz v) \<le> length b \<and> unat (used v) + 1 < 2 ^ 32)"

lemma vec_invE:
  assumes "vec_inv v"
  obtains b where "vdata v = Some b" "0 < unat (unitSz v)"
    "unat (used v) * unat (unitSz v) \<le> length b" "length b < 2 ^ 64"
    "elems v = units (unat (unitSz v)) (unat (used v)) b"
  using assms by (auto simp: vec_inv_def elems_def split: option.splits)

lemma length_elems: "vec_inv v \<Longrightarrow> length (elems v) = unat (used v)"
  by (auto elim!: vec_invE)

lemma elems_unit_length: "vec_inv v \<Longrightarrow> x \<in> set (elems v) \<Longrightarrow> length x = unat (unitSz v)"
  by (auto elim!: vec_invE dest: unit_length)

lemma unat_unit_offset:
  assumes "unat (idx :: u32) * unat (sz :: u64) < 2 ^ 64"
  shows "unat (ucast idx * sz) = unat idx * unat sz" "unat (sz * ucast idx) = unat idx * unat sz"
  using assms unat_mult_no_wrap [of "ucast idx :: u64" sz] by (simp_all add: mult.commute)

lemma offset_bound:
  assumes "vec_inv v" "unat (idx :: u32) \<le> unat (used v)"
  shows "unat idx * unat (unitSz v) < 2 ^ 64"
proof -
  have "unat (used v) * unat (unitSz v) < 2 ^ 64"
    using assms(1) by (elim vec_invE) linarith
  then show ?thesis
    using mult_le_mono1 [OF assms(2), of "unat (unitSz v)"] by linarith
qed

lemma unit_bound: "i < n \<Longrightarrow> n * u \<le> (l :: nat) \<Longrightarrow> i * u + u \<le> l"
  by (metis Suc_leI add.commute le_trans mult_Suc mult_le_mono1)

lemma vec_unit_elems:
  assumes "vec_inv v" "idx < used v"
  shows "vec_unit v idx = Inr (elems v ! unat idx)"
proof -
  obtain b where b: "vdata v = Some b" "unat (used v) * unat (unitSz v) \<le> length b"
      "elems v = units (unat (unitSz v)) (unat (used v)) b"
    using assms(1) by (elim vec_invE)
  have i: "unat idx < unat (used v)" using assms(2) by (simp add: word_less_nat_alt)
  have off: "unat (ucast idx * unitSz v) = unat idx * unat (unitSz v)"
    using offset_bound [OF assms(1), of idx] i by (simp add: unat_unit_offset)
  show ?thesis
    using b i off unit_bound [OF i b(2)] by (simp add: vec_unit_def mem_slice_def unit_at_def)
qed

lemma vec_scan_drop:
  assumes "vec_inv v"
  shows "unat idx \<le> unat (used v) \<Longrightarrow>
    vec_scan v test val dflt idx =
      Inr (let k = first_hit (\<lambda>x. test (vcmp v val x)) (drop (unat idx) (elems v))
           in if unat idx + k < unat (used v) then of_nat (unat idx + k) else dflt)"
  using assms
proof (induction v test val dflt idx rule: vec_scan.induct)
  case (1 v test val dflt idx)
  note inv = "1.prems"(2)
  show ?case
  proof (cases "idx < used v")
    case True
    then have lt: "unat idx < length (elems v)"
      using inv by (simp add: length_elems word_less_nat_alt)
    have suc: "unat (idx + 1) = Suc (unat idx)" using True by (rule unat_Suc_less)
    have split: "drop (unat idx) (elems v) = elems v ! unat idx # drop (Suc (unat idx)) (elems v)"
      using lt by (rule Cons_nth_drop_Suc [symmetric])
    show ?thesis
    proof (cases "test (vcmp v val (elems v ! unat idx))")
      case True
      with \<open>idx < used v\<close> inv lt split show ?thesis
        by (simp add: vec_scan.simps [of v] vec_unit_elems first_hit_def length_elems)
    next
      case False
      with "1.IH" [OF True vec_unit_elems [OF inv True] False] True inv lt suc show ?thesis
        by (simp add: vec_scan.simps [of v _ _ _ idx] vec_unit_elems split first_hit_def length_elems
              Let_def)
    qed
  next
    case False
    with "1.prems" have "unat idx = unat (used v)" by (simp add: word_less_nat_alt)
    with False inv show ?thesis
      by (simp add: vec_scan.simps [of v] first_hit_def length_elems)
  qed
qed

lemma vec_scan_elems:
  assumes "vec_inv v"
  shows "vec_scan v test val dflt 0 =
    Inr (let k = first_hit (\<lambda>x. test (vcmp v val x)) (elems v)
         in if k < unat (used v) then of_nat k else dflt)"
  using vec_scan_drop [OF assms, of 0 test val dflt] by (simp add: Let_def)

section \<open>What the operations do to the sequence\<close>

text \<open>The position an insertion takes, as a position of the sequence.\<close>

definition insert_pos :: "'lk vec_st \<Rightarrow> u8 list \<Rightarrow> nat" where
  "insert_pos v val =
     (if flag_order v = VEC_ASCEND_ORDER then first_hit (\<lambda>x. sint (vcmp v val x) < 0) (elems v)
      else if flag_order v = VEC_DSCEND_ORDER then first_hit (\<lambda>x. sint (vcmp v val x) > 0) (elems v)
      else length (elems v))"

lemma insert_pos_le: "insert_pos v val \<le> length (elems v)"
  by (simp add: insert_pos_def first_hit_le)

lemma scan_pos:
  assumes "vec_inv v"
  shows "vec_scan v test val (used v) 0 =
    Inr (of_nat (first_hit (\<lambda>x. test (vcmp v val x)) (elems v)))"
proof -
  have "first_hit (\<lambda>x. test (vcmp v val x)) (elems v) \<le> unat (used v)"
    using first_hit_le [of _ "elems v"] assms by (simp add: length_elems)
  then show ?thesis
    using assms by (auto simp: vec_scan_elems Let_def order_le_less)
qed

lemma find_pos_elems: "vec_inv v \<Longrightarrow> find_pos v val = Inr (of_nat (insert_pos v val))"
  by (auto simp: find_pos_def ascend_find_pos_def descend_find_pos_def scan_pos insert_pos_def
      length_elems first_hit_def dest: length_elems [of v])

lemma unat_of_pos: "k \<le> unat (n :: u32) \<Longrightarrow> unat (of_nat k :: u32) = k"
  using unsigned_less [of n, where ?'a = nat]
  by (simp add: unat_of_nat take_bit_nat_eq_self)

lemma count_bytes:
  assumes inv: "vec_inv v" and p: "p \<le> unat (used v)"
  shows "unat (ucast (used v - of_nat p) * unitSz v) = (unat (used v) - p) * unat (unitSz v)"
proof -
  have "unat (used v - of_nat p) = unat (used v) - p"
    using unat_of_pos [OF p] p by (subst unat_sub) (simp_all add: word_le_nat_alt)
  then show ?thesis
    using unat_unit_offset(1) [of "used v - of_nat p" "unitSz v"]
      offset_bound [OF inv, of "used v - of_nat p"] by simp
qed

text \<open>Opening a gap of one unit at a position and filling it.\<close>

lemma vec_insert_at:
  assumes inv: "vec_inv v" and room: "vec_room v" and p: "p \<le> length (elems v)"
    and len: "length val = unat (unitSz v)"
  shows "\<exists>d. bindE (vec_expand v (of_nat p) 1) (\<lambda>v'. vec_set_val v' (of_nat p) val 1)
              = Inr (v\<lparr>vdata := Some d\<rparr>)
           \<and> vec_inv (v\<lparr>vdata := Some d, used := used v + 1\<rparr>)
           \<and> elems (v\<lparr>vdata := Some d, used := used v + 1\<rparr>) = take p (elems v) @ val # drop p (elems v)
           \<and> length d = length (the (vdata v))"
proof -
  let ?u = "unat (unitSz v)" and ?n = "unat (used v)"
  obtain b where b: "vdata v = Some b" "0 < ?u" "?n * ?u \<le> length b" "length b < 2 ^ 64"
      "elems v = units ?u ?n b"
    using inv by (elim vec_invE)
  have room': "?n * ?u + ?u \<le> length b" "?n + 1 < 2 ^ 32"
    using room b(1) by (auto simp: vec_room_def)
  have pn: "p \<le> ?n" using p inv by (simp add: length_elems)
  obtain m d where md: "mem_move b (p * ?u + ?u) (p * ?u) ((?n - p) * ?u) = Inr m"
      "mem_store m (p * ?u) val = Inr d"
      "units ?u (Suc ?n) d = take p (elems v) @ val # drop p (elems v)" "length d = length b"
    using units_insert [OF room'(1) pn len] b(5) by auto
  have up: "unat (of_nat p :: u32) = p" using unat_of_pos pn by simp
  have off: "unat (unitSz v * ucast (of_nat p :: u32)) = p * ?u"
    using unat_unit_offset(2) [of "of_nat p" "unitSz v"] offset_bound [OF inv, of "of_nat p"] up pn
    by simp
  have cnt: "unat (ucast (used v - of_nat p) * unitSz v) = (?n - p) * ?u"
    using count_bytes [OF inv] pn by simp
  have "unat (used v + 1) = Suc ?n"
    using unat_add_no_wrap [of "used v" 1] room'(2) by simp
  then show ?thesis
    using md off cnt len b(1,2,4) room' by (intro exI [of _ d])
      (simp add: vec_expand_def vec_set_val_def mem_slice_def elems_def vec_inv_def add.commute)
qed

lemma bindE_pair_assoc:
  "bindE m (\<lambda>v. bindE (f v) (\<lambda>v'. Inr (g v'))) = bindE (bindE m f) (\<lambda>v'. Inr (g v'))"
  by (simp add: bindE_assoc)

lemma do_vec_add_room:
  assumes inv: "vec_inv v" and room: "vec_room v" and len: "length val = unat (unitSz v)"
    and full: "used v \<noteq> vecLen v"
  shows "\<exists>d. do_vec_add zr v val = Inr (SPG_OK, v\<lparr>vdata := Some d, used := used v + 1\<rparr>)
           \<and> vec_inv (v\<lparr>vdata := Some d, used := used v + 1\<rparr>)
           \<and> elems (v\<lparr>vdata := Some d, used := used v + 1\<rparr>) =
               take (insert_pos v val) (elems v) @ val # drop (insert_pos v val) (elems v)
           \<and> length d = length (the (vdata v))"
proof -
  obtain d where d: "bindE (vec_expand v (of_nat (insert_pos v val)) 1)
        (\<lambda>v'. vec_set_val v' (of_nat (insert_pos v val)) val 1) = Inr (v\<lparr>vdata := Some d\<rparr>)"
      "vec_inv (v\<lparr>vdata := Some d, used := used v + 1\<rparr>)"
      "elems (v\<lparr>vdata := Some d, used := used v + 1\<rparr>) =
         take (insert_pos v val) (elems v) @ val # drop (insert_pos v val) (elems v)"
      "length d = length (the (vdata v))"
    using vec_insert_at [OF inv room insert_pos_le len, of val] by auto
  then show ?thesis
    using full inv
    by (intro exI [of _ d]) (simp add: do_vec_add_def Let_def SPG_OK_def find_pos_elems bindE_pair_assoc)
qed

text \<open>The units the block holds after the vector of a given vecLen was resized.\<close>

definition cap_after :: "nat \<Rightarrow> nat" where
  "cap_after l = l + (if 128 \<le> l then 256 else 2 * l)"

lemma vec_resize_units:
  assumes "unat (vecLen v) < 2 ^ 31"
  shows "unat (vecLen v + (if push_bit 1 (vecLen v) \<ge> VEC_SPACE_EXPAND then VEC_SPACE_EXPAND
           else push_bit 1 (vecLen v))) = cap_after (unat (vecLen v))"
proof -
  have dbl: "unat (push_bit 1 (vecLen v)) = 2 * unat (vecLen v)"
    using assms by (simp add: push_bit_eq_mult unat_mult_no_wrap mult.commute)
  have "push_bit 1 (vecLen v) \<ge> VEC_SPACE_EXPAND \<longleftrightarrow> 128 \<le> unat (vecLen v)"
    unfolding VEC_SPACE_EXPAND_def word_le_nat_alt dbl by simp
  then show ?thesis
    using assms dbl unat_add_no_wrap [of "vecLen v" VEC_SPACE_EXPAND]
      unat_add_no_wrap [of "vecLen v" "push_bit 1 (vecLen v)"]
    by (simp add: cap_after_def VEC_SPACE_EXPAND_def)
qed

text \<open>The next addition is within the block, directly or after the resize it triggers.\<close>

definition vec_can_add :: "'lk vec_st \<Rightarrow> bool" where
  "vec_can_add v =
     (if used v = vecLen v
      then 0 < unat (vecLen v) \<and> unat (vecLen v) < 2 ^ 31
        \<and> cap_after (unat (vecLen v)) * unat (unitSz v) < 2 ^ 64 - 8
        \<and> length (the (vdata v)) \<le> cap_after (unat (vecLen v)) * unat (unitSz v)
      else vec_room v)"

lemma vec_resize_grows:
  assumes alloc: "allocator zm zr" and inv: "vec_inv v" and can: "vec_can_add v"
    and full: "used v = vecLen v"
  obtains "vec_resize zr v = (VEC_ERROR, v\<lparr>vdata := None\<rparr>)"
  | b where "vec_resize zr v = (SPG_OK, v\<lparr>vdata := Some b\<rparr>)" "vec_inv (v\<lparr>vdata := Some b\<rparr>)"
      "vec_room (v\<lparr>vdata := Some b\<rparr>)" "elems (v\<lparr>vdata := Some b\<rparr>) = elems v"
      "length b = cap_after (unat (vecLen v)) * unat (unitSz v)"
proof -
  let ?u = "unat (unitSz v)" and ?l = "unat (vecLen v)"
  define n where "n = unitSz v * ucast (vecLen v + (if push_bit 1 (vecLen v) \<ge> VEC_SPACE_EXPAND
      then VEC_SPACE_EXPAND else push_bit 1 (vecLen v)))"
  obtain b0 where b0: "vdata v = Some b0" "0 < ?u" "?l * ?u \<le> length b0"
      "elems v = units ?u ?l b0"
    using inv full by (auto elim!: vec_invE)
  have l: "0 < ?l" "?l < 2 ^ 31" "cap_after ?l * ?u < 2 ^ 64 - 8" "length b0 \<le> cap_after ?l * ?u"
    using can full b0(1) by (auto simp: vec_can_add_def)
  have n: "unat n = cap_after ?l * ?u"
    using l(3) vec_resize_units [OF l(2)] by (simp add: n_def unat_unit_offset)
  have rs: "vec_resize zr v = (if zr (Some b0) n = None then VEC_ERROR else SPG_OK, v\<lparr>vdata := zr (Some b0) n\<rparr>)"
    using b0(1) by (simp add: vec_resize_def n_def Let_def)
  show ?thesis
  proof (cases "zr (Some b0) n")
    case None
    then show ?thesis using that(1) rs by simp
  next
    case (Some b)
    have lb: "length b = cap_after ?l * ?u"
      using allocator.zr_grow(1) [OF alloc _ Some] n l by simp
    have "units ?u ?l b = units ?u ?l b0"
      using allocator.zr_grow_units [OF alloc _ Some] n l b0(3) by simp
    moreover have "(?l + 1) * ?u \<le> cap_after ?l * ?u"
      using l(1) by (intro mult_le_mono1) (simp add: cap_after_def)
    moreover have "?l \<le> cap_after ?l" by (simp add: cap_after_def)
    ultimately show ?thesis
      using that(2) [of b] rs Some b0 full l lb
      by (simp add: vec_inv_def vec_room_def elems_def)
  qed
qed

text \<open>An addition where the vector can take it.\<close>

lemma do_vec_add_ok:
  assumes alloc: "allocator zm zr" and inv: "vec_inv v" and can: "vec_can_add v"
    and len: "length val = unat (unitSz v)"
  shows "(used v = vecLen v \<and> do_vec_add zr v val = Inr (VEC_ERROR, v\<lparr>vdata := None\<rparr>))
    \<or> (\<exists>d. do_vec_add zr v val = Inr (SPG_OK, v\<lparr>vdata := Some d, used := used v + 1\<rparr>)
        \<and> vec_inv (v\<lparr>vdata := Some d, used := used v + 1\<rparr>)
        \<and> elems (v\<lparr>vdata := Some d, used := used v + 1\<rparr>) =
             take (insert_pos v val) (elems v) @ val # drop (insert_pos v val) (elems v)
        \<and> length d = (if used v = vecLen v then cap_after (unat (vecLen v)) * unat (unitSz v)
                     else length (the (vdata v))))"
proof (cases "used v = vecLen v")
  case False
  then show ?thesis
    using do_vec_add_room [OF inv _ len] can by (auto simp: vec_can_add_def)
next
  case True
  show ?thesis
  proof (rule vec_resize_grows [OF alloc inv can True])
    assume "vec_resize zr v = (VEC_ERROR, v\<lparr>vdata := None\<rparr>)"
    then show ?thesis using True by (simp add: do_vec_add_def VEC_ERROR_def)
  next
    fix b
    let ?v = "v\<lparr>vdata := Some b\<rparr>"
    assume b: "vec_resize zr v = (SPG_OK, ?v)" "vec_inv ?v" "vec_room ?v" "elems ?v = elems v"
      "length b = cap_after (unat (vecLen v)) * unat (unitSz v)"
    obtain d where d: "bindE (vec_expand ?v (of_nat (insert_pos ?v val)) 1)
          (\<lambda>v'. vec_set_val v' (of_nat (insert_pos ?v val)) val 1) = Inr (?v\<lparr>vdata := Some d\<rparr>)"
        "vec_inv (?v\<lparr>vdata := Some d, used := used ?v + 1\<rparr>)"
        "elems (?v\<lparr>vdata := Some d, used := used ?v + 1\<rparr>) =
           take (insert_pos ?v val) (elems ?v) @ val # drop (insert_pos ?v val) (elems ?v)"
        "length d = length b"
      using vec_insert_at [OF b(2,3) insert_pos_le [of ?v val], of val] len by auto
    have "insert_pos ?v val = insert_pos v val" using b(4) by (simp add: insert_pos_def)
    then show ?thesis
      using d b True find_pos_elems [OF b(2), of val]
      by (intro disjI2 exI [of _ d]) (simp add: do_vec_add_def SPG_OK_def bindE_pair_assoc)
  qed
qed

subsection \<open>Order\<close>

definition vec_sorted :: "'lk vec_st \<Rightarrow> bool" where
  "vec_sorted v =
     (if flag_order v = VEC_ASCEND_ORDER then cmp_sorted (vcmp v) (elems v)
      else if flag_order v = VEC_DSCEND_ORDER then cmp_sorted (cmp_flip (vcmp v)) (elems v)
      else True)"

lemma insert_pos_sorted:
  assumes cmp: "comparator D (vcmp v)" and D: "set (elems v) \<subseteq> D" "val \<in> D"
    and srt: "vec_sorted v"
  shows "flag_order v = VEC_ASCEND_ORDER \<Longrightarrow>
      cmp_sorted (vcmp v) (take (insert_pos v val) (elems v) @ val # drop (insert_pos v val) (elems v))"
    "flag_order v = VEC_DSCEND_ORDER \<Longrightarrow>
      cmp_sorted (cmp_flip (vcmp v)) (take (insert_pos v val) (elems v) @ val # drop (insert_pos v val) (elems v))"
proof -
  let ?p = "insert_pos v val"
  have inD: "i < ?p \<Longrightarrow> elems v ! i \<in> D" "?p < length (elems v) \<Longrightarrow> elems v ! ?p \<in> D" for i
    using insert_pos_le [of v val] D(1) nth_mem by (fastforce dest: order_less_le_trans)+
  {
    assume asc: "flag_order v = VEC_ASCEND_ORDER"
    then have p: "?p = first_hit (\<lambda>x. sint (vcmp v val x) < 0) (elems v)"
      by (simp add: insert_pos_def)
    show "cmp_sorted (vcmp v) (take ?p (elems v) @ val # drop ?p (elems v))"
    proof (rule comparator.sorted_insert_at [OF cmp D])
      show "cmp_sorted (vcmp v) (elems v)" using srt asc by (simp add: vec_sorted_def)
      show "\<forall>i<?p. cmp_le (vcmp v) (elems v ! i) val"
        using first_hit_before [of _ "\<lambda>x. sint (vcmp v val x) < 0" "elems v"] inD(1) D(2)
        by (auto simp: p comparator.cmp_le_iff [OF cmp] not_less)
      show "cmp_le (vcmp v) val (elems v ! ?p)" if "?p < length (elems v)"
        using first_hit_hit [of "\<lambda>x. sint (vcmp v val x) < 0" "elems v"] that
        by (simp add: p cmp_le_def)
    qed (rule insert_pos_le)
  }
  {
    assume dsc: "flag_order v = VEC_DSCEND_ORDER"
    then have p: "?p = first_hit (\<lambda>x. sint (vcmp v val x) > 0) (elems v)"
      by (simp add: insert_pos_def VEC_ASCEND_ORDER_def VEC_DSCEND_ORDER_def)
    show "cmp_sorted (cmp_flip (vcmp v)) (take ?p (elems v) @ val # drop ?p (elems v))"
    proof (rule comparator.sorted_insert_at [OF comparator.flip_comparator [OF cmp] D])
      show "cmp_sorted (cmp_flip (vcmp v)) (elems v)"
        using srt dsc by (simp add: vec_sorted_def VEC_ASCEND_ORDER_def VEC_DSCEND_ORDER_def)
      show "\<forall>i<?p. cmp_le (cmp_flip (vcmp v)) (elems v ! i) val"
        using first_hit_before [of _ "\<lambda>x. sint (vcmp v val x) > 0" "elems v"]
        by (auto simp: p cmp_le_def cmp_flip_def not_less)
      show "cmp_le (cmp_flip (vcmp v)) val (elems v ! ?p)" if "?p < length (elems v)"
        using first_hit_hit [of "\<lambda>x. sint (vcmp v val x) > 0" "elems v"] that inD(2) D(2)
          comparator.cmp_neg_iff [OF cmp, of "elems v ! ?p" val]
        by (simp add: p cmp_le_def cmp_flip_def)
    qed (rule insert_pos_le)
  }
qed

subsection \<open>Runs of additions\<close>

fun do_vec_adds :: "zrealloc_fn \<Rightarrow> 'lk vec_st \<Rightarrow> u8 list list \<Rightarrow> fault + s32 \<times> 'lk vec_st" where
  "do_vec_adds zr v [] = Inr (SPG_OK, v)"
| "do_vec_adds zr v (x # xs) =
     bindE (do_vec_add zr v x) (\<lambda>(r, v). if r \<noteq> 0 then Inr (r, v) else do_vec_adds zr v xs)"

text \<open>
  A vector that only ever grew from a fresh one: its block has room for vecLen units
  until the first resize, and for \<open>cap_after\<close> of them from then on.
\<close>

definition vec_phase :: "'lk vec_st \<Rightarrow> bool" where
  "vec_phase v \<longleftrightarrow> vec_inv v
     \<and> 0 < unat (vecLen v) \<and> unat (vecLen v) < 2 ^ 31
     \<and> cap_after (unat (vecLen v)) * unat (unitSz v) < 2 ^ 64 - 8
     \<and> length (the (vdata v)) =
         (if used v \<le> vecLen v then unat (vecLen v) else cap_after (unat (vecLen v))) * unat (unitSz v)"

lemma cap_after_bounds: "0 < l \<Longrightarrow> l < cap_after l" "l < 2 ^ 31 \<Longrightarrow> cap_after l < 2 ^ 32 - 1"
  by (auto simp: cap_after_def)

lemma vec_phase_can_add:
  assumes "vec_phase v" "unat (used v) < cap_after (unat (vecLen v))"
  shows "vec_can_add v"
proof (cases "used v = vecLen v")
  case True
  then show ?thesis using assms
    by (auto simp: vec_phase_def vec_can_add_def cap_after_def)
next
  case False
  let ?l = "unat (vecLen v)" and ?u = "unat (unitSz v)"
  obtain b where b: "vdata v = Some b" using assms(1) by (auto simp: vec_phase_def elim!: vec_invE)
  have "unat (used v) \<noteq> ?l" using False by (simp add: word_unat_eq_iff)
  then have "unat (used v) + 1 \<le> (if used v \<le> vecLen v then ?l else cap_after ?l)"
    using assms(2) by (auto simp: word_le_nat_alt)
  then have "(unat (used v) + 1) * ?u \<le> length b"
    using assms(1) b mult_le_mono1 by (simp only: vec_phase_def option.sel)
  then show ?thesis
    using False assms cap_after_bounds(2) [of ?l] b
    by (auto simp: vec_can_add_def vec_room_def vec_phase_def)
qed

lemma do_vec_add_overflow:
  assumes inv: "vec_inv v" and full: "used v \<noteq> vecLen v" and len: "length val = unat (unitSz v)"
    and over: "length (the (vdata v)) < (unat (used v) + 1) * unat (unitSz v)"
  shows "do_vec_add zr v val = Inl Out_Of_Bounds"
proof -
  let ?u = "unat (unitSz v)" and ?n = "unat (used v)" and ?p = "insert_pos v val"
  obtain b where b: "vdata v = Some b" "0 < ?u" "?n * ?u \<le> length b" "length b < 2 ^ 64"
    using inv by (elim vec_invE)
  have p: "?p \<le> ?n" using insert_pos_le [of v val] inv by (simp add: length_elems)
  have up: "unat (of_nat ?p :: u32) = ?p" using unat_of_pos [OF p] .
  have off: "unat (unitSz v * ucast (of_nat ?p :: u32)) = ?p * ?u"
    using unat_unit_offset(2) [of "of_nat ?p" "unitSz v"] offset_bound [OF inv, of "of_nat ?p"] up p
    by simp
  have cnt: "unat (ucast (used v - of_nat ?p) * unitSz v) = (?n - ?p) * ?u"
    using count_bytes [OF inv p] .
  have "?p * ?u + ?u + (?n - ?p) * ?u = (?n + 1) * ?u" 
    using diff_mult_distrib [of ?n ?p ?u] mult_le_mono1 [OF p, of ?u] by (simp only: add_mult_distrib)
  then have "bindE (vec_expand v (of_nat ?p) 1) (\<lambda>v'. vec_set_val v' (of_nat ?p) val 1) = Inl Out_Of_Bounds"
    using b off cnt len over p
    by (cases "?p = ?n") (auto simp: vec_expand_def vec_set_val_def mem_move_def mem_store_def
        mem_slice_def add.commute)
  then show ?thesis
    using full find_pos_elems [OF inv, of val]
    by (simp add: do_vec_add_def Let_def SPG_OK_def bindE_pair_assoc)
qed

lemma vec_resize_total:
  assumes inv: "vec_inv v" and l: "unat (vecLen v) < 2 ^ 31"
    and c: "cap_after (unat (vecLen v)) * unat (unitSz v) < 2 ^ 64 - 8"
    and mem: "\<forall>b n. unat n = cap_after (unat (vecLen v)) * unat (unitSz v) \<longrightarrow> zr (Some b) n \<noteq> None"
  shows "fst (vec_resize zr v) = SPG_OK"
proof -
  define m where "m = vecLen v + (if push_bit 1 (vecLen v) \<ge> VEC_SPACE_EXPAND
      then VEC_SPACE_EXPAND else push_bit 1 (vecLen v))"
  have "unat m = cap_after (unat (vecLen v))" unfolding m_def by (rule vec_resize_units [OF l])
  then have n: "unat (unitSz v * ucast m) = cap_after (unat (vecLen v)) * unat (unitSz v)"
    using c by (simp add: unat_unit_offset)
  obtain b where "vdata v = Some b" using inv by (auto elim: vec_invE)
  then have "zr (vdata v) (unitSz v * ucast m) \<noteq> None" using mem n by simp
  then show ?thesis unfolding vec_resize_def Let_def m_def [symmetric] by simp
qed

lemma do_vec_add_ret:
  "fst (vec_resize zr v) = SPG_OK \<Longrightarrow> do_vec_add zr v val = Inr (r, w) \<Longrightarrow> r = SPG_OK"
  by (auto simp: do_vec_add_def Let_def bindE_Inr_iff SPG_OK_def split: prod.splits if_splits)

lemma do_vec_add_phase:
  assumes alloc: "allocator zm zr" and ph: "vec_phase v"
    and mem: "\<forall>b n. unat n = cap_after (unat (vecLen v)) * unat (unitSz v) \<longrightarrow> zr (Some b) n \<noteq> None"
    and cap: "unat (used v) < cap_after (unat (vecLen v))" and len: "length val = unat (unitSz v)"
  shows "\<exists>d. let v' = v\<lparr>vdata := Some d, used := used v + 1\<rparr> in
    do_vec_add zr v val = Inr (SPG_OK, v') \<and> vec_phase v' \<and> unat (used v') = Suc (unat (used v))
    \<and> elems v' = take (insert_pos v val) (elems v) @ val # drop (insert_pos v val) (elems v)"
proof -
  have inv: "vec_inv v" and l: "unat (vecLen v) < 2 ^ 31" using ph by (simp_all add: vec_phase_def)
  have can: "vec_can_add v" using vec_phase_can_add [OF ph cap] .
  have suc: "unat (used v + 1) = Suc (unat (used v))"
    using cap cap_after_bounds(2) [OF l] unat_add_no_wrap [of "used v" 1] by simp
  have "fst (vec_resize zr v) = SPG_OK"
    using vec_resize_total [OF inv l] mem ph by (simp add: vec_phase_def)
  then have "do_vec_add zr v val \<noteq> Inr (VEC_ERROR, v\<lparr>vdata := None\<rparr>)"
    by (auto dest: do_vec_add_ret)
  then obtain d where d: "do_vec_add zr v val = Inr (SPG_OK, v\<lparr>vdata := Some d, used := used v + 1\<rparr>)"
      "vec_inv (v\<lparr>vdata := Some d, used := used v + 1\<rparr>)"
      "elems (v\<lparr>vdata := Some d, used := used v + 1\<rparr>) =
         take (insert_pos v val) (elems v) @ val # drop (insert_pos v val) (elems v)"
      "length d = (if used v = vecLen v then cap_after (unat (vecLen v)) * unat (unitSz v)
                   else length (the (vdata v)))"
    using do_vec_add_ok [OF alloc inv can len] by blast
  then have "vec_phase (v\<lparr>vdata := Some d, used := used v + 1\<rparr>)"
    using ph suc by (auto simp: vec_phase_def word_le_nat_alt word_unat_eq_iff)
  then show ?thesis using d suc by (intro exI [of _ d]) (simp add: Let_def)
qed

lemma take_drop_insert_sorted:
  assumes "comparator D (vcmp v)" "set (elems v) \<subseteq> D" "val \<in> D" "vec_sorted v"
    "elems v' = take (insert_pos v val) (elems v) @ val # drop (insert_pos v val) (elems v)"
    "vcmp v' = vcmp v" "flag_order v' = flag_order v"
  shows "vec_sorted v'"
  using insert_pos_sorted [OF assms(1-4)] assms(5-7) by (simp add: vec_sorted_def)

lemma mset_insert_at: "mset (take p xs @ x # drop p xs) = add_mset x (mset xs)"
  by (metis append_take_drop_id mset.simps(2) mset_append union_mset_add_mset_right)

lemma set_insert_at: "set (take p xs @ x # drop p xs) = insert x (set xs)"
  by (metis mset_insert_at set_mset_add_mset_insert set_mset_mset)

lemma vec_add_run:
  assumes "allocator zm zr"
    and "\<forall>b n. unat n = cap_after (unat (vecLen v)) * unat (unitSz v) \<longrightarrow> zr (Some b) n \<noteq> None"
    and "comparator D (vcmp v)"
    and "vec_phase v" and "vec_sorted v"
    and "\<forall>x\<in>set xs. length x = unat (unitSz v)" and "set (elems v) \<union> set xs \<subseteq> D"
    and "unat (used v) + length xs \<le> cap_after (unat (vecLen v))"
  shows "\<exists>v'. do_vec_adds zr v xs = Inr (SPG_OK, v') \<and> vec_phase v' \<and> vec_sorted v'
           \<and> mset (elems v') = mset (elems v) + mset xs"
  using assms
proof (induction xs arbitrary: v)
  case (Cons x xs)
  have x: "length x = unat (unitSz v)" "unat (used v) < cap_after (unat (vecLen v))"
    using Cons.prems by simp_all
  obtain d where d: "do_vec_add zr v x = Inr (SPG_OK, v\<lparr>vdata := Some d, used := used v + 1\<rparr>)"
      "vec_phase (v\<lparr>vdata := Some d, used := used v + 1\<rparr>)" "unat (used v + 1) = Suc (unat (used v))"
      "elems (v\<lparr>vdata := Some d, used := used v + 1\<rparr>) =
         take (insert_pos v x) (elems v) @ x # drop (insert_pos v x) (elems v)"
    using do_vec_add_phase [OF Cons.prems(1,4,2) x(2,1)] by (auto simp: Let_def)
  let ?v = "v\<lparr>vdata := Some d, used := used v + 1\<rparr>"
  have srt: "vec_sorted ?v"
    using take_drop_insert_sorted [OF Cons.prems(3) _ _ Cons.prems(5) d(4)] Cons.prems(7) by simp
  have m: "mset (elems ?v) = add_mset x (mset (elems v))" "set (elems ?v) = insert x (set (elems v))"
    unfolding d(4) by (rule mset_insert_at, rule set_insert_at)
  have "\<exists>v'. do_vec_adds zr ?v xs = Inr (SPG_OK, v') \<and> vec_phase v' \<and> vec_sorted v'
      \<and> mset (elems v') = mset (elems ?v) + mset xs"
    by (rule Cons.IH) (use Cons.prems d(2,3) srt m(2) in auto)
  then show ?case using d(1) m(1) by (auto simp: SPG_OK_def)
qed (simp add: vec_phase_def)

subsection \<open>Searching, reading, removing\<close>

lemma find_elems:
  assumes "vec_inv v"
  shows "do_vec_find v val =
    Inr (let k = first_hit (\<lambda>x. 0 = sint (vcmp v val x)) (elems v)
         in if k < unat (used v) then of_nat k else VEC_INFINITE_VAL_32)"
  by (simp add: do_vec_find_def dichotomy_find_def vec_scan_elems [OF assms])

lemma unat_index: "k < unat (n :: u32) \<Longrightarrow> unat (of_nat k :: u32) = k"
  using unat_of_pos [of k n] by simp

lemma index_not_infinite:
  assumes "k < unat (n :: u32)"
  shows "of_nat k \<noteq> VEC_INFINITE_VAL_32"
proof
  assume "of_nat k = VEC_INFINITE_VAL_32"
  then have "k = unat VEC_INFINITE_VAL_32" using unat_index [OF assms] by simp
  then show False using assms unat_less_exp [of n]
    by (simp add: VEC_INFINITE_VAL_32_def unsigned_minus_1_eq_mask mask_eq_exp_minus_1)
qed

lemma do_vec_get_deref:
  assumes "vec_inv v" "idx < used v"
  shows "\<exists>p. do_vec_get v idx = Inr p \<and> vec_deref v p = Inr (elems v ! unat idx)"
  using vec_unit_elems [OF assms] assms(2)
  by (simp add: do_vec_get_def vec_deref_def vec_unit_def mult.commute)

lemma do_vec_del_elems:
  assumes inv: "vec_inv v" and idx: "idx < used v"
  shows "\<exists>d. let v' = v\<lparr>vdata := Some d, used := used v - 1\<rparr> in
    do_vec_del v idx = Inr (SPG_OK, v') \<and> vec_inv v' \<and> length d = length (the (vdata v))
    \<and> elems v' = take (unat idx) (elems v) @ drop (Suc (unat idx)) (elems v)"
proof -
  let ?u = "unat (unitSz v)" and ?n = "unat (used v)" and ?p = "unat idx"
  obtain b where b: "vdata v = Some b" "0 < ?u" "?n * ?u \<le> length b" "length b < 2 ^ 64"
      "elems v = units ?u ?n b"
    using inv by (elim vec_invE)
  have p: "?p < ?n" using idx by (simp add: word_less_nat_alt)
  obtain d where d: "mem_move b (?p * ?u) (?p * ?u + ?u) ((?n - ?p - 1) * ?u) = Inr d"
      "units ?u (?n - 1) d = take ?p (elems v) @ drop (Suc ?p) (elems v)" "length d = length b"
    using units_remove [OF b(3) p] b(5) by auto
  have off: "unat (unitSz v * ucast idx) = ?p * ?u"
    using unat_unit_offset(2) [of idx "unitSz v"] offset_bound [OF inv, of idx] p by simp
  have "idx + 1 \<le> used v" using p unat_Suc_less [OF idx] by (simp add: word_le_nat_alt)
  then have sub: "used v - idx - 1 = used v - of_nat (Suc ?p)"
    by simp
  have cnt: "unat (ucast (used v - idx - 1) * unitSz v) = (?n - ?p - 1) * ?u"
    unfolding sub using count_bytes [OF inv, of "Suc ?p"] p by simp
  have one: "unat (used v - 1) = ?n - 1"
    using p by (subst unat_sub) (simp_all add: word_le_nat_alt)
  have "(?n - 1) * ?u \<le> length b" using b(3) by (meson diff_le_self le_trans mult_le_mono1)
  moreover have "used v \<noteq> 0" using idx by auto
  ultimately show ?thesis
    using b d off cnt idx one
    by (intro exI [of _ d]) (simp add: do_vec_del_def vec_reduce_def Let_def vec_inv_def elems_def)
qed

subsection \<open>Creation\<close>

lemma get_vector_fields:
  assumes "get_vector ok zm lk sz cmpf len flag = Some v"
  shows "\<exists>f b. cmpf = Some f \<and> 0 < sz \<and> zm (ucast (vecLen v) * sz) = Some b
    \<and> v = \<lparr>unitSz = sz, vecLen = (if len = 0 then DFT_VECTOR_LEN else ALIGN_OF len VEC_LEN_ALIGN_MASK),
          used = 0, vcmp = f, rwlock = lk, flag_order = ucast flag, vdata = Some b\<rparr>"
  using assms
  by (auto simp: get_vector_def Let_def not_le word_neq_0_conv split: option.splits if_splits)

lemma get_vector_phase:
  assumes alloc: "allocator zm zr" and v: "get_vector ok zm lk sz cmpf len flag = Some v"
    and l: "0 < unat (vecLen v)" "unat (vecLen v) < 2 ^ 31"
    and c: "cap_after (unat (vecLen v)) * unat sz < 2 ^ 64 - 8"
  shows "vec_phase v" "elems v = []" "unitSz v = sz"
proof -
  obtain f b where f: "0 < sz" "zm (ucast (vecLen v) * sz) = Some b" "unitSz v = sz" "used v = 0"
      "vdata v = Some b"
    using get_vector_fields [OF v] by auto
  have "unat (vecLen v) * unat sz \<le> cap_after (unat (vecLen v)) * unat sz"
    by (intro mult_le_mono1) (simp add: cap_after_def)
  then have m: "unat (vecLen v) * unat sz < 2 ^ 64 - 8" using c by linarith
  then have "unat (ucast (vecLen v) * sz) = unat (vecLen v) * unat sz"
    by (simp add: unat_unit_offset)
  then have "length b = unat (vecLen v) * unat sz"
    using allocator.zm_length [OF alloc _ f(2)] m by simp
  then show "vec_phase v" "elems v = []" "unitSz v = sz"
    using f m l c by (simp_all add: vec_phase_def vec_inv_def elems_def word_less_nat_alt)
qed

lemma sorted_wrt_remove:
  assumes "sorted_wrt R xs"
  shows "sorted_wrt R (take p xs @ drop (Suc p) xs)"
proof -
  have "sorted_wrt R (take (Suc p) xs @ drop (Suc p) xs)" using assms by simp
  then have s: "sorted_wrt R (take (Suc p) xs)" "sorted_wrt R (drop (Suc p) xs)"
      "\<forall>x\<in>set (take (Suc p) xs). \<forall>y\<in>set (drop (Suc p) xs). R x y"
    unfolding sorted_wrt_append by blast+
  have "set (take p xs) \<subseteq> set (take (Suc p) xs)" by (rule set_take_subset_set_take) simp
  then show ?thesis using s sorted_wrt_take [OF assms, of p] by (auto simp: sorted_wrt_append)
qed

text \<open>ALIGN_OF with 8 as its mask clears bit 3 of the sum; it does not round to a multiple.\<close>

lemma bit_8: "bit (8 :: u32) n \<longleftrightarrow> n = 3" "bit (8 :: int) n \<longleftrightarrow> n = 3"
  using bit_exp_iff [of 3 n, where 'a = u32] bit_exp_iff [of 3 n, where 'a = int] by auto
lemma bit_3: "bit (x :: u32) 3 \<longleftrightarrow> odd (unat x mod 16 div 8)"
proof -
  have "bit x 3 \<longleftrightarrow> bit (take_bit 4 (unat x)) 3" by (simp add: bit_unsigned_iff bit_take_bit_iff)
  then show ?thesis by (simp add: bit_iff_odd take_bit_eq_mod)
qed
lemma odd_8: "odd ((n + 8) mod 16 div 8) \<longleftrightarrow> even (n mod 16 div 8)" for n :: nat
proof -
  have *: "odd (k mod 16 div 8) \<longleftrightarrow> odd (k div 8)" for k :: nat
    using bit_take_bit_iff [of 4 k 3] by (simp add: bit_iff_odd take_bit_eq_mod)
  have "(n + 8) div 8 = Suc (n div 8)" by simp
  then show ?thesis using * [of n] * [of "n + 8"] by simp
qed
lemma bit_3_add_8: "bit ((x :: u32) + 8) 3 \<longleftrightarrow> \<not> bit x 3"
proof -
  have "unat (x + 8) mod 16 = (unat x + 8) mod 16" by (simp add: unat_word_ariths mod_mod_cancel)
  then show ?thesis by (simp add: bit_3 odd_8)
qed
lemma ALIGN_OF_8: "ALIGN_OF x 8 = (if bit x 3 then x + 8 else x)"
proof (cases "bit x 3")
  case True
  then have "\<not> bit (x + 8) 3" by (simp add: bit_3_add_8)
  then have "(x + 8) AND NOT 8 = x + 8" by (intro bit_word_eqI) (auto simp: bit_simps bit_8)
  then show ?thesis using True by (simp add: ALIGN_OF_def)
next
  case False
  then have "x + 8 = x OR 8" by (intro disjunctive_add) (auto simp: bit_8)
  then have "(x + 8) AND NOT 8 = x" using False by (intro bit_word_eqI) (auto simp: bit_simps bit_8)
  then show ?thesis using False by (simp add: ALIGN_OF_def)
qed

section \<open>Properties\<close>

text \<open>C10. Adding values to a vector that grew from a fresh one, up to the capacity its one
  effective resize gives it, succeeds; the vector then holds the old and the added values,
  sorted in the order it was created with.\<close>

theorem vec_adds_sorted:
  assumes "allocator zm zr"
    and "\<forall>b n. unat n = cap_after (unat (vecLen v)) * unat (unitSz v) \<longrightarrow> zr (Some b) n \<noteq> None"
    and "comparator D (vcmp v)"
    and "vec_phase v" and "vec_sorted v"
    and "\<forall>x\<in>set xs. length x = unat (unitSz v)" and "set (elems v) \<union> set xs \<subseteq> D"
    and "unat (used v) + length xs \<le> cap_after (unat (vecLen v))"
  shows "\<exists>v'. do_vec_adds zr v xs = Inr (SPG_OK, v') \<and> vec_phase v' \<and> vec_sorted v'
           \<and> mset (elems v') = mset (elems v) + mset xs"
  by (rule vec_add_run [OF assms])

text \<open>C31. vec_resize enlarges the block and leaves vecLen as it was, so no addition after it
  ever resizes again: a run of additions beyond that capacity writes outside the block.\<close>

theorem vec_adds_overflow:
  assumes "allocator zm zr"
    and "\<forall>b n. unat n = cap_after (unat (vecLen v)) * unat (unitSz v) \<longrightarrow> zr (Some b) n \<noteq> None"
    and "vec_phase v"
    and "\<forall>x\<in>set xs. length x = unat (unitSz v)"
    and "unat (used v) \<le> cap_after (unat (vecLen v))"
    and "cap_after (unat (vecLen v)) < unat (used v) + length xs"
  shows "do_vec_adds zr v xs = Inl Out_Of_Bounds"
  using assms
proof (induction xs arbitrary: v)
  case (Cons x xs)
  have x: "length x = unat (unitSz v)" using Cons.prems by simp
  show ?case
  proof (cases "unat (used v) < cap_after (unat (vecLen v))")
    case True
    obtain d where d: "do_vec_add zr v x = Inr (SPG_OK, v\<lparr>vdata := Some d, used := used v + 1\<rparr>)"
        "vec_phase (v\<lparr>vdata := Some d, used := used v + 1\<rparr>)" "unat (used v + 1) = Suc (unat (used v))"
      using do_vec_add_phase [OF Cons.prems(1,3,2) True x] by (auto simp: Let_def)
    then have "do_vec_adds zr (v\<lparr>vdata := Some d, used := used v + 1\<rparr>) xs = Inl Out_Of_Bounds"
      using Cons.prems True by (intro Cons.IH) simp_all
    then show ?thesis using d by (simp add: SPG_OK_def)
  next
    case False
    then have full: "unat (used v) = cap_after (unat (vecLen v))" using Cons.prems by simp
    have l: "unat (vecLen v) < unat (used v)"
      using full Cons.prems(3) cap_after_bounds(1) by (simp add: vec_phase_def)
    then have "\<not> used v \<le> vecLen v" "used v \<noteq> vecLen v" by (auto simp: word_le_nat_alt)
    moreover have "vec_inv v" using Cons.prems(3) by (simp add: vec_phase_def)
    moreover have "0 < unat (unitSz v)" using \<open>vec_inv v\<close> by (auto elim: vec_invE)
    ultimately have "do_vec_add zr v x = Inl Out_Of_Bounds"
      using Cons.prems(3) full by (intro do_vec_add_overflow [OF _ _ x]) (simp_all add: vec_phase_def)
    then show ?thesis by simp
  qed
qed simp


text \<open>C29. do_vec_find_get on a vector that holds its units answers NULL just where no unit
  compares equal to the value, and else a pointer to the first unit that does.\<close>

theorem vec_find_get_first:
  assumes "vec_inv v"
  shows "\<exists>r. do_vec_find_get v val = Inr r \<and>
    (case r of None \<Rightarrow> \<forall>x\<in>set (elems v). sint (vcmp v val x) \<noteq> 0
     | Some p \<Rightarrow> \<exists>k<length (elems v). vec_deref v p = Inr (elems v ! k)
         \<and> sint (vcmp v val (elems v ! k)) = 0 \<and> (\<forall>j<k. sint (vcmp v val (elems v ! j)) \<noteq> 0))"
proof -
  let ?P = "\<lambda>x. 0 = sint (vcmp v val x)" and ?k = "first_hit (\<lambda>x. 0 = sint (vcmp v val x)) (elems v)"
  have n: "length (elems v) = unat (used v)" by (rule length_elems [OF assms])
  show ?thesis
  proof (cases "?k < unat (used v)")
    case True
    have idx: "of_nat ?k < used v" using unat_index [OF True] True by (simp add: word_less_nat_alt)
    obtain p where p: "do_vec_get v (of_nat ?k) = Inr p" "vec_deref v p = Inr (elems v ! ?k)"
      using do_vec_get_deref [OF assms idx] unat_index [OF True] by auto
    have "do_vec_find_get v val = Inr (Some p)"
      using p(1) index_not_infinite [OF True] True by (simp add: do_vec_find_get_def find_elems [OF assms])
    then show ?thesis
      using p(2) True n first_hit_hit [of ?P "elems v"] first_hit_before [of _ ?P "elems v"]
      by (intro exI [of _ "Some p"]) (auto intro!: exI [of _ ?k])
  next
    case False
    then have "?k = length (elems v)" using first_hit_le [of ?P "elems v"] n by simp
    then have "\<forall>x\<in>set (elems v). \<not> ?P x" by (simp only: first_hit_none)
    then show ?thesis using False
      by (intro exI [of _ None]) (auto simp: do_vec_find_get_def find_elems [OF assms])
  qed
qed

text \<open>C28. do_vec_del removes the unit at the offset, keeps the order of the vector and its
  block, does nothing to an empty vector and fails its assertion for an offset past the
  end.\<close>

theorem vec_del_removes:
  assumes "vec_inv v" and "vec_sorted v"
  shows "if used v = 0 then do_vec_del v idx = Inr (SPG_OK, v)
    else if used v \<le> idx then do_vec_del v idx = Inl Assert_Failed
    else \<exists>v'. do_vec_del v idx = Inr (SPG_OK, v') \<and> vec_inv v' \<and> vec_sorted v'
      \<and> elems v' = take (unat idx) (elems v) @ drop (Suc (unat idx)) (elems v)
      \<and> unat (used v') = unat (used v) - 1"
proof (cases "used v = 0 \<or> used v \<le> idx")
  case True
  then show ?thesis by (auto simp: do_vec_del_def not_less)
next
  case False
  then have idx: "idx < used v" by (simp add: not_le)
  obtain d where d: "do_vec_del v idx = Inr (SPG_OK, v\<lparr>vdata := Some d, used := used v - 1\<rparr>)"
      "vec_inv (v\<lparr>vdata := Some d, used := used v - 1\<rparr>)"
      "elems (v\<lparr>vdata := Some d, used := used v - 1\<rparr>) = take (unat idx) (elems v) @ drop (Suc (unat idx)) (elems v)"
    using do_vec_del_elems [OF assms(1) idx] by (auto simp: Let_def)
  let ?v = "v\<lparr>vdata := Some d, used := used v - 1\<rparr>"
  have "vec_sorted ?v"
    using assms(2) d(3) sorted_wrt_remove [of _ "elems v" "unat idx"] by (simp add: vec_sorted_def)
  moreover have "unat (used v - 1) = unat (used v) - 1"
    using idx by (subst unat_sub) (auto simp: word_le_nat_alt word_less_nat_alt)
  ultimately show ?thesis using False d by auto
qed

text \<open>Importing what export_vector_pack produced, into a block of the size it reported,
  gives a vector with the same units, count and order and with the importer's lock.\<close>

theorem vec_export_import:
  assumes "allocator zm zr" and "vec_inv v"
    and "unat (used v) * unat (unitSz v) < 2 ^ 64 - 8"
    and "export_vector_pack True v s0 = (SPG_OK, Some pack, d, sz)" and "zm sz = Some b"
  shows "\<exists>w. import_vector_pack True zm lk pack cmpf d sz = Inr (Some w) \<and> vec_inv w
    \<and> elems w = elems v \<and> used w = used v \<and> flag_order w = flag_order v \<and> rwlock w = lk
    \<and> length (the (vdata w)) = unat (used v) * unat (unitSz v)"
proof -
  obtain c where c: "vdata v = Some c" "0 < unat (unitSz v)"
      "unat (used v) * unat (unitSz v) \<le> length c" "length c < 2 ^ 64"
      "elems v = units (unat (unitSz v)) (unat (used v)) c"
    using assms(2) by (elim vec_invE)
  have ex: "pack = v\<lparr>vecLen := ALIGN_OF (used v) 8\<rparr>" "d = Some c" "sz = ucast (used v) * unitSz v"
    using assms(4) c(1) by (simp_all add: export_vector_pack_def)
  have sz: "unat sz = unat (used v) * unat (unitSz v)"
    using ex(3) assms(3) by (simp add: unat_unit_offset)
  have b: "length b = unat sz" using allocator.zm_length [OF assms(1) _ assms(5)] sz assms(3) by simp
  define e where "e = take (unat sz) c"
  have e: "length e = unat sz" using sz c(3) by (simp add: e_def)
  have "import_vector_pack True zm lk pack cmpf d sz =
      Inr (Some (pack\<lparr>rwlock := lk, vcmp := cmpf, vdata := Some e\<rparr>))"
  proof (cases "sz = 0")
    case True
    then show ?thesis using b assms(5) by (simp add: import_vector_pack_def e_def Let_def mem_store_def)
  next
    case False
    then have "e \<noteq> []" using e by (auto simp: word_unat_eq_iff)
    then show ?thesis using b e assms(5) ex(2) sz c(3) False
      by (simp add: import_vector_pack_def Let_def mem_store_def mem_slice_def e_def)
  qed
  moreover have "units (unat (unitSz v)) (unat (used v)) e = elems v"
    unfolding c(5) by (rule units_prefix [of "unat sz"]) (use e sz c(3) in \<open>simp_all add: e_def\<close>)
  ultimately show ?thesis
    using e sz c ex(1)
    by (intro exI [of _ "pack\<lparr>rwlock := lk, vcmp := cmpf, vdata := Some e\<rparr>"])
      (simp add: vec_inv_def elems_def)
qed

text \<open>The pack's vecLen is its count rounded by ALIGN_OF, the imported block only holds
  the count: where the rounding adds 8 (bit 3 of the count), the first addition to the
  imported vector writes behind the block.\<close>

theorem vec_import_add_overflow:
  assumes "allocator zm zr" and "vec_inv v"
    and "unat (used v) * unat (unitSz v) < 2 ^ 64 - 8"
    and "export_vector_pack True v s0 = (SPG_OK, Some pack, d, sz)" and "zm sz = Some b"
    and "bit (used v) 3" and "length val = unat (unitSz v)"
  shows "bindE (import_vector_pack True zm lk pack cmpf d sz)
    (\<lambda>w. do_vec_add zr (the w) val) = Inl Out_Of_Bounds"
proof -
  obtain c where c: "vdata v = Some c" "0 < unat (unitSz v)"
      "unat (used v) * unat (unitSz v) \<le> length c" "length c < 2 ^ 64"
    using assms(2) by (elim vec_invE)
  have ex: "pack = v\<lparr>vecLen := used v + 8\<rparr>" "d = Some c" "sz = ucast (used v) * unitSz v"
    using assms(4,6) c(1) by (simp_all add: export_vector_pack_def ALIGN_OF_8)
  have sz: "unat sz = unat (used v) * unat (unitSz v)"
    using ex(3) assms(3) by (simp add: unat_unit_offset)
  have b: "length b = unat sz" using allocator.zm_length [OF assms(1) _ assms(5)] sz assms(3) by simp
  have "used v \<noteq> 0" using assms(6) by auto
  then have nz: "unat sz > 0" using sz c(2) by (simp add: word_less_nat_alt word_unat_eq_iff)
  let ?w = "pack\<lparr>rwlock := lk, vcmp := cmpf, vdata := Some (take (unat sz) c)\<rparr>"
  have "import_vector_pack True zm lk pack cmpf d sz = Inr (Some ?w)"
    using nz b sz c(3) assms(5) ex(2)
    by (auto simp: import_vector_pack_def Let_def mem_store_def mem_slice_def)
  moreover have "vec_inv ?w" using ex(1) c sz by (simp add: vec_inv_def)
  then have "do_vec_add zr ?w val = Inl Out_Of_Bounds"
    by (rule do_vec_add_overflow) (use ex(1) sz c assms(7) in simp_all)
  ultimately show ?thesis by simp
qed

text \<open>When the allocator has no memory for the resize, the addition answers VEC_ERROR and
  the vector has lost its data pointer while it still counts its units: the old units are
  out of reach and reading any of them dereferences NULL.\<close>

theorem vec_add_no_memory:
  assumes "vec_inv v" and "used v = vecLen v" and "\<forall>b n. zr b n = None"
  shows "do_vec_add zr v val = Inr (VEC_ERROR, v\<lparr>vdata := None\<rparr>)
    \<and> elems (v\<lparr>vdata := None\<rparr>) = []
    \<and> (\<forall>idx. bindE (do_vec_get (v\<lparr>vdata := None\<rparr>) idx) (vec_deref (v\<lparr>vdata := None\<rparr>))
           = Inl (if idx < used v then Null_Deref else Assert_Failed))"
  using assms(2,3)
  by (simp add: do_vec_add_def vec_resize_def Let_def VEC_ERROR_def elems_def do_vec_get_def
      vec_deref_def block_slice_def)

text \<open>get_vector gives an empty vector whose block holds exactly vecLen units; ALIGN_OF
  with the mask 8 makes vecLen the requested length, or 8 more where bit 3 of it is set,
  and not a multiple of 8.\<close>

theorem vec_create_len:
  assumes "allocator zm zr" and "get_vector ok zm lk sz cmpf len flag = Some v"
    and "0 < unat (vecLen v)" and "unat (vecLen v) < 2 ^ 31"
    and "cap_after (unat (vecLen v)) * unat sz < 2 ^ 64 - 8"
  shows "vec_phase v \<and> vec_sorted v \<and> elems v = []
    \<and> length (the (vdata v)) = unat (vecLen v) * unat sz
    \<and> vecLen v = (if len = 0 then 16 else if bit len 3 then len + 8 else len)"
proof -
  obtain f b where v: "v = \<lparr>unitSz = sz, vecLen = (if len = 0 then DFT_VECTOR_LEN
        else ALIGN_OF len VEC_LEN_ALIGN_MASK), used = 0, vcmp = f, rwlock = lk,
        flag_order = ucast flag, vdata = Some b\<rparr>"
    using get_vector_fields [OF assms(2)] by auto
  note ph = get_vector_phase [OF assms(1-5)]
  have "vecLen v = (if len = 0 then 16 else if bit len 3 then len + 8 else len)"
    by (subst v) (simp add: DFT_VECTOR_LEN_def VEC_LEN_ALIGN_MASK_def ALIGN_OF_8)
  moreover have "length (the (vdata v)) = unat (vecLen v) * unat sz"
    using ph(1,3) by (simp add: vec_phase_def) (simp add: v)
  ultimately show ?thesis using ph by (simp add: vec_sorted_def)
qed

section \<open>Witnesses\<close>

definition demo_vec :: "unit vec_st" where
  "demo_vec = \<lparr>unitSz = 4, vecLen = 16, used = 0, vcmp = int_cmp, rwlock = (),
     flag_order = VEC_ASCEND_ORDER, vdata = Some (replicate 64 0xa5)\<rparr>"

definition demo_vec8 :: "unit vec_st" where
  "demo_vec8 = \<lparr>unitSz = 1, vecLen = 16, used = 8, vcmp = (\<lambda>x y. ucast (hd x) - ucast (hd y)),
     rwlock = (), flag_order = VEC_ASCEND_ORDER, vdata = Some [1, 2, 3, 4, 5, 6, 7, 8, 0, 0, 0, 0, 0, 0, 0, 0]\<rparr>"


lemma demo_vec_facts:
  "vec_phase demo_vec" "vec_sorted demo_vec" "elems demo_vec = []" "unitSz demo_vec = 4"
  "used demo_vec = 0" "vecLen demo_vec = 16" "vcmp demo_vec = int_cmp"
  by (simp_all add: demo_vec_def vec_phase_def vec_inv_def cap_after_def vec_sorted_def elems_def)

lemma demo_zr_grow:
  "\<forall>b n. unat n = cap_after (unat (vecLen demo_vec)) * unat (unitSz demo_vec) \<longrightarrow> demo_zr (Some b) n \<noteq> None"
  using demo_zr_total by (simp add: demo_vec_facts cap_after_def)

lemma demo_int_cmp: "comparator {b. le32 b \<in> int_half_range} (vcmp demo_vec)"
  unfolding demo_vec_facts by (rule int_cmp.comparator_axioms)

lemma demo_vec8_facts:
  "vec_inv demo_vec8" "used demo_vec8 = 8" "unitSz demo_vec8 = 1" "vec_sorted demo_vec8"
  "elems demo_vec8 = [[1], [2], [3], [4], [5], [6], [7], [8]]"
  "export_vector_pack True demo_vec8 0 = (SPG_OK, Some (demo_vec8\<lparr>vecLen := 16\<rparr>), vdata demo_vec8, 8)"
  by (simp_all add: demo_vec8_def vec_inv_def elems_def vec_sorted_def units_def unit_at_def upt_rec
      cmp_le_def export_vector_pack_def ALIGN_OF_def)

theorem vec_adds_sorted_witness:
  "\<exists>v'. do_vec_adds demo_zr demo_vec [[5, 0, 0, 0], [3, 0, 0, 0]] = Inr (SPG_OK, v')
     \<and> vec_sorted v' \<and> mset (elems v') = {#[5, 0, 0, 0], [3, 0, 0, 0]#}"
  using vec_adds_sorted [OF demo_allocator demo_zr_grow demo_int_cmp demo_vec_facts(1,2),
      of "[[5, 0, 0, 0], [3, 0, 0, 0]]"]
  by (auto simp: demo_vec_facts le32_def int_half_range_def cap_after_def)

theorem vec_adds_overflow_witness:
  "do_vec_adds demo_zr demo_vec (replicate 49 [1, 0, 0, 0]) = Inl Out_Of_Bounds"
  by (rule vec_adds_overflow [OF demo_allocator demo_zr_grow demo_vec_facts(1)])
    (simp_all add: demo_vec_facts cap_after_def)

theorem vec_find_get_first_witness:
  "\<exists>p. do_vec_find_get demo_vec8 [3] = Inr (Some p) \<and> do_vec_find_get demo_vec8 [9] = Inr None"
proof -
  obtain r where r: "do_vec_find_get demo_vec8 [3] = Inr r"
      "r = None \<Longrightarrow> sint (vcmp demo_vec8 [3] [3]) \<noteq> 0"
    using vec_find_get_first [OF demo_vec8_facts(1), of "[3]"]
    by (auto simp: demo_vec8_facts(5) split: option.splits)
  then obtain p where "r = Some p" by (cases r) (auto simp: demo_vec8_def)
  moreover have "do_vec_find_get demo_vec8 [9] = Inr None"
    by (simp add: do_vec_find_get_def find_elems [OF demo_vec8_facts(1)] demo_vec8_facts first_hit_def)
      (simp add: demo_vec8_def)
  ultimately show ?thesis using r(1) by simp
qed

theorem vec_del_removes_witness:
  "\<exists>v'. do_vec_del demo_vec8 2 = Inr (SPG_OK, v') \<and> vec_sorted v'
     \<and> elems v' = [[1], [2], [4], [5], [6], [7], [8]]"
  using vec_del_removes [OF demo_vec8_facts(1,4), of 2] by (auto simp: demo_vec8_facts)

theorem vec_export_import_witness:
  "\<exists>w. import_vector_pack True demo_zm () (demo_vec8\<lparr>vecLen := 16\<rparr>) int_cmp (vdata demo_vec8) 8 = Inr (Some w)
     \<and> elems w = [[1], [2], [3], [4], [5], [6], [7], [8]]"
  using vec_export_import [OF demo_allocator demo_vec8_facts(1) _ demo_vec8_facts(6) demo_zm_eq,
      of "()" int_cmp]
  by (auto simp: demo_vec8_facts)

theorem vec_import_add_overflow_witness:
  "bindE (import_vector_pack True demo_zm () (demo_vec8\<lparr>vecLen := 16\<rparr>) int_cmp (vdata demo_vec8) 8)
     (\<lambda>w. do_vec_add demo_zr (the w) [9]) = Inl Out_Of_Bounds"
  by (rule vec_import_add_overflow [OF demo_allocator demo_vec8_facts(1) _ demo_vec8_facts(6) demo_zm_eq])
    (simp_all add: demo_vec8_facts bit_iff_odd)

theorem vec_add_no_memory_witness:
  "do_vec_add (\<lambda>_ _. None) (demo_vec8\<lparr>vecLen := 8\<rparr>) [9]
     = Inr (VEC_ERROR, demo_vec8\<lparr>vecLen := 8, vdata := None\<rparr>)"
proof -
  have "vec_inv (demo_vec8\<lparr>vecLen := 8\<rparr>)" by (simp add: demo_vec8_def vec_inv_def)
  from vec_add_no_memory [OF this, of "\<lambda>_ _. None" "[9]"] show ?thesis
    by (simp add: demo_vec8_facts)
qed

theorem vec_create_len_witness:
  "get_vector True demo_zm () 4 (Some int_cmp) 0 1 = Some demo_vec
     \<and> vec_phase demo_vec \<and> vecLen demo_vec = 16 \<and> length (the (vdata demo_vec)) = 64"
proof -
  have g: "get_vector True demo_zm () 4 (Some int_cmp) 0 1 = Some demo_vec"
    by (simp add: get_vector_def DFT_VECTOR_LEN_def demo_zm_eq demo_vec_def VEC_ASCEND_ORDER_def)
  show ?thesis
    using vec_create_len [OF demo_allocator g] g by (simp add: demo_vec_facts cap_after_def)
qed

end
