(* ===== verification/Zmalloc_Threads.thy ===== *)
theory Zmalloc_Threads
  imports Zmalloc
begin

text \<open>
  The accounting of src/src/zmalloc.c when several threads allocate: update_zmalloc_stat_alloc and
  update_zmalloc_stat_free add to and subtract from one counter, by a plain load and store while
  zmalloc_thread_safe is 0, else by the atomic builtin (HAVE_ATOMIC, which the Makefile defines) or
  under a mutex. A thread is the list of the updates it still has to make and its place in the
  macro; the calls of libc between two updates touch no shared state of this file.
\<close>

section \<open>Threads\<close>

text \<open>The updates with the argument of the macro, and zmalloc_enable_thread_safeness.\<close>

datatype stat_op = Stat_Alloc u64 | Stat_Free u64 | Enable_Safe

fun amount :: "stat_op \<Rightarrow> u64" where
  "amount (Stat_Alloc n) = stat_size n"
| "amount (Stat_Free n) = - stat_size n"
| "amount Enable_Safe = 0"

text \<open>What the operations of the allocator count, block sizes without the prefix.\<close>

definition zmalloc_stats :: "u64 \<Rightarrow> stat_op list" where
  "zmalloc_stats n = [Stat_Alloc (n + PREFIX_SIZE)]"

definition zfree_stats :: "u64 \<Rightarrow> stat_op list" where
  "zfree_stats oldsize = [Stat_Free (oldsize + PREFIX_SIZE)]"

definition zrealloc_stats :: "u64 \<Rightarrow> u64 \<Rightarrow> stat_op list" where
  "zrealloc_stats oldsize n = [Stat_Free oldsize, Stat_Alloc n]"

text \<open>Outside the macro; behind the plain load; inside the mutex before the load, behind it, behind the store.\<close>

datatype stat_pc = Outside | Plain_Loaded u64 | Locked | Lock_Loaded u64 | Lock_Stored

record stat_sys =
  counter :: u64
  safe :: s32
  mutex :: "nat option"
  threads :: "(stat_op list \<times> stat_pc) list"

text \<open>The threads of a system, one of them changed.\<close>

definition put_thread :: "nat \<Rightarrow> stat_op list \<times> stat_pc \<Rightarrow> stat_sys \<Rightarrow> stat_sys" where
  "put_thread i t s = s\<lparr>threads := (threads s)[i := t]\<rparr>"

abbreviation at :: "stat_sys \<Rightarrow> nat \<Rightarrow> stat_op list \<Rightarrow> stat_pc \<Rightarrow> bool" where
  "at s i ops pc \<equiv> i < length (threads s) \<and> threads s ! i = (ops, pc)"

text \<open>\<open>atomic\<close> is HAVE_ATOMIC.\<close>

inductive stat_step :: "bool \<Rightarrow> stat_sys \<Rightarrow> stat_sys \<Rightarrow> bool" for atomic where
  st_enable: "at s i (Enable_Safe # ops) Outside \<Longrightarrow> stat_step atomic s (put_thread i (ops, Outside) (s\<lparr>safe := 1\<rparr>))"
| st_plain_load: "at s i (f # ops) Outside \<Longrightarrow> f \<noteq> Enable_Safe \<Longrightarrow> safe s = 0 \<Longrightarrow>
     stat_step atomic s (put_thread i (f # ops, Plain_Loaded (counter s)) s)"
| st_plain_store: "at s i (f # ops) (Plain_Loaded t) \<Longrightarrow>
     stat_step atomic s (put_thread i (ops, Outside) (s\<lparr>counter := t + amount f\<rparr>))"
| st_builtin: "at s i (f # ops) Outside \<Longrightarrow> f \<noteq> Enable_Safe \<Longrightarrow> safe s \<noteq> 0 \<Longrightarrow> atomic \<Longrightarrow>
     stat_step atomic s (put_thread i (ops, Outside) (s\<lparr>counter := counter s + amount f\<rparr>))"
| st_lock: "at s i (f # ops) Outside \<Longrightarrow> f \<noteq> Enable_Safe \<Longrightarrow> safe s \<noteq> 0 \<Longrightarrow> \<not> atomic \<Longrightarrow> mutex s = None \<Longrightarrow>
     stat_step atomic s (put_thread i (f # ops, Locked) (s\<lparr>mutex := Some i\<rparr>))"
| st_lock_load: "at s i (f # ops) Locked \<Longrightarrow> stat_step atomic s (put_thread i (f # ops, Lock_Loaded (counter s)) s)"
| st_lock_store: "at s i (f # ops) (Lock_Loaded t) \<Longrightarrow>
     stat_step atomic s (put_thread i (ops, Lock_Stored) (s\<lparr>counter := t + amount f\<rparr>))"
| st_unlock: "at s i ops Lock_Stored \<Longrightarrow> stat_step atomic s (put_thread i (ops, Outside) (s\<lparr>mutex := None\<rparr>))"

definition stat_init :: "zm_state \<Rightarrow> stat_op list list \<Rightarrow> stat_sys" where
  "stat_init z progs = \<lparr>counter = used_memory z, safe = zmalloc_thread_safe z, mutex = None, threads = map (\<lambda>p. (p, Outside)) progs\<rparr>"

inductive stat_reach :: "bool \<Rightarrow> zm_state \<Rightarrow> stat_op list list \<Rightarrow> stat_sys \<Rightarrow> bool" for atomic z progs where
  sr_init: "stat_reach atomic z progs (stat_init z progs)"
| sr_step: "stat_reach atomic z progs s \<Longrightarrow> stat_step atomic s s' \<Longrightarrow> stat_reach atomic z progs s'"

section \<open>The invariant with the flag set\<close>

definition owed :: "stat_op list \<Rightarrow> u64" where
  "owed ops = sum_list (map amount ops)"

definition all_owed :: "stat_sys \<Rightarrow> u64" where
  "all_owed s = sum_list (map (\<lambda>t. owed (fst t)) (threads s))"

text \<open>What a thread's place says, the counter being \<open>u\<close> and \<open>own\<close> whether it has the mutex.\<close>

fun place_ok :: "u64 \<Rightarrow> bool \<Rightarrow> stat_op list \<times> stat_pc \<Rightarrow> bool" where
  "place_ok u own (ops, Outside) \<longleftrightarrow> \<not> own"
| "place_ok u own (ops, Plain_Loaded t) \<longleftrightarrow> False"
| "place_ok u own (ops, Locked) \<longleftrightarrow> own \<and> ops \<noteq> []"
| "place_ok u own (ops, Lock_Loaded t) \<longleftrightarrow> own \<and> t = u \<and> ops \<noteq> []"
| "place_ok u own (ops, Lock_Stored) \<longleftrightarrow> own"

definition stat_inv :: "bool \<Rightarrow> u64 \<Rightarrow> stat_sys \<Rightarrow> bool" where
  "stat_inv atomic u s \<longleftrightarrow> safe s \<noteq> 0 \<and> (atomic \<longrightarrow> mutex s = None) \<and> counter s + all_owed s = u
     \<and> (\<forall>i<length (threads s). place_ok (counter s) (mutex s = Some i) (threads s ! i))
     \<and> (\<forall>i. mutex s = Some i \<longrightarrow> i < length (threads s))"

lemma sum_list_upd:
  fixes f :: "'a \<Rightarrow> 'b :: ab_group_add"
  shows "i < length xs \<Longrightarrow> sum_list (map f (xs[i := y])) = sum_list (map f xs) - f (xs ! i) + f y"
  by (induction xs arbitrary: i) (auto simp: nth_Cons split: nat.splits)

lemma all_owed_put:
  "i < length (threads s) \<Longrightarrow> all_owed (put_thread i t s) = all_owed s - owed (fst (threads s ! i)) + owed (fst t)"
  by (simp add: all_owed_def put_thread_def sum_list_upd)

lemma put_thread_fields [simp]: "counter (put_thread i t s) = counter s" "safe (put_thread i t s) = safe s"
  "mutex (put_thread i t s) = mutex s" "length (threads (put_thread i t s)) = length (threads s)"
  by (simp_all add: put_thread_def)

lemma owed_Cons [simp]: "owed (f # ops) = amount f + owed ops" "owed [] = 0"
  by (simp_all add: owed_def)

text \<open>A step of one thread; the counter changes only under the mutex or with nobody in it.\<close>

lemma stat_inv_put:
  assumes inv: "stat_inv atomic u s" and i: "i < length (threads s)" and t: "place_ok c (own = Some i) t"
    and own: "own = mutex s \<or> own \<in> {None, Some i} \<and> mutex s \<in> {None, Some i}" and at: "atomic \<longrightarrow> own = None"
    and c: "c = counter s \<or> mutex s \<in> {None, Some i}"
    and sum: "c - counter s = owed (fst (threads s ! i)) - owed (fst t)" and sf: "sf \<noteq> 0"
    and s': "s' = s\<lparr>counter := c, safe := sf, mutex := own\<rparr>"
  shows "stat_inv atomic u (put_thread i t s')"
proof -
  let ?s = "s\<lparr>counter := c, safe := sf, mutex := own\<rparr>"
  have others: "place_ok c (own = Some j) (threads s ! j)" if j: "j < length (threads s)" "j \<noteq> i" for j
  proof -
    have p: "place_ok (counter s) (mutex s = Some j) (threads s ! j)" using inv j(1) by (simp add: stat_inv_def)
    have "(own = Some j) = (mutex s = Some j)" using own j(2) by auto
    moreover have "place_ok c (mutex s = Some j) (threads s ! j)"
    proof (cases "c = counter s")
      case False
      then have "mutex s \<noteq> Some j" using c j(2) by auto
      then show ?thesis using p by (cases "threads s ! j"; cases "snd (threads s ! j)") auto
    qed (use p in simp)
    ultimately show ?thesis by simp
  qed
  have "all_owed ?s = all_owed s" by (simp add: all_owed_def)
  then have "all_owed (put_thread i t ?s) = all_owed s - owed (fst (threads s ! i)) + owed (fst t)"
    using i all_owed_put [of i ?s t] by simp
  moreover have "c = counter s + owed (fst (threads s ! i)) - owed (fst t)" using sum by (simp add: algebra_simps)
  ultimately have "c + all_owed (put_thread i t ?s) = u" using inv by (simp add: stat_inv_def)
  moreover have "threads (put_thread i t ?s) ! j = (if j = i then t else threads s ! j)" if "j < length (threads s)" for j
    using that by (simp add: put_thread_def)
  moreover have "\<forall>j. own = Some j \<longrightarrow> j < length (threads s)" using inv own i by (auto simp: stat_inv_def)
  ultimately show ?thesis using others t sf at by (auto simp: stat_inv_def s')
qed

lemma stat_invD:
  assumes "stat_inv atomic u s" "at s i ops pc"
  shows "place_ok (counter s) (mutex s = Some i) (ops, pc)" "safe s \<noteq> 0" "atomic \<longrightarrow> mutex s = None"
  using assms unfolding stat_inv_def by force+

lemma stat_inv_step:
  assumes "stat_step atomic s s'" "stat_inv atomic u s"
  shows "stat_inv atomic u s'"
  using assms(1)
proof (cases rule: stat_step.cases)
  case (st_enable i ops)
  show ?thesis unfolding st_enable(1)
    by (rule stat_inv_put [OF assms(2), where c = "counter s" and sf = "1" and own = "mutex s"])
      (use stat_invD [OF assms(2) st_enable(2)] st_enable in auto)
next
  case (st_plain_load i f ops)
  then show ?thesis using stat_invD [OF assms(2) st_plain_load(2)] by simp
next
  case (st_plain_store i f ops t)
  then show ?thesis using stat_invD [OF assms(2) st_plain_store(2)] by simp
next
  case (st_builtin i f ops)
  show ?thesis unfolding st_builtin(1)
    by (rule stat_inv_put [OF assms(2), where c = "counter s + amount f" and sf = "safe s" and own = "mutex s"])
      (use stat_invD [OF assms(2) st_builtin(2)] st_builtin in auto)
next
  case (st_lock i f ops)
  show ?thesis unfolding st_lock(1)
    by (rule stat_inv_put [OF assms(2), where c = "counter s" and sf = "safe s" and own = "Some i"])
      (use stat_invD [OF assms(2) st_lock(2)] st_lock in auto)
next
  case (st_lock_load i f ops)
  show ?thesis unfolding st_lock_load(1)
    by (rule stat_inv_put [OF assms(2), where c = "counter s" and sf = "safe s" and own = "mutex s"])
      (use stat_invD [OF assms(2) st_lock_load(2)] st_lock_load in auto)
next
  case (st_lock_store i f ops t)
  show ?thesis unfolding st_lock_store(1)
    by (rule stat_inv_put [OF assms(2), where c = "t + amount f" and sf = "safe s" and own = "mutex s"])
      (use stat_invD [OF assms(2) st_lock_store(2)] st_lock_store in auto)
next
  case (st_unlock i ops)
  show ?thesis unfolding st_unlock(1)
    by (rule stat_inv_put [OF assms(2), where c = "counter s" and sf = "safe s" and own = "None"])
      (use stat_invD [OF assms(2) st_unlock(2)] st_unlock in auto)
qed

lemma stat_inv_init:
  assumes "zmalloc_thread_safe z \<noteq> 0"
  shows "stat_inv atomic (used_memory z + sum_list (map owed progs)) (stat_init z progs)"
  using assms by (simp add: stat_inv_def stat_init_def all_owed_def comp_def)

lemma stat_reach_inv:
  assumes "zmalloc_thread_safe z \<noteq> 0"
  shows "stat_reach atomic z progs s \<Longrightarrow> stat_inv atomic (used_memory z + sum_list (map owed progs)) s"
  by (induction rule: stat_reach.induct) (auto intro: stat_inv_init [OF assms] stat_inv_step)

text \<open>No run gets stuck while a thread still has something to do.\<close>

lemma stat_progress:
  assumes inv: "stat_inv atomic u s" and t: "t \<in> set (threads s)" "t \<noteq> ([], Outside)"
  shows "\<exists>s'. stat_step atomic s s'"
proof -
  obtain i where i: "i < length (threads s)" "threads s ! i = t" using t(1) by (auto simp: in_set_conv_nth)
  define j where "j = (case mutex s of None \<Rightarrow> i | Some k \<Rightarrow> k)"
  obtain ops pc where j: "at s j ops pc" using inv i by (cases "threads s ! j") (auto simp: j_def stat_inv_def split: option.splits)
  note D = stat_invD [OF inv j]
  show ?thesis
  proof (cases pc)
    case Outside
    then have "mutex s = None" "j = i" using D(1) by (auto simp: j_def split: option.splits)
    then obtain f ops' where ops: "ops = f # ops'" using t(2) i(2) j Outside by (cases ops) auto
    show ?thesis
    proof (cases "f = Enable_Safe")
      case False
      then show ?thesis using j ops Outside D(2) \<open>mutex s = None\<close> stat_step.st_builtin [of j s f ops'] stat_step.st_lock [of j s f ops']
        by (cases atomic) auto
    qed (use j ops Outside stat_step.st_enable [of j s ops'] in auto)
  next
    case Locked
    then show ?thesis using D(1) j by (cases ops) (auto intro!: exI stat_step.st_lock_load)
  next
    case (Lock_Loaded v)
    then show ?thesis using D(1) j by (cases ops) (auto intro!: exI stat_step.st_lock_store)
  next
    case Lock_Stored
    then show ?thesis using j stat_step.st_unlock by blast
  qed (use D(1) in simp)
qed

section \<open>Properties\<close>

text \<open>The same updates made one after the other by a single caller.\<close>

fun run_stat :: "stat_op \<Rightarrow> zm_state \<Rightarrow> zm_state" where
  "run_stat (Stat_Alloc n) z = update_zmalloc_stat_alloc z n"
| "run_stat (Stat_Free n) z = update_zmalloc_stat_free z n"
| "run_stat Enable_Safe z = zmalloc_enable_thread_safeness z"

lemma run_stats_sum: "used_memory (fold run_stat ops z) = used_memory z + owed ops"
proof (induction ops arbitrary: z)
  case (Cons f ops)
  then show ?case
    by (cases f) (simp_all add: update_zmalloc_stat_alloc_def update_zmalloc_stat_free_def zmalloc_enable_thread_safeness_def)
qed simp

lemma owed_concat: "owed (concat progs) = sum_list (map owed progs)"
  by (induction progs) (simp_all add: owed_def)

text \<open>C22. The accounting of the allocator under threads. With zmalloc_thread_safe set, by the atomic builtin
  or under the mutex, no interleaving of the updates of any number of threads gets stuck, and when all
  have ended used_memory is what a single caller that makes the same updates one after the other would
  have counted: no allocation and no release is lost.\<close>

theorem zmalloc_threads_count:
  assumes safe: "zmalloc_thread_safe z \<noteq> 0" and r: "stat_reach atomic z progs s"
  shows "if \<forall>t\<in>set (threads s). t = ([], Outside)
    then counter s = used_memory (fold run_stat (concat progs) z) else \<exists>s'. stat_step atomic s s'"
proof (cases "\<forall>t\<in>set (threads s). t = ([], Outside)")
  case True
  then have "map (\<lambda>t. owed (fst t)) (threads s) = map (\<lambda>_. 0) (threads s)" by (intro map_cong) auto
  then have "all_owed s = 0" by (simp only: all_owed_def sum_list_0)
  then show ?thesis using stat_reach_inv [OF safe r] True
    by (simp add: stat_inv_def run_stats_sum owed_concat)
next
  case False
  then obtain t where "t \<in> set (threads s)" "t \<noteq> ([], Outside)" by blast
  from stat_progress [OF stat_reach_inv [OF safe r] this] show ?thesis using False by auto
qed

text \<open>Without the flag, which nothing in the repository sets, two threads that allocate at the same time
  lose one of the two counts.\<close>

theorem zmalloc_plain_race:
  assumes safe: "zmalloc_thread_safe z = 0" and ops: "f \<noteq> Enable_Safe" "g \<noteq> Enable_Safe"
  shows "\<exists>s. stat_reach atomic z [[f], [g]] s \<and> threads s = [([], Outside), ([], Outside)]
    \<and> counter s = used_memory z + amount g"
proof -
  let ?u = "used_memory z"
  let ?s = "\<lambda>u ts. \<lparr>counter = u, safe = 0, mutex = None, threads = ts\<rparr>"
  have "stat_reach atomic z [[f], [g]] (?s ?u [([f], Outside), ([g], Outside)])"
    using sr_init [of atomic z "[[f], [g]]"] safe by (simp add: stat_init_def)
  then have "stat_reach atomic z [[f], [g]] (?s ?u [([f], Plain_Loaded ?u), ([g], Outside)])"
    using st_plain_load [of 0 "?s ?u [([f], Outside), ([g], Outside)]" f "[]" atomic] ops by (auto simp: put_thread_def intro: sr_step)
  then have "stat_reach atomic z [[f], [g]] (?s ?u [([f], Plain_Loaded ?u), ([g], Plain_Loaded ?u)])"
    using st_plain_load [of 1 "?s ?u [([f], Plain_Loaded ?u), ([g], Outside)]" g "[]" atomic] ops by (auto simp: put_thread_def intro: sr_step)
  then have "stat_reach atomic z [[f], [g]] (?s (?u + amount f) [([], Outside), ([g], Plain_Loaded ?u)])"
    using st_plain_store [of 0 "?s ?u [([f], Plain_Loaded ?u), ([g], Plain_Loaded ?u)]" f "[]" ?u atomic] by (auto simp: put_thread_def intro: sr_step)
  then have "stat_reach atomic z [[f], [g]] (?s (?u + amount g) [([], Outside), ([], Outside)])"
    using st_plain_store [of 1 "?s (?u + amount f) [([], Outside), ([g], Plain_Loaded ?u)]" g "[]" ?u atomic] by (auto simp: put_thread_def intro: sr_step)
  then show ?thesis by (intro exI [of _ "?s (?u + amount g) [([], Outside), ([], Outside)]"]) simp
qed

section \<open>Instances\<close>

text \<open>One thread allocates 24 bytes, the other resizes a block of 5 bytes to 16, with the builtin.\<close>

theorem zmalloc_threads_count_witness:
  "\<exists>s. stat_reach True \<lparr>used_memory = 16, zmalloc_thread_safe = 1\<rparr> [zmalloc_stats 24, zrealloc_stats 5 16] s \<and> counter s = 56"
proof -
  let ?z = "\<lparr>used_memory = 16, zmalloc_thread_safe = 1\<rparr>" and ?p = "[zmalloc_stats 24, zrealloc_stats 5 16]"
  let ?s = "\<lambda>u ts. \<lparr>counter = u, safe = 1, mutex = None, threads = ts\<rparr>"
  have sz: "stat_size 32 = 32" "stat_size 5 = 8" "stat_size 16 = 16" by (code_simp)+
  have "stat_reach True ?z ?p (?s 16 [([Stat_Alloc 32], Outside), ([Stat_Free 5, Stat_Alloc 16], Outside)])"
    using sr_init [of True ?z ?p] by (simp add: stat_init_def zmalloc_stats_def zrealloc_stats_def PREFIX_SIZE_def)
  then have "stat_reach True ?z ?p (?s 8 [([Stat_Alloc 32], Outside), ([Stat_Alloc 16], Outside)])"
    using st_builtin [of 1 "?s 16 [([Stat_Alloc 32], Outside), ([Stat_Free 5, Stat_Alloc 16], Outside)]" "Stat_Free 5" "[Stat_Alloc 16]" True] sz
    by (auto simp: put_thread_def intro: sr_step)
  then have "stat_reach True ?z ?p (?s 40 [([], Outside), ([Stat_Alloc 16], Outside)])"
    using st_builtin [of 0 "?s 8 [([Stat_Alloc 32], Outside), ([Stat_Alloc 16], Outside)]" "Stat_Alloc 32" "[]" True] sz
    by (auto simp: put_thread_def intro: sr_step)
  then have r: "stat_reach True ?z ?p (?s 56 [([], Outside), ([], Outside)])"
    using st_builtin [of 1 "?s 40 [([], Outside), ([Stat_Alloc 16], Outside)]" "Stat_Alloc 16" "[]" True] sz
    by (auto simp: put_thread_def intro: sr_step)
  have "counter (?s 56 [([], Outside), ([], Outside)]) = used_memory (fold run_stat (concat ?p) ?z)"
    using zmalloc_threads_count [OF _ r] by simp
  then show ?thesis using r by auto
qed

end
