(* ===== verification/Atomics.thy ===== *)
theory Atomics
  imports Spg_Prelude
begin

text \<open>
  include/util/spg_type.h and include/util/spg_atomic.c: the atomic counters in their two
  variants, gcc builtins (one indivisible step) and a mutex around plain reads and writes
  (up to five steps of a thread), and include/util/spg_ref.h: reference counts on top of them.
  The mutex variant is a step relation over the threads that call it; it is proved to
  refine the builtin one.
\<close>

section \<open>The builtin variant\<close>

text \<open>atomic_t is an int32_t; each operation is one indivisible step on the cell.\<close>

type_synonym atomic_t = s32

definition atomic_set :: "atomic_t \<Rightarrow> s32 \<Rightarrow> atomic_t" where
  "atomic_set dst val = val"

definition atomic_add :: "atomic_t \<Rightarrow> s32 \<Rightarrow> atomic_t" where
  "atomic_add dst val = dst + val"

definition atomic_sub :: "atomic_t \<Rightarrow> s32 \<Rightarrow> atomic_t" where
  "atomic_sub dst val = dst - val"

definition atomic_add_return :: "atomic_t \<Rightarrow> s32 \<Rightarrow> s32 \<times> atomic_t" where
  "atomic_add_return dst val = (dst + val, dst + val)"

definition atomic_sub_return :: "atomic_t \<Rightarrow> s32 \<Rightarrow> s32 \<times> atomic_t" where
  "atomic_sub_return dst val = (dst - val, dst - val)"

definition atomic_inc :: "atomic_t \<Rightarrow> atomic_t" where
  "atomic_inc val = val + 1"

definition atomic_dec :: "atomic_t \<Rightarrow> atomic_t" where
  "atomic_dec val = val - 1"

definition atomic_inc_return :: "atomic_t \<Rightarrow> s32 \<times> atomic_t" where
  "atomic_inc_return val = (val + 1, val + 1)"

definition atomic_dec_return :: "atomic_t \<Rightarrow> s32 \<times> atomic_t" where
  "atomic_dec_return val = (val - 1, val - 1)"

text \<open>A call: of one of the nine operations, with its result where it has one.\<close>

datatype atom_op = A_Set s32 | A_Add s32 | A_Sub s32 | A_Add_Return s32 | A_Sub_Return s32
  | A_Inc | A_Dec | A_Inc_Return | A_Dec_Return

definition with_ret :: "s32 \<times> atomic_t \<Rightarrow> s32 option \<times> atomic_t" where
  "with_ret = (\<lambda>(r, c). (Some r, c))"

fun atomic_call :: "atom_op \<Rightarrow> atomic_t \<Rightarrow> s32 option \<times> atomic_t" where
  "atomic_call (A_Set v) c = (None, atomic_set c v)"
| "atomic_call (A_Add v) c = (None, atomic_add c v)"
| "atomic_call (A_Sub v) c = (None, atomic_sub c v)"
| "atomic_call (A_Add_Return v) c = with_ret (atomic_add_return c v)"
| "atomic_call (A_Sub_Return v) c = with_ret (atomic_sub_return c v)"
| "atomic_call A_Inc c = (None, atomic_inc c)"
| "atomic_call A_Dec c = (None, atomic_dec c)"
| "atomic_call A_Inc_Return c = with_ret (atomic_inc_return c)"
| "atomic_call A_Dec_Return c = with_ret (atomic_dec_return c)"

text \<open>Threads that make one call each; what the finished calls gave.\<close>

record gcc_sys =
  gcc_cell :: atomic_t
  gcc_ret :: "s32 option option list"

inductive gcc_step :: "atom_op list \<Rightarrow> gcc_sys \<Rightarrow> gcc_sys \<Rightarrow> bool" for ops where
  gcc_call: "i < length (gcc_ret s) \<Longrightarrow> gcc_ret s ! i = None \<Longrightarrow>
     atomic_call (ops ! i) (gcc_cell s) = (r, c) \<Longrightarrow>
     gcc_step ops s \<lparr>gcc_cell = c, gcc_ret = (gcc_ret s)[i := Some r]\<rparr>"

section \<open>The mutex variant\<close>

text \<open>
  Where a thread stands in its function of spg_atomic.c: before the lock, inside, after loading \<open>*dst\<close>,
  after storing the new value, after reading it back, after the unlock. atomic_set loads nothing, and the
  functions without a result do not read back.
\<close>

datatype atom_pc = Start | Has_Lock | Loaded s32 | Stored | Read_Back s32 | Done "s32 option"

fun stored_value :: "atom_op \<Rightarrow> s32 \<Rightarrow> s32" where
  "stored_value (A_Set v) t = v"
| "stored_value (A_Add v) t = t + v"
| "stored_value (A_Sub v) t = t - v"
| "stored_value (A_Add_Return v) t = t + v"
| "stored_value (A_Sub_Return v) t = t - v"
| "stored_value A_Inc t = t + 1"
| "stored_value A_Dec t = t - 1"
| "stored_value A_Inc_Return t = t + 1"
| "stored_value A_Dec_Return t = t - 1"

fun is_set :: "atom_op \<Rightarrow> bool" where
  "is_set (A_Set v) = True" | "is_set _ = False"

fun returns :: "atom_op \<Rightarrow> bool" where
  "returns (A_Add_Return v) = True" | "returns (A_Sub_Return v) = True"
| "returns A_Inc_Return = True" | "returns A_Dec_Return = True" | "returns _ = False"

record atom_sys =
  cell :: atomic_t
  owner :: "nat option"
  pcs :: "atom_pc list"

inductive atom_step :: "atom_op list \<Rightarrow> atom_sys \<Rightarrow> atom_sys \<Rightarrow> bool" for ops where
  at_lock: "i < length (pcs s) \<Longrightarrow> pcs s ! i = Start \<Longrightarrow> owner s = None \<Longrightarrow>
     atom_step ops s (s\<lparr>owner := Some i, pcs := (pcs s)[i := Has_Lock]\<rparr>)"
| at_load: "i < length (pcs s) \<Longrightarrow> pcs s ! i = Has_Lock \<Longrightarrow> \<not> is_set (ops ! i) \<Longrightarrow>
     atom_step ops s (s\<lparr>pcs := (pcs s)[i := Loaded (cell s)]\<rparr>)"
| at_set: "i < length (pcs s) \<Longrightarrow> pcs s ! i = Has_Lock \<Longrightarrow> ops ! i = A_Set v \<Longrightarrow>
     atom_step ops s (s\<lparr>cell := v, pcs := (pcs s)[i := Stored]\<rparr>)"
| at_store: "i < length (pcs s) \<Longrightarrow> pcs s ! i = Loaded t \<Longrightarrow>
     atom_step ops s (s\<lparr>cell := stored_value (ops ! i) t, pcs := (pcs s)[i := Stored]\<rparr>)"
| at_read: "i < length (pcs s) \<Longrightarrow> pcs s ! i = Stored \<Longrightarrow> returns (ops ! i) \<Longrightarrow>
     atom_step ops s (s\<lparr>pcs := (pcs s)[i := Read_Back (cell s)]\<rparr>)"
| at_unlock_void: "i < length (pcs s) \<Longrightarrow> pcs s ! i = Stored \<Longrightarrow> \<not> returns (ops ! i) \<Longrightarrow>
     atom_step ops s (s\<lparr>owner := None, pcs := (pcs s)[i := Done None]\<rparr>)"
| at_unlock: "i < length (pcs s) \<Longrightarrow> pcs s ! i = Read_Back r \<Longrightarrow>
     atom_step ops s (s\<lparr>owner := None, pcs := (pcs s)[i := Done (Some r)]\<rparr>)"

definition atom_init :: "s32 \<Rightarrow> nat \<Rightarrow> atom_sys" where
  "atom_init c n = \<lparr>cell = c, owner = None, pcs = replicate n Start\<rparr>"

inductive atom_reach :: "atom_op list \<Rightarrow> s32 \<Rightarrow> atom_sys \<Rightarrow> bool" for ops c where
  atr_init: "atom_reach ops c (atom_init c (length ops))"
| atr_step: "atom_reach ops c s \<Longrightarrow> atom_step ops s s' \<Longrightarrow> atom_reach ops c s'"

section \<open>Mutual exclusion and refinement\<close>

fun in_section :: "atom_pc \<Rightarrow> bool" where
  "in_section Start = False" | "in_section (Done r) = False" | "in_section _ = True"

text \<open>What a thread inside the section knows of the cell.\<close>

fun pc_view :: "s32 \<Rightarrow> atom_pc \<Rightarrow> bool" where
  "pc_view c (Loaded t) = (t = c)" | "pc_view c (Read_Back r) = (r = c)" | "pc_view c _ = True"

definition atom_inv :: "atom_op list \<Rightarrow> atom_sys \<Rightarrow> bool" where
  "atom_inv ops s \<longleftrightarrow> length (pcs s) = length ops
     \<and> (\<forall>i<length (pcs s). (in_section (pcs s ! i) \<longleftrightarrow> owner s = Some i) \<and> pc_view (cell s) (pcs s ! i))
     \<and> (\<forall>i. owner s = Some i \<longrightarrow> i < length (pcs s))"

lemma pc_view_outside: "\<not> in_section p \<Longrightarrow> pc_view c p"
  by (cases p) auto

lemma atom_inv_init: "atom_inv ops (atom_init c (length ops))"
  by (simp add: atom_inv_def atom_init_def)

lemma atom_inv_update:
  assumes inv: "atom_inv ops s" and i: "i < length (pcs s)"
    and p: "in_section p \<longleftrightarrow> own = Some i" "pc_view c p"
    and own: "own = None \<or> own = Some i" "owner s = None \<or> owner s = Some i"
    and c: "c = cell s \<or> owner s = Some i"
  shows "atom_inv ops \<lparr>cell = c, owner = own, pcs = (pcs s)[i := p]\<rparr>"
proof -
  have "(in_section (pcs s ! j) \<longleftrightarrow> own = Some j) \<and> pc_view c (pcs s ! j)"
    if j: "j < length (pcs s)" "j \<noteq> i" for j
  proof -
    have "\<not> in_section (pcs s ! j)" "pc_view (cell s) (pcs s ! j)"
      using inv j own by (auto simp: atom_inv_def)
    then show ?thesis using j own c pc_view_outside by auto
  qed
  then show ?thesis using inv i p own by (auto simp: atom_inv_def nth_list_update)
qed

lemma atom_inv_owner:
  "atom_inv ops s \<Longrightarrow> i < length (pcs s) \<Longrightarrow> in_section (pcs s ! i) \<Longrightarrow> owner s = Some i"
  by (simp add: atom_inv_def)

lemma atom_sys_update:
  "s\<lparr>owner := own, pcs := ps\<rparr> = \<lparr>cell = cell s, owner = own, pcs = ps\<rparr>"
  "s\<lparr>cell := c, pcs := ps\<rparr> = \<lparr>cell = c, owner = owner s, pcs = ps\<rparr>"
  "s\<lparr>pcs := ps\<rparr> = \<lparr>cell = cell s, owner = owner s, pcs = ps\<rparr>"
  by simp_all

lemma atom_inv_step:
  assumes "atom_step ops s s'" "atom_inv ops s"
  shows "atom_inv ops s'"
  using assms
  by (induction rule: atom_step.induct)
    (auto simp only: atom_sys_update intro!: atom_inv_update, auto dest: atom_inv_owner)

lemma atom_reach_inv: "atom_reach ops c s \<Longrightarrow> atom_inv ops s"
  by (induction rule: atom_reach.induct) (auto intro: atom_inv_init atom_inv_step)

text \<open>The call takes effect at the store; from there on its result is fixed.\<close>

fun abs_pc :: "atom_op \<Rightarrow> s32 \<Rightarrow> atom_pc \<Rightarrow> s32 option option" where
  "abs_pc f c Stored = Some (if returns f then Some c else None)"
| "abs_pc f c (Read_Back r) = Some (Some r)" | "abs_pc f c (Done r) = Some r"
| "abs_pc f c _ = None"

definition abs_atom :: "atom_op list \<Rightarrow> atom_sys \<Rightarrow> gcc_sys" where
  "abs_atom ops s = \<lparr>gcc_cell = cell s, gcc_ret = map (\<lambda>i. abs_pc (ops ! i) (cell s) (pcs s ! i)) [0..<length (pcs s)]\<rparr>"

text \<open>What both variants compute.\<close>

lemma atomic_call_stored: "atomic_call f c = (if returns f then Some (stored_value f c) else None, stored_value f c)"
  by (cases f) (simp_all add: with_ret_def atomic_set_def atomic_add_def atomic_sub_def atomic_add_return_def
      atomic_sub_return_def atomic_inc_def atomic_dec_def atomic_inc_return_def atomic_dec_return_def)

text \<open>A step of one thread, seen from the results.\<close>

lemma abs_atom_same:
  assumes "i < length (pcs s)" "abs_pc (ops ! i) (cell s) p = abs_pc (ops ! i) (cell s) (pcs s ! i)"
  shows "abs_atom ops \<lparr>cell = cell s, owner = own, pcs = (pcs s)[i := p]\<rparr> = abs_atom ops s"
  using assms by (auto simp: abs_atom_def nth_list_update)

lemma abs_atom_store:
  assumes inv: "atom_inv ops s" and i: "i < length (pcs s)" "owner s = Some i" "abs_pc (ops ! i) (cell s) (pcs s ! i) = None"
    and c: "c = stored_value (ops ! i) (cell s)"
  shows "gcc_step ops (abs_atom ops s) (abs_atom ops \<lparr>cell = c, owner = own, pcs = (pcs s)[i := Stored]\<rparr>)"
proof -
  let ?r = "if returns (ops ! i) then Some c else None"
  have others: "abs_pc (ops ! j) c (pcs s ! j) = abs_pc (ops ! j) (cell s) (pcs s ! j)" if "j < length (pcs s)" "j \<noteq> i" for j
  proof -
    have "\<not> in_section (pcs s ! j)" using inv i that by (auto simp: atom_inv_def)
    then show ?thesis by (cases "pcs s ! j") auto
  qed
  have "abs_atom ops \<lparr>cell = c, owner = own, pcs = (pcs s)[i := Stored]\<rparr>
      = \<lparr>gcc_cell = c, gcc_ret = (gcc_ret (abs_atom ops s))[i := Some ?r]\<rparr>"
    using i others by (auto simp: abs_atom_def nth_list_update intro!: nth_equalityI)
  moreover have "gcc_step ops (abs_atom ops s) \<lparr>gcc_cell = c, gcc_ret = (gcc_ret (abs_atom ops s))[i := Some ?r]\<rparr>"
    by (rule gcc_call) (use i c in \<open>simp_all add: abs_atom_def atomic_call_stored\<close>)
  ultimately show ?thesis by simp
qed

lemma atom_refines:
  assumes step: "atom_step ops s s'" and inv: "atom_inv ops s"
  shows "abs_atom ops s' = abs_atom ops s \<or> gcc_step ops (abs_atom ops s) (abs_atom ops s')"
  using assms
proof (cases rule: atom_step.cases)
  case (at_store i t)
  have own: "owner s = Some i" "t = cell s" using inv at_store by (auto simp: atom_inv_def dest: spec [of _ i])
  have "abs_pc (ops ! i) (cell s) (pcs s ! i) = None" using at_store(3) by simp
  from abs_atom_store [OF inv at_store(2) own(1) this refl, of "owner s"]
  have "gcc_step ops (abs_atom ops s) (abs_atom ops (s\<lparr>cell := stored_value (ops ! i) (cell s), pcs := (pcs s)[i := Stored]\<rparr>))"
    unfolding atom_sys_update(2) .
  then show ?thesis unfolding at_store(1) own(2) by (rule disjI2)
next
  case (at_set i v)
  have own: "owner s = Some i" using inv at_set by (auto simp: atom_inv_def dest: spec [of _ i])
  have "abs_pc (ops ! i) (cell s) (pcs s ! i) = None" using at_set(3) by simp
  moreover have "v = stored_value (ops ! i) (cell s)" by (simp add: at_set(4))
  ultimately have "gcc_step ops (abs_atom ops s) (abs_atom ops (s\<lparr>cell := v, pcs := (pcs s)[i := Stored]\<rparr>))"
    unfolding atom_sys_update(2) by (rule abs_atom_store [OF inv at_set(2) own])
  then show ?thesis unfolding at_set(1) by (rule disjI2)
qed (simp_all only: atom_sys_update, (intro disjI1 abs_atom_same; simp)+)

text \<open>The builtin variant without atomic_set: the cell is the start value plus what the finished calls add.\<close>

definition delta :: "atom_op \<Rightarrow> s32" where
  "delta f = stored_value f 0"

lemma stored_delta: "\<not> is_set f \<Longrightarrow> stored_value f c = c + delta f"
  by (cases f) (simp_all add: delta_def)

definition finished_sum :: "atom_op list \<Rightarrow> 'r option list \<Rightarrow> s32" where
  "finished_sum ops rets = (\<Sum>i<length rets. if rets ! i = None then 0 else delta (ops ! i))"

lemma finished_sum_step:
  assumes "i < length rets" "rets ! i = None"
  shows "finished_sum ops (rets[i := Some r]) = finished_sum ops rets + delta (ops ! i)"
proof -
  let ?f = "\<lambda>rets j. if rets ! j = None then 0 else delta (ops ! j)"
  have "(\<Sum>j<length rets. ?f (rets[i := Some r]) j) = ?f (rets[i := Some r]) i + (\<Sum>j\<in>{..<length rets} - {i}. ?f (rets[i := Some r]) j)"
    using assms by (intro sum.remove) auto
  also have "(\<Sum>j\<in>{..<length rets} - {i}. ?f (rets[i := Some r]) j) = (\<Sum>j\<in>{..<length rets} - {i}. ?f rets j)"
    using assms by (intro sum.cong) (auto simp: nth_list_update)
  also have "(\<Sum>j\<in>{..<length rets} - {i}. ?f rets j) = (\<Sum>j<length rets. ?f rets j) - ?f rets i"
    using assms by (simp add: sum_diff1)
  finally show ?thesis using assms by (simp add: finished_sum_def)
qed

definition gcc_inv :: "atom_op list \<Rightarrow> s32 \<Rightarrow> gcc_sys \<Rightarrow> bool" where
  "gcc_inv ops c s \<longleftrightarrow> gcc_cell s = c + finished_sum ops (gcc_ret s)"

lemma gcc_inv_step:
  "gcc_step ops s s' \<Longrightarrow> length (gcc_ret s) \<le> length ops \<Longrightarrow> \<forall>f\<in>set ops. \<not> is_set f \<Longrightarrow> gcc_inv ops c s \<Longrightarrow> gcc_inv ops c s'"
  by (induction rule: gcc_step.induct)
    (auto simp: gcc_inv_def finished_sum_step atomic_call_stored stored_delta)

lemma atom_reach_sum:
  assumes "\<forall>f\<in>set ops. \<not> is_set f"
  shows "atom_reach ops c s \<Longrightarrow> gcc_inv ops c (abs_atom ops s)"
proof (induction rule: atom_reach.induct)
  case atr_init
  then show ?case by (simp add: gcc_inv_def abs_atom_def atom_init_def finished_sum_def)
next
  case (atr_step s s')
  have inv: "atom_inv ops s" by (rule atom_reach_inv [OF atr_step(1)])
  then have "length (gcc_ret (abs_atom ops s)) \<le> length ops" by (simp add: abs_atom_def atom_inv_def)
  then show ?case using atom_refines [OF atr_step(2) inv] gcc_inv_step [OF _ _ assms] atr_step.IH by metis
qed

text \<open>No run of the mutex variant gets stuck before every call has returned.\<close>

lemma atom_progress:
  assumes inv: "atom_inv ops s" and p: "p \<in> set (pcs s)" "\<forall>r. p \<noteq> Done r"
  shows "\<exists>s'. atom_step ops s s'"
proof -
  obtain i where i: "i < length (pcs s)" "pcs s ! i = p" using p(1) by (auto simp: in_set_conv_nth)
  define j where "j = (case owner s of None \<Rightarrow> i | Some k \<Rightarrow> k)"
  have j: "j < length (pcs s)" "owner s = None \<and> pcs s ! j = Start \<or> in_section (pcs s ! j)"
    using inv i p(2) by (auto simp: j_def atom_inv_def split: option.splits)
      (metis in_section.simps(3-6) atom_pc.exhaust option.distinct(1))
  show ?thesis
  proof (cases "pcs s ! j")
    case Start
    then show ?thesis using j by (auto intro: atom_step.at_lock)
  next
    case Has_Lock
    show ?thesis
    proof (cases "is_set (ops ! j)")
      case True
      then obtain v where "ops ! j = A_Set v" by (cases "ops ! j") auto
      then show ?thesis using Has_Lock j(1) atom_step.at_set by blast
    qed (use Has_Lock j(1) atom_step.at_load in blast)
  next
    case Stored
    then show ?thesis using j by (cases "returns (ops ! j)") (auto intro: atom_step.intros)
  qed (use j in \<open>auto intro: atom_step.intros\<close>)
qed

section \<open>Reference counts\<close>

text \<open>spg_ref.h; \<open>'w\<close> is the state the release callback works on.\<close>

definition ref_init :: "atomic_t \<Rightarrow> atomic_t" where
  "ref_init ref = atomic_set ref 1"

definition ref_get :: "atomic_t \<Rightarrow> atomic_t" where
  "ref_get ref = snd (atomic_inc_return ref)"

definition ref_put :: "('w \<Rightarrow> 'w) option \<Rightarrow> atomic_t \<times> 'w \<Rightarrow> fault + s32 \<times> atomic_t \<times> 'w" where
  "ref_put release = (\<lambda>(ref, w).
     bindE (guardE (release \<noteq> None) Assert_Failed) (\<lambda>_.
     let (v, ref) = atomic_dec_return ref
     in if 1 = v then Inr (1, ref, the release w) else Inr (0, ref, w)))"

datatype ref_op = Get | Put

text \<open>A history of one object, with a callback that counts how often it is released.\<close>

fun ref_run :: "ref_op list \<Rightarrow> atomic_t \<times> nat \<Rightarrow> fault + atomic_t \<times> nat" where
  "ref_run [] s = Inr s"
| "ref_run (Get # es) (ref, n) = ref_run es (ref_get ref, n)"
| "ref_run (Put # es) s = bindE (ref_put (Some Suc) s) (\<lambda>(r, s). ref_run es s)"

text \<open>The references out after a history that began with ref_init.\<close>

definition held :: "ref_op list \<Rightarrow> int" where
  "held es = 1 + int (count_list es Get) - int (count_list es Put)"

text \<open>The puts of a history that leave exactly one reference.\<close>

definition puts_to_one :: "ref_op list \<Rightarrow> nat" where
  "puts_to_one es = length (filter (\<lambda>k. es ! k = Put \<and> held (take (Suc k) es) = 1) [0..<length es])"

lemma held_snoc: "held (es @ [e]) = held es + (if e = Get then 1 else - 1)"
  by (cases e) (simp_all add: held_def)

lemma puts_to_one_snoc:
  "puts_to_one (es @ [e]) = puts_to_one es + (if e = Put \<and> held (es @ [e]) = 1 then 1 else 0)"
proof -
  have "filter (\<lambda>k. (es @ [e]) ! k = Put \<and> held (take (Suc k) (es @ [e])) = 1) [0..<length es]
      = filter (\<lambda>k. es ! k = Put \<and> held (take (Suc k) es) = 1) [0..<length es]"
    by (rule filter_cong) (auto simp: nth_append)
  then show ?thesis by (auto simp: puts_to_one_def)
qed

lemma ref_run_append: "ref_run (es @ ds) s = bindE (ref_run es s) (ref_run ds)"
  by (induction es s rule: ref_run.induct) (auto simp: bindE_assoc intro!: bindE_cong)

lemma of_int_one_iff: "0 \<le> k \<Longrightarrow> k < 2 ^ 31 \<Longrightarrow> (of_int k :: s32) = 1 \<longleftrightarrow> k = 1"
proof -
  assume k: "0 \<le> k" "k < 2 ^ 31"
  then have "uint (of_int k :: s32) = k" by (simp add: uint_word_of_int)
  then show ?thesis by (metis of_int_1 uint_1)
qed

lemma ref_run_held:
  "\<forall>k\<le>length es. 0 \<le> held (take k es) \<and> held (take k es) < 2 ^ 31 \<Longrightarrow>
    ref_run es (ref_init x, 0) = Inr (of_int (held es), puts_to_one es)"
proof (induction es rule: rev_induct)
  case Nil
  show ?case by (simp add: ref_init_def atomic_set_def held_def puts_to_one_def)
next
  case (snoc e es)
  have "\<forall>k\<le>length es. 0 \<le> held (take k es) \<and> held (take k es) < 2 ^ 31"
  proof (intro allI impI)
    fix k assume "k \<le> length es"
    then show "0 \<le> held (take k es) \<and> held (take k es) < 2 ^ 31"
      using spec [OF snoc.prems, of k] by simp
  qed
  then have IH: "ref_run es (ref_init x, 0) = Inr (of_int (held es), puts_to_one es)"
    by (rule snoc.IH)
  have h: "0 \<le> held (es @ [e])" "held (es @ [e]) < 2 ^ 31"
    using spec [OF snoc.prems, of "Suc (length es)"] by simp_all
  show ?case
  proof (cases e)
    case Get
    then show ?thesis
      by (simp add: ref_run_append IH ref_get_def atomic_inc_return_def held_snoc puts_to_one_snoc)
  next
    case Put
    then have "(of_int (held es) - 1 :: s32) = of_int (held (es @ [e]))" by (simp add: held_snoc)
    then show ?thesis using Put of_int_one_iff [OF h]
      by (auto simp: ref_run_append IH ref_put_def atomic_dec_return_def puts_to_one_snoc)
  qed
qed

section \<open>Properties\<close>

text \<open>C23. Every step of a thread in the mutex variant of the atomic operations is, on the cell and
  the results, no step or one call of the builtin variant: of the operation that the thread is in.\<close>

theorem mutex_atomic_refines_builtin:
  assumes "atom_reach ops c s" and "atom_step ops s s'"
  shows "abs_atom ops s' = abs_atom ops s \<or> gcc_step ops (abs_atom ops s) (abs_atom ops s')"
  by (rule atom_refines [OF assms(2) atom_reach_inv [OF assms(1)]])

text \<open>C33. At most one thread is inside the locked section, and a run never gets stuck before all
  calls returned. Where none of them is atomic_set, no addition or subtraction is lost then: the cell is its
  start value plus what all of them add, in whatever order the threads ran.\<close>

theorem mutex_atomic_sum:
  assumes "atom_reach ops c s"
  shows "length (filter in_section (pcs s)) \<le> 1
    \<and> (if list_all (\<lambda>p. case p of Done r \<Rightarrow> True | _ \<Rightarrow> False) (pcs s)
       then (\<forall>f\<in>set ops. \<not> is_set f) \<longrightarrow> cell s = c + sum_list (map delta ops) else \<exists>s'. atom_step ops s s')"
proof -
  note inv = atom_reach_inv [OF assms]
  have "i = j" if "i < length (pcs s)" "j < length (pcs s)" "in_section (pcs s ! i)" "in_section (pcs s ! j)" for i j
    using atom_inv_owner [OF inv that(1,3)] atom_inv_owner [OF inv that(2,4)] by simp
  then have "card {i. i < length (pcs s) \<and> in_section (pcs s ! i)} \<le> Suc 0"
    by (subst card_le_Suc0_iff_eq) auto
  then have one: "length (filter in_section (pcs s)) \<le> 1" by (simp add: length_filter_conv_card)
  show ?thesis
  proof (cases "list_all (\<lambda>p. case p of Done r \<Rightarrow> True | _ \<Rightarrow> False) (pcs s)")
    case True
    have len: "length (pcs s) = length ops" using inv by (simp add: atom_inv_def)
    have "abs_pc (ops ! i) (cell s) (pcs s ! i) \<noteq> None" if "i < length (pcs s)" for i
      using True nth_mem [OF that] by (cases "pcs s ! i") (auto simp: list_all_iff dest: bspec)
    then have "finished_sum ops (gcc_ret (abs_atom ops s)) = (\<Sum>i<length ops. delta (ops ! i))"
      using len unfolding finished_sum_def
      by (intro sum.cong) (fastforce simp: abs_atom_def)+
    then have "cell s = c + sum_list (map delta ops)" if "\<forall>f\<in>set ops. \<not> is_set f"
      using atom_reach_sum [OF that assms] by (simp add: gcc_inv_def abs_atom_def sum_list_sum_nth atLeast0LessThan)
    then show ?thesis using True one by simp
  next
    case False
    then obtain p where "p \<in> set (pcs s)" "\<forall>r. p \<noteq> Done r"
      by (auto simp: list_all_iff split: atom_pc.splits)
    then show ?thesis using atom_progress [OF inv] False one by auto
  qed
qed

text \<open>C34. Through any history of gets and puts the count is the number of references out, and
  the release callback runs once for every put that leaves exactly one reference: while a
  holder still uses the object.\<close>

theorem ref_releases_at_one:
  assumes "\<forall>k\<le>length es. 0 \<le> held (take k es) \<and> held (take k es) < 2 ^ 31"
  shows "ref_run es (ref_init x, 0) = Inr (of_int (held es), puts_to_one es)"
  by (rule ref_run_held [OF assms])

text \<open>The put that gives back the last reference never releases the object and answers 0;
  an object that was never shared is never released.\<close>

theorem ref_last_put_leaks:
  assumes "\<forall>k\<le>length es. 0 \<le> held (take k es) \<and> held (take k es) < 2 ^ 31"
    and "held es = 1"
  shows "bindE (ref_run es (ref_init x, 0)) (ref_put (Some Suc)) = Inr (0, 0, puts_to_one es)"
  using ref_run_held [OF assms(1), of x] assms(2) by (simp add: ref_put_def atomic_dec_return_def)

text \<open>Witnesses.\<close>

abbreviation demo_ops :: "atom_op list" where "demo_ops \<equiv> [A_Sub_Return 5]"

lemma demo_atom_run:
  "atom_reach demo_ops 7 (atom_init 7 1)"
  "atom_step demo_ops (atom_init 7 1) \<lparr>cell = 7, owner = Some 0, pcs = [Has_Lock]\<rparr>"
  "atom_step demo_ops \<lparr>cell = 7, owner = Some 0, pcs = [Has_Lock]\<rparr> \<lparr>cell = 7, owner = Some 0, pcs = [Loaded 7]\<rparr>"
  "atom_step demo_ops \<lparr>cell = 7, owner = Some 0, pcs = [Loaded 7]\<rparr> \<lparr>cell = 2, owner = Some 0, pcs = [Stored]\<rparr>"
  "atom_step demo_ops \<lparr>cell = 2, owner = Some 0, pcs = [Stored]\<rparr> \<lparr>cell = 2, owner = Some 0, pcs = [Read_Back 2]\<rparr>"
  "atom_step demo_ops \<lparr>cell = 2, owner = Some 0, pcs = [Read_Back 2]\<rparr> \<lparr>cell = 2, owner = None, pcs = [Done (Some 2)]\<rparr>"
  using atr_init [of demo_ops 7] at_lock [of 0 "atom_init 7 1" demo_ops]
    at_load [of 0 "\<lparr>cell = 7, owner = Some 0, pcs = [Has_Lock]\<rparr>" demo_ops]
    at_store [of 0 "\<lparr>cell = 7, owner = Some 0, pcs = [Loaded 7]\<rparr>" 7 demo_ops]
    at_read [of 0 "\<lparr>cell = 2, owner = Some 0, pcs = [Stored]\<rparr>" demo_ops]
    at_unlock [of 0 "\<lparr>cell = 2, owner = Some 0, pcs = [Read_Back 2]\<rparr>" 2 demo_ops]
  by (simp_all add: atom_init_def)

lemma demo_atom_reach:
  "atom_reach demo_ops 7 \<lparr>cell = 7, owner = Some 0, pcs = [Loaded 7]\<rparr>"
  "atom_reach demo_ops 7 \<lparr>cell = 2, owner = None, pcs = [Done (Some 2)]\<rparr>"
  using demo_atom_run(1) demo_atom_run(2-6) [THEN [2] atr_step] by simp_all

theorem mutex_atomic_refines_builtin_witness:
  "gcc_step demo_ops \<lparr>gcc_cell = 7, gcc_ret = [None]\<rparr> \<lparr>gcc_cell = 2, gcc_ret = [Some (Some 2)]\<rparr>"
  using mutex_atomic_refines_builtin [OF demo_atom_reach(1) demo_atom_run(4)]
  by (simp add: abs_atom_def)

theorem mutex_atomic_sum_witness:
  "atom_reach demo_ops 7 \<lparr>cell = 2, owner = None, pcs = [Done (Some 2)]\<rparr> \<and> (2 :: s32) = 7 + sum_list (map delta demo_ops)"
  using mutex_atomic_sum [OF demo_atom_reach(2)] demo_atom_reach(2) by simp

theorem ref_releases_at_one_witness:
  "ref_run [Get, Put, Put] (ref_init 0, 0) = Inr (0, 1) \<and> puts_to_one [Get, Put] = 1"
proof -
  have "0 \<le> held (take k [Get, Put, Put]) \<and> held (take k [Get, Put, Put]) < 2 ^ 31" for k
  proof -
    consider "k = 0" | "k = Suc 0" | "k = Suc (Suc 0)" | "3 \<le> k" by linarith
    then show ?thesis by cases (simp_all add: held_def)
  qed
  then show ?thesis
    using ref_releases_at_one [of "[Get, Put, Put]" 0] by (simp add: puts_to_one_def held_def)
qed

theorem ref_last_put_leaks_witness: "ref_put (Some Suc) (ref_init 0, 0) = Inr (0, 0, 0)"
  using ref_last_put_leaks [of "[]" 0] by (simp add: held_def puts_to_one_def)

end
