(* ===== verification/Streams.thy ===== *)
theory Streams
  imports Spg_Prelude
begin

text \<open>
  The contract of a routine that takes a message in pieces (get_crc32, SHA1Update): a
  state that represents the bytes taken so far, and an update that extends them, up to a
  total length and for pieces up to a length. What a client may rely on is that the way
  the message was cut does not matter.
\<close>

fun feed :: "('s \<Rightarrow> 'a list \<Rightarrow> fault + 's) \<Rightarrow> 's \<Rightarrow> 'a list list \<Rightarrow> fault + 's" where
  "feed upd s [] = Inr s"
| "feed upd s (c # cs) = bindE (upd s c) (\<lambda>s. feed upd s cs)"

locale stream =
  fixes upd :: "'s \<Rightarrow> 'a list \<Rightarrow> fault + 's" and rep :: "'s \<Rightarrow> 'a list \<Rightarrow> bool"
    and lim piece :: nat
  assumes upd_rep: "rep s m \<Longrightarrow> length m + length a < lim \<Longrightarrow> length a < piece \<Longrightarrow>
    \<exists>s'. upd s a = Inr s' \<and> rep s' (m @ a)"
begin

lemma feed_rep:
  "rep s m \<Longrightarrow> length m + length (concat cs) < lim \<Longrightarrow> \<forall>c\<in>set cs. length c < piece \<Longrightarrow>
    \<exists>s'. feed upd s cs = Inr s' \<and> rep s' (m @ concat cs)"
proof (induction cs arbitrary: s m)
  case (Cons c cs)
  obtain s' where s': "upd s c = Inr s'" "rep s' (m @ c)"
    using upd_rep [OF Cons.prems(1), of c] Cons.prems(2,3) by auto
  obtain s'' where "feed upd s' cs = Inr s''" "rep s'' ((m @ c) @ concat cs)"
    using Cons.IH [OF s'(2)] Cons.prems(2,3) by auto
  then show ?case using s' by simp
qed simp

end

text \<open>When the represented message determines what is read off the state, so does the whole message.\<close>

locale digest = stream upd rep lim piece
  for upd :: "'s \<Rightarrow> 'a list \<Rightarrow> fault + 's" and rep and lim and piece +
  fixes out :: "'s \<Rightarrow> 'd" and spec :: "'a list \<Rightarrow> 'd"
  assumes out_spec: "rep s m \<Longrightarrow> length m < lim \<Longrightarrow> out s = spec m"
begin

lemma feed_out:
  assumes "rep s []" "length (concat cs) < lim" "\<forall>c\<in>set cs. length c < piece"
  shows "\<exists>s'. feed upd s cs = Inr s' \<and> out s' = spec (concat cs)"
  using feed_rep [of s "[]" cs] assms out_spec by fastforce

lemma feed_cut:
  assumes "rep s []" "concat cs = concat ds" "length (concat cs) < lim"
    "\<forall>c\<in>set cs \<union> set ds. length c < piece"
  shows "\<exists>x y. feed upd s cs = Inr x \<and> feed upd s ds = Inr y \<and> out x = out y"
  using feed_out [of s cs] feed_out [of s ds] assms by fastforce

end

end
