(* ===== verification/Crc32.thy ===== *)
theory Crc32
  imports Crc32_Tables Streams
begin

text \<open>
  src/algo_crc32.c: get_crc32, the table-driven CRC-32C that works on bytes up to a 4-byte
  boundary of the address, then on words, then on bytes again. It is proved equal to the
  bit-serial CRC at every address; the rest is proved of the bit-serial form.
\<close>

section \<open>The code\<close>

text \<open>\<open>load_le_uint\<close> copies four bytes into a uint32_t of a little-endian machine.\<close>

definition load_le_uint :: "u8 list \<Rightarrow> nat \<Rightarrow> fault + u32" where
  "load_le_uint buf p = bindE (mem_slice buf p 4) (\<lambda>b.
     Inr (ucast (b ! 0) OR push_bit 8 (ucast (b ! 1)) OR push_bit 16 (ucast (b ! 2)) OR push_bit 24 (ucast (b ! 3))))"

text \<open>\<open>p\<close> is the distance of the code's pointer p from buf.\<close>

definition STEP1 :: "u8 list \<Rightarrow> nat \<Rightarrow> u32 \<Rightarrow> fault + u32" where
  "STEP1 buf p l = bindE (mem_slice buf p 1) (\<lambda>b.
     let c = (l AND 0xff) XOR ucast (b ! 0)
     in Inr (table0 ! unat c XOR drop_bit 8 l))"

definition STEP4 :: "u8 list \<Rightarrow> nat \<Rightarrow> u32 \<Rightarrow> fault + u32" where
  "STEP4 buf p l = bindE (load_le_uint buf p) (\<lambda>w.
     let c = l XOR w
     in Inr (table3 ! unat (c AND 0xff) XOR table2 ! unat (drop_bit 8 c AND 0xff)
             XOR table1 ! unat (drop_bit 16 c AND 0xff) XOR table0 ! unat (drop_bit 24 c)))"

text \<open>\<open>while (p != x) STEP1\<close>; a read behind the buffer ends the run.\<close>

function bytes_to :: "u8 list \<Rightarrow> nat \<Rightarrow> nat \<Rightarrow> u32 \<Rightarrow> fault + nat \<times> u32" where
  "bytes_to buf x p l =
     (if p = x then Inr (p, l) else bindE (STEP1 buf p l) (\<lambda>l. bytes_to buf x (p + 1) l))"
  by pat_completeness auto
termination
  by (relation "measure (\<lambda>(buf, x, p, l). length buf - p)")
    (auto simp: STEP1_def mem_slice_def split: if_splits)

function words_16 :: "u8 list \<Rightarrow> nat \<Rightarrow> u32 \<Rightarrow> fault + nat \<times> u32" where
  "words_16 buf p l =
     (if length buf - p \<ge> 16
      then bindE (STEP4 buf p l) (\<lambda>l.
           bindE (STEP4 buf (p + 4) l) (\<lambda>l.
           bindE (STEP4 buf (p + 8) l) (\<lambda>l.
           bindE (STEP4 buf (p + 12) l) (\<lambda>l. words_16 buf (p + 16) l))))
      else Inr (p, l))"
  by pat_completeness auto
termination by (relation "measure (\<lambda>(buf, p, l). length buf - p)") auto

function words_4 :: "u8 list \<Rightarrow> nat \<Rightarrow> u32 \<Rightarrow> fault + nat \<times> u32" where
  "words_4 buf p l =
     (if length buf - p \<ge> 4 then bindE (STEP4 buf p l) (\<lambda>l. words_4 buf (p + 4) l) else Inr (p, l))"
  by pat_completeness auto
termination by (relation "measure (\<lambda>(buf, p, l). length buf - p)") auto

declare bytes_to.simps [simp del] words_16.simps [simp del] words_4.simps [simp del]

text \<open>
  \<open>pval\<close> is the address of the buffer; \<open>size\<close> is the length of \<open>buf\<close>. The first aligned
  address x is compared with the end address as the code does it.
\<close>

definition get_crc32 :: "u64 \<Rightarrow> u32 \<Rightarrow> u8 list \<Rightarrow> fault + u32" where
  "get_crc32 pval crc buf =
     (let e = pval + of_nat (length buf);
          l = crc XOR 0xffffffff;
          x = push_bit 2 (drop_bit 2 (pval + 3))
      in bindE (if x \<le> e then bytes_to buf (unat (x - pval)) 0 l else Inr (0, l)) (\<lambda>(p, l).
         bindE (words_16 buf p l) (\<lambda>(p, l).
         bindE (words_4 buf p l) (\<lambda>(p, l).
         bindE (bytes_to buf (length buf) p l) (\<lambda>(p, l).
         Inr (l XOR 0xffffffff))))))"

section \<open>The bit-serial form\<close>

text \<open>One shift of the register with the reflected Castagnoli polynomial.\<close>

definition crc_shift :: "u32 \<Rightarrow> u32" where
  "crc_shift x = drop_bit 1 x XOR (if bit x 0 then 0x82f63b78 else 0)"

definition crc_bit :: "u32 \<Rightarrow> bool \<Rightarrow> u32" where
  "crc_bit l b = drop_bit 1 l XOR (if bit l 0 \<noteq> b then 0x82f63b78 else 0)"

definition byte_bits :: "u8 \<Rightarrow> bool list" where
  "byte_bits b = map (bit b) [0..<8]"

definition crc_bytes :: "u32 \<Rightarrow> u8 list \<Rightarrow> u32" where
  "crc_bytes l bs = foldl crc_bit l (concat (map byte_bits bs))"

definition crc32c :: "u32 \<Rightarrow> u8 list \<Rightarrow> u32" where
  "crc32c crc bs = NOT (crc_bytes (NOT crc) bs)"

lemma crc_shift_xor: "crc_shift (x XOR y) = crc_shift x XOR crc_shift y"
  by (rule bit_word_eqI) (auto simp: crc_shift_def bit_simps)

lemma crc_shifts_xor: "(crc_shift ^^ n) (x XOR y) = (crc_shift ^^ n) x XOR (crc_shift ^^ n) y"
  by (induction n) (simp_all add: crc_shift_xor)

lemma crc_shifts_0 [simp]: "(crc_shift ^^ n) 0 = 0"
  by (induction n) (simp_all add: crc_shift_def)

lemma crc_shifts_low:
  "\<forall>i<n. \<not> bit x i \<Longrightarrow> (crc_shift ^^ n) x = drop_bit n x"
proof (induction n)
  case (Suc n)
  then have "(crc_shift ^^ n) x = drop_bit n x" "\<not> bit (drop_bit n x) 0"
    by (simp_all add: bit_drop_bit_eq)
  then show ?case by (simp add: crc_shift_def [of "drop_bit n x"])
qed simp

lemma crc_shifts_add: "(crc_shift ^^ m) ((crc_shift ^^ n) x) = (crc_shift ^^ (m + n)) x"
  by (simp add: funpow_add)

text \<open>Shifting out a value that sits above the low bits.\<close>

lemma crc_shifts_push:
  assumes "drop_bit (32 - n) (x :: u32) = 0" "n \<le> 32"
  shows "(crc_shift ^^ n) (push_bit n x) = x"
proof -
  have "(crc_shift ^^ n) (push_bit n x) = drop_bit n (push_bit n x)"
    by (rule crc_shifts_low) (simp add: bit_push_bit_iff)
  also have "\<dots> = x"
  proof (rule bit_word_eqI)
    fix i assume i: "i < LENGTH(32)"
    have "\<not> bit x i" if "32 \<le> i + n"
      using arg_cong [OF assms(1), of "\<lambda>w. bit w (i + n - 32)"] that assms(2) by (simp add: bit_drop_bit_eq)
    then show "bit (drop_bit n (push_bit n x)) i = bit x i"
      using i by (auto simp: bit_drop_bit_eq bit_push_bit_iff) (metis add.commute not_le)
  qed
  finally show ?thesis .
qed

text \<open>A run of at most 32 bits enters the register at once.\<close>

fun bits_word :: "bool list \<Rightarrow> u32" where
  "bits_word [] = 0"
| "bits_word (b # bs) = of_bool b XOR push_bit 1 (bits_word bs)"

lemma bit_bits_word: "bit (bits_word bs) i \<longleftrightarrow> i < 32 \<and> i < length bs \<and> bs ! i"
proof (induction bs arbitrary: i)
  case (Cons b bs)
  show ?case
    using Cons.IH [of "i - 1"]
    by (cases i) (auto simp del: push_bit_numeral push_bit_Suc
        simp add: bit_xor_iff bit_push_bit_iff bit_of_bool_iff)
qed simp

lemma bits_word_append: "bits_word (xs @ ys) = bits_word xs XOR push_bit (length xs) (bits_word ys)"
  by (rule bit_word_eqI) (auto simp: bit_bits_word bit_simps nth_append)

lemma crc_bit_shift: "crc_bit l b = crc_shift (l XOR of_bool b)"
  by (rule bit_word_eqI) (cases b; simp add: crc_bit_def crc_shift_def bit_simps)

lemma crc_bits_word:
  "length bs \<le> 32 \<Longrightarrow> foldl crc_bit l bs = (crc_shift ^^ length bs) (l XOR bits_word bs)"
proof (induction bs arbitrary: l)
  case (Cons b bs)
  have "drop_bit (32 - 1) (bits_word bs) = 0"
    using Cons.prems by (intro bit_word_eqI) (simp add: bit_simps bit_bits_word)
  then have "crc_shift (push_bit 1 (bits_word bs)) = bits_word bs"
    using crc_shifts_push [of 1 "bits_word bs"] by simp
  then have "crc_bit l b XOR bits_word bs = crc_shift (l XOR bits_word (b # bs))"
    by (simp only: bits_word.simps crc_bit_shift crc_shift_xor xor.assoc)
  then show ?case using Cons.IH [of "crc_bit l b"] Cons.prems
    by (simp del: funpow.simps bits_word.simps add: funpow_Suc_right)
qed simp

lemma crc_bytes_append: "crc_bytes l (xs @ ys) = crc_bytes (crc_bytes l xs) ys"
  by (simp add: crc_bytes_def)

lemma crc_bytes_Nil [simp]: "crc_bytes l [] = l"
  by (simp add: crc_bytes_def)

lemma length_byte_bits [simp]: "length (byte_bits b) = 8"
  by (simp add: byte_bits_def)

lemma bits_word_byte: "bits_word (byte_bits b) = ucast b"
proof (rule bit_word_eqI)
  fix n
  show "bit (bits_word (byte_bits b)) n = bit (ucast b :: u32) n"
    by (cases "n < 8") (auto simp: bit_bits_word byte_bits_def bit_unsigned_iff dest: bit_imp_le_length)
qed

lemma crc_one_byte: "crc_bytes l [b] = (crc_shift ^^ 8) (l XOR ucast b)"
  using crc_bits_word [of "byte_bits b" l] by (simp add: crc_bytes_def bits_word_byte)

lemma crc_four_bytes:
  "crc_bytes l [b0, b1, b2, b3] = (crc_shift ^^ 32) (l XOR (ucast b0 OR push_bit 8 (ucast b1)
     OR push_bit 16 (ucast b2) OR push_bit 24 (ucast b3)))"
proof -
  let ?bs = "byte_bits b0 @ byte_bits b1 @ byte_bits b2 @ byte_bits b3"
  have "bits_word ?bs = ucast b0 OR push_bit 8 (ucast b1) OR push_bit 16 (ucast b2) OR push_bit 24 (ucast b3)"
    by (rule bit_word_eqI)
      (auto simp: bits_word_append bits_word_byte bit_simps dest: bit_imp_le_length)
  then show ?thesis using crc_bits_word [of ?bs l] by (simp add: crc_bytes_def)
qed

section \<open>The tables\<close>

text \<open>The span of a list of values under XOR, in the order of the indices' binary digits.\<close>

fun xor_span :: "u32 list \<Rightarrow> u32 list \<Rightarrow> u32 list" where
  "xor_span acc [] = acc"
| "xor_span acc (b # bs) = xor_span (acc @ map (\<lambda>x. x XOR b) acc) bs"

lemma of_nat_add_exp:
  assumes "i < 2 ^ k" "k < 32"
  shows "(of_nat (2 ^ k + i) :: u32) = of_nat i XOR of_nat (2 ^ k)"
proof -
  have "\<not> bit (of_nat i :: u32) k"
    using assms by (simp add: bit_of_nat_iff) (simp add: bit_iff_odd)
  then have "(of_nat i :: u32) + 2 ^ k = of_nat i OR 2 ^ k"
    by (intro disjunctive_add) (auto simp: bit_exp_iff)
  also have "\<dots> = of_nat i XOR 2 ^ k"
    using \<open>\<not> bit (of_nat i :: u32) k\<close> by (intro bit_word_eqI) (auto simp: bit_simps)
  finally show ?thesis by (simp add: add.commute)
qed


lemma xor_span_linear:
  fixes f :: "u32 \<Rightarrow> u32"
  assumes lin: "\<And>x y. f (x XOR y) = f x XOR f y" and n: "n \<le> 32"
  shows "xor_span [f 0] (map (\<lambda>k. f (2 ^ k)) [0..<n]) = map (\<lambda>i. f (of_nat i)) [0..<2 ^ n]"
  using n
proof (induction n)
  case (Suc k)
  have snoc: "xor_span acc (bs @ [b]) = xor_span acc bs @ map (\<lambda>x. x XOR b) (xor_span acc bs)" for acc bs b
    by (induction acc bs rule: xor_span.induct) simp_all
  have "[0..<2 ^ Suc k] = [0..<2 ^ k] @ map (\<lambda>i. 2 ^ k + i) [0..<2 ^ k]"
    using upt_add_eq_append [of 0 "2 ^ k" "2 ^ k"] map_add_upt [of "2 ^ k" "2 ^ k"]
    by (simp add: add.commute mult_2)
  moreover have "map (\<lambda>i. f (of_nat (2 ^ k + i))) [0..<2 ^ k]
      = map (\<lambda>i. f (of_nat i) XOR f (2 ^ k)) [0..<2 ^ k]"
  proof (rule map_cong [OF refl])
    fix i :: nat assume "i \<in> set [0..<2 ^ k]"
    then show "f (of_nat (2 ^ k + i)) = f (of_nat i) XOR f (2 ^ k)"
      using of_nat_add_exp [of i k] Suc.prems lin by (simp del: of_nat_add)
  qed
  ultimately have "map (\<lambda>i. f (of_nat i)) [0..<2 ^ Suc k] = map (\<lambda>i. f (of_nat i)) [0..<2 ^ k]
      @ map (\<lambda>i. f (of_nat i) XOR f (2 ^ k)) [0..<2 ^ k]"
    by (simp del: of_nat_add)
  moreover have "xor_span [f 0] (map (\<lambda>k. f (2 ^ k)) [0..<k]) = map (\<lambda>i. f (of_nat i)) [0..<2 ^ k]"
    by (rule Suc.IH) (use Suc.prems in simp)
  ultimately show ?case by (simp add: snoc comp_def)
qed simp

text \<open>One byte of the register advanced by 8, 16, 24 or 32 shifts.\<close>

definition byte_shifts :: "nat \<Rightarrow> u32 list" where
  "byte_shifts n = map (\<lambda>i. (crc_shift ^^ n) (of_nat i)) [0..<256]"

lemma byte_shifts_span: "byte_shifts n = xor_span [0] (map (\<lambda>k. (crc_shift ^^ n) (2 ^ k)) [0..<8])"
  using xor_span_linear [of "crc_shift ^^ n" 8] by (simp add: byte_shifts_def crc_shifts_xor)

lemma basis_8: "map (\<lambda>k. (crc_shift ^^ 8) (2 ^ k)) [0..<8] =
    [0xf26b8303, 0xe13b70f7, 0xc79a971f, 0x8ad958cf, 0x105ec76f, 0x20bd8ede, 0x417b1dbc, 0x82f63b78]"
  by code_simp

lemma basis_step:
  "map (\<lambda>k. (crc_shift ^^ n) (2 ^ k)) [0..<8] = bs \<Longrightarrow>
    map (\<lambda>k. (crc_shift ^^ (8 + n)) (2 ^ k)) [0..<8] = map (crc_shift ^^ 8) bs"
  by (auto simp: funpow_add)

lemma basis_16: "map (\<lambda>k. (crc_shift ^^ 16) (2 ^ k)) [0..<8] =
    [0x13a29877, 0x274530ee, 0x4e8a61dc, 0x9d14c3b8, 0x3fc5f181, 0x7f8be302, 0xff17c604, 0xfbc3faf9]"
proof -
  have "map (crc_shift ^^ 8) [0xf26b8303, 0xe13b70f7, 0xc79a971f, 0x8ad958cf, 0x105ec76f, 0x20bd8ede, 0x417b1dbc, 0x82f63b78]
    = [0x13a29877, 0x274530ee, 0x4e8a61dc, 0x9d14c3b8, 0x3fc5f181, 0x7f8be302, 0xff17c604, 0xfbc3faf9]"
    by code_simp
  then show ?thesis using basis_step [OF basis_8] by simp
qed

lemma basis_24: "map (\<lambda>k. (crc_shift ^^ 24) (2 ^ k)) [0..<8] =
    [0xa541927e, 0x4f6f520d, 0x9edea41a, 0x38513ec5, 0x70a27d8a, 0xe144fb14, 0xc76580d9, 0x8b277743]"
proof -
  have "map (crc_shift ^^ 8) [0x13a29877, 0x274530ee, 0x4e8a61dc, 0x9d14c3b8, 0x3fc5f181, 0x7f8be302, 0xff17c604, 0xfbc3faf9]
    = [0xa541927e, 0x4f6f520d, 0x9edea41a, 0x38513ec5, 0x70a27d8a, 0xe144fb14, 0xc76580d9, 0x8b277743]"
    by code_simp
  then show ?thesis using basis_step [OF basis_16] by simp
qed

lemma basis_32: "map (\<lambda>k. (crc_shift ^^ 32) (2 ^ k)) [0..<8] =
    [0xdd45aab8, 0xbf672381, 0x7b2231f3, 0xf64463e6, 0xe964b13d, 0xd725148b, 0xaba65fe7, 0x52a0c93f]"
proof -
  have "map (crc_shift ^^ 8) [0xa541927e, 0x4f6f520d, 0x9edea41a, 0x38513ec5, 0x70a27d8a, 0xe144fb14, 0xc76580d9, 0x8b277743]
    = [0xdd45aab8, 0xbf672381, 0x7b2231f3, 0xf64463e6, 0xe964b13d, 0xd725148b, 0xaba65fe7, 0x52a0c93f]"
    by code_simp
  then show ?thesis using basis_step [OF basis_24] by simp
qed

lemma table0_shifts: "table0 = byte_shifts 8"
  unfolding byte_shifts_span basis_8 by (simp add: table0_def)

lemma table1_shifts: "table1 = byte_shifts 16"
  unfolding byte_shifts_span basis_16 by (simp add: table1_def)

lemma table2_shifts: "table2 = byte_shifts 24"
  unfolding byte_shifts_span basis_24 by (simp add: table2_def)

lemma table3_shifts: "table3 = byte_shifts 32"
  unfolding byte_shifts_span basis_32 by (simp add: table3_def)


lemma byte_shifts_nth:
  assumes "drop_bit 8 (x :: u32) = 0"
  shows "byte_shifts n ! unat x = (crc_shift ^^ n) x"
proof -
  have "unat x < 256"
    using assms by (simp add: drop_bit_eq_div word_unat_eq_iff unat_div div_eq_0_iff)
  then show ?thesis by (simp add: byte_shifts_def)
qed

lemmas table_nth = byte_shifts_nth [of _ 8, folded table0_shifts] byte_shifts_nth [of _ 16, folded table1_shifts]
  byte_shifts_nth [of _ 24, folded table2_shifts] byte_shifts_nth [of _ 32, folded table3_shifts]

section \<open>The steps against the bit-serial form\<close>

lemma and_ff: "(x :: u32) AND 0xff = take_bit 8 x"
  by (simp add: take_bit_eq_mask mask_eq_exp_minus_1)

lemma STEP1_byte:
  assumes "p < length buf"
  shows "STEP1 buf p l = Inr (crc_bytes l [buf ! p])"
proof -
  let ?c = "take_bit 8 l XOR ucast (buf ! p)"
  have c: "drop_bit 8 ?c = 0"
    by (rule bit_word_eqI) (auto simp: bit_simps dest: bit_imp_le_length)
  have "l XOR ucast (buf ! p) = ?c XOR push_bit 8 (drop_bit 8 l)"
    by (rule bit_word_eqI) (auto simp: bit_simps dest: bit_imp_le_length)
  moreover have "(crc_shift ^^ 8) (push_bit 8 (drop_bit 8 l)) = drop_bit 8 l"
    by (rule crc_shifts_push) (auto intro!: bit_word_eqI simp: bit_simps)
  ultimately have "(crc_shift ^^ 8) (l XOR ucast (buf ! p)) = (crc_shift ^^ 8) ?c XOR drop_bit 8 l"
    by (simp only: crc_shifts_xor)
  moreover have "take (Suc 0) (drop p buf) = [buf ! p]"
    using assms by (simp add: take_Suc_conv_app_nth)
  ultimately show ?thesis
    using assms table_nth(1) [OF c] by (simp add: STEP1_def mem_slice_def crc_one_byte Let_def and_ff)
qed

lemma shifts_of_byte:
  assumes "drop_bit 8 (x :: u32) = 0" "n \<le> 24" "m = k + n"
  shows "(crc_shift ^^ m) (push_bit n x) = (crc_shift ^^ k) x"
proof -
  have "drop_bit (32 - n) x = drop_bit (24 - n) (drop_bit 8 x)" using assms(2) by simp
  also have "\<dots> = 0" unfolding assms(1) by simp
  finally have "(crc_shift ^^ n) (push_bit n x) = x"
    using assms(2) by (intro crc_shifts_push) simp_all
  then show ?thesis unfolding assms(3) by (simp add: funpow_add)
qed

lemma list_of_4: "length xs = 4 \<Longrightarrow> \<exists>a b c d. xs = [a, b, c, d]"
  by (auto simp: numeral_eq_Suc length_Suc_conv)

lemma STEP4_word:
  assumes "p + 4 \<le> length buf"
  shows "STEP4 buf p l = Inr (crc_bytes l (take 4 (drop p buf)))"
proof -
  obtain b0 b1 b2 b3 where b: "take 4 (drop p buf) = [b0, b1, b2, b3]"
    using list_of_4 [of "take 4 (drop p buf)"] assms by auto
  define w :: u32 where "w = ucast b0 OR push_bit 8 (ucast b1) OR push_bit 16 (ucast b2) OR push_bit 24 (ucast b3)"
  have load: "load_le_uint buf p = Inr w"
    using assms b by (simp add: load_le_uint_def mem_slice_def w_def)
  define c where "c = l XOR w"
  define c0 c1 c2 c3 where "c0 = take_bit 8 c" and "c1 = take_bit 8 (drop_bit 8 c)"
    and "c2 = take_bit 8 (drop_bit 16 c)" and "c3 = drop_bit 24 c"
  note cs = c0_def c1_def c2_def c3_def
  have z: "drop_bit 8 c0 = 0" "drop_bit 8 c1 = 0" "drop_bit 8 c2 = 0" "drop_bit 8 c3 = 0"
    unfolding cs by (auto intro!: bit_word_eqI simp: bit_simps)
  have "c = push_bit 24 c3 XOR push_bit 16 c2 XOR push_bit 8 c1 XOR c0"
  proof (rule bit_word_eqI)
    fix n assume "n < LENGTH(32)"
    then consider "n < 8" | "8 \<le> n" "n < 16" | "16 \<le> n" "n < 24" | "24 \<le> n" "n < 32" by fastforce
    then show "bit c n = bit (push_bit 24 c3 XOR push_bit 16 c2 XOR push_bit 8 c1 XOR c0) n"
      unfolding cs by cases (auto simp: bit_simps)
  qed
  then have "(crc_shift ^^ 32) c = (crc_shift ^^ 32) (push_bit 24 c3) XOR (crc_shift ^^ 32) (push_bit 16 c2)
      XOR (crc_shift ^^ 32) (push_bit 8 c1) XOR (crc_shift ^^ 32) c0"
    by (metis crc_shifts_xor)
  also have "\<dots> = (crc_shift ^^ 8) c3 XOR (crc_shift ^^ 16) c2 XOR (crc_shift ^^ 24) c1 XOR (crc_shift ^^ 32) c0"
    using shifts_of_byte [OF z(4), of 24 32 8] shifts_of_byte [OF z(3), of 16 32 16]
      shifts_of_byte [OF z(2), of 8 32 24] by simp
  also have "\<dots> = table3 ! unat c0 XOR table2 ! unat c1 XOR table1 ! unat c2 XOR table0 ! unat c3"
    by (simp add: table_nth z xor.commute xor.left_commute)
  finally show ?thesis
    unfolding STEP4_def load bindE_simps Let_def c_def [symmetric] and_ff b crc_four_bytes w_def [symmetric] cs
    by simp
qed


lemma take_add_drop: "take (m + n) (drop p xs) = take m (drop p xs) @ take n (drop (p + m) xs)"
  by (metis add.commute drop_drop take_add)

lemma bytes_to_crc:
  "p \<le> x \<Longrightarrow> x \<le> length buf \<Longrightarrow> bytes_to buf x p l = Inr (x, crc_bytes l (take (x - p) (drop p buf)))"
proof (induction buf x p l rule: bytes_to.induct)
  case (1 buf x p l)
  show ?case
  proof (cases "p = x")
    case False
    then have p: "p < length buf" "p + 1 \<le> x" using "1.prems" by simp_all
    have "take (x - p) (drop p buf) = [buf ! p] @ take (x - (p + 1)) (drop (p + 1) buf)"
    proof -
      have "x - p = 1 + (x - (p + 1))" using p by simp
      then show ?thesis
        using take_add_drop [of 1 "x - (p + 1)" p buf] p by (simp add: take_Suc_conv_app_nth)
    qed
    moreover note "1.IH" [OF False STEP1_byte [OF p(1)] p(2) "1.prems"(2)]
    ultimately show ?thesis
      using False STEP1_byte [OF p(1)]
      by (simp add: bytes_to.simps [of buf x p] crc_bytes_append del: append.simps)
  qed (simp add: bytes_to.simps)
qed

lemma words_4_crc:
  "p \<le> length buf \<Longrightarrow> \<exists>q. p \<le> q \<and> q \<le> length buf
     \<and> words_4 buf p l = Inr (q, crc_bytes l (take (q - p) (drop p buf)))"
proof (induction buf p l rule: words_4.induct)
  case (1 buf p l)
  show ?case
  proof (cases "4 \<le> length buf - p")
    case True
    then have le: "p + 4 \<le> length buf" by linarith
    let ?l = "crc_bytes l (take 4 (drop p buf))"
    have s: "STEP4 buf p l = Inr ?l" by (rule STEP4_word) (use True in simp)
    obtain q where q: "p + 4 \<le> q" "q \<le> length buf"
        "words_4 buf (p + 4) ?l = Inr (q, crc_bytes ?l (take (q - (p + 4)) (drop (p + 4) buf)))"
      using "1.IH" [OF True s] le by auto
    have "take (q - p) (drop p buf) = take 4 (drop p buf) @ take (q - (p + 4)) (drop (p + 4) buf)"
      using take_add_drop [of 4 "q - (p + 4)" p buf] q(1) by simp
    then show ?thesis
      using True s q by (intro exI [of _ q]) (simp add: words_4.simps [of buf p] crc_bytes_append)
  next
    case False
    then show ?thesis using "1.prems" by (intro exI [of _ p]) (simp add: words_4.simps)
  qed
qed

lemma words_16_crc:
  "p \<le> length buf \<Longrightarrow> \<exists>q. p \<le> q \<and> q \<le> length buf
     \<and> words_16 buf p l = Inr (q, crc_bytes l (take (q - p) (drop p buf)))"
proof (induction buf p l rule: words_16.induct)
  case (1 buf p l)
  show ?case
  proof (cases "16 \<le> length buf - p")
    case True
    then have le: "p + 16 \<le> length buf" by linarith
    define l1 l2 l3 l4 where "l1 = crc_bytes l (take 4 (drop p buf))"
      and "l2 = crc_bytes l1 (take 4 (drop (p + 4) buf))"
      and "l3 = crc_bytes l2 (take 4 (drop (p + 8) buf))"
      and "l4 = crc_bytes l3 (take 4 (drop (p + 12) buf))"
    note ls = l1_def l2_def l3_def l4_def
    have s: "STEP4 buf p l = Inr l1" "STEP4 buf (p + 4) l1 = Inr l2" "STEP4 buf (p + 8) l2 = Inr l3"
        "STEP4 buf (p + 12) l3 = Inr l4"
      unfolding ls by (rule STEP4_word; use True in simp)+
    obtain q where q: "p + 16 \<le> q" "q \<le> length buf"
        "words_16 buf (p + 16) l4 = Inr (q, crc_bytes l4 (take (q - (p + 16)) (drop (p + 16) buf)))"
      using "1.IH" [OF True s] le by auto
    have "take 16 (drop p buf) = take 4 (drop p buf) @ take 4 (drop (p + 4) buf)
        @ take 4 (drop (p + 8) buf) @ take 4 (drop (p + 12) buf)"
      using take_add_drop [of 4 12 p buf] take_add_drop [of 4 8 "p + 4" buf]
        take_add_drop [of 4 4 "p + 8" buf] by (simp add: add.commute)
    moreover have "take (q - p) (drop p buf) = take 16 (drop p buf) @ take (q - (p + 16)) (drop (p + 16) buf)"
      using take_add_drop [of 16 "q - (p + 16)" p buf] q(1) by simp
    ultimately have "crc_bytes l (take (q - p) (drop p buf)) = crc_bytes l4 (take (q - (p + 16)) (drop (p + 16) buf))"
      by (simp only: crc_bytes_append ls)
    then show ?thesis
      using True s q by (intro exI [of _ q]) (simp add: words_16.simps [of buf p])
  next
    case False
    then show ?thesis using "1.prems" by (intro exI [of _ p]) (simp add: words_16.simps)
  qed
qed


lemma align_4:
  assumes "unat (a :: u64) < 2 ^ 64 - 3"
  shows "a \<le> push_bit 2 (drop_bit 2 (a + 3))" "unat (push_bit 2 (drop_bit 2 (a + 3))) \<le> unat a + 3"
proof -
  have a3: "unat (a + 3) = unat a + 3" using assms unat_add_no_wrap [of a 3] by simp
  have "unat (drop_bit 2 (a + 3)) = (unat a + 3) div 4"
    by (simp add: a3 drop_bit_eq_div unat_div)
  moreover have "(unat a + 3) div 4 * 4 < 2 ^ 64" using unat_less_exp [of "a + 3"] a3 by simp
  ultimately have "unat (push_bit 2 (drop_bit 2 (a + 3))) = (unat a + 3) div 4 * 4"
    by (simp add: push_bit_eq_mult unat_mult_no_wrap)
  moreover have "unat a \<le> (unat a + 3) div 4 * 4" "(unat a + 3) div 4 * 4 \<le> unat a + 3"
    by presburger+
  ultimately show "a \<le> push_bit 2 (drop_bit 2 (a + 3))" "unat (push_bit 2 (drop_bit 2 (a + 3))) \<le> unat a + 3"
    by (simp_all add: word_le_nat_alt)
qed

lemma xor_ones: "(z :: u32) XOR 0xffffffff = NOT z"
proof -
  have "(0xffffffff :: u32) = - 1" by simp
  then show ?thesis by (simp only: bit.xor_one_right)
qed

lemma get_crc32_eq:
  assumes "unat pval + length buf < 2 ^ 64 - 3"
  shows "get_crc32 pval crc buf = Inr (crc32c crc buf)"
proof -
  let ?x = "push_bit 2 (drop_bit 2 (pval + 3))" and ?e = "pval + of_nat (length buf)"
  have l: "unat (of_nat (length buf) :: u64) = length buf"
    using assms by (simp add: unat_of_nat take_bit_nat_eq_self)
  have e: "unat ?e = unat pval + length buf"
    using assms l unat_add_no_wrap [of pval "of_nat (length buf)"] by simp
  have pre: "\<exists>p. p \<le> length buf \<and> (if ?x \<le> ?e then bytes_to buf (unat (?x - pval)) 0 (NOT crc) else Inr (0, NOT crc))
      = Inr (p, crc_bytes (NOT crc) (take p buf))"
  proof (cases "?x \<le> ?e")
    case True
    have "pval \<le> ?x" using align_4(1) [of pval] assms by simp
    then have "unat (?x - pval) = unat ?x - unat pval" by (rule unat_sub)
    then have "unat (?x - pval) \<le> length buf" using True e by (simp add: word_le_nat_alt)
    then show ?thesis using True bytes_to_crc [of 0 "unat (?x - pval)" buf] by auto
  qed auto
  then obtain p where p: "p \<le> length buf"
      "(if ?x \<le> ?e then bytes_to buf (unat (?x - pval)) 0 (NOT crc) else Inr (0, NOT crc))
        = Inr (p, crc_bytes (NOT crc) (take p buf))" by blast
  obtain q where q: "p \<le> q" "q \<le> length buf" "words_16 buf p (crc_bytes (NOT crc) (take p buf))
      = Inr (q, crc_bytes (NOT crc) (take p buf @ take (q - p) (drop p buf)))"
    using words_16_crc [OF p(1)] by (auto simp: crc_bytes_append)
  have q': "take p buf @ take (q - p) (drop p buf) = take q buf"
    using take_add [of p "q - p" buf] q(1) by simp
  obtain r where r: "q \<le> r" "r \<le> length buf" "words_4 buf q (crc_bytes (NOT crc) (take q buf))
      = Inr (r, crc_bytes (NOT crc) (take q buf @ take (r - q) (drop q buf)))"
    using words_4_crc [OF q(2)] by (auto simp: crc_bytes_append)
  have r': "take q buf @ take (r - q) (drop q buf) = take r buf"
    using take_add [of q "r - q" buf] r(1) by simp
  have "bytes_to buf (length buf) r (crc_bytes (NOT crc) (take r buf))
      = Inr (length buf, crc_bytes (NOT crc) (take r buf @ drop r buf))"
    using bytes_to_crc [OF r(2), of buf] by (simp add: crc_bytes_append del: append_take_drop_id)
  then have fin: "bytes_to buf (length buf) r (crc_bytes (NOT crc) (take r buf)) = Inr (length buf, crc_bytes (NOT crc) buf)"
    by simp
  show ?thesis
    using p(2) q(3) r(3) fin
    by (simp add: get_crc32_def Let_def crc32c_def xor_ones q' r')
qed


section \<open>Detection of bursts\<close>

text \<open>The register shift is a bijection: the polynomial has its top bit set.\<close>

lemma crc_shift_zero:
  assumes z: "crc_shift z = 0"
  shows "z = 0"
proof -
  have "bit (crc_shift z) 31 = bit z 0"
    by (cases "bit z 0") (auto simp: crc_shift_def bit_simps dest: bit_imp_le_length)
  then have b0: "\<not> bit z 0" using z by simp
  then have d: "drop_bit 1 z = 0" using z by (simp add: crc_shift_def)
  show "z = 0"
  proof (rule bit_word_eqI)
    fix i
    show "bit z i = bit (0 :: u32) i"
      using b0 arg_cong [OF d, of "\<lambda>w. bit w (i - 1)"] by (cases i) (simp_all add: bit_drop_bit_eq)
  qed
qed

lemma xor_cancel_right: "(x :: u32) XOR z = y XOR z \<longleftrightarrow> x = y"
proof
  assume "x XOR z = y XOR z"
  then have "(x XOR z) XOR z = (y XOR z) XOR z" by simp
  then show "x = y" by (simp add: xor.assoc)
qed simp

lemma crc_shift_inj: "crc_shift x = crc_shift y \<Longrightarrow> x = y"
  using crc_shift_zero [of "x XOR y"] xor_cancel_right [of x y y] by (simp add: crc_shift_xor)

lemma crc_shifts_inj: "(crc_shift ^^ n) x = (crc_shift ^^ n) y \<Longrightarrow> x = y"
  by (induction n) (auto dest: crc_shift_inj)

lemma crc_bit_inj: "crc_bit l b = crc_bit l' b \<Longrightarrow> l = l'"
  unfolding crc_bit_shift by (drule crc_shift_inj) (simp add: xor_cancel_right)

lemma crc_bits_inj: "foldl crc_bit l bs = foldl crc_bit l' bs \<Longrightarrow> l = l'"
  by (induction bs arbitrary: l l') (auto dest: crc_bit_inj)

lemma crc_burst:
  assumes "length u = length v" "length u \<le> 32" "u \<noteq> v"
  shows "foldl crc_bit l (pre @ u @ post) \<noteq> foldl crc_bit l (pre @ v @ post)"
proof
  assume "foldl crc_bit l (pre @ u @ post) = foldl crc_bit l (pre @ v @ post)"
  then have "foldl crc_bit (foldl crc_bit (foldl crc_bit l pre) u) post
      = foldl crc_bit (foldl crc_bit (foldl crc_bit l pre) v) post" by simp
  then have "foldl crc_bit (foldl crc_bit l pre) u = foldl crc_bit (foldl crc_bit l pre) v"
    by (rule crc_bits_inj)
  moreover define z where "z = foldl crc_bit l pre"
  ultimately have "(crc_shift ^^ length u) (z XOR bits_word u) = (crc_shift ^^ length u) (z XOR bits_word v)"
    using crc_bits_word [of u z] crc_bits_word [of v z] assms(1,2) by metis
  then have "bits_word u XOR z = bits_word v XOR z"
    by (drule_tac crc_shifts_inj) (simp only: xor.commute)
  then have "bits_word u = bits_word v" by (simp only: xor_cancel_right)
  then have "u ! i = v ! i" if "i < length u" for i
    using bit_bits_word [of u i] bit_bits_word [of v i] that assms(1,2) by simp
  then show False using assms(1,3) by (simp add: nth_equalityI)
qed

lemma not_inj: "NOT (x :: u32) = NOT y \<Longrightarrow> x = y"
  by (metis bit.double_compl)

section \<open>Pieces\<close>

lemma crc32c_append: "crc32c (crc32c crc xs) ys = crc32c crc (xs @ ys)"
  by (simp add: crc32c_def crc_bytes_append)

text \<open>A checksum carried through pieces that lie anywhere in the lower address space.\<close>

interpretation crc_stream: digest "get_crc32 pval" "\<lambda>crc m. crc = crc32c 0 m" "2 ^ 64 - 3 - unat pval"
  "2 ^ 64 - 3 - unat pval"
  "\<lambda>crc. crc" "crc32c 0" for pval
  by unfold_locales (auto simp: get_crc32_eq crc32c_append)

section \<open>Properties\<close>

text \<open>C1. At every address get_crc32 reads only the buffer and returns the bit-serial CRC-32C
  (reflected polynomial 0x82f63b78, start and result complemented) of its bytes: the byte,
  word and 16-byte loops and the four tables are an optimisation of it.\<close>

theorem get_crc32_correct:
  assumes "unat pval + length buf < 2 ^ 64 - 3"
  shows "get_crc32 pval crc buf = Inr (crc32c crc buf)"
  by (rule get_crc32_eq [OF assms])

text \<open>Feeding a message in pieces, each call getting the result of the one before, gives
  the checksum of the whole message however it was cut.\<close>

theorem get_crc32_pieces:
  assumes "unat pval + length (concat cs) < 2 ^ 64 - 3"
  shows "feed (get_crc32 pval) 0 cs = get_crc32 pval 0 (concat cs)"
proof -
  have "\<exists>x. feed (get_crc32 pval) 0 cs = Inr x \<and> x = crc32c 0 (concat cs)"
  proof (rule crc_stream.feed_out)
    show "\<forall>c\<in>set cs. length c < 2 ^ 64 - 3 - unat pval"
      using assms member_le_sum_list [of _ "map length cs"] by (fastforce simp: length_concat)
  qed (use assms in \<open>auto simp: crc32c_def\<close>)
  then show ?thesis using assms by (simp add: get_crc32_eq)
qed

text \<open>Two buffers of one length whose bits differ only within a window of at most 32 bits
  never have the same checksum.\<close>

theorem get_crc32_detects_bursts:
  assumes "unat p + length xs < 2 ^ 64 - 3" and "unat q + length ys < 2 ^ 64 - 3"
    and "concat (map byte_bits xs) = pre @ u @ post" and "concat (map byte_bits ys) = pre @ v @ post"
    and "length u = length v" and "length u \<le> 32" and "u \<noteq> v"
  shows "get_crc32 p crc xs \<noteq> get_crc32 q crc ys"
  using crc_burst [OF assms(5-7), of "NOT crc" pre post] not_inj
  by (auto simp: get_crc32_eq [OF assms(1)] get_crc32_eq [OF assms(2)] crc32c_def crc_bytes_def assms(3,4))

text \<open>The check value of the standard: ''123456789''.\<close>

lemma crc32c_check: "crc32c 0 [49, 50, 51, 52, 53, 54, 55, 56, 57] = 0xe3069283"
  by code_simp

theorem get_crc32_correct_witness:
  "get_crc32 0x1003 0 [49, 50, 51, 52, 53, 54, 55, 56, 57] = Inr 0xe3069283"
  using get_crc32_correct [where pval = "0x1003" and buf = "[49, 50, 51, 52, 53, 54, 55, 56, 57]" and crc = 0]
  by (simp add: crc32c_check)

theorem get_crc32_pieces_witness:
  "feed (get_crc32 0x1003) 0 [[49, 50], [51, 52, 53], [54, 55, 56, 57]]
     = get_crc32 0x1003 0 [49, 50, 51, 52, 53, 54, 55, 56, 57]"
  using get_crc32_pieces [where pval = "0x1003" and cs = "[[49, 50], [51, 52, 53], [54, 55, 56, 57]]"] by simp

theorem get_crc32_detects_bursts_witness: "get_crc32 0 0 [1, 2] \<noteq> get_crc32 0x2001 0 [1, 3]"
  by (rule get_crc32_detects_bursts [where pre = "byte_bits 1" and post = "tl (byte_bits 2)"
        and u = "[False]" and v = "[True]"])
    (simp_all add: byte_bits_def upt_rec)

end
