(* ===== verification/Sha1.thy ===== *)
theory Sha1
  imports Streams
begin

text \<open>
  src/algo_sha1.c and include/sha1.h: SHA-1 with its 80 unrolled round macros over rotating
  register names, the message schedule kept in a ring of 16 words, and the streaming
  interface SHA1Init, SHA1Update, SHA1Final. The reference is the algorithm of FIPS 180:
  the 80-word schedule, the round function by index, padding of the whole message.
\<close>

section \<open>The block function\<close>

definition rol :: "u32 \<Rightarrow> nat \<Rightarrow> u32" where
  "rol val bits = push_bit bits val OR drop_bit (32 - bits) val"

text \<open>The working variables a to e of SHA1Transform; a round macro gets five of their names.\<close>

datatype reg = ra | rb | rc | rd | re

text \<open>The values of the working variables and \<open>block->l\<close>.\<close>

type_synonym sha_st = "(reg \<Rightarrow> u32) \<times> u32 list"

text \<open>On a little-endian machine; \<open>i & 15\<close> of an index is \<open>i mod 16\<close>.\<close>

definition blk0 :: "nat \<Rightarrow> u32 list \<Rightarrow> u32 \<times> u32 list" where
  "blk0 i l = (let w = (rol (l ! i) 24 AND 0xFF00FF00) OR (rol (l ! i) 8 AND 0x00FF00FF)
     in (w, l[i := w]))"

definition blk :: "nat \<Rightarrow> u32 list \<Rightarrow> u32 \<times> u32 list" where
  "blk i l = (let w = rol (l ! ((i + 13) mod 16) XOR l ! ((i + 8) mod 16)
                           XOR l ! ((i + 2) mod 16) XOR l ! (i mod 16)) 1
     in (w, l[i mod 16 := w]))"

text \<open>What every macro does with its function value, the schedule word and its constant.\<close>

definition round_upd :: "reg \<Rightarrow> reg \<Rightarrow> reg \<Rightarrow> u32 \<Rightarrow> u32 \<times> u32 list \<Rightarrow> u32 \<Rightarrow> (reg \<Rightarrow> u32) \<Rightarrow> sha_st" where
  "round_upd v w z f bl k r =
     (let r = r(z := r z + (f + fst bl + k + rol (r v) 5));
          r = r(w := rol (r w) 30)
      in (r, snd bl))"

definition R0 :: "reg \<Rightarrow> reg \<Rightarrow> reg \<Rightarrow> reg \<Rightarrow> reg \<Rightarrow> nat \<Rightarrow> sha_st \<Rightarrow> sha_st" where
  "R0 v w x y z i = (\<lambda>(r, l).
     round_upd v w z ((r w AND (r x XOR r y)) XOR r y) (blk0 i l) 0x5A827999 r)"

definition R1 :: "reg \<Rightarrow> reg \<Rightarrow> reg \<Rightarrow> reg \<Rightarrow> reg \<Rightarrow> nat \<Rightarrow> sha_st \<Rightarrow> sha_st" where
  "R1 v w x y z i = (\<lambda>(r, l).
     round_upd v w z ((r w AND (r x XOR r y)) XOR r y) (blk i l) 0x5A827999 r)"

definition R2 :: "reg \<Rightarrow> reg \<Rightarrow> reg \<Rightarrow> reg \<Rightarrow> reg \<Rightarrow> nat \<Rightarrow> sha_st \<Rightarrow> sha_st" where
  "R2 v w x y z i = (\<lambda>(r, l).
     round_upd v w z (r w XOR r x XOR r y) (blk i l) 0x6ED9EBA1 r)"

definition R3 :: "reg \<Rightarrow> reg \<Rightarrow> reg \<Rightarrow> reg \<Rightarrow> reg \<Rightarrow> nat \<Rightarrow> sha_st \<Rightarrow> sha_st" where
  "R3 v w x y z i = (\<lambda>(r, l).
     round_upd v w z (((r w OR r x) AND r y) OR (r w AND r x)) (blk i l) 0x8F1BBCDC r)"

definition R4 :: "reg \<Rightarrow> reg \<Rightarrow> reg \<Rightarrow> reg \<Rightarrow> reg \<Rightarrow> nat \<Rightarrow> sha_st \<Rightarrow> sha_st" where
  "R4 v w x y z i = (\<lambda>(r, l).
     round_upd v w z (r w XOR r x XOR r y) (blk i l) 0xCA62C1D6 r)"

definition sha_calls :: "(sha_st \<Rightarrow> sha_st) list" where
  "sha_calls = [
     R0 ra rb rc rd re 0, R0 re ra rb rc rd 1, R0 rd re ra rb rc 2, R0 rc rd re ra rb 3,
     R0 rb rc rd re ra 4, R0 ra rb rc rd re 5, R0 re ra rb rc rd 6, R0 rd re ra rb rc 7,
     R0 rc rd re ra rb 8, R0 rb rc rd re ra 9, R0 ra rb rc rd re 10, R0 re ra rb rc rd 11,
     R0 rd re ra rb rc 12, R0 rc rd re ra rb 13, R0 rb rc rd re ra 14, R0 ra rb rc rd re 15,
     R1 re ra rb rc rd 16, R1 rd re ra rb rc 17, R1 rc rd re ra rb 18, R1 rb rc rd re ra 19,
     R2 ra rb rc rd re 20, R2 re ra rb rc rd 21, R2 rd re ra rb rc 22, R2 rc rd re ra rb 23,
     R2 rb rc rd re ra 24, R2 ra rb rc rd re 25, R2 re ra rb rc rd 26, R2 rd re ra rb rc 27,
     R2 rc rd re ra rb 28, R2 rb rc rd re ra 29, R2 ra rb rc rd re 30, R2 re ra rb rc rd 31,
     R2 rd re ra rb rc 32, R2 rc rd re ra rb 33, R2 rb rc rd re ra 34, R2 ra rb rc rd re 35,
     R2 re ra rb rc rd 36, R2 rd re ra rb rc 37, R2 rc rd re ra rb 38, R2 rb rc rd re ra 39,
     R3 ra rb rc rd re 40, R3 re ra rb rc rd 41, R3 rd re ra rb rc 42, R3 rc rd re ra rb 43,
     R3 rb rc rd re ra 44, R3 ra rb rc rd re 45, R3 re ra rb rc rd 46, R3 rd re ra rb rc 47,
     R3 rc rd re ra rb 48, R3 rb rc rd re ra 49, R3 ra rb rc rd re 50, R3 re ra rb rc rd 51,
     R3 rd re ra rb rc 52, R3 rc rd re ra rb 53, R3 rb rc rd re ra 54, R3 ra rb rc rd re 55,
     R3 re ra rb rc rd 56, R3 rd re ra rb rc 57, R3 rc rd re ra rb 58, R3 rb rc rd re ra 59,
     R4 ra rb rc rd re 60, R4 re ra rb rc rd 61, R4 rd re ra rb rc 62, R4 rc rd re ra rb 63,
     R4 rb rc rd re ra 64, R4 ra rb rc rd re 65, R4 re ra rb rc rd 66, R4 rd re ra rb rc 67,
     R4 rc rd re ra rb 68, R4 rb rc rd re ra 69, R4 ra rb rc rd re 70, R4 re ra rb rc rd 71,
     R4 rd re ra rb rc 72, R4 rc rd re ra rb 73, R4 rb rc rd re ra 74, R4 ra rb rc rd re 75,
     R4 re ra rb rc rd 76, R4 rd re ra rb rc 77, R4 rc rd re ra rb 78, R4 rb rc rd re ra 79]"

text \<open>\<open>block->l[i]\<close> after the memcpy of 64 bytes.\<close>

definition le_word :: "u8 list \<Rightarrow> nat \<Rightarrow> u32" where
  "le_word b i = ucast (b ! (4 * i)) OR push_bit 8 (ucast (b ! (4 * i + 1)))
     OR push_bit 16 (ucast (b ! (4 * i + 2))) OR push_bit 24 (ucast (b ! (4 * i + 3)))"

text \<open>\<open>off\<close> is where in the data the block starts.\<close>

definition SHA1Transform :: "u32 list \<Rightarrow> u8 list \<Rightarrow> nat \<Rightarrow> fault + u32 list" where
  "SHA1Transform state data off =
     bindE (mem_slice data off 64) (\<lambda>buffer.
     let l = map (le_word buffer) [0..<16];
         r = (\<lambda>x. case x of ra \<Rightarrow> state ! 0 | rb \<Rightarrow> state ! 1 | rc \<Rightarrow> state ! 2
                | rd \<Rightarrow> state ! 3 | re \<Rightarrow> state ! 4);
         r' = fst (fold (\<lambda>f. f) sha_calls (r, l))
     in Inr [state ! 0 + r' ra, state ! 1 + r' rb, state ! 2 + r' rc, state ! 3 + r' rd, state ! 4 + r' re])"

section \<open>The streaming interface\<close>

record SHA1_CTX =
  state :: "u32 list"
  count0 :: u32
  count1 :: u32
  buffer :: "u8 list"

definition SHA1Init :: "SHA1_CTX \<Rightarrow> SHA1_CTX" where
  "SHA1Init context = context\<lparr>
     state := [0x67452301, 0xEFCDAB89, 0x98BADCFE, 0x10325476, 0xC3D2E1F0],
     count0 := 0, count1 := 0\<rparr>"

text \<open>
  \<open>for ( ; i + 63 < len; i += 64)\<close>, run with fuel: a piece of less than 2^32 bytes has less
  than 2^26 whole blocks (lemma \<open>block_fuel_enough\<close>).
\<close>

fun sha_blocks :: "nat \<Rightarrow> u32 list \<Rightarrow> u8 list \<Rightarrow> u32 \<Rightarrow> u32 \<Rightarrow> fault + u32 \<times> u32 list" where
  "sha_blocks 0 st data len i = Inl Diverges"
| "sha_blocks (Suc n) st data len i =
     (if i + 63 < len
      then bindE (SHA1Transform st data (unat i)) (\<lambda>st. sha_blocks n st data len (i + 64))
      else Inr (i, st))"

definition block_fuel :: nat where "block_fuel = 2 ^ 26 + 1"

definition SHA1Update :: "SHA1_CTX \<Rightarrow> u8 list \<Rightarrow> u32 \<Rightarrow> fault + SHA1_CTX" where
  "SHA1Update context data len =
     (let j = count0 context;
          c = context\<lparr>count0 := count0 context + push_bit 3 len\<rparr>;
          c = (if count0 c < j then c\<lparr>count1 := count1 c + 1\<rparr> else c);
          c = c\<lparr>count1 := count1 c + drop_bit 29 len\<rparr>;
          j = drop_bit 3 j AND 63
      in bindE
           (if j + len > 63
            then let i = 64 - j in
                 bindE (mem_slice data 0 (unat i)) (\<lambda>d.
                 bindE (mem_store (buffer c) (unat j) d) (\<lambda>b.
                 bindE (SHA1Transform (state c) b 0) (\<lambda>st.
                 bindE (sha_blocks block_fuel st data len i) (\<lambda>(i, st).
                 Inr (c\<lparr>state := st, buffer := b\<rparr>, 0, i)))))
            else Inr (c, j, 0))
           (\<lambda>(c, j, i).
              bindE (mem_slice data (unat i) (unat (len - i))) (\<lambda>d.
              bindE (mem_store (buffer c) (unat j) d) (\<lambda>b. Inr (c\<lparr>buffer := b\<rparr>)))))"

text \<open>The padding loop; each pass moves the byte count modulo 64 by one.\<close>

fun sha_pad :: "nat \<Rightarrow> SHA1_CTX \<Rightarrow> fault + SHA1_CTX" where
  "sha_pad 0 context = Inl Diverges"
| "sha_pad (Suc n) context =
     (if count0 context AND 504 \<noteq> 448
      then bindE (SHA1Update context [0] 1) (sha_pad n)
      else Inr context)"

definition SHA1Final :: "SHA1_CTX \<Rightarrow> fault + u8 list \<times> SHA1_CTX" where
  "SHA1Final context =
     (let finalcount = map (\<lambda>i. ucast (drop_bit ((3 - i mod 4) * 8)
            (if i \<ge> 4 then count0 context else count1 context) AND 255)) [0..<8]
      in bindE (SHA1Update context [0x80] 1) (\<lambda>context.
         bindE (sha_pad 65 context) (\<lambda>context.
         bindE (SHA1Update context finalcount 8) (\<lambda>context.
         let digest = map (\<lambda>i. ucast (drop_bit ((3 - i mod 4) * 8) (state context ! (i div 4)) AND 255)) [0..<20]
         in Inr (digest, \<lparr>state = replicate 5 0, count0 = 0, count1 = 0, buffer = replicate 64 0\<rparr>)))))"

section \<open>The reference\<close>

text \<open>FIPS 180: schedule, round functions, constants, rounds, block function.\<close>

definition be_word :: "u8 list \<Rightarrow> nat \<Rightarrow> u32" where
  "be_word b i = push_bit 24 (ucast (b ! (4 * i))) OR push_bit 16 (ucast (b ! (4 * i + 1)))
     OR push_bit 8 (ucast (b ! (4 * i + 2))) OR ucast (b ! (4 * i + 3))"

function fips_W :: "u8 list \<Rightarrow> nat \<Rightarrow> u32" where
  "fips_W b t = (if t < 16 then be_word b t
     else rol (fips_W b (t - 3) XOR fips_W b (t - 8) XOR fips_W b (t - 14) XOR fips_W b (t - 16)) 1)"
  by pat_completeness auto
termination by (relation "measure snd") auto

declare fips_W.simps [simp del]

definition fips_f :: "nat \<Rightarrow> u32 \<Rightarrow> u32 \<Rightarrow> u32 \<Rightarrow> u32" where
  "fips_f t x y z =
     (if t < 20 then (x AND y) XOR (NOT x AND z)
      else if t < 40 then x XOR y XOR z
      else if t < 60 then (x AND y) XOR (x AND z) XOR (y AND z)
      else x XOR y XOR z)"

definition fips_K :: "nat \<Rightarrow> u32" where
  "fips_K t = (if t < 20 then 0x5a827999 else if t < 40 then 0x6ed9eba1
     else if t < 60 then 0x8f1bbcdc else 0xca62c1d6)"

fun fips_rounds :: "u8 list \<Rightarrow> nat \<Rightarrow> u32 \<times> u32 \<times> u32 \<times> u32 \<times> u32 \<Rightarrow> u32 \<times> u32 \<times> u32 \<times> u32 \<times> u32" where
  "fips_rounds bs 0 v = v"
| "fips_rounds bs (Suc t) v =
     (let (a, b, c, d, e) = fips_rounds bs t v;
          T = rol a 5 + fips_f t b c d + e + fips_K t + fips_W bs t
      in (T, a, rol b 30, c, d))"

definition fips_block :: "u32 list \<Rightarrow> u8 list \<Rightarrow> u32 list" where
  "fips_block h bs =
     (let (a, b, c, d, e) = fips_rounds bs 80 (h ! 0, h ! 1, h ! 2, h ! 3, h ! 4)
      in [h ! 0 + a, h ! 1 + b, h ! 2 + c, h ! 3 + d, h ! 4 + e])"


section \<open>The rounds against the reference\<close>

text \<open>The names in the call of round \<open>t\<close>: the first call's names turned right \<open>t\<close> times.\<close>

definition reg_at :: "nat \<Rightarrow> nat \<Rightarrow> reg" where
  "reg_at t k = [ra, rb, rc, rd, re] ! ((k + 4 * t) mod 5)"

definition call_of :: "nat \<Rightarrow> sha_st \<Rightarrow> sha_st" where
  "call_of t = (if t < 16 then R0 else if t < 20 then R1 else if t < 40 then R2 else if t < 60 then R3 else R4)
     (reg_at t 0) (reg_at t 1) (reg_at t 2) (reg_at t 3) (reg_at t 4) t"

lemma sha_calls_index: "sha_calls = map call_of [0..<80]"
proof -
  have "[0..<80] = 0 # 1 # [2..<80]" by (simp add: upt_conv_Cons numeral_2_eq_2)
  then show ?thesis by (simp add: sha_calls_def call_of_def reg_at_def)
qed

lemma reg_at_Suc:
  "reg_at (Suc t) 0 = reg_at t 4" "reg_at (Suc t) 1 = reg_at t 0" "reg_at (Suc t) 2 = reg_at t 1"
  "reg_at (Suc t) 3 = reg_at t 2" "reg_at (Suc t) 4 = reg_at t 3"
  unfolding reg_at_def
  by (rule arg_cong [where f = "nth _"], presburger)+

lemma reg_at_distinct: "distinct [reg_at t 0, reg_at t 1, reg_at t 2, reg_at t 3, reg_at t 4]"
proof (induction t)
  case (Suc t)
  then show ?case by (simp add: reg_at_Suc del: One_nat_def) metis
qed (simp add: reg_at_def)

text \<open>The five function values of the macros are those of the standard.\<close>

lemma f_choice: "((w AND (x XOR y)) XOR y :: u32) = (w AND x) XOR (NOT w AND y)"
  by (rule bit_word_eqI) (auto simp: bit_simps)

lemma f_majority: "(((w OR x) AND y) OR (w AND x) :: u32) = (w AND x) XOR (w AND y) XOR (x AND y)"
  by (rule bit_word_eqI) (auto simp: bit_simps)

text \<open>Schedule: after \<open>t\<close> rounds the ring holds the last 16 words of the schedule.\<close>

definition ring_ok :: "u8 list \<Rightarrow> nat \<Rightarrow> u32 list \<Rightarrow> bool" where
  "ring_ok b t l \<longleftrightarrow> length l = 16
     \<and> (\<forall>s<t. t \<le> s + 16 \<longrightarrow> l ! (s mod 16) = fips_W b s)
     \<and> (\<forall>i. t \<le> i \<and> i < 16 \<longrightarrow> l ! i = le_word b i)"

lemma rol_swap: "((rol (le_word b i) 24 AND 0xFF00FF00) OR (rol (le_word b i) 8 AND 0x00FF00FF)) = be_word b i"
proof (rule bit_word_eqI)
  fix n assume n: "n < LENGTH(32)"
  have m: "(0xFF00FF00 :: u32) = push_bit 8 (mask 8) OR push_bit 24 (mask 8)"
    "(0x00FF00FF :: u32) = mask 8 OR push_bit 16 (mask 8)" by (simp_all add: mask_eq_exp_minus_1)
  consider "n < 8" | "8 \<le> n" "n < 16" | "16 \<le> n" "n < 24" | "24 \<le> n" "n < 32" using n by fastforce
  then show "bit ((rol (le_word b i) 24 AND 0xFF00FF00) OR (rol (le_word b i) 8 AND 0x00FF00FF)) n = bit (be_word b i) n"
    unfolding rol_def le_word_def be_word_def m
    by cases (auto simp: bit_and_iff bit_or_iff bit_push_bit_iff bit_drop_bit_eq bit_unsigned_iff bit_mask_iff
        dest: bit_imp_le_length)
qed


lemma mod_16_distinct: "s < t \<Longrightarrow> t < s + 16 \<Longrightarrow> s mod 16 \<noteq> (t mod 16 :: nat)"
  using mod_eq_dvd_iff_nat [of s t 16] dvd_imp_le [of 16 "t - s"] by auto

lemma ring_ok_store:
  assumes "ring_ok b t l" "x = fips_W b t"
  shows "ring_ok b (Suc t) (l[t mod 16 := x])"
proof -
  have len: "length l = 16" using assms(1) by (simp add: ring_ok_def)
  have "l[t mod 16 := x] ! (s mod 16) = fips_W b s" if "s < Suc t" "Suc t \<le> s + 16" for s
  proof (cases "s = t")
    case False
    then have "s mod 16 \<noteq> t mod 16" using mod_16_distinct [of s t] that by simp
    then show ?thesis using assms(1) that False by (simp add: ring_ok_def)
  qed (use len assms(2) in simp)
  moreover have "l[t mod 16 := x] ! i = le_word b i" if "Suc t \<le> i" "i < 16" for i
    using assms(1) that by (simp add: ring_ok_def)
  ultimately show ?thesis using len by (simp add: ring_ok_def)
qed

lemma blk0_ring:
  assumes "ring_ok b t l" "t < 16"
  shows "fst (blk0 t l) = fips_W b t" "ring_ok b (Suc t) (snd (blk0 t l))"
proof -
  have "l ! t = le_word b t" using assms by (simp add: ring_ok_def)
  then have w: "(rol (l ! t) 24 AND 0xFF00FF00) OR (rol (l ! t) 8 AND 0x00FF00FF) = fips_W b t"
    using assms(2) by (simp only: rol_swap fips_W.simps [of b t] if_True)
  show "fst (blk0 t l) = fips_W b t" unfolding blk0_def Let_def fst_conv by (rule w)
  show "ring_ok b (Suc t) (snd (blk0 t l))"
    unfolding blk0_def Let_def snd_conv using ring_ok_store [OF assms(1) w] assms(2) by simp
qed

lemma mod_16_back:
  assumes "16 \<le> t" "k \<le> 16"
  shows "(t + k) mod 16 = (t - (16 - k)) mod (16 :: nat)"
proof -
  have "t + k = (t - (16 - k)) + 16" using assms by simp
  then show ?thesis by (simp only: mod_add_self2)
qed

lemma ring_back:
  assumes "ring_ok b t l" "16 \<le> t"
  shows "l ! ((t + 13) mod 16) = fips_W b (t - 3)" "l ! ((t + 8) mod 16) = fips_W b (t - 8)"
    "l ! ((t + 2) mod 16) = fips_W b (t - 14)" "l ! (t mod 16) = fips_W b (t - 16)"
proof -
  have *: "l ! ((t - k) mod 16) = fips_W b (t - k)" if "0 < k" "k \<le> 16" for k
    using assms that by (simp add: ring_ok_def)
  have "(t + 13) mod 16 = (t - 3) mod 16" by (subst mod_16_back [OF assms(2)]) simp_all
  then show "l ! ((t + 13) mod 16) = fips_W b (t - 3)" using * [of 3] by simp
  have "(t + 8) mod 16 = (t - 8) mod 16" by (subst mod_16_back [OF assms(2)]) simp_all
  then show "l ! ((t + 8) mod 16) = fips_W b (t - 8)" using * [of 8] by simp
  have "(t + 2) mod 16 = (t - 14) mod 16" by (subst mod_16_back [OF assms(2)]) simp_all
  then show "l ! ((t + 2) mod 16) = fips_W b (t - 14)" using * [of 14] by simp
  have "t mod 16 = (t - 16) mod 16" by (rule le_mod_geq [OF assms(2)])
  then show "l ! (t mod 16) = fips_W b (t - 16)" using * [of 16] by simp
qed

lemma blk_ring:
  assumes "ring_ok b t l" "16 \<le> t"
  shows "fst (blk t l) = fips_W b t" "ring_ok b (Suc t) (snd (blk t l))"
proof -
  have w: "rol (l ! ((t + 13) mod 16) XOR l ! ((t + 8) mod 16) XOR l ! ((t + 2) mod 16) XOR l ! (t mod 16)) 1
      = fips_W b t"
    using assms(2) by (simp only: ring_back [OF assms] fips_W.simps [of b t] not_less [symmetric] if_False)
  show "fst (blk t l) = fips_W b t" unfolding blk_def Let_def fst_conv by (rule w)
  show "ring_ok b (Suc t) (snd (blk t l))"
    unfolding blk_def Let_def snd_conv by (rule ring_ok_store [OF assms(1) w])
qed

text \<open>A round, with the working variables seen through the names of its call.\<close>

definition regs_at :: "nat \<Rightarrow> (reg \<Rightarrow> u32) \<Rightarrow> u32 \<times> u32 \<times> u32 \<times> u32 \<times> u32" where
  "regs_at t r = (r (reg_at t 0), r (reg_at t 1), r (reg_at t 2), r (reg_at t 3), r (reg_at t 4))"

lemma round_upd_view:
  assumes "regs_at t r = (a, b, c, d, e)"
  shows "regs_at (Suc t) (fst (round_upd (reg_at t 0) (reg_at t 1) (reg_at t 4) f w k r))
      = (e + (f + fst w + k + rol a 5), a, rol b 30, c, d)"
    "snd (round_upd (reg_at t 0) (reg_at t 1) (reg_at t 4) f w k r) = snd w"
  using assms reg_at_distinct [of t]
  by (auto simp: regs_at_def round_upd_def Let_def reg_at_Suc simp del: One_nat_def)

lemma call_of_view:
  assumes v: "regs_at t r = (a, b, c, d, e)" and ring: "ring_ok bs t l"
  shows "regs_at (Suc t) (fst (call_of t (r, l)))
      = (rol a 5 + fips_f t b c d + e + fips_K t + fips_W bs t, a, rol b 30, c, d)"
    "ring_ok bs (Suc t) (snd (call_of t (r, l)))"
proof -
  have rs: "r (reg_at t 1) = b" "r (reg_at t 2) = c" "r (reg_at t 3) = d" using v by (simp_all add: regs_at_def)
  define w where "w = (if t < 16 then blk0 t l else blk t l)"
  have w: "fst w = fips_W bs t" "ring_ok bs (Suc t) (snd w)"
    using blk0_ring [OF ring] blk_ring [OF ring] by (simp_all add: w_def)
  have call: "call_of t (r, l) = round_upd (reg_at t 0) (reg_at t 1) (reg_at t 4) (fips_f t b c d) w (fips_K t) r"
    by (auto simp: call_of_def R0_def R1_def R2_def R3_def R4_def rs fips_f_def fips_K_def w_def
        f_choice f_majority simp del: One_nat_def)
  show "regs_at (Suc t) (fst (call_of t (r, l)))
      = (rol a 5 + fips_f t b c d + e + fips_K t + fips_W bs t, a, rol b 30, c, d)"
    unfolding call round_upd_view(1) [OF v] w(1) by (simp add: ac_simps)
  show "ring_ok bs (Suc t) (snd (call_of t (r, l)))"
    unfolding call round_upd_view(2) [OF v] by (rule w(2))
qed

lemma calls_view:
  assumes "ring_ok bs 0 l" "regs_at 0 r = v"
  shows "regs_at t (fst (fold (\<lambda>f. f) (map call_of [0..<t]) (r, l))) = fips_rounds bs t v
    \<and> ring_ok bs t (snd (fold (\<lambda>f. f) (map call_of [0..<t]) (r, l)))"
proof (induction t)
  case (Suc t)
  obtain r' l' where rl: "fold (\<lambda>f. f) (map call_of [0..<t]) (r, l) = (r', l')" by fastforce
  obtain a b c d e where v: "fips_rounds bs t v = (a, b, c, d, e)" by (metis prod_cases5)
  have "regs_at t r' = (a, b, c, d, e)" "ring_ok bs t l'" using Suc rl v by simp_all
  from call_of_view [OF this] show ?case by (simp add: rl v)
qed (use assms in simp)

lemma SHA1Transform_fips:
  assumes "off + 64 \<le> length data"
  shows "SHA1Transform st data off = Inr (fips_block st (take 64 (drop off data)))"
proof -
  let ?b = "take 64 (drop off data)"
  define r where "r = (\<lambda>x. case x of ra \<Rightarrow> st ! 0 | rb \<Rightarrow> st ! 1 | rc \<Rightarrow> st ! 2 | rd \<Rightarrow> st ! 3 | re \<Rightarrow> st ! 4)"
  have ring: "ring_ok ?b 0 (map (le_word ?b) [0..<16])" by (simp add: ring_ok_def)
  define r' where "r' = fst (fold (\<lambda>f. f) sha_calls (r, map (le_word ?b) [0..<16]))"
  have "regs_at 80 r' = fips_rounds ?b 80 (regs_at 0 r)"
    using calls_view [OF ring refl, of 80 r] unfolding r'_def sha_calls_index by blast
  moreover have "regs_at 80 r' = (r' ra, r' rb, r' rc, r' rd, r' re)"
    "regs_at 0 r = (st ! 0, st ! 1, st ! 2, st ! 3, st ! 4)"
    by (simp_all add: regs_at_def reg_at_def r_def)
  ultimately have "fips_block st ?b = [st ! 0 + r' ra, st ! 1 + r' rb, st ! 2 + r' rc, st ! 3 + r' rd, st ! 4 + r' re]"
    unfolding fips_block_def by (metis (mono_tags, lifting) case_prod_conv)
  moreover have m: "mem_slice data off 64 = Inr ?b" using assms by (simp add: mem_slice_def)
  ultimately show ?thesis
    unfolding SHA1Transform_def m bindE_simps Let_def r_def [symmetric] r'_def [symmetric] by simp
qed


section \<open>Streaming against the reference\<close>

text \<open>The whole blocks of a message, folded into the state; what is left over.\<close>

function fips_blocks :: "u32 list \<Rightarrow> u8 list \<Rightarrow> u32 list" where
  "fips_blocks h m = (if 64 \<le> length m then fips_blocks (fips_block h (take 64 m)) (drop 64 m) else h)"
  by pat_completeness auto
termination by (relation "measure (length \<circ> snd)") auto

declare fips_blocks.simps [simp del]

definition rest :: "u8 list \<Rightarrow> u8 list" where
  "rest m = drop (64 * (length m div 64)) m"

lemma length_rest: "length (rest m) = length m mod 64"
  by (simp add: rest_def minus_mult_div_eq_mod)

lemma fips_blocks_short: "length m < 64 \<Longrightarrow> fips_blocks h m = h"
  by (simp add: fips_blocks.simps)

lemma fips_blocks_append:
  "length xs = 64 * k \<Longrightarrow> fips_blocks h (xs @ ys) = fips_blocks (fips_blocks h xs) ys"
proof (induction k arbitrary: h xs)
  case (Suc k)
  have "length (drop 64 xs) = 64 * k" "64 \<le> length xs" using Suc.prems by simp_all
  then show ?case using Suc.IH [of "drop 64 xs" "fips_block h (take 64 xs)"]
    by (simp add: fips_blocks.simps [of h "xs @ ys"] fips_blocks.simps [of h xs])
qed (simp add: fips_blocks_short)

lemma split_rest:
  obtains xs where "m = xs @ rest m" "length xs = 64 * (length m div 64)"
  by (rule that [of "take (64 * (length m div 64)) m"]) (simp_all add: rest_def)

lemma fips_blocks_rest: "fips_blocks h (m @ a) = fips_blocks (fips_blocks h m) (rest m @ a)"
proof -
  obtain xs where xs: "m = xs @ rest m" "length xs = 64 * (length m div 64)" by (rule split_rest)
  have "fips_blocks h m = fips_blocks (fips_blocks h xs) (rest m)"
    using fips_blocks_append [OF xs(2), of h "rest m"] xs(1) by simp
  then have "fips_blocks h m = fips_blocks h xs"
    by (simp add: fips_blocks_short length_rest)
  then show ?thesis
    using fips_blocks_append [OF xs(2), of h "rest m @ a"] xs(1) by (metis append.assoc)
qed

lemma rest_append: "rest (m @ a) = rest (rest m @ a)"
proof -
  obtain xs where xs: "m = xs @ rest m" "length xs = 64 * (length m div 64)" by (rule split_rest)
  have "rest (xs @ ys) = rest ys" for ys
    using xs(2) by (simp add: rest_def div_mult_self1 distrib_left)
  then show ?thesis using xs(1) by (metis append.assoc)
qed

lemma rest_short: "length m < 64 \<Longrightarrow> rest m = m"
  by (simp add: rest_def)

lemma length_fips_block [simp]: "length (fips_block h b) = 5"
  by (simp add: fips_block_def split: prod.split)

text \<open>The block loop on a length that does not wrap.\<close>

lemma sha_blocks_fips:
  "unat i \<le> length data \<Longrightarrow> unat len = length data \<Longrightarrow> unat len + 63 < 2 ^ 32 \<Longrightarrow>
   length data - unat i < 64 * n \<Longrightarrow>
   \<exists>i'. sha_blocks n st data len i = Inr (i', fips_blocks st (drop (unat i) data))
     \<and> unat i' \<le> length data \<and> drop (unat i') data = rest (drop (unat i) data)"
proof (induction n arbitrary: st i)
  case (Suc n)
  have i63: "unat (i + 63) = unat i + 63"
    using Suc.prems unat_add_no_wrap [of i 63] by simp
  show ?case
  proof (cases "i + 63 < len")
    case True
    then have le: "unat i + 64 \<le> length data" using i63 Suc.prems(2) by (simp add: word_less_nat_alt)
    have i64: "unat (i + 64) = unat i + 64"
      using Suc.prems le unat_add_no_wrap [of i 64] by simp
    let ?b = "take 64 (drop (unat i) data)"
    have "\<exists>i'. sha_blocks n (fips_block st ?b) data len (i + 64)
        = Inr (i', fips_blocks (fips_block st ?b) (drop (unat (i + 64)) data))
      \<and> unat i' \<le> length data \<and> drop (unat i') data = rest (drop (unat (i + 64)) data)"
      by (rule Suc.IH) (use Suc.prems i64 le in auto)
    moreover have "fips_blocks st (drop (unat i) data) = fips_blocks (fips_block st ?b) (drop (unat i + 64) data)"
      using le by (subst fips_blocks.simps) (auto simp: add.commute)
    moreover have "rest (drop (unat i) data) = rest (drop (unat i + 64) data)"
    proof -
      have "drop (unat i) data = ?b @ drop (unat i + 64) data"
        by (metis add.commute append_take_drop_id drop_drop)
      moreover have "rest ?b = []" using le by (simp add: rest_def)
      ultimately show ?thesis by (metis rest_append append_Nil)
    qed
    ultimately show ?thesis
      using True le by (auto simp: SHA1Transform_fips i64)
  next
    case False
    then have "length data - unat i < 64" using i63 Suc.prems(2) by (simp add: word_less_nat_alt)
    then show ?thesis
      using False Suc.prems(1) by (intro exI [of _ i]) (simp add: fips_blocks_short rest_short)
  qed
qed simp

text \<open>The bit count is kept in two words.\<close>

lemma count_carry:
  fixes c0 c1 len :: u32
  assumes "unat c1 * 2 ^ 32 + unat c0 + 8 * unat len < 2 ^ 64"
  defines "s \<equiv> c0 + push_bit 3 len"
  shows "unat ((if s < c0 then c1 + 1 else c1) + drop_bit 29 len) * 2 ^ 32 + unat s
    = unat c1 * 2 ^ 32 + unat c0 + 8 * unat len"
proof -
  define h lo where "h = unat len div 2 ^ 29" and "lo = unat len mod 2 ^ 29"
  have len: "unat len = h * 2 ^ 29 + lo" "lo < 2 ^ 29" by (simp_all add: h_def lo_def)
  have h: "unat (drop_bit 29 len) = h" by (simp add: h_def drop_bit_eq_div unat_div)
  have "unat (push_bit 3 len) = 8 * unat len mod 2 ^ 32"
    by (simp add: push_bit_eq_mult unat_word_ariths mult.commute)
  also have "\<dots> = 8 * lo" using len by (simp add: add_mult_distrib2)
  finally have p: "unat (push_bit 3 len) = 8 * lo" .
  have s: "unat s = (unat c0 + 8 * lo) mod 2 ^ 32" by (simp add: s_def unat_word_ariths p)
  have c0: "unat c0 < 2 ^ 32" using unat_less_exp [of c0] by simp
  show ?thesis
  proof (cases "unat c0 + 8 * lo < 2 ^ 32")
    case True
    then have us: "unat s = unat c0 + 8 * lo" using s by simp
    then have "\<not> s < c0" by (simp add: word_less_nat_alt)
    moreover have "unat (c1 + drop_bit 29 len) = unat c1 + h"
      using assms(1) len h by (subst unat_add_no_wrap) simp_all
    ultimately show ?thesis using us len by simp
  next
    case False
    have "(unat c0 + 8 * lo) mod 2 ^ 32 = unat c0 + 8 * lo - 2 ^ 32"
      using False len(2) c0 by (subst le_mod_geq) (simp_all add: mod_less)
    then have us: "unat s + 2 ^ 32 = unat c0 + 8 * lo" using s False by simp
    then have "s < c0" using len by (simp add: word_less_nat_alt)
    moreover have c1: "unat (c1 + 1) = unat c1 + 1"
      using assms(1) len False by (subst unat_add_no_wrap) simp_all
    moreover have "unat (c1 + 1 + drop_bit 29 len) = unat c1 + 1 + h"
      using assms(1) len h False c1 by (subst unat_add_no_wrap) simp_all
    ultimately show ?thesis using us len by simp
  qed
qed


definition sha_H0 :: "u32 list" where
  "sha_H0 = [0x67452301, 0xEFCDAB89, 0x98BADCFE, 0x10325476, 0xC3D2E1F0]"

text \<open>The context represents the bytes taken so far.\<close>

definition sha_rep :: "SHA1_CTX \<Rightarrow> u8 list \<Rightarrow> bool" where
  "sha_rep c m \<longleftrightarrow> length (buffer c) = 64 \<and> state c = fips_blocks sha_H0 m
     \<and> take (length m mod 64) (buffer c) = rest m
     \<and> unat (count1 c) * 2 ^ 32 + unat (count0 c) = 8 * length m"

definition sha_upd :: "SHA1_CTX \<Rightarrow> u8 list \<Rightarrow> fault + SHA1_CTX" where
  "sha_upd c a = SHA1Update c a (of_nat (length a))"

lemma buffer_index:
  assumes "unat (c1 :: u32) * 2 ^ 32 + unat (c0 :: u32) = 8 * n"
  shows "unat (drop_bit 3 c0 AND 63) = n mod 64"
proof -
  have "drop_bit 3 c0 AND 63 = take_bit 6 (drop_bit 3 c0)"
    by (simp add: take_bit_eq_mask mask_eq_exp_minus_1)
  then have "unat (drop_bit 3 c0 AND 63) = unat c0 div 8 mod 64"
    by (simp add: take_bit_eq_mod drop_bit_eq_div unat_div unat_mod)
  also have "\<dots> = n mod 64"
  proof -
    have "8 * n = unat c0 + (unat c1 * 2 ^ 23) * 64 * 8" using assms by simp
    then have "n = unat c0 div 8 + (unat c1 * 2 ^ 23) * 64"
      by (metis div_mult_self1 nonzero_mult_div_cancel_left zero_neq_numeral add.commute)
    then show ?thesis by (metis mod_mult_self1)
  qed
  finally show ?thesis .
qed

lemma store_prefix:
  assumes "k + length d \<le> length b"
  shows "\<exists>b'. mem_store b k d = Inr b' \<and> length b' = length b \<and> take (k + length d) b' = take k b @ d"
  using assms by (auto simp: mem_store_def)

text \<open>The two branches of SHA1Update, for a piece whose length does not wrap.\<close>

lemma block_fuel_enough: "n < 2 ^ 32 - 63 \<Longrightarrow> n - k < 64 * block_fuel"
  by (simp add: block_fuel_def)

lemma upd_blocks:
  assumes len: "length (buffer c) = 64" and r: "unat j = length t" "take (length t) (buffer c) = t"
    and t: "length t < 64" "64 \<le> length t + length a" and n: "unat n = length a" "length a < 2 ^ 32 - 63"
  shows "\<exists>b i. bindE (mem_slice a 0 (unat (64 - j))) (\<lambda>d.
      bindE (mem_store (buffer c) (unat j) d) (\<lambda>b.
      bindE (SHA1Transform (state c) b 0) (\<lambda>st.
      bindE (sha_blocks block_fuel st a n (64 - j)) (\<lambda>(i, st).
      Inr (c\<lparr>state := st, buffer := b\<rparr>, 0 :: u32, i)))))
    = Inr (c\<lparr>state := fips_blocks (state c) (t @ a), buffer := b\<rparr>, 0, i)
    \<and> length b = 64 \<and> unat i \<le> length a \<and> drop (unat i) a = rest (t @ a)"
proof -
  let ?k = "64 - length t"
  have "j \<le> 64" using r(1) t(1) by (simp add: word_le_nat_alt)
  then have k: "unat (64 - j) = ?k" using r(1) by (simp add: unat_sub)
  have le: "?k \<le> length a" using t(2) by linarith
  have d: "mem_slice a 0 ?k = Inr (take ?k a)" using t by (simp add: mem_slice_def)
  obtain b where b: "mem_store (buffer c) (length t) (take ?k a) = Inr b" "length b = 64"
      "take 64 b = t @ take ?k a"
    using store_prefix [of "length t" "take ?k a" "buffer c"] len r(2) t by auto
  then have "b = t @ take ?k a" by simp
  then have tr: "SHA1Transform (state c) b 0 = Inr (fips_block (state c) (t @ take ?k a))"
    using SHA1Transform_fips [of 0 b "state c"] b(2,3) by simp
  obtain i where i: "sha_blocks block_fuel (fips_block (state c) (t @ take ?k a)) a n (64 - j)
        = Inr (i, fips_blocks (fips_block (state c) (t @ take ?k a)) (drop ?k a))"
      "unat i \<le> length a" "drop (unat i) a = rest (drop ?k a)"
    using sha_blocks_fips [of "64 - j" a n block_fuel "fips_block (state c) (t @ take ?k a)"] k n t
      block_fuel_enough [of "length a" ?k] le by auto
  have ta: "t @ a = (t @ take ?k a) @ drop ?k a" "length (t @ take ?k a) = 64" using t by simp_all
  have "fips_blocks (state c) (t @ a) = fips_blocks (fips_block (state c) (t @ take ?k a)) (drop ?k a)"
    using ta t by (subst fips_blocks.simps) simp
  moreover have "rest (t @ a) = rest (drop ?k a)"
    using ta rest_append [of "t @ take ?k a" "drop ?k a"] by (simp add: rest_def)
  ultimately show ?thesis
    using k d b(1,2) tr i r(1) by (intro exI [of _ b] exI [of _ i]) simp
qed


text \<open>The bytes that are left go to the buffer.\<close>

lemma sha_upd_tail:
  assumes n: "unat n = length a" and cnt: "unat (count1 c1) * 2 ^ 32 + unat (count0 c1) = 8 * length (m @ a)"
    and h: "unat i \<le> length a" "length b = 64" "take (unat p) b @ drop (unat i) a = rest (m @ a)" "unat p \<le> 64"
      "state c2 = fips_blocks sha_H0 (m @ a)" "count0 c2 = count0 c1" "count1 c2 = count1 c1"
  shows "\<exists>c'. bindE (mem_slice a (unat i) (unat (n - i))) (\<lambda>d.
         bindE (mem_store b (unat p) d) (\<lambda>b. Inr (c2\<lparr>buffer := b\<rparr>))) = Inr c' \<and> sha_rep c' (m @ a)"
proof -
  have ni: "unat (n - i) = length a - unat i"
    using h(1) n by (subst unat_sub) (simp_all add: word_le_nat_alt)
  have len: "unat p + length (drop (unat i) a) = length (m @ a) mod 64"
    using arg_cong [OF h(3), of length] h(2,4) by (simp add: length_rest)
  then obtain b' where b': "mem_store b (unat p) (drop (unat i) a) = Inr b'" "length b' = 64"
      "take (length (m @ a) mod 64) b' = rest (m @ a)"
    using store_prefix [of "unat p" "drop (unat i) a" b] h(2,3) by auto
  then show ?thesis
    using ni h cnt by (intro exI [of _ "c2\<lparr>buffer := b'\<rparr>"]) (simp add: mem_slice_def sha_rep_def)
qed

lemma sha_upd_rep:
  assumes rep: "sha_rep c m" and total: "8 * (length m + length a) < 2 ^ 64" and piece: "length a < 2 ^ 32 - 63"
  shows "\<exists>c'. sha_upd c a = Inr c' \<and> sha_rep c' (m @ a)"
proof -
  define n :: u32 where "n = of_nat (length a)"
  have n: "unat n = length a" using piece by (simp add: n_def unat_of_nat take_bit_nat_eq_self)
  define j where "j = drop_bit 3 (count0 c) AND 63"
  let ?t = "rest m" and ?s = "count0 c + push_bit 3 n"
  have j: "unat j = length ?t" using buffer_index [of "count1 c" "count0 c" "length m"] rep
    by (simp add: j_def sha_rep_def length_rest)
  have t: "length ?t < 64" "take (length ?t) (buffer c) = ?t" "length (buffer c) = 64"
    using rep by (simp_all add: sha_rep_def length_rest)
  define k where "k = (if ?s < count0 c then count1 c + 1 else count1 c) + drop_bit 29 n"
  define c1 where "c1 = c\<lparr>count0 := ?s, count1 := k\<rparr>"
  have c1: "buffer c1 = buffer c" "state c1 = state c" by (simp_all add: c1_def)
  have cnt: "unat (count1 c1) * 2 ^ 32 + unat (count0 c1) = 8 * length (m @ a)"
    using count_carry [of "count1 c" "count0 c" n] rep total n by (simp add: c1_def k_def sha_rep_def)
  have upd: "SHA1Update c a n = bindE
      (if j + n > 63
       then bindE (mem_slice a 0 (unat (64 - j))) (\<lambda>d.
            bindE (mem_store (buffer c1) (unat j) d) (\<lambda>b.
            bindE (SHA1Transform (state c1) b 0) (\<lambda>st.
            bindE (sha_blocks block_fuel st a n (64 - j)) (\<lambda>(i, st).
            Inr (c1\<lparr>state := st, buffer := b\<rparr>, 0, i)))))
       else Inr (c1, j, 0))
      (\<lambda>(c, j, i). bindE (mem_slice a (unat i) (unat (n - i))) (\<lambda>d.
         bindE (mem_store (buffer c) (unat j) d) (\<lambda>b. Inr (c\<lparr>buffer := b\<rparr>))))"
    unfolding SHA1Update_def Let_def j_def c1_def k_def by simp
  have jn: "unat (j + n) = length ?t + length a"
    using j n t(1) piece by (subst unat_add_no_wrap) simp_all
  have st: "fips_blocks sha_H0 (m @ a) = fips_blocks (state c) (?t @ a)"
    using rep fips_blocks_rest by (simp add: sha_rep_def)
  note fin = sha_upd_tail [OF n cnt]
  show ?thesis
  proof (cases "j + n > 63")
    case True
    then have "64 \<le> length ?t + length a" using jn by (simp add: word_less_nat_alt)
    from upd_blocks [of c1, unfolded c1(1), OF t(3) j t(2,1) this n piece]
    obtain b i where bi: "bindE (mem_slice a 0 (unat (64 - j))) (\<lambda>d.
            bindE (mem_store (buffer c) (unat j) d) (\<lambda>b.
            bindE (SHA1Transform (state c1) b 0) (\<lambda>st.
            bindE (sha_blocks block_fuel st a n (64 - j)) (\<lambda>(i, st).
            Inr (c1\<lparr>state := st, buffer := b\<rparr>, 0 :: u32, i)))))
          = Inr (c1\<lparr>state := fips_blocks (state c1) (?t @ a), buffer := b\<rparr>, 0, i)"
        "length b = 64" "unat i \<le> length a" "drop (unat i) a = rest (?t @ a)"
      by blast
    show ?thesis
      using fin [of i b 0 "c1\<lparr>state := fips_blocks (state c1) (?t @ a), buffer := b\<rparr>"] True bi st c1
      unfolding sha_upd_def n_def [symmetric] upd by (simp add: rest_append [of m a])
  next
    case False
    then have le: "length (?t @ a) < 64" using jn by (simp add: word_less_nat_alt)
    then have "rest (m @ a) = ?t @ a" "fips_blocks (state c) (?t @ a) = state c"
      using rest_append [of m a] by (simp_all add: rest_short fips_blocks_short)
    then show ?thesis
      using fin [of 0 "buffer c" j c1] False c1 st t j
      unfolding sha_upd_def n_def [symmetric] upd by simp
  qed
qed


section \<open>Padding\<close>

definition be_bytes :: "u32 \<Rightarrow> u8 list" where
  "be_bytes w = map (\<lambda>i. ucast (drop_bit (8 * (3 - i)) w)) [0..<4]"

definition be_bytes64 :: "u64 \<Rightarrow> u8 list" where
  "be_bytes64 w = map (\<lambda>i. ucast (drop_bit (8 * (7 - i)) w)) [0..<8]"

text \<open>A one bit, zeros up to 56 modulo 64 bytes, the bit length in 64 bits.\<close>

definition fips_pad :: "u8 list \<Rightarrow> u8 list" where
  "fips_pad m = m @ [0x80] @ replicate ((119 - length m mod 64) mod 64) 0 @ be_bytes64 (of_nat (8 * length m))"

definition fips_sha1 :: "u8 list \<Rightarrow> u8 list" where
  "fips_sha1 m = concat (map be_bytes (fips_blocks sha_H0 (fips_pad m)))"

lemma pad_test:
  assumes "sha_rep c m"
  shows "count0 c AND 504 = 448 \<longleftrightarrow> length m mod 64 = 56"
proof -
  have "count0 c AND 504 = push_bit 3 (drop_bit 3 (count0 c) AND 63)"
  proof -
    have m: "(504 :: u32) = push_bit 3 (mask 6)" "(63 :: u32) = mask 6" by (simp_all add: mask_eq_exp_minus_1)
    show ?thesis unfolding m by (rule bit_word_eqI) (auto simp: bit_simps)
  qed
  moreover have idx: "unat (drop_bit 3 (count0 c) AND 63) = length m mod 64"
    using buffer_index [of "count1 c" "count0 c" "length m"] assms by (simp add: sha_rep_def)
  ultimately have "unat (count0 c AND 504) = 8 * (length m mod 64)"
    using idx by (simp add: push_bit_eq_mult unat_mult_no_wrap)
  then show ?thesis by (auto simp: word_unat_eq_iff)
qed

lemma sha_upd_one: "SHA1Update c [b] 1 = sha_upd c [b]"
  by (simp add: sha_upd_def)

definition zeros :: "nat \<Rightarrow> nat" where
  "zeros n = (120 - n mod 64) mod 64"

lemma zeros_step: "zeros n = (if n mod 64 = 56 then 0 else Suc (zeros (Suc n)))"
proof -
  define r where "r = n mod 64"
  have r: "r < 64" "Suc n mod 64 = (if r = 63 then 0 else Suc r)"
    by (simp_all add: r_def mod_Suc)
  consider "r < 56" | "r = 56" | "56 < r" by linarith
  then show ?thesis
  proof cases
    case 1
    have "(120 - r) mod 64 = 56 - r" "(119 - r) mod 64 = 55 - r"
      using 1 le_mod_geq [of 64 "120 - r"] le_mod_geq [of 64 "119 - r"] by simp_all
    then show ?thesis using 1 r by (simp add: zeros_def r_def [symmetric])
  qed (use r in \<open>auto simp: zeros_def r_def [symmetric]\<close>)
qed

lemma zeros_less: "zeros n < 64"
  by (simp add: zeros_def)

lemma sha_pad_rep:
  "sha_rep c m \<Longrightarrow> 8 * (length m + n) < 2 ^ 64 \<Longrightarrow> zeros (length m) < n \<Longrightarrow>
    \<exists>c'. sha_pad n c = Inr c' \<and> sha_rep c' (m @ replicate (zeros (length m)) 0)"
proof (induction n arbitrary: c m)
  case (Suc n)
  note pt = pad_test [OF Suc.prems(1)]
  show ?case
  proof (cases "length m mod 64 = 56")
    case True
    then show ?thesis using Suc.prems(1) pt zeros_step [of "length m"] by simp
  next
    case False
    obtain c1 where c1: "sha_upd c [0] = Inr c1" "sha_rep c1 (m @ [0])"
      using sha_upd_rep [OF Suc.prems(1), of "[0]"] Suc.prems(2) by auto
    have z: "zeros (length m) = Suc (zeros (length (m @ [0])))"
      using False zeros_step [of "length m"] by simp
    obtain c' where "sha_pad n c1 = Inr c'" "sha_rep c' ((m @ [0]) @ replicate (zeros (length (m @ [0]))) 0)"
      using Suc.IH [OF c1(2)] Suc.prems(2,3) z by auto
    then show ?thesis using False pt c1(1) z by (simp add: sha_upd_one)
  qed
qed simp

lemma zeros_pad: "zeros (length m + 1) = (119 - length m mod 64) mod 64"
proof -
  have r: "length m mod 64 < 64" by simp
  have "Suc (length m) mod 64 = (if length m mod 64 = 63 then 0 else Suc (length m mod 64))"
    by (simp add: mod_Suc)
  then show ?thesis by (auto simp: zeros_def)
qed

lemma bit_beyond: "32 \<le> n \<Longrightarrow> \<not> bit (w :: u32) n"
  using bit_imp_le_length [of w n] by auto

lemma final_count:
  assumes "sha_rep c m"
  shows "map (\<lambda>i. ucast (drop_bit ((3 - i mod 4) * 8) (if i \<ge> 4 then count0 c else count1 c) AND 255)) [0..<8]
    = be_bytes64 (of_nat (8 * length m))"
proof -
  have "(of_nat (8 * length m) :: u64) = of_nat (unat (count1 c) * 2 ^ 32 + unat (count0 c))"
    using assms by (simp add: sha_rep_def)
  also have "\<dots> = ucast (count1 c) * 2 ^ 32 + ucast (count0 c)" by (simp add: unsigned_of_nat)
  also have "\<dots> = push_bit 32 (ucast (count1 c)) + ucast (count0 c)" by (simp only: push_bit_eq_mult)
  also have "\<dots> = push_bit 32 (ucast (count1 c)) OR ucast (count0 c)"
    by (rule disjunctive_add) (auto simp: bit_push_bit_iff bit_unsigned_iff dest: bit_imp_le_length)
  finally have w: "(of_nat (8 * length m) :: u64) = push_bit 32 (ucast (count1 c)) OR ucast (count0 c)" .
  have ff: "(255 :: u32) = mask 8" by (simp add: mask_eq_exp_minus_1)
  show ?thesis
    unfolding be_bytes64_def w ff
  proof (rule map_cong [OF refl])
    fix i assume "i \<in> set [0..<8]"
    then consider "i = 0" | "i = 1" | "i = 2" | "i = 3" | "i = 4" | "i = 5" | "i = 6" | "i = 7" by fastforce
    then show "ucast (drop_bit ((3 - i mod 4) * 8) (if i \<ge> 4 then count0 c else count1 c) AND mask 8)
        = (ucast (drop_bit (8 * (7 - i)) (push_bit 32 (ucast (count1 c)) OR (ucast (count0 c) :: u64))) :: u8)"
      by cases (auto intro!: bit_word_eqI simp: bit_simps bit_beyond)
  qed
qed

lemma digest_bytes:
  assumes "length h = 5"
  shows "map (\<lambda>i. ucast (drop_bit ((3 - i mod 4) * 8) (h ! (i div 4)) AND 255)) [0..<20] = concat (map be_bytes h)"
proof -
  have ff: "(255 :: u32) = mask 8" by (simp add: mask_eq_exp_minus_1)
  have by_mask: "(ucast (w AND mask 8 :: u32) :: u8) = ucast w" for w
    by (rule bit_word_eqI) (auto simp: bit_simps)
  have u: "[0..<20] = [0, 1, 2, 3, 4, 5, 6, 7, 8, 9, 10, 11, 12, 13, 14, 15, 16, 17, 18, 19]"
    "[0..<5] = [0, 1, 2, 3, 4]" "[0..<4] = [0, 1, 2, 3]"
    by (simp_all add: upt_rec)
  have "map (\<lambda>i. (ucast (drop_bit ((3 - i mod 4) * 8) (h ! (i div 4)) AND 255) :: u8)) [0..<20]
      = concat (map (\<lambda>k. be_bytes (h ! k)) [0..<5])"
    unfolding ff by_mask be_bytes_def u by simp
  also have "map (\<lambda>k. be_bytes (h ! k)) [0..<5] = map be_bytes h"
    by (rule nth_equalityI) (use assms in simp_all)
  finally show ?thesis .
qed

lemma length_fips_blocks: "length h = 5 \<Longrightarrow> length (fips_blocks h m) = 5"
  by (induction h m rule: fips_blocks.induct) (simp add: fips_blocks.simps)


lemma SHA1Final_rep:
  assumes rep: "sha_rep c m" and total: "8 * (length m + 200) < 2 ^ 64"
  shows "SHA1Final c = Inr (fips_sha1 m, \<lparr>state = replicate 5 0, count0 = 0, count1 = 0, buffer = replicate 64 0\<rparr>)"
proof -
  obtain c1 where c1: "sha_upd c [0x80] = Inr c1" "sha_rep c1 (m @ [0x80])"
    using sha_upd_rep [OF rep, of "[0x80]"] total by auto
  define k where "k = (119 - length m mod 64) mod 64"
  have k: "k < 64" by (simp add: k_def)
  let ?z = "replicate k (0 :: u8)"
  obtain c2 where c2: "sha_pad 65 c1 = Inr c2" "sha_rep c2 (m @ [0x80] @ ?z)"
    using sha_pad_rep [OF c1(2), of 65] total zeros_less [of "length m + 1"] zeros_pad [of m]
    by (auto simp: k_def)
  let ?n = "be_bytes64 (of_nat (8 * length m))"
  have n: "length ?n = 8" by (simp add: be_bytes64_def)
  obtain c3 where c3: "sha_upd c2 ?n = Inr c3" "sha_rep c3 ((m @ [0x80] @ ?z) @ ?n)"
    using sha_upd_rep [OF c2(2), of ?n] total n k by auto
  have st: "state c3 = fips_blocks sha_H0 (fips_pad m)"
    using c3(2) by (simp add: sha_rep_def fips_pad_def k_def)
  have "length (state c3) = 5" unfolding st by (simp add: length_fips_blocks sha_H0_def)
  note d = digest_bytes [OF this]
  have u3: "SHA1Update c2 ?n 8 = Inr c3" using c3(1) n by (simp add: sha_upd_def)
  show ?thesis
    unfolding SHA1Final_def Let_def final_count [OF rep] sha_upd_one c1(1) c2(1) u3 bindE_simps d
    by (simp add: st fips_sha1_def)
qed

lemma SHA1Init_rep: "length (buffer c) = 64 \<Longrightarrow> sha_rep (SHA1Init c) []"
  by (simp add: sha_rep_def SHA1Init_def fips_blocks_short sha_H0_def rest_def)

text \<open>What SHA1Final makes of a context.\<close>

definition digest_of :: "SHA1_CTX \<Rightarrow> fault + u8 list" where
  "digest_of c = bindE (SHA1Final c) (\<lambda>(d, c). Inr d)"

interpretation sha_stream: digest sha_upd sha_rep "2 ^ 61 - 200" "2 ^ 32 - 63" digest_of "\<lambda>m. Inr (fips_sha1 m)"
proof unfold_locales
  fix s and m a :: "u8 list"
  assume "sha_rep s m" "length m + length a < 2 ^ 61 - 200" "length a < 2 ^ 32 - 63"
  then show "\<exists>s'. sha_upd s a = Inr s' \<and> sha_rep s' (m @ a)" by (intro sha_upd_rep) simp_all
next
  fix s and m :: "u8 list"
  assume "sha_rep s m" "length m < 2 ^ 61 - 200"
  then have "SHA1Final s = Inr (fips_sha1 m, \<lparr>state = replicate 5 0, count0 = 0, count1 = 0, buffer = replicate 64 0\<rparr>)"
    by (intro SHA1Final_rep) simp_all
  then show "digest_of s = Inr (fips_sha1 m)" by (simp add: digest_of_def)
qed

section \<open>Properties\<close>

text \<open>C27. SHA1Transform, with its rotating register names, its ring of 16 schedule words and
  its byte swap, computes the FIPS 180 block function of the 64 bytes.\<close>

theorem SHA1Transform_correct:
  assumes "off + 64 \<le> length data"
  shows "SHA1Transform st data off = Inr (fips_block st (take 64 (drop off data)))"
  by (rule SHA1Transform_fips [OF assms])

text \<open>C9. SHA1Init, any run of SHA1Update on pieces of a message and SHA1Final give the FIPS 180
  digest of the message, however it was cut, without a fault and in bounded loops.\<close>

theorem sha1_streaming:
  assumes "length (buffer c) = 64" and "length (concat cs) < 2 ^ 61 - 200"
    and "\<forall>a\<in>set cs. length a < 2 ^ 32 - 63"
  shows "bindE (feed sha_upd (SHA1Init c) cs) digest_of = Inr (fips_sha1 (concat cs))"
  using sha_stream.feed_out [OF SHA1Init_rep [OF assms(1)] assms(2,3)] by auto

text \<open>The sum of the buffer index and the piece length is computed in 32 bits: a piece that
  makes it wrap is taken for one that fits into the buffer, and the copy runs past it.\<close>

theorem sha1_update_overflow:
  assumes "sha_rep c m" and "length a < 2 ^ 32" and "2 ^ 32 \<le> length m mod 64 + length a"
  shows "sha_upd c a = Inl Out_Of_Bounds"
proof -
  define n :: u32 where "n = of_nat (length a)"
  have n: "unat n = length a" using assms(2) by (simp add: n_def unat_of_nat take_bit_nat_eq_self)
  define j where "j = drop_bit 3 (count0 c) AND 63"
  have j: "unat j = length m mod 64"
    using buffer_index [of "count1 c" "count0 c" "length m"] assms(1) by (simp add: j_def sha_rep_def)
  have "unat (j + n) = length m mod 64 + length a - 2 ^ 32"
    using j n assms(2,3) by (simp add: unat_word_ariths le_mod_geq)
  then have "\<not> j + n > 63" using assms(2) by (simp add: word_less_nat_alt)
  moreover have "length (buffer c) = 64" using assms(1) by (simp add: sha_rep_def)
  moreover have "64 < length m mod 64 + length a" "a \<noteq> []" using assms(3) by auto
  ultimately show ?thesis
    using n j unfolding sha_upd_def n_def [symmetric]
    by (auto simp: SHA1Update_def Let_def j_def [symmetric] mem_slice_def mem_store_def)
qed

text \<open>Witnesses.\<close>

definition demo_ctx :: SHA1_CTX where
  "demo_ctx = \<lparr>state = replicate 5 0, count0 = 0, count1 = 0, buffer = replicate 64 0\<rparr>"

theorem SHA1Transform_correct_witness:
  "SHA1Transform sha_H0 (replicate 70 7) 6 = Inr (fips_block sha_H0 (replicate 64 7))"
  using SHA1Transform_correct [of 6 "replicate 70 7" sha_H0] by simp

theorem sha1_streaming_witness:
  "bindE (feed sha_upd (SHA1Init demo_ctx) [[97], [98, 99]]) digest_of = Inr (fips_sha1 [97, 98, 99])"
  using sha1_streaming [of demo_ctx "[[97], [98, 99]]"] by (simp add: demo_ctx_def)

theorem sha1_update_overflow_witness:
  "\<exists>c. sha_rep c [1] \<and> sha_upd c (replicate (2 ^ 32 - 1) 0) = Inl Out_Of_Bounds"
proof -
  have "sha_rep (SHA1Init demo_ctx) []" by (rule SHA1Init_rep) (simp add: demo_ctx_def)
  from sha_upd_rep [OF this, of "[1]"] obtain c where c: "sha_rep c [1]" by auto
  have "length (replicate (2 ^ 32 - 1) (0 :: u8)) < 2 ^ 32"
    "2 ^ 32 \<le> length [1 :: u8] mod 64 + length (replicate (2 ^ 32 - 1) (0 :: u8))"
    by (simp_all only: length_replicate) simp_all
  from sha1_update_overflow [OF c this] c show ?thesis by blast
qed

end
