(* ===== verification/Mempool.thy ===== *)
theory Mempool
  imports Locks
begin

text \<open>
  src/mempool.c: a pool that keeps up to a water-level of free nodes. Nodes are opaque
  pointers (None is NULL) that the client's alloc and free callbacks make and take back;
  \<open>'w\<close> is the state those callbacks work on (pool_data and the heap behind it), and the state of the
  allocator: smalloc, scalloc and sfree, as the pool calls them for its struct and its slot array, are
  the record \<open>slot_mem\<close>, with the address of a block and, for a slot array, what is in it. The spinlock of
  the pool is not a field here: no operation but the three of its own reads it, and these get it.
\<close>

section \<open>State\<close>

record ('n, 'w) slot_mem =
  smalloc_slots :: "u64 \<Rightarrow> 'w \<Rightarrow> fault + (nat \<times> 'n option list) option \<times> 'w"
  scalloc_slots :: "u64 \<Rightarrow> 'w \<Rightarrow> fault + (nat \<times> 'n option list) option \<times> 'w"
  scalloc_struct :: "u64 \<Rightarrow> 'w \<Rightarrow> fault + nat option \<times> 'w"
  sfree_block :: "nat \<Rightarrow> 'w \<Rightarrow> fault + 'w"

text \<open>\<open>self\<close> is the address of the struct, \<open>slots_at\<close> the pointer freeNode and \<open>freeNode\<close> what it points to.\<close>

record ('n, 'w) mempool =
  self :: nat
  wl :: "s32 list"
  syswl :: s32
  freeCnt :: s32
  slotCnt :: s32
  slots_at :: nat
  freeNode :: "'n option list"
  alloc_fn :: "'w \<Rightarrow> 'n option \<times> 'w"
  free_fn :: "'n option \<Rightarrow> 'w \<Rightarrow> 'w"

definition SM_LVL_LOW :: s32 where "SM_LVL_LOW = 0"
definition MP_OK :: s32 where "MP_OK = 0"

text \<open>A lock of 4 bytes, six ints with the padding, and four pointers.\<close>

definition sizeof_mempool :: u64 where "sizeof_mempool = 64"

text \<open>\<open>mp->wl[lvl]\<close>\<close>

definition wl_at :: "('n, 'w) mempool \<Rightarrow> s32 \<Rightarrow> fault + s32" where
  "wl_at mp lvl = (if unat lvl < length (wl mp) then Inr (wl mp ! unat lvl) else Inl Out_Of_Bounds)"

section \<open>The lock\<close>

definition trylock_mp :: "'l spin_ops \<Rightarrow> 'l \<Rightarrow> s32 \<times> 'l" where
  "trylock_mp P lock = spin_trylock P lock"

definition lock_mp :: "'l spin_ops \<Rightarrow> 'l \<Rightarrow> 'l" where
  "lock_mp P lock = snd (spin_lock P lock)"

definition unlock_mp :: "'l spin_ops \<Rightarrow> 'l \<Rightarrow> 'l" where
  "unlock_mp P lock = snd (spin_unlock P lock)"

section \<open>Operations\<close>

definition remove_element :: "('n, 'w) mempool \<Rightarrow> fault + 'n option \<times> ('n, 'w) mempool" where
  "remove_element mp =
     bindE (guardE (0 < sint (freeCnt mp)) Assert_Failed) (\<lambda>_.
     let mp = mp\<lparr>freeCnt := freeCnt mp - 1\<rparr>
     in if unat (freeCnt mp) < length (freeNode mp) then Inr (freeNode mp ! unat (freeCnt mp), mp)
        else Inl Out_Of_Bounds)"

definition add_element :: "('n, 'w) mempool \<Rightarrow> 'n option \<Rightarrow> fault + ('n, 'w) mempool" where
  "add_element mp element =
     bindE (wl_at mp (syswl mp)) (\<lambda>lv.
     bindE (guardE (sint (freeCnt mp) < sint lv) Assert_Failed) (\<lambda>_.
     if unat (freeCnt mp) < length (freeNode mp)
     then Inr (mp\<lparr>freeNode := (freeNode mp)[unat (freeCnt mp) := element], freeCnt := freeCnt mp + 1\<rparr>)
     else Inl Out_Of_Bounds))"

text \<open>The memcpy takes \<open>slots\<close> entries from the old array, whatever its size is.\<close>

definition resize_mp :: "('n, 'w) slot_mem \<Rightarrow> ('n, 'w) mempool \<Rightarrow> bool \<Rightarrow> 'w \<Rightarrow> fault + ('n, 'w) mempool \<times> 'w" where
  "resize_mp H mp force w =
     bindE (wl_at mp (syswl mp)) (\<lambda>slots.
     if sint (slotCnt mp) < sint slots \<and> \<not> force then Inr (mp, w)
     else if sint (freeCnt mp) > sint slots
     then bindE (guardE (sint (freeCnt mp) \<le> sint slots) Assert_Failed) (\<lambda>_. Inr (mp, w))
     else bindE (smalloc_slots H (scast slots * 8) w) (\<lambda>(newSlots, w).
          case newSlots of
            None \<Rightarrow> Inr (mp, w)
          | Some (p, newSlots) \<Rightarrow>
              bindE (mem_slice (freeNode mp) 0 (unat (scast slots * 8 :: u64) div 8)) (\<lambda>src.
              bindE (mem_store newSlots 0 src) (\<lambda>newSlots.
              bindE (sfree_block H (slots_at mp) w) (\<lambda>w.
              Inr (mp\<lparr>slots_at := p, freeNode := newSlots, slotCnt := slots\<rparr>, w))))))"

lemma unat_pred:
  "0 < sint (c :: s32) \<Longrightarrow> unat (c - 1) < unat c"
  by (metis diff_0_right gr_implies_not0 less_irrefl signed_0 unat_minus_one word_neq_0_conv
      Suc_pred' lessI unat_gt_0)

lemma remove_element_cnt:
  "remove_element mp = Inr (e, mp') \<Longrightarrow> unat (freeCnt mp') < unat (freeCnt mp)"
  by (auto simp: remove_element_def guardE_def Let_def unat_pred split: if_splits)

lemma add_element_fields:
  "add_element mp e = Inr mp' \<Longrightarrow> wl mp' = wl mp \<and> syswl mp' = syswl mp
     \<and> freeCnt mp' = freeCnt mp + 1 \<and> sint (freeCnt mp) < sint (wl mp ! unat (syswl mp))"
  by (auto simp: add_element_def guardE_def wl_at_def split: if_splits)

lemma sint_Suc: "sint (a :: s32) < sint (b :: s32) \<Longrightarrow> sint (a + 1) = sint a + 1"
proof -
  assume ab: "sint a < sint b"
  have "sint b < 2 ^ 31" "- (2 ^ 31) \<le> sint a" using sint_lt [of b] sint_ge [of a] by simp_all
  then have "signed_take_bit 31 (sint a + 1) = sint a + 1"
    using ab by (intro signed_take_bit_int_eq_self) simp_all
  then show ?thesis by (simp add: sint_word_ariths)
qed

function drain :: "('n, 'w) mempool \<Rightarrow> 'w \<Rightarrow> fault + ('n, 'w) mempool \<times> 'w" where
  "drain mp w =
     (if freeCnt mp = 0 then Inr (mp, w)
      else bindE (remove_element mp) (\<lambda>(element, mp). drain mp (free_fn mp element w)))"
  by pat_completeness auto
termination
  by (relation "measure (\<lambda>(mp, w). unat (freeCnt mp))") (auto dest: remove_element_cnt)

definition destroy_mp :: "('n, 'w) slot_mem \<Rightarrow> ('n, 'w) mempool \<Rightarrow> 'w \<Rightarrow> fault + 'w" where
  "destroy_mp H mp w =
     bindE (drain mp w) (\<lambda>(mp, w).
     bindE (sfree_block H (slots_at mp) w) (\<lambda>w. sfree_block H (self mp) w))"

function fill :: "('n, 'w) slot_mem \<Rightarrow> ('n, 'w) mempool \<Rightarrow> 'w \<Rightarrow> fault + ('n, 'w) mempool option \<times> 'w" where
  "fill H mp w =
     bindE (wl_at mp (syswl mp)) (\<lambda>lv.
     if sint (freeCnt mp) < sint lv
     then let (tmp, w) = alloc_fn mp w in
          if tmp = None then bindE (destroy_mp H mp w) (\<lambda>w. Inr (None, w))
          else bindE (add_element mp tmp) (\<lambda>mp. fill H mp w)
     else Inr (Some mp, w))"
  by pat_completeness auto
termination
  by (relation "measure (\<lambda>(H, mp, w). nat (sint (wl mp ! unat (syswl mp)) - sint (freeCnt mp)))")
    (auto dest!: add_element_fields simp: sint_Suc)

text \<open>scalloc leaves the count of free nodes 0.\<close>

definition create_mp :: "('n, 'w) slot_mem \<Rightarrow> s32 \<Rightarrow> s32 \<Rightarrow> s32 \<Rightarrow> ('w \<Rightarrow> 'n option \<times> 'w)
    \<Rightarrow> ('n option \<Rightarrow> 'w \<Rightarrow> 'w) \<Rightarrow> 'w \<Rightarrow> fault + ('n, 'w) mempool option \<times> 'w" where
  "create_mp H low_nr mid_nr hig_nr alloc free w =
     bindE (scalloc_struct H sizeof_mempool w) (\<lambda>(mp, w).
     case mp of
       None \<Rightarrow> Inr (None, w)
     | Some blk \<Rightarrow>
         bindE (scalloc_slots H (8 * scast low_nr) w) (\<lambda>(arr, w).
         case arr of
           None \<Rightarrow> bindE (sfree_block H blk w) (\<lambda>w. Inr (None, w))
         | Some (p, arr) \<Rightarrow> fill H \<lparr>self = blk, wl = [low_nr, mid_nr, hig_nr], syswl = SM_LVL_LOW, freeCnt = 0,
              slotCnt = low_nr, slots_at = p, freeNode = arr, alloc_fn = alloc, free_fn = free\<rparr> w))"

text \<open>The loops of put_mp_nodes over the caller's array, from \<open>idx\<close> up to a bound.\<close>

function add_nodes :: "('n, 'w) mempool \<Rightarrow> 'n option list \<Rightarrow> nat \<Rightarrow> nat \<Rightarrow> fault + ('n, 'w) mempool" where
  "add_nodes mp nodes idx n =
     (if idx < n
      then bindE (mem_slice nodes idx 1) (\<lambda>x.
           bindE (add_element mp (hd x)) (\<lambda>mp. add_nodes mp nodes (idx + 1) n))
      else Inr mp)"
  by pat_completeness auto
termination by (relation "measure (\<lambda>(mp, nodes, idx, n). n - idx)") auto

function free_nodes :: "('n, 'w) mempool \<Rightarrow> 'n option list \<Rightarrow> nat \<Rightarrow> nat \<Rightarrow> 'w \<Rightarrow> fault + 'w" where
  "free_nodes mp nodes idx n w =
     (if idx < n
      then bindE (mem_slice nodes idx 1) (\<lambda>x. free_nodes mp nodes (idx + 1) n (free_fn mp (hd x) w))
      else Inr w)"
  by pat_completeness auto
termination by (relation "measure (\<lambda>(mp, nodes, idx, n, w). n - idx)") auto

declare drain.simps [simp del] fill.simps [simp del] add_nodes.simps [simp del] free_nodes.simps [simp del]

text \<open>
  The sums of freeCnt (int) and nr (unsigned) and their comparisons are unsigned, the
  count of the first part is signed and may be negative.
\<close>

definition put_mp_nodes :: "('n, 'w) slot_mem \<Rightarrow> ('n, 'w) mempool \<Rightarrow> 'n option list \<Rightarrow> u32 \<Rightarrow> 'w
    \<Rightarrow> fault + ('n, 'w) mempool \<times> 'w" where
  "put_mp_nodes H mp nodes nr w =
     bindE (wl_at mp (syswl mp)) (\<lambda>lvlCnt.
     bindE (if freeCnt mp + nr > slotCnt mp then resize_mp H mp True w else Inr (mp, w)) (\<lambda>(mp, w).
     if freeCnt mp + nr \<le> lvlCnt
     then bindE (add_nodes mp nodes 0 (unat nr)) (\<lambda>mp. Inr (mp, w))
     else let cnt = nat (sint (lvlCnt - freeCnt mp)) in
          bindE (add_nodes mp nodes 0 cnt) (\<lambda>mp.
          bindE (free_nodes mp nodes cnt (unat nr) w) (\<lambda>w. Inr (mp, w)))))"

fun clean_node_list :: "('n, 'w) slot_mem \<Rightarrow> ('n, 'w) mempool \<Rightarrow> 'n option list \<Rightarrow> nat \<Rightarrow> nat \<Rightarrow> 'w
    \<Rightarrow> fault + ('n, 'w) mempool \<times> 'n option list \<times> 'w" where
  "clean_node_list H mp nodes idx 0 w = Inr (mp, nodes, w)"
| "clean_node_list H mp nodes idx (Suc k) w =
     bindE (mem_slice nodes idx 1) (\<lambda>x.
     if hd x = None then Inr (mp, nodes, w)
     else bindE (put_mp_nodes H mp x 1 w) (\<lambda>(mp, w).
          clean_node_list H mp (nodes[idx := None]) (idx + 1) k w))"

definition get_resrv_node :: "('n, 'w) mempool \<Rightarrow> fault + 'n option \<times> ('n, 'w) mempool" where
  "get_resrv_node mp = (if sint (freeCnt mp) \<le> 0 then Inr (None, mp) else remove_element mp)"

text \<open>The loop of get_mp_nodes; \<open>k\<close> passes are left and \<open>nr\<close> is the size of the request.\<close>

fun get_loop :: "('n, 'w) slot_mem \<Rightarrow> ('n, 'w) mempool \<Rightarrow> 'n option list \<Rightarrow> u32 \<Rightarrow> nat \<Rightarrow> nat \<Rightarrow> 'w
    \<Rightarrow> fault + s32 \<times> ('n, 'w) mempool \<times> 'n option list \<times> 'w" where
  "get_loop H mp nodes nr idx 0 w = Inr (MP_OK, mp, nodes, w)"
| "get_loop H mp nodes nr idx (Suc k) w =
     (let (tmp, w) = alloc_fn mp w in
      bindE (if tmp = None then get_resrv_node mp else Inr (tmp, mp)) (\<lambda>(tmp, mp).
      if tmp = None
      then bindE (clean_node_list H mp nodes 0 (unat nr) w) (\<lambda>(mp, nodes, w).
           Inr (SPG_ERR, mp, nodes, w))
      else bindE (mem_store nodes idx [tmp]) (\<lambda>nodes. get_loop H mp nodes nr (idx + 1) k w)))"

definition get_mp_nodes :: "('n, 'w) slot_mem \<Rightarrow> ('n, 'w) mempool \<Rightarrow> 'n option list \<Rightarrow> u32 \<Rightarrow> 'w
    \<Rightarrow> fault + s32 \<times> ('n, 'w) mempool \<times> 'n option list \<times> 'w" where
  "get_mp_nodes H mp nodes nr w = get_loop H mp nodes nr 0 (unat nr) w"

text \<open>\<open>while (needFree--)\<close> and the loop of trim_fnode.\<close>

fun free_some :: "nat \<Rightarrow> ('n, 'w) mempool \<Rightarrow> 'w \<Rightarrow> fault + ('n, 'w) mempool \<times> 'w" where
  "free_some 0 mp w = Inr (mp, w)"
| "free_some (Suc k) mp w =
     bindE (remove_element mp) (\<lambda>(node, mp). free_some k mp (free_fn mp node w))"

definition update_syswl :: "('n, 'w) slot_mem \<Rightarrow> ('n, 'w) mempool \<Rightarrow> u32 \<Rightarrow> 'w \<Rightarrow> fault + ('n, 'w) mempool \<times> 'w" where
  "update_syswl H mp lvl w =
     (if syswl mp = lvl then Inr (mp, w)
      else let mp = mp\<lparr>syswl := lvl\<rparr> in
        bindE (wl_at mp lvl) (\<lambda>lv.
        if sint (freeCnt mp) \<le> sint lv then Inr (mp, w)
        else bindE (free_some (unat (freeCnt mp - lv)) mp w) (\<lambda>(mp, w).
             resize_mp H mp False w)))"

function trim_fnode :: "('n, 'w) mempool \<Rightarrow> 'w \<Rightarrow> fault + ('n, 'w) mempool \<times> 'w" where
  "trim_fnode mp w =
     bindE (wl_at mp (syswl mp)) (\<lambda>lv.
     if sint (freeCnt mp) > sint lv
     then bindE (remove_element mp) (\<lambda>(node, mp). trim_fnode mp (free_fn mp node w))
     else Inr (mp, w))"
  by pat_completeness auto
termination
  by (relation "measure (\<lambda>(mp, w). unat (freeCnt mp))") (auto dest: remove_element_cnt)

declare trim_fnode.simps [simp del]

definition update_mpwl :: "('n, 'w) slot_mem \<Rightarrow> ('n, 'w) mempool \<Rightarrow> s32 \<Rightarrow> s32 \<Rightarrow> s32 \<Rightarrow> 'w
    \<Rightarrow> fault + s32 \<times> ('n, 'w) mempool \<times> 'w" where
  "update_mpwl H mp hwl mwl lwl w =
     bindE (trim_fnode (mp\<lparr>wl := [lwl, mwl, hwl]\<rparr>) w) (\<lambda>(mp, w).
     bindE (resize_mp H mp False w) (\<lambda>(mp, w). Inr (MP_OK, mp, w)))"


section \<open>The pool as a sequence\<close>

definition pool :: "('n, 'w) mempool \<Rightarrow> 'n option list" where
  "pool mp = take (unat (freeCnt mp)) (freeNode mp)"

definition level :: "('n, 'w) mempool \<Rightarrow> nat" where
  "level mp = unat (wl mp ! unat (syswl mp))"

lemma level_update [simp]:
  "level (mp\<lparr>freeNode := a\<rparr>) = level mp" "level (mp\<lparr>slotCnt := s\<rparr>) = level mp"
  "level (mp\<lparr>freeCnt := c\<rparr>) = level mp"
  by (simp_all add: level_def)

text \<open>Counts are not negative, the slot array has slotCnt entries and holds the free nodes.\<close>

definition mp_shape :: "('n, 'w) mempool \<Rightarrow> bool" where
  "mp_shape mp \<longleftrightarrow> unat (syswl mp) < length (wl mp) \<and> level mp < 2 ^ 31
     \<and> length (freeNode mp) = unat (slotCnt mp) \<and> unat (slotCnt mp) < 2 ^ 31
     \<and> unat (freeCnt mp) \<le> unat (slotCnt mp)"

text \<open>The water-level is not above the slots: every operation is safe then.\<close>

definition mp_ok :: "('n, 'w) mempool \<Rightarrow> bool" where
  "mp_ok mp \<longleftrightarrow> mp_shape mp \<and> unat (freeCnt mp) \<le> level mp \<and> level mp \<le> unat (slotCnt mp)"

definition mp_same :: "('n, 'w) mempool \<Rightarrow> ('n, 'w) mempool \<Rightarrow> bool" where
  "mp_same mp mp' \<longleftrightarrow> self mp' = self mp \<and> wl mp' = wl mp \<and> syswl mp' = syswl mp
     \<and> alloc_fn mp' = alloc_fn mp \<and> free_fn mp' = free_fn mp"

lemma mp_same_refl [simp]: "mp_same mp mp"
  by (simp add: mp_same_def)

lemma mp_same_trans: "mp_same a b \<Longrightarrow> mp_same b c \<Longrightarrow> mp_same a c"
  by (simp add: mp_same_def)

lemma mp_same_level: "mp_same mp mp' \<Longrightarrow> level mp' = level mp"
  by (simp add: mp_same_def level_def)

lemma sint_small: "unat (x :: s32) < 2 ^ 31 \<Longrightarrow> sint x = int (unat x)"
proof -
  assume "unat x < 2 ^ 31"
  then have "int (unat x) < int (2 ^ 31)" by (simp only: of_nat_less_iff)
  then have "uint x < 2 ^ 31" by simp
  moreover have "0 \<le> uint x" by simp
  ultimately have "signed_take_bit 31 (uint x) = uint x"
    by (intro signed_take_bit_int_eq_self) linarith+
  then show ?thesis by (simp add: sint_uint)
qed

lemma sint_cmp_small:
  assumes "unat (x :: s32) < 2 ^ 31" "unat (y :: s32) < 2 ^ 31"
  shows "sint x < sint y \<longleftrightarrow> unat x < unat y" "sint x \<le> sint y \<longleftrightarrow> unat x \<le> unat y"
  unfolding sint_small [OF assms(1)] sint_small [OF assms(2)] of_nat_less_iff of_nat_le_iff by (rule refl)+

lemma mp_shape_cmp:
  assumes "mp_shape mp"
  shows "wl_at mp (syswl mp) = Inr (wl mp ! unat (syswl mp))"
    "0 < sint (freeCnt mp) \<longleftrightarrow> 0 < unat (freeCnt mp)" "sint (freeCnt mp) \<le> 0 \<longleftrightarrow> unat (freeCnt mp) = 0"
    "sint (freeCnt mp) < sint (wl mp ! unat (syswl mp)) \<longleftrightarrow> unat (freeCnt mp) < level mp"
    "sint (wl mp ! unat (syswl mp)) < sint (freeCnt mp) \<longleftrightarrow> level mp < unat (freeCnt mp)"
    "sint (freeCnt mp) \<le> sint (wl mp ! unat (syswl mp)) \<longleftrightarrow> unat (freeCnt mp) \<le> level mp"
    "sint (slotCnt mp) < sint (wl mp ! unat (syswl mp)) \<longleftrightarrow> unat (slotCnt mp) < level mp"
  using assms sint_cmp_small [of 0 "freeCnt mp"] sint_cmp_small [of "freeCnt mp" 0]
    sint_cmp_small [of "freeCnt mp" "wl mp ! unat (syswl mp)"]
    sint_cmp_small [of "wl mp ! unat (syswl mp)" "freeCnt mp"]
    sint_cmp_small [of "slotCnt mp" "wl mp ! unat (syswl mp)"]
  by (simp_all add: mp_shape_def level_def wl_at_def)

lemma length_pool: "mp_shape mp \<Longrightarrow> length (pool mp) = unat (freeCnt mp)"
  by (simp add: mp_shape_def pool_def)

lemma remove_element_ok:
  assumes mp: "mp_shape mp" and c: "freeCnt mp \<noteq> 0"
  shows "remove_element mp = Inr (last (pool mp), mp\<lparr>freeCnt := freeCnt mp - 1\<rparr>)"
    "pool (mp\<lparr>freeCnt := freeCnt mp - 1\<rparr>) = butlast (pool mp)"
    "mp_shape (mp\<lparr>freeCnt := freeCnt mp - 1\<rparr>)" "pool mp \<noteq> []"
    "unat (freeCnt mp - 1) = unat (freeCnt mp) - 1"
proof -
  have pos: "0 < unat (freeCnt mp)" using c by (simp add: unat_gt_0)
  show c1: "unat (freeCnt mp - 1) = unat (freeCnt mp) - 1"
    using pos by (subst unat_sub) (simp_all add: word_le_nat_alt)
  have len: "unat (freeCnt mp) \<le> length (freeNode mp)" using mp by (simp add: mp_shape_def)
  show "pool mp \<noteq> []" using length_pool [OF mp] pos by auto
  then have "last (pool mp) = freeNode mp ! (unat (freeCnt mp) - 1)"
    using length_pool [OF mp] pos by (simp add: last_conv_nth) (simp add: pool_def)
  then show "remove_element mp = Inr (last (pool mp), mp\<lparr>freeCnt := freeCnt mp - 1\<rparr>)"
    using mp_shape_cmp(2) [OF mp] pos c1 len by (auto simp: remove_element_def Let_def)
  show "pool (mp\<lparr>freeCnt := freeCnt mp - 1\<rparr>) = butlast (pool mp)"
    using len by (simp add: pool_def c1 butlast_take)
  show "mp_shape (mp\<lparr>freeCnt := freeCnt mp - 1\<rparr>)"
    using mp c1 by (auto simp: mp_shape_def level_def)
qed

lemma add_element_ok:
  assumes mp: "mp_shape mp" and c: "unat (freeCnt mp) < level mp" "unat (freeCnt mp) < unat (slotCnt mp)"
  shows "\<exists>mp'. add_element mp e = Inr mp' \<and> pool mp' = pool mp @ [e] \<and> mp_same mp mp' \<and> mp_shape mp'
    \<and> slotCnt mp' = slotCnt mp \<and> slots_at mp' = slots_at mp \<and> unat (freeCnt mp') = Suc (unat (freeCnt mp))"
proof -
  let ?mp = "mp\<lparr>freeNode := (freeNode mp)[unat (freeCnt mp) := e], freeCnt := freeCnt mp + 1\<rparr>"
  have len: "length (freeNode mp) = unat (slotCnt mp)" using mp by (simp add: mp_shape_def)
  have c1: "unat (freeCnt mp + 1) = Suc (unat (freeCnt mp))"
    using c(2) by (simp add: unat_Suc_less word_less_nat_alt)
  have "add_element mp e = Inr ?mp"
    using mp_shape_cmp [OF mp] c len by (simp add: add_element_def)
  moreover have "pool ?mp = pool mp @ [e]"
    using c(2) len c1 by (simp add: pool_def take_Suc_conv_app_nth)
  moreover have "mp_shape ?mp" using mp c c1 by (simp add: mp_shape_def level_def)
  ultimately show ?thesis using c1 by (intro exI [of _ ?mp]) (simp add: mp_same_def)
qed

lemma mem_slice_one: "i < length xs \<Longrightarrow> mem_slice xs i (Suc 0) = Inr [xs ! i]"
  by (simp add: mem_slice_def take_Suc_conv_app_nth)

lemma add_nodes_ok:
  "mp_shape mp \<Longrightarrow> n \<le> length nodes \<Longrightarrow> idx \<le> n \<Longrightarrow> unat (freeCnt mp) + (n - idx) \<le> level mp \<Longrightarrow>
   level mp \<le> unat (slotCnt mp) \<Longrightarrow>
   \<exists>mp'. add_nodes mp nodes idx n = Inr mp' \<and> pool mp' = pool mp @ drop idx (take n nodes)
     \<and> mp_same mp mp' \<and> mp_shape mp' \<and> slotCnt mp' = slotCnt mp \<and> slots_at mp' = slots_at mp
     \<and> unat (freeCnt mp') = unat (freeCnt mp) + (n - idx)"
proof (induction mp nodes idx n rule: add_nodes.induct)
  case (1 mp nodes idx n)
  show ?case
  proof (cases "idx < n")
    case True
    have c: "unat (freeCnt mp) < level mp" "unat (freeCnt mp) < unat (slotCnt mp)"
      using "1.prems"(4,5) True by linarith+
    obtain mp1 where mp1: "add_element mp (nodes ! idx) = Inr mp1" "pool mp1 = pool mp @ [nodes ! idx]"
        "mp_same mp mp1" "mp_shape mp1" "slotCnt mp1 = slotCnt mp" "slots_at mp1 = slots_at mp" "unat (freeCnt mp1) = Suc (unat (freeCnt mp))"
      using add_element_ok [OF "1.prems"(1), of "nodes ! idx"] c by auto
    have s: "mem_slice nodes idx 1 = Inr [nodes ! idx]" using mem_slice_one [of idx nodes] "1.prems"(2) True by simp
    have lv: "level mp1 = level mp" using mp1(3) by (rule mp_same_level)
    have c': "unat (freeCnt mp1) + (n - (idx + 1)) \<le> level mp1" "level mp1 \<le> unat (slotCnt mp1)"
      unfolding lv mp1(5,7) using "1.prems"(4,5) True by simp_all
    obtain mp' where mp': "add_nodes mp1 nodes (idx + 1) n = Inr mp'"
        "pool mp' = pool mp1 @ drop (idx + 1) (take n nodes)" "mp_same mp1 mp'" "mp_shape mp'"
        "slotCnt mp' = slotCnt mp1" "slots_at mp' = slots_at mp1" "unat (freeCnt mp') = unat (freeCnt mp1) + (n - (idx + 1))"
      using "1.IH" [OF True s, of mp1] mp1(1,4) "1.prems"(2) True c' by auto
    have "drop idx (take n nodes) = nodes ! idx # drop (idx + 1) (take n nodes)"
      using True "1.prems"(2) by (subst Cons_nth_drop_Suc [symmetric]) simp_all
    moreover have "unat (freeCnt mp') = unat (freeCnt mp) + (n - idx)"
      using mp'(7) mp1(7) True by simp
    ultimately show ?thesis
      using True s mp1(1,2,5,6) mp'(1-6) mp_same_trans [OF mp1(3) mp'(3)]
      by (intro exI [of _ mp']) (simp add: add_nodes.simps [of mp])
  next
    case False
    then show ?thesis using "1.prems" by (simp add: add_nodes.simps)
  qed
qed

lemma free_nodes_ok:
  "n \<le> length nodes \<Longrightarrow> idx \<le> n \<Longrightarrow>
   free_nodes mp nodes idx n w = Inr (fold (free_fn mp) (drop idx (take n nodes)) w)"
proof (induction mp nodes idx n w rule: free_nodes.induct)
  case (1 mp nodes idx n w)
  show ?case
  proof (cases "idx < n")
    case True
    have s: "mem_slice nodes idx 1 = Inr [nodes ! idx]" using mem_slice_one [of idx nodes] "1.prems"(1) True by simp
    have "drop idx (take n nodes) = nodes ! idx # drop (idx + 1) (take n nodes)"
      using True "1.prems"(1) by (subst Cons_nth_drop_Suc [symmetric]) simp_all
    then show ?thesis
      using "1.IH" [OF True s] True "1.prems" s by (simp add: free_nodes.simps [of mp nodes idx])
  qed (use "1.prems" in \<open>simp add: free_nodes.simps\<close>)
qed

lemma slots_size:
  assumes "unat (x :: s32) < 2 ^ 31"
  shows "unat (scast x * 8 :: u64) div 8 = unat x"
proof -
  have "(scast x :: u64) = of_int (sint x)" by (rule scast_eq)
  also have "\<dots> = of_nat (unat x)" unfolding sint_small [OF assms] by simp
  finally have "unat (scast x :: u64) = unat (of_nat (unat x) :: u64)" by simp
  also have "\<dots> = unat x"
    unfolding unat_of_nat by (rule mod_less) (use assms in simp)
  finally have "unat (scast x :: u64) = unat x" .
  then have "unat (scast x * 8 :: u64) = unat x * 8" using assms by (simp add: unat_mult_no_wrap)
  then show ?thesis by simp
qed

text \<open>A resize that is carried out makes the array as long as the water-level.\<close>

definition resized :: "('n, 'w) mempool \<Rightarrow> nat \<Rightarrow> ('n, 'w) mempool" where
  "resized mp p = mp\<lparr>slots_at := p, freeNode := take (level mp) (freeNode mp), slotCnt := wl mp ! unat (syswl mp)\<rparr>"

lemma resized_ok:
  assumes "mp_ok mp"
  shows "mp_ok (resized mp p)" "pool (resized mp p) = pool mp" "mp_same mp (resized mp p)"
    "freeCnt (resized mp p) = freeCnt mp" "slots_at (resized mp p) = p"
  using assms by (simp_all add: resized_def mp_ok_def mp_shape_def level_def pool_def mp_same_def min_def)

lemma resize_mp_ok:
  assumes mp: "mp_ok mp" and a: "\<And>p a. r = Some (p, a) \<Longrightarrow> length a = level mp"
    and r: "smalloc_slots H (scast (wl mp ! unat (syswl mp)) * 8) w = Inr (r, w1)"
  shows "resize_mp H mp force w = (if unat (slotCnt mp) < level mp \<and> \<not> force then Inr (mp, w)
      else case r of None \<Rightarrow> Inr (mp, w1)
           | Some (p, a) \<Rightarrow> bindE (sfree_block H (slots_at mp) w1) (\<lambda>w. Inr (resized mp p, w)))"
proof -
  let ?lv = "wl mp ! unat (syswl mp)"
  have sh: "mp_shape mp" and c: "unat (freeCnt mp) \<le> level mp" "level mp \<le> unat (slotCnt mp)"
    using mp by (simp_all add: mp_ok_def)
  have lv: "unat ?lv = level mp" "level mp < 2 ^ 31" "length (freeNode mp) = unat (slotCnt mp)"
    using sh by (simp_all add: level_def mp_shape_def)
  have src: "mem_slice (freeNode mp) 0 (unat (scast ?lv * 8 :: u64) div 8) = Inr (take (level mp) (freeNode mp))"
    using slots_size [of ?lv] lv c by (simp add: mem_slice_def)
  have "mem_store b 0 (take (level mp) (freeNode mp)) = Inr (take (level mp) (freeNode mp))" if "length b = level mp" for b
    using that lv c by (auto simp: mem_store_def)
  then show ?thesis
    unfolding resize_mp_def mp_shape_cmp(1) [OF sh]
    using mp_shape_cmp [OF sh] c r a src by (auto simp: resized_def split: option.splits)
qed

lemma mp_ok_shape: "mp_ok mp \<Longrightarrow> mp_shape mp"
  by (simp add: mp_ok_def)

text \<open>Putting nodes: the pool takes up to its water-level, the rest is freed.\<close>

lemma put_mp_nodes_ok:
  assumes mp: "mp_ok mp" and nr: "unat nr \<le> length nodes" "unat nr < 2 ^ 31"
    and mp1: "(if freeCnt mp + nr > slotCnt mp then resize_mp H mp True w else Inr (mp, w)) = Inr (mp1, w1)"
      "mp_ok mp1" "pool mp1 = pool mp" "mp_same mp mp1" "freeCnt mp1 = freeCnt mp"
  defines "k \<equiv> min (unat nr) (level mp - unat (freeCnt mp))"
  shows "\<exists>mp'. put_mp_nodes H mp nodes nr w = Inr (mp', fold (free_fn mp) (drop k (take (unat nr) nodes)) w1)
    \<and> mp_ok mp' \<and> pool mp' = pool mp @ take k nodes \<and> mp_same mp mp' \<and> slots_at mp' = slots_at mp1"
proof -
  let ?lv = "wl mp ! unat (syswl mp)"
  have lv1: "level mp1 = level mp" by (rule mp_same_level [OF mp1(4)])
  have c: "unat (freeCnt mp) \<le> level mp" "level mp < 2 ^ 31" "unat ?lv = level mp"
    using mp by (simp_all add: mp_ok_def mp_shape_def level_def)
  have sum: "unat (freeCnt mp + nr) = unat (freeCnt mp) + unat nr"
    using c nr(2) by (intro unat_add_no_wrap) simp
  have put: "put_mp_nodes H mp nodes nr w = (if freeCnt mp + nr \<le> ?lv
      then bindE (add_nodes mp1 nodes 0 (unat nr)) (\<lambda>mp. Inr (mp, w1))
      else bindE (add_nodes mp1 nodes 0 (nat (sint (?lv - freeCnt mp)))) (\<lambda>q.
           bindE (free_nodes q nodes (nat (sint (?lv - freeCnt mp))) (unat nr) w1) (\<lambda>w. Inr (q, w))))"
    unfolding put_mp_nodes_def mp_shape_cmp(1) [OF mp_ok_shape [OF mp]] bindE_simps mp1(1) Let_def
    by (simp add: mp1(5))
  have k: "k \<le> unat nr" "unat (freeCnt mp) + k \<le> level mp" using c(1) by (auto simp: k_def)
  obtain mp2 where mp2: "add_nodes mp1 nodes 0 k = Inr mp2" "pool mp2 = pool mp1 @ take k nodes"
      "mp_same mp1 mp2" "mp_shape mp2" "slotCnt mp2 = slotCnt mp1" "slots_at mp2 = slots_at mp1" "unat (freeCnt mp2) = unat (freeCnt mp1) + k"
    using add_nodes_ok [of mp1 k nodes 0] mp1(2,5) lv1 k nr(1) by (auto simp: mp_ok_def)
  have ok2: "mp_ok mp2"
    using mp1(2,5) mp2(4-7) k lv1 mp_same_level [OF mp2(3)] by (simp add: mp_ok_def)
  have same: "mp_same mp mp2" by (rule mp_same_trans [OF mp1(4) mp2(3)])
  show ?thesis
  proof (cases "freeCnt mp + nr \<le> ?lv")
    case True
    then have "k = unat nr" using sum c by (simp add: k_def word_le_nat_alt)
    then show ?thesis using True put mp2 mp1(3) ok2 same by (intro exI [of _ mp2]) simp
  next
    case False
    then have kd: "k = level mp - unat (freeCnt mp)" using sum c by (simp add: k_def word_le_nat_alt)
    have "unat (?lv - freeCnt mp) = level mp - unat (freeCnt mp)"
      using c by (subst unat_sub) (simp_all add: word_le_nat_alt)
    then have "sint (?lv - freeCnt mp) = int k" using sint_small [of "?lv - freeCnt mp"] c kd by simp
    then show ?thesis
      using False put mp2 mp1(3) ok2 same free_nodes_ok [of "unat nr" nodes k mp2 w1] nr(1) k
      by (intro exI [of _ mp2]) (simp add: mp_same_def)
  qed
qed

text \<open>Taking nodes out until the pool is empty, by a number, down to the water-level.\<close>

lemma fold_last: "xs \<noteq> [] \<Longrightarrow> fold f (rev (butlast xs)) (f (last xs) w) = fold f (rev xs) w"
  by (metis append_butlast_last_id fold_simps(2) rev.simps(2) rev_rev_ident rev_append append_Cons
      append_Nil rev_singleton_conv)

lemma drain_ok:
  "mp_shape mp \<Longrightarrow> \<exists>mp'. drain mp w = Inr (mp', fold (free_fn mp) (rev (pool mp)) w)
     \<and> self mp' = self mp \<and> slots_at mp' = slots_at mp"
proof (induction mp w rule: drain.induct)
  case (1 mp w)
  show ?case
  proof (cases "freeCnt mp = 0")
    case True
    then show ?thesis by (simp add: drain.simps pool_def)
  next
    case False
    note r = remove_element_ok [OF "1.prems" False]
    show ?thesis
      using "1.IH" [OF False r(1) refl r(3)] False r(1,2,4)
      by (simp add: drain.simps [of mp] fold_last)
  qed
qed

lemma free_some_ok:
  "mp_shape mp \<Longrightarrow> k \<le> unat (freeCnt mp) \<Longrightarrow>
   \<exists>mp'. free_some k mp w = Inr (mp', fold (free_fn mp) (rev (drop (unat (freeCnt mp) - k) (pool mp))) w)
     \<and> mp_same mp mp' \<and> mp_shape mp' \<and> pool mp' = take (unat (freeCnt mp) - k) (pool mp)
     \<and> slotCnt mp' = slotCnt mp \<and> slots_at mp' = slots_at mp \<and> unat (freeCnt mp') = unat (freeCnt mp) - k"
proof (induction k arbitrary: mp w)
  case 0
  then show ?case using length_pool [of mp] by (intro exI [of _ mp]) simp
next
  case (Suc k)
  then have c: "freeCnt mp \<noteq> 0" by auto
  note r = remove_element_ok [OF Suc.prems(1) c]
  let ?n = "unat (freeCnt mp)"
  have len: "length (pool mp) = ?n" by (rule length_pool [OF Suc.prems(1)])
  obtain mp' where mp': "free_some k (mp\<lparr>freeCnt := freeCnt mp - 1\<rparr>) (free_fn mp (last (pool mp)) w) =
        Inr (mp', fold (free_fn mp) (rev (drop (?n - 1 - k) (butlast (pool mp)))) (free_fn mp (last (pool mp)) w))"
      "mp_same mp mp'" "mp_shape mp'" "pool mp' = take (?n - 1 - k) (butlast (pool mp))"
      "slotCnt mp' = slotCnt mp" "slots_at mp' = slots_at mp" "unat (freeCnt mp') = ?n - 1 - k"
  proof -
    have "k \<le> ?n - 1" using Suc.prems(2) by simp
    then show ?thesis
      using that Suc.IH [OF r(3), of "free_fn mp (last (pool mp)) w"] r(2,5) by (auto simp: mp_same_def)
  qed
  have "drop (?n - Suc k) (pool mp) \<noteq> []" using Suc.prems(2) len by simp
  moreover have "butlast (drop (?n - Suc k) (pool mp)) = drop (?n - 1 - k) (butlast (pool mp))"
    by (simp add: butlast_drop)
  moreover have "last (drop (?n - Suc k) (pool mp)) = last (pool mp)" using Suc.prems(2) len by simp
  ultimately have "fold (free_fn mp) (rev (drop (?n - 1 - k) (butlast (pool mp)))) (free_fn mp (last (pool mp)) w)
      = fold (free_fn mp) (rev (drop (?n - Suc k) (pool mp))) w"
    using fold_last [of "drop (?n - Suc k) (pool mp)" "free_fn mp" w] by simp
  moreover have "take (?n - 1 - k) (butlast (pool mp)) = take (?n - Suc k) (pool mp)"
    using len Suc.prems(2) by (simp add: butlast_conv_take)
  ultimately show ?case using mp' r(1) by (intro exI [of _ mp']) simp
qed

lemma trim_fnode_ok:
  "mp_shape mp \<Longrightarrow>
   \<exists>mp'. trim_fnode mp w = Inr (mp', fold (free_fn mp) (rev (drop (level mp) (pool mp))) w)
     \<and> mp_same mp mp' \<and> mp_shape mp' \<and> pool mp' = take (level mp) (pool mp)
     \<and> slotCnt mp' = slotCnt mp \<and> slots_at mp' = slots_at mp \<and> unat (freeCnt mp') = min (unat (freeCnt mp)) (level mp)"
proof (induction mp w rule: trim_fnode.induct)
  case (1 mp w)
  note cmp = mp_shape_cmp [OF "1.prems"] and len = length_pool [OF "1.prems"]
  show ?case
  proof (cases "level mp < unat (freeCnt mp)")
    case True
    then have c: "freeCnt mp \<noteq> 0" by auto
    note r = remove_element_ok [OF "1.prems" c]
    have g: "sint (freeCnt mp) > sint (wl mp ! unat (syswl mp))" using True cmp by simp
    obtain mp' where mp': "trim_fnode (mp\<lparr>freeCnt := freeCnt mp - 1\<rparr>) (free_fn mp (last (pool mp)) w) =
          Inr (mp', fold (free_fn mp) (rev (drop (level mp) (butlast (pool mp)))) (free_fn mp (last (pool mp)) w))"
        "mp_same mp mp'" "mp_shape mp'" "pool mp' = take (level mp) (butlast (pool mp))"
        "slotCnt mp' = slotCnt mp" "slots_at mp' = slots_at mp" "unat (freeCnt mp') = min (unat (freeCnt mp) - 1) (level mp)"
      using "1.IH" [OF cmp(1) g r(1) refl r(3)] r(2,5) by (auto simp: mp_same_def)
    have "drop (level mp) (pool mp) \<noteq> []" using True len by simp
    then have "fold (free_fn mp) (rev (drop (level mp) (butlast (pool mp)))) (free_fn mp (last (pool mp)) w)
        = fold (free_fn mp) (rev (drop (level mp) (pool mp))) w"
      using fold_last [of "drop (level mp) (pool mp)" "free_fn mp" w] by (simp add: butlast_drop)
    moreover have "take (level mp) (butlast (pool mp)) = take (level mp) (pool mp)"
      using True len by (simp add: butlast_conv_take)
    moreover have "min (unat (freeCnt mp) - 1) (level mp) = min (unat (freeCnt mp)) (level mp)"
      using True by simp
    ultimately show ?thesis
      using mp' r(1) g cmp(1) by (intro exI [of _ mp']) (simp add: trim_fnode.simps [of mp])
  next
    case False
    then show ?thesis
      using cmp len "1.prems" by (intro exI [of _ mp]) (simp add: trim_fnode.simps [of mp] not_less)
  qed
qed


section \<open>Ownership of nodes\<close>

text \<open>
  What the pool relies on when it calls the client's callbacks: an allocated node was not
  out before, a freed node no longer is. \<open>out\<close> reads the nodes that are out off the
  client's state; \<open>sound\<close> is what the client keeps of that state.
\<close>

locale node_source =
  fixes alloc :: "'w \<Rightarrow> 'n option \<times> 'w" and free :: "'n option \<Rightarrow> 'w \<Rightarrow> 'w" and sound :: "'w \<Rightarrow> bool" and out :: "'w \<Rightarrow> 'n set"
  assumes alloc_some: "sound w \<Longrightarrow> alloc w = (Some n, w') \<Longrightarrow> sound w' \<and> n \<notin> out w \<and> out w' = insert n (out w)"
    and alloc_none: "sound w \<Longrightarrow> alloc w = (None, w') \<Longrightarrow> sound w' \<and> out w' = out w"
    and free_out: "sound w \<Longrightarrow> n \<in> out w \<Longrightarrow> sound (free (Some n) w) \<and> out (free (Some n) w) = out w - {n}"
begin

lemma free_all:
  "sound w \<Longrightarrow> distinct ns \<Longrightarrow> set ns \<subseteq> out w \<Longrightarrow>
   sound (fold free (map Some ns) w) \<and> out (fold free (map Some ns) w) = out w - set ns"
proof (induction ns arbitrary: w)
  case (Cons n ns)
  then have "sound (free (Some n) w)" "out (free (Some n) w) = out w - {n}" by (simp_all add: free_out)
  moreover from this have "sound (fold free (map Some ns) (free (Some n) w))
      \<and> out (fold free (map Some ns) (free (Some n) w)) = out (free (Some n) w) - set ns"
    using Cons.prems by (intro Cons.IH) auto
  ultimately show ?case by auto
qed simp

end

text \<open>
  The allocator behind smalloc, scalloc and sfree: \<open>blks\<close> are the blocks it has given out for structs and
  slot arrays. A request gives no block or a fresh one of the size asked for, an sfree of a block that is out ends
  it, and neither touches the nodes, nor the client's callbacks these blocks. Requests are for less than 2 to the
  power 34 bytes: the number of slots is an int.
\<close>

locale pool_client = node_source alloc free sound out
  for alloc :: "'w \<Rightarrow> 'n option \<times> 'w" and free :: "'n option \<Rightarrow> 'w \<Rightarrow> 'w" and sound :: "'w \<Rightarrow> bool" and out :: "'w \<Rightarrow> 'n set" +
  fixes H :: "('n, 'w) slot_mem" and blks :: "'w \<Rightarrow> nat set"
  assumes alloc_blks: "sound w \<Longrightarrow> alloc w = (r, w') \<Longrightarrow> blks w' = blks w"
    and free_blks: "sound w \<Longrightarrow> n \<in> out w \<Longrightarrow> blks (free (Some n) w) = blks w"
    and slots_mem: "sound w \<Longrightarrow> unat sz < 2 ^ 34 \<Longrightarrow> f = smalloc_slots H \<or> f = scalloc_slots H \<Longrightarrow>
      \<exists>r w'. f sz w = Inr (r, w') \<and> sound w' \<and> out w' = out w
        \<and> (case r of None \<Rightarrow> blks w' = blks w
           | Some (p, a) \<Rightarrow> length a = unat sz div 8 \<and> p \<notin> blks w \<and> blks w' = insert p (blks w))"
    and struct_mem: "sound w \<Longrightarrow> unat sz < 2 ^ 34 \<Longrightarrow>
      \<exists>r w'. scalloc_struct H sz w = Inr (r, w') \<and> sound w' \<and> out w' = out w
        \<and> (case r of None \<Rightarrow> blks w' = blks w | Some p \<Rightarrow> p \<notin> blks w \<and> blks w' = insert p (blks w))"
    and sfree_mem: "sound w \<Longrightarrow> p \<in> blks w \<Longrightarrow>
      \<exists>w'. sfree_block H p w = Inr w' \<and> sound w' \<and> out w' = out w \<and> blks w' = blks w - {p}"
begin

lemma free_all_blks:
  "sound w \<Longrightarrow> distinct ns \<Longrightarrow> set ns \<subseteq> out w \<Longrightarrow> blks (fold free (map Some ns) w) = blks w"
proof (induction ns arbitrary: w)
  case (Cons n ns)
  then have "sound (free (Some n) w)" "set ns \<subseteq> out (free (Some n) w)" "blks (free (Some n) w) = blks w"
    by (auto simp: free_out free_blks)
  then show ?case using Cons by simp
qed simp

end

text \<open>
  The nodes out are those in the pool and those the client holds, \<open>C\<close>, each once; the blocks out are the
  struct of the pool, its slot array and others, \<open>B\<close>, each once.
\<close>

definition holds_blocks :: "('w \<Rightarrow> nat set) \<Rightarrow> ('n, 'w) mempool \<Rightarrow> 'w \<Rightarrow> nat set \<Rightarrow> bool" where
  "holds_blocks blks mp w B \<longleftrightarrow> blks w = {self mp, slots_at mp} \<union> B \<and> self mp \<noteq> slots_at mp \<and> {self mp, slots_at mp} \<inter> B = {}"

definition owns :: "('w \<Rightarrow> bool) \<Rightarrow> ('w \<Rightarrow> 'n set) \<Rightarrow> ('w \<Rightarrow> nat set) \<Rightarrow> ('n, 'w) mempool \<Rightarrow> 'w \<Rightarrow> 'n set \<Rightarrow> nat set \<Rightarrow> bool" where
  "owns sound out blks mp w C B \<longleftrightarrow> sound w \<and> holds_blocks blks mp w B
     \<and> (\<exists>ns. pool mp = map Some ns \<and> distinct ns \<and> out w = set ns \<union> C \<and> set ns \<inter> C = {})"

lemma ownsI:
  "sound w \<Longrightarrow> pool mp = map Some ns \<Longrightarrow> distinct ns \<Longrightarrow> out w = set ns \<union> C \<Longrightarrow> set ns \<inter> C = {} \<Longrightarrow> holds_blocks blks mp w B \<Longrightarrow>
   owns sound out blks mp w C B"
  by (auto simp: owns_def)

lemma ownsE:
  assumes "owns sound out blks mp w C B"
  obtains ns where "pool mp = map Some ns" "distinct ns" "out w = set ns \<union> C" "set ns \<inter> C = {}" "sound w" "holds_blocks blks mp w B"
  using assms by (auto simp: owns_def)

lemma holds_blocks_cong:
  "holds_blocks blks mp w B \<Longrightarrow> blks w' = blks w \<Longrightarrow> self mp' = self mp \<Longrightarrow> slots_at mp' = slots_at mp \<Longrightarrow> holds_blocks blks mp' w' B"
  by (simp add: holds_blocks_def)

lemma owns_same:
  "owns sound out blks mp w C B \<Longrightarrow> sound w' \<Longrightarrow> out w' = out w \<Longrightarrow> blks w' = blks w \<Longrightarrow> pool mp' = pool mp \<Longrightarrow>
   self mp' = self mp \<Longrightarrow> slots_at mp' = slots_at mp \<Longrightarrow> owns sound out blks mp' w' C B"
  by (auto simp: owns_def holds_blocks_def)

text \<open>A fresh node goes to the client.\<close>

lemma owns_fresh:
  "owns sound out blks mp w C B \<Longrightarrow> sound w' \<Longrightarrow> n \<notin> out w \<Longrightarrow> out w' = insert n (out w) \<Longrightarrow> blks w' = blks w \<Longrightarrow>
   owns sound out blks mp w' (insert n C) B \<and> n \<notin> C"
  by (auto simp: owns_def holds_blocks_def)

text \<open>A pool that uses the client's callbacks.\<close>

definition uses :: "('n, 'w) mempool \<Rightarrow> ('w \<Rightarrow> 'n option \<times> 'w) \<Rightarrow> ('n option \<Rightarrow> 'w \<Rightarrow> 'w) \<Rightarrow> bool" where
  "uses mp alloc free \<longleftrightarrow> alloc_fn mp = alloc \<and> free_fn mp = free"

lemma uses_same: "mp_same mp mp' \<Longrightarrow> uses mp alloc free \<Longrightarrow> uses mp' alloc free"
  by (simp add: mp_same_def uses_def)

context pool_client
begin

lemma resize_owns:
  assumes mp: "mp_ok mp" and own: "owns sound out blks mp w C B"
  obtains mp' w' where "resize_mp H mp force w = Inr (mp', w')" "mp_ok mp'" "pool mp' = pool mp" "mp_same mp mp'"
    "freeCnt mp' = freeCnt mp" "owns sound out blks mp' w' C B"
proof -
  let ?lv = "wl mp ! unat (syswl mp)"
  obtain ns where ns: "pool mp = map Some ns" "distinct ns" "out w = set ns \<union> C" "set ns \<inter> C = {}" and sw: "sound w"
    and hb: "holds_blocks blks mp w B"
    by (rule ownsE [OF own])
  have lv: "unat ?lv = level mp" "level mp < 2 ^ 31" using mp by (simp_all add: mp_ok_def mp_shape_def level_def)
  then have sz: "unat (scast ?lv * 8 :: u64) div 8 = level mp" using slots_size [of ?lv] by simp
  then have "unat (scast ?lv * 8 :: u64) < 2 ^ 34" using lv(2) by simp
  from slots_mem [OF sw this, of "smalloc_slots H", unfolded sz] obtain r w1 where
    r: "smalloc_slots H (scast ?lv * 8) w = Inr (r, w1)" "sound w1" "out w1 = out w" "case r of None \<Rightarrow> blks w1 = blks w
        | Some (p, a) \<Rightarrow> length a = level mp \<and> p \<notin> blks w \<and> blks w1 = insert p (blks w)"
    by blast
  have run: "resize_mp H mp force w = (if unat (slotCnt mp) < level mp \<and> \<not> force then Inr (mp, w)
      else case r of None \<Rightarrow> Inr (mp, w1)
           | Some (p, a) \<Rightarrow> bindE (sfree_block H (slots_at mp) w1) (\<lambda>w. Inr (resized mp p, w)))"
    by (rule resize_mp_ok [OF mp _ r(1)]) (use r(4) in auto)
  show thesis
  proof (cases "unat (slotCnt mp) < level mp \<and> \<not> force")
    case True
    then show thesis using that [of mp w] run mp own by simp
  next
    case False
    show thesis
    proof (cases r)
      case None
      then have "owns sound out blks mp w1 C B"
        using r ns hb by (intro ownsI [of _ _ _ ns]) (simp_all add: holds_blocks_def)
      then show thesis using that [of mp w1] run mp False None by simp
    next
      case (Some pa)
      obtain p a where pa: "pa = (p, a)" by (cases pa)
      have p: "p \<notin> blks w" "blks w1 = insert p (blks w)" using r(4) Some pa by auto
      obtain w2 where w2: "sfree_block H (slots_at mp) w1 = Inr w2" "sound w2" "out w2 = out w1" "blks w2 = blks w1 - {slots_at mp}"
        using sfree_mem [OF r(2), of "slots_at mp"] p(2) hb by (auto simp: holds_blocks_def)
      note rs = resized_ok [OF mp, of p]
      have "holds_blocks blks (resized mp p) w2 B"
        using p hb w2(4) by (auto simp: holds_blocks_def resized_def)
      then have "owns sound out blks (resized mp p) w2 C B"
        using r(3) w2 ns rs(2) by (intro ownsI [of _ _ _ ns]) simp_all
      then show thesis using that [of "resized mp p" w2] run False Some pa w2(1) rs by simp
    qed
  qed
qed

text \<open>The nodes that a put does not keep are freed.\<close>

lemma put_owns:
  assumes mp: "mp_ok mp" "uses mp alloc free" and own: "owns sound out blks mp w C B"
    and nodes: "take (unat nr) nodes = map Some cs" "unat nr \<le> length nodes" "unat nr < 2 ^ 31"
    and cs: "distinct cs" "set cs \<subseteq> C"
  shows "\<exists>mp' w'. put_mp_nodes H mp nodes nr w = Inr (mp', w') \<and> mp_ok mp' \<and> uses mp' alloc free \<and> mp_same mp mp'
    \<and> owns sound out blks mp' w' (C - set cs) B"
proof -
  define k where "k = min (unat nr) (level mp - unat (freeCnt mp))"
  obtain mp1 w1 where mp1: "(if freeCnt mp + nr > slotCnt mp then resize_mp H mp True w else Inr (mp, w)) = Inr (mp1, w1)"
      "mp_ok mp1" "pool mp1 = pool mp" "mp_same mp mp1" "freeCnt mp1 = freeCnt mp" "owns sound out blks mp1 w1 C B"
    by (cases "freeCnt mp + nr > slotCnt mp") (use resize_owns [OF mp(1) own, of True] mp(1) own in auto)
  obtain ns where ns: "pool mp1 = map Some ns" "distinct ns" "out w1 = set ns \<union> C" "set ns \<inter> C = {}" and sw: "sound w1"
    and hb: "holds_blocks blks mp1 w1 B"
    by (rule ownsE [OF mp1(6)])
  obtain mp' where mp': "put_mp_nodes H mp nodes nr w = Inr (mp', fold free (drop k (take (unat nr) nodes)) w1)"
      "mp_ok mp'" "pool mp' = pool mp1 @ take k nodes" "mp_same mp mp'" "slots_at mp' = slots_at mp1"
    using put_mp_nodes_ok [OF mp(1) nodes(2,3) mp1(1-5), folded k_def] mp(2) mp1(3) by (auto simp: uses_def)
  have k: "take k nodes = map Some (take k cs)" "drop k (take (unat nr) nodes) = map Some (drop k cs)"
  proof -
    have "take k nodes = take k (take (unat nr) nodes)" by (simp add: k_def)
    then show "take k nodes = map Some (take k cs)" unfolding nodes(1) by (simp add: take_map)
    show "drop k (take (unat nr) nodes) = map Some (drop k cs)" unfolding nodes(1) by (simp add: drop_map)
  qed
  have sets: "set cs = set (take k cs) \<union> set (drop k cs)" "set (take k cs) \<inter> set (drop k cs) = {}"
    using cs(1) by (metis append_take_drop_id set_append) (simp add: set_take_disj_set_drop_if_distinct cs(1))
  have dr: "distinct (drop k cs)" "set (drop k cs) \<subseteq> out w1" using cs ns sets by auto
  have "sound (fold free (map Some (drop k cs)) w1) \<and> out (fold free (map Some (drop k cs)) w1) = out w1 - set (drop k cs)"
    by (rule free_all [OF sw dr])
  moreover have "blks (fold free (map Some (drop k cs)) w1) = blks w1" by (rule free_all_blks [OF sw dr])
  moreover have "self mp' = self mp1" using mp'(4) mp1(4) by (simp add: mp_same_def)
  then have "holds_blocks blks mp' (fold free (map Some (drop k cs)) w1) B"
    by (intro holds_blocks_cong [OF hb]) (simp_all add: calculation mp'(5))
  moreover have "pool mp' = map Some (ns @ take k cs)" using mp'(3) ns(1) k(1) by simp
  moreover have "distinct (ns @ take k cs)" using ns cs sets by auto
  moreover have "out w1 - set (drop k cs) = set (ns @ take k cs) \<union> (C - set cs)"
    "set (ns @ take k cs) \<inter> (C - set cs) = {}"
    using ns(3,4) cs(2) sets by auto
  ultimately have "owns sound out blks mp' (fold free (map Some (drop k cs)) w1) (C - set cs) B"
    by (intro ownsI [of _ _ _ "ns @ take k cs"]) simp_all
  then show ?thesis using mp'(1,2,4) k(2) uses_same [OF mp'(4) mp(2)] by auto
qed

text \<open>Handing back what a failed request had gathered.\<close>

lemma clean_owns:
  "mp_ok mp \<Longrightarrow> uses mp alloc free \<Longrightarrow> owns sound out blks mp w (C \<union> set cs) B \<Longrightarrow>
   distinct cs \<Longrightarrow> set cs \<inter> C = {} \<Longrightarrow> nodes = replicate i None @ map Some cs @ None # rest \<Longrightarrow>
   length cs < k \<Longrightarrow>
   \<exists>mp' w'. clean_node_list H mp nodes i k w = Inr (mp', replicate (i + length cs) None @ None # rest, w')
     \<and> mp_ok mp' \<and> uses mp' alloc free \<and> owns sound out blks mp' w' C B"
proof (induction cs arbitrary: mp w nodes i k)
  case Nil
  then obtain k' where "k = Suc k'" by (cases k) auto
  moreover have "mem_slice nodes i (Suc 0) = Inr [None]"
    using Nil.prems(6) mem_slice_one [of i nodes] by (simp add: nth_append)
  ultimately show ?case using Nil.prems by simp
next
  case (Cons c cs)
  then obtain k' where k': "k = Suc k'" "length cs < k'" by (cases k) auto
  have s: "mem_slice nodes i 1 = Inr [Some c]"
    using Cons.prems(6) mem_slice_one [of i nodes] by (simp add: nth_append)
  have C: "C \<union> set (c # cs) - set [c] = C \<union> set cs" using Cons.prems(4,5) by auto
  obtain mp1 w1 where mp1: "put_mp_nodes H mp [Some c] 1 w = Inr (mp1, w1)" "mp_ok mp1"
      "uses mp1 alloc free" "owns sound out blks mp1 w1 (C \<union> set cs) B"
    using put_owns [OF Cons.prems(1,2,3), of 1 "[Some c]" "[c]"] unfolding C by auto
  have upd: "nodes[i := None] = replicate (i + 1) None @ map Some cs @ None # rest"
    using Cons.prems(6) by (simp add: list_update_append replicate_append_same [symmetric])
  obtain mp' w' where "clean_node_list H mp1 (nodes[i := None]) (i + 1) k' w1
        = Inr (mp', replicate (i + 1 + length cs) None @ None # rest, w')"
      "mp_ok mp'" "uses mp' alloc free" "owns sound out blks mp' w' C B"
    using Cons.IH [OF mp1(2-4) _ _ upd k'(2)] Cons.prems(4,5) by auto
  then show ?case using k'(1) s mp1(1) by auto
qed

lemma resrv_owns:
  assumes mp: "mp_ok mp" "uses mp alloc free" and own: "owns sound out blks mp w C B"
  shows "get_resrv_node mp = Inr (None, mp)
    \<or> (\<exists>n mp'. get_resrv_node mp = Inr (Some n, mp') \<and> mp_ok mp' \<and> uses mp' alloc free
        \<and> owns sound out blks mp' w (insert n C) B \<and> n \<notin> C)"
proof (cases "freeCnt mp = 0")
  case True
  then show ?thesis by (simp add: get_resrv_node_def)
next
  case False
  have sh: "mp_shape mp" by (rule mp_ok_shape [OF mp(1)])
  note r = remove_element_ok [OF sh False]
  obtain ns where ns: "pool mp = map Some ns" "distinct ns" "out w = set ns \<union> C" "set ns \<inter> C = {}" and sw: "sound w"
    and hb: "holds_blocks blks mp w B"
    by (rule ownsE [OF own])
  have ne: "ns \<noteq> []" using r(4) ns(1) by auto
  define ms n where "ms = butlast ns" and "n = last ns"
  then have split: "ns = ms @ [n]" using ne by simp
  let ?mp = "mp\<lparr>freeCnt := freeCnt mp - 1\<rparr>"
  have "\<not> sint (freeCnt mp) \<le> 0" using mp_shape_cmp(3) [OF sh] False by (simp add: word_unat_eq_iff)
  then have "get_resrv_node mp = Inr (Some n, ?mp)"
    using r(1) ns(1) by (simp add: get_resrv_node_def split)
  moreover have "owns sound out blks ?mp w (insert n C) B"
    using r(2) ns sw holds_blocks_cong [OF hb refl, of ?mp] by (intro ownsI [of _ _ _ ms]) (auto simp: split)
  moreover have "mp_ok ?mp" using r(3,5) mp(1) by (auto simp: mp_ok_def)
  moreover have "uses ?mp alloc free" using mp(2) by (simp add: uses_def)
  moreover have "n \<notin> C" using ns(4) by (auto simp: split)
  ultimately show ?thesis by blast
qed

lemma get_loop_owns:
  "mp_ok mp \<Longrightarrow> uses mp alloc free \<Longrightarrow> owns sound out blks mp w (C \<union> set cs) B \<Longrightarrow>
   distinct cs \<Longrightarrow> set cs \<inter> C = {} \<Longrightarrow> nodes = map Some cs @ replicate k None @ rest \<Longrightarrow>
   unat nr = length cs + k \<Longrightarrow> idx = length cs \<Longrightarrow>
   \<exists>r mp' nodes' w'. get_loop H mp nodes nr idx k w = Inr (r, mp', nodes', w') \<and> mp_ok mp' \<and> uses mp' alloc free
     \<and> (r = MP_OK \<and> (\<exists>ds. nodes' = map Some ds @ rest \<and> length ds = unat nr \<and> distinct ds
            \<and> set ds \<inter> C = {} \<and> owns sound out blks mp' w' (C \<union> set ds) B)
        \<or> r = SPG_ERR \<and> nodes' = replicate (unat nr) None @ rest \<and> owns sound out blks mp' w' C B)"
proof (induction k arbitrary: mp w cs nodes idx)
  case 0
  then show ?case by (intro exI) auto
next
  case (Suc k)
  have st: "mem_store nodes idx [Some n] = Inr (map Some (cs @ [n]) @ replicate k None @ rest)" for n
    using Suc.prems(6,8) mem_store_middle [of "[Some n]" "[None]" "map Some cs" "replicate k None @ rest"] by simp
  have go: "\<exists>r mp' nodes' w'. get_loop H mp1 (map Some (cs @ [n]) @ replicate k None @ rest) nr (idx + 1) k w1
        = Inr (r, mp', nodes', w') \<and> mp_ok mp' \<and> uses mp' alloc free
      \<and> (r = MP_OK \<and> (\<exists>ds. nodes' = map Some ds @ rest \<and> length ds = unat nr \<and> distinct ds
            \<and> set ds \<inter> C = {} \<and> owns sound out blks mp' w' (C \<union> set ds) B)
        \<or> r = SPG_ERR \<and> nodes' = replicate (unat nr) None @ rest \<and> owns sound out blks mp' w' C B)"
    if "mp_ok mp1" "uses mp1 alloc free" "owns sound out blks mp1 w1 (insert n (C \<union> set cs)) B" "n \<notin> C \<union> set cs" for mp1 w1 n
    by (rule Suc.IH [of mp1 w1 "cs @ [n]"]) (use Suc.prems that in auto)
  obtain tmp w1 where al: "alloc_fn mp w = (tmp, w1)" by fastforce
  have al': "alloc w = (tmp, w1)" using al Suc.prems(2) by (simp add: uses_def)
  show ?case
  proof (cases tmp)
    case (Some n)
    have "sound w" using Suc.prems(3) by (simp add: owns_def)
    then have n: "n \<notin> out w" "out w1 = insert n (out w)" "sound w1" using alloc_some al' Some by blast+
    have own1: "owns sound out blks mp w1 (insert n (C \<union> set cs)) B" "n \<notin> C \<union> set cs"
      using owns_fresh [OF Suc.prems(3) n(3,1,2) alloc_blks [OF \<open>sound w\<close> al']] by (auto simp: insert_commute)
    show ?thesis using go [OF Suc.prems(1,2) own1] al Some st by simp
  next
    case None
    then have own1: "owns sound out blks mp w1 (C \<union> set cs) B"
      using alloc_none al' Suc.prems(3) alloc_blks [OF _ al'] by (auto simp: owns_def holds_blocks_def)
    from resrv_owns [OF Suc.prems(1,2) own1] show ?thesis
    proof (elim disjE exE conjE)
      assume res: "get_resrv_node mp = Inr (None, mp)"
      have nodes: "nodes = replicate 0 None @ map Some cs @ None # replicate k None @ rest"
        using Suc.prems(6) by simp
      have "length cs < unat nr" using Suc.prems(7) by simp
      from clean_owns [OF Suc.prems(1,2) own1 Suc.prems(4,5) nodes this]
      obtain mp' w' where "clean_node_list H mp nodes 0 (unat nr) w1
            = Inr (mp', replicate (length cs) None @ None # replicate k None @ rest, w')"
          "mp_ok mp'" "uses mp' alloc free" "owns sound out blks mp' w' C B"
        by auto
      moreover have "replicate (length cs) None @ None # replicate k None @ rest = replicate (unat nr) None @ rest"
        using Suc.prems(7) by (simp add: replicate_add replicate_app_Cons_same)
      ultimately show ?thesis using al None res by auto
    next
      fix n mp1
      assume "get_resrv_node mp = Inr (Some n, mp1)" "mp_ok mp1" "uses mp1 alloc free"
        "owns sound out blks mp1 w1 (insert n (C \<union> set cs)) B" "n \<notin> C \<union> set cs"
      then show ?thesis using go [of mp1 w1 n] al None st by simp
    qed
  qed
qed

lemma drain_owns:
  assumes "mp_shape mp" "uses mp alloc free" "owns sound out blks mp w C B"
  shows "\<exists>w'. destroy_mp H mp w = Inr w' \<and> sound w' \<and> out w' = C \<and> blks w' = B"
proof -
  obtain ns where ns: "pool mp = map Some ns" "distinct ns" "out w = set ns \<union> C" "set ns \<inter> C = {}" and sw: "sound w"
    and hb: "holds_blocks blks mp w B"
    by (rule ownsE [OF assms(3)])
  obtain mp' where d: "drain mp w = Inr (mp', fold free (rev (pool mp)) w)" "self mp' = self mp" "slots_at mp' = slots_at mp"
    using drain_ok [OF assms(1)] assms(2) by (auto simp: uses_def)
  let ?w = "fold free (map Some (rev ns)) w"
  have dr: "distinct (rev ns)" "set (rev ns) \<subseteq> out w" using ns by auto
  have w: "sound ?w" "out ?w = C" "blks ?w = blks w"
    using free_all [OF sw dr] free_all_blks [OF sw dr] ns(3,4) by auto
  obtain w1 where w1: "sfree_block H (slots_at mp) ?w = Inr w1" "sound w1" "out w1 = C" "blks w1 = blks w - {slots_at mp}"
    using sfree_mem [OF w(1), of "slots_at mp"] w hb by (auto simp: holds_blocks_def)
  obtain w2 where "sfree_block H (self mp) w1 = Inr w2" "sound w2" "out w2 = C" "blks w2 = blks w1 - {self mp}"
    using sfree_mem [OF w1(2), of "self mp"] w1 hb by (auto simp: holds_blocks_def)
  moreover have "blks w - {slots_at mp} - {self mp} = B" using hb by (auto simp: holds_blocks_def)
  ultimately show ?thesis using d ns(1) w1 by (simp add: destroy_mp_def rev_map [symmetric])
qed

text \<open>Lowering the number of free nodes to a water-level.\<close>

lemma take_owns:
  assumes own: "owns sound out blks mp w C B"
    and mp': "free_fn mp = free" "pool mp' = take k (pool mp)" "self mp' = self mp" "slots_at mp' = slots_at mp"
  shows "owns sound out blks mp' (fold (free_fn mp) (rev (drop k (pool mp))) w) C B"
proof -
  obtain ns where ns: "pool mp = map Some ns" "distinct ns" "out w = set ns \<union> C" "set ns \<inter> C = {}" and sw: "sound w"
    and hb: "holds_blocks blks mp w B"
    by (rule ownsE [OF own])
  have sets: "set ns = set (take k ns) \<union> set (drop k ns)" "set (take k ns) \<inter> set (drop k ns) = {}"
    using ns(2) by (metis append_take_drop_id set_append) (simp add: set_take_disj_set_drop_if_distinct ns(2))
  have dr: "distinct (rev (drop k ns))" "set (rev (drop k ns)) \<subseteq> out w" using ns by (auto dest: in_set_dropD)
  note f = free_all [OF sw dr] free_all_blks [OF sw dr]
  have "holds_blocks blks mp' (fold free (map Some (rev (drop k ns))) w) B"
    by (rule holds_blocks_cong [OF hb f(2) mp'(3,4)])
  then show ?thesis
    using ns mp'(1,2) f(1) sets by (intro ownsI [of _ _ _ "take k ns"]) (auto simp: take_map drop_map rev_map [symmetric])
qed

lemma fill_owns:
  "G = H \<Longrightarrow> mp_ok mp \<Longrightarrow> uses mp alloc free \<Longrightarrow> owns sound out blks mp w C B \<Longrightarrow>
   \<exists>r w'. fill G mp w = Inr (r, w') \<and> (case r of None \<Rightarrow> sound w' \<and> out w' = C \<and> blks w' = B
     | Some mp' \<Rightarrow> mp_ok mp' \<and> uses mp' alloc free \<and> owns sound out blks mp' w' C B \<and> unat (freeCnt mp') = level mp'
         \<and> wl mp' = wl mp \<and> syswl mp' = syswl mp)"
proof (induction G mp w rule: fill.induct)
  case (1 G mp w)
  have sh: "mp_shape mp" by (rule mp_ok_shape [OF "1.prems"(2)])
  note cmp = mp_shape_cmp [OF sh]
  show ?case
  proof (cases "unat (freeCnt mp) < level mp")
    case False
    then have "unat (freeCnt mp) = level mp" using "1.prems"(2) by (simp add: mp_ok_def)
    then show ?thesis using "1.prems" cmp by (subst fill.simps) simp
  next
    case True
    then have g: "sint (freeCnt mp) < sint (wl mp ! unat (syswl mp))" using cmp by simp
    obtain tmp w1 where al: "alloc_fn mp w = (tmp, w1)" by fastforce
    have al': "alloc w = (tmp, w1)" using al "1.prems"(3) by (simp add: uses_def)
    show ?thesis
    proof (cases tmp)
      case None
      then have "owns sound out blks mp w1 C B" using alloc_none al' "1.prems"(4) alloc_blks [OF _ al'] by (auto simp: owns_def holds_blocks_def)
      from drain_owns [OF sh "1.prems"(3) this] "1.prems"(1) show ?thesis
        using g cmp(1) al None by (subst fill.simps) auto
    next
      case (Some n)
      have "sound w" using "1.prems"(4) by (simp add: owns_def)
      then have n: "n \<notin> out w" "out w1 = insert n (out w)" "sound w1" using alloc_some al' Some by blast+
      have "unat (freeCnt mp) < unat (slotCnt mp)" using True "1.prems"(2) by (simp add: mp_ok_def)
      from add_element_ok [OF sh True this, of tmp] obtain mp1 where
        mp1: "add_element mp tmp = Inr mp1" "pool mp1 = pool mp @ [tmp]" "mp_same mp mp1" "mp_shape mp1"
          "slotCnt mp1 = slotCnt mp" "slots_at mp1 = slots_at mp" "unat (freeCnt mp1) = Suc (unat (freeCnt mp))" by blast
      have ok: "mp_ok mp1"
        using mp1 True "1.prems"(2) mp_same_level [OF mp1(3)] by (simp add: mp_ok_def)
      have "owns sound out blks mp1 w1 C B"
      proof (rule ownsE [OF "1.prems"(4)])
        fix ns assume ns: "pool mp = map Some ns" "distinct ns" "out w = set ns \<union> C" "set ns \<inter> C = {}" "holds_blocks blks mp w B"
        have "self mp1 = self mp" using mp1(3) by (simp add: mp_same_def)
        from holds_blocks_cong [OF ns(5) alloc_blks [OF \<open>sound w\<close> al'] this mp1(6)] have "holds_blocks blks mp1 w1 B" .
        then show ?thesis using n Some mp1(2) ns by (intro ownsI [of _ _ _ "ns @ [n]"]) auto
      qed
      have "tmp \<noteq> None" using Some by simp
      from "1.IH" [OF cmp(1) g al [symmetric] refl this mp1(1) "1.prems"(1) ok uses_same [OF mp1(3) "1.prems"(3)] \<open>owns sound out blks mp1 w1 C B\<close>]
      obtain r w' where rw: "fill G mp1 w1 = Inr (r, w')" "case r of None \<Rightarrow> sound w' \<and> out w' = C \<and> blks w' = B
          | Some mp' \<Rightarrow> mp_ok mp' \<and> uses mp' alloc free \<and> owns sound out blks mp' w' C B \<and> unat (freeCnt mp') = level mp'
             \<and> wl mp' = wl mp1 \<and> syswl mp' = syswl mp1" by blast
      have "fill G mp w = Inr (r, w')"
        using g cmp(1) al mp1(1) rw(1) Some by (subst fill.simps) simp
      then show ?thesis
        using rw(2) mp1(3) by (intro exI [of _ r] exI [of _ w']) (auto simp: mp_same_def split: option.splits)
    qed
  qed
qed

end


text \<open>Callbacks on a heap of numbered blocks, and a source that can run dry.\<close>

record unit_heap =
  brk :: nat
  room :: nat
  blocks :: "(nat \<times> s32 list) list"
  raw :: "nat list"

definition demo_alloc :: "unit_heap \<Rightarrow> nat option \<times> unit_heap" where
  "demo_alloc h = (Some (brk h), h\<lparr>brk := brk h + 1, blocks := (brk h, map of_nat [0..<100]) # blocks h\<rparr>)"

definition demo_free :: "nat option \<Rightarrow> unit_heap \<Rightarrow> unit_heap" where
  "demo_free element h =
     (case element of None \<Rightarrow> h
      | Some la \<Rightarrow> h\<lparr>room := room h + 1, blocks := filter (\<lambda>(a, b). a \<noteq> la) (blocks h)\<rparr>)"

definition unit_out :: "unit_heap \<Rightarrow> nat set" where
  "unit_out h = fst ` set (blocks h)"

definition unit_sound :: "unit_heap \<Rightarrow> bool" where
  "unit_sound h \<longleftrightarrow> (\<forall>a\<in>unit_out h \<union> set (raw h). a < brk h) \<and> distinct (raw h)"

definition alloc_room :: "unit_heap \<Rightarrow> nat option \<times> unit_heap" where
  "alloc_room h = (if room h = 0 then (None, h) else demo_alloc (h\<lparr>room := room h - 1\<rparr>))"

text \<open>An allocator that always finds a block.\<close>

definition raw_slots :: "u64 \<Rightarrow> unit_heap \<Rightarrow> fault + (nat \<times> nat option list) option \<times> unit_heap" where
  "raw_slots n h = Inr (Some (brk h, replicate (unat n div 8) None), h\<lparr>brk := brk h + 1, raw := brk h # raw h\<rparr>)"

definition raw_free :: "nat \<Rightarrow> unit_heap \<Rightarrow> fault + unit_heap" where
  "raw_free p h = (if p \<in> set (raw h) then Inr (h\<lparr>raw := remove1 p (raw h)\<rparr>) else Inl Invalid_Free)"

definition raw_mem :: "(nat, unit_heap) slot_mem" where
  "raw_mem = \<lparr>smalloc_slots = raw_slots, scalloc_slots = raw_slots,
     scalloc_struct = (\<lambda>n h. Inr (Some (brk h), h\<lparr>brk := brk h + 1, raw := brk h # raw h\<rparr>)), sfree_block = raw_free\<rparr>"

abbreviation unit_blks :: "unit_heap \<Rightarrow> nat set" where
  "unit_blks h \<equiv> set (raw h)"

interpretation room_client: pool_client alloc_room demo_free unit_sound unit_out raw_mem unit_blks
  by unfold_locales
    (auto simp: alloc_room_def demo_alloc_def demo_free_def unit_out_def unit_sound_def raw_mem_def raw_slots_def raw_free_def
      intro: less_SucI dest: notin_set_remove1 split: if_splits option.splits)

section \<open>Properties\<close>

text \<open>C15. Putting nodes the client holds, each once and fewer than 2 to the power 31, into a pool whose current water-level is
  not above its slots never faults: the pool fills up to its water-level, the rest is freed, every node that is out is in
  the pool or still with the client, once, and the allocator's blocks are still the struct, one slot array
  and those of others, also where the slot array was exchanged. create_mp makes such pools and
  the operations keep them so; raising a level above the slots does not (theorem mp_raise_overread).\<close>

theorem mp_put_conserves:
  assumes "pool_client alloc free sound out H blks" and "mp_ok mp" and "uses mp alloc free"
    and "owns sound out blks mp w C B" and "take (unat nr) nodes = map Some cs" and "unat nr \<le> length nodes"
    and "unat nr < 2 ^ 31" and "distinct cs" and "set cs \<subseteq> C"
  shows "\<exists>mp' w'. put_mp_nodes H mp nodes nr w = Inr (mp', w') \<and> mp_ok mp' \<and> uses mp' alloc free
    \<and> owns sound out blks mp' w' (C - set cs) B"
  using pool_client.put_owns [OF assms] by blast

text \<open>C32. A request with an array whose entries the caller has cleared, on a pool whose current water-level
  is not above its slots, either answers SPG_OK with that many distinct nodes, none of them held before, or
  SPG_ERR with the array cleared again; no node is lost or handed out twice in either case, and no
  block of the allocator. With an array that is not cleared a request that fails takes what is in it for
  nodes (theorem mp_get_pools_stale).\<close>

theorem mp_get_conserves:
  assumes "pool_client alloc free sound out H blks" and "mp_ok mp" and "uses mp alloc free"
    and "owns sound out blks mp w C B"
  shows "\<exists>r mp' nodes' w'. get_mp_nodes H mp (replicate (unat nr) None @ rest) nr w = Inr (r, mp', nodes', w')
    \<and> mp_ok mp' \<and> uses mp' alloc free
    \<and> (r = MP_OK \<and> (\<exists>ds. nodes' = map Some ds @ rest \<and> length ds = unat nr \<and> distinct ds
           \<and> set ds \<inter> C = {} \<and> owns sound out blks mp' w' (C \<union> set ds) B)
       \<or> r = SPG_ERR \<and> nodes' = replicate (unat nr) None @ rest \<and> owns sound out blks mp' w' C B)"
  unfolding get_mp_nodes_def
  by (rule pool_client.get_loop_owns [OF assms(1-3), where cs = "[]"]) (use assms(4) in simp_all)

lemma create_owns:
  assumes client: "pool_client alloc free sound out H blks" and low: "unat low_nr < 2 ^ 31" and w: "sound w"
  shows "\<exists>r w'. create_mp H low_nr mid_nr hig_nr alloc free w = Inr (r, w')
    \<and> (case r of None \<Rightarrow> sound w' \<and> out w' = out w \<and> blks w' = blks w
       | Some mp \<Rightarrow> mp_ok mp \<and> uses mp alloc free \<and> owns sound out blks mp w' (out w) (blks w) \<and> length (pool mp) = unat low_nr
           \<and> wl mp = [low_nr, mid_nr, hig_nr] \<and> syswl mp = 0)"
proof -
  have "unat sizeof_mempool < 2 ^ 34" by (simp add: sizeof_mempool_def)
  from pool_client.struct_mem [OF client w this] obtain s w1 where
    s: "scalloc_struct H sizeof_mempool w = Inr (s, w1)" "sound w1" "out w1 = out w"
      "case s of None \<Rightarrow> blks w1 = blks w | Some p \<Rightarrow> p \<notin> blks w \<and> blks w1 = insert p (blks w)" by blast
  show ?thesis
  proof (cases s)
    case None
    then show ?thesis using s by (simp add: create_mp_def)
  next
    case (Some a)
    have a: "a \<notin> blks w" "blks w1 = insert a (blks w)" using s(4) Some by simp_all
    have sz: "unat (8 * scast low_nr :: u64) div 8 = unat low_nr" using slots_size [OF low] by (simp add: mult.commute)
    then have "unat (8 * scast low_nr :: u64) < 2 ^ 34" using low by simp
    from pool_client.slots_mem [OF client s(2) this, of "scalloc_slots H", unfolded sz] obtain r w2 where
      r: "scalloc_slots H (8 * scast low_nr) w1 = Inr (r, w2)" "sound w2" "out w2 = out w1" "case r of None \<Rightarrow> blks w2 = blks w1
        | Some (p, b) \<Rightarrow> length b = unat low_nr \<and> p \<notin> blks w1 \<and> blks w2 = insert p (blks w1)" by blast
    show ?thesis
    proof (cases r)
      case None
      then have "a \<in> blks w2" using r(4) a(2) by simp
      from pool_client.sfree_mem [OF client r(2) this] obtain w3 where
        "sfree_block H a w2 = Inr w3" "sound w3" "out w3 = out w2" "blks w3 = blks w2 - {a}" by blast
      then show ?thesis using s r None Some a by (simp add: create_mp_def)
    next
      case (Some pb)
      obtain p b where pb: "pb = (p, b)" by (cases pb)
      have p: "length b = unat low_nr" "p \<notin> blks w1" "blks w2 = insert p (blks w1)" using r(4) Some pb by simp_all
      let ?mp = "\<lparr>self = a, wl = [low_nr, mid_nr, hig_nr], syswl = SM_LVL_LOW, freeCnt = 0,
        slotCnt = low_nr, slots_at = p, freeNode = b, alloc_fn = alloc, free_fn = free\<rparr>"
      have ok: "mp_ok ?mp" using low p(1) by (simp add: mp_ok_def mp_shape_def level_def SM_LVL_LOW_def)
      have u: "uses ?mp alloc free" by (simp add: uses_def)
      have "holds_blocks blks ?mp w2 (blks w)" using p a by (auto simp: holds_blocks_def)
      then have own: "owns sound out blks ?mp w2 (out w) (blks w)"
        using r(2,3) s(3) by (intro ownsI [of _ _ _ "[]"]) (simp_all add: pool_def)
      from pool_client.fill_owns [OF client refl ok u own] obtain f w' where f: "fill H ?mp w2 = Inr (f, w')"
          "case f of None \<Rightarrow> sound w' \<and> out w' = out w \<and> blks w' = blks w
           | Some mp' \<Rightarrow> mp_ok mp' \<and> uses mp' alloc free \<and> owns sound out blks mp' w' (out w) (blks w) \<and> unat (freeCnt mp') = level mp'
              \<and> wl mp' = wl ?mp \<and> syswl mp' = syswl ?mp"
        by blast
      have "create_mp H low_nr mid_nr hig_nr alloc free w = Inr (f, w')"
        using s(1) \<open>s = Some a\<close> r(1) Some pb f(1) by (simp add: create_mp_def)
      moreover have "length (pool mp') = unat low_nr" if "f = Some mp'" for mp'
        using f(2) that length_pool [of mp'] by (simp add: mp_ok_shape level_def SM_LVL_LOW_def)
      ultimately show ?thesis using f(2) by (intro exI [of _ f] exI [of _ w']) (auto simp: SM_LVL_LOW_def split: option.splits)
    qed
  qed
qed

text \<open>C35. For a low level that is not negative create_mp either gives a sound pool filled to its low water-level with nodes of its
  own, or NULL with every node it had allocated freed again and its struct and slot array given back to
  the allocator. destroy_mp, on a pool that has just been made and at any later time, frees the nodes
  the pool holds and gives back its struct and its slot array: nothing else is left, and nothing of others is touched.\<close>

theorem mp_create_destroy:
  assumes client: "pool_client alloc free sound out H blks" and low: "unat low_nr < 2 ^ 31" and w: "sound w"
  shows "(\<exists>r w'. create_mp H low_nr mid_nr hig_nr alloc free w = Inr (r, w')
    \<and> (case r of None \<Rightarrow> sound w' \<and> out w' = out w \<and> blks w' = blks w
       | Some mp \<Rightarrow> mp_ok mp \<and> uses mp alloc free \<and> owns sound out blks mp w' (out w) (blks w) \<and> length (pool mp) = unat low_nr
           \<and> (\<exists>w''. destroy_mp H mp w' = Inr w'' \<and> sound w'' \<and> out w'' = out w \<and> blks w'' = blks w)))
    \<and> (mp_shape p \<and> uses p alloc free \<and> owns sound out blks p v C B \<longrightarrow>
       (\<exists>v'. destroy_mp H p v = Inr v' \<and> sound v' \<and> out v' = C \<and> blks v' = B))"
proof -
  obtain r w' where r: "create_mp H low_nr mid_nr hig_nr alloc free w = Inr (r, w')"
      "case r of None \<Rightarrow> sound w' \<and> out w' = out w \<and> blks w' = blks w
       | Some mp \<Rightarrow> mp_ok mp \<and> uses mp alloc free \<and> owns sound out blks mp w' (out w) (blks w) \<and> length (pool mp) = unat low_nr
           \<and> wl mp = [low_nr, mid_nr, hig_nr] \<and> syswl mp = 0"
    using create_owns [OF assms] by blast
  have "\<exists>w''. destroy_mp H mp w' = Inr w'' \<and> sound w'' \<and> out w'' = out w \<and> blks w'' = blks w" if "r = Some mp" for mp
    using r(2) that pool_client.drain_owns [OF client, of mp w' "out w" "blks w"] by (simp add: mp_ok_shape)
  then show ?thesis
    using r pool_client.drain_owns [OF client, of p v C B]
    by (intro conjI exI [of _ r] exI [of _ w']) (auto split: option.splits)
qed

lemma update_syswl_ok:
  assumes "pool_client alloc free sound out H blks" and "mp_ok mp" and "uses mp alloc free"
    and "owns sound out blks mp w C B" and "unat lvl < length (wl mp)" and "unat (wl mp ! unat lvl) \<le> unat (slotCnt mp)"
  shows "\<exists>mp' w'. update_syswl H mp lvl w = Inr (mp', w') \<and> mp_ok mp' \<and> uses mp' alloc free
    \<and> owns sound out blks mp' w' C B \<and> syswl mp' = lvl \<and> pool mp' = take (unat (wl mp ! unat lvl)) (pool mp)"
proof (cases "syswl mp = lvl")
  case True
  then show ?thesis using assms length_pool [of mp]
    by (intro exI [of _ mp] exI [of _ w]) (simp add: update_syswl_def mp_ok_def level_def)
next
  case False
  let ?mp = "mp\<lparr>syswl := lvl\<rparr>" and ?lv = "wl mp ! unat lvl"
  have sh: "mp_shape ?mp" "level ?mp = unat ?lv" and slots: "unat (slotCnt mp) < 2 ^ 31"
    using assms(2,5,6) by (auto simp: mp_ok_def mp_shape_def level_def)
  have same: "pool ?mp = pool mp" "owns sound out blks ?mp w C B" "uses ?mp alloc free"
    using assms(3,4) by (simp_all add: pool_def owns_def holds_blocks_def uses_def)
  note cmp = mp_shape_cmp [OF sh(1)]
  have up: "update_syswl H mp lvl w = (if unat (freeCnt mp) \<le> unat ?lv then Inr (?mp, w)
      else bindE (free_some (unat (freeCnt mp - ?lv)) ?mp w) (\<lambda>(mp, w). resize_mp H mp False w))"
    using False cmp(1,6) sh(2) by (simp add: update_syswl_def Let_def)
  show ?thesis
  proof (cases "unat (freeCnt mp) \<le> unat ?lv")
    case True
    then show ?thesis using up sh same assms(2,6) length_pool [OF sh(1)]
      by (intro exI [of _ ?mp] exI [of _ w]) (simp add: mp_ok_def)
  next
    case False
    then have n: "unat (freeCnt mp - ?lv) = unat (freeCnt mp) - unat ?lv"
      by (subst unat_sub) (simp_all add: word_le_nat_alt)
    obtain mp1 where mp1: "free_some (unat (freeCnt mp - ?lv)) ?mp w
          = Inr (mp1, fold (free_fn ?mp) (rev (drop (unat ?lv) (pool ?mp))) w)"
        "mp_same ?mp mp1" "mp_shape mp1" "pool mp1 = take (unat ?lv) (pool ?mp)"
        "slotCnt mp1 = slotCnt mp" "slots_at mp1 = slots_at mp" "unat (freeCnt mp1) = unat ?lv"
      using free_some_ok [OF sh(1), of "unat (freeCnt mp - ?lv)" w] n False by auto
    have ok1: "mp_ok mp1" using mp1(3,5,7) mp_same_level [OF mp1(2)] sh(2) assms(6) by (simp add: mp_ok_def)
    let ?w = "fold (free_fn ?mp) (rev (drop (unat ?lv) (pool ?mp))) w"
    have "self mp1 = self ?mp" "slots_at mp1 = slots_at ?mp" using mp1(2,6) by (simp_all add: mp_same_def)
    from pool_client.take_owns [OF assms(1) same(2) _ mp1(4) this] same(3)
    have "owns sound out blks mp1 ?w C B" by (simp add: uses_def)
    from pool_client.resize_owns [OF assms(1) ok1 this, of False] obtain mp2 w2 where
      mp2: "resize_mp H mp1 False ?w = Inr (mp2, w2)" "mp_ok mp2" "pool mp2 = pool mp1" "mp_same mp1 mp2" "owns sound out blks mp2 w2 C B" .
    then show ?thesis
      using up False mp1(1,2,4) mp2 same(1) uses_same [OF mp2(4) uses_same [OF mp1(2) same(3)]]
      by (auto simp: mp_same_def)
  qed
qed

lemma update_mpwl_ok:
  assumes "pool_client alloc free sound out H blks" and "mp_ok mp" and "uses mp alloc free"
    and "owns sound out blks mp w C B" and "unat (syswl mp) < 3"
    and "unat ([lwl, mwl, hwl] ! unat (syswl mp)) \<le> unat (slotCnt mp)"
  shows "\<exists>mp' w'. update_mpwl H mp hwl mwl lwl w = Inr (MP_OK, mp', w') \<and> mp_ok mp' \<and> uses mp' alloc free
    \<and> owns sound out blks mp' w' C B \<and> wl mp' = [lwl, mwl, hwl] \<and> syswl mp' = syswl mp
    \<and> pool mp' = take (unat ([lwl, mwl, hwl] ! unat (syswl mp))) (pool mp)"
proof -
  let ?mp = "mp\<lparr>wl := [lwl, mwl, hwl]\<rparr>" and ?lv = "[lwl, mwl, hwl] ! unat (syswl mp)"
  have sh: "mp_shape ?mp" "level ?mp = unat ?lv"
    using assms(2,5,6) by (auto simp: mp_ok_def mp_shape_def level_def)
  have same: "pool ?mp = pool mp" "owns sound out blks ?mp w C B" "uses ?mp alloc free"
    using assms(3,4) by (simp_all add: pool_def owns_def holds_blocks_def uses_def)
  obtain mp1 where mp1: "trim_fnode ?mp w = Inr (mp1, fold (free_fn ?mp) (rev (drop (unat ?lv) (pool ?mp))) w)"
      "mp_same ?mp mp1" "mp_shape mp1" "pool mp1 = take (unat ?lv) (pool ?mp)"
      "slotCnt mp1 = slotCnt mp" "slots_at mp1 = slots_at mp" "unat (freeCnt mp1) = min (unat (freeCnt mp)) (unat ?lv)"
    using trim_fnode_ok [OF sh(1), of w] sh(2) by auto
  have ok1: "mp_ok mp1" using mp1(3,5,7) mp_same_level [OF mp1(2)] sh(2) assms(6) by (simp add: mp_ok_def)
  let ?w = "fold (free_fn ?mp) (rev (drop (unat ?lv) (pool ?mp))) w"
  have "self mp1 = self ?mp" "slots_at mp1 = slots_at ?mp" using mp1(2,6) by (simp_all add: mp_same_def)
  from pool_client.take_owns [OF assms(1) same(2) _ mp1(4) this] same(3)
  have "owns sound out blks mp1 ?w C B" by (simp add: uses_def)
  from pool_client.resize_owns [OF assms(1) ok1 this, of False] obtain mp2 w2 where
    mp2: "resize_mp H mp1 False ?w = Inr (mp2, w2)" "mp_ok mp2" "pool mp2 = pool mp1" "mp_same mp1 mp2" "owns sound out blks mp2 w2 C B" .
  then show ?thesis
    using mp1(1,2,4) mp2 same(1) uses_same [OF mp2(4) uses_same [OF mp1(2) same(3)]]
    by (auto simp: update_mpwl_def mp_same_def)
qed

text \<open>Changing the system level to a level within the slots, or the three water-levels so that
  the current one is within the slots, keeps the pool well formed: it keeps the nodes up to the new level,
  gives the others back to the client's free function, and no node and no block is lost or doubled.\<close>

theorem mp_update_levels_conserve:
  assumes "pool_client alloc free sound out H blks" and "mp_ok mp" and "uses mp alloc free" and "owns sound out blks mp w C B"
  shows "(unat lvl < length (wl mp) \<and> unat (wl mp ! unat lvl) \<le> unat (slotCnt mp) \<longrightarrow>
      (\<exists>mp' w'. update_syswl H mp lvl w = Inr (mp', w') \<and> mp_ok mp' \<and> uses mp' alloc free
        \<and> owns sound out blks mp' w' C B \<and> syswl mp' = lvl \<and> pool mp' = take (unat (wl mp ! unat lvl)) (pool mp)))
    \<and> (unat (syswl mp) < 3 \<and> unat ([lwl, mwl, hwl] ! unat (syswl mp)) \<le> unat (slotCnt mp) \<longrightarrow>
      (\<exists>mp' w'. update_mpwl H mp hwl mwl lwl w = Inr (MP_OK, mp', w') \<and> mp_ok mp' \<and> uses mp' alloc free
        \<and> owns sound out blks mp' w' C B \<and> wl mp' = [lwl, mwl, hwl]
        \<and> pool mp' = take (unat ([lwl, mwl, hwl] ! unat (syswl mp))) (pool mp)))"
  using update_syswl_ok [OF assms] update_mpwl_ok [OF assms] by blast

text \<open>The nodes behind the slots: neither outcome of the smalloc keeps the array large enough.\<close>

lemma add_element_oob:
  assumes "mp_shape mp" "unat (freeCnt mp) = unat (slotCnt mp)" "unat (slotCnt mp) < level mp"
  shows "add_element mp e = Inl Out_Of_Bounds"
  using assms mp_shape_cmp(1,4) [OF assms(1)] by (simp add: add_element_def mp_shape_def)

lemma add_nodes_oob:
  "mp_shape mp \<Longrightarrow> unat (slotCnt mp) < unat (freeCnt mp) + (n - idx) \<Longrightarrow> unat (slotCnt mp) < level mp \<Longrightarrow>
   add_nodes mp nodes idx n = Inl Out_Of_Bounds"
proof (induction mp nodes idx n rule: add_nodes.induct)
  case (1 mp nodes idx n)
  have free: "unat (freeCnt mp) \<le> unat (slotCnt mp)" using "1.prems"(1) by (simp add: mp_shape_def)
  have idx: "idx < n" using free "1.prems"(2) by linarith
  show ?case
  proof (cases "idx < length nodes")
    case False
    then show ?thesis using idx by (simp add: add_nodes.simps [of mp] mem_slice_def)
  next
    case True
    have s: "mem_slice nodes idx 1 = Inr [nodes ! idx]" using mem_slice_one [OF True] by simp
    show ?thesis
    proof (cases "unat (freeCnt mp) = unat (slotCnt mp)")
      case True
      then show ?thesis using idx s add_element_oob [OF "1.prems"(1) True "1.prems"(3)]
        by (simp add: add_nodes.simps [of mp])
    next
      case False
      then have c: "unat (freeCnt mp) < unat (slotCnt mp)" using free by simp
      have c': "unat (freeCnt mp) < level mp" using c "1.prems"(3) by simp
      obtain mp1 where mp1: "add_element mp (nodes ! idx) = Inr mp1" "mp_same mp mp1" "mp_shape mp1"
          "slotCnt mp1 = slotCnt mp" "slots_at mp1 = slots_at mp" "unat (freeCnt mp1) = Suc (unat (freeCnt mp))"
        using add_element_ok [OF "1.prems"(1) c' c, of "nodes ! idx"] by auto
      have "add_nodes mp1 nodes (idx + 1) n = Inl Out_Of_Bounds"
        by (rule "1.IH" [OF idx s _ mp1(3)])
          (use mp1 "1.prems"(2,3) mp_same_level [OF mp1(2)] idx in simp_all)
      then show ?thesis using idx s mp1(1) by (simp add: add_nodes.simps [of mp])
    qed
  qed
qed

lemma put_mp_nodes_oob:
  assumes mp: "mp_shape mp" and sm: "smalloc_slots H (scast (wl mp ! unat (syswl mp)) * 8) w = Inr (r, w1)" and nr: "unat nr < 2 ^ 31"
    and lv: "unat (slotCnt mp) < level mp" and more: "unat (slotCnt mp) < unat (freeCnt mp) + unat nr"
  shows "put_mp_nodes H mp nodes nr w = Inl Out_Of_Bounds"
proof -
  let ?lv = "wl mp ! unat (syswl mp)"
  note cmp = mp_shape_cmp [OF mp]
  have free: "unat (freeCnt mp) \<le> unat (slotCnt mp)" "unat ?lv = level mp" "level mp < 2 ^ 31"
      "length (freeNode mp) = unat (slotCnt mp)"
    using mp by (simp_all add: mp_shape_def level_def)
  have sum: "unat (freeCnt mp + nr) = unat (freeCnt mp) + unat nr"
    using free nr lv by (intro unat_add_no_wrap) simp
  have go: "freeCnt mp + nr > slotCnt mp" using sum more by (simp add: word_less_nat_alt)
  show ?thesis
  proof (cases r)
    case (Some a)
    have "mem_slice (freeNode mp) 0 (unat (scast ?lv * 8 :: u64) div 8) = Inl Out_Of_Bounds"
      using slots_size [of ?lv] free lv by (simp add: mem_slice_def)
    then have "resize_mp H mp True w = Inl Out_Of_Bounds"
      unfolding resize_mp_def cmp(1) using cmp(5) free lv Some sm by (simp split: prod.splits)
    then show ?thesis using go cmp(1) by (simp add: put_mp_nodes_def)
  next
    case None
    then have r: "resize_mp H mp True w = Inr (mp, w1)"
      unfolding resize_mp_def cmp(1) using cmp(5) free lv sm by simp
    have "unat (?lv - freeCnt mp) = level mp - unat (freeCnt mp)"
      using free lv by (subst unat_sub) (simp_all add: word_le_nat_alt)
    then have cnt: "nat (sint (?lv - freeCnt mp)) = level mp - unat (freeCnt mp)"
      using sint_small [of "?lv - freeCnt mp"] free by simp
    have "add_nodes mp nodes 0 (unat nr) = Inl Out_Of_Bounds"
      "add_nodes mp nodes 0 (level mp - unat (freeCnt mp)) = Inl Out_Of_Bounds"
      using free lv more by (auto intro!: add_nodes_oob [OF mp])
    then show ?thesis using go r cmp(1) cnt by (simp add: put_mp_nodes_def Let_def)
  qed
qed

text \<open>Raising a water-level above the slots never enlarges them: the resize that the next
  put beyond the slots makes copies that many entries from the smaller old array, an
  over-read, and when its smalloc fails the put itself writes behind the array.\<close>

theorem mp_raise_overread:
  assumes "mp_ok mp" and "unat (syswl mp) < 3"
    and "unat (slotCnt mp) < unat ([lwl, mwl, hwl] ! unat (syswl mp))"
    and "unat ([lwl, mwl, hwl] ! unat (syswl mp)) < 2 ^ 31" and "unat nr < 2 ^ 31"
    and "unat (slotCnt mp) < unat (freeCnt mp) + unat nr"
    and "smalloc_slots H (scast ([lwl, mwl, hwl] ! unat (syswl mp)) * 8) w' = Inr (r, w1)"
  shows "\<exists>mp'. update_mpwl H mp hwl mwl lwl w = Inr (MP_OK, mp', w) \<and> pool mp' = pool mp
    \<and> put_mp_nodes H mp' nodes nr w' = Inl Out_Of_Bounds"
proof -
  let ?mp = "mp\<lparr>wl := [lwl, mwl, hwl]\<rparr>"
  have sh: "mp_shape ?mp" "level ?mp = unat ([lwl, mwl, hwl] ! unat (syswl mp))"
    using assms(1,2,4) by (auto simp: mp_ok_def mp_shape_def level_def)
  note cmp = mp_shape_cmp [OF sh(1)]
  have "unat (freeCnt mp) \<le> unat (slotCnt mp)" using assms(1) by (simp add: mp_ok_def mp_shape_def)
  then have t: "trim_fnode ?mp w = Inr (?mp, w)"
    using cmp(1,5) sh(2) assms(3) by (simp add: trim_fnode.simps [of ?mp])
  have r: "resize_mp H ?mp False w = Inr (?mp, w)"
    using cmp(1,7) sh(2) assms(3) by (simp add: resize_mp_def)
  have "put_mp_nodes H ?mp nodes nr w' = Inl Out_Of_Bounds"
    by (rule put_mp_nodes_oob [OF sh(1) _ assms(5)]) (use sh(2) assms(3,6,7) in simp_all)
  then show ?thesis using t r by (intro exI [of _ ?mp]) (simp add: update_mpwl_def pool_def)
qed

lemma clean_stale:
  "mp_ok mp \<Longrightarrow> length cs + unat (freeCnt mp) \<le> level mp \<Longrightarrow>
   nodes = replicate i None @ map Some cs \<Longrightarrow>
   \<exists>mp'. clean_node_list H mp nodes i (length cs) w = Inr (mp', replicate (i + length cs) None, w)
     \<and> mp_ok mp' \<and> pool mp' = pool mp @ map Some cs"
proof (induction cs arbitrary: mp nodes i)
  case Nil
  then show ?case by simp
next
  case (Cons c cs)
  have s: "mem_slice nodes i 1 = Inr [Some c]"
    using Cons.prems(3) mem_slice_one [of i nodes] by (simp add: nth_append)
  have "unat (freeCnt mp) < unat (slotCnt mp)" using Cons.prems(1,2) by (simp add: mp_ok_def)
  then have "unat (freeCnt mp + 1) \<le> unat (slotCnt mp)" by (simp add: unat_Suc_less word_less_nat_alt)
  then have fit: "(if freeCnt mp + 1 > slotCnt mp then resize_mp H mp True w else Inr (mp, w)) = Inr (mp, w)"
    by (simp add: word_less_nat_alt not_less)
  obtain mp1 where mp1: "put_mp_nodes H mp [Some c] 1 w = Inr (mp1, w)" "mp_ok mp1"
      "pool mp1 = pool mp @ [Some c]" "mp_same mp mp1"
    using put_mp_nodes_ok [OF Cons.prems(1) _ _ fit Cons.prems(1), of "[Some c]"] Cons.prems(2) by auto
  have "unat (freeCnt mp1) = Suc (unat (freeCnt mp))"
    using mp1(3) length_pool [OF mp_ok_shape [OF mp1(2)]] length_pool [OF mp_ok_shape [OF Cons.prems(1)]] by simp
  moreover have "nodes[i := None] = replicate (i + 1) None @ map Some cs"
    using Cons.prems(3) by (simp add: list_update_append replicate_append_same [symmetric])
  ultimately obtain mp' where "clean_node_list H mp1 (nodes[i := None]) (i + 1) (length cs) w
        = Inr (mp', replicate (i + 1 + length cs) None, w)" "mp_ok mp'" "pool mp' = pool mp1 @ map Some cs"
    using Cons.IH [OF mp1(2), of "nodes[i := None]" "i + 1"] mp_same_level [OF mp1(4)] Cons.prems(2)
    by auto
  then show ?case using s mp1(1,3) by simp
qed

text \<open>A request that fails at once takes whatever non-NULL values the caller's array held for
  nodes it had gathered, and pools them: a caller that does not clear the array, as the
  unit test does not, plants garbage pointers in the pool.\<close>

theorem mp_get_pools_stale:
  assumes "mp_ok mp" and "freeCnt mp = 0" and "alloc_fn mp w = (None, w')"
    and "unat nr = length xs" and "0 < length xs" and "length xs \<le> level mp"
  shows "\<exists>mp'. get_mp_nodes H mp (map Some xs) nr w = Inr (SPG_ERR, mp', replicate (length xs) None, w')
    \<and> pool mp' = map Some xs"
proof -
  obtain k where k: "length xs = Suc k" using assms(5) by (cases "length xs") auto
  obtain mp' where "clean_node_list H mp (map Some xs) 0 (length xs) w'
      = Inr (mp', replicate (length xs) None, w')" "pool mp' = pool mp @ map Some xs"
    using clean_stale [OF assms(1), of xs "map Some xs" 0 H w'] assms(2,6) by auto
  moreover have "pool mp = []" using assms(2) by (simp add: pool_def)
  ultimately show ?thesis
    using assms(2-4) k by (simp add: get_mp_nodes_def get_resrv_node_def)
qed

section \<open>Witnesses\<close>

definition demo_heap :: unit_heap where
  "demo_heap = \<lparr>brk = 10, room = 1, blocks = [(3, []), (4, []), (5, []), (6, [])], raw = [7, 8, 9]\<rparr>"

definition demo_pool :: "(nat, unit_heap) mempool" where
  "demo_pool = \<lparr>self = 7, wl = [2, 3, 8], syswl = 1, freeCnt = 2, slotCnt = 4,
     slots_at = 8, freeNode = [Some 3, Some 4, None, None], alloc_fn = alloc_room, free_fn = demo_free\<rparr>"

definition demo_empty :: "(nat, unit_heap) mempool" where
  "demo_empty = demo_pool\<lparr>freeCnt := 0\<rparr>"

lemma demo_pool_ok: "mp_ok demo_pool" "uses demo_pool alloc_room demo_free"
  "owns unit_sound unit_out unit_blks demo_pool demo_heap {5, 6} {9}"
proof -
  show "mp_ok demo_pool" by (simp add: mp_ok_def mp_shape_def level_def demo_pool_def)
  show "uses demo_pool alloc_room demo_free" by (simp add: uses_def demo_pool_def)
  show "owns unit_sound unit_out unit_blks demo_pool demo_heap {5, 6} {9}"
    by (intro ownsI [of _ _ _ "[3, 4]"])
      (auto simp: pool_def demo_pool_def unit_out_def unit_sound_def demo_heap_def holds_blocks_def)
qed

lemma demo_empty_ok: "mp_ok demo_empty"
  by (simp add: mp_ok_def mp_shape_def level_def demo_empty_def demo_pool_def)

theorem mp_put_conserves_witness:
  "\<exists>mp' w'. put_mp_nodes raw_mem demo_pool [Some 5, Some 6, None] 2 demo_heap = Inr (mp', w')
    \<and> mp_ok mp' \<and> uses mp' alloc_room demo_free \<and> owns unit_sound unit_out unit_blks mp' w' ({5, 6} - {5, 6}) {9}"
  using mp_put_conserves [OF room_client.pool_client_axioms demo_pool_ok,
      of 2 "[Some 5, Some 6, None]" "[5, 6]"] by simp

theorem mp_get_conserves_witness:
  "\<exists>r mp' nodes' w'. get_mp_nodes raw_mem demo_pool (replicate (unat (4 :: u32)) None @ []) 4 demo_heap
       = Inr (r, mp', nodes', w') \<and> mp_ok mp' \<and> uses mp' alloc_room demo_free
    \<and> (r = MP_OK \<and> (\<exists>ds. nodes' = map Some ds @ [] \<and> length ds = unat (4 :: u32) \<and> distinct ds
           \<and> set ds \<inter> {5, 6} = {} \<and> owns unit_sound unit_out unit_blks mp' w' ({5, 6} \<union> set ds) {9})
       \<or> r = SPG_ERR \<and> nodes' = replicate (unat (4 :: u32)) None @ [] \<and> owns unit_sound unit_out unit_blks mp' w' {5, 6} {9})"
  by (rule mp_get_conserves [OF room_client.pool_client_axioms demo_pool_ok])

theorem mp_create_destroy_witness:
  "(\<exists>r w'. create_mp raw_mem 2 4 8 alloc_room demo_free demo_heap = Inr (r, w')
    \<and> (case r of None \<Rightarrow> unit_sound w' \<and> unit_out w' = unit_out demo_heap \<and> unit_blks w' = {7, 8, 9}
       | Some mp \<Rightarrow> mp_ok mp \<and> uses mp alloc_room demo_free
           \<and> owns unit_sound unit_out unit_blks mp w' (unit_out demo_heap) {7, 8, 9} \<and> length (pool mp) = unat (2 :: s32)
           \<and> (\<exists>w''. destroy_mp raw_mem mp w' = Inr w'' \<and> unit_sound w'' \<and> unit_out w'' = unit_out demo_heap \<and> unit_blks w'' = {7, 8, 9})))
    \<and> (\<exists>v'. destroy_mp raw_mem demo_pool demo_heap = Inr v' \<and> unit_sound v' \<and> unit_out v' = {5, 6} \<and> unit_blks v' = {9})"
proof -
  have b: "unit_blks demo_heap = {7, 8, 9}" by (auto simp: demo_heap_def)
  have s: "unat (2 :: s32) < 2 ^ 31" "unit_sound demo_heap" using demo_pool_ok(3) by (simp_all add: owns_def)
  note w = mp_create_destroy [OF room_client.pool_client_axioms s, of 4 8 demo_pool demo_heap "{5, 6}" "{9}", unfolded b]
  have "mp_shape demo_pool" by (rule mp_ok_shape [OF demo_pool_ok(1)])
  with demo_pool_ok(2,3) have "mp_shape demo_pool \<and> uses demo_pool alloc_room demo_free \<and> owns unit_sound unit_out unit_blks demo_pool demo_heap {5, 6} {9}"
    by (intro conjI)
  from conjI [OF conjunct1 [OF w] conjunct2 [OF w, THEN mp, OF this]] show ?thesis .
qed

theorem mp_update_levels_conserve_witness:
  "(\<exists>mp' w'. update_syswl raw_mem demo_pool 0 demo_heap = Inr (mp', w') \<and> mp_ok mp'
      \<and> owns unit_sound unit_out unit_blks mp' w' {5, 6} {9} \<and> syswl mp' = 0)
    \<and> (\<exists>mp' w'. update_mpwl raw_mem demo_pool 3 1 1 demo_heap = Inr (MP_OK, mp', w') \<and> mp_ok mp'
      \<and> owns unit_sound unit_out unit_blks mp' w' {5, 6} {9} \<and> wl mp' = [1, 1, 3])"
proof -
  note w = mp_update_levels_conserve [OF room_client.pool_client_axioms demo_pool_ok]
  have "unat (0 :: u32) < length (wl demo_pool) \<and> unat (wl demo_pool ! unat (0 :: u32)) \<le> unat (slotCnt demo_pool)"
    "unat (syswl demo_pool) < 3 \<and> unat ([1, 1, 3 :: s32] ! unat (syswl demo_pool)) \<le> unat (slotCnt demo_pool)"
    by (simp_all add: demo_pool_def)
  then show ?thesis using w [of 0 1 1 3] by blast
qed

theorem mp_raise_overread_witness:
  "\<exists>mp'. update_mpwl raw_mem demo_pool 8 8 2 demo_heap = Inr (MP_OK, mp', demo_heap)
    \<and> pool mp' = pool demo_pool
    \<and> put_mp_nodes raw_mem mp' [Some 5, Some 6, Some 7] 3 demo_heap = Inl Out_Of_Bounds"
  by (rule mp_raise_overread [OF demo_pool_ok(1)]) (simp_all add: demo_pool_def raw_mem_def raw_slots_def)

theorem mp_get_pools_stale_witness:
  "\<exists>mp'. get_mp_nodes raw_mem demo_empty (map Some [77, 78]) 2 (demo_heap\<lparr>room := 0\<rparr>)
      = Inr (SPG_ERR, mp', replicate (length [77 :: nat, 78]) None, demo_heap\<lparr>room := 0\<rparr>)
    \<and> pool mp' = map Some [77, 78]"
  by (rule mp_get_pools_stale [OF demo_empty_ok])
    (simp_all add: demo_empty_def demo_pool_def level_def alloc_room_def demo_heap_def)

end
