(* ===== verification/Machines.thy ===== *)
theory Machines
  imports Spg_Prelude
begin

text \<open>
  Sequences of operations of a component and of its abstract specification, and the
  simulation between them: the specification gives None where its client breaks the
  contract, the code gives a fault where it touches memory it must not touch. Also the C
  for loop that the iteration macros of the lists expand to, and what it does along a path.
\<close>

fun runE :: "('c \<Rightarrow> 's \<Rightarrow> fault + 's) \<Rightarrow> 'c list \<Rightarrow> 's \<Rightarrow> fault + 's" where
  "runE exec [] s = Inr s"
| "runE exec (c # cs) s = bindE (exec c s) (runE exec cs)"

fun steps :: "('c \<Rightarrow> 'a \<Rightarrow> 'a option) \<Rightarrow> 'c list \<Rightarrow> 'a \<Rightarrow> 'a option" where
  "steps step [] a = Some a"
| "steps step (c # cs) a = (case step c a of None \<Rightarrow> None | Some b \<Rightarrow> steps step cs b)"

locale simulation =
  fixes exec :: "'c \<Rightarrow> 's \<Rightarrow> fault + 's" and step :: "'c \<Rightarrow> 'a \<Rightarrow> 'a option"
    and rel :: "'s \<Rightarrow> 'a \<Rightarrow> bool"
  assumes sim: "rel s a \<Longrightarrow> step c a = Some a' \<Longrightarrow> \<exists>s'. exec c s = Inr s' \<and> rel s' a'"
begin

lemma run: "rel s a \<Longrightarrow> steps step cs a = Some a' \<Longrightarrow> \<exists>s'. runE exec cs s = Inr s' \<and> rel s' a'"
proof (induction cs arbitrary: s a)
  case (Cons c cs)
  then obtain b where "step c a = Some b" "steps step cs b = Some a'" by (auto split: option.splits)
  with Cons.prems(1) Cons.IH sim show ?case by fastforce
qed simp

end

section \<open>Loops\<close>

text \<open>
  A C for loop over a state, with fuel. The macros run a body that may change the heap:
  the loop state is the heap, the cursor (and the lookahead) and the state of the body.
\<close>

fun for_loop :: "nat \<Rightarrow> ('s \<Rightarrow> bool) \<Rightarrow> ('s \<Rightarrow> fault + 's) \<Rightarrow> ('s \<Rightarrow> fault + 's) \<Rightarrow> 's \<Rightarrow> fault + 's" where
  "for_loop 0 test body next s = Inl Diverges"
| "for_loop (Suc n) test body next s =
     (if test s then bindE (body s) (\<lambda>s. bindE (next s) (for_loop n test body next)) else Inr s)"

text \<open>A body on the loop states without and with a lookahead.\<close>

definition on_pos :: "('p \<Rightarrow> 'h \<times> 'a \<Rightarrow> fault + 'h \<times> 'a) \<Rightarrow> 'h \<times> 'p \<times> 'a \<Rightarrow> fault + 'h \<times> 'p \<times> 'a" where
  "on_pos body = (\<lambda>(h, pos, a). bindE (body pos (h, a)) (\<lambda>(h, a). Inr (h, pos, a)))"

definition on_pos2 :: "('p \<Rightarrow> 'h \<times> 'a \<Rightarrow> fault + 'h \<times> 'a) \<Rightarrow>
    'h \<times> 'p \<times> 'p \<times> 'a \<Rightarrow> fault + 'h \<times> 'p \<times> 'p \<times> 'a" where
  "on_pos2 body = (\<lambda>(h, pos, n, a). bindE (body pos (h, a)) (\<lambda>(h, a). Inr (h, pos, n, a)))"

fun foldE :: "('p \<Rightarrow> 'a \<Rightarrow> fault + 'a) \<Rightarrow> 'p list \<Rightarrow> 'a \<Rightarrow> fault + 'a" where
  "foldE f [] a = Inr a"
| "foldE f (x # xs) a = bindE (f x a) (foldE f xs)"

text \<open>A body that leaves the heap alone.\<close>

definition reader :: "('p \<Rightarrow> 'a \<Rightarrow> fault + 'a) \<Rightarrow> 'p \<Rightarrow> 'h \<times> 'a \<Rightarrow> fault + 'h \<times> 'a" where
  "reader f = (\<lambda>pos (h, a). bindE (f pos a) (\<lambda>a. Inr (h, a)))"

fun path :: "('h \<Rightarrow> 'p \<Rightarrow> fault + 'p) \<Rightarrow> 'h \<Rightarrow> 'p \<Rightarrow> 'p list \<Rightarrow> bool" where
  "path f h d [] \<longleftrightarrow> True"
| "path f h d (p # ps) \<longleftrightarrow> f h p = Inr (hd (ps @ [d])) \<and> path f h d ps"

lemma path_append: "path f h d (ps @ qs) \<Longrightarrow> path f h d qs"
  by (induction ps) auto

lemma loop_path:
  "path f h d ps \<Longrightarrow> \<forall>p\<in>set ps. test p \<Longrightarrow> \<not> test d \<Longrightarrow> length ps < n \<Longrightarrow>
   for_loop n (\<lambda>(h, pos, a). test pos) (on_pos (reader g))
     (\<lambda>(h, pos, a). bindE (f h pos) (\<lambda>pos. Inr (h, pos, a))) (h, hd (ps @ [d]), a)
     = bindE (foldE g ps a) (\<lambda>a. Inr (h, d, a))"
proof (induction ps arbitrary: n a)
  case Nil
  then show ?case by (cases n) auto
next
  case (Cons p ps)
  obtain m where m: "n = Suc m" "length ps < m" using Cons.prems(4) by (cases n) auto
  have "(case g p a of Inl e \<Rightarrow> Inl e | Inr b \<Rightarrow> for_loop m (\<lambda>(h, pos, a). test pos) (on_pos (reader g))
      (\<lambda>(h, pos, a). bindE (f h pos) (\<lambda>pos. Inr (h, pos, a))) (h, hd (ps @ [d]), b))
    = bindE (bindE (g p a) (foldE g ps)) (\<lambda>a. Inr (h, d, a))"
    using Cons.IH [OF _ _ Cons.prems(3) m(2)] Cons.prems(1,2) by (cases "g p a") auto
  then show ?case
    using Cons.prems(1,2) m(1) by (cases "g p a") (auto simp: on_pos_def reader_def)
qed

text \<open>
  Loops with a lookahead: the body may take the current element out. \<open>Inv\<close> speaks about
  the positions still to come.
\<close>

lemma safe_loop:
  assumes step: "\<And>x ps h a. Inv (x # ps) h a \<Longrightarrow> \<exists>h' a'. body x (h, a) = Inr (h', a') \<and> Inv ps h' a'"
    and nxt: "\<And>x ps h a. Inv (x # ps) h a \<Longrightarrow> f h x = Inr (hd (ps @ [d]))"
    and last: "\<And>ps h a. Inv ps h a \<Longrightarrow> \<exists>m. f h d = Inr m"
    and test: "\<And>x ps h a. Inv (x # ps) h a \<Longrightarrow> test x" "\<not> test d"
  shows "Inv ps h a \<Longrightarrow> length ps < k \<Longrightarrow> (ps \<noteq> [] \<longrightarrow> n = hd (tl ps @ [d])) \<Longrightarrow>
    \<exists>h' m a'. for_loop k (\<lambda>(h, pos, n, a). test pos) (on_pos2 body)
        (\<lambda>(h, pos, n, a). bindE (f h n) (\<lambda>m. Inr (h, n, m, a))) (h, hd (ps @ [d]), n, a) = Inr (h', d, m, a')
      \<and> Inv [] h' a'"
proof (induction ps arbitrary: k h n a)
  case Nil
  then show ?case using test(2) by (cases k) auto
next
  case (Cons x ps)
  obtain j where j: "k = Suc j" "length ps < j" using Cons.prems(2) by (cases k) auto
  obtain h1 a1 where b: "body x (h, a) = Inr (h1, a1)" "Inv ps h1 a1" using step [OF Cons.prems(1)] by blast
  have n: "n = hd (ps @ [d])" using Cons.prems(3) by simp
  obtain m where m: "f h1 n = Inr m" "ps \<noteq> [] \<longrightarrow> m = hd (tl ps @ [d])"
  proof (cases ps)
    case Nil
    then show thesis using last [OF b(2)] n that by auto
  next
    case (Cons y qs)
    then show thesis using nxt [of y qs h1 a1] b(2) n that by auto
  qed
  show ?case
    using Cons.IH [OF b(2) j(2) m(2)] j(1) b(1) m(1) n test(1) [OF Cons.prems(1)]
    by (simp add: on_pos2_def)
qed

end
