(* ===== verification/Linked_List.thy ===== *)
theory Linked_List
  imports Machines
begin

text \<open>
  src/include/ds/list.h, the doubly linked circular lists: every inline function on
  struct list_head and the iteration macros. The heap maps addresses to list heads; NULL is
  address 0, a dereference of NULL or of an address that holds no list head is a fault.
\<close>

section \<open>The heap\<close>

type_synonym addr = u64

record list_head =
  nxt :: addr
  prv :: addr

type_synonym heap = "addr \<rightharpoonup> list_head"

definition node_at :: "heap \<Rightarrow> addr \<Rightarrow> fault + list_head" where
  "node_at h p = (if p = 0 then Inl Null_Deref
     else case h p of None \<Rightarrow> Inl Dangling | Some c \<Rightarrow> Inr c)"

definition get_next :: "heap \<Rightarrow> addr \<Rightarrow> fault + addr" where
  "get_next h p = bindE (node_at h p) (\<lambda>c. Inr (nxt c))"

definition get_prev :: "heap \<Rightarrow> addr \<Rightarrow> fault + addr" where
  "get_prev h p = bindE (node_at h p) (\<lambda>c. Inr (prv c))"

definition set_next :: "heap \<Rightarrow> addr \<Rightarrow> addr \<Rightarrow> fault + heap" where
  "set_next h p v = bindE (node_at h p) (\<lambda>c. Inr (h(p \<mapsto> c\<lparr>nxt := v\<rparr>)))"

definition set_prev :: "heap \<Rightarrow> addr \<Rightarrow> addr \<Rightarrow> fault + heap" where
  "set_prev h p v = bindE (node_at h p) (\<lambda>c. Inr (h(p \<mapsto> c\<lparr>prv := v\<rparr>)))"

section \<open>The operations\<close>

definition INIT_LIST_HEAD :: "heap \<Rightarrow> addr \<Rightarrow> fault + heap" where
  "INIT_LIST_HEAD h list =
     bindE (set_next h list list) (\<lambda>h.
     set_prev h list list)"

definition list_add_between :: "heap \<Rightarrow> addr \<Rightarrow> addr \<Rightarrow> addr \<Rightarrow> fault + heap" where
  "list_add_between h new prev next =
     bindE (set_prev h next new) (\<lambda>h.
     bindE (set_next h new next) (\<lambda>h.
     bindE (set_prev h new prev) (\<lambda>h.
     set_next h prev new)))"

definition list_add :: "heap \<Rightarrow> addr \<Rightarrow> addr \<Rightarrow> fault + heap" where
  "list_add h new head = bindE (get_next h head) (\<lambda>n. list_add_between h new head n)"

definition list_add_tail :: "heap \<Rightarrow> addr \<Rightarrow> addr \<Rightarrow> fault + heap" where
  "list_add_tail h new head = bindE (get_prev h head) (\<lambda>p. list_add_between h new p head)"

definition list_del_between :: "heap \<Rightarrow> addr \<Rightarrow> addr \<Rightarrow> fault + heap" where
  "list_del_between h prev next =
     bindE (set_prev h next prev) (\<lambda>h.
     set_next h prev next)"

definition list_del_entry :: "heap \<Rightarrow> addr \<Rightarrow> fault + heap" where
  "list_del_entry h entry =
     bindE (get_prev h entry) (\<lambda>p.
     bindE (get_next h entry) (\<lambda>n. list_del_between h p n))"

definition list_del :: "heap \<Rightarrow> addr \<Rightarrow> fault + heap" where
  "list_del h entry =
     bindE (get_prev h entry) (\<lambda>p.
     bindE (get_next h entry) (\<lambda>n.
     bindE (list_del_between h p n) (\<lambda>h.
     bindE (set_next h entry 0) (\<lambda>h.
     set_prev h entry 0))))"

definition list_replace :: "heap \<Rightarrow> addr \<Rightarrow> addr \<Rightarrow> fault + heap" where
  "list_replace h old new =
     bindE (get_next h old) (\<lambda>n.
     bindE (set_next h new n) (\<lambda>h.
     bindE (get_next h new) (\<lambda>n.
     bindE (set_prev h n new) (\<lambda>h.
     bindE (get_prev h old) (\<lambda>p.
     bindE (set_prev h new p) (\<lambda>h.
     bindE (get_prev h new) (\<lambda>p.
     set_next h p new)))))))"

definition list_replace_init :: "heap \<Rightarrow> addr \<Rightarrow> addr \<Rightarrow> fault + heap" where
  "list_replace_init h old new = bindE (list_replace h old new) (\<lambda>h. INIT_LIST_HEAD h old)"

definition list_del_init :: "heap \<Rightarrow> addr \<Rightarrow> fault + heap" where
  "list_del_init h entry = bindE (list_del_entry h entry) (\<lambda>h. INIT_LIST_HEAD h entry)"

definition list_move :: "heap \<Rightarrow> addr \<Rightarrow> addr \<Rightarrow> fault + heap" where
  "list_move h list head = bindE (list_del_entry h list) (\<lambda>h. list_add h list head)"

definition list_move_tail :: "heap \<Rightarrow> addr \<Rightarrow> addr \<Rightarrow> fault + heap" where
  "list_move_tail h list head = bindE (list_del_entry h list) (\<lambda>h. list_add_tail h list head)"

definition list_is_last :: "heap \<Rightarrow> addr \<Rightarrow> addr \<Rightarrow> fault + bool" where
  "list_is_last h list head = bindE (get_next h list) (\<lambda>n. Inr (n = head))"

definition list_empty :: "heap \<Rightarrow> addr \<Rightarrow> fault + bool" where
  "list_empty h head = bindE (get_next h head) (\<lambda>n. Inr (n = head))"

definition list_empty_careful :: "heap \<Rightarrow> addr \<Rightarrow> fault + bool" where
  "list_empty_careful h head =
     bindE (get_next h head) (\<lambda>n.
     if n = head then bindE (get_prev h head) (\<lambda>p. Inr (n = p)) else Inr False)"

definition list_rotate_left :: "heap \<Rightarrow> addr \<Rightarrow> fault + heap" where
  "list_rotate_left h head =
     bindE (list_empty h head) (\<lambda>e.
     if \<not> e then bindE (get_next h head) (\<lambda>first. list_move_tail h first head) else Inr h)"

definition list_is_singular :: "heap \<Rightarrow> addr \<Rightarrow> fault + bool" where
  "list_is_singular h head =
     bindE (list_empty h head) (\<lambda>e.
     if \<not> e then bindE (get_next h head) (\<lambda>n. bindE (get_prev h head) (\<lambda>p. Inr (n = p)))
     else Inr False)"

definition list_cut_position_raw :: "heap \<Rightarrow> addr \<Rightarrow> addr \<Rightarrow> addr \<Rightarrow> fault + heap" where
  "list_cut_position_raw h list head entry =
     bindE (get_next h entry) (\<lambda>new_first.
     bindE (get_next h head) (\<lambda>n.
     bindE (set_next h list n) (\<lambda>h.
     bindE (get_next h list) (\<lambda>n.
     bindE (set_prev h n list) (\<lambda>h.
     bindE (set_prev h list entry) (\<lambda>h.
     bindE (set_next h entry list) (\<lambda>h.
     bindE (set_next h head new_first) (\<lambda>h.
     set_prev h new_first head))))))))"

definition list_cut_position :: "heap \<Rightarrow> addr \<Rightarrow> addr \<Rightarrow> addr \<Rightarrow> fault + heap" where
  "list_cut_position h list head entry =
     bindE (list_empty h head) (\<lambda>e.
     if e then Inr h
     else bindE (list_is_singular h head) (\<lambda>s.
          bindE (get_next h head) (\<lambda>n.
          if s \<and> (n \<noteq> entry \<and> head \<noteq> entry) then Inr h
          else if entry = head then INIT_LIST_HEAD h list
          else list_cut_position_raw h list head entry)))"

definition list_splice_between :: "heap \<Rightarrow> addr \<Rightarrow> addr \<Rightarrow> addr \<Rightarrow> fault + heap" where
  "list_splice_between h list prev next =
     bindE (get_next h list) (\<lambda>first.
     bindE (get_prev h list) (\<lambda>last.
     bindE (set_prev h first prev) (\<lambda>h.
     bindE (set_next h prev first) (\<lambda>h.
     bindE (set_next h last next) (\<lambda>h.
     set_prev h next last)))))"

definition list_splice :: "heap \<Rightarrow> addr \<Rightarrow> addr \<Rightarrow> fault + heap" where
  "list_splice h list head =
     bindE (list_empty h list) (\<lambda>e.
     if \<not> e then bindE (get_next h head) (\<lambda>n. list_splice_between h list head n) else Inr h)"

definition list_splice_tail :: "heap \<Rightarrow> addr \<Rightarrow> addr \<Rightarrow> fault + heap" where
  "list_splice_tail h list head =
     bindE (list_empty h list) (\<lambda>e.
     if \<not> e then bindE (get_prev h head) (\<lambda>p. list_splice_between h list p head) else Inr h)"

definition list_splice_init :: "heap \<Rightarrow> addr \<Rightarrow> addr \<Rightarrow> fault + heap" where
  "list_splice_init h list head =
     bindE (list_empty h list) (\<lambda>e.
     if \<not> e then bindE (get_next h head) (\<lambda>n.
          bindE (list_splice_between h list head n) (\<lambda>h. INIT_LIST_HEAD h list))
     else Inr h)"

definition list_splice_tail_init :: "heap \<Rightarrow> addr \<Rightarrow> addr \<Rightarrow> fault + heap" where
  "list_splice_tail_init h list head =
     bindE (list_empty h list) (\<lambda>e.
     if \<not> e then bindE (get_prev h head) (\<lambda>p.
          bindE (list_splice_between h list p head) (\<lambda>h. INIT_LIST_HEAD h list))
     else Inr h)"

section \<open>Iteration\<close>

text \<open>A body gets the cursor, the heap and the state it works on.\<close>

type_synonym 'a body = "addr \<Rightarrow> heap \<times> 'a \<Rightarrow> fault + heap \<times> 'a"

text \<open>\<open>off\<close> is the offset of the member in the containing struct.\<close>

definition container_of :: "addr \<Rightarrow> addr \<Rightarrow> addr" where
  "container_of ptr off = ptr - off"

definition list_entry :: "addr \<Rightarrow> addr \<Rightarrow> addr" where
  "list_entry ptr off = container_of ptr off"

definition list_first_entry :: "heap \<Rightarrow> addr \<Rightarrow> addr \<Rightarrow> fault + addr" where
  "list_first_entry h ptr off = bindE (get_next h ptr) (\<lambda>n. Inr (list_entry n off))"

definition list_last_entry :: "heap \<Rightarrow> addr \<Rightarrow> addr \<Rightarrow> fault + addr" where
  "list_last_entry h ptr off = bindE (get_prev h ptr) (\<lambda>p. Inr (list_entry p off))"

definition list_first_entry_or_null :: "heap \<Rightarrow> addr \<Rightarrow> addr \<Rightarrow> fault + addr" where
  "list_first_entry_or_null h ptr off =
     bindE (list_empty h ptr) (\<lambda>e. if \<not> e then list_first_entry h ptr off else Inr 0)"

definition list_next_entry :: "heap \<Rightarrow> addr \<Rightarrow> addr \<Rightarrow> fault + addr" where
  "list_next_entry h pos off = bindE (get_next h (pos + off)) (\<lambda>n. Inr (list_entry n off))"

definition list_prev_entry :: "heap \<Rightarrow> addr \<Rightarrow> addr \<Rightarrow> fault + addr" where
  "list_prev_entry h pos off = bindE (get_prev h (pos + off)) (\<lambda>p. Inr (list_entry p off))"

definition list_for_each :: "nat \<Rightarrow> 'a body \<Rightarrow> addr \<Rightarrow> heap \<times> 'a \<Rightarrow> fault + heap \<times> addr \<times> 'a" where
  "list_for_each fuel body head = (\<lambda>(h, a).
     bindE (get_next h head) (\<lambda>pos.
     for_loop fuel (\<lambda>(h, pos, a). pos \<noteq> head) (on_pos body)
       (\<lambda>(h, pos, a). bindE (get_next h pos) (\<lambda>pos. Inr (h, pos, a))) (h, pos, a)))"

definition list_for_each_prev :: "nat \<Rightarrow> 'a body \<Rightarrow> addr \<Rightarrow> heap \<times> 'a \<Rightarrow> fault + heap \<times> addr \<times> 'a" where
  "list_for_each_prev fuel body head = (\<lambda>(h, a).
     bindE (get_prev h head) (\<lambda>pos.
     for_loop fuel (\<lambda>(h, pos, a). pos \<noteq> head) (on_pos body)
       (\<lambda>(h, pos, a). bindE (get_prev h pos) (\<lambda>pos. Inr (h, pos, a))) (h, pos, a)))"

definition list_for_each_safe ::
    "nat \<Rightarrow> 'a body \<Rightarrow> addr \<Rightarrow> heap \<times> 'a \<Rightarrow> fault + heap \<times> addr \<times> addr \<times> 'a" where
  "list_for_each_safe fuel body head = (\<lambda>(h, a).
     bindE (get_next h head) (\<lambda>pos.
     bindE (get_next h pos) (\<lambda>n.
     for_loop fuel (\<lambda>(h, pos, n, a). pos \<noteq> head) (on_pos2 body)
       (\<lambda>(h, pos, n, a). bindE (get_next h n) (\<lambda>m. Inr (h, n, m, a))) (h, pos, n, a))))"

definition list_for_each_prev_safe ::
    "nat \<Rightarrow> 'a body \<Rightarrow> addr \<Rightarrow> heap \<times> 'a \<Rightarrow> fault + heap \<times> addr \<times> addr \<times> 'a" where
  "list_for_each_prev_safe fuel body head = (\<lambda>(h, a).
     bindE (get_prev h head) (\<lambda>pos.
     bindE (get_prev h pos) (\<lambda>n.
     for_loop fuel (\<lambda>(h, pos, n, a). pos \<noteq> head) (on_pos2 body)
       (\<lambda>(h, pos, n, a). bindE (get_prev h n) (\<lambda>m. Inr (h, n, m, a))) (h, pos, n, a))))"

text \<open>The loops over the containing structs, from a position on.\<close>

definition list_for_each_entry_from ::
    "nat \<Rightarrow> 'a body \<Rightarrow> addr \<Rightarrow> addr \<Rightarrow> addr \<Rightarrow> heap \<times> 'a \<Rightarrow> fault + heap \<times> addr \<times> 'a" where
  "list_for_each_entry_from fuel body pos head off = (\<lambda>(h, a).
     for_loop fuel (\<lambda>(h, pos, a). pos + off \<noteq> head) (on_pos body)
       (\<lambda>(h, pos, a). bindE (list_next_entry h pos off) (\<lambda>pos. Inr (h, pos, a))) (h, pos, a))"

definition list_for_each_entry ::
    "nat \<Rightarrow> 'a body \<Rightarrow> addr \<Rightarrow> addr \<Rightarrow> heap \<times> 'a \<Rightarrow> fault + heap \<times> addr \<times> 'a" where
  "list_for_each_entry fuel body head off = (\<lambda>(h, a).
     bindE (list_first_entry h head off) (\<lambda>pos.
     for_loop fuel (\<lambda>(h, pos, a). pos + off \<noteq> head) (on_pos body)
       (\<lambda>(h, pos, a). bindE (list_next_entry h pos off) (\<lambda>pos. Inr (h, pos, a))) (h, pos, a)))"

definition list_for_each_entry_reverse ::
    "nat \<Rightarrow> 'a body \<Rightarrow> addr \<Rightarrow> addr \<Rightarrow> heap \<times> 'a \<Rightarrow> fault + heap \<times> addr \<times> 'a" where
  "list_for_each_entry_reverse fuel body head off = (\<lambda>(h, a).
     bindE (list_last_entry h head off) (\<lambda>pos.
     for_loop fuel (\<lambda>(h, pos, a). pos + off \<noteq> head) (on_pos body)
       (\<lambda>(h, pos, a). bindE (list_prev_entry h pos off) (\<lambda>pos. Inr (h, pos, a))) (h, pos, a)))"

definition list_prepare_entry :: "addr \<Rightarrow> addr \<Rightarrow> addr \<Rightarrow> addr" where
  "list_prepare_entry pos head off = (if pos \<noteq> 0 then pos else list_entry head off)"

definition list_for_each_entry_continue ::
    "nat \<Rightarrow> 'a body \<Rightarrow> addr \<Rightarrow> addr \<Rightarrow> addr \<Rightarrow> heap \<times> 'a \<Rightarrow> fault + heap \<times> addr \<times> 'a" where
  "list_for_each_entry_continue fuel body pos head off = (\<lambda>(h, a).
     bindE (list_next_entry h pos off) (\<lambda>pos.
     for_loop fuel (\<lambda>(h, pos, a). pos + off \<noteq> head) (on_pos body)
       (\<lambda>(h, pos, a). bindE (list_next_entry h pos off) (\<lambda>pos. Inr (h, pos, a))) (h, pos, a)))"

definition list_for_each_entry_continue_reverse ::
    "nat \<Rightarrow> 'a body \<Rightarrow> addr \<Rightarrow> addr \<Rightarrow> addr \<Rightarrow> heap \<times> 'a \<Rightarrow> fault + heap \<times> addr \<times> 'a" where
  "list_for_each_entry_continue_reverse fuel body pos head off = (\<lambda>(h, a).
     bindE (list_prev_entry h pos off) (\<lambda>pos.
     for_loop fuel (\<lambda>(h, pos, a). pos + off \<noteq> head) (on_pos body)
       (\<lambda>(h, pos, a). bindE (list_prev_entry h pos off) (\<lambda>pos. Inr (h, pos, a))) (h, pos, a)))"

definition list_for_each_entry_safe_from ::
    "nat \<Rightarrow> 'a body \<Rightarrow> addr \<Rightarrow> addr \<Rightarrow> addr \<Rightarrow> heap \<times> 'a \<Rightarrow> fault + heap \<times> addr \<times> addr \<times> 'a" where
  "list_for_each_entry_safe_from fuel body pos head off = (\<lambda>(h, a).
     bindE (list_next_entry h pos off) (\<lambda>n.
     for_loop fuel (\<lambda>(h, pos, n, a). pos + off \<noteq> head) (on_pos2 body)
       (\<lambda>(h, pos, n, a). bindE (list_next_entry h n off) (\<lambda>m. Inr (h, n, m, a))) (h, pos, n, a)))"

definition list_for_each_entry_safe ::
    "nat \<Rightarrow> 'a body \<Rightarrow> addr \<Rightarrow> addr \<Rightarrow> heap \<times> 'a \<Rightarrow> fault + heap \<times> addr \<times> addr \<times> 'a" where
  "list_for_each_entry_safe fuel body head off = (\<lambda>(h, a).
     bindE (list_first_entry h head off) (\<lambda>pos.
     bindE (list_next_entry h pos off) (\<lambda>n.
     for_loop fuel (\<lambda>(h, pos, n, a). pos + off \<noteq> head) (on_pos2 body)
       (\<lambda>(h, pos, n, a). bindE (list_next_entry h n off) (\<lambda>m. Inr (h, n, m, a))) (h, pos, n, a))))"

definition list_for_each_entry_safe_continue ::
    "nat \<Rightarrow> 'a body \<Rightarrow> addr \<Rightarrow> addr \<Rightarrow> addr \<Rightarrow> heap \<times> 'a \<Rightarrow> fault + heap \<times> addr \<times> addr \<times> 'a" where
  "list_for_each_entry_safe_continue fuel body pos head off = (\<lambda>(h, a).
     bindE (list_next_entry h pos off) (\<lambda>pos.
     bindE (list_next_entry h pos off) (\<lambda>n.
     for_loop fuel (\<lambda>(h, pos, n, a). pos + off \<noteq> head) (on_pos2 body)
       (\<lambda>(h, pos, n, a). bindE (list_next_entry h n off) (\<lambda>m. Inr (h, n, m, a))) (h, pos, n, a))))"

definition list_for_each_entry_safe_reverse ::
    "nat \<Rightarrow> 'a body \<Rightarrow> addr \<Rightarrow> addr \<Rightarrow> heap \<times> 'a \<Rightarrow> fault + heap \<times> addr \<times> addr \<times> 'a" where
  "list_for_each_entry_safe_reverse fuel body head off = (\<lambda>(h, a).
     bindE (list_last_entry h head off) (\<lambda>pos.
     bindE (list_prev_entry h pos off) (\<lambda>n.
     for_loop fuel (\<lambda>(h, pos, n, a). pos + off \<noteq> head) (on_pos2 body)
       (\<lambda>(h, pos, n, a). bindE (list_prev_entry h n off) (\<lambda>m. Inr (h, n, m, a))) (h, pos, n, a))))"

definition list_safe_reset_next :: "heap \<Rightarrow> addr \<Rightarrow> addr \<Rightarrow> fault + addr" where
  "list_safe_reset_next h pos off = list_next_entry h pos off"

section \<open>Chains\<close>

definition nx :: "heap \<Rightarrow> addr \<Rightarrow> addr option" where
  "nx h p = map_option nxt (h p)"

definition pv :: "heap \<Rightarrow> addr \<Rightarrow> addr option" where
  "pv h p = map_option prv (h p)"

definition put_nx :: "heap \<Rightarrow> addr \<Rightarrow> addr \<Rightarrow> heap" where
  "put_nx h p v = h(p := map_option (\<lambda>c. c\<lparr>nxt := v\<rparr>) (h p))"

definition put_pv :: "heap \<Rightarrow> addr \<Rightarrow> addr \<Rightarrow> heap" where
  "put_pv h p v = h(p := map_option (\<lambda>c. c\<lparr>prv := v\<rparr>) (h p))"

text \<open>An address that can be dereferenced.\<close>

definition good :: "heap \<Rightarrow> addr \<Rightarrow> bool" where
  "good h p \<longleftrightarrow> p \<noteq> 0 \<and> h p \<noteq> None"

named_theorems heap_simps \<open>reads and writes of the list heap\<close>

lemma good_put [simp, heap_simps]:
  "good (put_nx h p v) = good h" "good (put_pv h p v) = good h"
  by (auto simp: good_def put_nx_def put_pv_def fun_eq_iff)

lemma nx_put [heap_simps]:
  "good h p \<Longrightarrow> nx (put_nx h p v) q = (if q = p then Some v else nx h q)"
  "pv (put_nx h p v) q = pv h q"
  "good h p \<Longrightarrow> pv (put_pv h p v) q = (if q = p then Some v else pv h q)"
  "nx (put_pv h p v) q = nx h q"
  by (auto simp: nx_def pv_def good_def put_nx_def put_pv_def option.map_comp comp_def)

lemma access_good [heap_simps]:
  "good h p \<Longrightarrow> get_next h p = Inr (the (nx h p))"
  "good h p \<Longrightarrow> get_prev h p = Inr (the (pv h p))"
  "good h p \<Longrightarrow> set_next h p v = Inr (put_nx h p v)"
  "good h p \<Longrightarrow> set_prev h p v = Inr (put_pv h p v)"
  by (auto simp: good_def get_next_def get_prev_def set_next_def set_prev_def node_at_def
      nx_def pv_def put_nx_def put_pv_def)

text \<open>Two heaps that can differ only at some addresses.\<close>

definition same :: "addr set \<Rightarrow> heap \<Rightarrow> heap \<Rightarrow> bool" where
  "same S h h' \<longleftrightarrow> (\<forall>a. a \<notin> S \<longrightarrow> h' a = h a) \<and> good h' = good h"

lemma same_put:
  "p \<in> S \<Longrightarrow> same S h h' \<Longrightarrow> same S h (put_nx h' p v)"
  "p \<in> S \<Longrightarrow> same S h h' \<Longrightarrow> same S h (put_pv h' p v)"
  "same S h h"
  by (auto simp: same_def put_nx_def put_pv_def good_def fun_eq_iff)

lemma same_mono: "same S h h' \<Longrightarrow> S \<subseteq> T \<Longrightarrow> same T h h'"
  by (auto simp: same_def)

lemma same_trans: "same S h h' \<Longrightarrow> same S h' h'' \<Longrightarrow> same S h h''"
  by (auto simp: same_def)

fun chain :: "heap \<Rightarrow> addr list \<Rightarrow> bool" where
  "chain h (x # y # zs) \<longleftrightarrow> nx h x = Some y \<and> pv h y = Some x \<and> chain h (y # zs)"
| "chain h zs \<longleftrightarrow> True"

lemma chain_append: "chain h (us @ x # vs) \<longleftrightarrow> chain h (us @ [x]) \<and> chain h (x # vs)"
  by (induction h us rule: chain.induct) (auto simp: neq_Nil_conv; cases vs; auto)+

lemma chain_prefix: "chain h (xs @ vs) \<Longrightarrow> chain h xs"
  by (induction h xs rule: chain.induct) auto

lemma chain_tail: "chain h (x # xs) \<Longrightarrow> chain h xs"
  by (cases xs) auto

lemma in_set_tlD: "x \<in> set (tl L) \<Longrightarrow> x \<in> set L"
  by (cases L) auto

lemma chain_frame:
  "chain h L \<Longrightarrow> (\<And>a. a \<in> set (butlast L) \<Longrightarrow> nx h' a = nx h a) \<Longrightarrow>
   (\<And>a. a \<in> set (tl L) \<Longrightarrow> pv h' a = pv h a) \<Longrightarrow> chain h' L"
  by (induction h L rule: chain.induct) auto

lemma chain_same: "same S h h' \<Longrightarrow> set L \<inter> S = {} \<Longrightarrow> chain h' L = chain h L"
  by (induction h L rule: chain.induct) (auto simp: same_def nx_def pv_def)

text \<open>A closed chain repeats only its first element, as its last.\<close>

definition cyc :: "addr list \<Rightarrow> bool" where
  "cyc L \<longleftrightarrow> distinct (butlast L) \<and> distinct (tl L)"

lemma cyc_ring: "cyc (d # xs @ [d]) \<longleftrightarrow> distinct (d # xs)"
  by (auto simp: cyc_def butlast_append)

lemma cyc_sides:
  assumes "cyc (us @ p # q # vs)"
  shows "p \<notin> set us" "p \<notin> set (butlast (q # vs))" "q \<notin> set (tl (us @ [p]))" "q \<notin> set vs"
  using assms by (cases us; auto simp: cyc_def butlast_append split: if_splits)+

lemma chain_del:
  assumes "chain h (us @ p # e # q # vs)" "cyc (us @ p # q # vs)" "good h p" "good h q"
  shows "\<exists>h'. list_del_between h p q = Inr h' \<and> chain h' (us @ p # q # vs) \<and> same {p, q} h h'"
proof -
  note sides = cyc_sides [OF assms(2)]
  have c: "chain h (us @ [p])" "chain h (q # vs)"
    using assms(1) chain_append [of h us p "e # q # vs"] chain_append [of h "[p, e]" q vs] by auto
  let ?h = "put_nx (put_pv h q p) p q"
  have "chain ?h (us @ [p])" "chain ?h (q # vs)"
    by (rule chain_frame [OF c(1)], use sides assms(3,4) in \<open>auto simp: heap_simps\<close>)
      (rule chain_frame [OF c(2)], use sides assms(3,4) in \<open>auto simp: heap_simps\<close>)
  then have "chain ?h (us @ p # q # vs)"
    using assms(3,4) by (subst chain_append) (auto simp: heap_simps)
  moreover have "list_del_between h p q = Inr ?h" using assms(3,4) by (simp add: list_del_between_def heap_simps)
  ultimately show ?thesis by (auto intro!: same_put)
qed

lemma chain_add:
  assumes "chain h (us @ p # q # vs)" "cyc (us @ p # q # vs)" "n \<notin> set (us @ p # q # vs)"
    and "good h p" "good h q" "good h n"
  shows "\<exists>h'. list_add_between h n p q = Inr h' \<and> chain h' (us @ p # n # q # vs) \<and> same {n, p, q} h h'"
proof -
  note sides = cyc_sides [OF assms(2)]
  have c: "chain h (us @ [p])" "chain h (q # vs)"
    using assms(1) chain_append [of h us p "q # vs"] chain_append [of h "[p]" q vs] by auto
  let ?h = "put_nx (put_pv (put_nx (put_pv h q n) n q) n p) p n"
  have "chain ?h (us @ [p])" "chain ?h (q # vs)"
    by (rule chain_frame [OF c(1)], use sides assms(3-6) in \<open>auto simp: heap_simps dest: in_set_tlD\<close>)
      (rule chain_frame [OF c(2)], use sides assms(3-6) in \<open>auto simp: heap_simps split: if_splits dest: in_set_butlastD\<close>)
  then have "chain ?h (us @ p # n # q # vs)"
    using assms(3-6) by (subst chain_append) (auto simp: heap_simps)
  moreover have "list_add_between h n p q = Inr ?h"
    using assms(4-6) by (simp add: list_add_between_def heap_simps)
  ultimately show ?thesis by (auto intro!: same_put)
qed

lemma chain_replace:
  assumes "chain h (us @ p # e # q # vs)" "cyc (us @ p # q # vs)" "n \<notin> set (us @ p # e # q # vs)"
    and "e \<noteq> p" "e \<noteq> q" "good h p" "good h q" "good h n" "good h e"
  shows "\<exists>h'. list_replace h e n = Inr h' \<and> chain h' (us @ p # n # q # vs) \<and> same {n, p, q} h h'"
proof -
  note sides = cyc_sides [OF assms(2)]
  have c: "chain h (us @ [p])" "chain h (q # vs)" "nx h e = Some q" "pv h e = Some p"
    using assms(1) chain_append [of h us p "e # q # vs"] chain_append [of h "[p, e]" q vs] by auto
  let ?h = "put_nx (put_pv (put_pv (put_nx h n q) q n) n p) p n"
  have "chain ?h (us @ [p])" "chain ?h (q # vs)"
    by (rule chain_frame [OF c(1)], use sides assms(3,6-8) in \<open>auto simp: heap_simps dest: in_set_tlD\<close>)
      (rule chain_frame [OF c(2)], use sides assms(3,6-8) in \<open>auto simp: heap_simps split: if_splits dest: in_set_butlastD\<close>)
  then have "chain ?h (us @ p # n # q # vs)"
    using assms(3,6-9) by (subst chain_append) (auto simp: heap_simps)
  moreover have "list_replace h e n = Inr ?h"
    using assms(3-9) c by (simp add: list_replace_def heap_simps)
  ultimately show ?thesis by (auto intro!: same_put)
qed

lemma chain_splice:
  assumes "chain h (us @ p # q # vs)" "cyc (us @ p # q # vs)" "chain h (l # ys @ [l])" "distinct (l # ys)"
    and "ys \<noteq> []" "set (l # ys) \<inter> set (us @ p # q # vs) = {}" "\<forall>a\<in>set (l # ys @ [p, q]). good h a"
  shows "\<exists>h'. list_splice_between h l p q = Inr h' \<and> chain h' (us @ p # ys @ q # vs)
    \<and> same (set ys \<union> {p, q}) h h'"
proof -
  note sides = cyc_sides [OF assms(2)]
  have c: "chain h (us @ [p])" "chain h (q # vs)"
    using assms(1) chain_append [of h us p "q # vs"] chain_append [of h "[p]" q vs] by auto
  obtain f fs where f: "ys = f # fs" using assms(5) by (cases ys) auto
  obtain es e where e: "ys = es @ [e]" using assms(5) by (cases ys rule: rev_cases) auto
  have "good h f" using assms(7) f by simp
  moreover have "good h e" using assms(7) e by simp
  ultimately have g: "good h l" "good h p" "good h q" "good h f" "good h e" using assms(7) by auto
  have l: "nx h l = Some f" using assms(3) f by simp
  have r: "pv h l = Some e" "chain h ys"
    using assms(3) e chain_append [of h "l # es" e "[l]"] chain_append [of h "[l]" f "fs"] f by auto
  let ?h = "put_pv (put_nx (put_nx (put_pv h f p) p f) e q) q e"
  have "f \<in> set ys" using f by simp
  moreover have "e \<in> set ys" using e by simp
  moreover have "set ys \<inter> set (us @ p # q # vs) = {}" using assms(6) by auto
  ultimately have in_ys: "f \<in> set ys" "e \<in> set ys" "set ys \<inter> set (us @ p # q # vs) = {}" by auto
  have "f \<notin> set (tl ys)" using assms(4) f by simp
  moreover have "e \<notin> set (butlast ys)" using assms(4) e by simp
  ultimately have ft: "f \<notin> set (tl ys)" "e \<notin> set (butlast ys)" "p \<notin> set ys" "q \<notin> set ys"
    using in_ys by auto
  have fe: "f \<notin> set (us @ p # q # vs)" "e \<notin> set (us @ p # q # vs)" using in_ys by blast+
  have "chain ?h (us @ [p])"
    by (rule chain_frame [OF c(1)]) (use sides g fe in \<open>auto simp: heap_simps dest: in_set_tlD\<close>)
  moreover have "chain ?h (q # vs)"
    by (rule chain_frame [OF c(2)])
      (use sides g fe in \<open>auto simp: heap_simps split: if_splits dest: in_set_butlastD\<close>)
  moreover have "chain ?h ys"
    by (rule chain_frame [OF r(2)])
      (use g ft in \<open>auto simp: heap_simps dest: in_set_butlastD in_set_tlD\<close>)
  moreover have "nx ?h p = Some f" "pv ?h f = Some p" "nx ?h e = Some q" "pv ?h q = Some e"
    using g ft f e in_ys by (auto simp: heap_simps)
  moreover from calculation have "chain ?h (ys @ q # vs)"
    using chain_append [of ?h es e "q # vs"] e by simp
  ultimately have "chain ?h (us @ p # ys @ q # vs)"
    using chain_append [of ?h us p "ys @ q # vs"] f by simp
  moreover have "list_splice_between h l p q = Inr ?h"
    using g l r(1) by (simp add: list_splice_between_def heap_simps)
  ultimately show ?thesis using in_ys by (intro exI [of _ ?h]) (auto intro!: same_put)
qed

section \<open>Rings and the lists of a heap\<close>

definition ring :: "heap \<Rightarrow> addr \<Rightarrow> addr list \<Rightarrow> bool" where
  "ring h d xs \<longleftrightarrow> chain h (d # xs @ [d])"

text \<open>The abstract state: the elements of every list, by the address of its head.\<close>

type_synonym lists = "addr \<rightharpoonup> addr list"

definition used :: "lists \<Rightarrow> addr set" where
  "used A = {a. \<exists>d xs. A d = Some xs \<and> a \<in> set (d # xs)}"

text \<open>\<open>V\<close> is the set of addresses the client may use.\<close>

definition lists_ok :: "addr set \<Rightarrow> heap \<Rightarrow> lists \<Rightarrow> bool" where
  "lists_ok V h A \<longleftrightarrow> (\<forall>a\<in>V. good h a)
     \<and> (\<forall>d xs. A d = Some xs \<longrightarrow> set (d # xs) \<subseteq> V \<and> distinct (d # xs) \<and> ring h d xs)
     \<and> (\<forall>d e xs ys. A d = Some xs \<longrightarrow> A e = Some ys \<longrightarrow> d \<noteq> e \<longrightarrow> set (d # xs) \<inter> set (e # ys) = {})"

lemma lists_okD:
  assumes "lists_ok V h A"
  shows "a \<in> V \<Longrightarrow> good h a"
    and "A d = Some xs \<Longrightarrow> set (d # xs) \<subseteq> V \<and> distinct (d # xs) \<and> ring h d xs"
    and "A d = Some xs \<Longrightarrow> A e = Some ys \<Longrightarrow> d \<noteq> e \<Longrightarrow> set (d # xs) \<inter> set (e # ys) = {}"
  using assms unfolding lists_ok_def by blast+

lemma usedI: "A d = Some xs \<Longrightarrow> a \<in> set (d # xs) \<Longrightarrow> a \<in> used A"
  by (auto simp: used_def)

lemma used_drop:
  assumes "lists_ok V h A" "A d = Some xs"
  shows "used (A(d := None)) = used A - set (d # xs)"
proof -
  have other: "a \<notin> set (d # xs)" if "A e = Some ys" "e \<noteq> d" "a \<in> set (e # ys)" for a e ys
    using lists_okD(3) [OF assms(1) assms(2) that(1)] that(2,3) by blast
  show ?thesis
  proof (intro equalityI subsetI)
    fix a assume "a \<in> used (A(d := None))"
    then obtain e ys where "e \<noteq> d" "A e = Some ys" "a \<in> set (e # ys)" unfolding used_def by (auto split: if_splits)
    then show "a \<in> used A - set (d # xs)" using other usedI by blast
  next
    fix a assume "a \<in> used A - set (d # xs)"
    then obtain e ys where e: "A e = Some ys" "a \<in> set (e # ys)" "a \<notin> set (d # xs)" unfolding used_def by blast
    then have "e \<noteq> d" using assms(2) by auto
    then show "a \<in> used (A(d := None))" using e usedI [of "A(d := None)" e ys] by simp
  qed
qed

lemma lists_drop: "lists_ok V h A \<Longrightarrow> lists_ok V h (A(d := None))"
  unfolding lists_ok_def by (simp add: fun_upd_def)

lemma lists_same:
  assumes "lists_ok V h A" "same S h h'" "S \<inter> used A = {}"
  shows "lists_ok V h' A"
proof -
  have "ring h' d xs" if "A d = Some xs" for d xs
  proof -
    have "set (d # xs @ [d]) \<inter> S = {}" using assms(3) that by (auto simp: used_def)
    then show ?thesis using chain_same [OF assms(2)] lists_okD(2) [OF assms(1) that] by (simp add: ring_def)
  qed
  moreover have "good h' = good h" using assms(2) by (simp add: same_def)
  ultimately show ?thesis using assms(1) unfolding lists_ok_def by simp
qed

lemma lists_put:
  assumes "lists_ok V h A" "set (d # xs) \<inter> used A = {}" "set (d # xs) \<subseteq> V" "distinct (d # xs)" "ring h d xs"
  shows "lists_ok V h (A(d \<mapsto> xs))"
proof -
  have "set (d # xs) \<inter> set (e # ys) = {}" if "A e = Some ys" for e ys
    using assms(2) usedI [of A e ys] that by blast
  then show ?thesis using assms(1,3-5) unfolding lists_ok_def by (auto split: if_splits)
qed

text \<open>One list is changed: elements can leave it, fresh nodes \<open>F\<close> can come in.\<close>

lemma lists_change:
  assumes ok: "lists_ok V h A" and d: "A d = Some xs" and S: "same S h h'" "S \<subseteq> set (d # xs) \<union> F"
    and F: "F \<inter> used A = {}" "F \<subseteq> V" and ys: "set ys \<subseteq> set xs \<union> F" "distinct (d # ys)" "ring h' d ys"
  shows "lists_ok V h' (A(d \<mapsto> ys))"
proof -
  have "lists_ok V h' (A(d := None))"
    by (rule lists_same [OF lists_drop [OF ok] S(1)]) (use S(2) F(1) used_drop [OF ok d] in blast)
  moreover have "set (d # ys) \<inter> used (A(d := None)) = {}"
    using F(1) ys(1) used_drop [OF ok d] by auto
  moreover have "set (d # ys) \<subseteq> V" using lists_okD(2) [OF ok d] F(2) ys(1) by auto
  ultimately have "lists_ok V h' ((A(d := None))(d \<mapsto> ys))" using ys by (intro lists_put) auto
  then show ?thesis by simp
qed

section \<open>The specification\<close>

datatype list_cmd =
    Init_Head addr
  | Add addr addr | Add_Tail addr addr
  | Del addr | Del_Init addr
  | Replace addr addr | Replace_Init addr addr
  | Move addr addr | Move_Tail addr addr
  | Rotate_Left addr
  | Cut addr addr addr
  | Splice addr addr | Splice_Tail addr addr | Splice_Init addr addr | Splice_Tail_Init addr addr

fun list_exec :: "list_cmd \<Rightarrow> heap \<Rightarrow> fault + heap" where
  "list_exec (Init_Head l) h = INIT_LIST_HEAD h l"
| "list_exec (Add n d) h = list_add h n d"
| "list_exec (Add_Tail n d) h = list_add_tail h n d"
| "list_exec (Del e) h = list_del h e"
| "list_exec (Del_Init e) h = list_del_init h e"
| "list_exec (Replace e n) h = list_replace h e n"
| "list_exec (Replace_Init e n) h = list_replace_init h e n"
| "list_exec (Move e d) h = list_move h e d"
| "list_exec (Move_Tail e d) h = list_move_tail h e d"
| "list_exec (Rotate_Left d) h = list_rotate_left h d"
| "list_exec (Cut l d e) h = list_cut_position h l d e"
| "list_exec (Splice l d) h = list_splice h l d"
| "list_exec (Splice_Tail l d) h = list_splice_tail h l d"
| "list_exec (Splice_Init l d) h = list_splice_init h l d"
| "list_exec (Splice_Tail_Init l d) h = list_splice_tail_init h l d"

definition fresh :: "addr set \<Rightarrow> lists \<Rightarrow> addr \<Rightarrow> bool" where
  "fresh V A a \<longleftrightarrow> a \<in> V \<and> a \<notin> used A"

definition elem :: "lists \<Rightarrow> addr \<Rightarrow> bool" where
  "elem A e \<longleftrightarrow> (\<exists>d xs. A d = Some xs \<and> e \<in> set xs)"

definition unlink :: "addr \<Rightarrow> lists \<Rightarrow> lists" where
  "unlink e A = (\<lambda>d. map_option (remove1 e) (A d))"

definition swap :: "addr \<Rightarrow> addr \<Rightarrow> lists \<Rightarrow> lists" where
  "swap e n A = (\<lambda>d. map_option (map (\<lambda>x. if x = e then n else x)) (A d))"

text \<open>Applying a function to the elements of one list.\<close>

definition at_list :: "addr \<Rightarrow> (addr list \<Rightarrow> addr list) \<Rightarrow> lists \<Rightarrow> lists option" where
  "at_list d f A = (case A d of None \<Rightarrow> None | Some xs \<Rightarrow> Some (A(d \<mapsto> f xs)))"

definition replace_step :: "addr set \<Rightarrow> addr \<Rightarrow> addr \<Rightarrow> lists \<Rightarrow> lists option" where
  "replace_step V e n A =
     (if \<not> fresh V A n then None
      else if elem A e then Some (swap e n A)
      else case A e of None \<Rightarrow> None | Some xs \<Rightarrow> Some (A(e := None, n \<mapsto> xs)))"

definition splice_step :: "addr \<Rightarrow> addr \<Rightarrow> addr list option \<Rightarrow> (addr list \<Rightarrow> addr list \<Rightarrow> addr list)
    \<Rightarrow> lists \<Rightarrow> lists option" where
  "splice_step l d left join A =
     (if l = d then None
      else case (A l, A d) of
             (Some ys, Some xs) \<Rightarrow> Some (if ys = [] then A else A(l := left, d \<mapsto> join ys xs))
           | _ \<Rightarrow> None)"

fun list_step :: "addr set \<Rightarrow> list_cmd \<Rightarrow> lists \<Rightarrow> lists option" where
  "list_step V (Init_Head l) A = (if fresh V A l then Some (A(l \<mapsto> [])) else None)"
| "list_step V (Add n d) A = (if fresh V A n then at_list d (\<lambda>xs. n # xs) A else None)"
| "list_step V (Add_Tail n d) A = (if fresh V A n then at_list d (\<lambda>xs. xs @ [n]) A else None)"
| "list_step V (Del e) A = (if elem A e then Some (unlink e A) else None)"
| "list_step V (Del_Init e) A = (if elem A e then Some ((unlink e A)(e \<mapsto> [])) else None)"
| "list_step V (Replace e n) A = replace_step V e n A"
| "list_step V (Replace_Init e n) A = map_option (\<lambda>B. B(e \<mapsto> [])) (replace_step V e n A)"
| "list_step V (Move e d) A = (if elem A e then at_list d (\<lambda>xs. e # xs) (unlink e A) else None)"
| "list_step V (Move_Tail e d) A = (if elem A e then at_list d (\<lambda>xs. xs @ [e]) (unlink e A) else None)"
| "list_step V (Rotate_Left d) A = at_list d rotate1 A"
| "list_step V (Cut l d e) A =
     (if l \<noteq> d \<and> (fresh V A l \<or> A l = Some []) then
        (case A d of None \<Rightarrow> None
         | Some xs \<Rightarrow>
             if xs = [] then (if e = d then Some A else None)
             else if e = d then Some (A(l \<mapsto> []))
             else if e \<in> set xs
             then Some (A(l \<mapsto> takeWhile (\<lambda>x. x \<noteq> e) xs @ [e], d \<mapsto> tl (dropWhile (\<lambda>x. x \<noteq> e) xs)))
             else None)
      else None)"
| "list_step V (Splice l d) A = splice_step l d None (\<lambda>ys xs. ys @ xs) A"
| "list_step V (Splice_Tail l d) A = splice_step l d None (\<lambda>ys xs. xs @ ys) A"
| "list_step V (Splice_Init l d) A = splice_step l d (Some []) (\<lambda>ys xs. ys @ xs) A"
| "list_step V (Splice_Tail_Init l d) A = splice_step l d (Some []) (\<lambda>ys xs. xs @ ys) A"

section \<open>Each operation implements its specification\<close>

lemma ring_nx:
  assumes "ring h d (as @ e # bs)"
  shows "nx h e = Some (hd (bs @ [d]))" "pv h e = Some (last (d # as))"
proof -
  have c: "chain h ((d # as) @ [e])" "chain h (e # bs @ [d])"
    using assms chain_append [of h "d # as" e "bs @ [d]"] by (simp_all add: ring_def)
  show "nx h e = Some (hd (bs @ [d]))" using c(2) by (cases bs) auto
  obtain us p where us: "d # as = us @ [p]" by (cases "d # as" rule: rev_cases) auto
  have "chain h (us @ p # [e])" using c(1) unfolding us by simp
  then have "chain h (p # [e])" using chain_append [of h us p "[e]"] by (rule iffD1 [THEN conjunct2, rotated])
  then show "pv h e = Some (last (d # as))" unfolding us by simp
qed

lemma ring_head:
  assumes "ring h d xs"
  shows "nx h d = Some (hd (xs @ [d]))" "pv h d = Some (last (d # xs))"
proof -
  show "nx h d = Some (hd (xs @ [d]))" using assms by (cases xs) (auto simp: ring_def)
  obtain us p where us: "d # xs = us @ [p]" by (cases "d # xs" rule: rev_cases) auto
  have "chain h (us @ p # [d])" using assms us by (metis append_Cons append_assoc append_Nil ring_def)
  then have "chain h (p # [d])" using chain_append [of h us p "[d]"] by (rule iffD1 [THEN conjunct2, rotated])
  then show "pv h d = Some (last (d # xs))" unfolding us by simp
qed

text \<open>The neighbours of a place in a list.\<close>

lemma place:
  obtains us p q vs where "d # as = us @ [p]" "bs @ [d] = q # vs" "last (d # as) = p" "hd (bs @ [d]) = q"
proof -
  have "d # as = butlast (d # as) @ [last (d # as)]" by simp
  moreover have "bs @ [d] = hd (bs @ [d]) # tl (bs @ [d])" by simp
  ultimately show thesis by (rule that) simp_all
qed

lemma ring_place:
  assumes "d # as = us @ [p]" "bs @ [d] = q # vs"
  shows "ring h d (as @ bs) \<longleftrightarrow> chain h (us @ p # q # vs)"
    and "distinct (d # as @ bs) \<longleftrightarrow> cyc (us @ p # q # vs)"
    and "set (us @ p # q # vs) = set (d # as @ bs)"
    and "ring h d (as @ ns @ bs) \<longleftrightarrow> chain h (us @ p # ns @ q # vs)"
    and "p \<in> set (d # as)" "q \<in> set (d # bs)"
proof -
  show "p \<in> set (d # as)" using assms(1) by (metis in_set_conv_decomp)
  have "q \<in> set (bs @ [d])" unfolding assms(2) by simp
  then show "q \<in> set (d # bs)" by auto
  have e: "d # (as @ bs) @ [d] = us @ p # q # vs" "d # (as @ ns @ bs) @ [d] = us @ p # ns @ q # vs"
    using assms by (metis append_Cons append_Nil append_assoc)+
  show "ring h d (as @ bs) \<longleftrightarrow> chain h (us @ p # q # vs)"
    "ring h d (as @ ns @ bs) \<longleftrightarrow> chain h (us @ p # ns @ q # vs)"
    unfolding ring_def e by (rule refl)+
  show "distinct (d # as @ bs) \<longleftrightarrow> cyc (us @ p # q # vs)" unfolding e(1) [symmetric] cyc_ring by (rule refl)
  show "set (us @ p # q # vs) = set (d # as @ bs)" unfolding e(1) [symmetric] by auto
qed

lemma init_ok:
  assumes "lists_ok V h A" "l \<in> V" "l \<notin> used A"
  shows "\<exists>h'. INIT_LIST_HEAD h l = Inr h' \<and> lists_ok V h' (A(l \<mapsto> []))"
proof -
  have g: "good h l" by (rule lists_okD(1) [OF assms(1,2)])
  let ?h = "put_pv (put_nx h l l) l l"
  have "same {l} h ?h" by (auto intro!: same_put)
  then have "lists_ok V ?h A" by (rule lists_same [OF assms(1)]) (use assms(3) in simp)
  then have "lists_ok V ?h (A(l \<mapsto> []))"
    by (rule lists_put) (use assms g in \<open>auto simp: ring_def heap_simps\<close>)
  then show ?thesis using g by (simp add: INIT_LIST_HEAD_def heap_simps)
qed

lemma add_between_ok:
  assumes ok: "lists_ok V h A" and d: "A d = Some (as @ bs)" and n: "n \<in> V" "n \<notin> used A"
  shows "\<exists>h'. list_add_between h n (last (d # as)) (hd (bs @ [d])) = Inr h' \<and> lists_ok V h' (A(d \<mapsto> as @ n # bs))"
proof -
  obtain us p q vs where w: "d # as = us @ [p]" "bs @ [d] = q # vs" "last (d # as) = p" "hd (bs @ [d]) = q"
    by (rule place)
  note r = ring_place [OF w(1,2)]
  have l: "set (d # as @ bs) \<subseteq> V" "distinct (d # as @ bs)" "ring h d (as @ bs)" using lists_okD(2) [OF ok d] by auto
  have nn: "n \<notin> set (us @ p # q # vs)" using usedI [of A d "as @ bs", OF d] n(2) r(3) by blast
  have "good h p" "good h q" "good h n" using lists_okD(1) [OF ok] l(1) n(1) r(5,6) by auto
  then obtain h' where h': "list_add_between h n p q = Inr h'" "chain h' (us @ p # n # q # vs)" "same {n, p, q} h h'"
    using chain_add [OF l(3) [unfolded r(1)] l(2) [unfolded r(2)] nn] by auto
  have "lists_ok V h' (A(d \<mapsto> as @ n # bs))"
    by (rule lists_change [OF ok d h'(3), where F = "{n}"])
      (use h'(2) r(3) n l(2) nn r(4) [where ns = "[n]"] in \<open>auto simp del: chain.simps\<close>)
  then show ?thesis using h'(1) w by simp
qed

lemma unlink_eq:
  assumes ok: "lists_ok V h A" and d: "A d = Some (as @ e # bs)"
  shows "unlink e A = A(d \<mapsto> as @ bs)"
proof
  fix x
  have "e \<notin> set ys" if "A x = Some ys" "x \<noteq> d" for ys
    using lists_okD(3) [OF ok d that(1)] that(2) by auto
  then show "unlink e A x = (A(d \<mapsto> as @ bs)) x"
    using lists_okD(2) [OF ok d] d by (cases "A x") (auto simp: unlink_def remove1_idem remove1_append)
qed

lemma swap_eq:
  assumes ok: "lists_ok V h A" and d: "A d = Some (as @ e # bs)"
  shows "swap e n A = A(d \<mapsto> as @ n # bs)"
proof
  fix x
  have "e \<notin> set ys" if "A x = Some ys" "x \<noteq> d" for ys
    using lists_okD(3) [OF ok d that(1)] that(2) by auto
  then show "swap e n A x = (A(d \<mapsto> as @ n # bs)) x"
    using lists_okD(2) [OF ok d] d by (cases "A x") (auto simp: swap_def intro!: map_idI)
qed

lemma elem_split: "elem A e \<Longrightarrow> \<exists>d as bs. A d = Some (as @ e # bs)"
  unfolding elem_def using split_list by fastforce

text \<open>Unlinking, as list_del, list_del_init and the moves do it.\<close>

lemma del_ok:
  assumes ok: "lists_ok V h A" and e: "elem A e"
  obtains h' where "list_del_between h (the (pv h e)) (the (nx h e)) = Inr h'" "lists_ok V h' (unlink e A)"
    "e \<in> V" "e \<notin> used (unlink e A)" "good h e"
proof -
  obtain d as bs where d: "A d = Some (as @ e # bs)" using elem_split [OF e] by blast
  obtain us p q vs where w: "d # as = us @ [p]" "bs @ [d] = q # vs" "last (d # as) = p" "hd (bs @ [d]) = q"
    by (rule place)
  note r = ring_place [OF w(1,2)]
  have l: "set (d # as @ e # bs) \<subseteq> V" "distinct (d # as @ e # bs)" "ring h d (as @ e # bs)"
    using lists_okD(2) [OF ok d] by auto
  have c: "chain h (us @ p # e # q # vs)" using l(3) r(4) [where ns = "[e]"] by simp
  have "cyc (us @ p # q # vs)" using l(2) r(2) by auto
  moreover have "good h p" "good h q" "good h e"
    using lists_okD(1) [OF ok] l(1) r(5,6) by auto
  ultimately obtain h' where h': "list_del_between h p q = Inr h'" "chain h' (us @ p # q # vs)" "same {p, q} h h'"
    using chain_del [OF c] by auto
  have ok': "lists_ok V h' (A(d \<mapsto> as @ bs))"
    by (rule lists_change [OF ok d h'(3), where F = "{}"])
      (use h'(2) r(1,3) l(2) in \<open>auto simp del: chain.simps\<close>)
  have "e \<notin> used (A(d := None))" using used_drop [OF ok d] by auto
  then have "e \<notin> used (A(d \<mapsto> as @ bs))" using l(2) by (auto simp: used_def split: if_splits)
  moreover have "the (pv h e) = p" "the (nx h e) = q" using ring_nx [OF l(3)] w(3,4) by auto
  ultimately show thesis using that h'(1) ok' l(1) unlink_eq [OF ok d] \<open>good h e\<close> by auto
qed

lemma del_entry_ok:
  assumes "lists_ok V h A" "elem A e"
  obtains h' where "list_del_entry h e = Inr h'" "lists_ok V h' (unlink e A)" "e \<in> V" "e \<notin> used (unlink e A)"
  using del_ok [OF assms] by (metis access_good(1,2) bindE_simps(2) list_del_entry_def)

lemma add_ok:
  assumes "lists_ok V h A" "n \<in> V" "n \<notin> used A" "at_list d (\<lambda>xs. n # xs) A = Some A'"
  shows "\<exists>h'. list_add h n d = Inr h' \<and> lists_ok V h' A'"
proof -
  obtain xs where d: "A d = Some xs" "A' = A(d \<mapsto> n # xs)"
    using assms(4) by (auto simp: at_list_def split: option.splits)
  have "good h d" "nx h d = Some (hd (xs @ [d]))"
    using lists_okD [OF assms(1)] d(1) ring_head by (metis list.set_intros(1) subsetD)+
  then show ?thesis
    using add_between_ok [of V h A d "[]" xs n] assms(1-3) d by (simp add: list_add_def heap_simps)
qed

lemma add_tail_ok:
  assumes "lists_ok V h A" "n \<in> V" "n \<notin> used A" "at_list d (\<lambda>xs. xs @ [n]) A = Some A'"
  shows "\<exists>h'. list_add_tail h n d = Inr h' \<and> lists_ok V h' A'"
proof -
  obtain xs where d: "A d = Some xs" "A' = A(d \<mapsto> xs @ [n])"
    using assms(4) by (auto simp: at_list_def split: option.splits)
  have "good h d" "pv h d = Some (last (d # xs))"
    using lists_okD [OF assms(1)] d(1) ring_head by (metis list.set_intros(1) subsetD)+
  then show ?thesis
    using add_between_ok [of V h A d xs "[]" n] assms(1-3) d by (simp add: list_add_tail_def heap_simps)
qed

lemma replace_elem_ok:
  assumes ok: "lists_ok V h A" and e: "elem A e" and n: "n \<in> V" "n \<notin> used A"
  shows "\<exists>h'. list_replace h e n = Inr h' \<and> lists_ok V h' (swap e n A) \<and> e \<in> V \<and> e \<notin> used (swap e n A)"
proof -
  obtain d as bs where d: "A d = Some (as @ e # bs)" using elem_split [OF e] by blast
  obtain us p q vs where w: "d # as = us @ [p]" "bs @ [d] = q # vs" "last (d # as) = p" "hd (bs @ [d]) = q"
    by (rule place)
  note r = ring_place [OF w(1,2)]
  have l: "set (d # as @ e # bs) \<subseteq> V" "distinct (d # as @ e # bs)" "ring h d (as @ e # bs)"
    using lists_okD(2) [OF ok d] by auto
  have c: "chain h (us @ p # e # q # vs)" using l(3) r(4) [where ns = "[e]"] by simp
  have y: "cyc (us @ p # q # vs)" using l(2) r(2) by auto
  have nn: "n \<notin> set (d # as @ e # bs)" using usedI [of A d "as @ e # bs", OF d] n(2) by blast
  then have nn': "n \<notin> set (us @ p # e # q # vs)" using r(3) by auto
  have ne: "e \<noteq> p" "e \<noteq> q" using l(2) r(5,6) by auto
  have g: "good h p" "good h q" "good h n" "good h e"
    using lists_okD(1) [OF ok] l(1) r(5,6) n by auto
  obtain h' where h': "list_replace h e n = Inr h'" "chain h' (us @ p # n # q # vs)" "same {n, p, q} h h'"
    using chain_replace [OF c y nn' ne g] by auto
  have ok': "lists_ok V h' (A(d \<mapsto> as @ n # bs))"
  proof (rule lists_change [OF ok d h'(3), where F = "{n}"])
    show "ring h' d (as @ n # bs)" using h'(2) r(4) [where ns = "[n]"] by simp
  qed (use r(5,6) n l(2) nn in auto)
  have "e \<notin> used (A(d := None))" using used_drop [OF ok d] by auto
  then have "e \<notin> used (A(d \<mapsto> as @ n # bs))"
    using l(2) nn by (auto simp: used_def split: if_splits)
  then show ?thesis using h'(1) ok' l(1) swap_eq [OF ok d] by auto
qed

lemma replace_head_ok:
  assumes ok: "lists_ok V h A" and d: "A d = Some xs" and n: "n \<in> V" "n \<notin> used A"
  shows "\<exists>h'. list_replace h d n = Inr h' \<and> lists_ok V h' (A(d := None, n \<mapsto> xs))
    \<and> d \<in> V \<and> d \<notin> used (A(d := None, n \<mapsto> xs))"
proof -
  have l: "set (d # xs) \<subseteq> V" "distinct (d # xs)" "ring h d xs" using lists_okD(2) [OF ok d] by auto
  have g: "\<forall>a\<in>set (n # d # xs). good h a" using lists_okD(1) [OF ok] l(1) n(1) by auto
  have nn: "n \<notin> set (d # xs)" using usedI [of A d xs, OF d] n(2) by blast
  have "\<exists>h'. list_replace h d n = Inr h' \<and> ring h' n xs \<and> same (set (n # d # xs)) h h'"
  proof (cases xs)
    case Nil
    have c: "nx h d = Some d" "pv h d = Some d" using l(3) Nil by (auto simp: ring_def)
    let ?h = "put_nx (put_pv (put_pv (put_nx h n d) d n) n n) n n"
    have "list_replace h d n = Inr ?h"
      using g c nn by (simp add: list_replace_def heap_simps)
    moreover have "ring ?h n xs" using g nn Nil by (auto simp: ring_def heap_simps)
    moreover have "same (set (n # d # xs)) h ?h" using Nil by (auto intro!: same_put)
    ultimately show ?thesis by blast
  next
    case (Cons x ys)
    have p: "xs = butlast xs @ [last xs]" using Cons by simp
    define us p where "us = butlast xs" and "p = last xs"
    have p: "xs = us @ [p]" using p by (simp add: us_def p_def)
    have "nx h d = Some x" "pv h d = Some p"
      using ring_head [OF l(3)] Cons by (simp_all add: p_def)
    moreover have "chain h xs" using l(3) chain_prefix chain_tail unfolding ring_def by blast
    ultimately have c: "nx h d = Some x" "pv h d = Some p" "chain h xs" by auto
    let ?h = "put_nx (put_pv (put_pv (put_nx h n x) x n) n p) p n"
    have "p \<in> set xs" unfolding p by simp
    then have xp: "x \<in> set xs" "p \<in> set xs" using Cons by simp_all
    have gg: "good h x" "good h p" "good h n" "good h d" using g xp by auto
    have ne: "x \<noteq> d" "p \<noteq> d" "n \<noteq> x" "n \<noteq> p" "n \<noteq> d" using xp nn l(2) by auto
    have rep: "list_replace h d n = Inr ?h"
      using gg ne c by (simp add: list_replace_def heap_simps)
    have "x \<notin> set (tl xs)" using l(2) Cons by simp
    moreover have "p \<notin> set (butlast xs)" using l(2) p by simp
    ultimately have "chain ?h xs"
      by (intro chain_frame [OF c(3)])
        (use gg ne nn in \<open>auto simp: heap_simps dest: in_set_butlastD in_set_tlD\<close>)
    moreover have "nx ?h n = Some x" "pv ?h x = Some n" "nx ?h p = Some n" "pv ?h n = Some p"
      using gg ne by (auto simp: heap_simps)
    ultimately have "chain ?h (n # xs)" "chain ?h [p, n]" using Cons by auto
    then have "chain ?h ((n # us) @ p # [n])" using chain_append [of ?h "n # us" p "[n]"] p by simp
    then have "ring ?h n xs" using p by (simp add: ring_def)
    moreover have "same (set (n # d # xs)) h ?h" using xp by (auto intro!: same_put)
    ultimately show ?thesis using rep by blast
  qed
  then obtain h' where h': "list_replace h d n = Inr h'" "ring h' n xs" "same (set (n # d # xs)) h h'" by blast
  have u: "used (A(d := None)) = used A - set (d # xs)" by (rule used_drop [OF ok d])
  have "lists_ok V h' (A(d := None))"
    by (rule lists_same [OF lists_drop [OF ok] h'(3)]) (use u n in auto)
  then have "lists_ok V h' ((A(d := None))(n \<mapsto> xs))"
    by (rule lists_put) (use u n nn l h' in auto)
  moreover have "d \<notin> used (A(d := None, n \<mapsto> xs))"
    using u nn l(2) by (auto simp: used_def split: if_splits)
  ultimately show ?thesis using h'(1) l(1) by auto
qed

lemma replace_ok:
  assumes "lists_ok V h A" "replace_step V e n A = Some A'"
  shows "\<exists>h'. list_replace h e n = Inr h' \<and> lists_ok V h' A' \<and> e \<in> V \<and> e \<notin> used A'"
  using assms replace_elem_ok [OF assms(1), of e n] replace_head_ok [OF assms(1), of e _ n]
  by (auto simp: replace_step_def fresh_def split: if_splits option.splits)

lemma empty_ok:
  assumes "lists_ok V h A" "A d = Some xs"
  shows "list_empty h d = Inr (xs = [])"
proof -
  have l: "good h d" "distinct (d # xs)" "ring h d xs"
    using lists_okD(1,2) [OF assms(1)] assms(2) by (metis list.set_intros(1) subsetD)+
  have "hd (xs @ [d]) = d \<longleftrightarrow> xs = []" using l(2) by (cases xs) auto
  then show ?thesis using l ring_head(1) [OF l(3)] by (simp add: list_empty_def heap_simps)
qed

lemma splice_between_ok:
  assumes ok: "lists_ok V h A" and l: "A l = Some ys" "ys \<noteq> []" and d: "A d = Some (as @ bs)" and "l \<noteq> d"
  shows "\<exists>h'. list_splice_between h l (last (d # as)) (hd (bs @ [d])) = Inr h'
    \<and> lists_ok V h' (A(l := None, d \<mapsto> as @ ys @ bs)) \<and> l \<in> V \<and> l \<notin> used (A(l := None, d \<mapsto> as @ ys @ bs))"
proof -
  obtain us p q vs where w: "d # as = us @ [p]" "bs @ [d] = q # vs" "last (d # as) = p" "hd (bs @ [d]) = q"
    by (rule place)
  note r = ring_place [OF w(1,2)]
  have L: "set (l # ys) \<subseteq> V" "distinct (l # ys)" "ring h l ys" using lists_okD(2) [OF ok l(1)] by auto
  have D: "set (d # as @ bs) \<subseteq> V" "distinct (d # as @ bs)" "ring h d (as @ bs)"
    using lists_okD(2) [OF ok d] by auto
  have disj: "set (l # ys) \<inter> set (d # as @ bs) = {}" by (rule lists_okD(3) [OF ok l(1) d assms(5)])
  have g: "\<forall>a\<in>set (l # ys @ [p, q]). good h a" using lists_okD(1) [OF ok] L(1) D(1) r(5,6) by auto
  have disj': "set (l # ys) \<inter> set (us @ p # q # vs) = {}" using disj unfolding r(3) .
  obtain h' where h': "list_splice_between h l p q = Inr h'" "chain h' (us @ p # ys @ q # vs)"
      "same (set ys \<union> {p, q}) h h'"
    using chain_splice [OF D(3) [unfolded r(1)] D(2) [unfolded r(2)] L(3) [unfolded ring_def] L(2) l(2) disj' g]
    by blast
  let ?A = "A(l := None)"
  have okA: "lists_ok V h ?A" by (rule lists_drop [OF ok])
  have uA: "used ?A = used A - set (l # ys)" by (rule used_drop [OF ok l(1)])
  have dA: "?A d = Some (as @ bs)" using d assms(5) by simp
  have "lists_ok V h' (?A(d \<mapsto> as @ ys @ bs))"
  proof (rule lists_change [OF okA dA, where F = "set ys"])
    show "ring h' d (as @ ys @ bs)" using h'(2) r(4) [where ns = ys] by simp
    show "same (set ys \<union> {p, q}) h h'" by (rule h'(3))
    show "set ys \<union> {p, q} \<subseteq> set (d # as @ bs) \<union> set ys" using r(5,6) by auto
    show "set ys \<inter> used ?A = {}" using uA by auto
    show "set ys \<subseteq> V" using L(1) by simp
    show "set (as @ ys @ bs) \<subseteq> set (as @ bs) \<union> set ys" by auto
    show "distinct (d # as @ ys @ bs)" using L(2) D(2) disj by auto
  qed
  moreover have "l \<notin> used (?A(d \<mapsto> as @ ys @ bs))"
  proof
    assume "l \<in> used (?A(d \<mapsto> as @ ys @ bs))"
    then have "l \<in> used ?A \<or> l \<in> set (d # as @ ys @ bs)" by (auto simp: used_def split: if_splits)
    then show False using uA L(2) disj by auto
  qed
  ultimately show ?thesis using h'(1) w(3,4) L(1) by simp
qed

text \<open>The four ways to splice, over the operation that links and the way to treat the old head.\<close>

lemma head_ends:
  assumes "lists_ok V h A" "A d = Some xs"
  shows "get_next h d = Inr (hd (xs @ [d]))" "get_prev h d = Inr (last (d # xs))"
proof -
  have l: "good h d" "ring h d xs"
    using lists_okD(1,2) [OF assms(1)] assms(2) by (metis list.set_intros(1) subsetD)+
  then show "get_next h d = Inr (hd (xs @ [d]))" "get_prev h d = Inr (last (d # xs))"
    using ring_head [OF l(2)] by (simp_all add: heap_simps)
qed

lemma splice_ok:
  assumes ok: "lists_ok V h A" and st: "splice_step l d left join A = Some A'"
  shows "left = None \<Longrightarrow> join = (\<lambda>ys xs. ys @ xs) \<Longrightarrow> \<exists>h'. list_splice h l d = Inr h' \<and> lists_ok V h' A'"
    and "left = None \<Longrightarrow> join = (\<lambda>ys xs. xs @ ys) \<Longrightarrow> \<exists>h'. list_splice_tail h l d = Inr h' \<and> lists_ok V h' A'"
    and "left = Some [] \<Longrightarrow> join = (\<lambda>ys xs. ys @ xs) \<Longrightarrow> \<exists>h'. list_splice_init h l d = Inr h' \<and> lists_ok V h' A'"
    and "left = Some [] \<Longrightarrow> join = (\<lambda>ys xs. xs @ ys) \<Longrightarrow> \<exists>h'. list_splice_tail_init h l d = Inr h' \<and> lists_ok V h' A'"
proof -
  obtain ys xs where A: "l \<noteq> d" "A l = Some ys" "A d = Some xs"
      "A' = (if ys = [] then A else A(l := left, d \<mapsto> join ys xs))"
    using st by (auto simp: splice_step_def split: if_splits option.splits)
  note e = empty_ok [OF ok A(2)] and n = head_ends [OF ok A(3)]
  have front: "\<exists>h'. list_splice_between h l d (hd (xs @ [d])) = Inr h'
      \<and> lists_ok V h' (A(l := None, d \<mapsto> ys @ xs)) \<and> l \<in> V \<and> l \<notin> used (A(l := None, d \<mapsto> ys @ xs))"
    if "ys \<noteq> []" using splice_between_ok [OF ok A(2) that, of d "[]" xs] A by simp
  have rear: "\<exists>h'. list_splice_between h l (last (d # xs)) d = Inr h'
      \<and> lists_ok V h' (A(l := None, d \<mapsto> xs @ ys)) \<and> l \<in> V \<and> l \<notin> used (A(l := None, d \<mapsto> xs @ ys))"
    if "ys \<noteq> []" using splice_between_ok [OF ok A(2) that, of d xs "[]"] A by simp
  have re: "B(l := None, d \<mapsto> zs, l \<mapsto> []) = B(l \<mapsto> [], d \<mapsto> zs)" for B :: lists and zs
    using A(1) by (auto simp: fun_eq_iff)
  show "\<exists>h'. list_splice h l d = Inr h' \<and> lists_ok V h' A'" if "left = None" "join = (\<lambda>ys xs. ys @ xs)"
    using e n front A(4) that ok by (cases "ys = []") (auto simp: list_splice_def)
  show "\<exists>h'. list_splice_tail h l d = Inr h' \<and> lists_ok V h' A'" if "left = None" "join = (\<lambda>ys xs. xs @ ys)"
    using e n rear A(4) that ok by (cases "ys = []") (auto simp: list_splice_tail_def)
  show "\<exists>h'. list_splice_init h l d = Inr h' \<and> lists_ok V h' A'" if "left = Some []" "join = (\<lambda>ys xs. ys @ xs)"
  proof (cases "ys = []")
    case False
    have A'': "A' = A(l \<mapsto> [], d \<mapsto> ys @ xs)" using A(4) that False by simp
    from False obtain h1 where h1: "list_splice_between h l d (hd (xs @ [d])) = Inr h1"
        "lists_ok V h1 (A(l := None, d \<mapsto> ys @ xs))" "l \<in> V" "l \<notin> used (A(l := None, d \<mapsto> ys @ xs))"
      using front by blast
    then obtain h2 where "INIT_LIST_HEAD h1 l = Inr h2" "lists_ok V h2 A'"
      using init_ok [OF h1(2-4)] unfolding A'' re by blast
    then show ?thesis using e n False h1 by (simp add: list_splice_init_def)
  qed (use e A(4) ok in \<open>simp add: list_splice_init_def\<close>)
  show "\<exists>h'. list_splice_tail_init h l d = Inr h' \<and> lists_ok V h' A'" if "left = Some []" "join = (\<lambda>ys xs. xs @ ys)"
  proof (cases "ys = []")
    case False
    have A'': "A' = A(l \<mapsto> [], d \<mapsto> xs @ ys)" using A(4) that False by simp
    from False obtain h1 where h1: "list_splice_between h l (last (d # xs)) d = Inr h1"
        "lists_ok V h1 (A(l := None, d \<mapsto> xs @ ys))" "l \<in> V" "l \<notin> used (A(l := None, d \<mapsto> xs @ ys))"
      using rear by blast
    then obtain h2 where "INIT_LIST_HEAD h1 l = Inr h2" "lists_ok V h2 A'"
      using init_ok [OF h1(2-4)] unfolding A'' re by blast
    then show ?thesis using e n False h1 by (simp add: list_splice_tail_init_def)
  qed (use e A(4) ok in \<open>simp add: list_splice_tail_init_def\<close>)
qed

text \<open>Rotating, and cutting a list in two.\<close>

lemma unlink_at:
  assumes "lists_ok V h A" "A d = Some (x # xs)"
  shows "at_list d (\<lambda>ys. ys @ [x]) (unlink x A) = Some (A(d \<mapsto> xs @ [x]))"
  using unlink_eq [of V h A d "[]" x xs] assms by (simp add: at_list_def)

lemma move_tail_ok:
  assumes "lists_ok V h A" "elem A e" "at_list d (\<lambda>xs. xs @ [e]) (unlink e A) = Some A'"
  shows "\<exists>h'. list_move_tail h e d = Inr h' \<and> lists_ok V h' A'"
proof -
  obtain h1 where h1: "list_del_entry h e = Inr h1" "lists_ok V h1 (unlink e A)" "e \<in> V" "e \<notin> used (unlink e A)"
    by (rule del_entry_ok [OF assms(1,2)])
  show ?thesis using add_tail_ok [OF h1(2-4) assms(3)] h1(1) by (simp add: list_move_tail_def)
qed

lemma rotate_ok:
  assumes "lists_ok V h A" "at_list d rotate1 A = Some A'"
  shows "\<exists>h'. list_rotate_left h d = Inr h' \<and> lists_ok V h' A'"
proof -
  obtain xs where d: "A d = Some xs" "A' = A(d \<mapsto> rotate1 xs)"
    using assms(2) by (auto simp: at_list_def split: option.splits)
  note e = empty_ok [OF assms(1) d(1)] and n = head_ends [OF assms(1) d(1)]
  show ?thesis
  proof (cases xs)
    case Nil
    then have "A' = A" using d by auto
    then show ?thesis using e Nil assms(1) by (simp add: list_rotate_left_def)
  next
    case (Cons x ys)
    then have "elem A x" using d(1) unfolding elem_def by (metis list.set_intros(1))
    moreover have "at_list d (\<lambda>ys. ys @ [x]) (unlink x A) = Some A'"
      using unlink_at [OF assms(1), of d x ys] d Cons by simp
    ultimately obtain h' where "list_move_tail h x d = Inr h'" "lists_ok V h' A'"
      using move_tail_ok [OF assms(1)] by blast
    then show ?thesis using e n Cons by (simp add: list_rotate_left_def)
  qed
qed

lemma singular_ok:
  assumes "lists_ok V h A" "A d = Some xs"
  shows "list_is_singular h d = Inr (length xs = 1)"
proof -
  note e = empty_ok [OF assms] and n = head_ends [OF assms]
  show ?thesis
  proof (cases xs)
    case (Cons x ys)
    have "x \<notin> set ys" using lists_okD(2) [OF assms] Cons by simp
    then have "last (x # ys) = x \<longleftrightarrow> ys = []" by (metis last_ConsL last_ConsR last_in_set)
    then show ?thesis using e n Cons by (auto simp: list_is_singular_def)
  qed (use e in \<open>simp add: list_is_singular_def\<close>)
qed

lemma cut_ok:
  assumes ok: "lists_ok V h A" and d: "A d = Some (as @ e # bs)" and "l \<noteq> d" "l \<in> V" "l \<notin> used A"
  shows "\<exists>h'. list_cut_position_raw h l d e = Inr h' \<and> lists_ok V h' (A(l \<mapsto> as @ [e], d \<mapsto> bs))"
proof -
  have D: "set (d # as @ e # bs) \<subseteq> V" "distinct (d # as @ e # bs)" "ring h d (as @ e # bs)"
    using lists_okD(2) [OF ok d] by auto
  have c: "chain h (d # as @ [e])" "chain h (e # bs @ [d])"
    using D(3) chain_append [of h "d # as" e "bs @ [d]"] by (simp_all add: ring_def)
  have ll: "l \<notin> set (d # as @ e # bs)" using usedI [of A d "as @ e # bs", OF d] assms(5) by blast
  define f where "f = hd (as @ [e])" define q where "q = hd (bs @ [d])"
  obtain fs qs where fs: "as @ [e] = f # fs" and qs: "bs @ [d] = q # qs"
    by (metis append_is_Nil_conv f_def list.collapse list.discI q_def)
  have n: "nx h e = Some q" "nx h d = Some f"
    using ring_nx(1) [OF D(3)] ring_head(1) [OF D(3)] by (simp_all add: q_def f_def hd_append)
  have fin: "f \<in> set (as @ [e])" "q \<in> set (bs @ [d])" unfolding fs qs by simp_all
  have ne: "f \<noteq> d" "f \<noteq> l" "e \<noteq> l" "e \<noteq> d" "q \<noteq> e" "q \<noteq> l" "q \<noteq> f" "d \<noteq> l" using fin D(2) ll by auto
  have g: "good h l" "good h e" "good h d" "good h f" "good h q"
    using lists_okD(1) [OF ok] D(1) assms(4) fin by auto
  let ?h = "put_pv (put_nx (put_nx (put_pv (put_pv (put_nx h l f) f l) l e) e l) d q) q d"
  have raw: "list_cut_position_raw h l d e = Inr ?h"
    using g n ne by (simp add: list_cut_position_raw_def heap_simps)
  have S: "same (set (l # d # as @ e # bs)) h ?h" using fin by (auto intro!: same_put)
  have cf: "chain h (f # fs)" "chain h (q # qs)"
    using chain_tail [of h d "as @ [e]"] chain_tail [of h e "bs @ [d]"] c unfolding fs [symmetric] qs [symmetric] by auto
  have nin: "f \<notin> set fs" "e \<notin> set (butlast (f # fs))" "q \<notin> set qs" "d \<notin> set (butlast (q # qs))"
      "q \<notin> set (f # fs)" "d \<notin> set (f # fs)" "l \<notin> set (f # fs)" "f \<notin> set (q # qs)" "l \<notin> set (q # qs)" "e \<notin> set (q # qs)"
  proof -
    have "distinct (f # fs)" "distinct (q # qs)" using D(2) unfolding fs [symmetric] qs [symmetric] by auto
    then show "f \<notin> set fs" "q \<notin> set qs" by auto
    show "e \<notin> set (butlast (f # fs))" "d \<notin> set (butlast (q # qs))"
      using D(2) unfolding fs [symmetric] qs [symmetric] by auto
    show "q \<notin> set (f # fs)" "d \<notin> set (f # fs)" "l \<notin> set (f # fs)" "f \<notin> set (q # qs)" "l \<notin> set (q # qs)" "e \<notin> set (q # qs)"
      using D(2) ll fin unfolding fs [symmetric] qs [symmetric] by auto
  qed
  have "chain ?h (f # fs)"
    by (rule chain_frame [OF cf(1)])
      (use nin g in \<open>auto simp: heap_simps split: if_splits dest: in_set_butlastD\<close>)
  moreover have "chain ?h (q # qs)"
    by (rule chain_frame [OF cf(2)])
      (use nin g in \<open>auto simp: heap_simps split: if_splits dest: in_set_butlastD\<close>)
  moreover have "nx ?h l = Some f" "pv ?h f = Some l" "nx ?h e = Some l" "pv ?h l = Some e"
      "nx ?h d = Some q" "pv ?h q = Some d"
    using g ne by (auto simp: heap_simps)
  ultimately have "chain ?h (l # as @ [e])" "chain ?h (d # bs @ [d])" "chain ?h [e, l]"
    unfolding fs qs by auto
  then have R: "ring ?h l (as @ [e])" "ring ?h d bs"
    using chain_append [of ?h "l # as" e "[l]"] by (auto simp: ring_def)
  let ?A = "A(d := None)"
  have u: "used ?A = used A - set (d # as @ e # bs)" by (rule used_drop [OF ok d])
  have "lists_ok V ?h ?A"
    by (rule lists_same [OF lists_drop [OF ok] S]) (use u assms(5) in auto)
  then have 1: "lists_ok V ?h (?A(l \<mapsto> as @ [e]))"
    by (rule lists_put) (use u assms(4,5) ll D R in auto)
  have "set (d # bs) \<inter> used (?A(l \<mapsto> as @ [e])) = {}"
    using u ll D(2) by (auto simp: used_def split: if_splits)
  then have "lists_ok V ?h (?A(l \<mapsto> as @ [e], d \<mapsto> bs))"
    by (rule lists_put [OF 1]) (use D R in auto)
  moreover have "?A(l \<mapsto> as @ [e], d \<mapsto> bs) = A(l \<mapsto> as @ [e], d \<mapsto> bs)" by (auto simp: fun_eq_iff)
  ultimately show ?thesis using raw by metis
qed

text \<open>A head address that is not in use or heads an empty list can take over a cut list.\<close>

lemma spare_head:
  assumes "lists_ok V h A" "fresh V A l \<or> A l = Some []"
  obtains "lists_ok V h (A(l := None))" "l \<in> V" "l \<notin> used (A(l := None))"
proof (cases "fresh V A l")
  case True
  then have "A l = None" by (cases "A l") (auto simp: fresh_def used_def)
  then have "A(l := None) = A" by (simp add: fun_upd_idem)
  then show thesis using that True assms(1) by (simp add: fresh_def)
next
  case False
  then have l: "A l = Some []" using assms(2) by simp
  have "l \<in> V" using lists_okD(2) [OF assms(1) l] by simp
  moreover have "l \<notin> used (A(l := None))" using used_drop [OF assms(1) l] by simp
  ultimately show thesis using that lists_drop [OF assms(1)] by blast
qed

lemma split_at:
  assumes "e \<in> set xs"
  shows "xs = takeWhile (\<lambda>x. x \<noteq> e) xs @ e # tl (dropWhile (\<lambda>x. x \<noteq> e) xs)"
  using assms by (induction xs) auto

lemma cut_position_ok:
  assumes ok: "lists_ok V h A" and st: "list_step V (Cut l d e) A = Some A'"
  shows "\<exists>h'. list_cut_position h l d e = Inr h' \<and> lists_ok V h' A'"
proof -
  from st obtain xs where l: "l \<noteq> d" "fresh V A l \<or> A l = Some []" and d: "A d = Some xs"
    by (auto split: if_splits option.splits)
  note em = empty_ok [OF ok d] and si = singular_ok [OF ok d] and n = head_ends [OF ok d]
  obtain sp: "lists_ok V h (A(l := None))" "l \<in> V" "l \<notin> used (A(l := None))" by (rule spare_head [OF ok l(2)])
  have d': "(A(l := None)) d = Some xs" using d l(1) by simp
  have upd: "A(l := None, l \<mapsto> zs) = A(l \<mapsto> zs)" for zs by simp
  show ?thesis
  proof (cases "xs = []")
    case True
    then show ?thesis using st d l ok em by (auto simp: list_cut_position_def split: if_splits)
  next
    case False
    show ?thesis
    proof (cases "e = d")
      case True
      then have "A' = A(l \<mapsto> [])" using st l d False by simp
      moreover obtain h' where "INIT_LIST_HEAD h l = Inr h'" "lists_ok V h' (A(l := None, l \<mapsto> []))"
        using init_ok [OF sp] by blast
      ultimately show ?thesis using em si n False True by (simp add: list_cut_position_def)
    next
      case ed: False
      let ?as = "takeWhile (\<lambda>x. x \<noteq> e) xs" and ?bs = "tl (dropWhile (\<lambda>x. x \<noteq> e) xs)"
      have e: "e \<in> set xs" "A' = A(l \<mapsto> ?as @ [e], d \<mapsto> ?bs)"
        using st l d False ed by (auto split: if_splits)
      have dd: "(A(l := None)) d = Some (?as @ e # ?bs)" using d' split_at [OF e(1)] by simp
      obtain h' where h': "list_cut_position_raw h l d e = Inr h'" "lists_ok V h' A'"
        using cut_ok [OF sp(1) dd l(1) sp(2,3)] e(2) by auto
      have "hd (xs @ [d]) = e" if "length xs = 1"
        using that e(1) by (cases xs) auto
      then show ?thesis using em si n False ed h' by (auto simp: list_cut_position_def)
    qed
  qed
qed

text \<open>list_del leaves NULL in the node it takes out.\<close>

lemma list_del_ok:
  assumes "lists_ok V h A" "elem A e"
  shows "\<exists>h'. list_del h e = Inr h' \<and> lists_ok V h' (unlink e A) \<and> nx h' e = Some 0 \<and> pv h' e = Some 0"
proof -
  obtain h1 where h1: "list_del_between h (the (pv h e)) (the (nx h e)) = Inr h1" "lists_ok V h1 (unlink e A)"
      "e \<in> V" "e \<notin> used (unlink e A)" "good h e"
    by (rule del_ok [OF assms])
  have g: "good h1 e" using lists_okD(1) [OF h1(2,3)] .
  let ?h = "put_pv (put_nx h1 e 0) e 0"
  have "list_del h e = Inr ?h" using h1(1,5) g by (simp add: list_del_def heap_simps)
  moreover have "same {e} h1 ?h" by (auto intro!: same_put)
  then have "lists_ok V ?h (unlink e A)" by (rule lists_same [OF h1(2)]) (use h1(4) in simp)
  ultimately show ?thesis using g by (auto simp: heap_simps)
qed

lemma list_sim:
  assumes ok: "lists_ok V h A" and st: "list_step V c A = Some A'"
  shows "\<exists>h'. list_exec c h = Inr h' \<and> lists_ok V h' A'"
proof (cases c)
  case (Init_Head l)
  then show ?thesis using st init_ok [OF ok, of l] by (auto simp: fresh_def split: if_splits)
next
  case (Add n d)
  then show ?thesis using st add_ok [OF ok, of n d A'] by (auto simp: fresh_def split: if_splits)
next
  case (Add_Tail n d)
  then show ?thesis using st add_tail_ok [OF ok, of n d A'] by (auto simp: fresh_def split: if_splits)
next
  case (Del e)
  then show ?thesis using st list_del_ok [OF ok, of e] by (auto split: if_splits)
next
  case (Del_Init e)
  then have e: "elem A e" "A' = (unlink e A)(e \<mapsto> [])" using st by (auto split: if_splits)
  obtain h1 where h1: "list_del_entry h e = Inr h1" "lists_ok V h1 (unlink e A)" "e \<in> V" "e \<notin> used (unlink e A)"
    by (rule del_entry_ok [OF ok e(1)])
  then show ?thesis using init_ok [OF h1(2-4)] Del_Init e(2) by (simp add: list_del_init_def)
next
  case (Replace e n)
  then show ?thesis using st replace_ok [OF ok, of e n A'] by auto
next
  case (Replace_Init e n)
  then obtain B where B: "replace_step V e n A = Some B" "A' = B(e \<mapsto> [])" using st by auto
  obtain h1 where h1: "list_replace h e n = Inr h1" "lists_ok V h1 B" "e \<in> V" "e \<notin> used B"
    using replace_ok [OF ok B(1)] by blast
  then show ?thesis using init_ok [OF h1(2-4)] Replace_Init B(2) by (simp add: list_replace_init_def)
next
  case (Move e d)
  then have e: "elem A e" "at_list d (\<lambda>xs. e # xs) (unlink e A) = Some A'" using st by (auto split: if_splits)
  obtain h1 where h1: "list_del_entry h e = Inr h1" "lists_ok V h1 (unlink e A)" "e \<in> V" "e \<notin> used (unlink e A)"
    by (rule del_entry_ok [OF ok e(1)])
  then show ?thesis using add_ok [OF h1(2-4) e(2)] Move by (simp add: list_move_def)
next
  case (Move_Tail e d)
  then show ?thesis using st move_tail_ok [OF ok, of e d A'] by (auto split: if_splits)
next
  case (Rotate_Left d)
  then show ?thesis using st rotate_ok [OF ok, of d A'] by auto
next
  case (Cut l d e)
  then show ?thesis using st cut_position_ok [OF ok, of l d e A'] by (simp del: list_step.simps)
qed (use st splice_ok [OF ok] in auto)

interpretation list_machine: simulation list_exec "list_step V" "lists_ok V" for V
  by unfold_locales (rule list_sim)

section \<open>Loops over a list\<close>

lemma ring_paths:
  assumes ok: "lists_ok V h A" and d: "A d = Some xs"
  shows "path get_next h d xs" "path get_prev h d (rev xs)"
proof -
  have l: "set (d # xs) \<subseteq> V" "ring h d xs" using lists_okD(2) [OF ok d] by auto
  have g: "good h a" if "a \<in> set (d # xs)" for a using lists_okD(1) [OF ok] l(1) that by blast
  have "xs = as @ bs \<Longrightarrow> path get_next h d bs" for as bs
  proof (induction bs arbitrary: as)
    case (Cons b bs)
    moreover have "nx h b = Some (hd (bs @ [d]))" using ring_nx(1) [of h d as b bs] l(2) Cons.prems by simp
    ultimately show ?case using Cons.IH [of "as @ [b]"] g [of b] by (simp add: heap_simps)
  qed simp
  then show "path get_next h d xs" by simp
  have "xs = as @ bs \<Longrightarrow> path get_prev h d (rev as)" for as bs
  proof (induction as arbitrary: bs rule: rev_induct)
    case (snoc b as)
    moreover have "pv h b = Some (last (d # as))" using ring_nx(2) [of h d as b bs] l(2) snoc.prems by simp
    moreover have "last (d # as) = hd (rev as @ [d])" by (cases as rule: rev_cases) auto
    ultimately show ?case using snoc.IH [of "b # bs"] g [of b] by (simp add: heap_simps)
  qed simp
  then show "path get_prev h d (rev xs)" by simp
qed

lemma path_entry:
  "path get_next h d xs \<Longrightarrow> path (\<lambda>h pos. list_next_entry h pos off) h (d - off) (map (\<lambda>x. x - off) xs)"
  "path get_prev h d xs \<Longrightarrow> path (\<lambda>h pos. list_prev_entry h pos off) h (d - off) (map (\<lambda>x. x - off) xs)"
  by (induction xs) (auto simp: list_next_entry_def list_prev_entry_def list_entry_def container_of_def hd_append
      hd_map)

text \<open>
  All loops without lookahead visit the elements in order, forwards or backwards, and end
  within one pass more than there are elements.
\<close>

lemma for_each_all:
  assumes ok: "lists_ok V h A" and d: "A d = Some xs" and n: "length xs < n"
  shows "list_for_each n (reader g) d (h, a) = bindE (foldE g xs a) (\<lambda>a. Inr (h, d, a))"
    and "list_for_each_prev n (reader g) d (h, a) = bindE (foldE g (rev xs) a) (\<lambda>a. Inr (h, d, a))"
    and "list_for_each_entry n (reader g) d off (h, a)
      = bindE (foldE g (map (\<lambda>x. x - off) xs) a) (\<lambda>a. Inr (h, d - off, a))"
    and "list_for_each_entry_reverse n (reader g) d off (h, a)
      = bindE (foldE g (map (\<lambda>x. x - off) (rev xs)) a) (\<lambda>a. Inr (h, d - off, a))"
proof -
  note p = ring_paths [OF ok d] and e = head_ends [OF ok d]
  have dis: "\<forall>p\<in>set xs. p \<noteq> d" using lists_okD(2) [OF ok d] by auto
  have r: "last (d # xs) = hd (rev xs @ [d])" by (cases xs rule: rev_cases) auto
  have m: "hd (ps @ [d]) - off = hd (map (\<lambda>x. x - off) ps @ [d - off])" for ps by (cases ps) auto
  show "list_for_each n (reader g) d (h, a) = bindE (foldE g xs a) (\<lambda>a. Inr (h, d, a))"
    using loop_path [OF p(1), of "\<lambda>p. p \<noteq> d" n g a] dis n e by (simp add: list_for_each_def)
  show "list_for_each_prev n (reader g) d (h, a) = bindE (foldE g (rev xs) a) (\<lambda>a. Inr (h, d, a))"
    using loop_path [OF p(2), of "\<lambda>p. p \<noteq> d" n g a] dis n e r by (simp add: list_for_each_prev_def)
  show "list_for_each_entry n (reader g) d off (h, a)
      = bindE (foldE g (map (\<lambda>x. x - off) xs) a) (\<lambda>a. Inr (h, d - off, a))"
    using loop_path [OF path_entry(1) [OF p(1), of off], where test = "\<lambda>p. p + off \<noteq> d" and n = n and g = g and a = a] dis n e m
    by (simp add: list_for_each_entry_def list_first_entry_def list_entry_def container_of_def)
  show "list_for_each_entry_reverse n (reader g) d off (h, a)
      = bindE (foldE g (map (\<lambda>x. x - off) (rev xs)) a) (\<lambda>a. Inr (h, d - off, a))"
    using loop_path [OF path_entry(2) [OF p(2), of off], where test = "\<lambda>p. p + off \<noteq> d" and n = n and g = g and a = a] dis n e m r
    by (simp add: list_for_each_entry_reverse_def list_last_entry_def list_entry_def container_of_def)
qed

lemma for_each_part:
  assumes ok: "lists_ok V h A" and d: "A d = Some (as @ x # bs)" and n: "length (as @ x # bs) < n"
  shows "list_for_each_entry_from n (reader g) (x - off) d off (h, a)
      = bindE (foldE g (map (\<lambda>x. x - off) (x # bs)) a) (\<lambda>a. Inr (h, d - off, a))"
    and "list_for_each_entry_continue n (reader g) (x - off) d off (h, a)
      = bindE (foldE g (map (\<lambda>x. x - off) bs) a) (\<lambda>a. Inr (h, d - off, a))"
    and "list_for_each_entry_continue_reverse n (reader g) (x - off) d off (h, a)
      = bindE (foldE g (map (\<lambda>x. x - off) (rev as)) a) (\<lambda>a. Inr (h, d - off, a))"
proof -
  note p = ring_paths [OF ok d]
  have q: "path get_next h d (x # bs)" using path_append [OF p(1)] .
  have "path get_prev h d (rev bs @ (x # rev as))" using p(2) by simp
  then have r: "path get_prev h d (x # rev as)" by (rule path_append)
  have q2: "path get_next h d bs" and r2: "path get_prev h d (rev as)" using q r by simp_all
  have dis: "\<forall>p\<in>set (as @ x # bs). p \<noteq> d" using lists_okD(2) [OF ok d] by auto
  have m: "hd (ps @ [d]) - off = hd (map (\<lambda>x. x - off) ps @ [d - off])" for ps by (cases ps) auto
  show "list_for_each_entry_from n (reader g) (x - off) d off (h, a)
      = bindE (foldE g (map (\<lambda>x. x - off) (x # bs)) a) (\<lambda>a. Inr (h, d - off, a))"
    using loop_path [OF path_entry(1) [OF q, of off], where test = "\<lambda>p. p + off \<noteq> d" and n = n and g = g and a = a] dis n
    by (simp add: list_for_each_entry_from_def)
  show "list_for_each_entry_continue n (reader g) (x - off) d off (h, a)
      = bindE (foldE g (map (\<lambda>x. x - off) bs) a) (\<lambda>a. Inr (h, d - off, a))"
    using loop_path [OF path_entry(1) [OF q2, of off], where test = "\<lambda>p. p + off \<noteq> d" and n = n and g = g and a = a] q dis n m
    by (simp add: list_for_each_entry_continue_def list_next_entry_def list_entry_def container_of_def)
  show "list_for_each_entry_continue_reverse n (reader g) (x - off) d off (h, a)
      = bindE (foldE g (map (\<lambda>x. x - off) (rev as)) a) (\<lambda>a. Inr (h, d - off, a))"
    using loop_path [OF path_entry(2) [OF r2, of off], where test = "\<lambda>p. p + off \<noteq> d" and n = n and g = g and a = a] r dis n m
    by (simp add: list_for_each_entry_continue_reverse_def list_prev_entry_def list_entry_def container_of_def)
qed

definition del_body :: "(addr \<Rightarrow> bool) \<Rightarrow> addr \<Rightarrow> 'a body" where
  "del_body P off = (\<lambda>pos (h, a).
     if P pos then bindE (list_del h (pos + off)) (\<lambda>h. Inr (h, a)) else Inr (h, a))"

lemma safe_delete:
  assumes ok: "lists_ok V h A" and d: "A d = Some xs" and n: "length xs < n"
  shows "\<exists>h' m. list_for_each_entry_safe n (del_body P off) d off (h, a) = Inr (h', d - off, m, a)
    \<and> lists_ok V h' (A(d \<mapsto> filter (\<lambda>x. \<not> P (x - off)) xs))"
proof -
  let ?keep = "filter (\<lambda>x. \<not> P (x - off))"
  define Inv where "Inv = (\<lambda>ps h b. \<exists>ts rs. ps = map (\<lambda>x. x - off) rs \<and> xs = ts @ rs
     \<and> lists_ok V h (A(d \<mapsto> ?keep ts @ rs)) \<and> b = a)"
  have step: "\<exists>h' b'. del_body P off x (h, b) = Inr (h', b') \<and> Inv ps h' b'" if I: "Inv (x # ps) h b" for x ps h b
  proof -
    obtain ts r rs where r: "x = r - off" "ps = map (\<lambda>x. x - off) rs" "xs = ts @ r # rs"
        "lists_ok V h (A(d \<mapsto> ?keep ts @ r # rs))" "b = a"
      using I by (auto simp: Inv_def)
    have e: "elem (A(d \<mapsto> ?keep ts @ r # rs)) r" unfolding elem_def
      by (intro exI [of _ d] exI [of _ "?keep ts @ r # rs"]) simp
    have u: "unlink r (A(d \<mapsto> ?keep ts @ r # rs)) = A(d \<mapsto> ?keep ts @ rs)"
      using unlink_eq [OF r(4), of d "?keep ts" r rs] by simp
    show ?thesis
    proof (cases "P x")
      case True
      obtain h' where "list_del h r = Inr h'" "lists_ok V h' (A(d \<mapsto> ?keep ts @ rs))"
        using list_del_ok [OF r(4) e] unfolding u by blast
      then show ?thesis using True r
        by (auto simp: del_body_def Inv_def intro!: exI [of _ "ts @ [r]"])
    next
      case False
      then show ?thesis using r by (auto simp: del_body_def Inv_def intro!: exI [of _ "ts @ [r]"])
    qed
  qed
  have nxt: "list_next_entry h x off = Inr (hd (ps @ [d - off]))" if I: "Inv (x # ps) h b" for x ps h b
  proof -
    obtain ts r rs where r: "x = r - off" "ps = map (\<lambda>x. x - off) rs"
        "lists_ok V h (A(d \<mapsto> ?keep ts @ r # rs))"
      using I by (auto simp: Inv_def)
    have "path get_next h d (?keep ts @ r # rs)" using ring_paths(1) [OF r(3)] by simp
    then have "path get_next h d (r # rs)" by (rule path_append)
    from path_entry(1) [OF this, of off] show ?thesis using r by simp
  qed
  have last: "\<exists>m. list_next_entry h (d - off) off = Inr m" if I: "Inv ps h b" for ps h b
  proof -
    obtain ts rs where "lists_ok V h (A(d \<mapsto> ?keep ts @ rs))" using I by (auto simp: Inv_def)
    from head_ends(1) [OF this] show ?thesis by (simp add: list_next_entry_def)
  qed
  have test: "x + off \<noteq> d" if I: "Inv (x # ps) h b" for x ps h b
  proof -
    obtain ts r rs where r: "x = r - off" "xs = ts @ r # rs" using I by (auto simp: Inv_def)
    then show ?thesis using lists_okD(2) [OF ok d] by auto
  qed
  let ?ps = "map (\<lambda>x. x - off) xs"
  have I: "Inv ?ps h a"
  proof -
    have "A(d \<mapsto> xs) = A" using d by auto
    then show ?thesis using ok by (auto simp: Inv_def intro!: exI [of _ "[]"])
  qed
  have first: "list_first_entry h d off = Inr (hd (?ps @ [d - off]))"
    using head_ends(1) [OF ok d] by (cases xs) (auto simp: list_first_entry_def list_entry_def container_of_def)
  obtain m where m: "list_next_entry h (hd (?ps @ [d - off])) off = Inr m" "?ps \<noteq> [] \<longrightarrow> m = hd (tl ?ps @ [d - off])"
  proof (cases ?ps)
    case Nil
    then show thesis using last [OF I] that by auto
  next
    case (Cons y qs)
    then show thesis using nxt [of y qs h a] I that by auto
  qed
  have "\<exists>h' k a'. for_loop n (\<lambda>(h, pos, n, a). pos + off \<noteq> d) (on_pos2 (del_body P off))
      (\<lambda>(h, pos, n, a). bindE (list_next_entry h n off) (\<lambda>m. Inr (h, n, m, a))) (h, hd (?ps @ [d - off]), m, a)
      = Inr (h', d - off, k, a') \<and> Inv [] h' a'"
    by (rule safe_loop [where Inv = Inv, OF _ _ _ _ _ I _ m(2)])
      (fact step, fact nxt, fact last, fact test, use n in simp_all)
  then show ?thesis
    using first m(1) by (auto simp: list_for_each_entry_safe_def Inv_def)
qed

lemma entry_0: "list_next_entry h pos 0 = get_next h pos" "list_first_entry h d 0 = get_next h d"
  by (simp_all add: list_next_entry_def list_first_entry_def list_entry_def container_of_def bindE_def
      split: sum.splits)

lemma for_each_safe_entry: "list_for_each_safe n body d = list_for_each_entry_safe n body d 0"
  by (simp add: list_for_each_safe_def list_for_each_entry_safe_def entry_0)

section \<open>Properties\<close>

text \<open>C4. Every run of list operations whose client keeps the contract (new nodes are not in
  use, removed nodes are elements, heads are heads) ends without a fault in a heap whose
  rings are the sequences of the specification: adding at either end, deleting, replacing
  elements and heads, moving, rotating, cutting and the four splices.\<close>

theorem list_ops_refine:
  assumes "lists_ok V h A" and "steps (list_step V) cs A = Some A'"
  shows "\<exists>h'. runE list_exec cs h = Inr h' \<and> lists_ok V h' A'"
  by (rule list_machine.run [OF assms])

text \<open>C38. The loops without lookahead end on every list and visit its elements once, in order:
  forwards and backwards, over nodes and over the structs that contain them.\<close>

theorem list_loops_visit_all:
  assumes "lists_ok V h A" and "A d = Some xs" and "length xs < n"
  shows "list_for_each n (reader g) d (h, a) = bindE (foldE g xs a) (\<lambda>a. Inr (h, d, a))
    \<and> list_for_each_prev n (reader g) d (h, a) = bindE (foldE g (rev xs) a) (\<lambda>a. Inr (h, d, a))
    \<and> list_for_each_entry n (reader g) d off (h, a)
        = bindE (foldE g (map (\<lambda>x. x - off) xs) a) (\<lambda>a. Inr (h, d - off, a))
    \<and> list_for_each_entry_reverse n (reader g) d off (h, a)
        = bindE (foldE g (map (\<lambda>x. x - off) (rev xs)) a) (\<lambda>a. Inr (h, d - off, a))"
  by (intro conjI) (rule for_each_all [OF assms])+

text \<open>C30. Deleting the current element is safe in the loops with lookahead, which leave exactly
  the elements the body keeps, and a NULL dereference in the loop without.\<close>

theorem list_delete_in_loop:
  assumes "lists_ok V h A" and "A d = Some xs" and "length xs < n"
  shows "(\<exists>h' m. list_for_each_entry_safe n (del_body P off) d off (h, a) = Inr (h', d - off, m, a)
      \<and> lists_ok V h' (A(d \<mapsto> filter (\<lambda>x. \<not> P (x - off)) xs)))
    \<and> (xs \<noteq> [] \<longrightarrow> list_for_each n (del_body (\<lambda>_. True) 0) d (h, a) = Inl Null_Deref)"
proof (intro conjI impI)
  show "\<exists>h' m. list_for_each_entry_safe n (del_body P off) d off (h, a) = Inr (h', d - off, m, a)
      \<and> lists_ok V h' (A(d \<mapsto> filter (\<lambda>x. \<not> P (x - off)) xs))"
    by (rule safe_delete [OF assms])
next
  assume "xs \<noteq> []"
  then obtain x ys where x: "xs = x # ys" by (cases xs) auto
  obtain k where k: "n = Suc (Suc k)" using assms(3) x by (cases n; cases "n - 1") auto
  have "elem A x" using assms(2) x unfolding elem_def by (metis list.set_intros(1))
  then obtain h1 where h1: "list_del h x = Inr h1" "nx h1 x = Some 0" "lists_ok V h1 (unlink x A)"
    using list_del_ok [OF assms(1)] by blast
  have xv: "x \<in> V" "x \<noteq> d" "d \<in> V" using lists_okD(2) [OF assms(1,2)] x by auto
  have "good h1 x" "d \<noteq> 0" using lists_okD(1) [OF h1(3)] xv by (auto simp: good_def)
  moreover have "list_del h1 0 = Inl Null_Deref" by (simp add: list_del_def get_prev_def node_at_def)
  moreover have "get_next h d = Inr x" using head_ends(1) [OF assms(1,2)] x by simp
  ultimately show "list_for_each n (del_body (\<lambda>_. True) 0) d (h, a) = Inl Null_Deref"
    using h1(1,2) xv(2) k by (simp add: list_for_each_def on_pos_def del_body_def heap_simps)
qed

section \<open>Witnesses\<close>

definition demo_list_heap :: heap where
  "demo_list_heap = (\<lambda>p. if p \<in> {8, 16, 24, 32, 40} then Some \<lparr>nxt = 0, prv = 0\<rparr> else None)"

lemma demo_lists: "lists_ok {8, 16, 24, 32, 40} demo_list_heap Map.empty"
  by (auto simp: lists_ok_def good_def demo_list_heap_def)

lemma demo_used: "used Map.empty = {}"
  by (simp add: used_def)

theorem list_ops_refine_witness:
  "\<exists>h'. runE list_exec [Init_Head 8, Add_Tail 16 8, Add 24 8, Init_Head 32, Cut 32 8 24, Splice_Tail_Init 32 8]
      demo_list_heap = Inr h'
    \<and> lists_ok {8, 16, 24, 32, 40} h' (Map.empty(32 \<mapsto> [], 8 \<mapsto> [16, 24]))"
  by (rule list_ops_refine [OF demo_lists])
    (simp add: fresh_def used_def at_list_def splice_step_def ex_disj_distrib conj_disj_distribR)

definition demo_ring :: heap where
  "demo_ring = [8 \<mapsto> \<lparr>nxt = 16, prv = 24\<rparr>, 16 \<mapsto> \<lparr>nxt = 24, prv = 8\<rparr>, 24 \<mapsto> \<lparr>nxt = 8, prv = 16\<rparr>]"

lemma demo_ring_ok: "lists_ok {8, 16, 24} demo_ring [8 \<mapsto> [16, 24]]"
  by (auto simp: lists_ok_def good_def demo_ring_def ring_def nx_def pv_def)

theorem list_loops_visit_all_witness:
  "list_for_each 3 (reader (\<lambda>x s. Inr (s + x))) 8 (demo_ring, 0) = Inr (demo_ring, 8, 40)
    \<and> list_for_each_entry_reverse 3 (reader (\<lambda>x s. Inr (2 * s + x))) 8 4 (demo_ring, 0) = Inr (demo_ring, 4, 52)"
  using list_loops_visit_all [OF demo_ring_ok, where d = 8 and xs = "[16, 24]" and n = 3 and off = 4 and a = 0 and g = "\<lambda>x s. Inr (s + x)"]
    list_loops_visit_all [OF demo_ring_ok, where d = 8 and xs = "[16, 24]" and n = 3 and off = 4 and a = 0 and g = "\<lambda>x s. Inr (2 * s + x)"]
  by simp

theorem list_delete_in_loop_witness:
  "(\<exists>h' m. list_for_each_entry_safe 3 (del_body (\<lambda>x. x = 12) 4) 8 4 (demo_ring, ()) = Inr (h', 4, m, ())
      \<and> lists_ok {8, 16, 24} h' [8 \<mapsto> [24]])
    \<and> list_for_each 3 (del_body (\<lambda>_. True) 0) 8 (demo_ring, ()) = Inl Null_Deref"
  using list_delete_in_loop [OF demo_ring_ok, where d = 8 and xs = "[16, 24]" and n = 3 and off = 4
      and P = "\<lambda>x. x = 12" and a = "()"] by simp

end
