(* ===== verification/Hash_List.thy ===== *)
theory Hash_List
  imports Linked_List
begin

text \<open>
  src/include/ds/list.h, the lists with a single-pointer head: struct hlist_head,
  struct hlist_node and their operations and loops. A node's pprev holds the address of the
  pointer that points to it: the first member of a head or the next member of a node.
\<close>

section \<open>The heap\<close>

datatype slot = First addr | Next addr

record hlist_node =
  hnext :: addr
  pprev :: "slot option"

record hheap =
  heads :: "addr \<rightharpoonup> addr"
  nodes :: "addr \<rightharpoonup> hlist_node"

definition hnode_at :: "hheap \<Rightarrow> addr \<Rightarrow> fault + hlist_node" where
  "hnode_at s n = (if n = 0 then Inl Null_Deref
     else case nodes s n of None \<Rightarrow> Inl Dangling | Some c \<Rightarrow> Inr c)"

definition read_slot :: "hheap \<Rightarrow> slot \<Rightarrow> fault + addr" where
  "read_slot s p = (case p of
     First h \<Rightarrow> (if h = 0 then Inl Null_Deref else case heads s h of None \<Rightarrow> Inl Dangling | Some v \<Rightarrow> Inr v)
   | Next n \<Rightarrow> bindE (hnode_at s n) (\<lambda>c. Inr (hnext c)))"

definition write_slot :: "hheap \<Rightarrow> slot \<Rightarrow> addr \<Rightarrow> fault + hheap" where
  "write_slot s p v = (case p of
     First h \<Rightarrow> (if h = 0 then Inl Null_Deref else case heads s h of None \<Rightarrow> Inl Dangling
                 | Some _ \<Rightarrow> Inr (s\<lparr>heads := (heads s)(h \<mapsto> v)\<rparr>))
   | Next n \<Rightarrow> bindE (hnode_at s n) (\<lambda>c. Inr (s\<lparr>nodes := (nodes s)(n \<mapsto> c\<lparr>hnext := v\<rparr>)\<rparr>)))"

definition get_pprev :: "hheap \<Rightarrow> addr \<Rightarrow> fault + slot option" where
  "get_pprev s n = bindE (hnode_at s n) (\<lambda>c. Inr (pprev c))"

definition set_pprev :: "hheap \<Rightarrow> addr \<Rightarrow> slot option \<Rightarrow> fault + hheap" where
  "set_pprev s n v = bindE (hnode_at s n) (\<lambda>c. Inr (s\<lparr>nodes := (nodes s)(n \<mapsto> c\<lparr>pprev := v\<rparr>)\<rparr>))"

section \<open>The operations\<close>

definition INIT_HLIST_HEAD :: "hheap \<Rightarrow> addr \<Rightarrow> fault + hheap" where
  "INIT_HLIST_HEAD s ptr = write_slot s (First ptr) 0"

definition INIT_HLIST_NODE :: "hheap \<Rightarrow> addr \<Rightarrow> fault + hheap" where
  "INIT_HLIST_NODE s h =
     bindE (write_slot s (Next h) 0) (\<lambda>s.
     set_pprev s h None)"

definition hlist_unhashed :: "hheap \<Rightarrow> addr \<Rightarrow> fault + bool" where
  "hlist_unhashed s h = bindE (get_pprev s h) (\<lambda>p. Inr (p = None))"

definition hlist_empty :: "hheap \<Rightarrow> addr \<Rightarrow> fault + bool" where
  "hlist_empty s h = bindE (read_slot s (First h)) (\<lambda>v. Inr (v = 0))"

definition hlist_unlink :: "hheap \<Rightarrow> addr \<Rightarrow> fault + hheap" where
  "hlist_unlink s n =
     bindE (read_slot s (Next n)) (\<lambda>next.
     bindE (get_pprev s n) (\<lambda>p.
     bindE (derefE p) (\<lambda>pprev.
     bindE (write_slot s pprev next) (\<lambda>s.
     if next \<noteq> 0 then set_pprev s next p else Inr s))))"

definition hlist_del :: "hheap \<Rightarrow> addr \<Rightarrow> fault + hheap" where
  "hlist_del s n =
     bindE (hlist_unlink s n) (\<lambda>s.
     bindE (write_slot s (Next n) 0) (\<lambda>s.
     set_pprev s n None))"

definition hlist_del_init :: "hheap \<Rightarrow> addr \<Rightarrow> fault + hheap" where
  "hlist_del_init s n =
     bindE (hlist_unhashed s n) (\<lambda>u.
     if \<not> u then bindE (hlist_unlink s n) (\<lambda>s. INIT_HLIST_NODE s n) else Inr s)"

definition hlist_add_head :: "hheap \<Rightarrow> addr \<Rightarrow> addr \<Rightarrow> fault + hheap" where
  "hlist_add_head s n h =
     bindE (read_slot s (First h)) (\<lambda>first.
     bindE (write_slot s (Next n) first) (\<lambda>s.
     bindE (if first \<noteq> 0 then set_pprev s first (Some (Next n)) else Inr s) (\<lambda>s.
     bindE (write_slot s (First h) n) (\<lambda>s.
     set_pprev s n (Some (First h))))))"

definition hlist_add_before :: "hheap \<Rightarrow> addr \<Rightarrow> addr \<Rightarrow> fault + hheap" where
  "hlist_add_before s n next =
     bindE (get_pprev s next) (\<lambda>p.
     bindE (set_pprev s n p) (\<lambda>s.
     bindE (write_slot s (Next n) next) (\<lambda>s.
     bindE (set_pprev s next (Some (Next n))) (\<lambda>s.
     bindE (get_pprev s n) (\<lambda>p.
     bindE (derefE p) (\<lambda>p. write_slot s p n))))))"

definition hlist_add_after :: "hheap \<Rightarrow> addr \<Rightarrow> addr \<Rightarrow> fault + hheap" where
  "hlist_add_after s n next =
     bindE (read_slot s (Next n)) (\<lambda>v.
     bindE (write_slot s (Next next) v) (\<lambda>s.
     bindE (write_slot s (Next n) next) (\<lambda>s.
     bindE (set_pprev s next (Some (Next n))) (\<lambda>s.
     bindE (read_slot s (Next next)) (\<lambda>v.
     if v \<noteq> 0 then set_pprev s v (Some (Next next)) else Inr s)))))"

definition hlist_add_fake :: "hheap \<Rightarrow> addr \<Rightarrow> fault + hheap" where
  "hlist_add_fake s n = set_pprev s n (Some (Next n))"

definition hlist_move_list :: "hheap \<Rightarrow> addr \<Rightarrow> addr \<Rightarrow> fault + hheap" where
  "hlist_move_list s old new =
     bindE (read_slot s (First old)) (\<lambda>v.
     bindE (write_slot s (First new) v) (\<lambda>s.
     bindE (read_slot s (First new)) (\<lambda>v.
     bindE (if v \<noteq> 0 then set_pprev s v (Some (First new)) else Inr s) (\<lambda>s.
     write_slot s (First old) 0))))"

section \<open>Iteration\<close>

type_synonym 'a hbody = "addr \<Rightarrow> hheap \<times> 'a \<Rightarrow> fault + hheap \<times> 'a"

definition hnext_of :: "hheap \<Rightarrow> addr \<Rightarrow> fault + addr" where
  "hnext_of s n = read_slot s (Next n)"

definition hlist_for_each :: "nat \<Rightarrow> 'a hbody \<Rightarrow> addr \<Rightarrow> hheap \<times> 'a \<Rightarrow> fault + hheap \<times> addr \<times> 'a" where
  "hlist_for_each fuel body head = (\<lambda>(s, a).
     bindE (read_slot s (First head)) (\<lambda>pos.
     for_loop fuel (\<lambda>(s, pos, a). pos \<noteq> 0) (on_pos body)
       (\<lambda>(s, pos, a). bindE (hnext_of s pos) (\<lambda>pos. Inr (s, pos, a))) (s, pos, a)))"

text \<open>\<open>pos && ({ n = pos->next; 1; })\<close>: the lookahead is read in the test, before the body.\<close>

definition hlist_for_each_safe :: "nat \<Rightarrow> 'a hbody \<Rightarrow> addr \<Rightarrow> hheap \<times> 'a \<Rightarrow> fault + hheap \<times> addr \<times> 'a" where
  "hlist_for_each_safe fuel body head = (\<lambda>(s, a).
     bindE (read_slot s (First head)) (\<lambda>pos.
     bindE (for_loop fuel (\<lambda>(s, pos, n, a). pos \<noteq> 0)
         (\<lambda>(s, pos, n, a). bindE (hnext_of s pos) (\<lambda>n. on_pos2 body (s, pos, n, a)))
         (\<lambda>(s, pos, n, a). Inr (s, n, n, a)) (s, pos, 0, a)) (\<lambda>(s, pos, n, a).
     Inr (s, pos, a))))"

definition hlist_entry :: "addr \<Rightarrow> addr \<Rightarrow> addr" where
  "hlist_entry ptr off = container_of ptr off"

definition hlist_entry_safe :: "addr \<Rightarrow> addr \<Rightarrow> addr" where
  "hlist_entry_safe ptr off = (if ptr \<noteq> 0 then hlist_entry ptr off else 0)"

definition hlist_next_entry :: "addr \<Rightarrow> hheap \<Rightarrow> addr \<Rightarrow> fault + addr" where
  "hlist_next_entry off s pos = bindE (hnext_of s (pos + off)) (\<lambda>v. Inr (hlist_entry_safe v off))"

definition hlist_for_each_entry_from ::
    "nat \<Rightarrow> 'a hbody \<Rightarrow> addr \<Rightarrow> addr \<Rightarrow> hheap \<times> 'a \<Rightarrow> fault + hheap \<times> addr \<times> 'a" where
  "hlist_for_each_entry_from fuel body pos off = (\<lambda>(s, a).
     for_loop fuel (\<lambda>(s, pos, a). pos \<noteq> 0) (on_pos body)
       (\<lambda>(s, pos, a). bindE (hlist_next_entry off s pos) (\<lambda>pos. Inr (s, pos, a))) (s, pos, a))"

definition hlist_for_each_entry ::
    "nat \<Rightarrow> 'a hbody \<Rightarrow> addr \<Rightarrow> addr \<Rightarrow> hheap \<times> 'a \<Rightarrow> fault + hheap \<times> addr \<times> 'a" where
  "hlist_for_each_entry fuel body head off = (\<lambda>(s, a).
     bindE (read_slot s (First head)) (\<lambda>v.
     for_loop fuel (\<lambda>(s, pos, a). pos \<noteq> 0) (on_pos body)
       (\<lambda>(s, pos, a). bindE (hlist_next_entry off s pos) (\<lambda>pos. Inr (s, pos, a)))
       (s, hlist_entry_safe v off, a)))"

definition hlist_for_each_entry_continue ::
    "nat \<Rightarrow> 'a hbody \<Rightarrow> addr \<Rightarrow> addr \<Rightarrow> hheap \<times> 'a \<Rightarrow> fault + hheap \<times> addr \<times> 'a" where
  "hlist_for_each_entry_continue fuel body pos off = (\<lambda>(s, a).
     bindE (hlist_next_entry off s pos) (\<lambda>pos.
     for_loop fuel (\<lambda>(s, pos, a). pos \<noteq> 0) (on_pos body)
       (\<lambda>(s, pos, a). bindE (hlist_next_entry off s pos) (\<lambda>pos. Inr (s, pos, a))) (s, pos, a)))"

definition hlist_for_each_entry_safe ::
    "nat \<Rightarrow> 'a hbody \<Rightarrow> addr \<Rightarrow> addr \<Rightarrow> hheap \<times> 'a \<Rightarrow> fault + hheap \<times> addr \<times> 'a" where
  "hlist_for_each_entry_safe fuel body head off = (\<lambda>(s, a).
     bindE (read_slot s (First head)) (\<lambda>v.
     bindE (for_loop fuel (\<lambda>(s, pos, n, a). pos \<noteq> 0)
         (\<lambda>(s, pos, n, a). bindE (hnext_of s (pos + off)) (\<lambda>n. on_pos2 body (s, pos, n, a)))
         (\<lambda>(s, pos, n, a). Inr (s, hlist_entry_safe n off, n, a)) (s, hlist_entry_safe v off, 0, a))
       (\<lambda>(s, pos, n, a). Inr (s, pos, a))))"

section \<open>Reads and writes\<close>

definition cell :: "hheap \<Rightarrow> slot \<Rightarrow> addr option" where
  "cell s p = (case p of First h \<Rightarrow> heads s h | Next n \<Rightarrow> map_option hnext (nodes s n))"

definition pp :: "hheap \<Rightarrow> addr \<Rightarrow> slot option option" where
  "pp s n = map_option pprev (nodes s n)"

definition slot_ok :: "hheap \<Rightarrow> slot \<Rightarrow> bool" where
  "slot_ok s p \<longleftrightarrow> (case p of First h \<Rightarrow> h \<noteq> 0 \<and> heads s h \<noteq> None | Next n \<Rightarrow> n \<noteq> 0 \<and> nodes s n \<noteq> None)"

definition put_cell :: "hheap \<Rightarrow> slot \<Rightarrow> addr \<Rightarrow> hheap" where
  "put_cell s p v = (case p of
     First h \<Rightarrow> s\<lparr>heads := (heads s)(h := map_option (\<lambda>_. v) (heads s h))\<rparr>
   | Next n \<Rightarrow> s\<lparr>nodes := (nodes s)(n := map_option (\<lambda>c. c\<lparr>hnext := v\<rparr>) (nodes s n))\<rparr>)"

definition put_pp :: "hheap \<Rightarrow> addr \<Rightarrow> slot option \<Rightarrow> hheap" where
  "put_pp s n v = s\<lparr>nodes := (nodes s)(n := map_option (\<lambda>c. c\<lparr>pprev := v\<rparr>) (nodes s n))\<rparr>"

named_theorems hheap_simps \<open>reads and writes of the hash-list heap\<close>

lemma slot_ok_put [simp, hheap_simps]:
  "slot_ok (put_cell s p v) = slot_ok s" "slot_ok (put_pp s n w) = slot_ok s"
  by (auto simp: slot_ok_def put_cell_def put_pp_def fun_eq_iff split: slot.splits)

lemma cell_put [hheap_simps]:
  "slot_ok s p \<Longrightarrow> cell (put_cell s p v) q = (if q = p then Some v else cell s q)"
  "pp (put_cell s p v) n = pp s n"
  "slot_ok s (Next n) \<Longrightarrow> pp (put_pp s n w) m = (if m = n then Some w else pp s m)"
  "cell (put_pp s n w) q = cell s q"
  by (auto simp: cell_def pp_def slot_ok_def put_cell_def put_pp_def option.map_comp comp_def split: slot.splits)

lemma haccess [hheap_simps]:
  "slot_ok s p \<Longrightarrow> read_slot s p = Inr (the (cell s p))"
  "slot_ok s p \<Longrightarrow> write_slot s p v = Inr (put_cell s p v)"
  "slot_ok s (Next n) \<Longrightarrow> get_pprev s n = Inr (the (pp s n))"
  "slot_ok s (Next n) \<Longrightarrow> set_pprev s n w = Inr (put_pp s n w)"
  by (auto simp: slot_ok_def read_slot_def write_slot_def get_pprev_def set_pprev_def hnode_at_def
      cell_def pp_def put_cell_def put_pp_def split: slot.splits)

text \<open>Two heaps that can differ only at some cells and some back pointers.\<close>

definition hsame :: "slot set \<Rightarrow> addr set \<Rightarrow> hheap \<Rightarrow> hheap \<Rightarrow> bool" where
  "hsame T S s s' \<longleftrightarrow> (\<forall>p. p \<notin> T \<longrightarrow> cell s' p = cell s p) \<and> (\<forall>n. n \<notin> S \<longrightarrow> pp s' n = pp s n)
     \<and> slot_ok s' = slot_ok s"

lemma hsame_put:
  "p \<in> T \<Longrightarrow> slot_ok s p \<Longrightarrow> hsame T S s s' \<Longrightarrow> hsame T S s (put_cell s' p v)"
  "n \<in> S \<Longrightarrow> slot_ok s (Next n) \<Longrightarrow> hsame T S s s' \<Longrightarrow> hsame T S s (put_pp s' n w)"
  "hsame T S s s"
  by (auto simp: hsame_def hheap_simps)

section \<open>Chains\<close>

fun hseg :: "hheap \<Rightarrow> slot \<Rightarrow> addr list \<Rightarrow> bool" where
  "hseg s p [] \<longleftrightarrow> True"
| "hseg s p (x # xs) \<longleftrightarrow> cell s p = Some x \<and> x \<noteq> 0 \<and> pp s x = Some (Some p) \<and> hseg s (Next x) xs"

definition end_slot :: "slot \<Rightarrow> addr list \<Rightarrow> slot" where
  "end_slot p xs = (if xs = [] then p else Next (last xs))"

definition hchain :: "hheap \<Rightarrow> slot \<Rightarrow> addr list \<Rightarrow> bool" where
  "hchain s p xs \<longleftrightarrow> hseg s p xs \<and> cell s (end_slot p xs) = Some 0"

lemma end_slot_simps [simp]:
  "end_slot p [] = p" "end_slot p (x # xs) = end_slot (Next x) xs"
  "end_slot p (xs @ ys) = end_slot (end_slot p xs) ys"
  by (auto simp: end_slot_def)

lemma hseg_append: "hseg s p (xs @ ys) \<longleftrightarrow> hseg s p xs \<and> hseg s (end_slot p xs) ys"
  by (induction xs arbitrary: p) auto

lemma hchain_append: "hchain s p (xs @ ys) \<longleftrightarrow> hseg s p xs \<and> hchain s (end_slot p xs) ys"
  by (auto simp: hchain_def hseg_append)

lemma hchain_simps [simp]:
  "hchain s p [] \<longleftrightarrow> cell s p = Some 0"
  "hchain s p (x # xs) \<longleftrightarrow> cell s p = Some x \<and> x \<noteq> 0 \<and> pp s x = Some (Some p) \<and> hchain s (Next x) xs"
  by (auto simp: hchain_def)

lemma hseg_frame:
  "hseg s p xs \<Longrightarrow> (xs \<noteq> [] \<longrightarrow> cell s' p = cell s p) \<Longrightarrow>
   (\<And>x. x \<in> set (butlast xs) \<Longrightarrow> cell s' (Next x) = cell s (Next x)) \<Longrightarrow>
   (\<And>x. x \<in> set xs \<Longrightarrow> pp s' x = pp s x) \<Longrightarrow> hseg s' p xs"
proof (induction xs arbitrary: p)
  case (Cons x xs)
  have "w \<in> set (butlast xs) \<Longrightarrow> w \<in> set (butlast (x # xs))" "xs \<noteq> [] \<Longrightarrow> x \<in> set (butlast (x # xs))" for w
    by auto
  then have "hseg s' (Next x) xs"
    by (intro Cons.IH) (use Cons.prems(1) in \<open>auto intro: Cons.prems(3,4) simp del: butlast.simps\<close>)
  then show ?case using Cons.prems by simp
qed simp

lemma hchain_frame:
  "hchain s p xs \<Longrightarrow> cell s' p = cell s p \<Longrightarrow>
   (\<And>x. x \<in> set xs \<Longrightarrow> cell s' (Next x) = cell s (Next x)) \<Longrightarrow>
   (\<And>x. x \<in> set xs \<Longrightarrow> pp s' x = pp s x) \<Longrightarrow> hchain s' p xs"
  by (induction xs arbitrary: p) auto

text \<open>The first element of a chain or NULL.\<close>

definition hfront :: "addr list \<Rightarrow> addr" where
  "hfront xs = (case xs of [] \<Rightarrow> 0 | x # _ \<Rightarrow> x)"

lemma hfront_simps [simp]: "hfront [] = 0" "hfront (x # xs) = x"
  by (simp_all add: hfront_def)

lemma hchain_cell: "hchain s p xs \<Longrightarrow> cell s p = Some (hfront xs)"
  by (cases xs) auto

lemma hfront_0: "hchain s p xs \<Longrightarrow> hfront xs = 0 \<longleftrightarrow> xs = []"
  by (cases xs) auto

text \<open>A head of a chain is never the slot of an element after it.\<close>

lemma end_slot_not:
  "distinct (xs @ ys) \<Longrightarrow> y \<in> set ys \<Longrightarrow> p \<noteq> Next y \<Longrightarrow> Next y \<noteq> end_slot p xs"
  by (cases xs rule: rev_cases) (auto simp: end_slot_def)

text \<open>The chain after an insertion, and after a removal, read off the changed cells.\<close>

lemma hchain_insert:
  assumes c: "hchain s p (xs @ ys)" and d: "distinct (xs @ n # ys)" "n \<noteq> 0" "\<forall>x. p \<noteq> Next x"
    and t: "cell s' (end_slot p xs) = Some n" "pp s' n = Some (Some (end_slot p xs))"
    and m: "cell s' (Next n) = cell s (end_slot p xs)"
    and f: "ys \<noteq> [] \<longrightarrow> pp s' (hd ys) = Some (Some (Next n))"
    and r: "\<And>q. q \<noteq> end_slot p xs \<Longrightarrow> q \<noteq> Next n \<Longrightarrow> cell s' q = cell s q"
      "\<And>x. x \<noteq> n \<Longrightarrow> (ys \<noteq> [] \<longrightarrow> x \<noteq> hd ys) \<Longrightarrow> pp s' x = pp s x"
  shows "hchain s' p (xs @ n # ys)"
proof -
  have c': "hseg s p xs" "hchain s (end_slot p xs) ys" using c by (auto simp: hchain_append)
  have "hseg s' p xs"
  proof (rule hseg_frame [OF c'(1)])
    show "xs \<noteq> [] \<longrightarrow> cell s' p = cell s p" using r(1) d(3) by (auto simp: end_slot_def)
    show "cell s' (Next x) = cell s (Next x)" if "x \<in> set (butlast xs)" for x
    proof (rule r(1))
      have "xs \<noteq> []" "x \<noteq> last xs" "x \<in> set xs"
        using that d(1) by (cases xs rule: rev_cases; auto)+
      then show "Next x \<noteq> end_slot p xs" "Next x \<noteq> Next n" using d(1) by (auto simp: end_slot_def)
    qed
    show "pp s' x = pp s x" if "x \<in> set xs" for x
      by (rule r(2)) (use that d(1) in \<open>auto simp: neq_Nil_conv\<close>)
  qed
  moreover have "hchain s' (Next n) ys"
  proof (cases ys)
    case Nil
    then show ?thesis using m c'(2) by simp
  next
    case (Cons y zs)
    have ne: "Next w \<noteq> end_slot p xs" "w \<noteq> n" if "w \<in> set ys" for w
      using end_slot_not [of xs ys w p] that d by auto
    have "hchain s' (Next y) zs"
    proof (rule hchain_frame)
      show "hchain s (Next y) zs" using c'(2) Cons by simp
      show "cell s' (Next y) = cell s (Next y)" by (rule r(1)) (use ne [of y] Cons in auto)
      fix x assume x: "x \<in> set zs"
      show "cell s' (Next x) = cell s (Next x)" by (rule r(1)) (use ne [of x] x Cons in auto)
      show "pp s' x = pp s x" by (rule r(2)) (use ne [of x] x Cons d(1) in auto)
    qed
    then show ?thesis using m c'(2) f Cons by simp
  qed
  ultimately show ?thesis using t d(2) by (simp add: hchain_append)
qed

lemma hchain_remove:
  assumes c: "hchain s p (xs @ n # ys)" and d: "distinct (xs @ n # ys)" "\<forall>x. p \<noteq> Next x"
    and t: "cell s' (end_slot p xs) = cell s (Next n)"
    and f: "ys \<noteq> [] \<longrightarrow> pp s' (hd ys) = Some (Some (end_slot p xs))"
    and r: "\<And>q. q \<noteq> end_slot p xs \<Longrightarrow> q \<noteq> Next n \<Longrightarrow> cell s' q = cell s q"
      "\<And>x. x \<noteq> n \<Longrightarrow> (ys \<noteq> [] \<longrightarrow> x \<noteq> hd ys) \<Longrightarrow> pp s' x = pp s x"
  shows "hchain s' p (xs @ ys)"
proof -
  have c': "hseg s p xs" "hchain s (Next n) ys" using c by (auto simp: hchain_append)
  have "hseg s' p xs"
  proof (rule hseg_frame [OF c'(1)])
    show "xs \<noteq> [] \<longrightarrow> cell s' p = cell s p" using r(1) d(2) by (auto simp: end_slot_def)
    show "cell s' (Next x) = cell s (Next x)" if "x \<in> set (butlast xs)" for x
    proof (rule r(1))
      have "xs \<noteq> []" "x \<noteq> last xs" "x \<in> set xs"
        using that d(1) by (cases xs rule: rev_cases; auto)+
      then show "Next x \<noteq> end_slot p xs" "Next x \<noteq> Next n" using d(1) by (auto simp: end_slot_def)
    qed
    show "pp s' x = pp s x" if "x \<in> set xs" for x
      by (rule r(2)) (use that d(1) in \<open>auto simp: neq_Nil_conv\<close>)
  qed
  moreover have "hchain s' (end_slot p xs) ys"
  proof (cases ys)
    case Nil
    then show ?thesis using t c'(2) by simp
  next
    case (Cons y zs)
    have ne: "Next w \<noteq> end_slot p xs" "w \<noteq> n" if "w \<in> set ys" for w
      using end_slot_not [of xs ys w p] that d by auto
    have "hchain s' (Next y) zs"
    proof (rule hchain_frame)
      show "hchain s (Next y) zs" using c'(2) Cons by simp
      show "cell s' (Next y) = cell s (Next y)" by (rule r(1)) (use ne [of y] Cons in auto)
      fix x assume x: "x \<in> set zs"
      show "cell s' (Next x) = cell s (Next x)" by (rule r(1)) (use ne [of x] x Cons in auto)
      show "pp s' x = pp s x" by (rule r(2)) (use ne [of x] x Cons d(1) in auto)
    qed
    then show ?thesis using t c'(2) f Cons by simp
  qed
  ultimately show ?thesis by (simp add: hchain_append)
qed

section \<open>The specification\<close>

text \<open>
  The elements of every list by the address of its head, and the nodes that are unhashed.
  \<open>H\<close> and \<open>N\<close> are the addresses of heads and nodes the client may use.
\<close>

type_synonym hlists = "lists \<times> addr set"

definition helems :: "lists \<Rightarrow> addr set" where
  "helems A = {x. \<exists>h xs. A h = Some xs \<and> x \<in> set xs}"

definition hlists_ok :: "addr set \<Rightarrow> addr set \<Rightarrow> hheap \<Rightarrow> hlists \<Rightarrow> bool" where
  "hlists_ok H N s = (\<lambda>(A, U). (\<forall>h\<in>H. slot_ok s (First h)) \<and> (\<forall>n\<in>N. slot_ok s (Next n))
     \<and> (\<forall>h xs. A h = Some xs \<longrightarrow> h \<in> H \<and> set xs \<subseteq> N \<and> distinct xs \<and> hchain s (First h) xs)
     \<and> (\<forall>h k xs ys. A h = Some xs \<longrightarrow> A k = Some ys \<longrightarrow> h \<noteq> k \<longrightarrow> set xs \<inter> set ys = {})
     \<and> U \<subseteq> N \<and> U \<inter> helems A = {} \<and> (\<forall>n\<in>U. pp s n = Some None \<and> cell s (Next n) = Some 0))"

lemma hlists_okD:
  assumes "hlists_ok H N s (A, U)"
  shows "h \<in> H \<Longrightarrow> slot_ok s (First h)" "n \<in> N \<Longrightarrow> slot_ok s (Next n)"
    and "A h = Some xs \<Longrightarrow> h \<in> H \<and> set xs \<subseteq> N \<and> distinct xs \<and> hchain s (First h) xs"
    and "A h = Some xs \<Longrightarrow> A k = Some ys \<Longrightarrow> h \<noteq> k \<Longrightarrow> set xs \<inter> set ys = {}"
    and "n \<in> U \<Longrightarrow> n \<in> N \<and> n \<notin> helems A \<and> pp s n = Some None \<and> cell s (Next n) = Some 0"
  using assms unfolding hlists_ok_def by blast+

lemma helemsI: "A h = Some xs \<Longrightarrow> x \<in> set xs \<Longrightarrow> x \<in> helems A"
  by (auto simp: helems_def)

datatype hlist_cmd =
    Init_HHead addr | Init_HNode addr
  | HAdd_Head addr addr | HAdd_Before addr addr | HAdd_After addr addr
  | HDel addr | HDel_Init addr
  | HMove addr addr

fun hlist_exec :: "hlist_cmd \<Rightarrow> hheap \<Rightarrow> fault + hheap" where
  "hlist_exec (Init_HHead h) s = INIT_HLIST_HEAD s h"
| "hlist_exec (Init_HNode n) s = INIT_HLIST_NODE s n"
| "hlist_exec (HAdd_Head n h) s = hlist_add_head s n h"
| "hlist_exec (HAdd_Before n x) s = hlist_add_before s n x"
| "hlist_exec (HAdd_After x n) s = hlist_add_after s x n"
| "hlist_exec (HDel n) s = hlist_del s n"
| "hlist_exec (HDel_Init n) s = hlist_del_init s n"
| "hlist_exec (HMove k l) s = hlist_move_list s k l"

definition on_all :: "(addr list \<Rightarrow> addr list) \<Rightarrow> lists \<Rightarrow> lists" where
  "on_all f A = (\<lambda>h. map_option f (A h))"

definition before :: "addr \<Rightarrow> addr \<Rightarrow> addr list \<Rightarrow> addr list" where
  "before n x ys = concat (map (\<lambda>y. if y = x then [n, y] else [y]) ys)"

definition after :: "addr \<Rightarrow> addr \<Rightarrow> addr list \<Rightarrow> addr list" where
  "after n x ys = concat (map (\<lambda>y. if y = x then [y, n] else [y]) ys)"

definition spare :: "addr set \<Rightarrow> lists \<Rightarrow> addr \<Rightarrow> bool" where
  "spare N A n \<longleftrightarrow> n \<in> N \<and> n \<notin> helems A"

fun hlist_step :: "addr set \<Rightarrow> addr set \<Rightarrow> hlist_cmd \<Rightarrow> hlists \<Rightarrow> hlists option" where
  "hlist_step H N (Init_HHead h) (A, U) = (if h \<in> H then Some (A(h \<mapsto> []), U) else None)"
| "hlist_step H N (Init_HNode n) (A, U) = (if spare N A n then Some (A, insert n U) else None)"
| "hlist_step H N (HAdd_Head n h) (A, U) =
     (if spare N A n then (case A h of None \<Rightarrow> None | Some xs \<Rightarrow> Some (A(h \<mapsto> n # xs), U - {n})) else None)"
| "hlist_step H N (HAdd_Before n x) (A, U) =
     (if spare N A n \<and> elem A x then Some (on_all (before n x) A, U - {n}) else None)"
| "hlist_step H N (HAdd_After x n) (A, U) =
     (if spare N A n \<and> elem A x then Some (on_all (after n x) A, U - {n}) else None)"
| "hlist_step H N (HDel n) (A, U) = (if elem A n then Some (on_all (remove1 n) A, insert n U) else None)"
| "hlist_step H N (HDel_Init n) (A, U) =
     (if elem A n then Some (on_all (remove1 n) A, insert n U)
      else if n \<in> U then Some (A, U) else None)"
| "hlist_step H N (HMove k l) (A, U) =
     (if k \<noteq> l \<and> l \<in> H then (case A k of None \<Rightarrow> None | Some xs \<Rightarrow> Some (A(l \<mapsto> xs, k \<mapsto> []), U)) else None)"

section \<open>Each operation implements its specification\<close>

lemma on_all_one:
  assumes ok: "hlists_ok H N s (A, U)" and h: "A h = Some xs" "x \<in> set xs"
    and f: "\<And>ys. x \<notin> set ys \<Longrightarrow> f ys = ys"
  shows "on_all f A = A(h \<mapsto> f xs)"
proof
  fix k
  have "x \<notin> set ys" if "A k = Some ys" "k \<noteq> h" for ys
    using hlists_okD(4) [OF ok that(1) h(1) that(2)] h(2) by blast
  then show "on_all f A k = (A(h \<mapsto> f xs)) k"
    using h f by (cases "A k") (auto simp: on_all_def)
qed

lemma before_after:
  "x \<notin> set ys \<Longrightarrow> before n x ys = ys" "x \<notin> set ys \<Longrightarrow> after n x ys = ys"
  "x \<notin> set ys \<Longrightarrow> x \<notin> set zs \<Longrightarrow> before n x (ys @ x # zs) = ys @ n # x # zs"
  "x \<notin> set ys \<Longrightarrow> x \<notin> set zs \<Longrightarrow> after n x (ys @ x # zs) = ys @ x # n # zs"
proof -
  have c: "concat (map (\<lambda>y. if y = x then a else [y]) ys) = ys" if "x \<notin> set ys" for a ys
    using that by (induction ys) auto
  show "x \<notin> set ys \<Longrightarrow> before n x ys = ys" "x \<notin> set ys \<Longrightarrow> after n x ys = ys"
    "x \<notin> set ys \<Longrightarrow> x \<notin> set zs \<Longrightarrow> before n x (ys @ x # zs) = ys @ n # x # zs"
    "x \<notin> set ys \<Longrightarrow> x \<notin> set zs \<Longrightarrow> after n x (ys @ x # zs) = ys @ x # n # zs"
    using c [of ys "[n, x]"] c [of ys "[x, n]"] c [of zs "[n, x]"] c [of zs "[x, n]"]
    by (auto simp: before_def after_def if_distrib cong: if_cong)
qed

text \<open>One list is changed: elements can leave it, fresh nodes \<open>F\<close> can come in.\<close>

lemma hlists_change:
  assumes ok: "hlists_ok H N s (A, U)" and h: "A h = Some xs" and S: "hsame T S s s'"
    and TS: "T \<subseteq> insert (First h) (Next ` (set xs \<union> F))" "S \<subseteq> set xs \<union> F"
    and F: "F \<subseteq> N" "F \<inter> helems A = {}"
    and ys: "set ys \<subseteq> set xs \<union> F" "distinct ys" "hchain s' (First h) ys"
    and U': "\<And>n. n \<in> U' \<Longrightarrow> n \<in> U \<and> n \<notin> F
      \<or> n \<in> set xs \<union> F \<and> n \<notin> set ys \<and> pp s' n = Some None \<and> cell s' (Next n) = Some 0"
  shows "hlists_ok H N s' (A(h \<mapsto> ys), U')"
proof -
  have sl: "slot_ok s' = slot_ok s" using S by (simp add: hsame_def)
  have xs: "h \<in> H" "set xs \<subseteq> N" using hlists_okD(3) [OF ok h] by auto
  have out: "set zs \<inter> (set xs \<union> F) = {}" if "A k = Some zs" "k \<noteq> h" for k zs
    using hlists_okD(4) [OF ok that(1) h that(2)] F(2) helemsI [of A k zs] that(1) by blast
  have far: "hchain s' (First k) zs" if k: "A k = Some zs" "k \<noteq> h" for k zs
  proof (rule hchain_frame [where s = s])
    show "hchain s (First k) zs" using hlists_okD(3) [OF ok k(1)] by blast
    show "cell s' (First k) = cell s (First k)" using S TS(1) k(2) by (auto simp: hsame_def)
    fix x assume "x \<in> set zs"
    then have "Next x \<notin> T" "x \<notin> S" using out [OF k] TS by auto
    then show "cell s' (Next x) = cell s (Next x)" "pp s' x = pp s x" using S by (auto simp: hsame_def)
  qed
  have un: "n \<in> N \<and> n \<notin> helems (A(h \<mapsto> ys)) \<and> pp s' n = Some None \<and> cell s' (Next n) = Some 0"
    if n: "n \<in> U'" for n
  proof -
    have other: "n \<notin> helems (A(h \<mapsto> ys))" if "n \<notin> set ys" "\<And>k zs. A k = Some zs \<Longrightarrow> k \<noteq> h \<Longrightarrow> n \<notin> set zs"
      using that by (auto simp: helems_def split: if_splits)
    from U' [OF n] show ?thesis
    proof (elim disjE conjE)
      assume u: "n \<in> U" "n \<notin> F"
      note d = hlists_okD(5) [OF ok u(1)]
      have nx: "n \<notin> set xs" using d helemsI [of A h xs, OF h] by blast
      have "Next n \<notin> T" "n \<notin> S" using TS nx u(2) by auto
      then have "pp s' n = Some None" "cell s' (Next n) = Some 0" using S d by (auto simp: hsame_def)
      moreover have "n \<notin> helems (A(h \<mapsto> ys))"
        by (rule other) (use d nx u(2) ys(1) helemsI in blast)+
      ultimately show ?thesis using d by simp
    next
      assume g: "n \<in> set xs \<union> F" "n \<notin> set ys" "pp s' n = Some None" "cell s' (Next n) = Some 0"
      have "n \<notin> helems (A(h \<mapsto> ys))" by (rule other) (use g out in blast)+
      then show ?thesis using g xs F(1) by blast
    qed
  qed
  show ?thesis unfolding hlists_ok_def prod.case sl
  proof (intro conjI)
    show "\<forall>h'\<in>H. slot_ok s (First h')" "\<forall>n\<in>N. slot_ok s (Next n)" using hlists_okD(1,2) [OF ok] by auto
    show "\<forall>k zs. (A(h \<mapsto> ys)) k = Some zs \<longrightarrow> k \<in> H \<and> set zs \<subseteq> N \<and> distinct zs \<and> hchain s' (First k) zs"
      using hlists_okD(3) [OF ok] far ys xs F(1) by (auto split: if_splits)
    show "\<forall>k l us vs. (A(h \<mapsto> ys)) k = Some us \<longrightarrow> (A(h \<mapsto> ys)) l = Some vs \<longrightarrow> k \<noteq> l \<longrightarrow> set us \<inter> set vs = {}"
      using hlists_okD(4) [OF ok] out ys(1) by (auto split: if_splits) blast+
  qed (use un in \<open>blast+\<close>)
qed

text \<open>What every insertion does to the heap.\<close>

definition inserted :: "hheap \<Rightarrow> hheap \<Rightarrow> slot \<Rightarrow> addr \<Rightarrow> addr list \<Rightarrow> bool" where
  "inserted s s' p n ys \<longleftrightarrow> cell s' p = Some n \<and> pp s' n = Some (Some p) \<and> cell s' (Next n) = cell s p
     \<and> (ys \<noteq> [] \<longrightarrow> pp s' (hd ys) = Some (Some (Next n))) \<and> hsame {p, Next n} (insert n (set (take 1 ys))) s s'"

lemma insert_ok:
  assumes ok: "hlists_ok H N s (A, U)" and h: "A h = Some (xs @ ys)" and n: "spare N A n"
    and ins: "inserted s s' (end_slot (First h) xs) n ys"
  shows "hlists_ok H N s' (A(h \<mapsto> xs @ n # ys), U - {n})"
proof -
  have l: "distinct (xs @ ys)" "hchain s (First h) (xs @ ys)" using hlists_okD(3) [OF ok h] by auto
  have nn: "n \<notin> set (xs @ ys)" "n \<in> N" using helemsI [of A h "xs @ ys", OF h] n unfolding spare_def by blast+
  have n0: "n \<noteq> 0" using hlists_okD(2) [OF ok nn(2)] by (simp add: slot_ok_def)
  note i = ins [unfolded inserted_def]
  have S: "hsame {end_slot (First h) xs, Next n} (insert n (set (take 1 ys))) s s'" using i by blast
  have "hchain s' (First h) (xs @ n # ys)"
  proof (rule hchain_insert [OF l(2)])
    show "distinct (xs @ n # ys)" using l(1) nn(1) by auto
    show "cell s' q = cell s q" if "q \<noteq> end_slot (First h) xs" "q \<noteq> Next n" for q
      using S that by (auto simp: hsame_def)
    show "pp s' x = pp s x" if "x \<noteq> n" "ys \<noteq> [] \<longrightarrow> x \<noteq> hd ys" for x
      using S that by (cases ys) (auto simp: hsame_def)
  qed (use i n0 in auto)
  moreover have "{end_slot (First h) xs, Next n} \<subseteq> insert (First h) (Next ` (set (xs @ ys) \<union> {n}))"
    by (cases xs rule: rev_cases) (auto simp: end_slot_def)
  moreover have "insert n (set (take 1 ys)) \<subseteq> set (xs @ ys) \<union> {n}" by (auto dest: in_set_takeD)
  ultimately show ?thesis
    by (intro hlists_change [OF ok h S, where F = "{n}"]) (use n l(1) nn in \<open>auto simp: spare_def\<close>)
qed

lemma chain_slots:
  assumes ok: "hlists_ok H N s (A, U)" and h: "A h = Some (xs @ ys)"
  shows "slot_ok s (end_slot (First h) xs)" "ys \<noteq> [] \<Longrightarrow> slot_ok s (Next (hd ys))"
    and "cell s (end_slot (First h) xs) = Some (hfront ys)" "hfront ys = 0 \<longleftrightarrow> ys = []"
    and "ys \<noteq> [] \<Longrightarrow> pp s (hd ys) = Some (Some (end_slot (First h) xs))"
    and "ys \<noteq> [] \<Longrightarrow> hfront ys = hd ys"
proof -
  have l: "h \<in> H" "set (xs @ ys) \<subseteq> N" "hchain s (end_slot (First h) xs) ys"
    using hlists_okD(3) [OF ok h] by (auto simp: hchain_append)
  show "slot_ok s (end_slot (First h) xs)"
    using l hlists_okD(1,2) [OF ok] by (cases xs rule: rev_cases) (auto simp: end_slot_def)
  show "ys \<noteq> [] \<Longrightarrow> slot_ok s (Next (hd ys))" using l hlists_okD(2) [OF ok] by (cases ys) auto
  show "cell s (end_slot (First h) xs) = Some (hfront ys)" by (rule hchain_cell [OF l(3)])
  show "hfront ys = 0 \<longleftrightarrow> ys = []" by (rule hfront_0 [OF l(3)])
  show "ys \<noteq> [] \<Longrightarrow> pp s (hd ys) = Some (Some (end_slot (First h) xs))" using l(3) by (cases ys) auto
  show "ys \<noteq> [] \<Longrightarrow> hfront ys = hd ys" by (cases ys) auto
qed

text \<open>A spare node is none of the nodes of a list.\<close>

lemma spare_not:
  assumes ok: "hlists_ok H N s (A, U)" and h: "A h = Some (xs @ ys)" and n: "spare N A n"
  shows "slot_ok s (Next n)" "Next n \<noteq> end_slot (First h) xs" "ys \<noteq> [] \<Longrightarrow> n \<noteq> hd ys" "n \<notin> set (xs @ ys)"
proof -
  show nn: "n \<notin> set (xs @ ys)" using helemsI [of A h "xs @ ys", OF h] n unfolding spare_def by blast
  then show "Next n \<noteq> end_slot (First h) xs" by (cases xs rule: rev_cases) (auto simp: end_slot_def)
  show "ys \<noteq> [] \<Longrightarrow> n \<noteq> hd ys" using nn by (cases ys) auto
  show "slot_ok s (Next n)" using hlists_okD(2) [OF ok] n by (simp add: spare_def)
qed

lemma add_head_ok:
  assumes ok: "hlists_ok H N s (A, U)" and h: "A h = Some ys" and n: "spare N A n"
  shows "\<exists>s'. hlist_add_head s n h = Inr s' \<and> hlists_ok H N s' (A(h \<mapsto> n # ys), U - {n})"
proof -
  have h': "A h = Some ([] @ ys)" using h by simp
  note c = chain_slots [OF ok h', simplified] and d = spare_not [OF ok h' n, simplified]
  let ?t = "put_cell s (Next n) (hfront ys)"
  let ?u = "if hfront ys \<noteq> 0 then put_pp ?t (hd ys) (Some (Next n)) else ?t"
  let ?s = "put_pp (put_cell ?u (First h) n) n (Some (First h))"
  have "hlist_add_head s n h = Inr ?s"
    using c d by (auto simp: hlist_add_head_def hheap_simps)
  moreover have "inserted s ?s (end_slot (First h) []) n ys"
    unfolding inserted_def using c d
    by (cases ys) (auto simp: hheap_simps intro!: hsame_put)
  ultimately show ?thesis using insert_ok [OF ok h' n] by auto
qed

lemma add_before_ok:
  assumes ok: "hlists_ok H N s (A, U)" and h: "A h = Some (xs @ y # ys)" and n: "spare N A n"
  shows "\<exists>s'. hlist_add_before s n y = Inr s' \<and> hlists_ok H N s' (A(h \<mapsto> xs @ n # y # ys), U - {n})"
proof -
  note c = chain_slots [OF ok h, simplified] and d = spare_not [OF ok h n, simplified]
  let ?p = "end_slot (First h) xs"
  let ?s = "put_cell (put_pp (put_cell (put_pp s n (Some ?p)) (Next n) y) y (Some (Next n))) ?p n"
  have "hlist_add_before s n y = Inr ?s"
    using c d by (auto simp: hlist_add_before_def hheap_simps)
  moreover have "inserted s ?s ?p n (y # ys)"
    unfolding inserted_def using c d by (auto simp: hheap_simps intro!: hsame_put)
  ultimately show ?thesis using insert_ok [OF ok h n] by auto
qed

lemma add_after_ok:
  assumes ok: "hlists_ok H N s (A, U)" and h: "A h = Some (xs @ x # ys)" and n: "spare N A n"
  shows "\<exists>s'. hlist_add_after s x n = Inr s' \<and> hlists_ok H N s' (A(h \<mapsto> xs @ x # n # ys), U - {n})"
proof -
  have h': "A h = Some ((xs @ [x]) @ ys)" using h by simp
  have e: "end_slot (First h) (xs @ [x]) = Next x" by (simp add: end_slot_def)
  note c = chain_slots [OF ok h', unfolded e] and d = spare_not [OF ok h' n, unfolded e]
  let ?t = "put_pp (put_cell (put_cell s (Next n) (hfront ys)) (Next x) n) n (Some (Next x))"
  let ?s = "if hfront ys \<noteq> 0 then put_pp ?t (hd ys) (Some (Next n)) else ?t"
  have "hlist_add_after s x n = Inr ?s"
    using c d by (auto simp: hlist_add_after_def hheap_simps)
  moreover have "inserted s ?s (end_slot (First h) (xs @ [x])) n ys"
    unfolding inserted_def e using c d by (cases ys) (auto simp: hheap_simps intro!: hsame_put)
  ultimately show ?thesis using insert_ok [OF ok h' n] by auto
qed

text \<open>Unlinking, and clearing the node that was taken out.\<close>

lemma unlink_ok:
  assumes ok: "hlists_ok H N s (A, U)" and h: "A h = Some (xs @ n # ys)"
  shows "\<exists>s'. bindE (hlist_unlink s n) (\<lambda>s. bindE (write_slot s (Next n) 0) (\<lambda>s. set_pprev s n None)) = Inr s'
    \<and> hlists_ok H N s' (A(h \<mapsto> xs @ ys), insert n U)"
proof -
  have h': "A h = Some ((xs @ [n]) @ ys)" using h by simp
  have e: "end_slot (First h) (xs @ [n]) = Next n" by (simp add: end_slot_def)
  let ?p = "end_slot (First h) xs"
  note c = chain_slots [OF ok h, simplified] and k = chain_slots [OF ok h', unfolded e]
  have l: "distinct (xs @ n # ys)" "hchain s (First h) (xs @ n # ys)" using hlists_okD(3) [OF ok h] by auto
  have pn: "?p \<noteq> Next n" using l(1) by (cases xs rule: rev_cases) (auto simp: end_slot_def)
  have ny: "ys \<noteq> [] \<Longrightarrow> hd ys \<noteq> n" using l(1) by (cases ys) auto
  let ?t = "put_cell s ?p (hfront ys)"
  let ?u = "if hfront ys \<noteq> 0 then put_pp ?t (hd ys) (Some ?p) else ?t"
  let ?s = "put_pp (put_cell ?u (Next n) 0) n None"
  have "bindE (hlist_unlink s n) (\<lambda>s. bindE (write_slot s (Next n) 0) (\<lambda>s. set_pprev s n None)) = Inr ?s"
    using c k by (auto simp: hlist_unlink_def hheap_simps)
  moreover have S: "hsame {?p, Next n} (insert n (set (take 1 ys))) s ?s"
    using c k by (cases ys) (auto intro!: hsame_put)
  have "hchain ?s (First h) (xs @ ys)"
  proof (rule hchain_remove [OF l(2,1)])
    show "cell ?s ?p = cell s (Next n)" using c k pn by (auto simp: hheap_simps)
    show "ys \<noteq> [] \<longrightarrow> pp ?s (hd ys) = Some (Some ?p)" using c k ny by (auto simp: hheap_simps)
    show "cell ?s q = cell s q" if "q \<noteq> ?p" "q \<noteq> Next n" for q using S that by (auto simp: hsame_def)
    show "pp ?s x = pp s x" if "x \<noteq> n" "ys \<noteq> [] \<longrightarrow> x \<noteq> hd ys" for x
      using S that by (cases ys) (auto simp: hsame_def)
  qed simp
  moreover have "{?p, Next n} \<subseteq> insert (First h) (Next ` (set (xs @ n # ys) \<union> {}))"
    by (cases xs rule: rev_cases) (auto simp: end_slot_def)
  moreover have "insert n (set (take 1 ys)) \<subseteq> set (xs @ n # ys) \<union> {}" by (auto dest: in_set_takeD)
  moreover have "pp ?s n = Some None" "cell ?s (Next n) = Some 0"
    using c k by (auto simp: hheap_simps)
  ultimately have "hlists_ok H N ?s (A(h \<mapsto> xs @ ys), insert n U)"
    by (intro hlists_change [OF ok h S, where F = "{}"]) (use l(1) in auto)
  then show ?thesis
    using \<open>bindE (hlist_unlink s n) (\<lambda>s. bindE (write_slot s (Next n) 0) (\<lambda>s. set_pprev s n None)) = Inr ?s\<close> by blast
qed

lemma init_head_ok:
  assumes ok: "hlists_ok H N s (A, U)" and h: "h \<in> H"
  shows "\<exists>s'. INIT_HLIST_HEAD s h = Inr s' \<and> hlists_ok H N s' (A(h \<mapsto> []), U)"
proof -
  have g: "slot_ok s (First h)" by (rule hlists_okD(1) [OF ok h])
  let ?s = "put_cell s (First h) 0"
  have S: "hsame {First h} {} s ?s" using g by (auto intro!: hsame_put)
  have c: "cell ?s (First h) = Some 0" using g by (simp add: hheap_simps)
  have "hlists_ok H N ?s (A(h \<mapsto> []), U)"
  proof (cases "A h")
    case (Some xs)
    show ?thesis by (rule hlists_change [OF ok Some S, where F = "{}"]) (use c in auto)
  next
    case None
    have k: "hchain ?s (First k) zs" if "A k = Some zs" for k zs
    proof (rule hchain_frame [where s = s])
      show "hchain s (First k) zs" using hlists_okD(3) [OF ok that] by blast
      have "k \<noteq> h" using None that by auto
      then show "cell ?s (First k) = cell s (First k)" using S by (simp add: hsame_def)
    qed (use S in \<open>auto simp: hsame_def\<close>)
    have e: "helems (A(h \<mapsto> [])) = helems A" using None by (auto simp: helems_def split: if_splits) (metis option.distinct(1))
    show ?thesis unfolding hlists_ok_def prod.case e
    proof (intro conjI)
      show "\<forall>h\<in>H. slot_ok ?s (First h)" "\<forall>n\<in>N. slot_ok ?s (Next n)" using hlists_okD(1,2) [OF ok] by auto
      show "\<forall>k xs. (A(h \<mapsto> [])) k = Some xs \<longrightarrow> k \<in> H \<and> set xs \<subseteq> N \<and> distinct xs \<and> hchain ?s (First k) xs"
        using hlists_okD(3) [OF ok] k h c by auto
      show "\<forall>k l us vs. (A(h \<mapsto> [])) k = Some us \<longrightarrow> (A(h \<mapsto> [])) l = Some vs \<longrightarrow> k \<noteq> l \<longrightarrow> set us \<inter> set vs = {}"
        using hlists_okD(4) [OF ok] by auto
      show "\<forall>n\<in>U. pp ?s n = Some None \<and> cell ?s (Next n) = Some 0"
        using hlists_okD(5) [OF ok] S by (auto simp: hsame_def)
    qed (use hlists_okD(5) [OF ok] in blast)+
  qed
  then show ?thesis using g by (simp add: INIT_HLIST_HEAD_def hheap_simps)
qed

lemma init_node_ok:
  assumes ok: "hlists_ok H N s (A, U)" and n: "spare N A n"
  shows "\<exists>s'. INIT_HLIST_NODE s n = Inr s' \<and> hlists_ok H N s' (A, insert n U)"
proof -
  have g: "slot_ok s (Next n)" using hlists_okD(2) [OF ok] n by (simp add: spare_def)
  let ?s = "put_pp (put_cell s (Next n) 0) n None"
  have S: "hsame {Next n} {n} s ?s" using g by (auto intro!: hsame_put)
  have k: "hchain ?s (First k) zs" if "A k = Some zs" for k zs
  proof (rule hchain_frame [where s = s])
    show "hchain s (First k) zs" using hlists_okD(3) [OF ok that] by blast
    have "n \<notin> set zs" using n helemsI [of A k zs, OF that] by (auto simp: spare_def)
    then show "\<And>x. x \<in> set zs \<Longrightarrow> cell ?s (Next x) = cell s (Next x)" "\<And>x. x \<in> set zs \<Longrightarrow> pp ?s x = pp s x"
      using S by (auto simp: hsame_def)
  qed (use S in \<open>auto simp: hsame_def\<close>)
  have "hlists_ok H N ?s (A, insert n U)" unfolding hlists_ok_def prod.case
  proof (intro conjI)
    show "\<forall>h\<in>H. slot_ok ?s (First h)" "\<forall>n\<in>N. slot_ok ?s (Next n)" using hlists_okD(1,2) [OF ok] by auto
    show "\<forall>k xs. A k = Some xs \<longrightarrow> k \<in> H \<and> set xs \<subseteq> N \<and> distinct xs \<and> hchain ?s (First k) xs"
      using hlists_okD(3) [OF ok] k by auto
    show "\<forall>k l us vs. A k = Some us \<longrightarrow> A l = Some vs \<longrightarrow> k \<noteq> l \<longrightarrow> set us \<inter> set vs = {}"
      using hlists_okD(4) [OF ok] by blast
    show "\<forall>m\<in>insert n U. pp ?s m = Some None \<and> cell ?s (Next m) = Some 0"
      using hlists_okD(5) [OF ok] g by (auto simp: hheap_simps)
    show "insert n U \<subseteq> N" "insert n U \<inter> helems A = {}" using hlists_okD(5) [OF ok] n by (auto simp: spare_def)
  qed
  then show ?thesis using g by (simp add: INIT_HLIST_NODE_def hheap_simps)
qed

lemma move_list_ok:
  assumes ok: "hlists_ok H N s (A, U)" and k: "A k = Some xs" and l: "l \<in> H" "k \<noteq> l"
  shows "\<exists>s'. hlist_move_list s k l = Inr s' \<and> hlists_ok H N s' (A(l \<mapsto> xs, k \<mapsto> []), U)"
proof -
  have kk: "A k = Some ([] @ xs)" using k by simp
  note c = chain_slots [OF ok kk, simplified]
  have K: "k \<in> H" "set xs \<subseteq> N" "distinct xs" "hchain s (First k) xs" using hlists_okD(3) [OF ok k] by auto
  have g: "slot_ok s (First l)" by (rule hlists_okD(1) [OF ok l(1)])
  let ?t = "put_cell s (First l) (hfront xs)"
  let ?u = "if hfront xs \<noteq> 0 then put_pp ?t (hd xs) (Some (First l)) else ?t"
  let ?s = "put_cell ?u (First k) 0"
  have run: "hlist_move_list s k l = Inr ?s"
    using c g l(2) by (auto simp: hlist_move_list_def hheap_simps)
  have S: "hsame {First k, First l} (set (take 1 xs)) s ?s" using c g by (cases xs) (auto intro!: hsame_put)
  have L: "hchain ?s (First l) xs"
  proof (cases xs)
    case Nil
    then show ?thesis using g l(2) c by (auto simp: hheap_simps)
  next
    case (Cons x ys)
    have "hchain ?s (Next x) ys"
      by (rule hchain_frame [where s = s]) (use K Cons S in \<open>auto simp: hsame_def\<close>)
    then show ?thesis using Cons K(4) g l(2) c by (auto simp: hheap_simps)
  qed
  have far: "hchain ?s (First j) zs" if j: "A j = Some zs" "j \<noteq> k" "j \<noteq> l" for j zs
  proof (rule hchain_frame [where s = s])
    show "hchain s (First j) zs" using hlists_okD(3) [OF ok j(1)] by blast
    have "set zs \<inter> set (take 1 xs) = {}"
      using hlists_okD(4) [OF ok j(1) k j(2)] by (auto dest: in_set_takeD)
    then show "\<And>x. x \<in> set zs \<Longrightarrow> cell ?s (Next x) = cell s (Next x)" "\<And>x. x \<in> set zs \<Longrightarrow> pp ?s x = pp s x"
      using S by (auto simp: hsame_def)
  qed (use S j in \<open>auto simp: hsame_def\<close>)
  let ?B = "A(l \<mapsto> xs, k \<mapsto> [])"
  have e: "helems ?B \<subseteq> helems A"
    using k l(2) by (auto simp: helems_def split: if_splits)
  have "hlists_ok H N ?s (?B, U)" unfolding hlists_ok_def prod.case
  proof (intro conjI)
    show "\<forall>h\<in>H. slot_ok ?s (First h)" "\<forall>n\<in>N. slot_ok ?s (Next n)" using hlists_okD(1,2) [OF ok] by auto
    have "cell ?s (First k) = Some 0" using c by (auto simp: hheap_simps)
    then show "\<forall>j zs. ?B j = Some zs \<longrightarrow> j \<in> H \<and> set zs \<subseteq> N \<and> distinct zs \<and> hchain ?s (First j) zs"
      using hlists_okD(3) [OF ok] far K L l by auto
    show "\<forall>i j us vs. ?B i = Some us \<longrightarrow> ?B j = Some vs \<longrightarrow> i \<noteq> j \<longrightarrow> set us \<inter> set vs = {}"
      using hlists_okD(4) [OF ok] k l(2) by auto
    show "\<forall>n\<in>U. pp ?s n = Some None \<and> cell ?s (Next n) = Some 0"
    proof
      fix n assume n: "n \<in> U"
      then have "n \<notin> set (take 1 xs)" using hlists_okD(5) [OF ok n] helemsI [of A k xs, OF k] by (auto dest: in_set_takeD)
      then show "pp ?s n = Some None \<and> cell ?s (Next n) = Some 0"
        using hlists_okD(5) [OF ok n] S by (auto simp: hsame_def)
    qed
  qed (use hlists_okD(5) [OF ok] e in blast)+
  then show ?thesis using run by blast
qed

lemma del_cases:
  assumes ok: "hlists_ok H N s (A, U)"
  shows "elem A n \<Longrightarrow> \<exists>s'. hlist_del s n = Inr s' \<and> hlists_ok H N s' (on_all (remove1 n) A, insert n U)"
    and "elem A n \<Longrightarrow> \<exists>s'. hlist_del_init s n = Inr s' \<and> hlists_ok H N s' (on_all (remove1 n) A, insert n U)"
    and "n \<in> U \<Longrightarrow> hlist_del_init s n = Inr s"
proof -
  assume n: "n \<in> U"
  have "slot_ok s (Next n)" "pp s n = Some None" using hlists_okD(2,5) [OF ok] n by blast+
  then show "hlist_del_init s n = Inr s" by (simp add: hlist_del_init_def hlist_unhashed_def hheap_simps)
next
  assume "elem A n"
  then obtain h xs ys where h: "A h = Some (xs @ n # ys)" using elem_split by blast
  have d: "distinct (xs @ n # ys)" "hchain s (First h) (xs @ n # ys)" using hlists_okD(3) [OF ok h] by auto
  have "on_all (remove1 n) A = A(h \<mapsto> remove1 n (xs @ n # ys))"
    by (rule on_all_one [OF ok h, of n "remove1 n"]) (simp_all add: remove1_idem)
  then have r: "on_all (remove1 n) A = A(h \<mapsto> xs @ ys)" using d by (simp add: remove1_append)
  obtain s' where s': "bindE (hlist_unlink s n) (\<lambda>s. bindE (write_slot s (Next n) 0) (\<lambda>s. set_pprev s n None)) = Inr s'"
      "hlists_ok H N s' (on_all (remove1 n) A, insert n U)"
    using unlink_ok [OF ok h] unfolding r by blast
  then show "\<exists>s'. hlist_del s n = Inr s' \<and> hlists_ok H N s' (on_all (remove1 n) A, insert n U)"
    by (auto simp: hlist_del_def)
  have "n \<in> N" "pp s n \<noteq> Some None" using hlists_okD(3) [OF ok h] d by (auto simp: hchain_append)
  moreover have "pp s n \<noteq> None" using hlists_okD(2) [OF ok \<open>n \<in> N\<close>] by (auto simp: slot_ok_def pp_def)
  ultimately have "hlist_unhashed s n = Inr False"
    using hlists_okD(2) [OF ok] by (auto simp: hlist_unhashed_def hheap_simps)
  then show "\<exists>s'. hlist_del_init s n = Inr s' \<and> hlists_ok H N s' (on_all (remove1 n) A, insert n U)"
    using s' by (auto simp: hlist_del_init_def INIT_HLIST_NODE_def)
qed

lemma hlist_sim:
  assumes ok: "hlists_ok H N s a" and st: "hlist_step H N c a = Some a'"
  shows "\<exists>s'. hlist_exec c s = Inr s' \<and> hlists_ok H N s' a'"
proof -
  obtain A U where a: "a = (A, U)" by (cases a)
  note ok' = ok [unfolded a] and st' = st [unfolded a]
  show ?thesis
  proof (cases c)
    case (Init_HHead h)
    then show ?thesis using st' init_head_ok [OF ok', of h] by (auto split: if_splits)
  next
    case (Init_HNode n)
    then show ?thesis using st' init_node_ok [OF ok', of n] by (auto split: if_splits)
  next
    case (HAdd_Head n h)
    then show ?thesis using st' add_head_ok [OF ok', of h _ n] by (auto split: if_splits option.splits)
  next
    case (HAdd_Before n x)
    then have x: "spare N A n" "elem A x" "a' = (on_all (before n x) A, U - {n})" using st' by (auto split: if_splits)
    obtain h xs ys where h: "A h = Some (xs @ x # ys)" using elem_split [OF x(2)] by blast
    have "on_all (before n x) A = A(h \<mapsto> xs @ n # x # ys)"
      using on_all_one [OF ok' h, of x "before n x"] before_after hlists_okD(3) [OF ok' h] by auto
    then show ?thesis using add_before_ok [OF ok' h x(1)] x(3) HAdd_Before by simp
  next
    case (HAdd_After x n)
    then have x: "spare N A n" "elem A x" "a' = (on_all (after n x) A, U - {n})" using st' by (auto split: if_splits)
    obtain h xs ys where h: "A h = Some (xs @ x # ys)" using elem_split [OF x(2)] by blast
    have "on_all (after n x) A = A(h \<mapsto> xs @ x # n # ys)"
      using on_all_one [OF ok' h, of x "after n x"] before_after hlists_okD(3) [OF ok' h] by auto
    then show ?thesis using add_after_ok [OF ok' h x(1)] x(3) HAdd_After by simp
  next
    case (HDel n)
    then show ?thesis using st' del_cases(1) [OF ok', of n] by (auto split: if_splits)
  next
    case (HDel_Init n)
    then show ?thesis using st' del_cases(2,3) [OF ok', of n] ok' by (auto split: if_splits)
  next
    case (HMove k l)
    then show ?thesis using st' move_list_ok [OF ok', of k _ l] by (auto split: if_splits option.splits)
  qed
qed

interpretation hlist_machine: simulation hlist_exec "hlist_step H N" "hlists_ok H N" for H N
  by unfold_locales (rule hlist_sim)

section \<open>Loops over a hash list\<close>

lemma hpath:
  assumes ok: "hlists_ok H N s (A, U)" and h: "A h = Some xs"
  shows "path hnext_of s 0 xs" "read_slot s (First h) = Inr (hd (xs @ [0]))"
proof -
  have h': "A h = Some ([] @ xs)" using h by simp
  note c = chain_slots [OF ok h', simplified]
  show "read_slot s (First h) = Inr (hd (xs @ [0]))" using c by (cases xs) (auto simp: hheap_simps)
  have "xs = as @ bs \<Longrightarrow> path hnext_of s 0 bs" for as bs
  proof (induction bs arbitrary: as)
    case (Cons b bs)
    have b: "A h = Some ((as @ [b]) @ bs)" using h Cons.prems by simp
    have e: "end_slot (First h) (as @ [b]) = Next b" by (simp add: end_slot_def)
    have "hnext_of s b = Inr (hd (bs @ [0]))"
      using chain_slots [OF ok b, unfolded e] by (cases bs) (auto simp: hnext_of_def hheap_simps)
    then show ?case using Cons.IH [of "as @ [b]"] Cons.prems by simp
  qed simp
  then show "path hnext_of s 0 xs" by simp
qed

lemma hpath_entry:
  "path hnext_of s 0 xs \<Longrightarrow> 0 \<notin> set xs \<Longrightarrow>
   path (hlist_next_entry off) s 0 (map (\<lambda>x. x - off) xs)"
proof (induction xs)
  case (Cons x xs)
  then show ?case
    by (cases xs) (auto simp: hlist_next_entry_def hlist_entry_safe_def hlist_entry_def container_of_def)
qed simp

text \<open>The loops visit the elements in order and end; a container is never at address 0.\<close>

lemma hlist_loops:
  assumes ok: "hlists_ok H N s (A, U)" and h: "A h = Some xs" and n: "length xs < n"
  shows "hlist_for_each n (reader g) h (s, a) = bindE (foldE g xs a) (\<lambda>a. Inr (s, 0, a))"
    and "off \<notin> set xs \<Longrightarrow> hlist_for_each_entry n (reader g) h off (s, a)
      = bindE (foldE g (map (\<lambda>x. x - off) xs) a) (\<lambda>a. Inr (s, 0, a))"
proof -
  note p = hpath [OF ok h]
  have "set xs \<subseteq> N" using hlists_okD(3) [OF ok h] by blast
  then have nz: "0 \<notin> set xs" using hlists_okD(2) [OF ok, of 0] by (auto simp: slot_ok_def)
  then have nz': "\<forall>x\<in>set xs. x \<noteq> 0" by metis
  show "hlist_for_each n (reader g) h (s, a) = bindE (foldE g xs a) (\<lambda>a. Inr (s, 0, a))"
    using loop_path [OF p(1), where test = "\<lambda>p. p \<noteq> 0" and n = n and g = g and a = a] nz' n p(2)
    by (simp add: hlist_for_each_def)
  assume off: "off \<notin> set xs"
  then have t: "\<forall>p\<in>set (map (\<lambda>x. x - off) xs). p \<noteq> 0" by auto
  have "hlist_entry_safe (hd (xs @ [0])) off = hd (map (\<lambda>x. x - off) xs @ [0])"
    using nz by (cases xs) (auto simp: hlist_entry_safe_def hlist_entry_def container_of_def)
  then show "hlist_for_each_entry n (reader g) h off (s, a)
      = bindE (foldE g (map (\<lambda>x. x - off) xs) a) (\<lambda>a. Inr (s, 0, a))"
    using loop_path [OF hpath_entry [OF p(1) nz, of off], where test = "\<lambda>p. p \<noteq> 0" and n = n and g = g and a = a]
      t n p(2) by (simp add: hlist_for_each_entry_def)
qed

section \<open>Properties\<close>

text \<open>C20. Every run of hash-list operations whose client keeps the contract ends without a fault
  in a heap whose chains, forward and back pointers, are the sequences of the
  specification: adding at the head, before and after an element, deleting, deleting an
  unhashed node with hlist_del_init, and moving a whole list to another head.\<close>

theorem hlist_ops_refine:
  assumes "hlists_ok H N s a" and "steps (hlist_step H N) cs a = Some a'"
  shows "\<exists>s'. runE hlist_exec cs s = Inr s' \<and> hlists_ok H N s' a'"
  by (rule hlist_machine.run [OF assms])

text \<open>The same on a concrete heap.\<close>

definition demo_hheap :: hheap where
  "demo_hheap = \<lparr>heads = [8 \<mapsto> 0, 16 \<mapsto> 0],
     nodes = [32 \<mapsto> \<lparr>hnext = 7, pprev = None\<rparr>, 48 \<mapsto> \<lparr>hnext = 7, pprev = None\<rparr>]\<rparr>"

lemma demo_hlists: "hlists_ok {8, 16} {32, 48} demo_hheap (Map.empty, {})"
  by (auto simp: hlists_ok_def slot_ok_def demo_hheap_def)

theorem hlist_ops_refine_witness:
  "\<exists>s'. runE hlist_exec [Init_HHead 8, Init_HHead 16, Init_HNode 32, HAdd_Head 32 8, HAdd_After 32 48,
       HMove 8 16, HDel 32, HDel_Init 32] demo_hheap = Inr s'
    \<and> hlists_ok {8, 16} {32, 48} s' ([8 \<mapsto> [], 16 \<mapsto> [48]], {32})"
  by (rule hlist_ops_refine [OF demo_hlists])
    (auto simp: spare_def helems_def elem_def on_all_def after_def fun_eq_iff split: if_splits option.splits,
     rule exI [of _ 8], simp)

end
