(* ===== verification/Skip_List.thy ===== *)
theory Skip_List
  imports Comparators Locks
begin

text \<open>
  src/spg_skiplist.c with src/include/ds/spg_skiplist.h. Nodes live in a heap of records;
  address 0 is NULL. Keys are opaque pointers (None is NULL). Level counters only take the
  values 0 to 16 and are integers here. The draws of rand, the node that scalloc gives and
  the clock are arguments. \<open>fuel\<close> bounds the loops over nodes; the lemmas say how much is
  enough.
\<close>

section \<open>State\<close>

type_synonym naddr = u64

record 'k sklnode =
  key :: "'k option"
  lvlNum :: int
  backward :: naddr
  lvl :: "naddr list"

record 'k spg_skl =
  cmpFunc :: "'k option compare"
  level :: int
  len :: u32
  sklhead :: naddr
  skltail :: naddr
  lvlCnt :: "s32 list"
  lock_time_sum :: "64 word"
  ltime_tmp :: "64 word"
  nodes :: "naddr \<rightharpoonup> 'k sklnode"

definition SKIPLIST_LEVEL_MAX :: int where "SKIPLIST_LEVEL_MAX = 16"
definition LEVEL_RANDOM_MASK :: s32 where "LEVEL_RANDOM_MASK = 0xFFFF"
definition LEVEL_HIGH_LIMIT :: s32 where "LEVEL_HIGH_LIMIT = drop_bit 2 LEVEL_RANDOM_MASK"

datatype trav_dir = TRAV_FORWARD | TRAV_BACKWARD | TRAV_BUTT

text \<open>Dereferencing a node pointer, reading and writing \<open>node->lvl[idx].next\<close>.\<close>

definition node :: "'k spg_skl \<Rightarrow> naddr \<Rightarrow> fault + 'k sklnode" where
  "node skl p = (if p = 0 then Inl Null_Deref
     else case nodes skl p of None \<Rightarrow> Inl Dangling | Some n \<Rightarrow> Inr n)"

definition set_node :: "'k spg_skl \<Rightarrow> naddr \<Rightarrow> 'k sklnode \<Rightarrow> 'k spg_skl" where
  "set_node skl p n = skl\<lparr>nodes := (nodes skl)(p \<mapsto> n)\<rparr>"

definition get_lvl :: "'k spg_skl \<Rightarrow> naddr \<Rightarrow> int \<Rightarrow> fault + naddr" where
  "get_lvl skl p idx = bindE (node skl p) (\<lambda>n.
     if 0 \<le> idx \<and> nat idx < length (lvl n) then Inr (lvl n ! nat idx) else Inl Out_Of_Bounds)"

definition set_lvl :: "'k spg_skl \<Rightarrow> naddr \<Rightarrow> int \<Rightarrow> naddr \<Rightarrow> fault + 'k spg_skl" where
  "set_lvl skl p idx v = bindE (node skl p) (\<lambda>n.
     if 0 \<le> idx \<and> nat idx < length (lvl n)
     then Inr (set_node skl p (n\<lparr>lvl := (lvl n)[nat idx := v]\<rparr>)) else Inl Out_Of_Bounds)"

text \<open>\<open>skl->stat.lvlCnt[level-1]\<close> changed by one.\<close>

definition count_level :: "'k spg_skl \<Rightarrow> int \<Rightarrow> s32 \<Rightarrow> fault + 'k spg_skl" where
  "count_level skl l d =
     (if 1 \<le> l \<and> nat (l - 1) < length (lvlCnt skl)
      then Inr (skl\<lparr>lvlCnt := (lvlCnt skl)[nat (l - 1) := lvlCnt skl ! nat (l - 1) + d]\<rparr>)
      else Inl Out_Of_Bounds)"

section \<open>Nodes\<close>

text \<open>\<open>mem\<close> is what scalloc returns: 0 or the address of zeroed memory.\<close>

definition get_sklnode :: "naddr \<Rightarrow> 'k spg_skl \<Rightarrow> int \<Rightarrow> fault + naddr \<times> 'k spg_skl" where
  "get_sklnode mem skl l =
     (let skl = (if mem = 0 then skl
                 else set_node skl mem \<lparr>key = None, lvlNum = 0, backward = 0, lvl = replicate (nat l) 0\<rparr>)
      in bindE (count_level skl l 1) (\<lambda>skl. Inr (mem, skl)))"

definition put_sklnode :: "'k spg_skl \<Rightarrow> naddr \<Rightarrow> fault + 'k spg_skl" where
  "put_sklnode skl p =
     bindE (node skl p) (\<lambda>n.
     bindE (count_level skl (lvlNum n) (- 1)) (\<lambda>skl.
     Inr (skl\<lparr>nodes := (nodes skl)(p := None)\<rparr>)))"

section \<open>Traversal\<close>

text \<open>\<open>func\<close> acts on a state \<open>'w\<close> of the client.\<close>

fun back_loop :: "nat \<Rightarrow> 'k spg_skl \<Rightarrow> ('k option \<Rightarrow> 'w \<Rightarrow> 'w) \<Rightarrow> naddr \<Rightarrow> 'w \<Rightarrow> fault + 'w" where
  "back_loop 0 skl func p w = Inl Diverges"
| "back_loop (Suc fuel) skl func p w =
     bindE (node skl p) (\<lambda>n.
     if backward n \<noteq> 0 then back_loop fuel skl func (backward n) (func (key n) w) else Inr w)"

definition trav_reverse :: "nat \<Rightarrow> 'k spg_skl \<Rightarrow> ('k option \<Rightarrow> 'w \<Rightarrow> 'w) \<Rightarrow> 'w \<Rightarrow> fault + 'w" where
  "trav_reverse fuel skl func w = back_loop fuel skl func (skltail skl) w"

fun next_loop :: "nat \<Rightarrow> 'k spg_skl \<Rightarrow> ('k option \<Rightarrow> 'w \<Rightarrow> 'w) \<Rightarrow> naddr \<Rightarrow> 'w \<Rightarrow> fault + 'w" where
  "next_loop 0 skl func p w = Inl Diverges"
| "next_loop (Suc fuel) skl func p w =
     (if p \<noteq> 0
      then bindE (node skl p) (\<lambda>n.
           bindE (get_lvl skl p 0) (\<lambda>q. next_loop fuel skl func q (func (key n) w)))
      else Inr w)"

definition trav_straight :: "nat \<Rightarrow> 'k spg_skl \<Rightarrow> ('k option \<Rightarrow> 'w \<Rightarrow> 'w) \<Rightarrow> 'w \<Rightarrow> fault + 'w" where
  "trav_straight fuel skl func w =
     bindE (get_lvl skl (sklhead skl) 0) (\<lambda>p. next_loop fuel skl func p w)"

text \<open>A NULL list or callback is logged and ignored; both are given here.\<close>

definition skl_foreach :: "nat \<Rightarrow> 'k spg_skl \<Rightarrow> trav_dir \<Rightarrow> ('k option \<Rightarrow> 'w \<Rightarrow> 'w) \<Rightarrow> 'w \<Rightarrow> fault + 'w" where
  "skl_foreach fuel skl dir func w =
     (if dir = TRAV_FORWARD then trav_straight fuel skl func w else trav_reverse fuel skl func w)"

section \<open>Deletion\<close>

text \<open>The inner loop of skl_delete_node: idx and lvlCur, which starts equal, move together.\<close>

function copy_levels :: "'k spg_skl \<Rightarrow> naddr \<Rightarrow> naddr \<Rightarrow> int \<Rightarrow> int \<Rightarrow> int \<Rightarrow> int \<Rightarrow> fault + 'k spg_skl \<times> int" where
  "copy_levels skl back nd idx lvlCur nodeLvl updLvl =
     (if idx < nodeLvl \<and> idx \<le> updLvl
      then bindE (get_lvl skl nd idx) (\<lambda>q.
           bindE (set_lvl skl back idx q) (\<lambda>skl.
           copy_levels skl back nd (idx + 1) (lvlCur + 1) nodeLvl updLvl))
      else Inr (skl, lvlCur))"
  by pat_completeness auto
termination by (relation "measure (\<lambda>(_, _, _, idx, _, nodeLvl, _). nat (nodeLvl - idx))") auto

declare copy_levels.simps [simp del]

fun unlink_back :: "nat \<Rightarrow> 'k spg_skl \<Rightarrow> naddr \<Rightarrow> naddr \<Rightarrow> int \<Rightarrow> int \<Rightarrow> fault + 'k spg_skl" where
  "unlink_back 0 skl nd back nodeLvl lvlCur = Inl Diverges"
| "unlink_back (Suc fuel) skl nd back nodeLvl lvlCur =
     (if back \<noteq> 0
      then bindE (node skl back) (\<lambda>b.
           let updLvl = lvlNum b - 1 in
           bindE (copy_levels skl back nd lvlCur lvlCur nodeLvl updLvl) (\<lambda>(skl, lvlCur).
           if lvlCur > nodeLvl - 1 then Inr skl
           else bindE (node skl back) (\<lambda>b. unlink_back fuel skl nd (backward b) nodeLvl lvlCur)))
      else Inr skl)"

text \<open>The loop that lowers the level; \<open>k\<close> passes are left.\<close>

fun lower_level :: "nat \<Rightarrow> 'k spg_skl \<Rightarrow> fault + 'k spg_skl" where
  "lower_level 0 skl = Inl Diverges"
| "lower_level (Suc fuel) skl =
     bindE (guardE (level skl > 0) Assert_Failed) (\<lambda>_.
     bindE (get_lvl skl (sklhead skl) (level skl - 1)) (\<lambda>q.
     if q \<noteq> 0 then Inr skl
     else let skl = skl\<lparr>level := level skl - 1\<rparr> in
          if 0 = level skl then Inr skl else lower_level fuel skl))"

definition skl_delete_node :: "nat \<Rightarrow> 'k spg_skl \<Rightarrow> naddr \<Rightarrow> fault + 'k spg_skl" where
  "skl_delete_node fuel skl nd =
     bindE (node skl nd) (\<lambda>n.
     bindE (unlink_back fuel skl nd (backward n) (lvlNum n) 0) (\<lambda>skl.
     bindE (get_lvl skl nd 0) (\<lambda>q.
     bindE (node skl nd) (\<lambda>n.
     bindE (if q \<noteq> 0
            then bindE (node skl q) (\<lambda>m. Inr (set_node skl q (m\<lparr>backward := backward n\<rparr>)))
            else Inr (skl\<lparr>skltail := backward n\<rparr>)) (\<lambda>skl.
     let skl = skl\<lparr>len := len skl - 1\<rparr> in
     bindE (lower_level fuel skl) (\<lambda>skl. put_sklnode skl nd))))))"

section \<open>Search\<close>

text \<open>\<open>prev\<close> is the array of predecessors, or None where the caller passes NULL.\<close>

fun search :: "nat \<Rightarrow> 'k spg_skl \<Rightarrow> 'k option \<Rightarrow> naddr \<Rightarrow> int \<Rightarrow> naddr list option
    \<Rightarrow> fault + naddr \<times> naddr list option" where
  "search 0 skl k base l prev = Inl Diverges"
| "search (Suc fuel) skl k base l prev =
     bindE (get_lvl skl base l) (\<lambda>p.
     bindE (if p \<noteq> 0 then bindE (node skl p) (\<lambda>n. Inr (sint (cmpFunc skl k (key n)) > 0)) else Inr False) (\<lambda>above.
     if above then search fuel skl k p l prev
     else bindE (case prev of None \<Rightarrow> Inr None
                 | Some a \<Rightarrow> if nat l < length a then Inr (Some (a[nat l := base])) else Inl Out_Of_Bounds) (\<lambda>prev.
          if 0 = l then Inr (p, prev) else search fuel skl k base (l - 1) prev)))"

definition skl_get_big_equal :: "nat \<Rightarrow> 'k spg_skl \<Rightarrow> 'k option \<Rightarrow> naddr list option
    \<Rightarrow> fault + naddr \<times> naddr list option" where
  "skl_get_big_equal fuel skl k prev =
     search fuel skl k (sklhead skl) (if level skl = 0 then 0 else level skl - 1) prev"

section \<open>Insertion\<close>

text \<open>The draws of rand are a list; when they run out without one at the limit the loop goes on.\<close>

fun gen_loop :: "s32 list \<Rightarrow> int \<Rightarrow> fault + int \<times> s32 list" where
  "gen_loop [] l = Inl Diverges"
| "gen_loop (r # rs) l =
     (if sint (r AND LEVEL_RANDOM_MASK) < sint LEVEL_HIGH_LIMIT then gen_loop rs (l + 1) else Inr (l, rs))"

definition skl_gen_level :: "s32 list \<Rightarrow> fault + int \<times> s32 list" where
  "skl_gen_level rs = bindE (gen_loop rs 1) (\<lambda>(l, rs).
     Inr (if l < SKIPLIST_LEVEL_MAX then l else SKIPLIST_LEVEL_MAX, rs))"

text \<open>\<open>for (idx = skl->level; idx < height; idx++) prev[idx] = skl->sklhead\<close>\<close>

function head_prevs :: "naddr \<Rightarrow> naddr list \<Rightarrow> int \<Rightarrow> int \<Rightarrow> fault + naddr list" where
  "head_prevs head prev idx height =
     (if idx < height
      then if 0 \<le> idx \<and> nat idx < length prev then head_prevs head (prev[nat idx := head]) (idx + 1) height
           else Inl Out_Of_Bounds
      else Inr prev)"
  by pat_completeness auto
termination by (relation "measure (\<lambda>(_, _, idx, height). nat (height - idx))") auto

function link_levels :: "'k spg_skl \<Rightarrow> naddr \<Rightarrow> naddr list \<Rightarrow> int \<Rightarrow> int \<Rightarrow> fault + 'k spg_skl" where
  "link_levels skl nd prev idx height =
     (if idx < height
      then if 0 \<le> idx \<and> nat idx < length prev
           then bindE (get_lvl skl (prev ! nat idx) idx) (\<lambda>q.
                bindE (set_lvl skl nd idx q) (\<lambda>skl.
                bindE (set_lvl skl (prev ! nat idx) idx nd) (\<lambda>skl.
                link_levels skl nd prev (idx + 1) height)))
           else Inl Out_Of_Bounds
      else Inr skl)"
  by pat_completeness auto
termination by (relation "measure (\<lambda>(_, _, _, idx, height). nat (height - idx))") auto

declare head_prevs.simps [simp del] link_levels.simps [simp del]

text \<open>The back pointers, or the tail, once the levels are linked.\<close>

definition link_back :: "'k spg_skl \<Rightarrow> naddr \<Rightarrow> fault + 'k spg_skl" where
  "link_back skl newNode =
     bindE (get_lvl skl newNode 0) (\<lambda>q.
     bindE (node skl newNode) (\<lambda>n.
     if q \<noteq> 0
     then bindE (node skl q) (\<lambda>m.
          let skl = set_node skl newNode (n\<lparr>backward := backward m\<rparr>) in
          bindE (node skl q) (\<lambda>m. Inr (set_node skl q (m\<lparr>backward := newNode\<rparr>))))
     else let skl = set_node skl newNode (n\<lparr>backward := skltail skl\<rparr>) in
          Inr (skl\<lparr>skltail := newNode\<rparr>)))"

text \<open>skl_insert from \<open>if (height > skl->level)\<close> on.\<close>

definition link_node :: "'k spg_skl \<Rightarrow> naddr \<Rightarrow> int \<Rightarrow> naddr list \<Rightarrow> fault + 'k spg_skl" where
  "link_node skl newNode height prev =
     bindE (if height > level skl
            then bindE (head_prevs (sklhead skl) prev (level skl) height) (\<lambda>prev.
                 Inr (skl\<lparr>level := height\<rparr>, prev))
            else Inr (skl, prev)) (\<lambda>(skl, prev).
     bindE (link_levels skl newNode prev 0 height) (\<lambda>skl.
     bindE (link_back skl newNode) (\<lambda>skl.
     Inr (skl\<lparr>len := len skl + 1\<rparr>))))"

text \<open>\<open>sklnode_s* prev[SKIPLIST_LEVEL_MAX] = {NULL}\<close> is never given to skl_get_big_equal.\<close>

definition skl_insert :: "s32 list \<Rightarrow> naddr \<Rightarrow> 'k spg_skl \<Rightarrow> 'k option \<Rightarrow> fault + s32 \<times> 'k spg_skl" where
  "skl_insert rs mem skl k =
     (let prev = replicate (nat SKIPLIST_LEVEL_MAX) 0 in
      bindE (skl_gen_level rs) (\<lambda>(height, rs).
      bindE (get_sklnode mem skl height) (\<lambda>(newNode, skl).
      if newNode = 0 then Inr (SPG_ERR, skl)
      else bindE (node skl newNode) (\<lambda>n.
           let skl = set_node skl newNode (n\<lparr>key := k, lvlNum := height\<rparr>) in
           bindE (link_node skl newNode height prev) (\<lambda>skl. Inr (SPG_OK, skl))))))"

section \<open>The interface\<close>

definition skl_find_get :: "nat \<Rightarrow> 'k spg_skl \<Rightarrow> 'k option \<Rightarrow> fault + 'k option \<times> 'k spg_skl" where
  "skl_find_get fuel skl k =
     bindE (skl_get_big_equal fuel skl k None) (\<lambda>(p, _).
     if p = 0 \<or> p = sklhead skl then Inr (None, skl)
     else bindE (node skl p) (\<lambda>n.
          if cmpFunc skl k (key n) = 0
          then bindE (skl_delete_node fuel skl p) (\<lambda>skl. Inr (key n, skl))
          else Inr (None, skl)))"

definition skl_contain :: "nat \<Rightarrow> 'k spg_skl \<Rightarrow> 'k option \<Rightarrow> fault + bool" where
  "skl_contain fuel skl k =
     bindE (skl_get_big_equal fuel skl k None) (\<lambda>(p, _).
     if p = 0 \<or> p = sklhead skl then Inr False
     else bindE (node skl p) (\<lambda>n. Inr (cmpFunc skl k (key n) = 0)))"

text \<open>\<open>garbage\<close> is what the smalloc'd struct holds in its statistics; \<open>skl_mem\<close> whether it worked.\<close>

definition skl_create :: "bool \<Rightarrow> naddr \<Rightarrow> s32 list \<times> 64 word \<times> 64 word \<Rightarrow> (naddr \<rightharpoonup> 'k sklnode)
    \<Rightarrow> 'k option compare option \<Rightarrow> fault + 'k spg_skl option" where
  "skl_create skl_mem mem garbage heap cmp =
     (case cmp of None \<Rightarrow> Inr None
      | Some c \<Rightarrow>
          if \<not> skl_mem then Inr None
          else let (cnt, sum, tmp) = garbage;
                   skl = \<lparr>cmpFunc = c, level = 0, len = 0, sklhead = 0, skltail = 0, lvlCnt = cnt,
                          lock_time_sum = sum, ltime_tmp = tmp, nodes = heap\<rparr>
               in bindE (get_sklnode mem skl SKIPLIST_LEVEL_MAX) (\<lambda>(head, skl).
                  if head = 0 then Inr None
                  else let skl = skl\<lparr>sklhead := head, skltail := head\<rparr> in
                       bindE (node skl head) (\<lambda>n.
                       Inr (Some (set_node skl head (n\<lparr>key := None, lvlNum := SKIPLIST_LEVEL_MAX\<rparr>))))))"

text \<open>\<open>sklhead->lvl\<close> points into the head node: the first sfree gets an address that is no block.\<close>

definition skl_destroy :: "'k spg_skl \<Rightarrow> fault + unit" where
  "skl_destroy skl =
     bindE (guardE (0 = len skl) Assert_Failed) (\<lambda>_.
     if len skl \<noteq> 0 then Inr ()
     else bindE (node skl (sklhead skl)) (\<lambda>n. Inl Invalid_Free))"

fun flush_loop :: "nat \<Rightarrow> 'k spg_skl \<Rightarrow> naddr \<Rightarrow> fault + 'k spg_skl" where
  "flush_loop 0 skl p = Inl Diverges"
| "flush_loop (Suc fuel) skl p =
     bindE (node skl p) (\<lambda>n.
     if backward n \<noteq> 0
     then bindE (put_sklnode skl p) (\<lambda>skl. flush_loop fuel skl (backward n))
     else Inr skl)"

definition skl_flush_all :: "nat \<Rightarrow> 'k spg_skl \<Rightarrow> fault + 'k spg_skl" where
  "skl_flush_all fuel skl =
     (if len skl = 0 then Inr skl
      else bindE (flush_loop fuel skl (skltail skl)) (\<lambda>skl.
           let skl = skl\<lparr>len := 0, level := 0, skltail := sklhead skl\<rparr> in
           bindE (node skl (sklhead skl)) (\<lambda>n.
           if nat (lvlNum n) \<le> length (lvl n)
           then Inr (set_node skl (sklhead skl) (n\<lparr>lvl := replicate (nat (lvlNum n)) 0 @ drop (nat (lvlNum n)) (lvl n)\<rparr>))
           else Inl Out_Of_Bounds)))"

text \<open>The lock functions, with the clock, on the spinlock of the list and the list.\<close>

definition skl_lock :: "'l spin_ops \<Rightarrow> 64 word \<Rightarrow> 'l \<times> 'k spg_skl \<Rightarrow> 'l \<times> 'k spg_skl" where
  "skl_lock P now = (\<lambda>(lock, skl). (snd (spin_lock P lock), skl\<lparr>ltime_tmp := now\<rparr>))"

definition skl_unlock :: "'l spin_ops \<Rightarrow> 64 word \<Rightarrow> 'l \<times> 'k spg_skl \<Rightarrow> 'l \<times> 'k spg_skl" where
  "skl_unlock P now = (\<lambda>(lock, skl).
     let lock = snd (spin_unlock P lock);
         skl = skl\<lparr>lock_time_sum := lock_time_sum skl + (now - ltime_tmp skl)\<rparr>
     in (lock, skl\<lparr>lock_time_sum := (if sint (lock_time_sum skl) > 0 then lock_time_sum skl else 0)\<rparr>))"

definition skl_trylock :: "'l spin_ops \<Rightarrow> 64 word \<Rightarrow> 'l \<times> 'k spg_skl \<Rightarrow> s32 \<times> 'l \<times> 'k spg_skl" where
  "skl_trylock P now = (\<lambda>(lock, skl).
     let (r, lock) = spin_trylock P lock in
     if r \<noteq> 0 then (SPG_OK, lock, skl\<lparr>ltime_tmp := now\<rparr>) else (SPG_ERR, lock, skl))"

section \<open>Chains of nodes\<close>

definition front :: "naddr list \<Rightarrow> naddr" where
  "front xs = (case xs of [] \<Rightarrow> 0 | x # _ \<Rightarrow> x)"

lemma front_simps [simp]: "front [] = 0" "front (x # xs) = x"
  by (simp_all add: front_def)

text \<open>\<open>f\<close> leads from each element to the next, from the last to NULL.\<close>

fun fchain :: "(naddr \<Rightarrow> naddr) \<Rightarrow> naddr list \<Rightarrow> bool" where
  "fchain f [] \<longleftrightarrow> True"
| "fchain f (p # ps) \<longleftrightarrow> f p = front ps \<and> fchain f ps"

lemma fchain_cong: "(\<And>p. p \<in> set ps \<Longrightarrow> f p = g p) \<Longrightarrow> fchain f ps = fchain g ps"
  by (induction ps) auto

lemma fchain_upd [simp]: "a \<notin> set ps \<Longrightarrow> fchain (f(a := v)) ps = fchain f ps"
  by (rule fchain_cong) auto

lemma fchain_append: "fchain f (ps @ q # qs) \<Longrightarrow> f q = front qs"
  by (induction ps) auto

lemma fchain_del:
  "fchain f (us @ p # n # vs) \<Longrightarrow> distinct (us @ p # n # vs) \<Longrightarrow> fchain (f(p := f n)) (us @ p # vs)"
proof (induction us)
  case Nil
  then show ?case by (auto simp del: fun_upd_apply) (simp_all add: fun_upd_same)
next
  case (Cons u us)
  have "front (us @ p # vs) = front (us @ p # n # vs)" by (cases us) auto
  then show ?case using Cons by auto
qed

lemma fchain_ins:
  "fchain f (us @ p # vs) \<Longrightarrow> distinct (us @ p # n # vs) \<Longrightarrow>
   fchain (f(n := f p, p := n)) (us @ p # n # vs)"
proof (induction us)
  case Nil
  then show ?case by (auto simp del: fun_upd_apply) (simp_all add: fun_upd_apply)
next
  case (Cons u us)
  have "front (us @ p # vs) = front (us @ p # n # vs)" by (cases us) auto
  then show ?case using Cons by auto
qed

text \<open>\<open>b\<close> leads from each element back to the one before.\<close>

fun bchain :: "(naddr \<Rightarrow> naddr) \<Rightarrow> naddr \<Rightarrow> naddr list \<Rightarrow> bool" where
  "bchain b p [] \<longleftrightarrow> True"
| "bchain b p (q # qs) \<longleftrightarrow> b q = p \<and> bchain b q qs"

lemma bchain_cong: "(\<And>q. q \<in> set qs \<Longrightarrow> b q = c q) \<Longrightarrow> bchain b p qs = bchain c p qs"
  by (induction qs arbitrary: p) auto

lemma bchain_append: "bchain b p (ps @ qs) \<longleftrightarrow> bchain b p ps \<and> bchain b (last (p # ps)) qs"
  by (induction ps arbitrary: p) auto

section \<open>Well-formed skip lists\<close>

definition hgt :: "'k spg_skl \<Rightarrow> naddr \<Rightarrow> int" where
  "hgt skl p = (case nodes skl p of None \<Rightarrow> 0 | Some n \<Rightarrow> lvlNum n)"

definition nxt :: "'k spg_skl \<Rightarrow> nat \<Rightarrow> naddr \<Rightarrow> naddr" where
  "nxt skl i p = (case nodes skl p of None \<Rightarrow> 0 | Some n \<Rightarrow> lvl n ! i)"

definition bck :: "'k spg_skl \<Rightarrow> naddr \<Rightarrow> naddr" where
  "bck skl p = (case nodes skl p of None \<Rightarrow> 0 | Some n \<Rightarrow> backward n)"

definition key_of :: "'k spg_skl \<Rightarrow> naddr \<Rightarrow> 'k option" where
  "key_of skl p = (case nodes skl p of None \<Rightarrow> None | Some n \<Rightarrow> key n)"

definition node_ok :: "'k spg_skl \<Rightarrow> naddr \<Rightarrow> bool" where
  "node_ok skl p \<longleftrightarrow> p \<noteq> 0 \<and> (\<exists>n. nodes skl p = Some n \<and> 1 \<le> lvlNum n \<and> lvlNum n \<le> 16
     \<and> length (lvl n) = nat (lvlNum n))"

text \<open>The nodes of a level, of those that can be reached.\<close>

definition at_lvl :: "'k spg_skl \<Rightarrow> nat \<Rightarrow> naddr list \<Rightarrow> naddr list" where
  "at_lvl skl i ps = filter (\<lambda>p. int i < hgt skl p) ps"

text \<open>The level of the list is the greatest height of its nodes.\<close>

definition level_ok :: "'k spg_skl \<Rightarrow> naddr list \<Rightarrow> bool" where
  "level_ok skl ns \<longleftrightarrow> (\<forall>p\<in>set ns. hgt skl p \<le> level skl)
     \<and> (if ns = [] then level skl = 0 else \<exists>p\<in>set ns. hgt skl p = level skl)"

text \<open>\<open>ns\<close> are the nodes behind the head, in order.\<close>

definition skl_ok :: "'k spg_skl \<Rightarrow> naddr list \<Rightarrow> bool" where
  "skl_ok skl ns \<longleftrightarrow> distinct (sklhead skl # ns)
     \<and> (\<forall>p\<in>set (sklhead skl # ns). node_ok skl p)
     \<and> hgt skl (sklhead skl) = 16
     \<and> (\<forall>i<16. fchain (nxt skl i) (at_lvl skl i (sklhead skl # ns)))
     \<and> bck skl (sklhead skl) = 0 \<and> bchain (bck skl) (sklhead skl) ns
     \<and> skltail skl = last (sklhead skl # ns)
     \<and> len skl = of_nat (length ns) \<and> length ns < 2 ^ 32
     \<and> level_ok skl ns \<and> length (lvlCnt skl) = 16"

abbreviation keys_of :: "'k spg_skl \<Rightarrow> naddr list \<Rightarrow> 'k option list" where
  "keys_of skl ns \<equiv> map (key_of skl) ns"

named_theorems skl_simps \<open>observers of the skip list after an update\<close>

lemma node_okD:
  assumes "node_ok skl p"
  obtains n where "node skl p = Inr n" "nodes skl p = Some n" "lvlNum n = hgt skl p" "backward n = bck skl p"
    "key n = key_of skl p" "length (lvl n) = nat (hgt skl p)" "\<And>i. lvl n ! i = nxt skl i p"
    "1 \<le> hgt skl p" "hgt skl p \<le> 16" "p \<noteq> 0"
  using assms that by (auto simp: node_ok_def node_def hgt_def bck_def key_of_def nxt_def)

lemma get_lvl_ok: "node_ok skl p \<Longrightarrow> 0 \<le> i \<Longrightarrow> i < hgt skl p \<Longrightarrow> get_lvl skl p i = Inr (nxt skl (nat i) p)"
  by (erule node_okD) (auto simp: get_lvl_def)

text \<open>Updates that change only the level pointers of nodes.\<close>

definition relinked :: "'k spg_skl \<Rightarrow> 'k spg_skl \<Rightarrow> bool" where
  "relinked skl skl' \<longleftrightarrow> skl'\<lparr>nodes := nodes skl\<rparr> = skl
     \<and> (\<forall>p. hgt skl' p = hgt skl p \<and> bck skl' p = bck skl p \<and> key_of skl' p = key_of skl p
          \<and> node_ok skl' p = node_ok skl p)"

lemma relinked_refl [simp]: "relinked skl skl"
  by (simp add: relinked_def)

lemma relinked_trans: "relinked a b \<Longrightarrow> relinked b c \<Longrightarrow> relinked a c"
  unfolding relinked_def by (metis (no_types, lifting) spg_skl.surjective spg_skl.update_convs(9))

lemma relinkedD:
  assumes "relinked skl skl'"
  shows "hgt skl' = hgt skl" "bck skl' = bck skl" "key_of skl' = key_of skl" "node_ok skl' = node_ok skl"
    "sklhead skl' = sklhead skl" "skltail skl' = skltail skl" "len skl' = len skl" "level skl' = level skl"
    "lvlCnt skl' = lvlCnt skl" "cmpFunc skl' = cmpFunc skl"
proof -
  show "hgt skl' = hgt skl" "bck skl' = bck skl" "key_of skl' = key_of skl" "node_ok skl' = node_ok skl"
    using assms by (auto simp: relinked_def)
  have "skl = skl'\<lparr>nodes := nodes skl\<rparr>" using assms by (simp add: relinked_def)
  then show "sklhead skl' = sklhead skl" "skltail skl' = skltail skl" "len skl' = len skl" "level skl' = level skl"
    "lvlCnt skl' = lvlCnt skl" "cmpFunc skl' = cmpFunc skl"
    by (metis spg_skl.select_convs spg_skl.surjective spg_skl.update_convs(9))+
qed

lemma set_lvl_ok:
  assumes "node_ok skl p" "0 \<le> i" "i < hgt skl p"
  obtains skl' where "set_lvl skl p i v = Inr skl'" "relinked skl skl'"
    "\<And>j q. nxt skl' j q = (if q = p \<and> j = nat i then v else nxt skl j q)"
proof -
  obtain n where n: "node skl p = Inr n" "nodes skl p = Some n" "lvlNum n = hgt skl p"
      "length (lvl n) = nat (hgt skl p)" "1 \<le> hgt skl p" "hgt skl p \<le> 16" "p \<noteq> 0"
    using node_okD [OF assms(1)] by metis
  let ?s = "set_node skl p (n\<lparr>lvl := (lvl n)[nat i := v]\<rparr>)"
  have "set_lvl skl p i v = Inr ?s" using n assms(2,3) by (simp add: set_lvl_def)
  moreover have "relinked skl ?s"
    using n(2) by (auto simp: relinked_def set_node_def hgt_def bck_def key_of_def node_ok_def fun_upd_idem)
  moreover have "nxt ?s j q = (if q = p \<and> j = nat i then v else nxt skl j q)" for j q
    using n assms(2,3) by (auto simp: nxt_def set_node_def nth_list_update)
  ultimately show thesis using that by blast
qed

lemma skl_okD:
  assumes "skl_ok skl ns"
  shows "distinct (sklhead skl # ns)" "p \<in> set (sklhead skl # ns) \<Longrightarrow> node_ok skl p"
    "hgt skl (sklhead skl) = 16" "i < 16 \<Longrightarrow> fchain (nxt skl i) (at_lvl skl i (sklhead skl # ns))"
    "bck skl (sklhead skl) = 0" "bchain (bck skl) (sklhead skl) ns" "skltail skl = last (sklhead skl # ns)"
    "len skl = of_nat (length ns)" "length ns < 2 ^ 32" "level_ok skl ns" "length (lvlCnt skl) = 16"
  using assms unfolding skl_ok_def by blast+

lemma node_ok_hgt: "node_ok skl p \<Longrightarrow> 1 \<le> hgt skl p \<and> hgt skl p \<le> 16 \<and> p \<noteq> 0"
  by (erule node_okD) simp

lemma level_bounds: "skl_ok skl ns \<Longrightarrow> 0 \<le> level skl \<and> level skl \<le> 16 \<and> (level skl = 0 \<longleftrightarrow> ns = [])"
proof -
  assume ok: "skl_ok skl ns"
  show ?thesis
  proof (cases "ns = []")
    case False
    then obtain p where "p \<in> set ns" "hgt skl p = level skl" using skl_okD(10) [OF ok] by (auto simp: level_ok_def)
    then show ?thesis using skl_okD(2) [OF ok, of p] node_ok_hgt [of skl p] False by auto
  qed (use skl_okD(10) [OF ok] in \<open>simp add: level_ok_def\<close>)
qed

text \<open>At level 0 there are all nodes.\<close>

lemma at_lvl_0: "(\<And>p. p \<in> set ps \<Longrightarrow> node_ok skl p) \<Longrightarrow> at_lvl skl 0 ps = ps"
  unfolding at_lvl_def by (rule filter_True) (force dest: node_ok_hgt)

section \<open>Traversal\<close>

lemma next_loop_ok:
  "fchain (nxt skl 0) ps \<Longrightarrow> (\<And>p. p \<in> set ps \<Longrightarrow> node_ok skl p) \<Longrightarrow> length ps < fuel \<Longrightarrow>
   next_loop fuel skl func (front ps) w = Inr (fold func (keys_of skl ps) w)"
proof (induction ps arbitrary: fuel w)
  case Nil
  then show ?case by (cases fuel) auto
next
  case (Cons p ps)
  obtain f where f: "fuel = Suc f" "length ps < f" using Cons.prems(3) by (cases fuel) auto
  have p: "node_ok skl p" using Cons.prems(2) by simp
  obtain n where n: "node skl p = Inr n" "key n = key_of skl p" "1 \<le> hgt skl p" "p \<noteq> 0"
    using node_okD [OF p] by metis
  have "get_lvl skl p 0 = Inr (front ps)" using get_lvl_ok [OF p, of 0] n(3) Cons.prems(1) by simp
  then show ?case using Cons.IH [OF _ _ f(2)] Cons.prems(1,2) f(1) n by simp
qed

lemma back_loop_ok:
  "bchain (bck skl) d ps \<Longrightarrow> bck skl d = 0 \<Longrightarrow> (\<And>p. p \<in> set (d # ps) \<Longrightarrow> node_ok skl p) \<Longrightarrow> length ps < fuel \<Longrightarrow>
   back_loop fuel skl func (last (d # ps)) w = Inr (fold func (keys_of skl (rev ps)) w)"
proof (induction ps arbitrary: fuel w rule: rev_induct)
  case Nil
  obtain f where f: "fuel = Suc f" using Nil.prems(4) by (cases fuel) auto
  have "node_ok skl d" using Nil.prems(3) by simp
  then obtain n where "node skl d = Inr n" "backward n = bck skl d" using node_okD by metis
  then show ?case using Nil.prems(2) f by simp
next
  case (snoc p ps)
  obtain f where f: "fuel = Suc f" "length ps < f" using snoc.prems(4) by (cases fuel) auto
  have c: "bchain (bck skl) d ps" "bck skl p = last (d # ps)" using snoc.prems(1) by (simp_all add: bchain_append)
  have "node_ok skl p" using snoc.prems(3) by simp
  then obtain n where n: "node skl p = Inr n" "key n = key_of skl p" "backward n = bck skl p" using node_okD by metis
  have "last (d # ps) \<in> set (d # ps)" by (rule last_in_set) simp
  then have "node_ok skl (last (d # ps))" using snoc.prems(3) [of "last (d # ps)"] by auto
  then have "last (d # ps) \<noteq> 0" using node_ok_hgt by blast
  moreover have "back_loop f skl func (last (d # ps)) v = Inr (fold func (keys_of skl (rev ps)) v)" for v
    by (rule snoc.IH [OF c(1) snoc.prems(2) _ f(2)]) (use snoc.prems(3) in auto)
  moreover have "last (d # ps @ [p]) = p" by simp
  ultimately show ?case using f(1) n c(2) by (simp del: last.simps)
qed

lemma foreach_ok:
  assumes ok: "skl_ok skl ns" and f: "length ns < fuel"
  shows "skl_foreach fuel skl TRAV_FORWARD func w = Inr (fold func (keys_of skl ns) w)"
    and "skl_foreach fuel skl TRAV_BACKWARD func w = Inr (fold func (keys_of skl (rev ns)) w)"
proof -
  let ?d = "sklhead skl"
  have n: "\<And>p. p \<in> set (?d # ns) \<Longrightarrow> node_ok skl p" by (rule skl_okD(2) [OF ok])
  have "fchain (nxt skl 0) (?d # ns)" using skl_okD(4) [OF ok, of 0] at_lvl_0 [of "?d # ns" skl] n by simp
  moreover have "get_lvl skl ?d 0 = Inr (nxt skl 0 ?d)" using get_lvl_ok [OF n, of ?d 0] skl_okD(3) [OF ok] by simp
  ultimately show "skl_foreach fuel skl TRAV_FORWARD func w = Inr (fold func (keys_of skl ns) w)"
    using next_loop_ok [of skl ns fuel func w] n f by (simp add: skl_foreach_def trav_straight_def)
  show "skl_foreach fuel skl TRAV_BACKWARD func w = Inr (fold func (keys_of skl (rev ns)) w)"
    unfolding skl_foreach_def trav_reverse_def skl_okD(7) [OF ok]
    using back_loop_ok [OF skl_okD(6,5) [OF ok] n f] by (simp del: last.simps)
qed

section \<open>Search\<close>

text \<open>Nodes the search passes; on a sorted list they are a prefix.\<close>

definition below :: "'k spg_skl \<Rightarrow> 'k option \<Rightarrow> naddr \<Rightarrow> bool" where
  "below skl k p \<longleftrightarrow> sint (cmpFunc skl k (key_of skl p)) > 0"

definition prefix_below :: "'k spg_skl \<Rightarrow> 'k option \<Rightarrow> naddr list \<Rightarrow> bool" where
  "prefix_below skl k ns \<longleftrightarrow> (\<forall>p\<in>set (dropWhile (below skl k) ns). \<not> below skl k p)"

lemma at_lvl_append [simp]: "at_lvl skl i (ps @ qs) = at_lvl skl i ps @ at_lvl skl i qs"
  by (simp add: at_lvl_def)

lemma at_lvl_Cons: "at_lvl skl i (p # ps) = (if int i < hgt skl p then p # at_lvl skl i ps else at_lvl skl i ps)"
  by (simp add: at_lvl_def)

lemma set_at_lvl: "p \<in> set (at_lvl skl i ps) \<longleftrightarrow> p \<in> set ps \<and> int i < hgt skl p"
  by (auto simp: at_lvl_def)

lemma at_lvl_head:
  assumes "at_lvl skl i ps = q # qs"
  obtains us vs where "ps = us @ q # vs" "at_lvl skl i us = []" "int i < hgt skl q"
proof -
  have "q \<in> set ps" "int i < hgt skl q" using assms set_at_lvl [of q skl i ps] by auto
  obtain us v vs where d: "ps = us @ v # vs" "int i < hgt skl v" "\<forall>u\<in>set us. \<not> int i < hgt skl u"
    using split_list_first_prop [of ps "\<lambda>p. int i < hgt skl p"] \<open>q \<in> set ps\<close> \<open>int i < hgt skl q\<close> by blast
  have "at_lvl skl i us = []" using d(3) by (simp add: at_lvl_def filter_empty_conv)
  then show thesis using that [of us vs] d assms by (auto simp: at_lvl_Cons)
qed

lemma nxt_front:
  assumes "skl_ok skl ns" "sklhead skl # ns = us @ p # vs" "int i < hgt skl p"
  shows "nxt skl i p = front (at_lvl skl i vs)"
proof -
  have "p \<in> set (sklhead skl # ns)" using assms(2) by simp
  then have "i < 16" using skl_okD(2) [OF assms(1)] node_ok_hgt [of skl p] assms(3) by force
  then have "fchain (nxt skl i) (at_lvl skl i us @ p # at_lvl skl i vs)"
    using skl_okD(4) [OF assms(1), of i] assms(2,3) by (simp add: at_lvl_Cons)
  then show ?thesis by (rule fchain_append)
qed

definition record_prevs :: "'k spg_skl \<Rightarrow> naddr list \<Rightarrow> nat \<Rightarrow> naddr list \<Rightarrow> naddr list" where
  "record_prevs skl B l a =
     map (\<lambda>i. if i \<le> l then last (at_lvl skl i (sklhead skl # B)) else a ! i) [0..<16]"

lemma record_prevs_step:
  assumes "length a = 16" "l < 16" "last (at_lvl skl l (sklhead skl # B)) = p"
  shows "l = 0 \<Longrightarrow> a[l := p] = record_prevs skl B l a"
    and "l = Suc m \<Longrightarrow> record_prevs skl B m (a[l := p]) = record_prevs skl B l a"
  using assms by (auto simp: record_prevs_def nth_list_update le_Suc_eq intro!: nth_equalityI)

text \<open>The first node past the prefix on a level is not below; on the lowest level no node is left over.\<close>

lemma front_not_below:
  assumes ok: "skl_ok skl ns" and pre: "prefix_below skl k ns"
    and p: "p = front (at_lvl skl i (dropWhile (below skl k) ns))"
  shows "(if p \<noteq> 0 then bindE (node skl p) (\<lambda>n. Inr (sint (cmpFunc skl k (key n)) > 0)) else Inr False) = Inr False"
proof (cases "at_lvl skl i (dropWhile (below skl k) ns)")
  case (Cons q qs)
  have q: "q \<in> set (dropWhile (below skl k) ns)"
    using Cons set_at_lvl [of q skl i "dropWhile (below skl k) ns"] by auto
  then have "\<not> below skl k q" using pre by (simp add: prefix_below_def)
  moreover have "q \<in> set (sklhead skl # ns)" using set_dropWhileD [OF q] by simp
  then obtain n where "node skl q = Inr n" "key n = key_of skl q" using node_okD skl_okD(2) [OF ok] by metis
  ultimately show ?thesis using Cons by (simp add: p below_def)
qed (simp add: p)

lemma at_lvl_0_Nil:
  assumes "at_lvl skl 0 b = []" "\<And>p. p \<in> set b \<Longrightarrow> node_ok skl p"
  shows "b = []"
  using assms at_lvl_0 [of b skl] by simp

lemma search_ok:
  assumes ok: "skl_ok skl ns" and pre: "prefix_below skl k ns"
  defines "B \<equiv> takeWhile (below skl k) ns" and "R \<equiv> dropWhile (below skl k) ns"
  shows "sklhead skl # B = us @ base # b \<Longrightarrow> 0 \<le> l \<Longrightarrow> l < hgt skl base \<Longrightarrow> l < 16 \<Longrightarrow>
    length b + nat l < fuel \<Longrightarrow> (\<forall>a. prev = Some a \<longrightarrow> length a = 16) \<Longrightarrow>
    search fuel skl k base l prev = Inr (front R, map_option (record_prevs skl B (nat l)) prev)"
proof (induction fuel arbitrary: us base b l prev)
  case 0
  then show ?case by simp
next
  case (Suc fuel)
  let ?d = "sklhead skl"
  have all: "?d # ns = us @ base # b @ R"
  proof -
    have "ns = B @ R" by (simp add: B_def R_def)
    then have "?d # ns = (?d # B) @ R" by simp
    then show ?thesis unfolding Suc.prems(1) by simp
  qed
  have nodes: "\<And>p. p \<in> set (?d # ns) \<Longrightarrow> node_ok skl p" by (rule skl_okD(2) [OF ok])
  have base: "node_ok skl base" by (rule nodes) (simp add: all)
  have b: "set b \<subseteq> set B" "set B \<subseteq> set ns" "set R \<subseteq> set ns"
  proof -
    have "b = [] \<or> set b \<subseteq> set B" using Suc.prems(1) by (cases us) auto
    then show "set b \<subseteq> set B" by auto
    show "set B \<subseteq> set ns" "set R \<subseteq> set ns" by (auto simp: B_def R_def dest: set_takeWhileD set_dropWhileD)
  qed
  have get: "get_lvl skl base l = Inr (front (at_lvl skl (nat l) b @ at_lvl skl (nat l) R))"
    using get_lvl_ok [OF base Suc.prems(2,3)] nxt_front [OF ok all, of "nat l"] Suc.prems(2,3) by simp
  show ?case
  proof (cases "at_lvl skl (nat l) b")
    case (Cons q qs)
    obtain b1 b2 where q: "b = b1 @ q # b2" "int (nat l) < hgt skl q"
      using at_lvl_head [OF Cons] by metis
    have "q \<in> set B" using b(1) q(1) by auto
    then have bq: "below skl k q" "q \<in> set (?d # ns)" using b(2) unfolding B_def by (auto dest: set_takeWhileD)
    obtain n where n: "node skl q = Inr n" "key n = key_of skl q" "q \<noteq> 0" using node_okD [OF nodes [OF bq(2)]] by metis
    have "search fuel skl k q l prev = Inr (front R, map_option (record_prevs skl B (nat l)) prev)"
      by (rule Suc.IH [of "us @ base # b1" q b2]) (use Suc.prems q in auto)
    then show ?thesis using get Cons n bq(1) by (simp add: below_def)
  next
    case Nil
    have last: "last (at_lvl skl (nat l) (?d # B)) = base"
      unfolding Suc.prems(1) using Nil Suc.prems(2,3) by (simp add: at_lvl_Cons)
    have len: "\<forall>a. prev = Some a \<longrightarrow> nat l < length a" "nat l < 16" using Suc.prems(4,6) by auto
    let ?p = "front (at_lvl skl (nat l) R)"
    have above: "(if ?p \<noteq> 0 then bindE (node skl ?p) (\<lambda>n. Inr (sint (cmpFunc skl k (key n)) > 0)) else Inr False) = Inr False"
      by (rule front_not_below [OF ok pre]) (simp add: R_def)
    let ?prev = "map_option (\<lambda>a. a[nat l := base]) prev"
    have upd: "(case prev of None \<Rightarrow> Inr None
        | Some a \<Rightarrow> if nat l < length a then Inr (Some (a[nat l := base])) else Inl Out_Of_Bounds) = Inr ?prev"
      using len(1) by (auto split: option.splits)
    have eq: "search (Suc fuel) skl k base l prev = (if 0 = l then Inr (?p, ?prev) else search fuel skl k base (l - 1) ?prev)"
      using get Nil above upd by simp
    show ?thesis
    proof (cases "l = 0")
      case True
      have "b = []" by (rule at_lvl_0_Nil [of skl]) (use Nil True b nodes in auto)
      moreover have "at_lvl skl 0 R = R" by (rule at_lvl_0) (use b(3) nodes in auto)
      ultimately have "?p = front R" using True by simp
      moreover have "?prev = map_option (record_prevs skl B (nat l)) prev"
        using record_prevs_step(1) [OF _ len(2) last] Suc.prems(6) True by (cases prev) auto
      ultimately show ?thesis unfolding eq using True by simp
    next
      case False
      then obtain m where m: "nat l = Suc m" "nat (l - 1) = m" using Suc.prems(2) by (cases "nat l") auto
      have "search fuel skl k base (l - 1) ?prev = Inr (front R, map_option (record_prevs skl B (nat (l - 1))) ?prev)"
        by (rule Suc.IH [of us base b]) (use Suc.prems False in auto)
      moreover have "map_option (record_prevs skl B m) ?prev = map_option (record_prevs skl B (nat l)) prev"
        using record_prevs_step(2) [OF _ len(2) last m(1)] Suc.prems(6) by (cases prev) auto
      ultimately show ?thesis unfolding eq using False m by simp
    qed
  qed
qed

lemma get_big_equal_ok:
  assumes ok: "skl_ok skl ns" and pre: "prefix_below skl k ns" and f: "length ns + 16 < fuel"
    and a: "\<forall>a. prev = Some a \<longrightarrow> length a = 16"
  shows "skl_get_big_equal fuel skl k prev = Inr (front (dropWhile (below skl k) ns),
    map_option (record_prevs skl (takeWhile (below skl k) ns) (nat (if level skl = 0 then 0 else level skl - 1))) prev)"
  unfolding skl_get_big_equal_def
proof (rule search_ok [OF ok pre, of "[]"])
  let ?l = "if level skl = 0 then 0 else level skl - 1"
  have "0 \<le> level skl" "level skl \<le> 16" using level_bounds [OF ok] by auto
  then show "0 \<le> ?l" "?l < 16" "?l < hgt skl (sklhead skl)" using skl_okD(3) [OF ok] by auto
  show "length (takeWhile (below skl k) ns) + nat ?l < fuel"
    using f length_takeWhile_le [of "below skl k" ns] \<open>?l < 16\<close> by linarith
qed (use a in auto)

text \<open>On a sorted list, under a comparator, the search passes exactly the smaller keys.\<close>

lemma sorted_prefix:
  assumes c: "comparator D (cmpFunc skl)" and srt: "cmp_sorted (cmpFunc skl) (keys_of skl ns)"
    and D: "set (keys_of skl ns) \<subseteq> D" "k \<in> D"
  shows "prefix_below skl k ns"
  unfolding prefix_below_def
proof (cases "dropWhile (below skl k) ns")
  case (Cons q qs)
  have q: "\<not> below skl k q" using Cons by (metis hd_dropWhile list.discI list.sel(1))
  have "ns = takeWhile (below skl k) ns @ q # qs" using Cons by (metis takeWhile_dropWhile_id)
  then have s: "cmp_sorted (cmpFunc skl) (key_of skl q # keys_of skl qs)" "set (q # qs) \<subseteq> set ns"
    using srt by (metis list.simps(9) map_append sorted_wrt_append, metis Un_upper2 set_append)
  have "\<not> below skl k p" if "p \<in> set qs" for p
  proof -
    have d: "key_of skl q \<in> D" "key_of skl p \<in> D" using D(1) s(2) that by auto
    have "sint (cmpFunc skl (key_of skl q) (key_of skl p)) \<le> 0" using s(1) that by (auto simp: cmp_le_def)
    moreover have "sint (cmpFunc skl k (key_of skl q)) \<le> 0" using q by (simp add: below_def)
    ultimately have "sint (cmpFunc skl k (key_of skl p)) \<le> 0" by (rule comparator.cmp_trans [OF c D(2) d, rotated])
    then show ?thesis by (simp add: below_def)
  qed
  then show "\<forall>p\<in>set (dropWhile (below skl k) ns). \<not> below skl k p" using q Cons by auto
next
  case Nil
  show "\<forall>p\<in>set (dropWhile (below skl k) ns). \<not> below skl k p" unfolding Nil by simp
qed

text \<open>A key equal to the given one is in the list iff the first node not passed has one.\<close>

lemma sorted_equal:
  assumes c: "comparator D (cmpFunc skl)" and srt: "cmp_sorted (cmpFunc skl) (keys_of skl ns)"
    and D: "set (keys_of skl ns) \<subseteq> D" "k \<in> D" and R: "dropWhile (below skl k) ns = q # qs"
  shows "(\<exists>p\<in>set ns. cmpFunc skl k (key_of skl p) = 0) \<longleftrightarrow> cmpFunc skl k (key_of skl q) = 0"
proof
  have ns: "ns = takeWhile (below skl k) ns @ q # qs" using R by (metis takeWhile_dropWhile_id)
  have q: "\<not> below skl k q" using R by (metis hd_dropWhile list.discI list.sel(1))
  have qn: "q \<in> set ns" by (subst ns) simp
  show "\<exists>p\<in>set ns. cmpFunc skl k (key_of skl p) = 0" if "cmpFunc skl k (key_of skl q) = 0" using that qn by blast
  assume "\<exists>p\<in>set ns. cmpFunc skl k (key_of skl p) = 0"
  then obtain p where p: "p \<in> set ns" "cmpFunc skl k (key_of skl p) = 0" by blast
  then have "p \<notin> set (takeWhile (below skl k) ns)" by (auto simp: below_def dest: set_takeWhileD)
  then have pq: "p = q \<or> p \<in> set qs" using p(1) ns by (metis Un_iff set_ConsD set_append)
  show "cmpFunc skl k (key_of skl q) = 0"
  proof (cases "p = q")
    case False
    have d: "key_of skl q \<in> D" "key_of skl p \<in> D" using D(1) p(1) qn by auto
    have "cmp_sorted (cmpFunc skl) (key_of skl q # keys_of skl qs)"
      using srt ns by (metis list.simps(9) map_append sorted_wrt_append)
    then have "sint (cmpFunc skl (key_of skl q) (key_of skl p)) \<le> 0" using pq False by (auto simp: cmp_le_def)
    moreover have "sint (cmpFunc skl (key_of skl p) k) \<le> 0"
      using comparator.cmp_zero_iff [OF c D(2) d(2)] p(2) by simp
    ultimately have "sint (cmpFunc skl (key_of skl q) k) \<le> 0"
      by (rule comparator.cmp_trans [OF c d(1) d(2) D(2)])
    then have "0 \<le> sint (cmpFunc skl k (key_of skl q))"
      using comparator.cmp_le_iff [OF c d(1) D(2)] by (simp add: cmp_le_def)
    then have "sint (cmpFunc skl k (key_of skl q)) = 0" using q by (simp add: below_def)
    then show ?thesis by (simp add: signed_eq_0_iff)
  qed (use p(2) in simp)
qed

section \<open>Deletion\<close>

lemma copy_levels_ok:
  "node_ok skl bk \<Longrightarrow> node_ok skl nd \<Longrightarrow> bk \<noteq> nd \<Longrightarrow> upd < hgt skl bk \<Longrightarrow> H \<le> hgt skl nd \<Longrightarrow> 0 \<le> idx \<Longrightarrow>
   \<exists>skl'. copy_levels skl bk nd idx cur H upd = Inr (skl', cur + (max idx (min H (upd + 1)) - idx))
     \<and> relinked skl skl'
     \<and> (\<forall>j q. nxt skl' j q = (if q = bk \<and> idx \<le> int j \<and> int j < H \<and> int j \<le> upd then nxt skl j nd else nxt skl j q))"
proof (induction skl bk nd idx cur H upd rule: copy_levels.induct)
  case (1 skl bk nd idx cur H upd)
  show ?case
  proof (cases "idx < H \<and> idx \<le> upd")
    case False
    have "copy_levels skl bk nd idx cur H upd = Inr (skl, cur)"
      using False by (subst copy_levels.simps) auto
    moreover have "max idx (min H (upd + 1)) - idx = 0" using False by (auto simp: min_def max_def)
    moreover have "\<not> (q = bk \<and> idx \<le> int j \<and> int j < H \<and> int j \<le> upd)" for j q using False by auto
    ultimately show ?thesis by (intro exI [of _ skl]) (simp del: de_Morgan_conj)
  next
    case True
    have i: "0 \<le> idx" "idx < hgt skl bk" "idx < hgt skl nd" using "1.prems" True by auto
    have g: "get_lvl skl nd idx = Inr (nxt skl (nat idx) nd)" by (rule get_lvl_ok [OF "1.prems"(2) i(1,3)])
    obtain s1 where s1: "set_lvl skl bk idx (nxt skl (nat idx) nd) = Inr s1" "relinked skl s1"
        "\<And>j q. nxt s1 j q = (if q = bk \<and> j = nat idx then nxt skl (nat idx) nd else nxt skl j q)"
      using set_lvl_ok [OF "1.prems"(1) i(1,2)] by metis
    note r = relinkedD [OF s1(2)]
    obtain s2 where s2: "copy_levels s1 bk nd (idx + 1) (cur + 1) H upd
          = Inr (s2, cur + 1 + (max (idx + 1) (min H (upd + 1)) - (idx + 1)))" "relinked s1 s2"
        "\<And>j q. nxt s2 j q = (if q = bk \<and> idx + 1 \<le> int j \<and> int j < H \<and> int j \<le> upd then nxt s1 j nd else nxt s1 j q)"
      using "1.IH" [OF True g s1(1)] "1.prems" r by auto
    have "cur + 1 + (max (idx + 1) (min H (upd + 1)) - (idx + 1)) = cur + (max idx (min H (upd + 1)) - idx)"
      using True by (auto simp: min_def max_def)
    moreover have "nxt s2 j q = (if q = bk \<and> idx \<le> int j \<and> int j < H \<and> int j \<le> upd then nxt skl j nd else nxt skl j q)" for j q
      using s2(3) [of j q] s1(3) "1.prems"(3) True i(1) by (auto simp: nat_eq_iff2)
    moreover have "copy_levels skl bk nd idx cur H upd = copy_levels s1 bk nd (idx + 1) (cur + 1) H upd"
      using True g s1(1) by (subst copy_levels.simps) simp
    ultimately show ?thesis using s2(1) relinked_trans [OF s1(2) s2(2)] by (intro exI [of _ s2]) simp
  qed
qed

lemma unlink_back_ok:
  "fchain (bck skl) bs \<Longrightarrow> bs \<noteq> [] \<Longrightarrow> hgt skl (last bs) = 16 \<Longrightarrow> (\<And>b. b \<in> set bs \<Longrightarrow> node_ok skl b) \<Longrightarrow>
   nd \<notin> set bs \<Longrightarrow> node_ok skl nd \<Longrightarrow> H = hgt skl nd \<Longrightarrow> 0 \<le> c \<Longrightarrow> c < H \<Longrightarrow> length bs < fuel \<Longrightarrow>
   \<exists>skl'. unlink_back fuel skl nd (front bs) H c = Inr skl' \<and> relinked skl skl'
     \<and> (\<forall>j q. nxt skl' j q = (if c \<le> int j \<and> int j < H \<and> find (\<lambda>b. int j < hgt skl b) bs = Some q
          then nxt skl j nd else nxt skl j q))"
proof (induction bs arbitrary: fuel skl c)
  case Nil
  then show ?case by simp
next
  case (Cons b bs)
  obtain f where f: "fuel = Suc f" "length bs < f" using Cons.prems(10) by (cases fuel) auto
  have bn: "b \<noteq> nd" "node_ok skl b" using Cons.prems(4,5) by auto
  obtain n where n: "node skl b = Inr n" "lvlNum n = hgt skl b" "b \<noteq> 0" using node_okD [OF bn(2)] by metis
  have H: "1 \<le> hgt skl b" "H \<le> 16" using node_ok_hgt [OF bn(2)] node_ok_hgt [OF Cons.prems(6)] Cons.prems(7) by auto
  let ?c = "max c (min H (hgt skl b))"
  obtain s1 where s1: "copy_levels skl b nd c c H (hgt skl b - 1) = Inr (s1, ?c)" "relinked skl s1"
      "\<And>j q. nxt s1 j q = (if q = b \<and> c \<le> int j \<and> int j < H \<and> int j \<le> hgt skl b - 1 then nxt skl j nd else nxt skl j q)"
    using copy_levels_ok [OF bn(2) Cons.prems(6) bn(1), of "hgt skl b - 1" H c c] Cons.prems(7,8) by auto
  note r = relinkedD [OF s1(2)]
  have "node_ok s1 b" using bn(2) r by simp
  then obtain n1 where n1: "node s1 b = Inr n1" "backward n1 = bck skl b" using node_okD r by metis
  have b: "bck skl b = front bs" "fchain (bck s1) bs" using Cons.prems(1) r by simp_all
  show ?case
  proof (cases "?c > H - 1")
    case True
    have hb: "H \<le> hgt skl b" using True Cons.prems(9) by (auto simp: max_def min_def split: if_splits)
    have "nxt s1 j q = (if c \<le> int j \<and> int j < H \<and> find (\<lambda>b. int j < hgt skl b) (b # bs) = Some q
        then nxt skl j nd else nxt skl j q)" for j q
      using s1(3) [of j q] hb by auto
    moreover have "unlink_back fuel skl nd b H c = Inr s1"
      using f n s1(1) True by simp
    ultimately show ?thesis using s1(2) by (intro exI [of _ s1]) auto
  next
    case False
    have hb: "hgt skl b < H" "?c = max c (hgt skl b)" using False Cons.prems(9) by (auto simp: max_def min_def split: if_splits)
    have ne: "bs \<noteq> []" using Cons.prems(3) hb(1) H(2) by auto
    have pos: "0 \<le> max c (hgt skl b)" using Cons.prems(8) by simp
    obtain s2 where s2: "unlink_back f s1 nd (front bs) H ?c = Inr s2" "relinked s1 s2"
        "\<And>j q. nxt s2 j q = (if ?c \<le> int j \<and> int j < H \<and> find (\<lambda>b. int j < hgt s1 b) bs = Some q
          then nxt s1 j nd else nxt s1 j q)"
      using Cons.IH [OF b(2) ne, of ?c f] Cons.prems(3-9) ne r False f(2) hb(1) pos by auto
    have "nxt s2 j q = (if c \<le> int j \<and> int j < H \<and> find (\<lambda>b. int j < hgt skl b) (b # bs) = Some q
        then nxt skl j nd else nxt skl j q)" for j q
    proof (cases "int j < hgt skl b")
      case True
      then show ?thesis using s2(3) [of j q] s1(3) [of j q] hb by auto
    next
      case False
      then show ?thesis using s2(3) [of j q] s1(3) [of j q] s1(3) [of j nd] hb bn(1) r(1) by auto
    qed
    moreover have "unlink_back fuel skl nd b H c = Inr s2"
      using f n s1(1) n1 b(1) s2(1) False by simp
    ultimately show ?thesis using relinked_trans [OF s1(2) s2(2)] by (intro exI [of _ s2]) simp
  qed
qed

lemma bchain_rev: "bchain b d ps \<Longrightarrow> b d = 0 \<Longrightarrow> fchain b (rev (d # ps))"
proof (induction ps rule: rev_induct)
  case (snoc p ps)
  have "front (rev (d # ps)) = last (d # ps)" by (cases ps rule: rev_cases) auto
  then show ?case using snoc by (simp add: bchain_append)
qed simp

lemma find_rev: "find P (rev xs) = (if filter P xs = [] then None else Some (last (filter P xs)))"
  by (induction xs rule: rev_induct) auto

text \<open>Observers and the fields that do not hold nodes.\<close>

lemma observers_fields [simp]:
  "hgt (skl\<lparr>level := l\<rparr>) = hgt skl" "nxt (skl\<lparr>level := l\<rparr>) = nxt skl" "bck (skl\<lparr>level := l\<rparr>) = bck skl"
  "key_of (skl\<lparr>level := l\<rparr>) = key_of skl" "node_ok (skl\<lparr>level := l\<rparr>) = node_ok skl"
  "hgt (skl\<lparr>len := c\<rparr>) = hgt skl" "nxt (skl\<lparr>len := c\<rparr>) = nxt skl" "bck (skl\<lparr>len := c\<rparr>) = bck skl"
  "key_of (skl\<lparr>len := c\<rparr>) = key_of skl" "node_ok (skl\<lparr>len := c\<rparr>) = node_ok skl"
  "hgt (skl\<lparr>skltail := t\<rparr>) = hgt skl" "nxt (skl\<lparr>skltail := t\<rparr>) = nxt skl" "bck (skl\<lparr>skltail := t\<rparr>) = bck skl"
  "key_of (skl\<lparr>skltail := t\<rparr>) = key_of skl" "node_ok (skl\<lparr>skltail := t\<rparr>) = node_ok skl"
  "hgt (skl\<lparr>lvlCnt := a\<rparr>) = hgt skl" "nxt (skl\<lparr>lvlCnt := a\<rparr>) = nxt skl" "bck (skl\<lparr>lvlCnt := a\<rparr>) = bck skl"
  "key_of (skl\<lparr>lvlCnt := a\<rparr>) = key_of skl" "node_ok (skl\<lparr>lvlCnt := a\<rparr>) = node_ok skl"
  by (simp_all add: hgt_def nxt_def bck_def key_of_def node_ok_def fun_eq_iff)

lemma at_lvl_cong: "(\<And>p. p \<in> set ps \<Longrightarrow> hgt s' p = hgt s p) \<Longrightarrow> at_lvl s' i ps = at_lvl s i ps"
  by (auto simp: at_lvl_def intro: filter_cong)

lemma set_back_ok:
  assumes "node_ok skl q"
  obtains n where "node skl q = Inr n" "hgt (set_node skl q (n\<lparr>backward := v\<rparr>)) = hgt skl"
    "nxt (set_node skl q (n\<lparr>backward := v\<rparr>)) = nxt skl" "key_of (set_node skl q (n\<lparr>backward := v\<rparr>)) = key_of skl"
    "node_ok (set_node skl q (n\<lparr>backward := v\<rparr>)) = node_ok skl"
    "bck (set_node skl q (n\<lparr>backward := v\<rparr>)) = (bck skl)(q := v)"
proof -
  obtain n where n: "node skl q = Inr n" "nodes skl q = Some n" using node_okD [OF assms] by metis
  show thesis
    by (rule that [OF n(1)])
      (use n(2) in \<open>auto simp: set_node_def hgt_def nxt_def key_of_def node_ok_def bck_def fun_eq_iff\<close>)
qed

lemma lower_level_ok:
  "node_ok skl (sklhead skl) \<Longrightarrow> hgt skl (sklhead skl) = 16 \<Longrightarrow> 0 < level skl \<Longrightarrow> level skl \<le> 16 \<Longrightarrow> nat (level skl) \<le> fuel \<Longrightarrow>
   \<exists>l. lower_level fuel skl = Inr (skl\<lparr>level := l\<rparr>) \<and> 0 \<le> l \<and> l \<le> level skl
     \<and> (l = 0 \<or> nxt skl (nat (l - 1)) (sklhead skl) \<noteq> 0)
     \<and> (\<forall>j. l \<le> int j \<longrightarrow> int j < level skl \<longrightarrow> nxt skl j (sklhead skl) = 0)"
proof (induction fuel arbitrary: skl)
  case 0
  then show ?case by simp
next
  case (Suc fuel)
  let ?l = "level skl - 1"
  have g: "get_lvl skl (sklhead skl) ?l = Inr (nxt skl (nat ?l) (sklhead skl))"
    by (rule get_lvl_ok [OF Suc.prems(1)]) (use Suc.prems(2-4) in auto)
  show ?case
  proof (cases "nxt skl (nat ?l) (sklhead skl) = 0")
    case False
    then show ?thesis using g Suc.prems(3) by (intro exI [of _ "level skl"]) simp
  next
    case z: True
    have at: "nxt skl j (sklhead skl) = 0" if "?l \<le> int j" "int j < level skl" for j
    proof -
      have "j = nat ?l" using that by linarith
      then show ?thesis using z by simp
    qed
    show ?thesis
    proof (cases "?l = 0")
      case True
      then show ?thesis using g z Suc.prems(3) at by (intro exI [of _ 0]) auto
    next
      case False
      let ?s = "skl\<lparr>level := ?l\<rparr>"
      have nat_le: "nat ?l \<le> fuel" using Suc.prems(5) by linarith
      obtain l where l: "lower_level fuel ?s = Inr (?s\<lparr>level := l\<rparr>)" "0 \<le> l" "l \<le> ?l"
          "l = 0 \<or> nxt skl (nat (l - 1)) (sklhead skl) \<noteq> 0"
          "\<forall>j. l \<le> int j \<longrightarrow> int j < ?l \<longrightarrow> nxt skl j (sklhead skl) = 0"
        using Suc.IH [of ?s] Suc.prems False nat_le by auto
      then show ?thesis using g z Suc.prems(3) at False
        by (intro exI [of _ l]) (simp, metis linorder_not_le)
    qed
  qed
qed

lemma count_ok:
  assumes "1 \<le> l" "l \<le> 16" "length (lvlCnt skl) = 16"
  shows "\<exists>a. count_level skl l d = Inr (skl\<lparr>lvlCnt := a\<rparr>) \<and> length a = 16"
  using assms by (auto simp: count_level_def)

text \<open>Freeing a node that is no longer linked.\<close>

lemma put_sklnode_ok:
  assumes "node_ok skl p" "length (lvlCnt skl) = 16"
  obtains skl' a where "put_sklnode skl p = Inr skl'" "skl' = skl\<lparr>lvlCnt := a, nodes := (nodes skl)(p := None)\<rparr>"
    "length a = 16"
proof -
  obtain n where n: "node skl p = Inr n" "lvlNum n = hgt skl p" "1 \<le> hgt skl p" "hgt skl p \<le> 16"
    using node_okD [OF assms(1)] by metis
  obtain a where "count_level skl (lvlNum n) (- 1) = Inr (skl\<lparr>lvlCnt := a\<rparr>)" "length a = 16"
    using count_ok [of "lvlNum n" skl "- 1"] n assms(2) by auto
  then show thesis using that n(1) by (simp add: put_sklnode_def)
qed

lemma observers_drop:
  assumes "q \<noteq> p"
  shows "hgt (skl\<lparr>lvlCnt := a, nodes := (nodes skl)(p := None)\<rparr>) q = hgt skl q"
    "nxt (skl\<lparr>lvlCnt := a, nodes := (nodes skl)(p := None)\<rparr>) i q = nxt skl i q"
    "bck (skl\<lparr>lvlCnt := a, nodes := (nodes skl)(p := None)\<rparr>) q = bck skl q"
    "key_of (skl\<lparr>lvlCnt := a, nodes := (nodes skl)(p := None)\<rparr>) q = key_of skl q"
    "node_ok (skl\<lparr>lvlCnt := a, nodes := (nodes skl)(p := None)\<rparr>) q = node_ok skl q"
  using assms by (simp_all add: hgt_def nxt_def bck_def key_of_def node_ok_def)

lemma bchain_del:
  assumes "bchain b d (ps @ n # ms)" "distinct (ps @ n # ms)"
  shows "bchain (case ms of [] \<Rightarrow> b | m # _ \<Rightarrow> b(m := b n)) d (ps @ ms)"
proof (cases ms)
  case (Cons m qs)
  have "bchain b d ps" "b n = last (d # ps)" "b m = n" "bchain b m qs"
    using assms(1) Cons by (simp_all add: bchain_append)
  moreover have "bchain (b(m := b n)) d ps = bchain b d ps" "bchain (b(m := b n)) m qs = bchain b m qs"
    using assms(2) Cons by (auto intro!: bchain_cong)
  ultimately show ?thesis using Cons by (simp add: bchain_append del: last.simps)
qed (use assms in \<open>simp add: bchain_append\<close>)

text \<open>The levels that remain are the heights of the remaining nodes.\<close>

lemma level_after:
  assumes nodes: "\<And>p. p \<in> set ns \<Longrightarrow> 1 \<le> hgt skl p \<and> p \<noteq> 0"
    and top: "\<And>p. p \<in> set ns \<Longrightarrow> hgt skl p \<le> L" and L: "L \<le> 16"
    and head: "\<And>i. i < 16 \<Longrightarrow> nx i = front (at_lvl skl i ns)"
    and l: "0 \<le> l" "l \<le> L" "l = 0 \<or> nx (nat (l - 1)) \<noteq> 0" "\<forall>j. l \<le> int j \<longrightarrow> int j < L \<longrightarrow> nx j = 0"
    and s': "level s' = l" "\<And>p. p \<in> set ns \<Longrightarrow> hgt s' p = hgt skl p"
  shows "level_ok s' ns"
proof -
  have empty: "nx i = 0 \<Longrightarrow> i < 16 \<Longrightarrow> at_lvl skl i ns = []" for i
  proof (cases "at_lvl skl i ns")
    case (Cons q qs)
    assume "nx i = 0" "i < 16"
    then have "q = 0" using head Cons by simp
    moreover have "q \<in> set ns" using Cons set_at_lvl [of q skl i ns] by auto
    ultimately show ?thesis using nodes by blast
  qed
  have up: "hgt skl p \<le> l" if "p \<in> set ns" for p
  proof (rule ccontr)
    assume "\<not> hgt skl p \<le> l"
    then have h: "l < hgt skl p" "hgt skl p \<le> L" using top that by auto
    then have "nx (nat l) = 0" using l(1,4) by auto
    then have "at_lvl skl (nat l) ns = []" using empty h L l(1) by auto
    moreover have "p \<in> set (at_lvl skl (nat l) ns)" using that h l(1) by (simp add: set_at_lvl)
    ultimately show False by simp
  qed
  show ?thesis
  proof (cases "ns = []")
    case True
    have "l = 0"
    proof (rule ccontr)
      assume "l \<noteq> 0"
      then have "nat (l - 1) < 16" "nx (nat (l - 1)) \<noteq> 0" using l L by auto
      then show False using head True by (simp add: at_lvl_def)
    qed
    then show ?thesis using s' True by (simp add: level_ok_def)
  next
    case False
    then obtain p where p: "p \<in> set ns" by (cases ns) auto
    then have "l \<noteq> 0" using up [OF p] nodes [OF p] by linarith
    then have i: "nat (l - 1) < 16" "nx (nat (l - 1)) \<noteq> 0" using l L by auto
    then have "at_lvl skl (nat (l - 1)) ns \<noteq> []" using head by auto
    then obtain q where "q \<in> set ns" "int (nat (l - 1)) < hgt skl q"
      by (metis last_in_set set_at_lvl)
    then have "q \<in> set ns" "hgt skl q = l" using up [of q] l(1) \<open>l \<noteq> 0\<close> by auto
    then show ?thesis using s' up False unfolding level_ok_def by auto
  qed
qed

text \<open>The pointers of every level after the node's predecessors have been relinked.\<close>

lemma delete_links:
  assumes ok: "skl_ok skl (ps @ nd # ms)" and f: "length ps + 16 < fuel"
  obtains s1 where "unlink_back fuel skl nd (bck skl nd) (hgt skl nd) 0 = Inr s1" "relinked skl s1"
    "\<And>j. j < 16 \<Longrightarrow> fchain (nxt s1 j) (at_lvl skl j (sklhead skl # ps @ ms))" "nxt s1 0 nd = front ms"
proof -
  let ?d = "sklhead skl" and ?ns = "ps @ nd # ms"
  let ?bs = "rev (?d # ps)"
  note D = skl_okD [OF ok]
  have dist: "distinct (?d # ps @ nd # ms)" using D(1) .
  have nodes: "\<And>p. p \<in> set (?d # ?ns) \<Longrightarrow> node_ok skl p" by (rule D(2))
  have nd: "node_ok skl nd" "nd \<noteq> ?d" "nd \<notin> set (?d # ps)" using nodes dist by auto
  have hn: "1 \<le> hgt skl nd" "hgt skl nd \<le> 16" using node_ok_hgt [OF nd(1)] by auto
  have bc: "bchain (bck skl) ?d ps" "bck skl nd = last (?d # ps)" using D(6) by (simp_all add: bchain_append)
  have fb: "front ?bs = last (?d # ps)" by (cases ps rule: rev_cases) auto
  have "length ?bs < fuel" "hgt skl (last ?bs) = 16" using f D(3) by (simp_all add: last_rev)
  then obtain s1 where s1: "unlink_back fuel skl nd (front ?bs) (hgt skl nd) 0 = Inr s1" "relinked skl s1"
      "\<And>j q. nxt s1 j q = (if int j < hgt skl nd \<and> find (\<lambda>b. int j < hgt skl b) ?bs = Some q
          then nxt skl j nd else nxt skl j q)"
    using unlink_back_ok [of skl ?bs nd "hgt skl nd" 0 fuel] bchain_rev [OF bc(1) D(5)] nodes nd hn by auto
  define pv where "pv = (\<lambda>j. last (at_lvl skl j (?d # ps)))"
  have ne: "at_lvl skl j (?d # ps) \<noteq> []" if "j < 16" for j using D(3) that by (simp add: at_lvl_Cons)
  have s1n: "nxt s1 j q = (if int j < hgt skl nd \<and> q = pv j then nxt skl j nd else nxt skl j q)" if "j < 16" for j q
  proof -
    have "find (\<lambda>b. int j < hgt skl b) ?bs = Some (pv j)"
      using find_rev [of "\<lambda>b. int j < hgt skl b" "?d # ps"] ne [OF that] by (simp add: pv_def at_lvl_def)
    then show ?thesis using s1(3) [of j q] by auto
  qed
  have chains: "fchain (nxt s1 j) (at_lvl skl j (?d # ps @ ms))" if j: "j < 16" for j
  proof (cases "int j < hgt skl nd")
    case True
    have us: "at_lvl skl j (?d # ps) = butlast (at_lvl skl j (?d # ps)) @ [pv j]" using ne [OF j] unfolding pv_def by simp
    define us where "us = butlast (at_lvl skl j (?d # ps))"
    have us: "at_lvl skl j (?d # ps) = us @ [pv j]" unfolding us_def by (rule us)
    have all: "at_lvl skl j (?d # ?ns) = us @ pv j # nd # at_lvl skl j ms"
      using us True at_lvl_append [of skl j "?d # ps" "nd # ms"] by (simp add: at_lvl_Cons)
    have "distinct (at_lvl skl j (?d # ?ns))" unfolding at_lvl_def using dist by (rule distinct_filter)
    then have "fchain ((nxt skl j)(pv j := nxt skl j nd)) (us @ pv j # at_lvl skl j ms)"
      using fchain_del [of "nxt skl j" us "pv j" nd] D(4) [OF j] unfolding all by blast
    moreover have "(nxt skl j)(pv j := nxt skl j nd) = nxt s1 j" using s1n [OF j] True by auto
    moreover have "at_lvl skl j (?d # ps @ ms) = us @ pv j # at_lvl skl j ms"
      using us at_lvl_append [of skl j "?d # ps" ms] by simp
    ultimately show ?thesis by simp
  next
    case False
    then have "at_lvl skl j (?d # ps @ ms) = at_lvl skl j (?d # ?ns)" by (simp add: at_lvl_def)
    moreover have "nxt s1 j = nxt skl j" using s1n [OF j] False by auto
    ultimately show ?thesis using D(4) [OF j] by simp
  qed
  have "pv 0 \<in> set (at_lvl skl 0 (?d # ps))" unfolding pv_def by (rule last_in_set [OF ne]) simp
  then have "nd \<noteq> pv 0" using nd(3) set_at_lvl [of "pv 0" skl 0 "?d # ps"] by auto
  then have "nxt s1 0 nd = nxt skl 0 nd" using s1n [of 0 nd] by auto
  also have "\<dots> = front (at_lvl skl 0 ms)" by (rule nxt_front [OF ok, of "?d # ps"]) (use hn in simp_all)
  also have "at_lvl skl 0 ms = ms" by (rule at_lvl_0) (use nodes in auto)
  finally show thesis using that s1(1,2) chains fb bc(2) by simp
qed

text \<open>The step that updates the back pointer of the next node, or the tail.\<close>

definition patch_back :: "'k spg_skl \<Rightarrow> naddr \<Rightarrow> naddr \<Rightarrow> fault + 'k spg_skl" where
  "patch_back skl q v =
     (if q \<noteq> 0 then bindE (node skl q) (\<lambda>m. Inr (set_node skl q (m\<lparr>backward := v\<rparr>)))
      else Inr (skl\<lparr>skltail := v\<rparr>))"

lemma patch_back_ok:
  assumes "\<And>m. m \<in> set ms \<Longrightarrow> node_ok skl m"
  obtains s2 where "patch_back skl (front ms) v = Inr s2"
    "hgt s2 = hgt skl" "nxt s2 = nxt skl" "key_of s2 = key_of skl" "node_ok s2 = node_ok skl"
    "bck s2 = (case ms of [] \<Rightarrow> bck skl | m # _ \<Rightarrow> (bck skl)(m := v))"
    "sklhead s2 = sklhead skl" "level s2 = level skl" "len s2 = len skl" "lvlCnt s2 = lvlCnt skl"
    "cmpFunc s2 = cmpFunc skl" "skltail s2 = (if ms = [] then v else skltail skl)"
proof (cases ms)
  case Nil
  then show thesis using that [of "skl\<lparr>skltail := v\<rparr>"] by (simp add: patch_back_def)
next
  case (Cons m qs)
  have m: "node_ok skl m" using assms Cons by simp
  then have "m \<noteq> 0" using node_ok_hgt by blast
  obtain k where k: "node skl m = Inr k" "hgt (set_node skl m (k\<lparr>backward := v\<rparr>)) = hgt skl"
    "nxt (set_node skl m (k\<lparr>backward := v\<rparr>)) = nxt skl" "key_of (set_node skl m (k\<lparr>backward := v\<rparr>)) = key_of skl"
    "node_ok (set_node skl m (k\<lparr>backward := v\<rparr>)) = node_ok skl"
    "bck (set_node skl m (k\<lparr>backward := v\<rparr>)) = (bck skl)(m := v)"
    using set_back_ok [OF m] by metis
  then show thesis using that [of "set_node skl m (k\<lparr>backward := v\<rparr>)"] \<open>m \<noteq> 0\<close> Cons
    by (simp add: patch_back_def set_node_def)
qed

text \<open>The invariant after a node has left: the chains of \<open>f\<close>, the backward links of \<open>b\<close>, the lowered level.\<close>

lemma skl_ok_without:
  assumes ok: "skl_ok skl (ps @ nd # ms)"
    and same: "\<And>p. p \<in> set (sklhead skl # ps @ ms) \<Longrightarrow> hgt s p = hgt skl p"
      "\<And>p. p \<in> set (sklhead skl # ps @ ms) \<Longrightarrow> node_ok s p = node_ok skl p"
    and f: "\<And>p j. p \<in> set (sklhead skl # ps @ ms) \<Longrightarrow> nxt s j p = f j p"
      "\<forall>j<16. fchain (f j) (at_lvl skl j (sklhead skl # ps @ ms))"
    and b: "\<And>p. p \<in> set (sklhead skl # ps @ ms) \<Longrightarrow> bck s p = b p"
      "b = (case ms of [] \<Rightarrow> bck skl | m # _ \<Rightarrow> (bck skl)(m := bck skl nd))"
    and flds: "sklhead s = sklhead skl" "skltail s = last (sklhead skl # ps @ ms)" "len s = len skl - 1"
      "level s = l" "length (lvlCnt s) = 16"
    and l: "0 \<le> l" "l \<le> level skl" "l = 0 \<or> f (nat (l - 1)) (sklhead skl) \<noteq> 0"
      "\<forall>j. l \<le> int j \<longrightarrow> int j < level skl \<longrightarrow> f j (sklhead skl) = 0"
  shows "skl_ok s (ps @ ms)"
proof -
  let ?d = "sklhead skl"
  note D = skl_okD [OF ok]
  have dist: "distinct (?d # ps @ nd # ms)" using D(1) .
  have nodes: "\<And>p. p \<in> set (?d # ps @ nd # ms) \<Longrightarrow> node_ok skl p" by (rule D(2))
  have lv: "0 < level skl" "level skl \<le> 16" using level_bounds [OF ok] by auto
  have at: "at_lvl s j (?d # ps @ ms) = at_lvl skl j (?d # ps @ ms)" for j
    by (rule at_lvl_cong) (use same(1) in blast)
  have "bchain b ?d (ps @ ms)" using bchain_del [OF D(6)] dist b(2) by (cases ms) auto
  then have "bchain (bck s) ?d (ps @ ms)" using bchain_cong [of "ps @ ms" "bck s" b ?d] b(1) by auto
  moreover have "bck s ?d = 0" using b D(5) dist by (cases ms) auto
  moreover have "fchain (nxt s j) (at_lvl s j (?d # ps @ ms))" if "j < 16" for j
  proof -
    have "fchain (nxt s j) (at_lvl skl j (?d # ps @ ms)) = fchain (f j) (at_lvl skl j (?d # ps @ ms))"
      by (rule fchain_cong) (use f(1) set_at_lvl in blast)
    then show ?thesis unfolding at using f(2) that by blast
  qed
  moreover have "len s = of_nat (length (ps @ ms))" using flds(3) D(8) by simp
  moreover have "level_ok s (ps @ ms)"
  proof (rule level_after [of "ps @ ms" skl "level skl" "\<lambda>i. f i ?d" l])
    show "1 \<le> hgt skl p \<and> p \<noteq> 0" if "p \<in> set (ps @ ms)" for p using nodes [of p] node_ok_hgt [of skl p] that by auto
    show "hgt skl p \<le> level skl" if "p \<in> set (ps @ ms)" for p using D(10) that by (auto simp: level_ok_def)
    show "f i ?d = front (at_lvl skl i (ps @ ms))" if "i < 16" for i
      using f(2) D(3) that by (simp add: at_lvl_Cons)
    show "hgt s p = hgt skl p" if "p \<in> set (ps @ ms)" for p using same(1) that by auto
  qed (use lv l flds in auto)
  ultimately show ?thesis
    unfolding skl_ok_def flds(1,2) using dist nodes D(3,9) same flds(5) by auto
qed

lemma delete_ok:
  assumes ok: "skl_ok skl (ps @ nd # ms)" and f: "length ps + 16 < fuel"
  shows "\<exists>skl'. skl_delete_node fuel skl nd = Inr skl' \<and> skl_ok skl' (ps @ ms) \<and> cmpFunc skl' = cmpFunc skl
    \<and> (\<forall>p\<in>set (ps @ ms). key_of skl' p = key_of skl p) \<and> nodes skl' nd = None"
proof -
  let ?d = "sklhead skl" and ?ns = "ps @ nd # ms"
  note D = skl_okD [OF ok]
  have dist: "distinct (?d # ps @ nd # ms)" using D(1) .
  have nodes: "\<And>p. p \<in> set (?d # ?ns) \<Longrightarrow> node_ok skl p" by (rule D(2))
  have nd: "node_ok skl nd" "nd \<noteq> ?d" using nodes dist by auto
  have hn: "1 \<le> hgt skl nd" using node_ok_hgt [OF nd(1)] by auto
  have tail: "bck skl nd = last (?d # ps)" using D(6) by (simp add: bchain_append)
  obtain n where n: "node skl nd = Inr n" "lvlNum n = hgt skl nd" "backward n = bck skl nd" using node_okD [OF nd(1)] by metis
  obtain s1 where s1: "unlink_back fuel skl nd (bck skl nd) (hgt skl nd) 0 = Inr s1" "relinked skl s1"
      "\<And>j. j < 16 \<Longrightarrow> fchain (nxt s1 j) (at_lvl skl j (?d # ps @ ms))" "nxt s1 0 nd = front ms"
    using delete_links [OF ok f] by blast
  note r = relinkedD [OF s1(2)]
  have nd1: "node_ok s1 nd" using nd(1) r by simp
  obtain n1 where n1: "node s1 nd = Inr n1" "backward n1 = bck skl nd" using node_okD [OF nd1] r by metis
  have g0: "get_lvl s1 nd 0 = Inr (front ms)" using get_lvl_ok [OF nd1, of 0] r hn s1(4) by simp
  have "\<And>m. m \<in> set ms \<Longrightarrow> node_ok s1 m" using nodes r by simp
  then obtain s2 where s2: "patch_back s1 (front ms) (backward n1) = Inr s2"
      "hgt s2 = hgt skl" "nxt s2 = nxt s1" "key_of s2 = key_of skl" "node_ok s2 = node_ok skl"
      "bck s2 = (case ms of [] \<Rightarrow> bck skl | m # _ \<Rightarrow> (bck skl)(m := bck skl nd))"
      "sklhead s2 = ?d" "level s2 = level skl" "len s2 = len skl" "lvlCnt s2 = lvlCnt skl" "cmpFunc s2 = cmpFunc skl"
      "skltail s2 = (if ms = [] then bck skl nd else skltail skl)"
    using patch_back_ok [of ms s1 "backward n1"] n1(2) r by metis
  let ?s3 = "s2\<lparr>len := len s2 - 1\<rparr>"
  have lv: "0 < level skl" "level skl \<le> 16" using level_bounds [OF ok] by auto
  have fu: "nat (level skl) \<le> fuel" using lv f by linarith
  obtain l where l: "lower_level fuel ?s3 = Inr (?s3\<lparr>level := l\<rparr>)" "0 \<le> l" "l \<le> level skl"
      "l = 0 \<or> nxt s1 (nat (l - 1)) ?d \<noteq> 0" "\<forall>j. l \<le> int j \<longrightarrow> int j < level skl \<longrightarrow> nxt s1 j ?d = 0"
    using lower_level_ok [of ?s3 fuel] s2 nodes [of ?d] D(3) lv fu by auto
  let ?s4 = "?s3\<lparr>level := l\<rparr>"
  have "node_ok ?s4 nd" "length (lvlCnt ?s4) = 16" using nd(1) s2 D(11) by simp_all
  then obtain s5 a where s5: "put_sklnode ?s4 nd = Inr s5"
      "s5 = ?s4\<lparr>lvlCnt := a, nodes := (nodes ?s4)(nd := None)\<rparr>" "length a = 16"
    by (rule put_sklnode_ok)
  have run: "skl_delete_node fuel skl nd = Inr s5"
    using n s1(1) g0 n1(1) s2(1) l(1) s5(1) unfolding skl_delete_node_def patch_back_def by (simp add: Let_def)
  have obs: "hgt s5 p = hgt skl p" "nxt s5 j p = nxt s1 j p" "key_of s5 p = key_of skl p" "node_ok s5 p = node_ok skl p"
      "bck s5 p = bck s2 p" if "p \<noteq> nd" for p j
    unfolding s5(2) using observers_drop [OF that, of ?s4 a] s2 by simp_all
  have out: "p \<noteq> nd" if "p \<in> set (?d # ps @ ms)" for p using that dist by auto
  have flds: "sklhead s5 = ?d" "skltail s5 = last (?d # ps @ ms)" "len s5 = len skl - 1" "level s5 = l" "lvlCnt s5 = a"
    unfolding s5(2) using s2 D(7) tail by auto
  have "skl_ok s5 (ps @ ms)"
  proof (rule skl_ok_without [OF ok])
    show "bck s5 p = bck s2 p" if "p \<in> set (?d # ps @ ms)" for p using obs(5) out that by blast
    show "\<forall>j<16. fchain (nxt s1 j) (at_lvl skl j (?d # ps @ ms))" using s1(3) by blast
  qed (use obs out flds s2(6) s5(3) l(2-5) in auto)
  moreover have "cmpFunc s5 = cmpFunc skl" "nodes s5 nd = None" unfolding s5(2) using s2 by simp_all
  moreover have "\<forall>p\<in>set (ps @ ms). key_of s5 p = key_of skl p" using obs(3) out by auto
  ultimately show ?thesis using run by blast
qed

end
