(* ===== verification/Skip_Insert.thy ===== *)
theory Skip_Insert
  imports Skip_List
begin

text \<open>
  The linking half of skl_insert (src/spg_skiplist.c) and the properties of the skip list:
  searching and removing, inserting, traversing and flushing.
\<close>

section \<open>Linking a node\<close>

lemma head_prevs_ok:
  "0 \<le> idx \<Longrightarrow> nat h \<le> length prev \<Longrightarrow>
   \<exists>pr. head_prevs d prev idx h = Inr pr \<and> length pr = length prev
     \<and> (\<forall>i<length prev. pr ! i = (if idx \<le> int i \<and> int i < h then d else prev ! i))"
proof (induction d prev idx h rule: head_prevs.induct)
  case (1 d prev idx h)
  show ?case
  proof (cases "idx < h")
    case True
    then have i: "nat idx < length prev" using "1.prems" by linarith
    then obtain pr where pr: "head_prevs d (prev[nat idx := d]) (idx + 1) h = Inr pr" "length pr = length prev"
        "\<forall>i<length prev. pr ! i = (if idx + 1 \<le> int i \<and> int i < h then d else prev[nat idx := d] ! i)"
      using "1.IH" [OF True] "1.prems" by auto
    have "pr ! i = (if idx \<le> int i \<and> int i < h then d else prev ! i)" if "i < length prev" for i
      using pr(3) that True "1.prems"(1) by (cases "i = nat idx") (auto simp: nth_list_update)
    then show ?thesis using pr True i "1.prems"(1) by (subst head_prevs.simps) auto
  qed (subst head_prevs.simps, auto)
qed

lemma link_levels_ok:
  "node_ok skl nd \<Longrightarrow> h \<le> hgt skl nd \<Longrightarrow> 0 \<le> idx \<Longrightarrow> nat h \<le> length prev \<Longrightarrow>
   (\<And>i. int i < h \<Longrightarrow> node_ok skl (prev ! i) \<and> int i < hgt skl (prev ! i) \<and> prev ! i \<noteq> nd) \<Longrightarrow>
   \<exists>skl'. link_levels skl nd prev idx h = Inr skl' \<and> relinked skl skl'
     \<and> (\<forall>j q. nxt skl' j q = (if idx \<le> int j \<and> int j < h
          then ((nxt skl j)(nd := nxt skl j (prev ! j), prev ! j := nd)) q else nxt skl j q))"
proof (induction skl nd prev idx h rule: link_levels.induct)
  case (1 skl nd prev idx h)
  show ?case
  proof (cases "idx < h")
    case True
    let ?p = "prev ! nat idx"
    have i: "nat idx < length prev" using True "1.prems"(3,4) by linarith
    have p: "node_ok skl ?p" "idx < hgt skl ?p" "?p \<noteq> nd" using "1.prems"(5) [of "nat idx"] True "1.prems"(3) by auto
    have g: "get_lvl skl ?p idx = Inr (nxt skl (nat idx) ?p)" using get_lvl_ok [OF p(1) "1.prems"(3) p(2)] .
    have hd: "idx < hgt skl nd" using True "1.prems"(2) by linarith
    obtain s1 where s1: "set_lvl skl nd idx (nxt skl (nat idx) ?p) = Inr s1" "relinked skl s1"
        "\<And>j q. nxt s1 j q = (if q = nd \<and> j = nat idx then nxt skl (nat idx) ?p else nxt skl j q)"
      using set_lvl_ok [OF "1.prems"(1,3) hd] by metis
    note r1 = relinkedD [OF s1(2)]
    have p1: "node_ok s1 ?p" "idx < hgt s1 ?p" using p r1 by simp_all
    obtain s2 where s2: "set_lvl s1 ?p idx nd = Inr s2" "relinked s1 s2"
        "\<And>j q. nxt s2 j q = (if q = ?p \<and> j = nat idx then nd else nxt s1 j q)"
      using set_lvl_ok [OF p1(1) "1.prems"(3) p1(2)] by metis
    note r2 = relinkedD [OF s2(2)]
    have "\<exists>skl'. link_levels s2 nd prev (idx + 1) h = Inr skl' \<and> relinked s2 skl'
     \<and> (\<forall>j q. nxt skl' j q = (if idx + 1 \<le> int j \<and> int j < h
          then ((nxt s2 j)(nd := nxt s2 j (prev ! j), prev ! j := nd)) q else nxt s2 j q))"
      by (rule "1.IH" [OF True _ g s1(1) s2(1)]) (use "1.prems" i r1 r2 in auto)
    then obtain s3 where s3: "link_levels s2 nd prev (idx + 1) h = Inr s3" "relinked s2 s3"
        "\<And>j q. nxt s3 j q = (if idx + 1 \<le> int j \<and> int j < h
          then ((nxt s2 j)(nd := nxt s2 j (prev ! j), prev ! j := nd)) q else nxt s2 j q)"
      by blast
    have "nxt s3 j q = (if idx \<le> int j \<and> int j < h
          then ((nxt skl j)(nd := nxt skl j (prev ! j), prev ! j := nd)) q else nxt skl j q)" for j q
    proof (cases "j = nat idx")
      case True': True
      then have "int j = idx" using "1.prems"(3) by simp
      then show ?thesis using s3(3) [of j q] s2(3) s1(3) True p(3) True' by auto
    next
      case False
      then have "idx \<le> int j \<longleftrightarrow> idx + 1 \<le> int j" by auto
      then show ?thesis using s3(3) [of j q] s2(3) s1(3) False by auto
    qed
    then show ?thesis
      using True i "1.prems"(3) g s1(1) s2(1) s3(1) relinked_trans [OF relinked_trans [OF s1(2) s2(2)] s3(2)]
      by (subst link_levels.simps) auto
  qed (subst link_levels.simps, auto)
qed

lemma link_back_ok:
  assumes nd: "node_ok skl nd" "nd \<notin> set ms" and ms: "\<And>m. m \<in> set ms \<Longrightarrow> node_ok skl m"
    and q: "nxt skl 0 nd = front ms" and b: "(case ms of [] \<Rightarrow> skltail skl | m # _ \<Rightarrow> bck skl m) = b"
  obtains s2 where "link_back skl nd = Inr s2"
    "hgt s2 = hgt skl" "nxt s2 = nxt skl" "key_of s2 = key_of skl" "node_ok s2 = node_ok skl"
    "bck s2 = (case ms of [] \<Rightarrow> (bck skl)(nd := b) | m # _ \<Rightarrow> (bck skl)(nd := b, m := nd))"
    "sklhead s2 = sklhead skl" "level s2 = level skl" "len s2 = len skl" "lvlCnt s2 = lvlCnt skl"
    "cmpFunc s2 = cmpFunc skl" "skltail s2 = (if ms = [] then nd else skltail skl)"
proof -
  obtain n where n: "node skl nd = Inr n"
    "\<And>v. hgt (set_node skl nd (n\<lparr>backward := v\<rparr>)) = hgt skl" "\<And>v. nxt (set_node skl nd (n\<lparr>backward := v\<rparr>)) = nxt skl"
    "\<And>v. key_of (set_node skl nd (n\<lparr>backward := v\<rparr>)) = key_of skl"
    "\<And>v. node_ok (set_node skl nd (n\<lparr>backward := v\<rparr>)) = node_ok skl"
    "\<And>v. bck (set_node skl nd (n\<lparr>backward := v\<rparr>)) = (bck skl)(nd := v)"
  proof -
    obtain n where n: "node skl nd = Inr n" using node_okD [OF nd(1)] by metis
    have "hgt (set_node skl nd (n\<lparr>backward := v\<rparr>)) = hgt skl \<and> nxt (set_node skl nd (n\<lparr>backward := v\<rparr>)) = nxt skl
      \<and> key_of (set_node skl nd (n\<lparr>backward := v\<rparr>)) = key_of skl
      \<and> node_ok (set_node skl nd (n\<lparr>backward := v\<rparr>)) = node_ok skl
      \<and> bck (set_node skl nd (n\<lparr>backward := v\<rparr>)) = (bck skl)(nd := v)" for v
      by (rule set_back_ok [OF nd(1), of v]) (use n in auto)
    then show thesis using that n by blast
  qed
  have g: "get_lvl skl nd 0 = Inr (front ms)" using get_lvl_ok [OF nd(1), of 0] q node_ok_hgt [OF nd(1)] by simp
  show thesis
  proof (cases ms)
    case Nil
    then show thesis using that [of "(set_node skl nd (n\<lparr>backward := b\<rparr>))\<lparr>skltail := nd\<rparr>"] n g b
      by (simp add: link_back_def Let_def) (simp add: set_node_def)
  next
    case (Cons m qs)
    have m: "node_ok skl m" "m \<noteq> nd" "m \<noteq> 0" using ms [of m] Cons nd(2) node_ok_hgt by auto
    obtain k where k: "node skl m = Inr k" "backward k = bck skl m" using node_okD [OF m(1)] by metis
    let ?s = "set_node skl nd (n\<lparr>backward := b\<rparr>)"
    have m': "node_ok ?s m" "node ?s m = Inr k" using m k n(5) by (auto simp: node_def set_node_def)
    obtain k' where "node ?s m = Inr k'" "hgt (set_node ?s m (k'\<lparr>backward := nd\<rparr>)) = hgt ?s"
      "nxt (set_node ?s m (k'\<lparr>backward := nd\<rparr>)) = nxt ?s" "key_of (set_node ?s m (k'\<lparr>backward := nd\<rparr>)) = key_of ?s"
      "node_ok (set_node ?s m (k'\<lparr>backward := nd\<rparr>)) = node_ok ?s"
      "bck (set_node ?s m (k'\<lparr>backward := nd\<rparr>)) = (bck ?s)(m := nd)"
      using set_back_ok [OF m'(1)] by metis
    then show thesis using that [of "set_node ?s m (k\<lparr>backward := nd\<rparr>)"] n g k m' m b Cons
      by (simp add: link_back_def Let_def) (simp add: set_node_def)
  qed
qed

lemma prevs_for_height:
  assumes prev: "length prev = 16" "\<And>i. int i < h \<Longrightarrow> int i < level skl \<Longrightarrow> prev ! i = last (at_lvl skl i (sklhead skl # ps))"
    and top: "\<And>p. p \<in> set ps \<Longrightarrow> hgt skl p \<le> level skl" and h: "h \<le> 16" "0 \<le> level skl"
    and d: "hgt skl (sklhead skl) = 16"
  obtains pr where "(if h > level skl
            then bindE (head_prevs (sklhead skl) prev (level skl) h) (\<lambda>prev. Inr (skl\<lparr>level := h\<rparr>, prev))
            else Inr (skl, prev)) = Inr (skl\<lparr>level := max h (level skl)\<rparr>, pr)"
    "length pr = 16" "\<And>i. int i < h \<Longrightarrow> pr ! i = last (at_lvl skl i (sklhead skl # ps))"
proof (cases "h > level skl")
  case True
  have n16: "nat h \<le> 16" using h(1) by linarith
  obtain pr where pr: "head_prevs (sklhead skl) prev (level skl) h = Inr pr" "length pr = 16"
      "\<forall>i<16. pr ! i = (if level skl \<le> int i \<and> int i < h then sklhead skl else prev ! i)"
    using head_prevs_ok [of "level skl" h prev "sklhead skl"] prev(1) h(2) n16 by auto
  have "pr ! i = last (at_lvl skl i (sklhead skl # ps))" if i: "int i < h" for i
  proof (cases "level skl \<le> int i")
    case True
    then have "at_lvl skl i ps = []" using top by (force simp: at_lvl_def filter_empty_conv)
    then show ?thesis using pr(3) i h(1) True d by (simp add: at_lvl_Cons)
  next
    case False
    then show ?thesis using pr(3) i h(1) prev(2) by auto
  qed
  then show thesis using that pr True by simp
next
  case False
  then have "skl\<lparr>level := max h (level skl)\<rparr> = skl" by simp
  then show thesis using that [of prev] prev False by simp
qed

lemma level_ins:
  assumes "level_ok skl (ps @ ms)" "hgt skl nd = h" "1 \<le> h" "0 \<le> level skl"
    and "level s' = max h (level skl)" "\<And>p. p \<in> set (ps @ nd # ms) \<Longrightarrow> hgt s' p = hgt skl p"
  shows "level_ok s' (ps @ nd # ms)"
proof -
  have "\<exists>p\<in>set (ps @ nd # ms). hgt skl p = max h (level skl)"
  proof (cases "h \<ge> level skl")
    case True
    then show ?thesis using assms(2) by auto
  next
    case False
    then have "ps @ ms \<noteq> []" using assms(1,3) by (auto simp: level_ok_def)
    then obtain p where "p \<in> set (ps @ ms)" "hgt skl p = level skl" using assms(1) unfolding level_ok_def by metis
    then show ?thesis using False by auto
  qed
  moreover have "hgt skl p \<le> max h (level skl)" if "p \<in> set (ps @ nd # ms)" for p
    using assms(1,2) that by (force simp: level_ok_def)
  ultimately show ?thesis using assms(5,6) unfolding level_ok_def by auto
qed

lemma bchain_ins:
  assumes "bchain b d (ps @ ms)" "distinct (ps @ nd # ms)" "b' = (case ms of [] \<Rightarrow> b(nd := last (d # ps)) | m # _ \<Rightarrow> b(nd := last (d # ps), m := nd))"
  shows "bchain b' d (ps @ nd # ms)"
proof -
  have "bchain b d ps" using assms(1) by (simp add: bchain_append)
  moreover have "b' q = b q" if "q \<in> set ps" for q using assms(2,3) that by (cases ms) auto
  ultimately have 1: "bchain b' d ps" using bchain_cong [of ps b' b d] by blast
  have "bchain b' nd ms"
  proof (cases ms)
    case (Cons m qs)
    have "bchain b m qs" using assms(1) Cons by (simp add: bchain_append)
    moreover have "b' q = b q" if "q \<in> set qs" for q using assms(2,3) that Cons by auto
    ultimately have "bchain b' m qs" using bchain_cong [of qs b' b m] by blast
    then show ?thesis using assms(3) Cons by simp
  qed simp
  moreover have "b' nd = last (d # ps)" using assms(2,3) by (cases ms) auto
  ultimately show ?thesis using 1 by (simp add: bchain_append del: last.simps)
qed

text \<open>The chain of one level after the insertion, and what follows the place on the lowest one.\<close>

lemma chain_ins_level:
  assumes ch: "fchain f (at_lvl skl j (d # ps @ ms))" and dist: "distinct (d # ps @ nd # ms)"
    and p: "int j < hgt skl nd \<Longrightarrow> at_lvl skl j (d # ps) \<noteq> [] \<and> p = last (at_lvl skl j (d # ps))"
    and f': "f' = (if int j < hgt skl nd then f(nd := f p, p := nd) else f)"
  shows "fchain f' (at_lvl skl j (d # ps @ nd # ms))"
proof (cases "int j < hgt skl nd")
  case True
  define us where "us = butlast (at_lvl skl j (d # ps))"
  have us: "at_lvl skl j (d # ps) = us @ [p]" using p [OF True] by (simp add: us_def)
  have old: "at_lvl skl j (d # ps @ ms) = us @ p # at_lvl skl j ms"
    using us at_lvl_append [of skl j "d # ps" ms] by simp
  have new: "at_lvl skl j (d # ps @ nd # ms) = us @ p # nd # at_lvl skl j ms"
    using us True at_lvl_append [of skl j "d # ps" "nd # ms"] by (simp add: at_lvl_Cons)
  have "distinct (at_lvl skl j (d # ps @ nd # ms))" unfolding at_lvl_def using dist by (rule distinct_filter)
  then show ?thesis using fchain_ins [of f us p "at_lvl skl j ms" nd] ch True unfolding old new f' by simp
next
  case False
  then have "at_lvl skl j (d # ps @ nd # ms) = at_lvl skl j (d # ps @ ms)" by (simp add: at_lvl_def)
  then show ?thesis using ch False by (simp add: f')
qed

lemma nxt_after:
  assumes ok: "skl_ok skl (ps @ ms)"
  shows "nxt skl 0 (last (at_lvl skl 0 (sklhead skl # ps))) = front ms"
proof -
  let ?d = "sklhead skl"
  have nodes: "\<And>p. p \<in> set (?d # ps @ ms) \<Longrightarrow> node_ok skl p" by (rule skl_okD(2) [OF ok])
  have all: "at_lvl skl 0 (?d # ps) = ?d # ps" "at_lvl skl 0 ms = ms" by (rule at_lvl_0, use nodes in auto)+
  have "nxt skl 0 (last (?d # ps)) = front (at_lvl skl 0 ms)"
  proof (rule nxt_front [OF ok])
    show "?d # ps @ ms = butlast (?d # ps) @ last (?d # ps) # ms"
      by (metis append_Cons append_Nil append_assoc append_butlast_last_id list.discI)
    show "int 0 < hgt skl (last (?d # ps))"
      using nodes [of "last (?d # ps)"] last_in_set [of "?d # ps"] node_ok_hgt [of skl "last (?d # ps)"] by force
  qed
  then show ?thesis unfolding all .
qed

lemma link_node_ok:
  assumes ok: "skl_ok skl (ps @ ms)" and nd: "node_ok skl nd" "nd \<notin> set (sklhead skl # ps @ ms)" "hgt skl nd = h"
    and prev: "length prev = 16"
      "\<And>i. int i < h \<Longrightarrow> int i < level skl \<Longrightarrow> prev ! i = last (at_lvl skl i (sklhead skl # ps))"
    and room: "Suc (length (ps @ ms)) < 2 ^ 32"
  shows "\<exists>skl'. link_node skl nd h prev = Inr skl' \<and> skl_ok skl' (ps @ nd # ms) \<and> cmpFunc skl' = cmpFunc skl
    \<and> key_of skl' = key_of skl"
proof -
  let ?d = "sklhead skl"
  note D = skl_okD [OF ok]
  have hb: "1 \<le> h" "h \<le> 16" using node_ok_hgt [OF nd(1)] nd(3) by auto
  have lv: "0 \<le> level skl" "level skl \<le> 16" using level_bounds [OF ok] by auto
  obtain pr where pr: "(if h > level skl
            then bindE (head_prevs ?d prev (level skl) h) (\<lambda>prev. Inr (skl\<lparr>level := h\<rparr>, prev))
            else Inr (skl, prev)) = Inr (skl\<lparr>level := max h (level skl)\<rparr>, pr)"
    "length pr = 16" "\<And>i. int i < h \<Longrightarrow> pr ! i = last (at_lvl skl i (?d # ps))"
    by (rule prevs_for_height [of prev h skl ps]) (use prev D(3,10) hb lv in \<open>auto simp: level_ok_def\<close>)
  let ?s0 = "skl\<lparr>level := max h (level skl)\<rparr>"
  have ne: "at_lvl skl i (?d # ps) \<noteq> []" if "int i < h" for i using D(3) that hb by (simp add: at_lvl_Cons)
  have pin: "pr ! i \<in> set (?d # ps) \<and> int i < hgt skl (pr ! i)" if "int i < h" for i
    using last_in_set [OF ne [OF that]] pr(3) [OF that] set_at_lvl [of "pr ! i" skl i "?d # ps"] by simp
  have pok: "node_ok ?s0 (pr ! i) \<and> int i < hgt ?s0 (pr ! i) \<and> pr ! i \<noteq> nd" if "int i < h" for i
    using pin [OF that] D(2) [of "pr ! i"] nd(2) by auto
  have n16: "nat h \<le> 16" using hb(2) by linarith
  obtain s1 where s1: "link_levels ?s0 nd pr 0 h = Inr s1" "relinked ?s0 s1"
      "\<And>j q. nxt s1 j q = (if int j < h then ((nxt skl j)(nd := nxt skl j (pr ! j), pr ! j := nd)) q else nxt skl j q)"
    using link_levels_ok [of ?s0 nd h 0 pr] nd(1,3) n16 pr(2) pok by auto
  note r = relinkedD [OF s1(2)]
  have nodes: "\<And>p. p \<in> set (?d # ps @ ms) \<Longrightarrow> node_ok skl p" by (rule D(2))
  have dist: "distinct (?d # ps @ nd # ms)" using D(1) nd(2) by auto
  have chains: "fchain (nxt s1 j) (at_lvl skl j (?d # ps @ nd # ms))" if j: "j < 16" for j
    by (rule chain_ins_level [OF D(4) [OF j] dist, of "pr ! j"])
      (use ne [of j] pr(3) [of j] s1(3) [of j] nd(3) in \<open>auto simp del: last.simps\<close>)
  have "nxt s1 0 nd = nxt skl 0 (pr ! 0)" using s1(3) [of 0 nd] hb pok [of 0] by auto
  then have q: "nxt s1 0 nd = front ms"
    using nxt_after [OF ok] pr(3) [of 0] hb by (simp del: last.simps)
  have b: "(case ms of [] \<Rightarrow> skltail s1 | m # _ \<Rightarrow> bck s1 m) = last (?d # ps)"
    using r D(6,7) by (cases ms) (simp_all add: bchain_append)
  have s1nodes: "node_ok s1 nd" "nd \<notin> set ms" "\<And>m. m \<in> set ms \<Longrightarrow> node_ok s1 m" using r nd nodes by auto
  obtain s2 where s2: "link_back s1 nd = Inr s2"
    "hgt s2 = hgt s1" "nxt s2 = nxt s1" "key_of s2 = key_of s1" "node_ok s2 = node_ok s1"
    "bck s2 = (case ms of [] \<Rightarrow> (bck s1)(nd := last (?d # ps)) | m # _ \<Rightarrow> (bck s1)(nd := last (?d # ps), m := nd))"
    "sklhead s2 = sklhead s1" "level s2 = level s1" "len s2 = len s1" "lvlCnt s2 = lvlCnt s1"
    "cmpFunc s2 = cmpFunc s1" "skltail s2 = (if ms = [] then nd else skltail s1)"
    by (rule link_back_ok [OF s1nodes q b])
  let ?s3 = "s2\<lparr>len := len s2 + 1\<rparr>"
  have run: "link_node skl nd h prev = Inr ?s3" unfolding link_node_def pr(1) using s1(1) s2(1) by simp
  have "skl_ok ?s3 (ps @ nd # ms)"
  proof -
    have "at_lvl ?s3 j (?d # ps @ nd # ms) = at_lvl skl j (?d # ps @ nd # ms)" for j
      by (rule at_lvl_cong) (use s2(2) r in simp)
    then have "\<forall>i<16. fchain (nxt ?s3 i) (at_lvl ?s3 i (?d # ps @ nd # ms))" using chains s2(3) by simp
    moreover have "bchain (bck ?s3) ?d (ps @ nd # ms)"
    proof (rule bchain_ins [OF D(6)])
      show "distinct (ps @ nd # ms)" using dist by simp
      have "bck s1 = bck skl" using r(2) by simp
      then show "bck ?s3 = (case ms of [] \<Rightarrow> (bck skl)(nd := last (?d # ps)) | m # _ \<Rightarrow> (bck skl)(nd := last (?d # ps), m := nd))"
        using s2(6) by (simp only: observers_fields)
    qed
    moreover have "bck ?s3 ?d = 0" using s2(6) D(5) dist r by (cases ms) auto
    moreover have "skltail ?s3 = last (?d # ps @ nd # ms)" using s2(12) r D(7) by auto
    moreover have "len ?s3 = of_nat (length (ps @ nd # ms))" using s2(9) r D(8) by simp
    moreover have "level_ok ?s3 (ps @ nd # ms)"
      by (rule level_ins [OF D(10) nd(3) hb(1) lv(1)]) (use s2 r in auto)
    ultimately show ?thesis
      unfolding skl_ok_def using dist nodes nd(1) D(3,11) s2 r room by auto
  qed
  then show ?thesis using run s2 r by auto
qed

section \<open>Flushing\<close>

lemma flush_loop_ok:
  "bchain (bck skl) d ns \<Longrightarrow> bck skl d = 0 \<Longrightarrow> distinct (d # ns) \<Longrightarrow> (\<And>p. p \<in> set (d # ns) \<Longrightarrow> node_ok skl p) \<Longrightarrow>
   length (lvlCnt skl) = 16 \<Longrightarrow> length ns < fuel \<Longrightarrow>
   \<exists>a m. flush_loop fuel skl (last (d # ns)) = Inr (skl\<lparr>lvlCnt := a, nodes := m\<rparr>) \<and> length a = 16
     \<and> (\<forall>p. m p = (if p \<in> set ns then None else nodes skl p))"
proof (induction ns arbitrary: skl fuel rule: rev_induct)
  case Nil
  obtain f where f: "fuel = Suc f" using Nil.prems(6) by (cases fuel) auto
  have "node_ok skl d" using Nil.prems(4) by simp
  then obtain n where "node skl d = Inr n" "backward n = bck skl d" using node_okD by metis
  then show ?case using Nil.prems(2,5) f by (intro exI [of _ "lvlCnt skl"] exI [of _ "nodes skl"]) simp
next
  case (snoc p ns)
  obtain f where f: "fuel = Suc f" "length ns < f" using snoc.prems(6) by (cases fuel) auto
  have c: "bchain (bck skl) d ns" "bck skl p = last (d # ns)" using snoc.prems(1) by (simp_all add: bchain_append)
  have p: "node_ok skl p" using snoc.prems(4) by simp
  obtain n where n: "node skl p = Inr n" "backward n = bck skl p" using node_okD [OF p] by metis
  obtain s1 a where s1: "put_sklnode skl p = Inr s1" "s1 = skl\<lparr>lvlCnt := a, nodes := (nodes skl)(p := None)\<rparr>" "length a = 16"
    by (rule put_sklnode_ok [OF p snoc.prems(5)])
  have out: "q \<noteq> p" if "q \<in> set (d # ns)" for q using snoc.prems(3) that by auto
  have keep: "bck s1 q = bck skl q" "node_ok s1 q = node_ok skl q" if "q \<in> set (d # ns)" for q
    unfolding s1(2) by (rule observers_drop [OF out [OF that]])+
  have nz: "last (d # ns) \<noteq> 0"
  proof -
    have "last (d # ns) \<in> set (d # ns)" by (rule last_in_set) simp
    then have "node_ok skl (last (d # ns))" using snoc.prems(4) [of "last (d # ns)"] by auto
    then show ?thesis using node_ok_hgt by blast
  qed
  have "bchain (bck s1) d ns" using c(1) bchain_cong [of ns "bck s1" "bck skl" d] keep(1) by auto
  moreover have "bck s1 d = 0" using keep(1) [of d] snoc.prems(2) by simp
  moreover have "distinct (d # ns)" "length (lvlCnt s1) = 16" using snoc.prems(3) s1(2,3) by auto
  moreover have "\<And>q. q \<in> set (d # ns) \<Longrightarrow> node_ok s1 q" using keep(2) snoc.prems(4) by auto
  ultimately obtain b m where b: "flush_loop f s1 (last (d # ns)) = Inr (s1\<lparr>lvlCnt := b, nodes := m\<rparr>)" "length b = 16"
      "\<forall>q. m q = (if q \<in> set ns then None else nodes s1 q)"
    using snoc.IH [of s1 f] f(2) by blast
  have "last (d # ns @ [p]) = p" by simp
  then have "flush_loop fuel skl (last (d # ns @ [p])) = Inr (skl\<lparr>lvlCnt := b, nodes := m\<rparr>)"
    using f(1) n s1(1) c(2) nz b(1) s1(2) by (simp del: last.simps)
  moreover have "\<forall>q. m q = (if q \<in> set (ns @ [p]) then None else nodes skl q)" using b(3) s1(2) by simp
  ultimately show ?case using b(2) by blast
qed

lemma flush_all_ok:
  assumes ok: "skl_ok skl ns" and f: "length ns < fuel"
  shows "\<exists>skl'. skl_flush_all fuel skl = Inr skl' \<and> skl_ok skl' [] \<and> cmpFunc skl' = cmpFunc skl
    \<and> (\<forall>p\<in>set ns. nodes skl' p = None)"
proof (cases "ns = []")
  case True
  then show ?thesis using ok skl_okD(8) [OF ok] by (simp add: skl_flush_all_def)
next
  case False
  let ?d = "sklhead skl"
  note D = skl_okD [OF ok]
  have "unat (len skl) = length ns" using D(8,9) by (simp add: unat_of_nat take_bit_nat_eq_self)
  then have len: "len skl \<noteq> 0" using False by auto
  obtain a m where fl: "flush_loop fuel skl (last (?d # ns)) = Inr (skl\<lparr>lvlCnt := a, nodes := m\<rparr>)" "length a = 16"
      "\<forall>p. m p = (if p \<in> set ns then None else nodes skl p)"
    using flush_loop_ok [OF D(6,5,1) D(2) D(11) f] by blast
  have "node_ok skl ?d" using D(2) [of ?d] by simp
  then obtain n where n: "nodes skl ?d = Some n" "lvlNum n = 16" "backward n = 0" "length (lvl n) = 16" "?d \<noteq> 0"
    using node_okD [of skl ?d] D(3,5) by (metis nat_numeral)
  have md: "m ?d = Some n" using fl(3) n(1) D(1) by simp
  let ?s = "set_node (skl\<lparr>lvlCnt := a, nodes := m, len := 0, level := 0, skltail := ?d\<rparr>) ?d (n\<lparr>lvl := replicate 16 0\<rparr>)"
  have run: "skl_flush_all fuel skl = Inr ?s"
    using len fl(1) md n unfolding skl_flush_all_def D(7) by (simp add: Let_def node_def del: last.simps)
  have "nxt ?s i ?d = 0" if "i < 16" for i using that by (simp add: nxt_def set_node_def)
  moreover have "hgt ?s ?d = 16" "bck ?s ?d = 0" "node_ok ?s ?d" "sklhead ?s = ?d" "lvlCnt ?s = a"
      "len ?s = 0" "skltail ?s = ?d" "level ?s = 0"
    using n by (simp_all add: hgt_def bck_def node_ok_def set_node_def)
  ultimately have "skl_ok ?s []" using fl(2) by (simp add: skl_ok_def at_lvl_Cons level_ok_def) (simp add: at_lvl_def)
  moreover have "\<forall>p\<in>set ns. nodes ?s p = None" using fl(3) D(1) by (auto simp: set_node_def)
  ultimately show ?thesis using run by (auto simp: set_node_def)
qed

section \<open>Properties\<close>

lemma search_split:
  assumes ok: "skl_ok skl ns" and c: "comparator D (cmpFunc skl)" and srt: "cmp_sorted (cmpFunc skl) (keys_of skl ns)"
    and D: "set (keys_of skl ns) \<subseteq> D" "k \<in> D" and f: "length ns + 16 < fuel"
  obtains ps ms where "ns = ps @ ms" "\<forall>p\<in>set ps. below skl k p" "\<forall>p\<in>set ms. \<not> below skl k p"
    "\<And>prev. \<forall>a. prev = Some a \<longrightarrow> length a = 16 \<Longrightarrow> skl_get_big_equal fuel skl k prev = Inr (front ms,
      map_option (record_prevs skl ps (nat (if level skl = 0 then 0 else level skl - 1))) prev)"
    "(\<exists>p\<in>set ns. cmpFunc skl k (key_of skl p) = 0) \<longleftrightarrow> (\<exists>q qs. ms = q # qs \<and> cmpFunc skl k (key_of skl q) = 0)"
proof -
  let ?ps = "takeWhile (below skl k) ns" and ?ms = "dropWhile (below skl k) ns"
  have pre: "prefix_below skl k ns" by (rule sorted_prefix [OF c srt D])
  have up: "\<forall>p\<in>set ?ps. below skl k p" by (auto dest: set_takeWhileD)
  have eq: "(\<exists>p\<in>set ns. cmpFunc skl k (key_of skl p) = 0) \<longleftrightarrow> (\<exists>q qs. ?ms = q # qs \<and> cmpFunc skl k (key_of skl q) = 0)"
  proof (cases ?ms)
    case Nil
    then have "\<forall>p\<in>set ns. below skl k p" by (simp add: dropWhile_eq_Nil_conv)
    then have "\<not> (\<exists>p\<in>set ns. cmpFunc skl k (key_of skl p) = 0)" by (force simp: below_def)
    then show ?thesis unfolding Nil by simp
  next
    case (Cons q qs)
    then show ?thesis using sorted_equal [OF c srt D Cons] by simp
  qed
  show thesis
    by (rule that [of ?ps ?ms]) (use up pre eq get_big_equal_ok [OF ok pre f] in \<open>simp_all add: prefix_below_def\<close>)
qed

lemma find_get_ok:
  assumes ok: "skl_ok skl ns" and c: "comparator D (cmpFunc skl)" and srt: "cmp_sorted (cmpFunc skl) (keys_of skl ns)"
    and D: "set (keys_of skl ns) \<subseteq> D" "k \<in> D" and f: "length ns + 16 < fuel"
  shows "skl_contain fuel skl k = Inr (\<exists>p\<in>set ns. cmpFunc skl k (key_of skl p) = 0)
    \<and> (if \<exists>p\<in>set ns. cmpFunc skl k (key_of skl p) = 0
       then \<exists>ps p ms skl'. ns = ps @ p # ms \<and> cmpFunc skl k (key_of skl p) = 0
         \<and> (\<forall>q\<in>set ps. 0 < sint (cmpFunc skl k (key_of skl q)))
         \<and> skl_find_get fuel skl k = Inr (key_of skl p, skl') \<and> skl_ok skl' (ps @ ms)
         \<and> keys_of skl' (ps @ ms) = keys_of skl ps @ keys_of skl ms \<and> nodes skl' p = None
       else skl_find_get fuel skl k = Inr (None, skl))"
proof -
  obtain ps ms where s: "ns = ps @ ms" "\<forall>p\<in>set ps. below skl k p"
    "skl_get_big_equal fuel skl k None = Inr (front ms, None)"
    "(\<exists>p\<in>set ns. cmpFunc skl k (key_of skl p) = 0) \<longleftrightarrow> (\<exists>q qs. ms = q # qs \<and> cmpFunc skl k (key_of skl q) = 0)"
    by (rule search_split [OF ok c srt D f]) simp
  show ?thesis
  proof (cases ms)
    case Nil
    then show ?thesis using s(3,4) by (simp add: skl_contain_def skl_find_get_def)
  next
    case (Cons q qs)
    have q: "node_ok skl q" "q \<noteq> sklhead skl" using skl_okD(1,2) [OF ok] s(1) Cons by auto
    obtain n where n: "node skl q = Inr n" "key n = key_of skl q" "q \<noteq> 0" using node_okD [OF q(1)] by metis
    have ok': "skl_ok skl (ps @ q # qs)" and "length ps + 16 < fuel" using ok f s(1) Cons by simp_all
    from delete_ok [OF this] obtain skl' where "skl_delete_node fuel skl q = Inr skl'" "skl_ok skl' (ps @ qs)"
        "keys_of skl' (ps @ qs) = keys_of skl ps @ keys_of skl qs" "nodes skl' q = None"
      by auto
    then show ?thesis using s n q(2) Cons
      by (auto simp: skl_contain_def skl_find_get_def below_def)
  qed
qed

text \<open>C6. On a well-formed list whose keys are sorted under a comparator, skl_contain answers
  whether a key equal to the given one is in the list. skl_find_get takes out the first node
  with an equal key: it returns that node's key, frees the node and leaves a well-formed list
  of the other nodes in their order; without an equal key it returns NULL and changes nothing.\<close>

theorem skl_search_and_remove:
  assumes ok: "skl_ok skl ns" and c: "comparator D (cmpFunc skl)" and srt: "cmp_sorted (cmpFunc skl) (keys_of skl ns)"
    and D: "set (keys_of skl ns) \<subseteq> D" "k \<in> D" and f: "length ns + 16 < fuel"
  shows "skl_contain fuel skl k = Inr (\<exists>p\<in>set ns. cmpFunc skl k (key_of skl p) = 0)
    \<and> (if \<exists>p\<in>set ns. cmpFunc skl k (key_of skl p) = 0
       then \<exists>ps p ms skl'. ns = ps @ p # ms \<and> cmpFunc skl k (key_of skl p) = 0
         \<and> (\<forall>q\<in>set ps. 0 < sint (cmpFunc skl k (key_of skl q)))
         \<and> skl_find_get fuel skl k = Inr (key_of skl p, skl') \<and> skl_ok skl' (ps @ ms)
         \<and> keys_of skl' (ps @ ms) = keys_of skl ps @ keys_of skl ms \<and> nodes skl' p = None
       else skl_find_get fuel skl k = Inr (None, skl))"
  by (rule find_get_ok [OF assms])

text \<open>C16. Given the predecessors that skl_get_big_equal records for a key, the linking half of
  skl_insert puts a new node with that key in front of the first node not below it, on every
  level up to its height; the list stays well formed and sorted.\<close>

theorem skl_link_keeps_sorted:
  assumes ok: "skl_ok skl ns" and c: "comparator D (cmpFunc skl)" and srt: "cmp_sorted (cmpFunc skl) (keys_of skl ns)"
    and D: "set (keys_of skl ns) \<subseteq> D" "k \<in> D" and f: "length ns + 16 < fuel"
    and nd: "node_ok skl nd" "nd \<notin> set (sklhead skl # ns)" "key_of skl nd = k" and room: "Suc (length ns) < 2 ^ 32"
  shows "\<exists>ps ms prev skl'. ns = ps @ ms
    \<and> skl_get_big_equal fuel skl k (Some (replicate 16 0)) = Inr (front ms, Some prev)
    \<and> link_node skl nd (hgt skl nd) prev = Inr skl' \<and> skl_ok skl' (ps @ nd # ms)
    \<and> keys_of skl' (ps @ nd # ms) = keys_of skl ps @ k # keys_of skl ms
    \<and> cmpFunc skl' = cmpFunc skl \<and> cmp_sorted (cmpFunc skl) (keys_of skl' (ps @ nd # ms))"
proof -
  obtain ps ms where s: "ns = ps @ ms" "\<forall>p\<in>set ps. below skl k p" "\<forall>p\<in>set ms. \<not> below skl k p"
    "skl_get_big_equal fuel skl k (Some (replicate 16 0)) = Inr (front ms, Some (record_prevs skl ps
       (nat (if level skl = 0 then 0 else level skl - 1)) (replicate 16 0)))" (is "_ = Inr (_, Some ?prev)")
    by (rule search_split [OF ok c srt D f]) simp
  have "length ?prev = 16" by (simp add: record_prevs_def)
  moreover have "?prev ! i = last (at_lvl skl i (sklhead skl # ps))" if "int i < level skl" for i
  proof -
    have "i \<le> nat (level skl - 1)" "i < 16" "level skl \<noteq> 0" using that level_bounds [OF ok] by linarith+
    then show ?thesis by (simp add: record_prevs_def)
  qed
  ultimately have "\<exists>skl'. link_node skl nd (hgt skl nd) ?prev = Inr skl' \<and> skl_ok skl' (ps @ nd # ms)
      \<and> cmpFunc skl' = cmpFunc skl \<and> key_of skl' = key_of skl"
    using link_node_ok [of skl ps ms nd "hgt skl nd" ?prev] ok nd room unfolding s(1) by simp
  then obtain skl' where l: "link_node skl nd (hgt skl nd) ?prev = Inr skl'" "skl_ok skl' (ps @ nd # ms)"
      "cmpFunc skl' = cmpFunc skl" "key_of skl' = key_of skl"
    by blast
  let ?xs = "keys_of skl ns" and ?p = "length ps"
  have lo: "cmp_le (cmpFunc skl) (?xs ! i) k" if "i < ?p" for i
  proof -
    have "below skl k (ps ! i)" using s(2) that by simp
    moreover have "ps ! i \<in> set ns" using that s(1) by simp
    ultimately show ?thesis using comparator.cmp_le_iff [OF c _ D(2), of "key_of skl (ps ! i)"] D(1) that s(1)
      by (simp add: nth_append below_def image_subset_iff)
  qed
  have hi: "cmp_le (cmpFunc skl) k (?xs ! ?p)" if "?p < length ?xs"
  proof (cases ms)
    case (Cons m qs)
    then have "\<not> below skl k m" using s(3) by simp
    then show ?thesis using s(1) Cons by (simp add: nth_append below_def cmp_le_def)
  qed (use that s(1) in simp)
  have "cmp_sorted (cmpFunc skl) (take ?p ?xs @ k # drop ?p ?xs)"
    by (rule comparator.sorted_insert_at [OF c D srt]) (use lo hi s(1) in auto)
  then have "cmp_sorted (cmpFunc skl) (keys_of skl ps @ k # keys_of skl ms)" using s(1) by simp
  then show ?thesis using s(1,4) l nd(3) by (intro exI [of _ ps] exI [of _ ms] exI [of _ ?prev] exI [of _ skl']) simp
qed

lemma gen_loop_ge: "gen_loop rs l = Inr (h, rs') \<Longrightarrow> l \<le> h"
  by (induction rs arbitrary: l) (auto split: if_splits, fastforce)

lemma gen_level_bounds: "skl_gen_level rs = Inr (h, rs') \<Longrightarrow> 1 \<le> h \<and> h \<le> 16"
  by (auto simp: skl_gen_level_def SKIPLIST_LEVEL_MAX_def dest!: gen_loop_ge split: if_splits)

text \<open>A new list is empty and well formed, but for the statistics, which are whatever the memory held.\<close>

lemma skl_create_ok:
  assumes "mem \<noteq> 0" "length cnt = 16"
  shows "\<exists>skl. skl_create True mem (cnt, lsum, tmp) heap (Some c) = Inr (Some skl) \<and> skl_ok skl [] \<and> cmpFunc skl = c
    \<and> sklhead skl = mem"
proof -
  let ?n = "\<lparr>key = None, lvlNum = 16, backward = 0, lvl = replicate 16 0\<rparr>"
  let ?s = "\<lparr>cmpFunc = c, level = 0, len = 0, sklhead = mem, skltail = mem, lvlCnt = cnt[15 := cnt ! 15 + 1],
      lock_time_sum = lsum, ltime_tmp = tmp, nodes = heap(mem \<mapsto> ?n)\<rparr>"
  have "skl_create True mem (cnt, lsum, tmp) heap (Some c) = Inr (Some ?s)"
    using assms by (simp add: skl_create_def get_sklnode_def count_level_def set_node_def node_def SKIPLIST_LEVEL_MAX_def)
  moreover have "skl_ok ?s []"
    using assms(1,2) by (simp add: skl_ok_def node_ok_def hgt_def at_lvl_def nxt_def bck_def level_ok_def)
  ultimately show ?thesis by (intro exI [of _ ?s]) simp
qed

text \<open>A new node does not disturb a list it is not part of.\<close>

lemma fresh_node:
  assumes ok: "skl_ok skl ns" and mem: "mem \<notin> set (sklhead skl # ns)" "mem \<noteq> 0" and n: "1 \<le> lvlNum n" "lvlNum n \<le> 16"
    "length (lvl n) = nat (lvlNum n)" and a: "length a = 16"
  defines "s \<equiv> set_node (skl\<lparr>lvlCnt := a\<rparr>) mem n"
  shows "skl_ok s ns" "node_ok s mem" "hgt s mem = lvlNum n" "key_of s mem = key n"
    "keys_of s ns = keys_of skl ns"
proof -
  have o: "hgt s p = hgt skl p" "nxt s i p = nxt skl i p" "bck s p = bck skl p" "key_of s p = key_of skl p"
      "node_ok s p = node_ok skl p" if "p \<noteq> mem" for i p
    unfolding s_def set_node_def using that
    by (simp_all add: hgt_def nxt_def bck_def key_of_def node_ok_def)
  have out: "p \<noteq> mem" if "p \<in> set (sklhead skl # ns)" for p using mem that by auto
  note D = skl_okD [OF ok]
  have f: "sklhead s = sklhead skl" "skltail s = skltail skl" "len s = len skl" "level s = level skl" "lvlCnt s = a"
    by (simp_all add: s_def set_node_def)
  have at: "at_lvl s i (sklhead skl # ns) = at_lvl skl i (sklhead skl # ns)" for i
    by (rule at_lvl_cong) (rule o(1) [OF out])
  have "fchain (nxt s i) (at_lvl s i (sklhead skl # ns))" if "i < 16" for i
  proof -
    have "fchain (nxt s i) (at_lvl skl i (sklhead skl # ns)) = fchain (nxt skl i) (at_lvl skl i (sklhead skl # ns))"
      by (rule fchain_cong) (use o(2) out set_at_lvl in blast)
    then show ?thesis unfolding at using D(4) [OF that] by simp
  qed
  moreover have "bchain (bck s) (sklhead skl) ns" using D(6) bchain_cong [of ns "bck s" "bck skl"] o(3) out by auto
  moreover have "level_ok s ns" using D(10) o(1) out f(4) unfolding level_ok_def by auto
  ultimately show "skl_ok s ns" using D o out a unfolding skl_ok_def f by auto
  show "node_ok s mem" "hgt s mem = lvlNum n" "key_of s mem = key n"
    using n mem(2) by (simp_all add: s_def set_node_def node_ok_def hgt_def key_of_def)
  show "keys_of s ns = keys_of skl ns" using o(4) out by auto
qed

lemma insert_cases:
  assumes ok: "skl_ok skl ns" and h: "skl_gen_level rs = Inr (h, rs')" and mem: "mem \<notin> set (sklhead skl # ns)"
  shows "1 \<le> h \<and> h \<le> 16
    \<and> (mem = 0 \<longrightarrow> (\<exists>a. skl_insert rs mem skl k = Inr (SPG_ERR, skl\<lparr>lvlCnt := a\<rparr>)))
    \<and> (mem \<noteq> 0 \<and> ns = [] \<longrightarrow> (\<exists>skl'. skl_insert rs mem skl k = Inr (SPG_OK, skl') \<and> skl_ok skl' [mem]
         \<and> key_of skl' mem = k \<and> cmpFunc skl' = cmpFunc skl))
    \<and> (mem \<noteq> 0 \<and> ns \<noteq> [] \<longrightarrow> skl_insert rs mem skl k = Inl Null_Deref)"
proof -
  have hb: "1 \<le> h" "h \<le> 16" using gen_level_bounds [OF h] by auto
  note D = skl_okD [OF ok]
  let ?n = "\<lparr>key = k, lvlNum = h, backward = 0, lvl = replicate (nat h) 0\<rparr>"
  define a where "a = (lvlCnt skl)[nat (h - 1) := lvlCnt skl ! nat (h - 1) + 1]"
  have "nat (h - 1) < 16" using hb by linarith
  then have a: "\<And>s::'a spg_skl. lvlCnt s = lvlCnt skl \<Longrightarrow> count_level s h 1 = Inr (s\<lparr>lvlCnt := a\<rparr>)" "length a = 16"
    using hb D(11) by (auto simp: count_level_def a_def)
  let ?s = "set_node (skl\<lparr>lvlCnt := a\<rparr>) mem ?n"
  have run: "skl_insert rs mem skl k = bindE (link_node ?s mem h (replicate 16 0)) (\<lambda>skl. Inr (SPG_OK, skl))" if "mem \<noteq> 0"
    using that h a(1) by (simp add: skl_insert_def get_sklnode_def set_node_def node_def SKIPLIST_LEVEL_MAX_def)
  have "skl_insert rs 0 skl k = Inr (SPG_ERR, skl\<lparr>lvlCnt := a\<rparr>)"
    using h a(1) by (simp add: skl_insert_def get_sklnode_def)
  moreover have "\<exists>skl'. skl_insert rs mem skl k = Inr (SPG_OK, skl') \<and> skl_ok skl' [mem] \<and> key_of skl' mem = k \<and> cmpFunc skl' = cmpFunc skl"
    if "mem \<noteq> 0" "ns = []"
  proof -
    note F = fresh_node [OF ok mem that(1), of ?n a]
    have "skl_ok ?s ([] @ [])" "node_ok ?s mem" "hgt ?s mem = h" "key_of ?s mem = k" using F hb a(2) that by simp_all
    moreover have "level ?s = 0" using level_bounds [OF ok] that by (simp add: set_node_def)
    moreover have "mem \<notin> set (sklhead ?s # [] @ [])" using mem by (simp add: set_node_def)
    ultimately have "\<exists>skl'. link_node ?s mem h (replicate 16 0) = Inr skl' \<and> skl_ok skl' ([] @ mem # [])
        \<and> cmpFunc skl' = cmpFunc ?s \<and> key_of skl' = key_of ?s"
      by (intro link_node_ok) simp_all
    then show ?thesis using run [OF that(1)] \<open>key_of ?s mem = k\<close> by (auto simp: set_node_def)
  qed
  moreover have "skl_insert rs mem skl k = Inl Null_Deref" if "mem \<noteq> 0" "ns \<noteq> []"
  proof -
    have lv: "1 \<le> level skl" using level_bounds [OF ok] that(2) by linarith
    have n16: "nat h \<le> 16" using hb by linarith
    have stop: "link_levels s mem pr 0 h = Inl Null_Deref" if "length pr = 16" "pr ! 0 = 0" for s :: "'a spg_skl" and pr
      using that hb by (subst link_levels.simps) (simp add: get_lvl_def node_def)
    have "link_node ?s mem h (replicate 16 0) = Inl Null_Deref"
    proof (cases "h > level skl")
      case True
      obtain pr where pr: "head_prevs (sklhead skl) (replicate 16 0) (level skl) h = Inr pr" "length pr = 16" "pr ! 0 = 0"
        using head_prevs_ok [of "level skl" h "replicate 16 0" "sklhead skl"] lv n16 by auto
      then show ?thesis using stop [OF pr(2,3)] True by (simp add: link_node_def set_node_def)
    next
      case False
      then show ?thesis using stop [of "replicate 16 0"] by (simp add: link_node_def set_node_def)
    qed
    then show ?thesis using run [OF that(1)] by simp
  qed
  ultimately show ?thesis using hb by blast
qed

text \<open>skl_insert draws a height of 1 to 16. Without memory it returns SPG_ERR with only the
  statistics changed. Into an empty list it inserts the key. Into any other list it dereferences
  NULL: prev is filled from the level of the list upward only, as skl_get_big_equal is never
  called, and prev[0] is NULL.\<close>

theorem skl_insert_outcomes:
  assumes ok: "skl_ok skl ns" and h: "skl_gen_level rs = Inr (h, rs')" and mem: "mem \<notin> set (sklhead skl # ns)"
  shows "1 \<le> h \<and> h \<le> 16
    \<and> (mem = 0 \<longrightarrow> (\<exists>a. skl_insert rs mem skl k = Inr (SPG_ERR, skl\<lparr>lvlCnt := a\<rparr>)))
    \<and> (mem \<noteq> 0 \<and> ns = [] \<longrightarrow> (\<exists>skl'. skl_insert rs mem skl k = Inr (SPG_OK, skl') \<and> skl_ok skl' [mem]
         \<and> key_of skl' mem = k))
    \<and> (mem \<noteq> 0 \<and> ns \<noteq> [] \<longrightarrow> skl_insert rs mem skl k = Inl Null_Deref)"
  using insert_cases [OF assms] by blast

text \<open>skl_foreach hands every key to the callback exactly once and ends: forward in the order
  of the list, backward in the opposite order. skl_flush_all ends, frees every node behind the
  head and leaves the well-formed empty list.\<close>

theorem skl_walk_and_flush:
  assumes ok: "skl_ok skl ns" and f: "length ns < fuel"
  shows "skl_foreach fuel skl TRAV_FORWARD func w = Inr (fold func (keys_of skl ns) w)
    \<and> skl_foreach fuel skl TRAV_BACKWARD func w = Inr (fold func (rev (keys_of skl ns)) w)
    \<and> (\<exists>skl'. skl_flush_all fuel skl = Inr skl' \<and> skl_ok skl' [] \<and> (\<forall>p\<in>set ns. nodes skl' p = None))"
  using foreach_ok [OF assms, of func w] flush_all_ok [OF assms] by (auto simp: rev_map)

section \<open>Instances\<close>

text \<open>key_compare of unit_test/skiplist_ut.c reads both keys through their pointers.\<close>

definition key_ptr_compare :: "s32 option compare" where
  "key_ptr_compare x y = (case (x, y) of (Some a, Some b) \<Rightarrow> key_compare a b | _ \<Rightarrow> 0)"

interpretation key_ptr: comparator "Some ` int_half_range" key_ptr_compare
  by unfold_locales (auto simp: key_ptr_compare_def sint_key_compare sgn_if)

definition two_keys :: "s32 spg_skl" where
  "two_keys = \<lparr>cmpFunc = key_ptr_compare, level = 2, len = 2, sklhead = 1, skltail = 3,
     lvlCnt = replicate 16 0, lock_time_sum = 0, ltime_tmp = 0,
     nodes = [1 \<mapsto> \<lparr>key = None, lvlNum = 16, backward = 0, lvl = 2 # 2 # replicate 14 0\<rparr>,
              2 \<mapsto> \<lparr>key = Some 10, lvlNum = 2, backward = 1, lvl = [3, 0]\<rparr>,
              3 \<mapsto> \<lparr>key = Some 20, lvlNum = 1, backward = 2, lvl = [0]\<rparr>,
              4 \<mapsto> \<lparr>key = Some 15, lvlNum = 3, backward = 0, lvl = [0, 0, 0]\<rparr>]\<rparr>"

lemma all_less_16: "(\<forall>i<16. P i) \<longleftrightarrow> P 0 \<and> P 1 \<and> P 2 \<and> P 3 \<and> P 4 \<and> P 5 \<and> P 6 \<and> P 7 \<and> P 8 \<and> P 9
    \<and> P 10 \<and> P 11 \<and> P 12 \<and> P 13 \<and> P 14 \<and> P (15 :: nat)"
  by (simp add: numeral_eq_Suc All_less_Suc conj_ac)

lemma two_keys_ok: "skl_ok two_keys [2, 3]"
  unfolding skl_ok_def all_less_16
  by (simp add: two_keys_def node_ok_def hgt_def nxt_def bck_def at_lvl_def level_ok_def)

lemma two_keys_obs:
  "cmpFunc two_keys = key_ptr_compare" "key_of two_keys 2 = Some 10" "key_of two_keys 3 = Some 20"
  "sklhead two_keys = 1" "key_of two_keys 4 = Some 15" "node_ok two_keys 4"
  by (simp_all add: two_keys_def key_of_def node_ok_def)

lemma two_keys_sorted:
  "comparator (Some ` int_half_range) (cmpFunc two_keys)"
  "cmp_sorted (cmpFunc two_keys) (keys_of two_keys [2, 3])"
  "set (keys_of two_keys [2, 3]) \<subseteq> Some ` int_half_range"
  unfolding two_keys_obs
  by (rule key_ptr.comparator_axioms)
    (simp_all add: two_keys_obs cmp_le_def key_ptr_compare_def key_compare_def int_half_range_def)

lemma skl_search_and_remove_witness:
  "skl_contain 19 two_keys (Some 20) = Inr True
   \<and> (\<exists>skl'. skl_find_get 19 two_keys (Some 20) = Inr (Some 20, skl') \<and> skl_ok skl' [2])"
proof -
  have "Some (20 :: s32) \<in> Some ` int_half_range" by (simp add: int_half_range_def)
  note w = skl_search_and_remove [OF two_keys_ok two_keys_sorted this, of 19]
  have e: "\<exists>p\<in>set [2, 3]. cmpFunc two_keys (Some 20) (key_of two_keys p) = 0"
    by (simp add: two_keys_obs key_ptr_compare_def key_compare_def)
  then obtain ps p ms skl' where s: "[2, 3] = ps @ p # ms" "cmpFunc two_keys (Some 20) (key_of two_keys p) = 0"
      "skl_find_get 19 two_keys (Some 20) = Inr (key_of two_keys p, skl')" "skl_ok skl' (ps @ ms)"
    using w by auto
  then have "ps = [2] \<and> p = 3 \<and> ms = []"
    by (cases ps; cases "tl ps") (auto simp: two_keys_obs key_ptr_compare_def key_compare_def)
  then show ?thesis using s w e by (auto simp: two_keys_obs)
qed

lemma skl_link_keeps_sorted_witness:
  "\<exists>prev skl'. skl_get_big_equal 19 two_keys (Some 15) (Some (replicate 16 0)) = Inr (3, Some prev)
     \<and> link_node two_keys 4 (hgt two_keys 4) prev = Inr skl' \<and> skl_ok skl' [2, 4, 3]"
proof -
  have k: "Some (15 :: s32) \<in> Some ` int_half_range" by (simp add: int_half_range_def)
  obtain ps ms prev skl' where s: "[2, 3] = ps @ ms"
      "skl_get_big_equal 19 two_keys (Some 15) (Some (replicate 16 0)) = Inr (front ms, Some prev)"
      "link_node two_keys 4 (hgt two_keys 4) prev = Inr skl'" "skl_ok skl' (ps @ 4 # ms)"
      "keys_of skl' (ps @ 4 # ms) = keys_of two_keys ps @ Some 15 # keys_of two_keys ms"
      "cmp_sorted (cmpFunc two_keys) (keys_of skl' (ps @ 4 # ms))"
    using skl_link_keeps_sorted [OF two_keys_ok two_keys_sorted k, of 19 4] by (auto simp: two_keys_obs)
  have "cmp_sorted key_ptr_compare (keys_of two_keys ps @ Some 15 # keys_of two_keys ms)"
    using s(5,6) by (simp only: two_keys_obs)
  then have "ps = [2] \<and> ms = [3]" using s(1)
    by (cases ps; cases "tl ps") (auto simp: two_keys_obs cmp_le_def key_ptr_compare_def key_compare_def)
  then show ?thesis using s(2-4) by auto
qed

lemma skl_insert_outcomes_witness:
  "skl_insert [0xFFFF] 9 two_keys (Some 7) = Inl Null_Deref"
proof -
  have "skl_gen_level [0xFFFF] = Inr (1, [])"
    by (simp add: skl_gen_level_def LEVEL_RANDOM_MASK_def LEVEL_HIGH_LIMIT_def SKIPLIST_LEVEL_MAX_def)
  then show ?thesis using skl_insert_outcomes [OF two_keys_ok, of "[0xFFFF]" 1 "[]" 9 "Some 7"] by (simp add: two_keys_obs)
qed

lemma skl_walk_and_flush_witness:
  "skl_foreach 3 two_keys TRAV_FORWARD (#) [] = Inr [Some 20, Some 10]"
  using skl_walk_and_flush [OF two_keys_ok, of 3 "(#)" "[]"] by (simp add: two_keys_obs)

end
