(* ===== verification/Event_Loop.thy ===== *)
theory Event_Loop
  imports Spg_Prelude "HOL-Library.Signed_Division"
begin

text \<open>
  The event loop: src/src/ae.c, src/include/ae.h and, as the Makefile defines HAVE_EPOLL,
  src/src/ae_epoll.src. Function pointers are opaque values of type \<open>'p\<close>; what calling one
  does, and the system calls, are the parameters collected in the record \<open>os\<close>. \<open>'w\<close> is
  the state of the world they act on, \<open>'c\<close> the client's data. Time events live in a heap
  of records, with address 0 for NULL. The values of type long and long long are integers:
  they are sums of a time and of milliseconds divided by 1000, or counters, and do not reach
  2 to the power 63. The timeouts, of type int, are words. \<open>fuel\<close> bounds the loops over
  time events.
\<close>

section \<open>State\<close>

type_synonym taddr = u64

definition AE_OK :: int where "AE_OK = 0"
definition AE_ERR :: int where "AE_ERR = - 1"
definition AE_NONE :: s32 where "AE_NONE = 0"
definition AE_READABLE :: s32 where "AE_READABLE = 1"
definition AE_WRITABLE :: s32 where "AE_WRITABLE = 2"
definition AE_FILE_EVENTS :: s32 where "AE_FILE_EVENTS = 1"
definition AE_TIME_EVENTS :: s32 where "AE_TIME_EVENTS = 2"
definition AE_ALL_EVENTS :: s32 where "AE_ALL_EVENTS = (AE_FILE_EVENTS OR AE_TIME_EVENTS)"
definition AE_DONT_WAIT :: s32 where "AE_DONT_WAIT = 4"
definition AE_NOMORE :: s32 where "AE_NOMORE = - 1"

lemmas ae_consts = AE_OK_def AE_ERR_def AE_NONE_def AE_READABLE_def AE_WRITABLE_def
  AE_FILE_EVENTS_def AE_TIME_EVENTS_def AE_ALL_EVENTS_def AE_DONT_WAIT_def AE_NOMORE_def

record ('p, 'c) aeFileEvent =
  fe_mask :: s32
  rfileProc :: 'p
  wfileProc :: 'p
  clientData :: 'c

record ('p, 'c) aeTimeEvent =
  te_id :: int
  when_sec :: int
  when_ms :: int
  timeProc :: 'p
  finalizerProc :: "'p option"
  te_clientData :: 'c
  te_next :: taddr

record aeFiredEvent =
  fired_fd :: int
  fired_mask :: s32

text \<open>A \<open>struct epoll_event\<close>: its events and \<open>data.fd\<close>.\<close>

type_synonym epoll_event = "u32 \<times> int"

record aeApiState =
  epfd :: int
  api_events :: "epoll_event list option"

record ('p, 'c) aeEventLoop =
  maxfd :: int
  setsize :: int
  timeEventNextId :: int
  lastTime :: int
  events :: "('p, 'c) aeFileEvent list option"
  fired :: "aeFiredEvent list option"
  timeEventHead :: taddr
  stop :: bool
  apidata :: aeApiState
  beforesleep :: "'p option"
  latestTimeEvt :: taddr
  tevs :: "taddr \<rightharpoonup> ('p, 'c) aeTimeEvent"
  reallocs :: nat

text \<open>The last two fields are no fields of the struct: the heap of time events, and how often zrealloc has replaced the event table.\<close>

datatype epoll_op = EPOLL_CTL_ADD | EPOLL_CTL_MOD | EPOLL_CTL_DEL

definition EPOLLIN :: u32 where "EPOLLIN = 1"
definition EPOLLOUT :: u32 where "EPOLLOUT = 4"
definition EPOLLERR :: u32 where "EPOLLERR = 8"
definition EPOLLHUP :: u32 where "EPOLLHUP = 16"

text \<open>
  gettimeofday gives seconds and microseconds; epoll_wait its return value and the event
  block as it leaves it; poll its return value and \<open>revents\<close>.
\<close>

record ('p, 'c, 'w) os =
  os_time :: "'w \<Rightarrow> int \<times> 'w"
  os_gettimeofday :: "'w \<Rightarrow> (int \<times> int) \<times> 'w"
  os_epoll_create :: "'w \<Rightarrow> int \<times> 'w"
  os_epoll_ctl :: "int \<Rightarrow> epoll_op \<Rightarrow> int \<Rightarrow> u32 \<Rightarrow> 'w \<Rightarrow> int \<times> 'w"
  os_epoll_wait :: "int \<Rightarrow> epoll_event list option \<Rightarrow> int \<Rightarrow> s32 \<Rightarrow> 'w \<Rightarrow> (int \<times> epoll_event list option) \<times> 'w"
  os_poll :: "int \<Rightarrow> u32 \<Rightarrow> s32 \<Rightarrow> 'w \<Rightarrow> (int \<times> u32) \<times> 'w"
  call_time :: "'p \<Rightarrow> ('p, 'c) aeEventLoop \<Rightarrow> int \<Rightarrow> 'c \<Rightarrow> 'w \<Rightarrow> fault + s32 \<times> ('p, 'c) aeEventLoop \<times> 'w"
  call_file :: "'p \<Rightarrow> ('p, 'c) aeEventLoop \<Rightarrow> int \<Rightarrow> 'c \<Rightarrow> s32 \<Rightarrow> 'w \<Rightarrow> fault + ('p, 'c) aeEventLoop \<times> 'w"
  call_final :: "'p \<Rightarrow> ('p, 'c) aeEventLoop \<Rightarrow> 'c \<Rightarrow> 'w \<Rightarrow> fault + ('p, 'c) aeEventLoop \<times> 'w"
  call_before :: "'p \<Rightarrow> ('p, 'c) aeEventLoop \<Rightarrow> 'w \<Rightarrow> fault + ('p, 'c) aeEventLoop \<times> 'w"

text \<open>An array element through a pointer that may be NULL, and a time event.\<close>

definition elem :: "'a list option \<Rightarrow> int \<Rightarrow> fault + 'a" where
  "elem p i = bindE (derefE p) (\<lambda>xs. if 0 \<le> i \<and> i < int (length xs) then Inr (xs ! nat i) else Inl Out_Of_Bounds)"

definition set_elem :: "'a list option \<Rightarrow> int \<Rightarrow> 'a \<Rightarrow> fault + 'a list option" where
  "set_elem p i x = bindE (derefE p) (\<lambda>xs.
     if 0 \<le> i \<and> i < int (length xs) then Inr (Some (xs[nat i := x])) else Inl Out_Of_Bounds)"

definition tev :: "('p, 'c) aeEventLoop \<Rightarrow> taddr \<Rightarrow> fault + ('p, 'c) aeTimeEvent" where
  "tev l p = (if p = 0 then Inl Null_Deref else case tevs l p of None \<Rightarrow> Inl Dangling | Some t \<Rightarrow> Inr t)"

definition set_tev :: "('p, 'c) aeEventLoop \<Rightarrow> taddr \<Rightarrow> ('p, 'c) aeTimeEvent \<Rightarrow> ('p, 'c) aeEventLoop" where
  "set_tev l p t = l\<lparr>tevs := (tevs l)(p \<mapsto> t)\<rparr>"

section \<open>The epoll layer\<close>

text \<open>\<open>events\<close> is what zmalloc gives for the event block; None stands for NULL.\<close>

definition aeApiCreate :: "('p, 'c, 'w) os \<Rightarrow> bool \<Rightarrow> epoll_event list option \<Rightarrow> ('p, 'c) aeEventLoop \<Rightarrow> 'w
    \<Rightarrow> int \<times> ('p, 'c) aeEventLoop \<times> 'w" where
  "aeApiCreate os state_mem evs l w =
     (if \<not> state_mem then (- 1, l, w)
      else if evs = None then (- 1, l, w)
      else let (fd, w) = os_epoll_create os w in
           if fd = - 1 then (- 1, l, w) else (0, l\<lparr>apidata := \<lparr>epfd = fd, api_events = evs\<rparr>\<rparr>, w))"

definition aeApiResize :: "(epoll_event list option \<Rightarrow> int \<Rightarrow> epoll_event list option) \<Rightarrow> ('p, 'c) aeEventLoop \<Rightarrow> int
    \<Rightarrow> int \<times> ('p, 'c) aeEventLoop" where
  "aeApiResize zrealloc l n = (0, l\<lparr>apidata := (apidata l)\<lparr>api_events := zrealloc (api_events (apidata l)) n\<rparr>\<rparr>)"

definition epoll_bits :: "s32 \<Rightarrow> u32" where
  "epoll_bits msk = (if msk AND AE_READABLE \<noteq> 0 then EPOLLIN else 0) OR (if msk AND AE_WRITABLE \<noteq> 0 then EPOLLOUT else 0)"

definition aeApiAddEvent :: "('p, 'c, 'w) os \<Rightarrow> ('p, 'c) aeEventLoop \<Rightarrow> int \<Rightarrow> s32 \<Rightarrow> 'w \<Rightarrow> fault + int \<times> 'w" where
  "aeApiAddEvent os l fd msk w =
     bindE (elem (events l) fd) (\<lambda>fe.
     let op = (if fe_mask fe = AE_NONE then EPOLL_CTL_ADD else EPOLL_CTL_MOD);
         msk = msk OR fe_mask fe;
         (r, w) = os_epoll_ctl os (epfd (apidata l)) op fd (epoll_bits msk) w
     in Inr (if r = - 1 then - 1 else 0, w))"

definition aeApiDelEvent :: "('p, 'c, 'w) os \<Rightarrow> ('p, 'c) aeEventLoop \<Rightarrow> int \<Rightarrow> s32 \<Rightarrow> 'w \<Rightarrow> fault + 'w" where
  "aeApiDelEvent os l fd delmask w =
     bindE (elem (events l) fd) (\<lambda>fe.
     let msk = fe_mask fe AND NOT delmask;
         op = (if msk \<noteq> AE_NONE then EPOLL_CTL_MOD else EPOLL_CTL_DEL)
     in Inr (snd (os_epoll_ctl os (epfd (apidata l)) op fd (epoll_bits msk) w)))"

definition ready_mask :: "u32 \<Rightarrow> s32" where
  "ready_mask e = (if e AND EPOLLIN \<noteq> 0 then AE_READABLE else 0) OR (if e AND EPOLLOUT \<noteq> 0 then AE_WRITABLE else 0)
     OR (if e AND EPOLLERR \<noteq> 0 then AE_WRITABLE else 0) OR (if e AND EPOLLHUP \<noteq> 0 then AE_WRITABLE else 0)"

text \<open>\<open>k\<close> rounds of the loop are left, the next with index \<open>j\<close>.\<close>

fun fill_fired :: "nat \<Rightarrow> int \<Rightarrow> epoll_event list option \<Rightarrow> aeFiredEvent list option \<Rightarrow> fault + aeFiredEvent list option" where
  "fill_fired 0 j evs fs = Inr fs"
| "fill_fired (Suc k) j evs fs =
     bindE (elem evs j) (\<lambda>(e, fd).
     bindE (set_elem fs j \<lparr>fired_fd = fd, fired_mask = ready_mask e\<rparr>) (\<lambda>fs. fill_fired k (j + 1) evs fs))"

text \<open>\<open>tvp\<close> is None for NULL; the timeout is narrowed to an int.\<close>

definition api_timeout :: "(int \<times> int) option \<Rightarrow> s32" where
  "api_timeout tvp = (case tvp of None \<Rightarrow> - 1 | Some (sec, usec) \<Rightarrow> word_of_int (sec * 1000 + usec sdiv 1000))"

definition aeApiPoll :: "('p, 'c, 'w) os \<Rightarrow> ('p, 'c) aeEventLoop \<Rightarrow> (int \<times> int) option \<Rightarrow> 'w
    \<Rightarrow> fault + int \<times> ('p, 'c) aeEventLoop \<times> 'w" where
  "aeApiPoll os l tvp w =
     (let ((retval, evs), w) = os_epoll_wait os (epfd (apidata l)) (api_events (apidata l)) (setsize l) (api_timeout tvp) w;
          l = l\<lparr>apidata := (apidata l)\<lparr>api_events := evs\<rparr>\<rparr>
      in if retval > 0
         then bindE (fill_fired (nat retval) 0 evs (fired l)) (\<lambda>fs. Inr (retval, l\<lparr>fired := fs\<rparr>, w))
         else Inr (0, l, w))"

section \<open>File events\<close>

fun clear_masks :: "nat \<Rightarrow> int \<Rightarrow> ('p, 'c) aeFileEvent list option \<Rightarrow> fault + ('p, 'c) aeFileEvent list option" where
  "clear_masks 0 i evs = Inr evs"
| "clear_masks (Suc k) i evs =
     bindE (elem evs i) (\<lambda>fe. bindE (set_elem evs i (fe\<lparr>fe_mask := AE_NONE\<rparr>)) (\<lambda>evs. clear_masks k (i + 1) evs))"

text \<open>
  \<open>loop_mem\<close> holds the struct as zmalloc gives it, \<open>evs\<close> and \<open>fs\<close> the two arrays; None
  stands for NULL.
\<close>

definition aeCreateEventLoop :: "('p, 'c, 'w) os \<Rightarrow> ('p, 'c) aeEventLoop option \<Rightarrow> ('p, 'c) aeFileEvent list option
    \<Rightarrow> aeFiredEvent list option \<Rightarrow> bool \<Rightarrow> epoll_event list option \<Rightarrow> int \<Rightarrow> 'w
    \<Rightarrow> fault + ('p, 'c) aeEventLoop option \<times> 'w" where
  "aeCreateEventLoop os loop_mem evs fs state_mem api_evs n w =
     (case loop_mem of None \<Rightarrow> Inr (None, w)
      | Some l \<Rightarrow>
          let l = l\<lparr>events := evs, fired := fs\<rparr> in
          if evs = None \<or> fs = None then Inr (None, w)
          else let (now, w) = os_time os w;
                   l = l\<lparr>setsize := n, lastTime := now, timeEventHead := 0, timeEventNextId := 0, stop := False,
                         maxfd := - 1, beforesleep := None\<rparr>;
                   (r, l, w) = aeApiCreate os state_mem api_evs l w
               in if r = - 1 then Inr (None, w)
                  else bindE (clear_masks (nat n) 0 (events l)) (\<lambda>evs.
                       Inr (Some (l\<lparr>events := evs, latestTimeEvt := 0\<rparr>), w)))"

definition aeGetSetSize :: "('p, 'c) aeEventLoop \<Rightarrow> int" where
  "aeGetSetSize l = setsize l"

text \<open>zrealloc takes the old block and the new number of elements.\<close>

definition aeResizeSetSize :: "(epoll_event list option \<Rightarrow> int \<Rightarrow> epoll_event list option)
    \<Rightarrow> (('p, 'c) aeFileEvent list option \<Rightarrow> int \<Rightarrow> ('p, 'c) aeFileEvent list option)
    \<Rightarrow> (aeFiredEvent list option \<Rightarrow> int \<Rightarrow> aeFiredEvent list option) \<Rightarrow> ('p, 'c) aeEventLoop \<Rightarrow> int
    \<Rightarrow> fault + int \<times> ('p, 'c) aeEventLoop" where
  "aeResizeSetSize zr_api zr_ev zr_fired l n =
     (if n = setsize l then Inr (AE_OK, l)
      else if maxfd l \<ge> n then Inr (AE_ERR, l)
      else let (r, l) = aeApiResize zr_api l n in
           if r = - 1 then Inr (AE_ERR, l)
           else let evs = zr_ev (events l) n;
                    l = l\<lparr>events := evs, reallocs := reallocs l + (if evs = None then 0 else 1), fired := zr_fired (fired l) n, setsize := n\<rparr>
                in bindE (clear_masks (nat (n - (maxfd l + 1))) (maxfd l + 1) (events l)) (\<lambda>evs.
                   Inr (AE_OK, l\<lparr>events := evs\<rparr>)))"

definition aeStop :: "('p, 'c) aeEventLoop \<Rightarrow> ('p, 'c) aeEventLoop" where
  "aeStop l = l\<lparr>stop := True\<rparr>"

text \<open>The fields of an event after a registration.\<close>

definition fe_set :: "s32 \<Rightarrow> 'p \<Rightarrow> 'c \<Rightarrow> ('p, 'c) aeFileEvent \<Rightarrow> ('p, 'c) aeFileEvent" where
  "fe_set msk pr data fe =
     (let fe = fe\<lparr>fe_mask := fe_mask fe OR msk\<rparr>;
          fe = (if msk AND AE_READABLE \<noteq> 0 then fe\<lparr>rfileProc := pr\<rparr> else fe);
          fe = (if msk AND AE_WRITABLE \<noteq> 0 then fe\<lparr>wfileProc := pr\<rparr> else fe)
      in fe\<lparr>clientData := data\<rparr>)"

definition aeCreateFileEvent :: "('p, 'c, 'w) os \<Rightarrow> ('p, 'c) aeEventLoop \<Rightarrow> int \<Rightarrow> s32 \<Rightarrow> 'p \<Rightarrow> 'c \<Rightarrow> 'w
    \<Rightarrow> fault + int \<times> ('p, 'c) aeEventLoop \<times> 'w" where
  "aeCreateFileEvent os l fd msk pr data w =
     (if fd \<ge> setsize l then Inr (AE_ERR, l, w)
      else bindE (aeApiAddEvent os l fd msk w) (\<lambda>(r, w).
           if r = - 1 then Inr (AE_ERR, l, w)
           else bindE (elem (events l) fd) (\<lambda>fe.
                bindE (set_elem (events l) fd (fe_set msk pr data fe)) (\<lambda>evs.
                let l = l\<lparr>events := evs\<rparr>
                in Inr (AE_OK, if fd > maxfd l then l\<lparr>maxfd := fd\<rparr> else l, w)))))"

text \<open>\<open>for (j = maxfd - 1; j >= 0; j--)\<close> until a mask is set; \<open>j + 1\<close> rounds at most.\<close>

fun last_used :: "('p, 'c) aeFileEvent list option \<Rightarrow> nat \<Rightarrow> fault + int" where
  "last_used evs 0 = Inr (- 1)"
| "last_used evs (Suc j) =
     bindE (elem evs (int j)) (\<lambda>fe. if fe_mask fe \<noteq> AE_NONE then Inr (int j) else last_used evs j)"

definition aeDeleteFileEvent :: "('p, 'c, 'w) os \<Rightarrow> ('p, 'c) aeEventLoop \<Rightarrow> int \<Rightarrow> s32 \<Rightarrow> 'w
    \<Rightarrow> fault + ('p, 'c) aeEventLoop \<times> 'w" where
  "aeDeleteFileEvent os l fd msk w =
     (if fd \<ge> setsize l then Inr (l, w)
      else bindE (elem (events l) fd) (\<lambda>fe.
           if fe_mask fe = AE_NONE then Inr (l, w)
           else bindE (aeApiDelEvent os l fd msk w) (\<lambda>w.
                let fe = fe\<lparr>fe_mask := fe_mask fe AND NOT msk\<rparr> in
                bindE (set_elem (events l) fd fe) (\<lambda>evs.
                let l = l\<lparr>events := evs\<rparr> in
                if fd = maxfd l \<and> fe_mask fe = AE_NONE
                then bindE (last_used (events l) (nat (maxfd l))) (\<lambda>j. Inr (l\<lparr>maxfd := j\<rparr>, w))
                else Inr (l, w)))))"

definition aeGetFileEvents :: "('p, 'c) aeEventLoop \<Rightarrow> int \<Rightarrow> fault + s32" where
  "aeGetFileEvents l fd =
     (if fd \<ge> setsize l then Inr 0 else bindE (elem (events l) fd) (\<lambda>fe. Inr (fe_mask fe)))"

section \<open>Time events\<close>

definition updateLatestTimeEvt :: "('p, 'c) aeEventLoop \<Rightarrow> taddr \<Rightarrow> fault + ('p, 'c) aeEventLoop" where
  "updateLatestTimeEvt l p =
     (if latestTimeEvt l = 0 then Inr (l\<lparr>latestTimeEvt := p\<rparr>)
      else bindE (tev l (latestTimeEvt l)) (\<lambda>a.
           bindE (tev l p) (\<lambda>t.
           if when_sec a < when_sec t then Inr l
           else if when_sec a = when_sec t \<and> when_ms a \<le> when_ms t then Inr l
           else Inr (l\<lparr>latestTimeEvt := p\<rparr>))))"

fun nearest_loop :: "nat \<Rightarrow> ('p, 'c) aeEventLoop \<Rightarrow> taddr \<Rightarrow> taddr \<Rightarrow> fault + taddr" where
  "nearest_loop 0 l p nearest = Inl Diverges"
| "nearest_loop (Suc fuel) l p nearest =
     (if p = 0 then Inr nearest
      else bindE (tev l p) (\<lambda>t.
           bindE (if nearest = 0 then Inr True
                  else bindE (tev l nearest) (\<lambda>a.
                       Inr (when_sec t < when_sec a \<or> when_sec t = when_sec a \<and> when_ms t < when_ms a))) (\<lambda>nearer.
           nearest_loop fuel l (te_next t) (if nearer then p else nearest))))"

definition findLatestTimeEvt :: "nat \<Rightarrow> ('p, 'c) aeEventLoop \<Rightarrow> fault + ('p, 'c) aeEventLoop" where
  "findLatestTimeEvt fuel l =
     (if timeEventHead l = 0 then Inr (l\<lparr>latestTimeEvt := 0\<rparr>)
      else bindE (nearest_loop fuel l (timeEventHead l) 0) (\<lambda>p. Inr (l\<lparr>latestTimeEvt := p\<rparr>)))"

definition aeGetTime :: "('p, 'c, 'w) os \<Rightarrow> 'w \<Rightarrow> (int \<times> int) \<times> 'w" where
  "aeGetTime os w = (let ((sec, usec), w) = os_gettimeofday os w in ((sec, usec sdiv 1000), w))"

definition aeAddMillisecondsToNow :: "('p, 'c, 'w) os \<Rightarrow> int \<Rightarrow> 'w \<Rightarrow> (int \<times> int) \<times> 'w" where
  "aeAddMillisecondsToNow os ms w =
     (let ((cur_sec, cur_ms), w) = aeGetTime os w;
          sec = cur_sec + ms sdiv 1000;
          msec = cur_ms + ms smod 1000
      in if msec \<ge> 1000 then ((sec + 1, msec - 1000), w) else ((sec, msec), w))"

text \<open>\<open>mem\<close> is the address zmalloc returns.\<close>

definition aeCreateTimeEvent :: "('p, 'c, 'w) os \<Rightarrow> taddr \<Rightarrow> ('p, 'c) aeEventLoop \<Rightarrow> int \<Rightarrow> 'p \<Rightarrow> 'c \<Rightarrow> 'p option \<Rightarrow> 'w
    \<Rightarrow> fault + int \<times> ('p, 'c) aeEventLoop \<times> 'w" where
  "aeCreateTimeEvent os mem l ms pr data final w =
     (let i = timeEventNextId l; l = l\<lparr>timeEventNextId := timeEventNextId l + 1\<rparr> in
      if mem = 0 then Inr (AE_ERR, l, w)
      else let ((sec, msec), w) = aeAddMillisecondsToNow os ms w;
               l = set_tev l mem \<lparr>te_id = i, when_sec = sec, when_ms = msec, timeProc = pr, finalizerProc = final,
                                  te_clientData = data, te_next = timeEventHead l\<rparr>;
               l = l\<lparr>timeEventHead := mem\<rparr>
           in bindE (updateLatestTimeEvt l mem) (\<lambda>l. Inr (i, l, w)))"

fun del_time_loop :: "nat \<Rightarrow> ('p, 'c, 'w) os \<Rightarrow> ('p, 'c) aeEventLoop \<Rightarrow> int \<Rightarrow> taddr \<Rightarrow> taddr \<Rightarrow> 'w
    \<Rightarrow> fault + int \<times> ('p, 'c) aeEventLoop \<times> 'w" where
  "del_time_loop 0 os l i p prev w = Inl Diverges"
| "del_time_loop (Suc fuel) os l i p prev w =
     (if p = 0 then Inr (AE_ERR, l, w)
      else bindE (tev l p) (\<lambda>t.
           if te_id t = i
           then bindE (if prev = 0 then Inr (l\<lparr>timeEventHead := te_next t\<rparr>)
                       else bindE (tev l prev) (\<lambda>q. Inr (set_tev l prev (q\<lparr>te_next := te_next t\<rparr>)))) (\<lambda>l.
                bindE (case finalizerProc t of None \<Rightarrow> Inr (l, w)
                       | Some f \<Rightarrow> call_final os f l (te_clientData t) w) (\<lambda>(l, w).
                bindE (findLatestTimeEvt fuel l) (\<lambda>l.
                bindE (guardE (tevs l p \<noteq> None) Invalid_Free) (\<lambda>_.
                Inr (AE_OK, l\<lparr>tevs := (tevs l)(p := None)\<rparr>, w)))))
           else del_time_loop fuel os l i (te_next t) p w))"

definition aeDeleteTimeEvent :: "nat \<Rightarrow> ('p, 'c, 'w) os \<Rightarrow> ('p, 'c) aeEventLoop \<Rightarrow> int \<Rightarrow> 'w
    \<Rightarrow> fault + int \<times> ('p, 'c) aeEventLoop \<times> 'w" where
  "aeDeleteTimeEvent fuel os l i w = del_time_loop fuel os l i (timeEventHead l) 0 w"

definition aeSearchNearestTimer :: "('p, 'c) aeEventLoop \<Rightarrow> taddr" where
  "aeSearchNearestTimer l = latestTimeEvt l"

text \<open>After a step back of the clock all times are set to zero seconds.\<close>

fun zero_times :: "nat \<Rightarrow> ('p, 'c) aeEventLoop \<Rightarrow> taddr \<Rightarrow> fault + ('p, 'c) aeEventLoop" where
  "zero_times 0 l p = Inl Diverges"
| "zero_times (Suc fuel) l p =
     (if p = 0 then Inr l
      else bindE (tev l p) (\<lambda>t. zero_times fuel (set_tev l p (t\<lparr>when_sec := 0\<rparr>)) (te_next t)))"

definition due :: "('p, 'c) aeTimeEvent \<Rightarrow> int \<times> int \<Rightarrow> bool" where
  "due t now \<longleftrightarrow> fst now > when_sec t \<or> fst now = when_sec t \<and> snd now \<ge> when_ms t"

text \<open>A due event: its callback, then its new time or its deletion.\<close>

definition run_timer :: "nat \<Rightarrow> ('p, 'c, 'w) os \<Rightarrow> ('p, 'c) aeEventLoop \<Rightarrow> taddr \<Rightarrow> ('p, 'c) aeTimeEvent \<Rightarrow> 'w
    \<Rightarrow> fault + ('p, 'c) aeEventLoop \<times> 'w" where
  "run_timer fuel os l p t w =
     bindE (call_time os (timeProc t) l (te_id t) (te_clientData t) w) (\<lambda>(retval, l, w).
     if retval \<noteq> AE_NOMORE
     then let ((sec, ms), w) = aeAddMillisecondsToNow os (sint retval) w in
          bindE (tev l p) (\<lambda>q.
          bindE (updateLatestTimeEvt (set_tev l p (q\<lparr>when_sec := sec, when_ms := ms\<rparr>)) p) (\<lambda>l. Inr (l, w)))
     else bindE (aeDeleteTimeEvent fuel os l (te_id t) w) (\<lambda>(_, l, w). Inr (l, w)))"

fun time_loop :: "nat \<Rightarrow> ('p, 'c, 'w) os \<Rightarrow> ('p, 'c) aeEventLoop \<Rightarrow> taddr \<Rightarrow> int \<Rightarrow> int \<Rightarrow> 'w
    \<Rightarrow> fault + int \<times> ('p, 'c) aeEventLoop \<times> 'w" where
  "time_loop 0 os l p maxId processed w = Inl Diverges"
| "time_loop (Suc fuel) os l p maxId processed w =
     (if p = 0 then Inr (processed, l, w)
      else bindE (tev l p) (\<lambda>t.
           if te_id t > maxId then time_loop fuel os l (te_next t) maxId processed w
           else let (now, w) = aeGetTime os w in
                if due t now
                then bindE (run_timer fuel os l p t w) (\<lambda>(l, w).
                     time_loop fuel os l (timeEventHead l) maxId (processed + 1) w)
                else time_loop fuel os l (te_next t) maxId processed w))"

definition processTimeEvents :: "nat \<Rightarrow> ('p, 'c, 'w) os \<Rightarrow> ('p, 'c) aeEventLoop \<Rightarrow> 'w
    \<Rightarrow> fault + int \<times> ('p, 'c) aeEventLoop \<times> 'w" where
  "processTimeEvents fuel os l w =
     (let (now, w) = os_time os w in
      bindE (if now < lastTime l then zero_times fuel l (timeEventHead l) else Inr l) (\<lambda>l.
      let l = l\<lparr>lastTime := now\<rparr> in
      time_loop fuel os l (timeEventHead l) (timeEventNextId l - 1) 0 w))"

section \<open>One round and the main loop\<close>

text \<open>The time to sleep until a timer fires, in seconds and microseconds.\<close>

definition sleep_time :: "int \<times> int \<Rightarrow> int \<times> int \<Rightarrow> int \<times> int" where
  "sleep_time when now =
     (let sec = fst when - fst now;
          (sec, usec) = (if snd when < snd now then (sec - 1, ((snd when + 1000) - snd now) * 1000)
                         else (sec, (snd when - snd now) * 1000))
      in (if sec < 0 then 0 else sec, if usec < 0 then 0 else usec))"

definition poll_time :: "('p, 'c, 'w) os \<Rightarrow> ('p, 'c) aeEventLoop \<Rightarrow> s32 \<Rightarrow> 'w \<Rightarrow> fault + (int \<times> int) option \<times> 'w" where
  "poll_time os l flags w =
     (let shortest = (if flags AND AE_TIME_EVENTS \<noteq> 0 \<and> flags AND AE_DONT_WAIT = 0 then aeSearchNearestTimer l else 0) in
      if shortest \<noteq> 0
      then bindE (tev l shortest) (\<lambda>t.
           let (now, w) = aeGetTime os w in Inr (Some (sleep_time (when_sec t, when_ms t) now), w))
      else Inr (if flags AND AE_DONT_WAIT \<noteq> 0 then Some (0, 0) else None, w))"

text \<open>
  The handlers of one fired event. The code keeps the pointer \<open>fe\<close> into the event table
  over the first call. It is invalid when that call has made zrealloc replace the table, whether
  the block moved or not; otherwise the table is the same block, which is read through the loop here.
\<close>

definition run_fired :: "('p, 'c, 'w) os \<Rightarrow> ('p, 'c) aeEventLoop \<Rightarrow> int \<Rightarrow> 'w \<Rightarrow> fault + ('p, 'c) aeEventLoop \<times> 'w" where
  "run_fired os l j w =
     bindE (elem (fired l) j) (\<lambda>f.
     let fd = fired_fd f; msk = fired_mask f in
     bindE (elem (events l) fd) (\<lambda>fe.
     bindE (if fe_mask fe AND msk AND AE_READABLE \<noteq> 0
            then bindE (call_file os (rfileProc fe) l fd (clientData fe) msk w) (\<lambda>(l', w).
                 if reallocs l' \<noteq> reallocs l then Inl Dangling else Inr (True, l', w))
            else Inr (False, l, w)) (\<lambda>(rfired, l, w).
     bindE (elem (events l) fd) (\<lambda>fe.
     if fe_mask fe AND msk AND AE_WRITABLE \<noteq> 0 \<and> (\<not> rfired \<or> wfileProc fe \<noteq> rfileProc fe)
     then call_file os (wfileProc fe) l fd (clientData fe) msk w
     else Inr (l, w)))))"

fun fired_loop :: "nat \<Rightarrow> int \<Rightarrow> ('p, 'c, 'w) os \<Rightarrow> ('p, 'c) aeEventLoop \<Rightarrow> 'w \<Rightarrow> fault + ('p, 'c) aeEventLoop \<times> 'w" where
  "fired_loop 0 j os l w = Inr (l, w)"
| "fired_loop (Suc k) j os l w = bindE (run_fired os l j w) (\<lambda>(l, w). fired_loop k (j + 1) os l w)"

definition aeProcessEvents :: "nat \<Rightarrow> ('p, 'c, 'w) os \<Rightarrow> ('p, 'c) aeEventLoop \<Rightarrow> s32 \<Rightarrow> 'w
    \<Rightarrow> fault + int \<times> ('p, 'c) aeEventLoop \<times> 'w" where
  "aeProcessEvents fuel os l flags w =
     (if flags AND AE_TIME_EVENTS = 0 \<and> flags AND AE_FILE_EVENTS = 0 then Inr (0, l, w)
      else bindE (if maxfd l \<noteq> - 1 \<or> flags AND AE_TIME_EVENTS \<noteq> 0 \<and> flags AND AE_DONT_WAIT = 0
                  then bindE (poll_time os l flags w) (\<lambda>(tvp, w).
                       bindE (aeApiPoll os l tvp w) (\<lambda>(numevents, l, w).
                       bindE (fired_loop (nat numevents) 0 os l w) (\<lambda>(l, w). Inr (numevents, l, w))))
                  else Inr (0, l, w)) (\<lambda>(processed, l, w).
           if flags AND AE_TIME_EVENTS \<noteq> 0
           then bindE (processTimeEvents fuel os l w) (\<lambda>(n, l, w). Inr (processed + n, l, w))
           else Inr (processed, l, w)))"

text \<open>\<open>rounds\<close> bounds the rounds of the main loop.\<close>

fun main_loop :: "nat \<Rightarrow> nat \<Rightarrow> ('p, 'c, 'w) os \<Rightarrow> ('p, 'c) aeEventLoop \<Rightarrow> 'w \<Rightarrow> fault + ('p, 'c) aeEventLoop \<times> 'w" where
  "main_loop 0 fuel os l w = Inl Diverges"
| "main_loop (Suc rounds) fuel os l w =
     (if stop l then Inr (l, w)
      else bindE (case beforesleep l of None \<Rightarrow> Inr (l, w) | Some f \<Rightarrow> call_before os f l w) (\<lambda>(l, w).
           bindE (aeProcessEvents fuel os l AE_ALL_EVENTS w) (\<lambda>(_, l, w). main_loop rounds fuel os l w)))"

definition aeMain :: "nat \<Rightarrow> nat \<Rightarrow> ('p, 'c, 'w) os \<Rightarrow> ('p, 'c) aeEventLoop \<Rightarrow> 'w \<Rightarrow> fault + ('p, 'c) aeEventLoop \<times> 'w" where
  "aeMain rounds fuel os l w = main_loop rounds fuel os (l\<lparr>stop := False\<rparr>) w"

definition aeSetBeforeSleepProc :: "('p, 'c) aeEventLoop \<Rightarrow> 'p option \<Rightarrow> ('p, 'c) aeEventLoop" where
  "aeSetBeforeSleepProc l f = l\<lparr>beforesleep := f\<rparr>"

definition aeApiName :: string where "aeApiName = ''epoll''"
definition aeGetApiName :: string where "aeGetApiName = aeApiName"

text \<open>The poll bits have the values of the epoll bits.\<close>

definition aeWait :: "('p, 'c, 'w) os \<Rightarrow> int \<Rightarrow> s32 \<Rightarrow> int \<Rightarrow> 'w \<Rightarrow> int \<times> 'w" where
  "aeWait os fd msk ms w =
     (let ((retval, revents), w) = os_poll os fd (epoll_bits msk) (word_of_int ms) w in
      if retval = 1 then (sint (ready_mask revents), w) else (retval, w))"

text \<open>close is an argument; the blocks that are freed end their life. What is left of the loop are its time events.\<close>

definition aeApiFree :: "(int \<Rightarrow> 'w \<Rightarrow> 'w) \<Rightarrow> ('p, 'c) aeEventLoop \<Rightarrow> 'w \<Rightarrow> 'w" where
  "aeApiFree close l w = close (epfd (apidata l)) w"

definition aeDeleteEventLoop :: "(int \<Rightarrow> 'w \<Rightarrow> 'w) \<Rightarrow> ('p, 'c) aeEventLoop \<Rightarrow> 'w \<Rightarrow> (taddr \<rightharpoonup> ('p, 'c) aeTimeEvent) \<times> 'w" where
  "aeDeleteEventLoop close l w = (tevs l, aeApiFree close l w)"

end
