(* ===== verification/Event_Files.thy ===== *)
theory Event_Files
  imports Event_Loop Machines
begin

text \<open>
  File events of the event loop (src/src/ae.c): the event table, the highest descriptor in
  use and the kernel's interest set under creation, deletion and resizing, as a refinement
  of a map from descriptors to what is watched; and what one fired event calls.
\<close>

section \<open>The table\<close>

lemma elem_ok [simp]: "0 \<le> i \<Longrightarrow> i < int (length xs) \<Longrightarrow> elem (Some xs) i = Inr (xs ! nat i)"
  by (simp add: elem_def)

lemma elem_out [simp]: "\<not> (0 \<le> i \<and> i < int (length xs)) \<Longrightarrow> elem (Some xs) i = Inl Out_Of_Bounds"
  by (auto simp: elem_def)

lemma set_elem_ok [simp]: "0 \<le> i \<Longrightarrow> i < int (length xs) \<Longrightarrow> set_elem (Some xs) i x = Inr (Some (xs[nat i := x]))"
  by (simp add: set_elem_def)

lemma clear_masks_ok:
  "0 \<le> i \<Longrightarrow> i + int k \<le> int (length ev) \<Longrightarrow>
   \<exists>ev'. clear_masks k i (Some ev) = Inr (Some ev') \<and> length ev' = length ev
     \<and> (\<forall>j<length ev. ev' ! j = (if i \<le> int j \<and> int j < i + int k then (ev ! j)\<lparr>fe_mask := 0\<rparr> else ev ! j))"
proof (induction k arbitrary: i ev)
  case (Suc k)
  let ?ev = "ev[nat i := (ev ! nat i)\<lparr>fe_mask := 0\<rparr>]"
  obtain ev' where e: "clear_masks k (i + 1) (Some ?ev) = Inr (Some ev')" "length ev' = length ev"
      "\<forall>j<length ev. ev' ! j = (if i + 1 \<le> int j \<and> int j < i + 1 + int k then (?ev ! j)\<lparr>fe_mask := 0\<rparr> else ?ev ! j)"
    using Suc.IH [of "i + 1" ?ev] Suc.prems by auto
  have "ev' ! j = (if i \<le> int j \<and> int j < i + int (Suc k) then (ev ! j)\<lparr>fe_mask := 0\<rparr> else ev ! j)" if "j < length ev" for j
    using e(3) that Suc.prems(1) by (cases "j = nat i") (auto simp: nth_list_update)
  then show ?case using e(1,2) Suc.prems by (auto simp: AE_NONE_def)
qed auto

lemma last_used_ok:
  "k \<le> length ev \<Longrightarrow> \<exists>j. last_used (Some ev) k = Inr j \<and> - 1 \<le> j \<and> j < int k
     \<and> (0 \<le> j \<longrightarrow> fe_mask (ev ! nat j) \<noteq> 0) \<and> (\<forall>i<k. j < int i \<longrightarrow> fe_mask (ev ! i) = 0)"
proof (induction k)
  case (Suc k)
  show ?case
  proof (cases "fe_mask (ev ! k) = 0")
    case True
    then show ?thesis using Suc by (auto simp: AE_NONE_def less_Suc_eq)
  next
    case False
    then show ?thesis using Suc.prems by (intro exI [of _ "int k"]) (auto simp: AE_NONE_def)
  qed
qed simp

definition table_ok :: "('p, 'c) aeEventLoop \<Rightarrow> bool" where
  "table_ok l \<longleftrightarrow> (\<exists>ev fs ae. events l = Some ev \<and> fired l = Some fs \<and> api_events (apidata l) = Some ae
     \<and> int (length ev) = setsize l \<and> length fs = length ev \<and> length ae = length ev
     \<and> - 1 \<le> maxfd l \<and> maxfd l < setsize l \<and> (0 \<le> maxfd l \<longrightarrow> fe_mask (ev ! nat (maxfd l)) \<noteq> 0)
     \<and> (\<forall>i<length ev. maxfd l < int i \<longrightarrow> fe_mask (ev ! i) = 0))"

text \<open>What is watched on a descriptor: the mask, the handlers the mask selects, the client data.\<close>

definition view :: "('p, 'c) aeFileEvent \<Rightarrow> (s32 \<times> 'p option \<times> 'p option \<times> 'c) option" where
  "view fe = (if fe_mask fe = 0 then None
     else Some (fe_mask fe, if fe_mask fe AND AE_READABLE \<noteq> 0 then Some (rfileProc fe) else None,
       if fe_mask fe AND AE_WRITABLE \<noteq> 0 then Some (wfileProc fe) else None, clientData fe))"

definition watch :: "('p, 'c) aeEventLoop \<Rightarrow> int \<Rightarrow> (s32 \<times> 'p option \<times> 'p option \<times> 'c) option" where
  "watch l fd = (case events l of None \<Rightarrow> None
     | Some ev \<Rightarrow> if 0 \<le> fd \<and> fd < int (length ev) then view (ev ! nat fd) else None)"

section \<open>The specification\<close>

datatype ('p, 'c) file_op = FCreate int s32 'p 'c | FDelete int s32 | FResize int

type_synonym ('p, 'c) watching = "int \<Rightarrow> (s32 \<times> 'p option \<times> 'p option \<times> 'c) option"

definition watch_more :: "s32 \<Rightarrow> 'p \<Rightarrow> 'c \<Rightarrow> (s32 \<times> 'p option \<times> 'p option \<times> 'c) option
    \<Rightarrow> (s32 \<times> 'p option \<times> 'p option \<times> 'c) option" where
  "watch_more msk pr data v = (let (m, r, wr) = (case v of None \<Rightarrow> (0, None, None) | Some (m, r, wr, _) \<Rightarrow> (m, r, wr)) in
     Some (m OR msk, if msk AND AE_READABLE \<noteq> 0 then Some pr else r, if msk AND AE_WRITABLE \<noteq> 0 then Some pr else wr, data))"

definition watch_less :: "s32 \<Rightarrow> (s32 \<times> 'p option \<times> 'p option \<times> 'c) option
    \<Rightarrow> (s32 \<times> 'p option \<times> 'p option \<times> 'c) option" where
  "watch_less msk v = (case v of None \<Rightarrow> None | Some (m, r, wr, data) \<Rightarrow>
     if m AND NOT msk = 0 then None
     else Some (m AND NOT msk, if (m AND NOT msk) AND AE_READABLE \<noteq> 0 then r else None,
       if (m AND NOT msk) AND AE_WRITABLE \<noteq> 0 then wr else None, data))"

text \<open>
  The number of slots, what is watched and the return codes so far. The contract: no
  negative descriptor, no empty mask, no empty table. \<open>V\<close> are the descriptors epoll can watch.
\<close>

fun file_step :: "int set \<Rightarrow> ('p, 'c) file_op \<Rightarrow> int \<times> ('p, 'c) watching \<times> int list
    \<Rightarrow> (int \<times> ('p, 'c) watching \<times> int list) option" where
  "file_step V (FCreate fd msk pr data) (n, A, rs) =
     (if fd < 0 \<or> msk = 0 then None
      else if fd < n \<and> (A fd \<noteq> None \<or> fd \<in> V) then Some (n, A(fd := watch_more msk pr data (A fd)), rs @ [AE_OK])
      else Some (n, A, rs @ [AE_ERR]))"
| "file_step V (FDelete fd msk) (n, A, rs) = (if fd < 0 then None else Some (n, A(fd := watch_less msk (A fd)), rs))"
| "file_step V (FResize k) (n, A, rs) =
     (if k < 0 then None
      else if k \<noteq> n \<and> (\<exists>fd\<ge>k. A fd \<noteq> None) then Some (n, A, rs @ [AE_ERR])
      else Some (k, A, rs @ [AE_OK]))"

text \<open>The code; the memory for resizing is given by three calls of zrealloc.\<close>

fun file_exec :: "('p, 'c, 'w) os \<Rightarrow> (epoll_event list option \<Rightarrow> int \<Rightarrow> epoll_event list option)
    \<Rightarrow> (('p, 'c) aeFileEvent list option \<Rightarrow> int \<Rightarrow> ('p, 'c) aeFileEvent list option)
    \<Rightarrow> (aeFiredEvent list option \<Rightarrow> int \<Rightarrow> aeFiredEvent list option) \<Rightarrow> ('p, 'c) file_op
    \<Rightarrow> ('p, 'c) aeEventLoop \<times> 'w \<times> int list \<Rightarrow> fault + ('p, 'c) aeEventLoop \<times> 'w \<times> int list" where
  "file_exec os zra zre zrf (FCreate fd msk pr data) (l, w, rs) =
     bindE (aeCreateFileEvent os l fd msk pr data w) (\<lambda>(r, l, w). Inr (l, w, rs @ [r]))"
| "file_exec os zra zre zrf (FDelete fd msk) (l, w, rs) =
     bindE (aeDeleteFileEvent os l fd msk w) (\<lambda>(l, w). Inr (l, w, rs))"
| "file_exec os zra zre zrf (FResize k) (l, w, rs) =
     bindE (aeResizeSetSize zra zre zrf l k) (\<lambda>(r, l). Inr (l, w, rs @ [r]))"

text \<open>
  epoll_ctl: \<open>I w\<close> is the interest set of the instance \<open>e\<close>. Adding needs a new descriptor
  epoll can watch, modifying and deleting a registered one.
\<close>

definition epoll_kernel :: "('p, 'c, 'w) os \<Rightarrow> int \<Rightarrow> int set \<Rightarrow> ('w \<Rightarrow> int \<Rightarrow> u32 option) \<Rightarrow> bool" where
  "epoll_kernel os e V I \<longleftrightarrow> (\<forall>op fd b w r w'. os_epoll_ctl os e op fd b w = (r, w') \<longrightarrow>
     (if (if op = EPOLL_CTL_ADD then I w fd = None \<and> fd \<in> V else I w fd \<noteq> None)
      then r \<noteq> - 1 \<and> I w' = (I w)(fd := if op = EPOLL_CTL_DEL then None else Some b)
      else r = - 1 \<and> I w' = I w))"

definition realloc_ok :: "('a list option \<Rightarrow> int \<Rightarrow> 'a list option) \<Rightarrow> bool" where
  "realloc_ok zr \<longleftrightarrow> (\<forall>xs n. 0 \<le> n \<longrightarrow> (\<exists>ys. zr (Some xs) n = Some ys \<and> length ys = nat n
     \<and> take (min (length xs) (nat n)) ys = take (min (length xs) (nat n)) xs))"

definition bits_of :: "('p, 'c) watching \<Rightarrow> int \<Rightarrow> u32 option" where
  "bits_of A fd = map_option (\<lambda>v. epoll_bits (fst v)) (A fd)"

fun files_ok :: "int \<Rightarrow> ('w \<Rightarrow> int \<Rightarrow> u32 option) \<Rightarrow> ('p, 'c) aeEventLoop \<times> 'w \<times> int list
    \<Rightarrow> int \<times> ('p, 'c) watching \<times> int list \<Rightarrow> bool" where
  "files_ok e I (l, w, rs) (n, A, rs') \<longleftrightarrow> table_ok l \<and> epfd (apidata l) = e \<and> setsize l = n \<and> A = watch l
     \<and> I w = bits_of A \<and> rs' = rs"

section \<open>The refinement\<close>

lemma view_None [simp]: "view fe = None \<longleftrightarrow> fe_mask fe = 0"
  by (simp add: view_def)

lemma or_zero_iff: "(x :: 'a :: len word) OR y = 0 \<longleftrightarrow> x = 0 \<and> y = 0"
  by (auto simp: bit_eq_iff bit_or_iff)

lemma mask_tests: "(x :: s32) AND AE_READABLE = 0 \<longleftrightarrow> \<not> bit x 0" "x AND AE_WRITABLE = 0 \<longleftrightarrow> \<not> bit x 1"
  using bit_iff_and_push_bit_not_eq_0 [of x 0] bit_iff_and_push_bit_not_eq_0 [of x 1]
  by (simp_all add: AE_READABLE_def AE_WRITABLE_def)

lemma view_more:
  assumes "msk \<noteq> 0"
  shows "view (fe_set msk pr data fe) = watch_more msk pr data (view fe)"
  using assms
  by (simp add: Let_def fe_set_def view_def watch_more_def mask_tests or_zero_iff bit_or_iff)

lemma view_less: "view (fe\<lparr>fe_mask := fe_mask fe AND NOT msk\<rparr>) = watch_less msk (view fe)"
  by (cases "fe_mask fe = 0") (simp_all add: view_def watch_less_def mask_tests bit_and_iff)

lemma table_okD:
  assumes "table_ok l"
  obtains ev fs ae where "events l = Some ev" "fired l = Some fs" "api_events (apidata l) = Some ae"
    "int (length ev) = setsize l" "length fs = length ev" "length ae = length ev" "- 1 \<le> maxfd l" "maxfd l < setsize l"
    "0 \<le> maxfd l \<Longrightarrow> fe_mask (ev ! nat (maxfd l)) \<noteq> 0" "\<And>i. i < length ev \<Longrightarrow> maxfd l < int i \<Longrightarrow> fe_mask (ev ! i) = 0"
    "\<And>fd. watch l fd = (if 0 \<le> fd \<and> fd < int (length ev) then view (ev ! nat fd) else None)"
  using assms that unfolding table_ok_def by (auto simp: watch_def)

lemma watch_used:
  assumes "events l = Some ev" "watch l fd \<noteq> None"
  shows "0 \<le> fd" "fd < int (length ev)" "watch l fd = view (ev ! nat fd)" "fe_mask (ev ! nat fd) \<noteq> 0"
  using assms by (auto simp: watch_def view_def split: if_splits)

lemma watch_upd:
  assumes "events l = Some ev" "events l' = Some (ev[nat fd := fe])" "0 \<le> fd" "fd < int (length ev)"
  shows "watch l' = (watch l)(fd := view fe)"
proof
  fix g
  show "watch l' g = ((watch l)(fd := view fe)) g"
    using assms by (cases "g = fd") (auto simp: watch_def nth_list_update)
qed

lemma create_file_ok:
  assumes rel: "files_ok e I (l, w, rs) (n, A, rs)" and k: "epoll_kernel os e V I" and pre: "0 \<le> fd" "msk \<noteq> 0"
  shows "\<exists>r l' w'. aeCreateFileEvent os l fd msk pr data w = Inr (r, l', w')
    \<and> (if fd < n \<and> (A fd \<noteq> None \<or> fd \<in> V)
       then r = AE_OK \<and> files_ok e I (l', w', rs) (n, A(fd := watch_more msk pr data (A fd)), rs)
       else r = AE_ERR \<and> files_ok e I (l', w', rs) (n, A, rs))"
proof (cases "fd < n")
  case False
  then show ?thesis using rel by (auto simp: aeCreateFileEvent_def)
next
  case True
  have R: "table_ok l" "epfd (apidata l) = e" "setsize l = n" "A = watch l" "I w = bits_of A" using rel by simp_all
  obtain ev fs ae where T: "events l = Some ev" "fired l = Some fs" "api_events (apidata l) = Some ae"
    "int (length ev) = setsize l" "length fs = length ev" "length ae = length ev" "- 1 \<le> maxfd l" "maxfd l < setsize l"
    "0 \<le> maxfd l \<Longrightarrow> fe_mask (ev ! nat (maxfd l)) \<noteq> 0" "\<And>i. i < length ev \<Longrightarrow> maxfd l < int i \<Longrightarrow> fe_mask (ev ! i) = 0"
    "\<And>fd. watch l fd = (if 0 \<le> fd \<and> fd < int (length ev) then view (ev ! nat fd) else None)"
    using table_okD [OF R(1)] by metis
  have fd: "0 \<le> fd" "fd < int (length ev)" using pre True T(4) R(3) by simp_all
  let ?fe = "ev ! nat fd"
  let ?op = "if fe_mask ?fe = 0 then EPOLL_CTL_ADD else EPOLL_CTL_MOD"
  have A: "A fd = view ?fe" using R(4) T(11) fd by simp
  have reg: "I w fd = None \<longleftrightarrow> fe_mask ?fe = 0" using R(5) A by (simp add: bits_of_def)
  obtain r w' where c: "os_epoll_ctl os e ?op fd (epoll_bits (msk OR fe_mask ?fe)) w = (r, w')" by fastforce
  note K = k [unfolded epoll_kernel_def, rule_format, OF c]
  show ?thesis
  proof (cases "A fd \<noteq> None \<or> fd \<in> V")
    case False
    then have "r = - 1" "I w' = I w" using K reg A by auto
    then show ?thesis using c fd T(1,4) R True False pre
      by (simp add: aeCreateFileEvent_def aeApiAddEvent_def Let_def AE_NONE_def)
  next
    case ok: True
    then have r: "r \<noteq> - 1" "I w' = (I w)(fd := Some (epoll_bits (msk OR fe_mask ?fe)))" using K reg A by (auto split: if_splits)
    let ?new = "fe_set msk pr data ?fe"
    let ?l = "l\<lparr>events := Some (ev[nat fd := ?new]), maxfd := max fd (maxfd l)\<rparr>"
    have run: "aeCreateFileEvent os l fd msk pr data w = Inr (AE_OK, ?l, w')"
      using c fd T(1,4) R True r by (auto simp: aeCreateFileEvent_def aeApiAddEvent_def Let_def AE_NONE_def max_def)
    have new: "view ?new = watch_more msk pr data (A fd)" "fe_mask ?new = fe_mask ?fe OR msk"
      unfolding A by (rule view_more [OF pre(2)]) (simp add: fe_set_def Let_def)
    have nz: "fe_mask ?new \<noteq> 0" using new(2) pre(2) by (simp add: or_zero_iff)
    have w: "watch ?l = A(fd := watch_more msk pr data (A fd))"
      using watch_upd [of l ev ?l fd ?new] T(1) fd new(1) R(4) by simp
    have "table_ok ?l"
      unfolding table_ok_def
      by (intro exI [of _ "ev[nat fd := ?new]"] exI [of _ fs] exI [of _ ae])
        (use T fd nz pre in \<open>auto simp: nth_list_update max_def\<close>)
    moreover have "I w' = bits_of (A(fd := watch_more msk pr data (A fd)))"
    proof
      fix g
      show "I w' g = bits_of (A(fd := watch_more msk pr data (A fd))) g"
        using r(2) R(5) A by (auto simp: bits_of_def watch_more_def view_def Let_def ac_simps split: if_splits)
    qed
    ultimately show ?thesis using run w R ok True by auto
  qed
qed

text \<open>What a deletion leaves in the table, and the new highest descriptor.\<close>

lemma delete_maxfd:
  assumes l: "table_ok l" and ev: "events l = Some ev" and fd: "0 \<le> fd" "fd < int (length ev)" "fe_mask (ev ! nat fd) \<noteq> 0"
    and c: "os_epoll_ctl os (epfd (apidata l)) (if fe_mask (ev ! nat fd) AND NOT msk \<noteq> 0 then EPOLL_CTL_MOD else EPOLL_CTL_DEL)
      fd (epoll_bits (fe_mask (ev ! nat fd) AND NOT msk)) w = (r, w')"
  defines "ev' \<equiv> ev[nat fd := (ev ! nat fd)\<lparr>fe_mask := fe_mask (ev ! nat fd) AND NOT msk\<rparr>]"
  shows "\<exists>j. aeDeleteFileEvent os l fd msk w = Inr (l\<lparr>events := Some ev', maxfd := j\<rparr>, w')
    \<and> - 1 \<le> j \<and> j \<le> maxfd l \<and> (0 \<le> j \<longrightarrow> fe_mask (ev' ! nat j) \<noteq> 0)
    \<and> (\<forall>i<length ev. j < int i \<longrightarrow> fe_mask (ev' ! i) = 0)"
proof -
  let ?m = "fe_mask (ev ! nat fd) AND NOT msk"
  let ?ev = "ev[nat fd := (ev ! nat fd)\<lparr>fe_mask := ?m\<rparr>]"
  have T: "int (length ev) = setsize l" "- 1 \<le> maxfd l" "maxfd l < setsize l"
    "0 \<le> maxfd l \<Longrightarrow> fe_mask (ev ! nat (maxfd l)) \<noteq> 0" "\<And>i. i < length ev \<Longrightarrow> maxfd l < int i \<Longrightarrow> fe_mask (ev ! i) = 0"
    using table_okD [OF l] ev by (metis option.inject)+
  show ?thesis
  proof (cases "fd = maxfd l \<and> ?m = 0")
    case True
    then have "nat (maxfd l) \<le> length ?ev" using T(1,3) by simp
    then obtain j where u: "last_used (Some ?ev) (nat (maxfd l)) = Inr j" "- 1 \<le> j" "j < int (nat (maxfd l))"
        "0 \<le> j \<longrightarrow> fe_mask (?ev ! nat j) \<noteq> 0" "\<forall>i<nat (maxfd l). j < int i \<longrightarrow> fe_mask (?ev ! i) = 0"
      using last_used_ok [of "nat (maxfd l)" ?ev] by blast
    have below: "j < maxfd l" using u(3) fd(1) True by linarith
    have "fe_mask (?ev ! i) = 0" if "i < length ev" "j < int i" for i
      using u(5) T(5) [OF that(1)] True that fd by (cases "int i" "maxfd l" rule: linorder_cases) (auto simp: nth_list_update)
    moreover have "aeDeleteFileEvent os l fd msk w = Inr (l\<lparr>events := Some ?ev, maxfd := j\<rparr>, w')"
    proof -
      have m: "fd = maxfd l" "?m = 0" using True by blast+
      have "last_used (Some ?ev) (nat fd) = Inr j" using u(1) m(1) by simp
      moreover have "fe_mask (ev ! nat (maxfd l)) AND NOT msk = 0" using m by simp
      ultimately show ?thesis using m(1) c fd ev T(1,3) unfolding m(2)
        by (simp add: aeDeleteFileEvent_def aeApiDelEvent_def Let_def AE_NONE_def)
    qed
    ultimately show ?thesis using u(2,4) below unfolding ev'_def by (intro exI [of _ j]) simp
  next
    case False
    have "l\<lparr>events := Some ?ev, maxfd := maxfd l\<rparr> = l\<lparr>events := Some ?ev\<rparr>" by simp
    then have "aeDeleteFileEvent os l fd msk w = Inr (l\<lparr>events := Some ?ev, maxfd := maxfd l\<rparr>, w')"
      using False c fd ev T(1) by (auto simp: aeDeleteFileEvent_def aeApiDelEvent_def Let_def AE_NONE_def)
    moreover have "fe_mask (?ev ! nat (maxfd l)) \<noteq> 0" if "0 \<le> maxfd l"
      using T(1,3,4) False that fd by (auto simp: nth_list_update nat_eq_iff)
    moreover have "fe_mask (?ev ! i) = 0" if "i < length ev" "maxfd l < int i" for i
      using T(5) [OF that] fd(3) that by (cases "i = nat fd") simp_all
    ultimately show ?thesis using T(2) unfolding ev'_def by blast
  qed
qed

lemma delete_file_ok:
  assumes rel: "files_ok e I (l, w, rs) (n, A, rs)" and k: "epoll_kernel os e V I" and fd0: "0 \<le> fd"
  shows "\<exists>l' w'. aeDeleteFileEvent os l fd msk w = Inr (l', w')
    \<and> files_ok e I (l', w', rs) (n, A(fd := watch_less msk (A fd)), rs)"
proof -
  have R: "table_ok l" "epfd (apidata l) = e" "setsize l = n" "A = watch l" "I w = bits_of A" using rel by simp_all
  obtain ev fs ae where T: "events l = Some ev" "fired l = Some fs" "api_events (apidata l) = Some ae"
    "int (length ev) = setsize l" "length fs = length ev" "length ae = length ev" "- 1 \<le> maxfd l" "maxfd l < setsize l"
    "0 \<le> maxfd l \<Longrightarrow> fe_mask (ev ! nat (maxfd l)) \<noteq> 0" "\<And>i. i < length ev \<Longrightarrow> maxfd l < int i \<Longrightarrow> fe_mask (ev ! i) = 0"
    "\<And>fd. watch l fd = (if 0 \<le> fd \<and> fd < int (length ev) then view (ev ! nat fd) else None)"
    using table_okD [OF R(1)] by metis
  have same: "A(fd := watch_less msk (A fd)) = A" if "A fd = None" using that by (auto simp: watch_less_def)
  show ?thesis
  proof (cases "A fd = None")
    case True
    then have "aeDeleteFileEvent os l fd msk w = Inr (l, w)"
      using T(1,4,11) R fd0 by (auto simp: aeDeleteFileEvent_def AE_NONE_def split: if_splits)
    then show ?thesis unfolding same [OF True] using rel by auto
  next
    case False
    let ?fe = "ev ! nat fd"
    have fd: "0 \<le> fd" "fd < int (length ev)" "A fd = view ?fe" "fe_mask ?fe \<noteq> 0"
      using watch_used [OF T(1)] False unfolding R(4) by blast+
    let ?m = "fe_mask ?fe AND NOT msk"
    let ?new = "?fe\<lparr>fe_mask := ?m\<rparr>"
    let ?ev = "ev[nat fd := ?new]"
    let ?op = "if ?m \<noteq> 0 then EPOLL_CTL_MOD else EPOLL_CTL_DEL"
    obtain r w' where c: "os_epoll_ctl os e ?op fd (epoll_bits ?m) w = (r, w')" by fastforce
    have "I w fd \<noteq> None" using R(5) fd by (simp add: bits_of_def)
    then have I: "I w' = (I w)(fd := if ?m = 0 then None else Some (epoll_bits ?m))"
      using k [unfolded epoll_kernel_def, rule_format, OF c] by (auto split: if_splits)
    obtain j where j: "aeDeleteFileEvent os l fd msk w = Inr (l\<lparr>events := Some ?ev, maxfd := j\<rparr>, w')"
        "- 1 \<le> j" "j \<le> maxfd l" "0 \<le> j \<longrightarrow> fe_mask (?ev ! nat j) \<noteq> 0" "\<forall>i<length ev. j < int i \<longrightarrow> fe_mask (?ev ! i) = 0"
      using delete_maxfd [OF R(1) T(1) fd(1,2,4)] c R(2) by metis
    let ?l = "l\<lparr>events := Some ?ev, maxfd := j\<rparr>"
    have w: "watch ?l = A(fd := watch_less msk (A fd))"
      using watch_upd [of l ev ?l fd ?new] T(1) fd R(4) by (simp add: view_less)
    have "table_ok ?l"
      unfolding table_ok_def using T j by (intro exI [of _ ?ev] exI [of _ fs] exI [of _ ae]) auto
    moreover have "I w' = bits_of (A(fd := watch_less msk (A fd)))"
    proof
      fix g
      show "I w' g = bits_of (A(fd := watch_less msk (A fd))) g"
        using I R(5) fd(3,4) by (auto simp: bits_of_def watch_less_def view_def)
    qed
    ultimately show ?thesis using j(1) w R by auto
  qed
qed

text \<open>A descriptor from \<open>k\<close> on is watched when the highest used one is not below \<open>k\<close>.\<close>

lemma used_above:
  assumes l: "table_ok l" and k: "0 \<le> k"
  shows "(\<exists>fd\<ge>k. watch l fd \<noteq> None) \<longleftrightarrow> k \<le> maxfd l"
proof -
  obtain ev where T: "events l = Some ev" "int (length ev) = setsize l" "maxfd l < setsize l"
    "0 \<le> maxfd l \<Longrightarrow> fe_mask (ev ! nat (maxfd l)) \<noteq> 0" "\<And>i. i < length ev \<Longrightarrow> maxfd l < int i \<Longrightarrow> fe_mask (ev ! i) = 0"
    "\<And>fd. watch l fd = (if 0 \<le> fd \<and> fd < int (length ev) then view (ev ! nat fd) else None)"
    using table_okD [OF l] by metis
  show ?thesis
  proof
    assume "\<exists>fd\<ge>k. watch l fd \<noteq> None"
    then obtain fd where fd: "k \<le> fd" "watch l fd \<noteq> None" by blast
    then have "0 \<le> fd" "fd < int (length ev)" "fe_mask (ev ! nat fd) \<noteq> 0" using watch_used [OF T(1)] by blast+
    then have "\<not> maxfd l < fd" using T(5) [of "nat fd"] by (auto simp: nat_less_iff)
    then show "k \<le> maxfd l" using fd(1) by linarith
  next
    assume "k \<le> maxfd l"
    then have "watch l (maxfd l) \<noteq> None" using T(2,3,4,6) k by auto
    then show "\<exists>fd\<ge>k. watch l fd \<noteq> None" using \<open>k \<le> maxfd l\<close> by blast
  qed
qed

lemma resize_ok:
  assumes rel: "files_ok e I (l, w, rs) (n, A, rs)" and k: "0 \<le> k"
    and zr: "realloc_ok zra" "realloc_ok zre" "realloc_ok zrf"
  shows "\<exists>r l'. aeResizeSetSize zra zre zrf l k = Inr (r, l')
    \<and> (if k \<noteq> n \<and> (\<exists>fd\<ge>k. A fd \<noteq> None) then r = AE_ERR \<and> files_ok e I (l', w, rs) (n, A, rs)
       else r = AE_OK \<and> files_ok e I (l', w, rs) (k, A, rs))"
proof -
  have R: "table_ok l" "epfd (apidata l) = e" "setsize l = n" "A = watch l" "I w = bits_of A" using rel by simp_all
  obtain ev fs ae where T: "events l = Some ev" "fired l = Some fs" "api_events (apidata l) = Some ae"
    "int (length ev) = setsize l" "length fs = length ev" "length ae = length ev" "- 1 \<le> maxfd l" "maxfd l < setsize l"
    "0 \<le> maxfd l \<Longrightarrow> fe_mask (ev ! nat (maxfd l)) \<noteq> 0" "\<And>i. i < length ev \<Longrightarrow> maxfd l < int i \<Longrightarrow> fe_mask (ev ! i) = 0"
    "\<And>fd. watch l fd = (if 0 \<le> fd \<and> fd < int (length ev) then view (ev ! nat fd) else None)"
    using table_okD [OF R(1)] by metis
  have used: "(\<exists>fd\<ge>k. A fd \<noteq> None) \<longleftrightarrow> k \<le> maxfd l" using used_above [OF R(1) k] R(4) by simp
  show ?thesis
  proof (cases "k = n \<or> k \<le> maxfd l")
    case True
    then show ?thesis using rel used by (auto simp: aeResizeSetSize_def)
  next
    case False
    obtain ev1 where ev1: "zre (Some ev) k = Some ev1" "length ev1 = nat k"
        "take (min (length ev) (nat k)) ev1 = take (min (length ev) (nat k)) ev"
      using zr(2) k by (auto simp: realloc_ok_def)
    obtain fs1 ae1 where fs1: "zrf (Some fs) k = Some fs1" "length fs1 = nat k" "zra (Some ae) k = Some ae1" "length ae1 = nat k"
      using zr(1,3) k unfolding realloc_ok_def by metis
    obtain ev2 where ev2: "clear_masks (nat (k - (maxfd l + 1))) (maxfd l + 1) (Some ev1) = Inr (Some ev2)" "length ev2 = nat k"
        "\<forall>j<nat k. ev2 ! j = (if maxfd l + 1 \<le> int j \<and> int j < k then (ev1 ! j)\<lparr>fe_mask := 0\<rparr> else ev1 ! j)"
      using clear_masks_ok [of "maxfd l + 1" "nat (k - (maxfd l + 1))" ev1] ev1(2) T(7) False k by auto
    have old: "ev2 ! j = ev ! j" if "int j \<le> maxfd l" for j
    proof -
      have j: "j < min (length ev) (nat k)" using that False T(4,8) by auto
      then have "ev1 ! j = ev ! j" using ev1(3) by (metis nth_take)
      then show ?thesis using ev2(3) that False j by auto
    qed
    have new: "fe_mask (ev2 ! j) = 0" if "maxfd l < int j" "j < nat k" for j using ev2(3) that by auto
    let ?l = "l\<lparr>apidata := (apidata l)\<lparr>api_events := Some ae1\<rparr>, events := Some ev2, reallocs := reallocs l + 1, fired := Some fs1, setsize := k\<rparr>"
    have run: "aeResizeSetSize zra zre zrf l k = Inr (AE_OK, ?l)"
      using False R(3) T(1-3) ev1(1) fs1 ev2(1) by (simp add: aeResizeSetSize_def aeApiResize_def)
    have "table_ok ?l"
      unfolding table_ok_def using T(7,9) False k ev2(2) fs1 new old [of "nat (maxfd l)"]
      by (intro exI [of _ ev2] exI [of _ fs1] exI [of _ ae1]) auto
    moreover have "watch ?l = watch l"
    proof
      fix g
      have "watch ?l g = (if 0 \<le> g \<and> g < k then view (ev2 ! nat g) else None)" using ev2(2) k by (simp add: watch_def)
      moreover have "view (ev2 ! nat g) = None" if "maxfd l < g" "0 \<le> g" "g < k" using new [of "nat g"] that by simp
      moreover have "watch l g = None" if "maxfd l < g"
        using T(10) [of "nat g"] T(11) [of g] that by (simp add: nat_less_iff)
      ultimately show "watch ?l g = watch l g"
        using T(4,8,11) old [of "nat g"] False by (cases "maxfd l < g") auto
    qed
    ultimately show ?thesis using run R used False by auto
  qed
qed

lemma file_sim:
  assumes "epoll_kernel os e V I" "realloc_ok zra" "realloc_ok zre" "realloc_ok zrf"
    and "files_ok e I s a" "file_step V c a = Some a'"
  shows "\<exists>s'. file_exec os zra zre zrf c s = Inr s' \<and> files_ok e I s' a'"
proof -
  obtain l w rs n A where s: "s = (l, w, rs)" "a = (n, A, rs)" using assms(5) by (cases s; cases a) auto
  show ?thesis
  proof (cases c)
    case (FCreate fd msk pr data)
    then have pre: "0 \<le> fd" "msk \<noteq> 0" using assms(6) s by (auto split: if_splits)
    show ?thesis using create_file_ok [OF assms(5) [unfolded s] assms(1) pre, of pr data] assms(6) s FCreate pre
      by (fastforce split: if_splits)
  next
    case (FDelete fd msk)
    then have "0 \<le> fd" using assms(6) s by (auto split: if_splits)
    then show ?thesis using delete_file_ok [OF assms(5) [unfolded s] assms(1), of fd msk] assms(6) s FDelete by auto
  next
    case (FResize k)
    then have "0 \<le> k" using assms(6) s by (auto split: if_splits)
    then show ?thesis using resize_ok [OF assms(5) [unfolded s], of k] assms(2-4,6) s FResize
      by (fastforce split: if_splits)
  qed
qed

section \<open>Properties\<close>

text \<open>C7. The event table refines a map from descriptors to the watched mask, handlers and client
  data. On a well-formed loop whose kernel interest set agrees with the table, every run of
  creations, deletions and resizings that keeps the contract ends without a fault; the table is
  well formed again, maxfd is the highest descriptor in use, the interest set again agrees, and
  map and return codes are those of the specification. A creation outside the table or for a
  descriptor epoll refuses, and a resize below a used descriptor, return AE_ERR and change nothing.\<close>

theorem ae_file_events_refine:
  assumes "epoll_kernel os e V I" and "realloc_ok zra" "realloc_ok zre" "realloc_ok zrf"
    and "files_ok e I s a" and "steps (file_step V) cs a = Some a'"
  shows "\<exists>s'. runE (file_exec os zra zre zrf) cs s = Inr s' \<and> files_ok e I s' a'"
proof -
  have "simulation (file_exec os zra zre zrf) (file_step V) (files_ok e I)"
    by (rule simulation.intro) (rule file_sim [OF assms(1-4)])
  from simulation.run [OF this, of s a cs a'] show ?thesis using assms(5,6) by blast
qed

section \<open>Instances\<close>

text \<open>An epoll instance as its interest set; nothing else happens in this world.\<close>

fun demo_ctl :: "int \<Rightarrow> epoll_op \<Rightarrow> int \<Rightarrow> u32 \<Rightarrow> (int \<Rightarrow> u32 option) \<Rightarrow> int \<times> (int \<Rightarrow> u32 option)" where
  "demo_ctl e EPOLL_CTL_ADD fd b I = (if I fd = None \<and> 0 \<le> fd then (0, I(fd := Some b)) else (- 1, I))"
| "demo_ctl e EPOLL_CTL_MOD fd b I = (if I fd \<noteq> None then (0, I(fd := Some b)) else (- 1, I))"
| "demo_ctl e EPOLL_CTL_DEL fd b I = (if I fd \<noteq> None then (0, I(fd := None)) else (- 1, I))"

definition demo_os :: "(unit, unit, int \<Rightarrow> u32 option) os" where
  "demo_os = \<lparr>os_time = (\<lambda>w. (0, w)), os_gettimeofday = (\<lambda>w. ((0, 0), w)), os_epoll_create = (\<lambda>w. (3, w)),
     os_epoll_ctl = demo_ctl, os_epoll_wait = (\<lambda>e evs n t w. ((0, evs), w)), os_poll = (\<lambda>fd b t w. ((0, 0), w)),
     call_time = (\<lambda>p l i c w. Inr (AE_NOMORE, l, w)), call_file = (\<lambda>p l fd c m w. Inr (l, w)),
     call_final = (\<lambda>p l c w. Inr (l, w)), call_before = (\<lambda>p l w. Inr (l, w))\<rparr>"

lemma demo_kernel: "epoll_kernel demo_os e {0..} (\<lambda>w. w)"
  unfolding epoll_kernel_def
proof (intro allI impI)
  fix op fd b r and w w' :: "int \<Rightarrow> u32 option"
  assume "os_epoll_ctl demo_os e op fd b w = (r, w')"
  then show "if if op = EPOLL_CTL_ADD then w fd = None \<and> fd \<in> {0..} else w fd \<noteq> None
      then r \<noteq> - 1 \<and> w' = w(fd := if op = EPOLL_CTL_DEL then None else Some b) else r = - 1 \<and> w' = w"
    by (cases op) (auto simp: demo_os_def split: if_splits)
qed

definition demo_realloc :: "'a \<Rightarrow> 'a list option \<Rightarrow> int \<Rightarrow> 'a list option" where
  "demo_realloc x p n = (case p of None \<Rightarrow> None | Some xs \<Rightarrow> Some (take (nat n) (xs @ replicate (nat n) x)))"

lemma demo_realloc_ok: "realloc_ok (demo_realloc x)"
  by (auto simp: realloc_ok_def demo_realloc_def min_def)

definition no_file :: "(unit, unit) aeFileEvent" where
  "no_file = \<lparr>fe_mask = 0, rfileProc = (), wfileProc = (), clientData = ()\<rparr>"

definition demo_loop :: "(unit, unit) aeEventLoop" where
  "demo_loop = \<lparr>maxfd = - 1, setsize = 2, timeEventNextId = 0, lastTime = 0, events = Some [no_file, no_file],
     fired = Some (replicate 2 \<lparr>fired_fd = 0, fired_mask = 0\<rparr>), timeEventHead = 0, stop = False,
     apidata = \<lparr>epfd = 3, api_events = Some [(0, 0), (0, 0)]\<rparr>, beforesleep = None, latestTimeEvt = 0, tevs = Map.empty, reallocs = 0\<rparr>"

lemma demo_loop_ok: "files_ok 3 (\<lambda>w. w) (demo_loop, \<lambda>_. None, []) (2, \<lambda>_. None, [])"
proof -
  have "table_ok demo_loop"
    by (simp add: table_ok_def demo_loop_def no_file_def less_Suc_eq)
  moreover have "watch demo_loop fd = None" for fd
    by (cases "nat fd"; cases "nat fd - 1") (auto simp: watch_def demo_loop_def no_file_def nth_Cons')
  ultimately show ?thesis by (simp add: demo_loop_def bits_of_def fun_eq_iff)
qed

lemma ae_file_events_refine_witness:
  "\<exists>l w. runE (file_exec demo_os (demo_realloc (0, 0)) (demo_realloc no_file) (demo_realloc \<lparr>fired_fd = 0, fired_mask = 0\<rparr>))
       [FCreate 1 1 () (), FCreate 5 1 () (), FResize 1, FDelete 1 1] (demo_loop, \<lambda>_. None, [])
     = Inr (l, w, [AE_OK, AE_ERR, AE_ERR]) \<and> table_ok l \<and> w = (\<lambda>_. None)"
proof -
  let ?cs = "[FCreate 1 1 () (), FCreate 5 1 () (), FResize 1, FDelete 1 1]"
  let ?A = "\<lambda>fd. if fd = (1 :: int) then Some (1 :: s32, Some (), None :: unit option, ()) else None"
  have "file_step {0..} (FCreate 1 1 () ()) (2, \<lambda>_. None, []) = Some (2, ?A, [AE_OK])"
    by (simp add: watch_more_def AE_READABLE_def AE_WRITABLE_def fun_eq_iff)
  moreover have "file_step {0..} (FCreate 5 1 () ()) (2, ?A, [AE_OK]) = Some (2, ?A, [AE_OK, AE_ERR])" by simp
  moreover have "\<exists>fd\<ge>1. ?A fd \<noteq> None" by (rule exI [of _ 1]) simp
  then have "file_step {0..} (FResize 1) (2, ?A, [AE_OK, AE_ERR]) = Some (2, ?A, [AE_OK, AE_ERR, AE_ERR])"
    by (simp only: file_step.simps) simp
  moreover have "file_step {0..} (FDelete 1 1) (2, ?A, [AE_OK, AE_ERR, AE_ERR]) = Some (2, \<lambda>_. None, [AE_OK, AE_ERR, AE_ERR])"
    by (simp add: watch_less_def fun_eq_iff)
  ultimately have "steps (file_step {0..}) ?cs (2, \<lambda>_. None, []) = Some (2, \<lambda>_. None, [AE_OK, AE_ERR, AE_ERR])"
    by (simp only: steps.simps option.case)
  from ae_file_events_refine [OF demo_kernel demo_realloc_ok demo_realloc_ok demo_realloc_ok demo_loop_ok this]
  obtain s' where s: "runE (file_exec demo_os (demo_realloc (0, 0)) (demo_realloc no_file) (demo_realloc \<lparr>fired_fd = 0, fired_mask = 0\<rparr>))
      ?cs (demo_loop, \<lambda>_. None, []) = Inr s'" "files_ok 3 (\<lambda>w. w) s' (2, \<lambda>_. None, [AE_OK, AE_ERR, AE_ERR])"
    by blast
  obtain l w rs where "s' = (l, w, rs)" by (cases s')
  then show ?thesis using s by (auto simp: bits_of_def fun_eq_iff)
qed

end
