(* ===== verification/Event_Timers.thy ===== *)
theory Event_Timers
  imports Event_Files
begin

text \<open>
  Time events of the event loop (src/src/ae.c): the list, the pointer to the event that
  fires first, creation, deletion, giving an event a new time, and the time to sleep.
\<close>

section \<open>Time stamps\<close>

text \<open>Seconds and milliseconds, ordered as the code compares them.\<close>

datatype stamp = Stamp (secs: int) (msecs: int)

instantiation stamp :: linorder
begin

definition less_eq_stamp :: "stamp \<Rightarrow> stamp \<Rightarrow> bool" where
  "a \<le> b \<longleftrightarrow> secs a < secs b \<or> secs a = secs b \<and> msecs a \<le> msecs b"

definition less_stamp :: "stamp \<Rightarrow> stamp \<Rightarrow> bool" where
  "a < b \<longleftrightarrow> secs a < secs b \<or> secs a = secs b \<and> msecs a < msecs b"

instance
  by standard (auto simp: less_eq_stamp_def less_stamp_def stamp.expand)

end

definition stamp_of :: "('p, 'c) aeTimeEvent \<Rightarrow> stamp" where
  "stamp_of t = Stamp (when_sec t) (when_ms t)"

definition millis :: "stamp \<Rightarrow> int" where
  "millis a = 1000 * secs a + msecs a"

lemma due_stamp: "due t now \<longleftrightarrow> stamp_of t \<le> Stamp (fst now) (snd now)"
  by (auto simp: due_def stamp_of_def less_eq_stamp_def)

lemma sdiv_1000: "0 \<le> (us :: int) \<Longrightarrow> us sdiv 1000 = us div 1000"
  by (simp add: signed_divide_int_def sgn_if)

lemma add_millis:
  assumes g: "os_gettimeofday os w = ((s, us), w')" and us: "0 \<le> us" "us < 1000000"
  obtains sec m where "aeAddMillisecondsToNow os ms w = ((sec, m), w')"
    "millis (Stamp sec m) = 1000 * s + us div 1000 + ms" "m < 1000" "0 \<le> ms \<Longrightarrow> 0 \<le> m"
proof -
  have d: "1000 * (ms sdiv 1000) + ms smod 1000 = ms"
  proof (cases "0 \<le> ms")
    case False
    then have "ms sdiv 1000 = - ((- ms) div 1000)" "ms smod 1000 = - ((- ms) mod 1000)"
      by (auto simp: signed_modulo_int_def signed_divide_int_def sgn_if)
    then show ?thesis using mult_div_mod_eq [of 1000 "- ms"] by linarith
  qed (auto simp: signed_modulo_int_def signed_divide_int_def sgn_if)
  have m: "ms smod 1000 < 1000" "0 \<le> ms \<Longrightarrow> 0 \<le> ms smod 1000"
    using smod_int_range [of 1000 ms] smod_int_compares [of ms 1000] by auto
  have u: "0 \<le> us div 1000" "us div 1000 < 1000" using us by auto
  show thesis
  proof (cases "us div 1000 + ms smod 1000 \<ge> 1000")
    case True
    then show thesis
      using that [of "s + ms sdiv 1000 + 1" "us div 1000 + ms smod 1000 - 1000"] d m u
      by (simp add: aeAddMillisecondsToNow_def aeGetTime_def g sdiv_1000 us millis_def)
  next
    case False
    then show thesis
      using that [of "s + ms sdiv 1000" "us div 1000 + ms smod 1000"] d m u
      by (simp add: aeAddMillisecondsToNow_def aeGetTime_def g sdiv_1000 us millis_def)
  qed
qed

section \<open>The list of time events\<close>

fun tchain :: "('p, 'c) aeEventLoop \<Rightarrow> taddr \<Rightarrow> taddr list \<Rightarrow> bool" where
  "tchain l p [] \<longleftrightarrow> p = 0"
| "tchain l p (q # qs) \<longleftrightarrow> p = q \<and> q \<noteq> 0 \<and> tevs l q \<noteq> None \<and> tchain l (te_next (the (tevs l q))) qs"

abbreviation evt :: "('p, 'c) aeEventLoop \<Rightarrow> taddr \<Rightarrow> ('p, 'c) aeTimeEvent" where
  "evt l p \<equiv> the (tevs l p)"

text \<open>\<open>ps\<close> are the events from the head on; the ids fall, as creation adds at the head.\<close>

definition timers :: "('p, 'c) aeEventLoop \<Rightarrow> taddr list \<Rightarrow> bool" where
  "timers l ps \<longleftrightarrow> tchain l (timeEventHead l) ps \<and> distinct ps
     \<and> sorted_wrt (\<lambda>p q. te_id (evt l q) < te_id (evt l p)) ps \<and> (\<forall>p\<in>set ps. te_id (evt l p) < timeEventNextId l)"

text \<open>\<open>latestTimeEvt\<close> is an event that fires first.\<close>

definition nearest_ok :: "('p, 'c) aeEventLoop \<Rightarrow> taddr list \<Rightarrow> bool" where
  "nearest_ok l ps \<longleftrightarrow> (if ps = [] then latestTimeEvt l = 0
     else latestTimeEvt l \<in> set ps \<and> (\<forall>q\<in>set ps. stamp_of (evt l (latestTimeEvt l)) \<le> stamp_of (evt l q)))"

lemma tchain_cong: "\<forall>q\<in>set ps. tevs l' q = tevs l q \<Longrightarrow> tchain l' p ps = tchain l p ps"
  by (induction ps arbitrary: p) auto

lemma tchain_tev: "tchain l p ps \<Longrightarrow> q \<in> set ps \<Longrightarrow> tev l q = Inr (evt l q) \<and> q \<noteq> 0 \<and> tevs l q \<noteq> None"
  by (induction ps arbitrary: p) (auto simp: tev_def)

lemma tchain_append: "tchain l p (ps @ qs) \<Longrightarrow> ps \<noteq> [] \<Longrightarrow> tchain l (te_next (evt l (last ps))) qs"
  by (induction ps arbitrary: p) auto

lemma tchain_zero: "tchain l p ps \<Longrightarrow> p = 0 \<longleftrightarrow> ps = []"
  by (cases ps) auto

lemma tevs_upd [simp]: "tevs (set_tev l p t) = (tevs l)(p \<mapsto> t)" "timeEventHead (set_tev l p t) = timeEventHead l"
  "latestTimeEvt (set_tev l p t) = latestTimeEvt l" "timeEventNextId (set_tev l p t) = timeEventNextId l"
  by (simp_all add: set_tev_def)

section \<open>The event that fires first\<close>

lemma nearest_loop_ok:
  "tchain l p ps \<Longrightarrow> length ps < fuel \<Longrightarrow> (near \<noteq> 0 \<Longrightarrow> tev l near = Inr (evt l near)) \<Longrightarrow>
   \<exists>q. nearest_loop fuel l p near = Inr q \<and> (q = near \<or> q \<in> set ps)
     \<and> (near \<noteq> 0 \<longrightarrow> stamp_of (evt l q) \<le> stamp_of (evt l near))
     \<and> (\<forall>r\<in>set ps. q \<noteq> 0 \<and> stamp_of (evt l q) \<le> stamp_of (evt l r))"
proof (induction ps arbitrary: p near fuel)
  case Nil
  then show ?case by (cases fuel) auto
next
  case (Cons r ps)
  obtain f where f: "fuel = Suc f" "length ps < f" using Cons.prems(2) by (cases fuel) auto
  have r: "p = r" "r \<noteq> 0" "tev l r = Inr (evt l r)" "tchain l (te_next (evt l r)) ps"
    using Cons.prems(1) tchain_tev [OF Cons.prems(1), of r] by auto
  let ?c = "near = 0 \<or> stamp_of (evt l r) < stamp_of (evt l near)"
  have test: "(if near = 0 then Inr True else bindE (tev l near) (\<lambda>a. Inr (when_sec (evt l r) < when_sec a
      \<or> when_sec (evt l r) = when_sec a \<and> when_ms (evt l r) < when_ms a))) = Inr ?c"
    using Cons.prems(3) by (auto simp: stamp_of_def less_stamp_def)
  define near' where "near' = (if ?c then r else near)"
  have n: "near' \<noteq> 0" "tev l near' = Inr (evt l near')" using r(2,3) Cons.prems(3) by (auto simp: near'_def)
  then obtain q where q: "nearest_loop f l (te_next (evt l r)) near' = Inr q" "q = near' \<or> q \<in> set ps"
      "stamp_of (evt l q) \<le> stamp_of (evt l near')" "\<forall>r\<in>set ps. q \<noteq> 0 \<and> stamp_of (evt l q) \<le> stamp_of (evt l r)"
    using Cons.IH [OF r(4) f(2), of near'] by blast
  have "nearest_loop fuel l p near = Inr q"
    using f(1) r(1-3) test q(1) by (simp add: near'_def)
  moreover have "q \<noteq> 0" using q(2,4) n(1) by auto
  moreover have "stamp_of (evt l near') \<le> stamp_of (evt l r)" "near \<noteq> 0 \<longrightarrow> stamp_of (evt l near') \<le> stamp_of (evt l near)"
    by (auto simp: near'_def)
  moreover have "q = near \<or> q \<in> set (r # ps)" using q(2) by (auto simp: near'_def split: if_splits)
  ultimately show ?case using q(3,4) by (intro exI [of _ q]) (auto intro: order_trans)
qed

lemma find_latest_ok:
  assumes "tchain l (timeEventHead l) ps" "length ps < fuel"
  obtains q where "findLatestTimeEvt fuel l = Inr (l\<lparr>latestTimeEvt := q\<rparr>)" "nearest_ok (l\<lparr>latestTimeEvt := q\<rparr>) ps"
proof (cases ps)
  case Nil
  then show thesis using that [of 0] assms(1) by (simp add: findLatestTimeEvt_def nearest_ok_def)
next
  case (Cons p qs)
  then have "timeEventHead l \<noteq> 0" using assms(1) by auto
  moreover obtain q where "nearest_loop fuel l (timeEventHead l) 0 = Inr q" "q = 0 \<or> q \<in> set ps"
      "\<forall>r\<in>set ps. q \<noteq> 0 \<and> stamp_of (evt l q) \<le> stamp_of (evt l r)"
    using nearest_loop_ok [OF assms, of 0] by auto
  ultimately show thesis using that [of q] Cons by (auto simp: findLatestTimeEvt_def nearest_ok_def)
qed

lemma update_latest_eq:
  assumes "latestTimeEvt l \<noteq> 0 \<Longrightarrow> tev l (latestTimeEvt l) = Inr (evt l (latestTimeEvt l))" "tev l p = Inr (evt l p)"
  shows "updateLatestTimeEvt l p = Inr (l\<lparr>latestTimeEvt :=
    if latestTimeEvt l = 0 \<or> stamp_of (evt l p) < stamp_of (evt l (latestTimeEvt l)) then p else latestTimeEvt l\<rparr>)"
  using assms by (auto simp: updateLatestTimeEvt_def stamp_of_def less_stamp_def)

text \<open>Everything of a time event but the link.\<close>

definition body :: "('p, 'c) aeTimeEvent \<Rightarrow> ('p, 'c) aeTimeEvent" where
  "body t = t\<lparr>te_next := 0\<rparr>"

lemma body_next [simp]: "body (t\<lparr>te_next := n\<rparr>) = body t"
  by (simp add: body_def)

lemma bodyD: "body a = body b \<Longrightarrow> te_id a = te_id b \<and> stamp_of a = stamp_of b \<and> timeProc a = timeProc b
    \<and> finalizerProc a = finalizerProc b \<and> te_clientData a = te_clientData b \<and> due a = due b"
  unfolding body_def stamp_of_def due_def fun_eq_iff
  by (metis aeTimeEvent.select_convs(1-6) aeTimeEvent.surjective aeTimeEvent.update_convs(7))

section \<open>Creation\<close>

lemma timers_cong:
  assumes "timers l ps" "tchain l' (timeEventHead l') ps" "\<And>p. p \<in> set ps \<Longrightarrow> te_id (evt l' p) = te_id (evt l p)"
    and "timeEventNextId l \<le> timeEventNextId l'"
  shows "timers l' ps"
proof -
  have "sorted_wrt (\<lambda>p q. te_id (evt l' q) < te_id (evt l' p)) ps"
    by (rule sorted_wrt_mono_rel [of ps "\<lambda>p q. te_id (evt l q) < te_id (evt l p)"])
      (use assms(1,3) in \<open>auto simp: timers_def\<close>)
  then show ?thesis using assms by (fastforce simp: timers_def)
qed

lemma timers_new:
  assumes ok: "timers l ps" and mem: "mem \<noteq> 0" "tevs l mem = None"
    and l': "timeEventHead l' = mem" "tevs l' = (tevs l)(mem \<mapsto> t)" "timeEventNextId l' = timeEventNextId l + 1"
    and t: "te_next t = timeEventHead l" "te_id t = timeEventNextId l"
  shows "timers l' (mem # ps)"
proof -
  have c: "tchain l (timeEventHead l) ps" using ok by (simp add: timers_def)
  have out: "mem \<notin> set ps" using tchain_tev [OF c, of mem] mem(2) by blast
  have "tchain l' (timeEventHead l) ps" using c tchain_cong [of ps l' l] out l'(2) by auto
  moreover have "sorted_wrt (\<lambda>p q. te_id (evt l' q) < te_id (evt l' p)) ps"
    by (rule sorted_wrt_mono_rel [of ps "\<lambda>p q. te_id (evt l q) < te_id (evt l p)"])
      (use ok l'(2) out in \<open>auto simp: timers_def\<close>)
  ultimately show ?thesis using ok mem(1) l' t out by (auto simp: timers_def)
qed

text \<open>The part of the loop that holds the file events.\<close>

definition file_part :: "('p, 'c) aeEventLoop \<Rightarrow> int \<times> int \<times> ('p, 'c) aeFileEvent list option \<times> aeFiredEvent list option \<times> aeApiState" where
  "file_part l = (maxfd l, setsize l, events l, fired l, apidata l)"

lemma create_run:
  assumes ok: "timers l ps" and lat: "latestTimeEvt l \<noteq> 0 \<Longrightarrow> latestTimeEvt l \<in> set ps" and mem: "mem \<noteq> 0" "tevs l mem = None"
    and g: "os_gettimeofday os w = ((s, us), w')" and us: "0 \<le> us" "us < 1000000"
  obtains l' sec m where "aeCreateTimeEvent os mem l ms pr data final w = Inr (timeEventNextId l, l', w')" "timers l' (mem # ps)"
    "tevs l' = (tevs l)(mem \<mapsto> \<lparr>te_id = timeEventNextId l, when_sec = sec, when_ms = m, timeProc = pr, finalizerProc = final,
      te_clientData = data, te_next = timeEventHead l\<rparr>)"
    "millis (Stamp sec m) = 1000 * s + us div 1000 + ms" "m < 1000" "0 \<le> ms \<longrightarrow> 0 \<le> m"
    "latestTimeEvt l' = (if latestTimeEvt l = 0 \<or> Stamp sec m < stamp_of (evt l (latestTimeEvt l)) then mem else latestTimeEvt l)"
    "timeEventNextId l' = timeEventNextId l + 1" "lastTime l' = lastTime l" "file_part l' = file_part l"
proof -
  obtain sec m where a: "aeAddMillisecondsToNow os ms w = ((sec, m), w')"
      "millis (Stamp sec m) = 1000 * s + us div 1000 + ms" "m < 1000" "0 \<le> ms \<longrightarrow> 0 \<le> m"
    by (rule add_millis [OF g us, of ms]) blast
  let ?t = "\<lparr>te_id = timeEventNextId l, when_sec = sec, when_ms = m, timeProc = pr, finalizerProc = final,
      te_clientData = data, te_next = timeEventHead l\<rparr>"
  let ?l = "set_tev (l\<lparr>timeEventNextId := timeEventNextId l + 1\<rparr>) mem ?t\<lparr>timeEventHead := mem\<rparr>"
  have c: "tchain l (timeEventHead l) ps" using ok by (simp add: timers_def)
  have out: "mem \<notin> set ps" using tchain_tev [OF c, of mem] mem(2) by blast
  have ch: "tchain ?l (timeEventHead l) ps" using c tchain_cong [of ps ?l l] out by auto
  have t1: "tev ?l mem = Inr (evt ?l mem)" using mem(1) by (simp add: tev_def)
  have t2: "latestTimeEvt ?l \<noteq> 0 \<Longrightarrow> tev ?l (latestTimeEvt ?l) = Inr (evt ?l (latestTimeEvt ?l))"
    using tchain_tev [OF ch] lat by simp
  let ?q = "if latestTimeEvt ?l = 0 \<or> stamp_of (evt ?l mem) < stamp_of (evt ?l (latestTimeEvt ?l)) then mem else latestTimeEvt ?l"
  let ?l' = "?l\<lparr>latestTimeEvt := ?q\<rparr>"
  have run: "aeCreateTimeEvent os mem l ms pr data final w = Inr (timeEventNextId l, ?l', w')"
    using mem(1) a(1) update_latest_eq [OF t2 t1] by (simp add: aeCreateTimeEvent_def Let_def)
  have T: "timers ?l' (mem # ps)"
    by (rule timers_new [of l ps mem ?l' ?t, OF ok mem]) simp_all
  have "latestTimeEvt ?l' = (if latestTimeEvt l = 0 \<or> Stamp sec m < stamp_of (evt l (latestTimeEvt l)) then mem else latestTimeEvt l)"
    using lat out by (auto simp: stamp_of_def)
  then show thesis by (intro that [OF run T _ a(2-4)]) (simp_all add: set_tev_def file_part_def)
qed

lemma create_time_ok:
  assumes ok: "timers l ps" "nearest_ok l ps" and mem: "mem \<noteq> 0" "tevs l mem = None"
    and g: "os_gettimeofday os w = ((s, us), w')" and us: "0 \<le> us" "us < 1000000"
  shows "\<exists>l'. aeCreateTimeEvent os mem l ms pr data final w = Inr (timeEventNextId l, l', w')
    \<and> timers l' (mem # ps) \<and> nearest_ok l' (mem # ps) \<and> te_id (evt l' mem) = timeEventNextId l
    \<and> millis (stamp_of (evt l' mem)) = 1000 * s + us div 1000 + ms
    \<and> timeProc (evt l' mem) = pr \<and> finalizerProc (evt l' mem) = final \<and> te_clientData (evt l' mem) = data
    \<and> (\<forall>p\<in>set ps. evt l' p = evt l p)"
proof -
  have c: "tchain l (timeEventHead l) ps" using ok(1) by (simp add: timers_def)
  have out: "mem \<notin> set ps" using tchain_tev [OF c, of mem] mem(2) by blast
  have lat: "latestTimeEvt l \<noteq> 0 \<Longrightarrow> latestTimeEvt l \<in> set ps" "latestTimeEvt l = 0 \<longleftrightarrow> ps = []"
    using ok(2) tchain_tev [OF c] by (auto simp: nearest_ok_def split: if_splits)
  obtain l' sec m where l': "aeCreateTimeEvent os mem l ms pr data final w = Inr (timeEventNextId l, l', w')" "timers l' (mem # ps)"
    "tevs l' = (tevs l)(mem \<mapsto> \<lparr>te_id = timeEventNextId l, when_sec = sec, when_ms = m, timeProc = pr, finalizerProc = final,
      te_clientData = data, te_next = timeEventHead l\<rparr>)"
    "millis (Stamp sec m) = 1000 * s + us div 1000 + ms"
    "latestTimeEvt l' = (if latestTimeEvt l = 0 \<or> Stamp sec m < stamp_of (evt l (latestTimeEvt l)) then mem else latestTimeEvt l)"
    by (rule create_run [OF ok(1) lat(1) mem g us, of ms pr data final])
  have old: "evt l' p = evt l p" if "p \<in> set ps" for p using that out l'(3) by auto
  have "nearest_ok l' (mem # ps)"
  proof (cases "ps = []")
    case False
    then have "\<forall>q\<in>set ps. stamp_of (evt l (latestTimeEvt l)) \<le> stamp_of (evt l q)" "latestTimeEvt l \<in> set ps" "latestTimeEvt l \<noteq> 0"
      using ok(2) lat(2) by (auto simp: nearest_ok_def)
    then show ?thesis using old out l'(3,5) by (auto simp: nearest_ok_def stamp_of_def [of "_\<lparr>te_next := _\<rparr>"] stamp_of_def dest: order_trans)
  qed (use lat l'(3,5) in \<open>simp add: nearest_ok_def\<close>)
  then show ?thesis using l' old by (intro exI [of _ l']) (simp add: stamp_of_def)
qed

section \<open>Deletion\<close>

text \<open>Finalizers that leave the loop alone; \<open>fin\<close> is what they do to the world.\<close>

definition quiet_final :: "('p, 'c, 'w) os \<Rightarrow> ('p \<Rightarrow> 'c \<Rightarrow> 'w \<Rightarrow> 'w) \<Rightarrow> bool" where
  "quiet_final os fin \<longleftrightarrow> (\<forall>f l c w. call_final os f l c w = Inr (l, fin f c w))"

definition finish :: "('p \<Rightarrow> 'c \<Rightarrow> 'w \<Rightarrow> 'w) \<Rightarrow> ('p, 'c) aeTimeEvent \<Rightarrow> 'w \<Rightarrow> 'w" where
  "finish fin t w = (case finalizerProc t of None \<Rightarrow> w | Some f \<Rightarrow> fin f (te_clientData t) w)"

lemma del_walk:
  "tchain l p (us @ rs) \<Longrightarrow> \<forall>u\<in>set us. te_id (evt l u) \<noteq> i \<Longrightarrow>
   del_time_loop (length us + k) os l i p prev w =
     del_time_loop k os l i (case rs of [] \<Rightarrow> 0 | r # _ \<Rightarrow> r) (if us = [] then prev else last us) w"
proof (induction us arbitrary: p prev)
  case Nil
  then show ?case by (cases rs) auto
next
  case (Cons u us)
  have "tev l u = Inr (evt l u)" "u \<noteq> 0" using tchain_tev [OF Cons.prems(1), of u] by simp_all
  then show ?case using Cons by simp
qed

text \<open>Taking an event out of the list.\<close>

lemma tchain_unlink:
  assumes "tchain l p (us @ q # vs)" "distinct (us @ q # vs)" "us \<noteq> []"
    and "tevs l' = (tevs l)(last us \<mapsto> (evt l (last us))\<lparr>te_next := te_next (evt l q)\<rparr>)"
  shows "tchain l' p (us @ vs)"
  using assms
proof (induction us arbitrary: p)
  case (Cons u us)
  have q: "tchain l (te_next (evt l q)) vs" using tchain_append [of l p "(u # us) @ [q]" vs] Cons.prems(1) by simp
  show ?case
  proof (cases "us = []")
    case True
    have "tchain l' (te_next (evt l q)) vs = tchain l (te_next (evt l q)) vs"
      by (rule tchain_cong) (use Cons.prems(2,4) True in auto)
    then show ?thesis using Cons.prems(1,4) True q by simp
  next
    case False
    then have "u \<noteq> last us" using Cons.prems(2) last_in_set [OF False] by auto
    then have "evt l' u = evt l u" "tevs l' u \<noteq> None" using Cons.prems(1,4) False by auto
    moreover have "tchain l' (te_next (evt l u)) (us @ vs)"
      by (rule Cons.IH) (use Cons.prems False in auto)
    ultimately show ?thesis using Cons.prems(1) by simp
  qed
qed simp

text \<open>The finalizer of an event, called in \<open>w\<close>, leaves the loop alone and the world \<open>w'\<close>.\<close>

definition final_at :: "('p, 'c, 'w) os \<Rightarrow> ('p, 'c) aeTimeEvent \<Rightarrow> 'w \<Rightarrow> 'w \<Rightarrow> bool" where
  "final_at os t w w' \<longleftrightarrow> (case finalizerProc t of None \<Rightarrow> w' = w | Some f \<Rightarrow> \<forall>l. call_final os f l (te_clientData t) w = Inr (l, w'))"

lemma del_found_at:
  assumes ok: "timers l (us @ q # vs)" and fin: "final_at os (evt l q) w w1" and f: "length (us @ q # vs) + length us + 1 < fuel"
  shows "\<exists>l'. aeDeleteTimeEvent fuel os l (te_id (evt l q)) w = Inr (AE_OK, l', w1)
    \<and> timers l' (us @ vs) \<and> nearest_ok l' (us @ vs) \<and> tevs l' q = None
    \<and> (\<forall>p\<in>set (us @ vs). body (evt l' p) = body (evt l p))
    \<and> timeEventNextId l' = timeEventNextId l \<and> lastTime l' = lastTime l \<and> dom (tevs l') \<subseteq> dom (tevs l)
    \<and> file_part l' = file_part l"
proof -
  let ?i = "te_id (evt l q)"
  have c: "tchain l (timeEventHead l) (us @ q # vs)" and dist: "distinct (us @ q # vs)" using ok by (auto simp: timers_def)
  have ids: "\<forall>u\<in>set us. te_id (evt l u) \<noteq> ?i" using ok by (force simp: timers_def sorted_wrt_append)
  obtain k where k: "fuel = length us + Suc k" "length (us @ vs) < k" using f less_imp_Suc_add [of "length us" fuel] by force
  define prev where "prev = (if us = [] then 0 else last us)"
  have q: "q \<noteq> 0" "tev l q = Inr (evt l q)" using tchain_tev [OF c, of q] by simp_all
  have u: "us \<noteq> [] \<Longrightarrow> last us \<noteq> 0 \<and> tev l (last us) = Inr (evt l (last us)) \<and> tevs l (last us) \<noteq> None"
    using tchain_tev [OF c, of "last us"] by simp
  define l1 where "l1 = (if us = [] then l\<lparr>timeEventHead := te_next (evt l q)\<rparr>
      else set_tev l (last us) ((evt l (last us))\<lparr>te_next := te_next (evt l q)\<rparr>))"
  have cut: "(if prev = 0 then Inr (l\<lparr>timeEventHead := te_next (evt l q)\<rparr>)
      else bindE (tev l prev) (\<lambda>p. Inr (set_tev l prev (p\<lparr>te_next := te_next (evt l q)\<rparr>)))) = Inr l1"
    using u by (auto simp: prev_def l1_def)
  have c1: "tchain l1 (timeEventHead l1) (us @ vs)"
  proof (cases "us = []")
    case True
    then show ?thesis using c tchain_cong [of vs l1 l] by (simp add: l1_def)
  next
    case False
    then show ?thesis using tchain_unlink [OF c dist False, of l1] by (simp add: l1_def)
  qed
  have lq: "tevs l1 q = tevs l q" using dist by (auto simp: l1_def)
  have b1: "body (evt l1 p) = body (evt l p)" for p by (simp add: l1_def)
  have le: "length (us @ vs) < k" by (rule k(2))
  obtain n where n: "findLatestTimeEvt k l1 = Inr (l1\<lparr>latestTimeEvt := n\<rparr>)" "nearest_ok (l1\<lparr>latestTimeEvt := n\<rparr>) (us @ vs)"
    by (rule find_latest_ok [OF c1 le])
  let ?l = "l1\<lparr>latestTimeEvt := n, tevs := (tevs l1)(q := None)\<rparr>"
  have "(case finalizerProc (evt l q) of None \<Rightarrow> Inr (l1, w)
      | Some f \<Rightarrow> call_final os f l1 (te_clientData (evt l q)) w) = Inr (l1, w1)"
    using fin by (simp add: final_at_def split: option.splits)
  moreover have "tevs l1 q \<noteq> None" using lq tchain_tev [OF c, of q] by simp
  ultimately have found: "del_time_loop (Suc k) os l ?i q prev w = Inr (AE_OK, ?l, w1)"
    using q cut n(1) by simp
  have "del_time_loop (length us + Suc k) os l ?i (timeEventHead l) 0 w = del_time_loop (Suc k) os l ?i q prev w"
    using del_walk [OF c ids, of "Suc k" os 0 w] unfolding prev_def by (simp only: list.case)
  then have run: "aeDeleteTimeEvent fuel os l ?i w = Inr (AE_OK, ?l, w1)"
    unfolding aeDeleteTimeEvent_def k(1) found .
  have out: "p \<noteq> q" if "p \<in> set (us @ vs)" for p using dist that by auto
  have bl: "body (evt ?l p) = body (evt l p)" if "p \<in> set (us @ vs)" for p using out [OF that] b1 by simp
  have ids': "te_id (evt ?l p) = te_id (evt l p)" if "p \<in> set (us @ vs)" for p using bodyD [OF bl [OF that]] by blast
  have nx: "timeEventNextId ?l = timeEventNextId l" "lastTime ?l = lastTime l" "file_part ?l = file_part l"
    by (simp_all add: l1_def set_tev_def file_part_def)
  have "tchain ?l (timeEventHead ?l) (us @ vs)" using c1 tchain_cong [of "us @ vs" ?l l1] out by auto
  moreover have "sorted_wrt (\<lambda>p r. te_id (evt l r) < te_id (evt l p)) (us @ vs)"
    using ok by (auto simp: timers_def sorted_wrt_append)
  then have "sorted_wrt (\<lambda>p r. te_id (evt ?l r) < te_id (evt ?l p)) (us @ vs)"
    by (rule sorted_wrt_mono_rel [rotated]) (simp only: ids')
  moreover have "\<forall>p\<in>set (us @ vs). te_id (evt ?l p) < timeEventNextId ?l" using ok ids' nx(1) by (auto simp: timers_def)
  ultimately have "timers ?l (us @ vs)" using dist unfolding timers_def by auto
  moreover have "nearest_ok ?l (us @ vs)"
    using n(2) out unfolding nearest_ok_def by (auto split: if_splits)
  moreover have "tevs ?l q = None" by simp
  moreover have "dom (tevs ?l) \<subseteq> dom (tevs l)" using u by (auto simp: l1_def split: if_splits)
  ultimately show ?thesis using run bl nx by blast
qed

lemma del_found:
  assumes "timers l (us @ q # vs)" and fin: "quiet_final os fin" and "length (us @ q # vs) + length us + 1 < fuel"
  shows "\<exists>l'. aeDeleteTimeEvent fuel os l (te_id (evt l q)) w = Inr (AE_OK, l', finish fin (evt l q) w)
    \<and> timers l' (us @ vs) \<and> nearest_ok l' (us @ vs) \<and> tevs l' q = None
    \<and> (\<forall>p\<in>set (us @ vs). body (evt l' p) = body (evt l p))"
proof -
  have "final_at os (evt l q) w (finish fin (evt l q) w)"
    using fin by (simp add: final_at_def quiet_final_def finish_def split: option.split)
  from del_found_at [OF assms(1) this assms(3)] show ?thesis by blast
qed

lemma del_missing:
  assumes ok: "timers l ps" and i: "\<forall>p\<in>set ps. te_id (evt l p) \<noteq> i" and f: "length ps < fuel"
  shows "aeDeleteTimeEvent fuel os l i w = Inr (AE_ERR, l, w)"
proof -
  obtain k where "fuel = length ps + Suc k" using f less_imp_Suc_add [of "length ps" fuel] by auto
  moreover have "tchain l (timeEventHead l) (ps @ [])" using ok by (simp add: timers_def)
  ultimately show ?thesis using del_walk [of l "timeEventHead l" ps "[]" i "Suc k" os 0 w] i
    by (simp add: aeDeleteTimeEvent_def)
qed

section \<open>Rescheduling and sleeping\<close>

lemma reschedule_ok:
  assumes ok: "timers l ps" "nearest_ok l ps" "ps \<noteq> []" and p: "p = latestTimeEvt l"
    and call: "call_time os (timeProc (evt l p)) l (te_id (evt l p)) (te_clientData (evt l p)) w = Inr (r, l, w1)"
      "r \<noteq> AE_NOMORE"
    and g: "os_gettimeofday os w1 = ((s, us), w2)" and us: "0 \<le> us" "us < 1000000"
  obtains l' where "run_timer fuel os l p (evt l p) w = Inr (l', w2)" "timers l' ps" "latestTimeEvt l' = p"
    "millis (stamp_of (evt l' p)) = 1000 * s + us div 1000 + sint r" "\<And>q. q \<noteq> p \<Longrightarrow> evt l' q = evt l q"
    "msecs (stamp_of (evt l' p)) < 1000"
proof -
  obtain sec m where a: "aeAddMillisecondsToNow os (sint r) w1 = ((sec, m), w2)"
      "millis (Stamp sec m) = 1000 * s + us div 1000 + sint r" "m < 1000"
    by (rule add_millis [OF g us])
  have c: "tchain l (timeEventHead l) ps" using ok(1) by (simp add: timers_def)
  have pin: "p \<in> set ps" using ok(2,3) p by (simp add: nearest_ok_def)
  have t: "tev l p = Inr (evt l p)" "p \<noteq> 0" "tevs l p \<noteq> None" using tchain_tev [OF c pin] by simp_all
  let ?l = "set_tev l p ((evt l p)\<lparr>when_sec := sec, when_ms := m\<rparr>)"
  have "tev ?l p = Inr (evt ?l p)" using t(2) by (simp add: tev_def)
  then have "updateLatestTimeEvt ?l p = Inr (?l\<lparr>latestTimeEvt := if latestTimeEvt ?l = 0 \<or>
      stamp_of (evt ?l p) < stamp_of (evt ?l (latestTimeEvt ?l)) then p else latestTimeEvt ?l\<rparr>)"
    using update_latest_eq [of ?l p] p by simp
  then have u: "updateLatestTimeEvt ?l p = Inr ?l" using p t(2) by simp
  have run: "run_timer fuel os l p (evt l p) w = Inr (?l, w2)"
    using call a(1) t(1) u by (simp add: run_timer_def)
  have n: "te_next (evt ?l q) = te_next (evt l q)" "te_id (evt ?l q) = te_id (evt l q)" for q by simp_all
  have "tchain ?l h xs = tchain l h xs" for h xs
    by (induction xs arbitrary: h) (use t(3) in \<open>auto simp: set_tev_def\<close>)
  then have "timers ?l ps" using timers_cong [OF ok(1), of ?l] c by simp
  then show thesis using that [of ?l] run p a(2,3) by (simp add: stamp_of_def)
qed

definition until :: "stamp \<Rightarrow> int \<Rightarrow> int \<Rightarrow> int" where
  "until a s us = millis a - (1000 * s + us div 1000)"

lemma split_1000: "0 \<le> r \<Longrightarrow> r < 1000 \<Longrightarrow> (k * 1000 + r :: int) div 1000 = k \<and> (k * 1000 + r) mod 1000 = r"
  by simp

lemma sleep_time_eq:
  fixes s us :: int
  assumes "0 \<le> msecs a" "msecs a < 1000" "0 \<le> us" "us < 1000000"
  defines "D \<equiv> until a s us"
  shows "sleep_time (secs a, msecs a) (s, us div 1000) = (if 0 \<le> D then D div 1000 else 0, (D mod 1000) * 1000)"
proof -
  have u: "0 \<le> us div 1000" "us div 1000 < 1000" using assms(3,4) by auto
  show ?thesis
  proof (cases "msecs a < us div 1000")
    case True
    have D: "D = (secs a - s - 1) * 1000 + (msecs a + 1000 - us div 1000)" by (simp add: D_def until_def millis_def)
    then have "D div 1000 = secs a - s - 1" "D mod 1000 = msecs a + 1000 - us div 1000"
      using True assms(1,2) u split_1000 [of "msecs a + 1000 - us div 1000" "secs a - s - 1"] by simp_all
    then show ?thesis using True assms(1,2) u D by (auto simp: sleep_time_def)
  next
    case False
    have D: "D = (secs a - s) * 1000 + (msecs a - us div 1000)" by (simp add: D_def until_def millis_def)
    then have "D div 1000 = secs a - s" "D mod 1000 = msecs a - us div 1000"
      using False assms(1,2) u split_1000 [of "msecs a - us div 1000" "secs a - s"] by simp_all
    then show ?thesis using False assms(1,2) u D by (auto simp: sleep_time_def)
  qed
qed

lemma timeout_word:
  "api_timeout (Some (if 0 \<le> D then D div 1000 else 0, (D mod 1000) * 1000)) = word_of_int (if 0 \<le> D then D else D mod 1000)"
proof -
  have "D div 1000 * 1000 + D mod 1000 = D" by (rule div_mult_mod_eq)
  moreover have "0 \<le> D mod 1000" "D mod 1000 < 1000" by simp_all
  ultimately show ?thesis by (simp add: api_timeout_def sdiv_1000 del: of_int_add of_int_mult)
qed

lemma timeout_left:
  fixes s us :: int
  assumes "0 \<le> msecs a" "msecs a < 1000" "0 \<le> us" "us < 1000000"
  shows "api_timeout (Some (sleep_time (secs a, msecs a) (s, us div 1000)))
    = word_of_int (if 0 \<le> until a s us then until a s us else until a s us mod 1000)"
  unfolding sleep_time_eq [OF assms] by (rule timeout_word)

lemma sint_word_range: "- (2 ^ 31) \<le> x \<Longrightarrow> x < 2 ^ 31 \<Longrightarrow> sint (word_of_int x :: s32) = x"
  unfolding sint_sbintrunc' by (simp add: signed_take_bit_int_eq_self)

section \<open>Properties\<close>

text \<open>C14. The time events are a list of ids and times, newest first, with a pointer to one that
  fires first. Creation puts a fresh id with the time now plus the given milliseconds in front,
  without memory it returns AE_ERR and only uses up the id; deletion takes exactly the event with
  the id out, runs its finalizer and frees it, for an unknown id it returns AE_ERR and changes
  nothing. Both keep the list well formed and the pointer at an event that fires first.\<close>

theorem ae_time_events:
  assumes ok: "timers l ps" "nearest_ok l ps" and g: "os_gettimeofday os w = ((s, us), w')" "0 \<le> us" "us < 1000000"
    and fin: "quiet_final os fin" and f: "2 * length ps + 2 < fuel"
  shows "(mem \<noteq> 0 \<and> tevs l mem = None \<longrightarrow> (\<exists>l'. aeCreateTimeEvent os mem l ms pr data final w = Inr (timeEventNextId l, l', w')
      \<and> timers l' (mem # ps) \<and> nearest_ok l' (mem # ps) \<and> te_id (evt l' mem) = timeEventNextId l
      \<and> millis (stamp_of (evt l' mem)) = 1000 * s + us div 1000 + ms \<and> (\<forall>p\<in>set ps. evt l' p = evt l p)))
    \<and> aeCreateTimeEvent os 0 l ms pr data final w = Inr (AE_ERR, l\<lparr>timeEventNextId := timeEventNextId l + 1\<rparr>, w)
    \<and> (\<forall>q\<in>set ps. \<exists>l'. aeDeleteTimeEvent fuel os l (te_id (evt l q)) w = Inr (AE_OK, l', finish fin (evt l q) w)
      \<and> timers l' (remove1 q ps) \<and> nearest_ok l' (remove1 q ps) \<and> tevs l' q = None
      \<and> (\<forall>p\<in>set (remove1 q ps). body (evt l' p) = body (evt l p)))
    \<and> ((\<forall>p\<in>set ps. te_id (evt l p) \<noteq> i) \<longrightarrow> aeDeleteTimeEvent fuel os l i w = Inr (AE_ERR, l, w))"
proof -
  have "\<exists>l'. aeDeleteTimeEvent fuel os l (te_id (evt l q)) w = Inr (AE_OK, l', finish fin (evt l q) w)
      \<and> timers l' (remove1 q ps) \<and> nearest_ok l' (remove1 q ps) \<and> tevs l' q = None
      \<and> (\<forall>p\<in>set (remove1 q ps). body (evt l' p) = body (evt l p))" if q: "q \<in> set ps" for q
  proof -
    obtain us vs where ps: "ps = us @ q # vs" "q \<notin> set us" using split_list_first [OF q] by blast
    then have "remove1 q ps = us @ vs" by (simp add: remove1_append)
    then show ?thesis using del_found [OF ok(1) [unfolded ps(1)] fin, of fuel w] f ps(1) by auto
  qed
  then show ?thesis
    using create_time_ok [OF ok _ _ g, of mem ms pr data final] del_missing [OF ok(1), of i fuel os w] f
    by (auto simp: aeCreateTimeEvent_def)
qed

text \<open>The pointer goes stale when the event it points at is rescheduled: updateLatestTimeEvt
  compares the event with itself and keeps it. If another event is now due earlier, the pointer no
  longer is at an event that fires first, and the loop sleeps until the later one.\<close>

theorem ae_reschedule_stale:
  assumes ok: "timers l ps" "nearest_ok l ps" and p: "p \<in> set ps" "p = aeSearchNearestTimer l" and q: "q \<in> set ps" "q \<noteq> p"
    and call: "call_time os (timeProc (evt l p)) l (te_id (evt l p)) (te_clientData (evt l p)) w = Inr (r, l, w1)"
      "r \<noteq> AE_NOMORE"
    and g: "os_gettimeofday os w1 = ((s, us), w2)" "0 \<le> us" "us < 1000000"
    and later: "millis (stamp_of (evt l q)) < 1000 * s + us div 1000 + sint r" "0 \<le> when_ms (evt l q)"
  shows "\<exists>l'. run_timer fuel os l p (evt l p) w = Inr (l', w2) \<and> timers l' ps \<and> aeSearchNearestTimer l' = p
    \<and> millis (stamp_of (evt l' p)) = 1000 * s + us div 1000 + sint r \<and> evt l' q = evt l q \<and> \<not> nearest_ok l' ps"
proof -
  have ne: "ps \<noteq> []" "p = latestTimeEvt l" using p by (auto simp: aeSearchNearestTimer_def)
  obtain l' where l': "run_timer fuel os l p (evt l p) w = Inr (l', w2)" "timers l' ps" "latestTimeEvt l' = p"
    "millis (stamp_of (evt l' p)) = 1000 * s + us div 1000 + sint r" "\<And>q. q \<noteq> p \<Longrightarrow> evt l' q = evt l q"
    "msecs (stamp_of (evt l' p)) < 1000"
    by (rule reschedule_ok [OF ok ne call g]) blast
  have "evt l' q = evt l q" using l'(5) q(2) by simp
  moreover have "\<not> stamp_of (evt l' p) \<le> stamp_of (evt l' q)"
    using l'(4,6) later \<open>evt l' q = evt l q\<close> by (auto simp: less_eq_stamp_def millis_def stamp_of_def)
  then have "\<not> nearest_ok l' ps" using q(1) ne(1) l'(3) by (auto simp: nearest_ok_def)
  ultimately show ?thesis using l' by (auto simp: aeSearchNearestTimer_def)
qed

text \<open>C37. The time to sleep: with D milliseconds left until the event the pointer is at, the loop
  waits D milliseconds if D is not negative and below 2 to the power 31. For D up to twice that
  the int timeout is negative, which epoll_wait takes as no timeout at all. For an overdue event
  only the seconds are cut off at zero, so the loop still waits D mod 1000 milliseconds.\<close>

theorem ae_sleeps_until:
  assumes t: "tev l (aeSearchNearestTimer l) = Inr t" "0 \<le> when_ms t" "when_ms t < 1000"
    and g: "os_gettimeofday os w = ((s, us), w')" "0 \<le> us" "us < 1000000"
    and fl: "flags AND AE_TIME_EVENTS \<noteq> 0" "flags AND AE_DONT_WAIT = 0"
  defines "D \<equiv> until (stamp_of t) s us"
  shows "\<exists>tv. poll_time os l flags w = Inr (Some tv, w')
    \<and> (0 \<le> D \<and> D < 2 ^ 31 \<longrightarrow> sint (api_timeout (Some tv)) = D)
    \<and> (2 ^ 31 \<le> D \<and> D < 2 ^ 32 \<longrightarrow> sint (api_timeout (Some tv)) < 0)
    \<and> (D < 0 \<longrightarrow> sint (api_timeout (Some tv)) = D mod 1000)"
proof -
  let ?tv = "(if 0 \<le> D then D div 1000 else 0, (D mod 1000) * 1000)"
  have nz: "aeSearchNearestTimer l \<noteq> 0" using t(1) by (auto simp: tev_def split: if_splits)
  have "sleep_time (when_sec t, when_ms t) (s, us div 1000) = ?tv"
    using sleep_time_eq [of "stamp_of t" us s] t(2,3) g(2,3) by (simp add: stamp_of_def D_def)
  then have run: "poll_time os l flags w = Inr (Some ?tv, w')"
    using nz t(1) fl by (simp add: poll_time_def aeGetTime_def g(1) sdiv_1000 g(2))
  have "0 \<le> D mod 1000" "D mod 1000 < 1000" by simp_all
  have out: "api_timeout (Some ?tv) = word_of_int (if 0 \<le> D then D else D mod 1000)" by (rule timeout_word)
  have neg: "sint (api_timeout (Some ?tv)) < 0" if "2 ^ 31 \<le> D" "D < 2 ^ 32"
  proof -
    have "(word_of_int D :: s32) = word_of_int (D - 2 ^ 32)" by (simp add: word_of_int_eq_iff take_bit_eq_mod)
    moreover have "- (2 ^ 31) \<le> D - 2 ^ 32" "D - 2 ^ 32 < 2 ^ 31" using that by simp_all
    ultimately have "sint (word_of_int D :: s32) = D - 2 ^ 32" using sint_word_range [of "D - 2 ^ 32"] by metis
    then show ?thesis using out that by simp
  qed
  have "sint (api_timeout (Some ?tv)) = D" if "0 \<le> D" "D < 2 ^ 31" using out that sint_word_range [of D] by simp
  moreover have "sint (api_timeout (Some ?tv)) = D mod 1000" if "D < 0"
    using out that sint_word_range [of "D mod 1000"] \<open>0 \<le> D mod 1000\<close> \<open>D mod 1000 < 1000\<close> by simp
  ultimately show ?thesis using run neg by blast
qed

text \<open>C36. aeCreateEventLoop makes a well-typed loop whatever the memory it gets holds: an event table,
  a fired table and an epoll block of the requested size, no descriptor watched, no time event. Without
  one of the blocks, or when epoll_create fails, it returns NULL.\<close>

theorem ae_create_typed:
  assumes mem: "length ev = nat n" "length fs = nat n" "length ae = nat n" "0 \<le> n"
    and t: "os_time os w = (now, w1)" "os_epoll_create os w1 = (e, w2)" and I: "I w2 = (\<lambda>_. None)"
  shows "(if e = - 1 then aeCreateEventLoop os (Some raw) (Some ev) (Some fs) True (Some ae) n w = Inr (None, w2)
      else \<exists>l. aeCreateEventLoop os (Some raw) (Some ev) (Some fs) True (Some ae) n w = Inr (Some l, w2)
        \<and> files_ok e I (l, w2, []) (n, \<lambda>_. None, []) \<and> timers l [] \<and> nearest_ok l [] \<and> lastTime l = now)
    \<and> (\<exists>w'. aeCreateEventLoop os None evs fds b aes n w = Inr (None, w'))
    \<and> (evs = None \<or> fds = None \<or> \<not> b \<or> aes = None \<longrightarrow> (\<exists>w'. aeCreateEventLoop os (Some raw) evs fds b aes n w = Inr (None, w')))"
proof -
  have "\<exists>l. aeCreateEventLoop os (Some raw) (Some ev) (Some fs) True (Some ae) n w = Inr (Some l, w2)
        \<and> files_ok e I (l, w2, []) (n, \<lambda>_. None, []) \<and> timers l [] \<and> nearest_ok l [] \<and> lastTime l = now" if e: "e \<noteq> - 1"
  proof -
    obtain ev' where c: "clear_masks (nat n) 0 (Some ev) = Inr (Some ev')" "length ev' = length ev"
        "\<forall>j<length ev. ev' ! j = (if 0 \<le> int j \<and> int j < 0 + int (nat n) then (ev ! j)\<lparr>fe_mask := 0\<rparr> else ev ! j)"
      using clear_masks_ok [of 0 "nat n" ev] mem by auto
    have z: "fe_mask (ev' ! j) = 0" if "j < length ev" for j
      using c(3) [rule_format, OF that] that mem(1,4) by (auto split: if_splits)
    let ?l = "raw\<lparr>events := Some ev', fired := Some fs, setsize := n, lastTime := now, timeEventHead := 0,
        timeEventNextId := 0, stop := False, maxfd := - 1, beforesleep := None,
        apidata := \<lparr>epfd = e, api_events = Some ae\<rparr>, latestTimeEvt := 0\<rparr>"
    have run: "aeCreateEventLoop os (Some raw) (Some ev) (Some fs) True (Some ae) n w = Inr (Some ?l, w2)"
      using t e c(1) by (simp add: aeCreateEventLoop_def aeApiCreate_def)
    have "table_ok ?l" unfolding table_ok_def using mem c(2) z by simp
    moreover have "watch ?l fd = None" for fd using z c(2) by (auto simp: watch_def nat_less_iff)
    ultimately have "files_ok e I (?l, w2, []) (n, \<lambda>_. None, [])" using I by (simp add: bits_of_def fun_eq_iff)
    then show ?thesis using run by (intro exI [of _ ?l]) (simp add: timers_def nearest_ok_def)
  qed
  moreover have "aeCreateEventLoop os (Some raw) (Some ev) (Some fs) True (Some ae) n w = Inr (None, w2)" if "e = - 1"
    using t that by (simp add: aeCreateEventLoop_def aeApiCreate_def)
  moreover have "\<exists>w'. aeCreateEventLoop os (Some raw) evs fds b aes n w = Inr (None, w')"
    if "evs = None \<or> fds = None \<or> \<not> b \<or> aes = None"
    using t that by (cases b; cases aes) (auto simp: aeCreateEventLoop_def aeApiCreate_def Let_def)
  ultimately show ?thesis by (simp add: aeCreateEventLoop_def)
qed

section \<open>Instances\<close>

definition demo_timers :: "(unit, unit) aeEventLoop" where
  "demo_timers = demo_loop\<lparr>timeEventNextId := 2, timeEventHead := 8, latestTimeEvt := 16,
     tevs := [8 \<mapsto> \<lparr>te_id = 1, when_sec = 0, when_ms = 5, timeProc = (), finalizerProc = None, te_clientData = (), te_next = 16\<rparr>,
              16 \<mapsto> \<lparr>te_id = 0, when_sec = 0, when_ms = 0, timeProc = (), finalizerProc = Some (), te_clientData = (), te_next = 0\<rparr>]\<rparr>"

lemma demo_timers_ok: "timers demo_timers [8, 16]" "nearest_ok demo_timers [8, 16]"
  by (simp_all add: timers_def nearest_ok_def demo_timers_def demo_loop_def stamp_of_def less_eq_stamp_def)

lemma demo_final: "quiet_final demo_os (\<lambda>f c w. w)"
  by (simp add: quiet_final_def demo_os_def)

lemma ae_time_events_witness:
  "\<exists>l'. aeCreateTimeEvent demo_os 24 demo_timers 1500 () () None Map.empty = Inr (2, l', Map.empty)
     \<and> timers l' [24, 8, 16] \<and> millis (stamp_of (evt l' 24)) = 1500"
proof -
  have "os_gettimeofday demo_os Map.empty = ((0, 0), Map.empty)" by (simp add: demo_os_def)
  from ae_time_events [OF demo_timers_ok this _ _ demo_final, of 7 24 1500 "()" "()" None 0]
  show ?thesis by (auto simp: demo_timers_def)
qed

lemma ae_reschedule_stale_witness:
  "\<exists>l'. run_timer 9 (demo_os\<lparr>call_time := \<lambda>p l i c w. Inr (100, l, w)\<rparr>) demo_timers 16 (evt demo_timers 16) Map.empty
      = Inr (l', Map.empty) \<and> aeSearchNearestTimer l' = 16 \<and> \<not> nearest_ok l' [8, 16]"
proof -
  let ?os = "demo_os\<lparr>call_time := \<lambda>p l i c w. Inr (100, l, w)\<rparr>"
  have c: "call_time ?os (timeProc (evt demo_timers 16)) demo_timers (te_id (evt demo_timers 16)) (te_clientData (evt demo_timers 16)) Map.empty
      = Inr (100, demo_timers, Map.empty)" "(100 :: s32) \<noteq> AE_NOMORE"
    and g: "os_gettimeofday ?os Map.empty = ((0, 0), Map.empty)" "(0::int) \<le> 0" "(0::int) < 1000000"
    by (simp_all add: demo_os_def AE_NOMORE_def)
  have "16 \<in> set [8, 16 :: taddr]" "16 = aeSearchNearestTimer demo_timers" "8 \<in> set [8, 16 :: taddr]" "(8 :: taddr) \<noteq> 16"
    and "millis (stamp_of (evt demo_timers 8)) < 1000 * 0 + 0 div 1000 + sint (100 :: s32)" "0 \<le> when_ms (evt demo_timers 8)"
    by (simp_all add: aeSearchNearestTimer_def demo_timers_def millis_def stamp_of_def)
  from ae_reschedule_stale [OF demo_timers_ok this(1-4) c g this(5,6), of 9] show ?thesis by auto
qed

text \<open>An event overdue by 10.25 seconds: the loop sleeps for 750 milliseconds.\<close>

lemma ae_sleeps_until_witness:
  "\<exists>tv. poll_time (demo_os\<lparr>os_gettimeofday := \<lambda>w. ((10, 250000), w)\<rparr>) demo_timers AE_ALL_EVENTS Map.empty
      = Inr (Some tv, Map.empty) \<and> sint (api_timeout (Some tv)) = 750"
proof -
  let ?os = "demo_os\<lparr>os_gettimeofday := \<lambda>w. ((10, 250000), w)\<rparr>"
  have t: "tev demo_timers (aeSearchNearestTimer demo_timers) = Inr (evt demo_timers 16)"
      "0 \<le> when_ms (evt demo_timers 16)" "when_ms (evt demo_timers 16) < 1000"
    and D: "until (stamp_of (evt demo_timers 16)) 10 250000 = - 10250"
    by (simp_all add: tev_def aeSearchNearestTimer_def demo_timers_def until_def millis_def stamp_of_def)
  have g: "os_gettimeofday ?os Map.empty = ((10, 250000), Map.empty)" "(0::int) \<le> 250000" "(250000::int) < 1000000" by simp_all
  have "AE_ALL_EVENTS AND AE_TIME_EVENTS \<noteq> 0" "AE_ALL_EVENTS AND AE_DONT_WAIT = 0" by (simp_all add: ae_consts)
  from ae_sleeps_until [OF t g this] show ?thesis unfolding D by auto
qed

lemma ae_create_typed_witness:
  "\<exists>l. aeCreateEventLoop demo_os (Some demo_timers) (Some [no_file\<lparr>fe_mask := 7\<rparr>]) (Some [\<lparr>fired_fd = 9, fired_mask = 9\<rparr>]) True
      (Some [(0, 0)]) 1 Map.empty = Inr (Some l, Map.empty) \<and> table_ok l \<and> timers l []"
proof -
  have "os_time demo_os Map.empty = (0, Map.empty)" "os_epoll_create demo_os Map.empty = (3, Map.empty)"
    by (simp_all add: demo_os_def)
  from ae_create_typed [OF _ _ _ _ this, of "[no_file\<lparr>fe_mask := 7\<rparr>]" 1 "[\<lparr>fired_fd = 9, fired_mask = 9\<rparr>]" "[(0, 0)]" "\<lambda>w. w" demo_timers None None False None]
  show ?thesis by auto
qed

end
