(* ===== verification/Event_Pass.thy ===== *)
theory Event_Pass
  imports Event_Timers
begin

text \<open>
  A pass over the time events, processTimeEvents of src/src/ae.c: the clock that may have been set back, the due events in
  the order of the list, their callbacks, which may add events and answer that they are to be called again, the deletion of
  the others. The clock moves while the pass runs; callbacks and finalizers are described by what they do to the part of the
  world the client sees.
\<close>

section \<open>Lists of events\<close>

text \<open>Milliseconds from 0 to 999: such stamps are ordered as their numbers of milliseconds.\<close>

definition normal :: "stamp \<Rightarrow> bool" where
  "normal a \<longleftrightarrow> 0 \<le> msecs a \<and> msecs a < 1000"

lemma normal_le: "normal a \<Longrightarrow> normal b \<Longrightarrow> a \<le> b \<longleftrightarrow> millis a \<le> millis b"
  and normal_less: "normal a \<Longrightarrow> normal b \<Longrightarrow> a < b \<longleftrightarrow> millis a < millis b"
  by (auto simp: normal_def millis_def less_eq_stamp_def less_stamp_def)

text \<open>
  A well-formed list with a pointer to one of its events. The pointer is at an event that fires first (\<open>nearest_ok\<close>)
  unless a rescheduled event has left it stale (theorem ae_reschedule_stale).
\<close>

definition near_in :: "('p, 'c) aeEventLoop \<Rightarrow> taddr list \<Rightarrow> bool" where
  "near_in l ps \<longleftrightarrow> (if ps = [] then latestTimeEvt l = 0 else latestTimeEvt l \<in> set ps)"

definition timer_list :: "('p, 'c) aeEventLoop \<Rightarrow> taddr list \<Rightarrow> bool" where
  "timer_list l ps \<longleftrightarrow> timers l ps \<and> near_in l ps \<and> (\<forall>p\<in>set ps. normal (stamp_of (evt l p)))"

lemma nearest_near: "nearest_ok l ps \<Longrightarrow> near_in l ps"
  by (auto simp: nearest_ok_def near_in_def split: if_splits)

lemma near_tev:
  assumes "timer_list l ps" "ps \<noteq> []"
  shows "latestTimeEvt l \<in> set ps" "tev l (latestTimeEvt l) = Inr (evt l (latestTimeEvt l))" "latestTimeEvt l \<noteq> 0"
  using assms tchain_tev [of l "timeEventHead l" ps "latestTimeEvt l"] by (auto simp: timer_list_def near_in_def timers_def)

text \<open>
  What a time callback may do to the loop: put new events in front of the list, as aeCreateTimeEvent does. It leaves the
  file events and the other time events alone.
\<close>

definition adds :: "('p, 'c) aeEventLoop \<Rightarrow> taddr list \<Rightarrow> ('p, 'c) aeEventLoop \<Rightarrow> taddr list \<Rightarrow> bool" where
  "adds l ps l' new \<longleftrightarrow> timer_list l' (new @ ps) \<and> (\<forall>q\<in>set ps. evt l' q = evt l q)
     \<and> (\<forall>q\<in>set new. timeEventNextId l \<le> te_id (evt l' q)) \<and> timeEventNextId l \<le> timeEventNextId l'
     \<and> lastTime l' = lastTime l \<and> file_part l' = file_part l \<and> (\<forall>q. tevs l q = None \<longrightarrow> q \<notin> set new \<longrightarrow> tevs l' q = None)"

lemma adds_none: "timer_list l ps \<Longrightarrow> adds l ps l []"
  by (simp add: adds_def)

text \<open>aeCreateTimeEvent in a callback, with memory or without, adds an event.\<close>

lemma create_adds:
  assumes l: "timer_list l ps" and mem: "mem = 0 \<or> tevs l mem = None" and ms: "0 \<le> ms"
    and g: "os_gettimeofday os w = ((s, us), w1)" "0 \<le> us" "us < 1000000"
  shows "\<exists>i l' w' new. aeCreateTimeEvent os mem l ms pr data final w = Inr (i, l', w') \<and> adds l ps l' new
    \<and> w' = (if mem = 0 then w else w1)"
proof (cases "mem = 0")
  case True
  let ?l = "l\<lparr>timeEventNextId := timeEventNextId l + 1\<rparr>"
  have t: "timers l ps" using l by (simp add: timer_list_def)
  have "tchain ?l (timeEventHead ?l) ps" using t tchain_cong [of ps ?l l] by (simp add: timers_def)
  then have "timers ?l ps" using timers_cong [OF t, of ?l] by simp
  then have "adds l ps ?l []" using l by (simp add: adds_def timer_list_def near_in_def file_part_def)
  then show ?thesis using True by (auto simp: aeCreateTimeEvent_def)
next
  case False
  then have m: "tevs l mem = None" using mem by simp
  have t: "timers l ps" "tchain l (timeEventHead l) ps" using l by (simp_all add: timer_list_def timers_def)
  have lat: "latestTimeEvt l \<noteq> 0 \<Longrightarrow> latestTimeEvt l \<in> set ps" using l by (auto simp: timer_list_def near_in_def split: if_splits)
  obtain l' sec m' where l': "aeCreateTimeEvent os mem l ms pr data final w = Inr (timeEventNextId l, l', w1)" "timers l' (mem # ps)"
    "tevs l' = (tevs l)(mem \<mapsto> \<lparr>te_id = timeEventNextId l, when_sec = sec, when_ms = m', timeProc = pr, finalizerProc = final,
      te_clientData = data, te_next = timeEventHead l\<rparr>)" "m' < 1000" "0 \<le> ms \<longrightarrow> 0 \<le> m'"
    "latestTimeEvt l' = (if latestTimeEvt l = 0 \<or> Stamp sec m' < stamp_of (evt l (latestTimeEvt l)) then mem else latestTimeEvt l)"
    "timeEventNextId l' = timeEventNextId l + 1" "lastTime l' = lastTime l" "file_part l' = file_part l"
    by (rule create_run [OF t(1) lat False m g, of ms pr data final]) blast
  have old: "evt l' p = evt l p" if "p \<in> set ps" for p using that tchain_tev [OF t(2) that] m l'(3) by auto
  have "near_in l' (mem # ps)" using l'(6) lat by (auto simp: near_in_def)
  then have "timer_list l' ([mem] @ ps)"
    using l l'(2-5) ms old by (auto simp: timer_list_def stamp_of_def normal_def)
  then have "adds l ps l' [mem]" using l'(3,7-9) old unfolding adds_def by simp
  then show ?thesis using l'(1) False by auto
qed

section \<open>The client and the specification of a pass\<close>

text \<open>
  The client of the timers while a pass runs. \<open>W\<close> are the worlds of the pass: a look at the clock, a callback and a finalizer
  stay in it, and the clock shows a time from \<open>lo\<close> to \<open>hi\<close>. What the client can see of a world is \<open>obs\<close>, which a look
  at the clock does not change. A callback does \<open>act\<close> to it and answers \<open>ans\<close>: AE_NOMORE, or milliseconds, more than the pass
  takes, after which it is to be called again. Finalizers do \<open>fin\<close>.
\<close>

definition clock_in :: "('p, 'c, 'w) os \<Rightarrow> 'w set \<Rightarrow> ('w \<Rightarrow> 'v) \<Rightarrow> stamp \<Rightarrow> stamp \<Rightarrow> bool" where
  "clock_in os W obs lo hi \<longleftrightarrow> normal lo \<and> normal hi \<and> (\<forall>w\<in>W. \<exists>s us w'. os_gettimeofday os w = ((s, us), w') \<and> 0 \<le> us \<and> us < 1000000
     \<and> lo \<le> Stamp s (us div 1000) \<and> Stamp s (us div 1000) \<le> hi \<and> w' \<in> W \<and> obs w' = obs w)"

definition time_calls :: "('p, 'c, 'w) os \<Rightarrow> 'w set \<Rightarrow> ('w \<Rightarrow> 'v) \<Rightarrow> stamp \<Rightarrow> stamp \<Rightarrow> ('p \<Rightarrow> int \<Rightarrow> 'c \<Rightarrow> 'v \<Rightarrow> s32)
    \<Rightarrow> ('p \<Rightarrow> int \<Rightarrow> 'c \<Rightarrow> 'v \<Rightarrow> 'v) \<Rightarrow> bool" where
  "time_calls os W obs lo hi ans act \<longleftrightarrow>
     (\<forall>p i c v. ans p i c v = AE_NOMORE \<or> millis hi - millis lo < sint (ans p i c v)) \<and>
     (\<forall>p l i c w ps. w \<in> W \<longrightarrow> timer_list l ps \<longrightarrow> (\<exists>l' w' new. call_time os p l i c w = Inr (ans p i c (obs w), l', w')
        \<and> w' \<in> W \<and> obs w' = act p i c (obs w) \<and> adds l ps l' new))"

definition final_calls :: "('p, 'c, 'w) os \<Rightarrow> 'w set \<Rightarrow> ('w \<Rightarrow> 'v) \<Rightarrow> ('p \<Rightarrow> 'c \<Rightarrow> 'v \<Rightarrow> 'v) \<Rightarrow> bool" where
  "final_calls os W obs fin \<longleftrightarrow>
     (\<forall>f c w. w \<in> W \<longrightarrow> (\<exists>w'. (\<forall>l. call_final os f l c w = Inr (l, w')) \<and> w' \<in> W \<and> obs w' = fin f c (obs w)))"

text \<open>The specification of a pass: the due events in their order, their answers and what they do.\<close>

definition answer :: "('p \<Rightarrow> int \<Rightarrow> 'c \<Rightarrow> 'v \<Rightarrow> s32) \<Rightarrow> ('p, 'c) aeTimeEvent \<Rightarrow> 'v \<Rightarrow> s32" where
  "answer ans t v = ans (timeProc t) (te_id t) (te_clientData t) v"

definition ring :: "('p \<Rightarrow> int \<Rightarrow> 'c \<Rightarrow> 'v \<Rightarrow> s32) \<Rightarrow> ('p \<Rightarrow> int \<Rightarrow> 'c \<Rightarrow> 'v \<Rightarrow> 'v) \<Rightarrow> ('p \<Rightarrow> 'c \<Rightarrow> 'v \<Rightarrow> 'v)
    \<Rightarrow> ('p, 'c) aeTimeEvent \<Rightarrow> 'v \<Rightarrow> 'v" where
  "ring ans act fin t v = (let v' = act (timeProc t) (te_id t) (te_clientData t) v in
     if answer ans t v = AE_NOMORE then finish fin t v' else v')"

fun answers :: "('p \<Rightarrow> int \<Rightarrow> 'c \<Rightarrow> 'v \<Rightarrow> s32) \<Rightarrow> ('p \<Rightarrow> int \<Rightarrow> 'c \<Rightarrow> 'v \<Rightarrow> 'v) \<Rightarrow> ('p \<Rightarrow> 'c \<Rightarrow> 'v \<Rightarrow> 'v)
    \<Rightarrow> ('p, 'c) aeTimeEvent list \<Rightarrow> 'v \<Rightarrow> s32 list" where
  "answers ans act fin [] v = []"
| "answers ans act fin (t # ts) v = answer ans t v # answers ans act fin ts (ring ans act fin t v)"

text \<open>An event that is to be called again: the same event, \<open>r\<close> milliseconds from a time of the pass.\<close>

definition put_off :: "stamp \<Rightarrow> stamp \<Rightarrow> s32 \<Rightarrow> ('p, 'c) aeTimeEvent \<Rightarrow> ('p, 'c) aeTimeEvent \<Rightarrow> bool" where
  "put_off lo hi r t t' \<longleftrightarrow> te_id t' = te_id t \<and> timeProc t' = timeProc t \<and> finalizerProc t' = finalizerProc t
     \<and> te_clientData t' = te_clientData t \<and> millis lo + sint r \<le> millis (stamp_of t') \<and> millis (stamp_of t') \<le> millis hi + sint r"

text \<open>The pointer after the last event of a pass: recomputed by a deletion; not behind an event that was put off.\<close>

definition points :: "('p, 'c) aeEventLoop \<Rightarrow> taddr list \<Rightarrow> taddr \<Rightarrow> s32 \<Rightarrow> bool" where
  "points l ps q r \<longleftrightarrow> (if r = AE_NOMORE then nearest_ok l ps else stamp_of (evt l (latestTimeEvt l)) \<le> stamp_of (evt l q))"

lemma length_answers [simp]: "length (answers ans act fin ts v) = length ts"
  by (induction ts arbitrary: v) simp_all

lemma bodies_ring: "body a = body b \<Longrightarrow> ring ans act fin a = ring ans act fin b \<and> answer ans a = answer ans b"
  using bodyD [of a b] by (simp add: ring_def [abs_def] answer_def [abs_def] finish_def Let_def fun_eq_iff cong: if_cong option.case_cong)

lemma bodies_run:
  "map body ts = map body us \<Longrightarrow> answers ans act fin ts v = answers ans act fin us v
     \<and> fold (ring ans act fin) ts v = fold (ring ans act fin) us v"
proof (induction ts arbitrary: us v)
  case (Cons t ts)
  then obtain u us' where u: "us = u # us'" "body t = body u" "map body ts = map body us'" by auto
  then show ?case using Cons.IH [OF u(3), of "ring ans act fin u v"] bodies_ring [OF u(2), of ans act fin] by simp
qed simp

section \<open>One due event\<close>

text \<open>A look at the clock.\<close>

lemma clock_look:
  assumes "clock_in os W obs lo hi" "w \<in> W"
  obtains s m w' where "aeGetTime os w = ((s, m), w')" "lo \<le> Stamp s m" "Stamp s m \<le> hi" "w' \<in> W" "obs w' = obs w"
proof -
  obtain s us w' where g: "os_gettimeofday os w = ((s, us), w')" "0 \<le> us" "lo \<le> Stamp s (us div 1000)" "Stamp s (us div 1000) \<le> hi"
      "w' \<in> W" "obs w' = obs w"
    using assms unfolding clock_in_def by blast
  then show thesis using that [of s "us div 1000" w'] by (simp add: aeGetTime_def sdiv_1000)
qed

text \<open>The loop walks over events that are too new or not due.\<close>

lemma pass_walk:
  assumes c: "clock_in os W obs lo hi"
  shows "w \<in> W \<Longrightarrow> tchain l p (xs @ rs) \<Longrightarrow> \<forall>u\<in>set xs. i < te_id (evt l u) \<or> hi < stamp_of (evt l u) \<Longrightarrow>
   \<exists>w'. w' \<in> W \<and> obs w' = obs w
     \<and> (\<forall>k. time_loop (length xs + k) os l p i n w = time_loop k os l (case rs of [] \<Rightarrow> 0 | r # _ \<Rightarrow> r) i n w')"
proof (induction xs arbitrary: p w)
  case Nil
  then show ?case by (cases rs) auto
next
  case (Cons u xs)
  have u: "tev l u = Inr (evt l u)" "u \<noteq> 0" "p = u" using tchain_tev [OF Cons.prems(2), of u] Cons.prems(2) by simp_all
  have ch: "tchain l (te_next (evt l u)) (xs @ rs)" using Cons.prems(2) by simp
  show ?case
  proof (cases "te_id (evt l u) > i")
    case True
    obtain w' where "w' \<in> W" "obs w' = obs w" "\<And>k. time_loop (length xs + k) os l (te_next (evt l u)) i n w
        = time_loop k os l (case rs of [] \<Rightarrow> 0 | r # _ \<Rightarrow> r) i n w'"
      using Cons.IH [OF Cons.prems(1) ch] Cons.prems(3) by auto
    then show ?thesis using u True by (intro exI [of _ w']) simp
  next
    case False
    then have late: "hi < stamp_of (evt l u)" using Cons.prems(3) by simp
    obtain s m w1 where g: "aeGetTime os w = ((s, m), w1)" "lo \<le> Stamp s m" "Stamp s m \<le> hi" "w1 \<in> W" "obs w1 = obs w"
      by (rule clock_look [OF c Cons.prems(1)])
    have nd: "\<not> due (evt l u) (s, m)" using late g(3) by (simp add: due_stamp)
    obtain w' where "w' \<in> W" "obs w' = obs w1" "\<And>k. time_loop (length xs + k) os l (te_next (evt l u)) i n w1
        = time_loop k os l (case rs of [] \<Rightarrow> 0 | r # _ \<Rightarrow> r) i n w'"
      using Cons.IH [OF g(4) ch] Cons.prems(3) by auto
    then show ?thesis using u False g(1,5) nd by (intro exI [of _ w']) simp
  qed
qed


text \<open>More fuel does not change a result.\<close>

lemma nearest_more: "nearest_loop f l p a = Inr q \<Longrightarrow> f \<le> f' \<Longrightarrow> nearest_loop f' l p a = Inr q"
proof (induction f arbitrary: f' p a)
  case (Suc f)
  obtain g where g: "f' = Suc g" "f \<le> g" using Suc.prems(2) by (cases f') auto
  show ?case
  proof (cases "p = 0")
    case False
    obtain t where t: "tev l p = Inr t" using Suc.prems(1) False by (cases "tev l p") simp_all
    have "bindE (c :: fault + bool) (\<lambda>b. nearest_loop f l (te_next t) (if b then p else a)) = Inr q \<Longrightarrow>
        bindE c (\<lambda>b. nearest_loop g l (te_next t) (if b then p else a)) = Inr q" for c
      using Suc.IH g(2) by (cases c) simp_all
    then show ?thesis using Suc.prems(1) t False g(1) by simp
  qed (use Suc.prems(1) g(1) in simp)
qed simp

lemma find_latest_more: "findLatestTimeEvt f l = Inr l' \<Longrightarrow> f \<le> f' \<Longrightarrow> findLatestTimeEvt f' l = Inr l'"
  using nearest_more [of f l "timeEventHead l" 0 _ f'] by (auto simp: findLatestTimeEvt_def bindE_Inr_iff split: if_splits)

lemma delete_more: "del_time_loop f os l i p prev w = Inr r \<Longrightarrow> f \<le> f' \<Longrightarrow> del_time_loop f' os l i p prev w = Inr r"
proof (induction f arbitrary: f' p prev)
  case (Suc f)
  obtain g where g: "f' = Suc g" "f \<le> g" using Suc.prems(2) by (cases f') auto
  show ?case
  proof (cases "p = 0")
    case False
    obtain t where t: "tev l p = Inr t" using Suc.prems(1) False by (cases "tev l p") simp_all
    show ?thesis
    proof (cases "te_id t = i")
      case True
      then show ?thesis using Suc.prems(1) t False g(1) find_latest_more [OF _ g(2)]
        by (auto simp: bindE_Inr_iff) blast+
    next
      case other: False
      then show ?thesis using Suc.prems(1) t False g Suc.IH [of _ _ g] by simp
    qed
  qed (use Suc.prems(1) g(1) in simp)
qed simp

text \<open>Giving an event of the list a new time.\<close>

lemma retime_ok:
  assumes l: "timer_list l ps" "q \<in> set ps" and st: "normal (Stamp sec m)"
  obtains l' where "updateLatestTimeEvt (set_tev l q ((evt l q)\<lparr>when_sec := sec, when_ms := m\<rparr>)) q = Inr l'" "timer_list l' ps"
    "evt l' q = (evt l q)\<lparr>when_sec := sec, when_ms := m\<rparr>" "\<And>p. p \<noteq> q \<Longrightarrow> tevs l' p = tevs l p"
    "stamp_of (evt l' (latestTimeEvt l')) \<le> stamp_of (evt l' q)"
    "timeEventNextId l' = timeEventNextId l" "lastTime l' = lastTime l" "file_part l' = file_part l"
proof -
  let ?l = "set_tev l q ((evt l q)\<lparr>when_sec := sec, when_ms := m\<rparr>)"
  have c: "tchain l (timeEventHead l) ps" and ne: "ps \<noteq> []" using l by (auto simp: timer_list_def timers_def)
  have t: "q \<noteq> 0" "tevs l q \<noteq> None" using tchain_tev [OF c l(2)] by simp_all
  note near = near_tev [OF l(1) ne]
  have tc: "tchain ?l h xs = tchain l h xs" for h xs
    by (induction xs arbitrary: h) (use t(2) in \<open>auto simp: set_tev_def\<close>)
  have nx: "tev ?l p = Inr (evt ?l p)" if "p \<in> set ps" for p
    using tchain_tev [of ?l "timeEventHead l" ps p] that c tc by simp
  let ?n = "if latestTimeEvt ?l = 0 \<or> stamp_of (evt ?l q) < stamp_of (evt ?l (latestTimeEvt ?l)) then q else latestTimeEvt ?l"
  let ?l' = "?l\<lparr>latestTimeEvt := ?n\<rparr>"
  have "updateLatestTimeEvt ?l q = Inr ?l'"
    by (rule update_latest_eq) (use nx near(1) l(2) in simp_all)
  moreover have ids: "te_id (evt ?l' p) = te_id (evt l p)" for p by simp
  have "tchain ?l' (timeEventHead ?l') ps" using c tc tchain_cong [of ps ?l' ?l] by simp
  then have "timers ?l' ps" using timers_cong [of l ps ?l'] l(1) ids by (simp add: timer_list_def)
  then have "timer_list ?l' ps"
    using l near st by (auto simp: timer_list_def near_in_def ne stamp_of_def)
  moreover have "stamp_of (evt ?l' (latestTimeEvt ?l')) \<le> stamp_of (evt ?l' q)" by auto
  moreover have "evt ?l' q = (evt l q)\<lparr>when_sec := sec, when_ms := m\<rparr>" "\<And>p. p \<noteq> q \<Longrightarrow> tevs ?l' p = tevs l p"
    "timeEventNextId ?l' = timeEventNextId l" "lastTime ?l' = lastTime l" "file_part ?l' = file_part l"
    by (simp_all add: set_tev_def file_part_def)
  ultimately show thesis by (intro that [of ?l'])
qed

text \<open>
  One due event: its callback, then the deletion with the finalizer or the new time. \<open>stays\<close> is the event where it is to be
  called again, and nothing where not.
\<close>

definition stays :: "taddr \<Rightarrow> s32 \<Rightarrow> taddr list" where
  "stays q r = (if r = AE_NOMORE then [] else [q])"

lemma final_run:
  assumes "final_calls os W obs fin" "w \<in> W"
  obtains w' where "final_at os t w w'" "w' \<in> W" "obs w' = finish fin t (obs w)"
proof (cases "finalizerProc t")
  case None
  then show thesis using that [of w] assms(2) by (simp add: final_at_def finish_def)
next
  case (Some f)
  obtain w' where "\<And>l. call_final os f l (te_clientData t) w = Inr (l, w')" "w' \<in> W" "obs w' = fin f (te_clientData t) (obs w)"
    using assms unfolding final_calls_def by blast
  then show thesis using that [of w'] Some by (simp add: final_at_def finish_def)
qed

lemma run_timer_ok:
  assumes c: "clock_in os W obs lo hi" and t: "time_calls os W obs lo hi ans act" and fc: "final_calls os W obs fin"
    and w: "w \<in> W" and l: "timer_list l (xs @ q # vs)"
  defines "r \<equiv> answer ans (evt l q) (obs w)"
  obtains K l1 w1 new where "\<And>k. K \<le> k \<Longrightarrow> run_timer k os l q (evt l q) w = Inr (l1, w1)"
    "w1 \<in> W" "obs w1 = ring ans act fin (evt l q) (obs w)" "timer_list l1 (new @ xs @ stays q r @ vs)"
    "\<And>p. p \<in> set (xs @ vs) \<Longrightarrow> body (evt l1 p) = body (evt l p)" "\<And>p. p \<in> set new \<Longrightarrow> timeEventNextId l \<le> te_id (evt l1 p)"
    "timeEventNextId l \<le> timeEventNextId l1" "lastTime l1 = lastTime l" "file_part l1 = file_part l"
    "\<And>p. tevs l p = None \<Longrightarrow> p \<notin> set new \<Longrightarrow> tevs l1 p = None" "r = AE_NOMORE \<Longrightarrow> tevs l1 q = None"
    "r \<noteq> AE_NOMORE \<Longrightarrow> put_off lo hi r (evt l q) (evt l1 q) \<and> hi < stamp_of (evt l1 q)"
    "points l1 (new @ xs @ stays q r @ vs) q r"
proof -
  let ?t = "evt l q" and ?ps = "xs @ q # vs"
  obtain l0 w0 new where call: "call_time os (timeProc ?t) l (te_id ?t) (te_clientData ?t) w = Inr (r, l0, w0)"
      and w0: "w0 \<in> W" "obs w0 = act (timeProc ?t) (te_id ?t) (te_clientData ?t) (obs w)" and ad: "adds l ?ps l0 new"
    using t w l unfolding time_calls_def r_def answer_def by blast
  have l0: "timer_list l0 (new @ ?ps)" "\<And>p. p \<in> set ?ps \<Longrightarrow> evt l0 p = evt l p" "\<And>p. p \<in> set new \<Longrightarrow> timeEventNextId l \<le> te_id (evt l0 p)"
      "timeEventNextId l \<le> timeEventNextId l0" "lastTime l0 = lastTime l" "file_part l0 = file_part l"
      "\<And>p. tevs l p = None \<Longrightarrow> p \<notin> set new \<Longrightarrow> tevs l0 p = None"
    using ad unfolding adds_def by blast+
  have q: "evt l0 q = ?t" "q \<in> set (new @ ?ps)" by (simp_all add: l0(2))
  have T0: "timers l0 ((new @ xs) @ q # vs)" using l0(1) by (simp add: timer_list_def)
  then have dist: "distinct (new @ ?ps)" by (simp add: timers_def)
  show thesis
  proof (cases "r = AE_NOMORE")
    case True
    obtain w1 where w1: "final_at os (evt l0 q) w0 w1" "w1 \<in> W" "obs w1 = finish fin ?t (obs w0)"
      by (rule final_run [OF fc w0(1), of ?t]) (simp add: q(1))
    let ?K = "length ((new @ xs) @ q # vs) + length (new @ xs) + 2"
    obtain l1 where l1: "aeDeleteTimeEvent ?K os l0 (te_id (evt l0 q)) w0 = Inr (AE_OK, l1, w1)" "timers l1 ((new @ xs) @ vs)"
      "nearest_ok l1 ((new @ xs) @ vs)" "tevs l1 q = None" "\<forall>p\<in>set ((new @ xs) @ vs). body (evt l1 p) = body (evt l0 p)"
      "timeEventNextId l1 = timeEventNextId l0" "lastTime l1 = lastTime l0" "dom (tevs l1) \<subseteq> dom (tevs l0)" "file_part l1 = file_part l0"
      using del_found_at [OF T0 w1(1), of ?K] by auto
    have run: "run_timer k os l q ?t w = Inr (l1, w1)" if "?K \<le> k" for k
    proof -
      have "aeDeleteTimeEvent k os l0 (te_id ?t) w0 = Inr (AE_OK, l1, w1)"
        using l1(1) unfolding aeDeleteTimeEvent_def q(1) by (rule delete_more) (rule that)
      then show ?thesis using call True by (simp add: run_timer_def)
    qed
    have o: "obs w1 = ring ans act fin ?t (obs w)" using True w0(2) w1(3) by (simp add: ring_def r_def)
    have b: "body (evt l1 p) = body (evt l0 p)" if "p \<in> set (new @ xs @ vs)" for p using l1(5) that by simp
    have ids: "te_id (evt l1 p) = te_id (evt l0 p)" "stamp_of (evt l1 p) = stamp_of (evt l0 p)" if "p \<in> set (new @ xs @ vs)" for p
      using bodyD [OF b [OF that]] by blast+
    have T: "timer_list l1 (new @ xs @ stays q r @ vs)"
      using l1(2) nearest_near [OF l1(3)] l0(1) ids(2) True by (simp add: timer_list_def stays_def)
    have P: "points l1 (new @ xs @ stays q r @ vs) q r" using l1(3) True by (simp add: stays_def points_def)
    have bb: "body (evt l1 p) = body (evt l p)" if "p \<in> set (xs @ vs)" for p using b [of p] l0(2) [of p] that by auto
    have nn: "timeEventNextId l \<le> te_id (evt l1 p)" if "p \<in> set new" for p using ids(1) [of p] l0(3) [OF that] that by simp
    have fr: "tevs l1 p = None" if "tevs l p = None" "p \<notin> set new" for p using l0(7) [OF that] l1(8) by blast
    show thesis
      by (rule that [OF run w1(2) o T bb nn _ _ _ fr _ _ P]) (use l0(4-6) l1(4,6,7,9) True in simp_all)
  next
    case False
    have R: "millis hi - millis lo < sint r" using t False by (auto simp: time_calls_def r_def answer_def)
    obtain s us w1 where g: "os_gettimeofday os w0 = ((s, us), w1)" "0 \<le> us" "us < 1000000" "lo \<le> Stamp s (us div 1000)"
        "Stamp s (us div 1000) \<le> hi" "w1 \<in> W" "obs w1 = obs w0" and n: "normal lo" "normal hi"
      using c w0(1) unfolding clock_in_def by blast
    have now: "normal (Stamp s (us div 1000))" using g(2,3) by (auto simp: normal_def)
    then have win: "millis lo \<le> 1000 * s + us div 1000" "1000 * s + us div 1000 \<le> millis hi"
      using g(4,5) n by (simp_all add: normal_le) (simp_all add: millis_def)
    then have "0 \<le> sint r" using R by linarith
    then obtain sec m where a: "aeAddMillisecondsToNow os (sint r) w0 = ((sec, m), w1)"
        "millis (Stamp sec m) = 1000 * s + us div 1000 + sint r" "m < 1000" "0 \<le> m"
      by (rule_tac add_millis [OF g(1-3), of "sint r"]) blast
    then have nm: "normal (Stamp sec m)" by (simp add: normal_def)
    obtain l1 where l1: "updateLatestTimeEvt (set_tev l0 q (?t\<lparr>when_sec := sec, when_ms := m\<rparr>)) q = Inr l1" "timer_list l1 (new @ ?ps)"
      "evt l1 q = ?t\<lparr>when_sec := sec, when_ms := m\<rparr>" "\<And>p. p \<noteq> q \<Longrightarrow> tevs l1 p = tevs l0 p"
      "stamp_of (evt l1 (latestTimeEvt l1)) \<le> stamp_of (evt l1 q)"
      "timeEventNextId l1 = timeEventNextId l0" "lastTime l1 = lastTime l0" "file_part l1 = file_part l0"
      using retime_ok [OF l0(1) q(2) nm] unfolding q(1) by metis
    have st: "stamp_of (evt l1 q) = Stamp sec m" by (simp add: l1(3) stamp_of_def)
    have tq: "tev l0 q = Inr ?t" using tchain_tev [of l0 "timeEventHead l0" "new @ ?ps" q] q T0 by (simp add: timers_def)
    have run: "run_timer k os l q ?t w = Inr (l1, w1)" for k using call False a(1) tq l1(1) by (simp add: run_timer_def)
    have o: "obs w1 = ring ans act fin ?t (obs w)" using False w0(2) g(7) by (simp add: ring_def r_def)
    have later: "put_off lo hi r ?t (evt l1 q) \<and> hi < stamp_of (evt l1 q)"
      using win a(2) nm n(2) R unfolding put_off_def st by (simp add: l1(3) normal_less)
    have same: "tevs l1 p = tevs l0 p" if "p \<in> set (new @ xs @ vs)" for p by (rule l1(4)) (use dist that in auto)
    have T: "timer_list l1 (new @ xs @ stays q r @ vs)" using l1(2) False by (simp add: stays_def)
    have P: "points l1 (new @ xs @ stays q r @ vs) q r" using l1(5) False by (simp add: points_def)
    have bb: "body (evt l1 p) = body (evt l p)" if "p \<in> set (xs @ vs)" for p using same [of p] l0(2) [of p] that by auto
    have nn: "timeEventNextId l \<le> te_id (evt l1 p)" if "p \<in> set new" for p using same [of p] l0(3) [OF that] that by simp
    have fr: "tevs l1 p = None" if "tevs l p = None" "p \<notin> set new" for p
    proof -
      have "tevs l0 p = None" using l0(7) [OF that] .
      moreover have "p \<noteq> q" using calculation tchain_tev [of l0 "timeEventHead l0" "new @ ?ps" q] q(2) T0 by (auto simp: timers_def)
      ultimately show ?thesis using l1(4) by simp
    qed
    show thesis
      by (rule that [OF run g(6) o T bb nn _ _ _ fr _ later P]) (use l0(4-6) l1(6-8) False in simp_all)
  qed
qed

section \<open>The outcome of a pass\<close>

text \<open>
  The outcome of a pass over the events \<open>ps\<close>, seen as \<open>ev\<close> before it. \<open>rs\<close> are the due events with their answers. The
  events of the list that were not due are as before, those that answered AE_NOMORE are gone and given back, the
  others have their new time; \<open>new\<close> are the events the callbacks have added, which may reuse the addresses given back.
\<close>

definition due_at :: "stamp \<Rightarrow> (taddr \<Rightarrow> ('p, 'c) aeTimeEvent) \<Rightarrow> taddr list \<Rightarrow> taddr list" where
  "due_at now ev ps = filter (\<lambda>p. stamp_of (ev p) \<le> now) ps"

definition answered :: "('p \<Rightarrow> int \<Rightarrow> 'c \<Rightarrow> 'v \<Rightarrow> s32) \<Rightarrow> ('p \<Rightarrow> int \<Rightarrow> 'c \<Rightarrow> 'v \<Rightarrow> 'v) \<Rightarrow> ('p \<Rightarrow> 'c \<Rightarrow> 'v \<Rightarrow> 'v)
    \<Rightarrow> (taddr \<Rightarrow> ('p, 'c) aeTimeEvent) \<Rightarrow> taddr list \<Rightarrow> 'v \<Rightarrow> (taddr \<times> s32) list" where
  "answered ans act fin ev ds v = zip ds (answers ans act fin (map ev ds) v)"

definition kept :: "(taddr \<times> s32) list \<Rightarrow> taddr list \<Rightarrow> taddr list" where
  "kept rs ps = filter (\<lambda>p. map_of rs p \<noteq> Some AE_NOMORE) ps"

definition after_pass :: "stamp \<Rightarrow> stamp \<Rightarrow> (taddr \<Rightarrow> ('p, 'c) aeTimeEvent) \<Rightarrow> taddr list \<Rightarrow> (taddr \<times> s32) list
    \<Rightarrow> ('p, 'c) aeEventLoop \<Rightarrow> taddr list \<Rightarrow> bool" where
  "after_pass lo hi ev ps rs l' new \<longleftrightarrow> timer_list l' (new @ kept rs ps)
     \<and> (\<forall>p\<in>set ps. case map_of rs p of None \<Rightarrow> body (evt l' p) = body (ev p)
         | Some r \<Rightarrow> if r = AE_NOMORE then tevs l' p = None \<or> p \<in> set new else put_off lo hi r (ev p) (evt l' p))
     \<and> (rs \<noteq> [] \<longrightarrow> points l' (new @ kept rs ps) (fst (last rs)) (snd (last rs)))"

lemma due_at_split: "\<forall>u\<in>set us. \<not> stamp_of (ev u) \<le> now \<Longrightarrow> stamp_of (ev q) \<le> now \<Longrightarrow> due_at now ev (us @ q # vs) = q # due_at now ev vs"
  by (simp add: due_at_def filter_empty_conv)

lemma answered_Cons: "answered ans act fin ev (q # ds) v
    = (q, answer ans (ev q) v) # answered ans act fin ev ds (ring ans act fin (ev q) v)"
  by (simp add: answered_def)

lemma answered_nil [simp]: "answered ans act fin ev [] v = []"
  by (simp add: answered_def)

lemma answered_cong:
  assumes "\<And>p. p \<in> set ds \<Longrightarrow> body (ev p) = body (ev' p)"
  shows "answered ans act fin ev ds v = answered ans act fin ev' ds v"
    "fold (\<lambda>p. ring ans act fin (ev p)) ds v = fold (\<lambda>p. ring ans act fin (ev' p)) ds v"
proof -
  have "map body (map ev ds) = map body (map ev' ds)" using assms by simp
  from bodies_run [OF this, of ans act fin v]
  show "answered ans act fin ev ds v = answered ans act fin ev' ds v"
    "fold (\<lambda>p. ring ans act fin (ev p)) ds v = fold (\<lambda>p. ring ans act fin (ev' p)) ds v"
    by (simp_all add: answered_def fold_map comp_def)
qed

lemma answered_keys: "fst ` set (answered ans act fin ev ds v) = set ds"
proof -
  have "map fst (answered ans act fin ev ds v) = ds" by (simp add: answered_def)
  from arg_cong [OF this, of set] show ?thesis by simp
qed

lemma put_off_body: "put_off lo hi r t t' \<Longrightarrow> body t'' = body t' \<Longrightarrow> put_off lo hi r t t''"
  using bodyD [of t'' t'] by (simp add: put_off_def)

lemma put_off_old: "put_off lo hi r t t' \<Longrightarrow> body s = body t \<Longrightarrow> put_off lo hi r s t'"
  using bodyD [of s t] by (simp add: put_off_def)

text \<open>The outcome after a first due event \<open>q\<close> and the outcome of the rest of the pass make the outcome of the pass.\<close>

lemma kept_step:
  assumes "distinct (us @ q # vs)" "q \<notin> fst ` set rs"
  shows "kept ((q, r) # rs) (us @ q # vs) = kept rs (us @ stays q r @ vs)"
proof -
  have "map_of rs q = None" using assms(2) by (simp add: map_of_eq_None_iff)
  moreover have "filter (\<lambda>p. map_of ((q, r) # rs) p \<noteq> Some AE_NOMORE) xs = filter (\<lambda>p. map_of rs p \<noteq> Some AE_NOMORE) xs"
    if "q \<notin> set xs" for xs by (rule filter_cong) (use that in auto)
  ultimately show ?thesis using assms(1) by (simp add: kept_def stays_def)
qed

lemma after_step:
  assumes d: "distinct (us @ q # vs)" "q \<notin> fst ` set rs"
    and same: "\<And>p. p \<in> set (us @ vs) \<Longrightarrow> body (evt l1 p) = body (evt l p)"
    and q: "r = AE_NOMORE \<Longrightarrow> tevs l2 q = None \<or> q \<in> set new" "r \<noteq> AE_NOMORE \<Longrightarrow> put_off lo hi r (evt l q) (evt l1 q)"
    and a: "after_pass lo hi (evt l1) (us @ stays q r @ vs) rs l2 new"
    and p: "rs = [] \<Longrightarrow> points l2 (new @ us @ stays q r @ vs) q r"
  shows "after_pass lo hi (evt l) (us @ q # vs) ((q, r) # rs) l2 new"
proof -
  note k = kept_step [OF d, of r]
  have nq: "map_of rs q = None" using d(2) by (simp add: map_of_eq_None_iff)
  have "case map_of ((q, r) # rs) p of None \<Rightarrow> body (evt l2 p) = body (evt l p)
      | Some r \<Rightarrow> if r = AE_NOMORE then tevs l2 p = None \<or> p \<in> set new else put_off lo hi r (evt l p) (evt l2 p)"
    if p: "p \<in> set (us @ q # vs)" for p
  proof (cases "p = q")
    case True
    show ?thesis
    proof (cases "r = AE_NOMORE")
      case False
      then have "body (evt l2 q) = body (evt l1 q)" using a nq by (auto simp: after_pass_def stays_def)
      then show ?thesis using True False put_off_body [OF q(2)] by simp
    qed (use q(1) True in simp)
  next
    case False
    then have p': "p \<in> set (us @ vs)" using p by auto
    have "\<forall>p\<in>set (us @ stays q r @ vs). case map_of rs p of None \<Rightarrow> body (evt l2 p) = body (evt l1 p)
      | Some r \<Rightarrow> if r = AE_NOMORE then tevs l2 p = None \<or> p \<in> set new else put_off lo hi r (evt l1 p) (evt l2 p)"
      using a unfolding after_pass_def by blast
    moreover have "p \<in> set (us @ stays q r @ vs)" using p' by auto
    ultimately have "case map_of rs p of None \<Rightarrow> body (evt l2 p) = body (evt l1 p)
      | Some r \<Rightarrow> if r = AE_NOMORE then tevs l2 p = None \<or> p \<in> set new else put_off lo hi r (evt l1 p) (evt l2 p)"
      by (rule bspec)
    then show ?thesis using False same [OF p'] put_off_old [of lo hi _ "evt l1 p" "evt l2 p" "evt l p"]
      by (auto split: option.splits if_splits)
  qed
  moreover have "timer_list l2 (new @ kept rs (us @ stays q r @ vs))" using a by (simp add: after_pass_def)
  moreover have "points l2 (new @ kept rs (us @ stays q r @ vs)) (fst (last ((q, r) # rs))) (snd (last ((q, r) # rs)))"
  proof (cases "rs = []")
    case True
    then show ?thesis using p by (simp add: kept_def)
  next
    case False
    then show ?thesis using a by (simp add: after_pass_def)
  qed
  ultimately show ?thesis unfolding after_pass_def k by blast
qed

text \<open>
  The loop over a list \<open>ps\<close>, behind events \<open>ns\<close> that are too new for this pass, up to and over the first due event.
\<close>

definition pass_list :: "stamp \<Rightarrow> stamp \<Rightarrow> int \<Rightarrow> ('p, 'c) aeEventLoop \<Rightarrow> taddr list \<Rightarrow> taddr list \<Rightarrow> bool" where
  "pass_list lo hi i l ns ps \<longleftrightarrow> timer_list l (ns @ ps) \<and> (\<forall>p\<in>set ns. i < te_id (evt l p)) \<and> i < timeEventNextId l
     \<and> (\<forall>p\<in>set ps. te_id (evt l p) \<le> i \<and> (stamp_of (evt l p) \<le> lo \<or> hi < stamp_of (evt l p)))"

lemma pass_list_skip:
  assumes "pass_list lo hi i l ns (us @ vs)" "\<forall>u\<in>set us. \<not> stamp_of (evt l u) \<le> lo"
  shows "\<forall>u\<in>set (ns @ us). i < te_id (evt l u) \<or> hi < stamp_of (evt l u)" "tchain l (timeEventHead l) ((ns @ us) @ vs)"
  using assms by (auto simp: pass_list_def timer_list_def timers_def)

lemma pass_list_next:
  assumes l: "pass_list lo hi i l ns (us @ q # vs)" "timer_list l1 (new @ (ns @ us) @ stays q r @ vs)"
    and b: "\<And>p. p \<in> set ((ns @ us) @ vs) \<Longrightarrow> body (evt l1 p) = body (evt l p)"
    and n: "\<And>p. p \<in> set new \<Longrightarrow> timeEventNextId l \<le> te_id (evt l1 p)" "timeEventNextId l \<le> timeEventNextId l1"
    and q: "r \<noteq> AE_NOMORE \<Longrightarrow> put_off lo hi r (evt l q) (evt l1 q) \<and> hi < stamp_of (evt l1 q)"
    and us: "\<forall>u\<in>set us. \<not> stamp_of (evt l u) \<le> lo" and lohi: "lo \<le> hi"
  shows "pass_list lo hi i l1 (new @ ns) (us @ stays q r @ vs)" "due_at lo (evt l1) (us @ stays q r @ vs) = due_at lo (evt l) vs"
proof -
  have ids: "te_id (evt l1 p) = te_id (evt l p)" "stamp_of (evt l1 p) = stamp_of (evt l p)" if "p \<in> set ((ns @ us) @ vs)" for p
    using bodyD [OF b [OF that]] by blast+
  have "due_at lo (evt l1) xs = due_at lo (evt l) xs" if "set xs \<subseteq> set (us @ vs)" for xs
    unfolding due_at_def by (rule filter_cong) (use that ids in auto)
  moreover have "due_at lo (evt l1) (stays q r) = []"
    using q lohi by (auto simp: due_at_def stays_def) (meson leD order_trans)
  moreover have "due_at lo (evt l) us = []" using us by (simp add: due_at_def filter_empty_conv)
  ultimately show "due_at lo (evt l1) (us @ stays q r @ vs) = due_at lo (evt l) vs" by (simp add: due_at_def)
  have "\<forall>p\<in>set (new @ ns). i < te_id (evt l1 p)" using n(1) ids(1) l(1) by (auto simp: pass_list_def intro: less_le_trans)
  moreover have "te_id (evt l1 p) \<le> i \<and> (stamp_of (evt l1 p) \<le> lo \<or> hi < stamp_of (evt l1 p))" if p: "p \<in> set (us @ stays q r @ vs)" for p
  proof -
    consider "p \<in> set (us @ vs)" | "p = q" "r \<noteq> AE_NOMORE" using p by (auto simp: stays_def split: if_splits)
    then show ?thesis
    proof cases
      case 1
      then show ?thesis using ids [of p] l(1) by (auto simp: pass_list_def)
    next
      case 2
      then show ?thesis using q l(1) by (simp add: put_off_def pass_list_def)
    qed
  qed
  ultimately show "pass_list lo hi i l1 (new @ ns) (us @ stays q r @ vs)" using l n(2) unfolding pass_list_def by simp
qed

lemma pass_step:
  assumes c: "clock_in os W obs lo hi" and t: "time_calls os W obs lo hi ans act" and fc: "final_calls os W obs fin"
    and w: "w \<in> W" and l: "pass_list lo hi i l ns (us @ q # vs)"
    and us: "\<forall>u\<in>set us. \<not> stamp_of (evt l u) \<le> lo" and q: "stamp_of (evt l q) \<le> lo"
  defines "r \<equiv> answer ans (evt l q) (obs w)"
  obtains K l1 w1 new where
    "\<And>k. K \<le> k \<Longrightarrow> time_loop (length (ns @ us) + Suc k) os l (timeEventHead l) i n w = time_loop k os l1 (timeEventHead l1) i (n + 1) w1"
    "w1 \<in> W" "obs w1 = ring ans act fin (evt l q) (obs w)" "timer_list l1 (new @ (ns @ us) @ stays q r @ vs)"
    "\<And>p. p \<in> set ((ns @ us) @ vs) \<Longrightarrow> body (evt l1 p) = body (evt l p)" "\<And>p. p \<in> set new \<Longrightarrow> timeEventNextId l \<le> te_id (evt l1 p)"
    "timeEventNextId l \<le> timeEventNextId l1" "lastTime l1 = lastTime l" "file_part l1 = file_part l"
    "\<And>p. tevs l p = None \<Longrightarrow> p \<notin> set new \<Longrightarrow> tevs l1 p = None" "r = AE_NOMORE \<Longrightarrow> tevs l1 q = None"
    "r \<noteq> AE_NOMORE \<Longrightarrow> put_off lo hi r (evt l q) (evt l1 q) \<and> hi < stamp_of (evt l1 q)"
    "points l1 (new @ (ns @ us) @ stays q r @ vs) q r"
proof -
  note result = that and skip = pass_list_skip [OF l us]
  from pass_walk [OF c w skip(2,1), of n] obtain wa where wa: "wa \<in> W" "obs wa = obs w"
    and walk: "\<And>k. time_loop (length (ns @ us) + k) os l (timeEventHead l) i n w = time_loop k os l q i n wa" by auto
  obtain s m wb where g: "aeGetTime os wa = ((s, m), wb)" "lo \<le> Stamp s m" "wb \<in> W" "obs wb = obs wa" by (rule clock_look [OF c wa(1)])
  have tq: "tev l q = Inr (evt l q)" "q \<noteq> 0" using tchain_tev [OF skip(2), of q] by simp_all
  have due: "due (evt l q) (s, m)" "te_id (evt l q) \<le> i" using q g(2) l by (auto simp: due_stamp pass_list_def intro: order_trans)
  have L: "timer_list l ((ns @ us) @ q # vs)" using l by (simp add: pass_list_def)
  have ob: "obs wb = obs w" using g(4) wa(2) by simp
  show thesis
  proof (rule run_timer_ok [OF c t fc g(3) L, unfolded ob, folded r_def])
    fix K l1 w1 and new :: "taddr list"
    assume st: "\<And>k. K \<le> k \<Longrightarrow> run_timer k os l q (evt l q) wb = Inr (l1, w1)"
    have run: "time_loop (length (ns @ us) + Suc k) os l (timeEventHead l) i n w = time_loop k os l1 (timeEventHead l1) i (n + 1) w1"
      if "K \<le> k" for k using walk [of "Suc k"] tq due g(1) st [OF that] by simp
    show ?thesis if "w1 \<in> W" "obs w1 = ring ans act fin (evt l q) (obs w)" "timer_list l1 (new @ (ns @ us) @ stays q r @ vs)"
      "\<And>p. p \<in> set ((ns @ us) @ vs) \<Longrightarrow> body (evt l1 p) = body (evt l p)" "\<And>p. p \<in> set new \<Longrightarrow> timeEventNextId l \<le> te_id (evt l1 p)"
      "timeEventNextId l \<le> timeEventNextId l1" "lastTime l1 = lastTime l" "file_part l1 = file_part l"
      "\<And>p. tevs l p = None \<Longrightarrow> p \<notin> set new \<Longrightarrow> tevs l1 p = None" "r = AE_NOMORE \<Longrightarrow> tevs l1 q = None"
      "r \<noteq> AE_NOMORE \<Longrightarrow> put_off lo hi r (evt l q) (evt l1 q) \<and> hi < stamp_of (evt l1 q)"
      "points l1 (new @ (ns @ us) @ stays q r @ vs) q r"
      by (rule result [OF run that])
  qed
qed

lemma new_ids:
  assumes "\<And>p. p \<in> set new \<Longrightarrow> timeEventNextId l \<le> te_id (evt l1 p)" "timeEventNextId l \<le> timeEventNextId l1"
    and "\<forall>p\<in>set new. body (evt l2 p) = body (evt l1 p)" "\<forall>p\<in>set new2. timeEventNextId l1 \<le> te_id (evt l2 p)"
  shows "\<forall>p\<in>set (new2 @ new). timeEventNextId l \<le> te_id (evt l2 p)"
proof -
  have "te_id (evt l2 p) = te_id (evt l1 p)" if "p \<in> set new" for p using bodyD assms(3) that by blast
  then show ?thesis using assms(1,2,4) by (auto intro: order_trans)
qed

text \<open>The loop of a pass over \<open>ps\<close>, behind events \<open>ns\<close> that are too new for it. Enough fuel gives the result.\<close>

lemma pass_ok:
  assumes c: "clock_in os W obs lo hi" and t: "time_calls os W obs lo hi ans act" and fc: "final_calls os W obs fin"
  shows "due_at lo (evt l) ps = ds \<Longrightarrow> w \<in> W \<Longrightarrow> pass_list lo hi i l ns ps \<Longrightarrow>
    \<exists>F l' w' new. (\<forall>fuel\<ge>F. time_loop fuel os l (timeEventHead l) i n w = Inr (n + int (length ds), l', w'))
      \<and> w' \<in> W \<and> obs w' = fold (\<lambda>p. ring ans act fin (evt l p)) ds (obs w)
      \<and> after_pass lo hi (evt l) ps (answered ans act fin (evt l) ds (obs w)) l' (new @ ns)
      \<and> (\<forall>p\<in>set ns. body (evt l' p) = body (evt l p)) \<and> (\<forall>p\<in>set new. timeEventNextId l \<le> te_id (evt l' p))
      \<and> timeEventNextId l \<le> timeEventNextId l' \<and> lastTime l' = lastTime l \<and> file_part l' = file_part l
      \<and> (\<forall>p. tevs l p = None \<longrightarrow> p \<notin> set new \<longrightarrow> tevs l' p = None) \<and> (ds = [] \<longrightarrow> l' = l \<and> new = [])"
proof (induction ds arbitrary: l ps w ns n)
  case Nil
  have "\<forall>u\<in>set ps. \<not> stamp_of (evt l u) \<le> lo" using Nil.prems(1) by (simp add: due_at_def filter_empty_conv)
  note skip = pass_list_skip [of lo hi i l ns ps "[]", unfolded append_Nil2, OF Nil.prems(3) this]
  have ch: "tchain l (timeEventHead l) ((ns @ ps) @ [])" using skip(2) by simp
  from pass_walk [OF c Nil.prems(2) ch skip(1), of n] obtain w' where w': "w' \<in> W" "obs w' = obs w"
    and run: "\<And>k. time_loop (length (ns @ ps) + k) os l (timeEventHead l) i n w = time_loop k os l 0 i n w'" by auto
  have "time_loop fuel os l (timeEventHead l) i n w = Inr (n, l, w')" if le: "Suc (length (ns @ ps)) \<le> fuel" for fuel
  proof -
    obtain k where "fuel = length (ns @ ps) + Suc k" using le_Suc_ex [OF le] by auto
    then show ?thesis using run [of "Suc k"] by simp
  qed
  then show ?case using w' Nil.prems(3)
    by (intro exI [of _ "Suc (length (ns @ ps))"] exI [of _ l] exI [of _ w'] exI [of _ "[]"])
      (simp add: after_pass_def kept_def pass_list_def)
next
  case (Cons q ds)
  have "q \<in> set (due_at lo (evt l) ps)" using Cons.prems(1) by simp
  then have "\<exists>u\<in>set ps. stamp_of (evt l u) \<le> lo" by (auto simp: due_at_def)
  then obtain us q' vs where ps: "ps = us @ q' # vs" "stamp_of (evt l q') \<le> lo" and us: "\<forall>u\<in>set us. \<not> stamp_of (evt l u) \<le> lo"
    using split_list_first_prop [of ps "\<lambda>p. stamp_of (evt l p) \<le> lo"] by blast
  have q: "q' = q" "due_at lo (evt l) vs = ds" using Cons.prems(1) due_at_split [OF us ps(2), of vs] ps(1) by simp_all
  note L = Cons.prems(3) [unfolded ps(1) q(1)]
  let ?r = "answer ans (evt l q) (obs w)" and ?p1 = "us @ stays q (answer ans (evt l q) (obs w)) @ vs"
  have dist: "distinct (us @ q # vs)" using L by (simp add: pass_list_def timer_list_def timers_def)
  have lohi: "lo \<le> hi" using c Cons.prems(2) unfolding clock_in_def by (meson order_trans)
  obtain K l1 w1 new where st:
    "\<And>k. K \<le> k \<Longrightarrow> time_loop (length (ns @ us) + Suc k) os l (timeEventHead l) i n w = time_loop k os l1 (timeEventHead l1) i (n + 1) w1"
    "w1 \<in> W" "obs w1 = ring ans act fin (evt l q) (obs w)" "timer_list l1 (new @ (ns @ us) @ stays q ?r @ vs)"
    "\<And>p. p \<in> set ((ns @ us) @ vs) \<Longrightarrow> body (evt l1 p) = body (evt l p)" "\<And>p. p \<in> set new \<Longrightarrow> timeEventNextId l \<le> te_id (evt l1 p)"
    "timeEventNextId l \<le> timeEventNextId l1" "lastTime l1 = lastTime l" "file_part l1 = file_part l"
    "\<And>p. tevs l p = None \<Longrightarrow> p \<notin> set new \<Longrightarrow> tevs l1 p = None" "?r = AE_NOMORE \<Longrightarrow> tevs l1 q = None"
    "?r \<noteq> AE_NOMORE \<Longrightarrow> put_off lo hi ?r (evt l q) (evt l1 q) \<and> hi < stamp_of (evt l1 q)"
    "points l1 (new @ (ns @ us) @ stays q ?r @ vs) q ?r"
    by (rule pass_step [OF c t fc Cons.prems(2) L us ps(2) [unfolded q(1)], of n]) blast
  note nxt = pass_list_next [OF L st(4-7,12) us lohi]
  obtain F l2 w2 new2 where IH: "\<And>fuel. F \<le> fuel \<Longrightarrow> time_loop fuel os l1 (timeEventHead l1) i (n + 1) w1 = Inr (n + 1 + int (length ds), l2, w2)"
      "w2 \<in> W" "obs w2 = fold (\<lambda>p. ring ans act fin (evt l1 p)) ds (obs w1)"
      "after_pass lo hi (evt l1) ?p1 (answered ans act fin (evt l1) ds (obs w1)) l2 (new2 @ new @ ns)"
      "\<forall>p\<in>set (new @ ns). body (evt l2 p) = body (evt l1 p)" "\<forall>p\<in>set new2. timeEventNextId l1 \<le> te_id (evt l2 p)"
      "timeEventNextId l1 \<le> timeEventNextId l2" "lastTime l2 = lastTime l1" "file_part l2 = file_part l1"
      "\<forall>p. tevs l1 p = None \<longrightarrow> p \<notin> set new2 \<longrightarrow> tevs l2 p = None" "ds = [] \<longrightarrow> l2 = l1 \<and> new2 = []"
    using Cons.IH [OF nxt(2) [unfolded q(2)] st(2) nxt(1), of "n + 1"] by blast
  have run: "time_loop fuel os l (timeEventHead l) i n w = Inr (n + int (length (q # ds)), l2, w2)"
    if F: "Suc (length (ns @ us) + max K F) \<le> fuel" for fuel
  proof -
    obtain d where "fuel = length (ns @ us) + Suc (max K F + d)" using le_Suc_ex [OF F] by auto
    then show ?thesis using st(1) [of "max K F + d"] IH(1) [of "max K F + d"] by simp
  qed
  have dq: "set ds \<subseteq> set (us @ vs)" "q \<notin> set ds" using q(2) dist by (auto simp: due_at_def)
  have bd: "body (evt l1 p) = body (evt l p)" if "p \<in> set ds" for p by (rule st(5)) (use that dq(1) in auto)
  have eq: "answered ans act fin (evt l1) ds (obs w1) = answered ans act fin (evt l) ds (obs w1)"
    "fold (\<lambda>p. ring ans act fin (evt l1 p)) ds (obs w1) = fold (\<lambda>p. ring ans act fin (evt l p)) ds (obs w1)"
    by (rule answered_cong, rule bd, assumption)+
  have P: "points l2 ((new2 @ new @ ns) @ ?p1) q ?r" if "answered ans act fin (evt l) ds (obs w1) = []"
    using that answered_keys [of ans act fin "evt l" ds "obs w1"] st(13) IH(11) by simp
  have A: "after_pass lo hi (evt l) ps (answered ans act fin (evt l) (q # ds) (obs w)) l2 (new2 @ new @ ns)"
    unfolding answered_Cons ps(1) q(1) st(3) [symmetric]
    by (rule after_step [OF dist _ _ _ _ IH(4) [unfolded eq(1)] P])
      (use dq(2) answered_keys [of ans act fin "evt l" ds "obs w1"] st(5,11,12) IH(10) in auto)
  have "\<forall>p\<in>set (new2 @ new). timeEventNextId l \<le> te_id (evt l2 p)"
    using new_ids [of new l l1 l2 new2] st(6,7) IH(5,6) by simp
  moreover have "\<forall>p\<in>set ns. body (evt l2 p) = body (evt l p)" using IH(5) st(5) by simp
  moreover have "\<forall>p. tevs l p = None \<longrightarrow> p \<notin> set (new2 @ new) \<longrightarrow> tevs l2 p = None" using IH(10) st(10) by simp
  ultimately show ?case using run IH(2,3,7-9) eq(2) st(3,7-9) A
    by (intro exI [of _ "Suc (length (ns @ us) + max K F)"] exI [of _ l2] exI [of _ w2] exI [of _ "new2 @ new"]) simp
qed

section \<open>The clock set back\<close>

text \<open>The events as a pass sees them that starts at \<open>now\<close>: at zero seconds where the clock was set back.\<close>

definition seen :: "('p, 'c) aeEventLoop \<Rightarrow> int \<Rightarrow> taddr \<Rightarrow> ('p, 'c) aeTimeEvent" where
  "seen l now p = (if now < lastTime l then (evt l p)\<lparr>when_sec := 0\<rparr> else evt l p)"

definition zeroed :: "('p, 'c) aeEventLoop \<Rightarrow> taddr list \<Rightarrow> ('p, 'c) aeEventLoop" where
  "zeroed l ps = l\<lparr>tevs := (\<lambda>p. if p \<in> set ps then Some ((evt l p)\<lparr>when_sec := 0\<rparr>) else tevs l p)\<rparr>"

lemma zero_times_run:
  "tchain l p ps \<Longrightarrow> distinct ps \<Longrightarrow> length ps < fuel \<Longrightarrow> zero_times fuel l p = Inr (zeroed l ps)"
proof (induction ps arbitrary: l p fuel)
  case Nil
  then show ?case by (cases fuel) (simp_all add: zeroed_def)
next
  case (Cons q ps)
  obtain f where f: "fuel = Suc f" "length ps < f" using Cons.prems(3) by (cases fuel) auto
  have q: "p = q" "q \<noteq> 0" "tev l q = Inr (evt l q)" "tchain l (te_next (evt l q)) ps"
    using Cons.prems(1) tchain_tev [OF Cons.prems(1), of q] by auto
  let ?l = "set_tev l q ((evt l q)\<lparr>when_sec := 0\<rparr>)"
  have "tchain ?l (te_next (evt l q)) ps" using q(4) tchain_cong [of ps ?l l] Cons.prems(2) by auto
  then have "zero_times f ?l (te_next (evt l q)) = Inr (zeroed ?l ps)" using Cons.IH f(2) Cons.prems(2) by simp
  moreover have "zeroed ?l ps = zeroed l (q # ps)" using Cons.prems(2) by (auto simp: zeroed_def set_tev_def fun_eq_iff)
  ultimately show ?case using f(1) q by simp
qed

lemma zeroed_list:
  assumes "timer_list l ps"
  shows "timer_list (zeroed l ps) ps"
proof -
  have c: "tchain l (timeEventHead l) ps" using assms by (simp add: timer_list_def timers_def)
  have "set qs \<subseteq> set ps \<Longrightarrow> tchain l p qs \<Longrightarrow> tchain (zeroed l ps) p qs" for p qs
    by (induction qs arbitrary: p) (auto simp: zeroed_def)
  from this [OF order_refl c] have "timers (zeroed l ps) ps"
    using timers_cong [of l ps "zeroed l ps"] assms by (simp add: timer_list_def zeroed_def)
  then show ?thesis using assms by (simp add: timer_list_def near_in_def zeroed_def stamp_of_def normal_def)
qed

text \<open>The start of a pass: the check of the clock, then the loop over the list.\<close>

lemma pass_start:
  assumes l: "timer_list l ps" and now: "os_time os w = (now, w1)"
  obtains l0 where "timer_list l0 ps" "\<And>p. p \<in> set ps \<Longrightarrow> evt l0 p = seen l now p" "lastTime l0 = now"
    "timeEventNextId l0 = timeEventNextId l" "file_part l0 = file_part l" "\<And>p. tevs l p = None \<Longrightarrow> tevs l0 p = None"
    "\<And>fuel. length ps < fuel \<Longrightarrow> processTimeEvents fuel os l w = time_loop fuel os l0 (timeEventHead l0) (timeEventNextId l0 - 1) 0 w1"
proof -
  define l1 where "l1 = (if now < lastTime l then zeroed l ps else l)"
  let ?l0 = "l1\<lparr>lastTime := now\<rparr>"
  have c: "tchain l (timeEventHead l) ps" "distinct ps" using l by (auto simp: timer_list_def timers_def)
  have t: "timer_list l1 ps" using l zeroed_list [OF l] by (simp add: l1_def)
  have ch: "tchain ?l0 h xs = tchain l1 h xs" for h xs by (rule tchain_cong) simp
  have "timers ?l0 ps" using timers_cong [of l1 ps ?l0] t ch by (simp add: timer_list_def timers_def)
  then have T: "timer_list ?l0 ps" using t by (simp add: timer_list_def near_in_def)
  have mem: "p \<in> set ps \<Longrightarrow> tevs l p \<noteq> None" for p using tchain_tev [OF c(1)] by blast
  have run: "processTimeEvents fuel os l w = time_loop fuel os ?l0 (timeEventHead ?l0) (timeEventNextId ?l0 - 1) 0 w1"
    if "length ps < fuel" for fuel
    using zero_times_run [OF c that] now by (simp add: processTimeEvents_def l1_def)
  have fr: "tevs ?l0 p = None" if "tevs l p = None" for p using mem [of p] that by (auto simp: l1_def zeroed_def)
  show thesis
    by (rule that [OF T _ _ _ _ fr run]) (simp_all add: l1_def seen_def zeroed_def file_part_def)
qed

text \<open>A pass over the time events.\<close>

lemma pass_events:
  assumes l: "timer_list l ps" and now: "os_time os w = (now, w1)" "w1 \<in> W"
    and os: "clock_in os W obs lo hi" "time_calls os W obs lo hi ans act" "final_calls os W obs fin"
    and steady: "\<forall>p\<in>set ps. stamp_of (seen l now p) \<le> lo \<or> hi < stamp_of (seen l now p)"
  defines "ds \<equiv> due_at lo (seen l now) ps"
  shows "\<exists>F l' w' new. (\<forall>fuel\<ge>F. processTimeEvents fuel os l w = Inr (int (length ds), l', w'))
    \<and> w' \<in> W \<and> obs w' = fold (\<lambda>p. ring ans act fin (seen l now p)) ds (obs w1)
    \<and> after_pass lo hi (seen l now) ps (answered ans act fin (seen l now) ds (obs w1)) l' new
    \<and> (\<forall>p\<in>set new. timeEventNextId l \<le> te_id (evt l' p)) \<and> lastTime l' = now \<and> file_part l' = file_part l
    \<and> (\<forall>p. tevs l p = None \<longrightarrow> p \<notin> set new \<longrightarrow> tevs l' p = None)"
proof -
  obtain l0 where l0: "timer_list l0 ps" "\<And>p. p \<in> set ps \<Longrightarrow> evt l0 p = seen l now p" "lastTime l0 = now"
    "timeEventNextId l0 = timeEventNextId l" "file_part l0 = file_part l" "\<And>p. tevs l p = None \<Longrightarrow> tevs l0 p = None"
    "\<And>fuel. length ps < fuel \<Longrightarrow> processTimeEvents fuel os l w = time_loop fuel os l0 (timeEventHead l0) (timeEventNextId l0 - 1) 0 w1"
    by (rule pass_start [OF l now(1)]) blast
  have ds: "due_at lo (evt l0) ps = ds" "set ds \<subseteq> set ps"
    using l0(2) by (auto simp: ds_def due_at_def intro: filter_cong)
  have "\<forall>p\<in>set ps. te_id (evt l0 p) \<le> timeEventNextId l0 - 1" using l0(1) by (auto simp: timer_list_def timers_def)
  then have "pass_list lo hi (timeEventNextId l0 - 1) l0 [] ps" using l0(1,2) steady by (simp add: pass_list_def)
  from pass_ok [OF os ds(1) now(2) this, of 0] obtain F l' w' new where
    P: "\<forall>fuel\<ge>F. time_loop fuel os l0 (timeEventHead l0) (timeEventNextId l0 - 1) 0 w1 = Inr (int (length ds), l', w')"
      "w' \<in> W" "obs w' = fold (\<lambda>p. ring ans act fin (evt l0 p)) ds (obs w1)"
      "after_pass lo hi (evt l0) ps (answered ans act fin (evt l0) ds (obs w1)) l' new"
      "\<forall>p\<in>set new. timeEventNextId l0 \<le> te_id (evt l' p)" "lastTime l' = lastTime l0" "file_part l' = file_part l0"
      "\<forall>p. tevs l0 p = None \<longrightarrow> p \<notin> set new \<longrightarrow> tevs l' p = None"
    by auto
  have "answered ans act fin (evt l0) ds (obs w1) = answered ans act fin (seen l now) ds (obs w1)"
    "fold (\<lambda>p. ring ans act fin (evt l0 p)) ds (obs w1) = fold (\<lambda>p. ring ans act fin (seen l now p)) ds (obs w1)"
    by (rule answered_cong, use l0(2) ds(2) in auto)+
  moreover have "after_pass lo hi (evt l0) ps rs l' new = after_pass lo hi (seen l now) ps rs l' new" for rs
    unfolding after_pass_def using l0(2) by (simp cong: option.case_cong)
  moreover have "\<forall>fuel\<ge>max F (Suc (length ps)). processTimeEvents fuel os l w = Inr (int (length ds), l', w')"
    using P(1) l0(7) by simp
  ultimately show ?thesis using P l0(3-6) by (metis (no_types))
qed

section \<open>Properties\<close>

text \<open>C18. A pass over the time events, on a well-formed list with a pointer into it. The conditions are those of a
  client: while the pass runs the clock stays between \<open>lo\<close> and \<open>hi\<close>, and no event of the list gets due in between; a time
  callback answers AE_NOMORE or a number of milliseconds longer than that window, may add events at the front of the list
  (as aeCreateTimeEvent does, lemma create_adds) and leaves the file events and the other events of the list alone; a
  finalizer leaves the loop alone. Then, with enough fuel, the pass ends. It runs exactly the callbacks of the events that
  are due, each once and in the order of the list, and returns their number; where the clock was set back behind the last
  pass, the events count as due from zero seconds on. An event that answers AE_NOMORE is taken out, finalized right after
  its callback and given back; one that answers r is kept in its place and set to r milliseconds from a time of the
  pass; the others are as before; events the callbacks add are in front and do not run in this pass. The list is again well
  formed. If the last due event answered AE_NOMORE, the pointer is at an event that fires first; otherwise it is at
  least not behind that event (that it need not fire first is theorem ae_reschedule_stale).\<close>

theorem ae_pass_fires_due:
  assumes l: "timer_list l ps" and now: "os_time os w = (now, w1)" "w1 \<in> W"
    and os: "clock_in os W obs lo hi" "time_calls os W obs lo hi ans act" "final_calls os W obs fin"
    and steady: "\<forall>p\<in>set ps. stamp_of (seen l now p) \<le> lo \<or> hi < stamp_of (seen l now p)"
  defines "ds \<equiv> due_at lo (seen l now) ps"
  shows "\<exists>F l' w' new. (\<forall>fuel\<ge>F. processTimeEvents fuel os l w = Inr (int (length ds), l', w'))
    \<and> w' \<in> W \<and> obs w' = fold (\<lambda>p. ring ans act fin (seen l now p)) ds (obs w1)
    \<and> after_pass lo hi (seen l now) ps (answered ans act fin (seen l now) ds (obs w1)) l' new
    \<and> (\<forall>p\<in>set new. timeEventNextId l \<le> te_id (evt l' p)) \<and> lastTime l' = now \<and> file_part l' = file_part l"
  using pass_events [OF l now os steady] unfolding ds_def by blast

section \<open>An instance\<close>

text \<open>
  A clock that goes on by a millisecond at each look, from 10 to 20 milliseconds, where it stops. The callback 0 fires
  once, 1 is periodic with 100 milliseconds, the others create an event at address 64 when that is free, and fire once.
  Callbacks log the id of their event, finalizers minus one.
\<close>

type_synonym bell_world = "int \<times> int list"

definition bell_base :: "(nat, unit, bell_world) os" where
  "bell_base = \<lparr>os_time = (\<lambda>w. (0, w)), os_gettimeofday = (\<lambda>(t, log). ((0, 1000 * t), (min (t + 1) 20, log))),
     os_epoll_create = (\<lambda>w. (3, w)), os_epoll_ctl = (\<lambda>e op fd b w. (0, w)), os_epoll_wait = (\<lambda>e evs n t w. ((0, evs), w)),
     os_poll = (\<lambda>fd b t w. ((0, 0), w)), call_time = (\<lambda>p l i c w. Inr (AE_NOMORE, l, w)), call_file = (\<lambda>p l fd c m w. Inr (l, w)),
     call_final = (\<lambda>p l c (t, log). Inr (l, (t, log @ [- 1]))), call_before = (\<lambda>p l w. Inr (l, w))\<rparr>"

definition bell_answer :: "nat \<Rightarrow> int \<Rightarrow> unit \<Rightarrow> int list \<Rightarrow> s32" where
  "bell_answer p i c v = (if p = 1 then 100 else AE_NOMORE)"

definition bell_os :: "(nat, unit, bell_world) os" where
  "bell_os = bell_base\<lparr>call_time := \<lambda>p l i c (t, log).
     if p < 2 then Inr (bell_answer p i c log, l, (t, log @ [i]))
     else bindE (aeCreateTimeEvent bell_base (if tevs l 64 = None then 64 else 0) l 50 0 () None (t, log @ [i]))
            (\<lambda>(_, l, w). Inr (AE_NOMORE, l, w))\<rparr>"

definition bell_worlds :: "bell_world set" where
  "bell_worlds = {w. 10 \<le> fst w \<and> fst w \<le> 20}"

definition bell_loop :: "(nat, unit) aeEventLoop" where
  "bell_loop = \<lparr>maxfd = - 1, setsize = 0, timeEventNextId = 3, lastTime = 0, events = None, fired = None, timeEventHead = 8,
     stop = False, apidata = \<lparr>epfd = 3, api_events = None\<rparr>, beforesleep = None, latestTimeEvt = 24,
     tevs = [8 \<mapsto> \<lparr>te_id = 2, when_sec = 0, when_ms = 5, timeProc = 2, finalizerProc = Some 0, te_clientData = (), te_next = 16\<rparr>,
             16 \<mapsto> \<lparr>te_id = 1, when_sec = 0, when_ms = 200, timeProc = 0, finalizerProc = None, te_clientData = (), te_next = 24\<rparr>,
             24 \<mapsto> \<lparr>te_id = 0, when_sec = 0, when_ms = 0, timeProc = 1, finalizerProc = None, te_clientData = (), te_next = 0\<rparr>],
     reallocs = 0\<rparr>"

lemma bell_list: "timer_list bell_loop [8, 16, 24]"
  by (simp add: timer_list_def timers_def near_in_def normal_def stamp_of_def bell_loop_def)

lemma bell_clock: "clock_in bell_os bell_worlds snd (Stamp 0 10) (Stamp 0 20)"
  unfolding clock_in_def
proof (intro conjI ballI)
  fix w :: bell_world assume "w \<in> bell_worlds"
  then have t: "10 \<le> fst w" "fst w \<le> 20" by (auto simp: bell_worlds_def)
  show "\<exists>s us w'. os_gettimeofday bell_os w = ((s, us), w') \<and> 0 \<le> us \<and> us < 1000000 \<and> Stamp 0 10 \<le> Stamp s (us div 1000)
      \<and> Stamp s (us div 1000) \<le> Stamp 0 20 \<and> w' \<in> bell_worlds \<and> snd w' = snd w"
    using t by (cases w) (auto simp: bell_os_def bell_base_def bell_worlds_def less_eq_stamp_def)
qed (simp_all add: normal_def)

lemma bell_finals: "final_calls bell_os bell_worlds snd (\<lambda>f c v. v @ [- 1])"
  by (auto simp: final_calls_def bell_os_def bell_base_def bell_worlds_def)

lemma bell_calls: "time_calls bell_os bell_worlds snd (Stamp 0 10) (Stamp 0 20) bell_answer (\<lambda>p i c v. v @ [i])"
  unfolding time_calls_def
proof (intro conjI allI impI)
  fix p i c v
  show "bell_answer p i c v = AE_NOMORE \<or> millis (Stamp 0 20) - millis (Stamp 0 10) < sint (bell_answer p i c v)"
    by (simp add: bell_answer_def millis_def)
next
  fix p i c ps and l :: "(nat, unit) aeEventLoop" and w :: bell_world
  assume w: "w \<in> bell_worlds" and l: "timer_list l ps"
  obtain t log where tl: "w = (t, log)" "10 \<le> t" "t \<le> 20" using w by (cases w) (auto simp: bell_worlds_def)
  show "\<exists>l' w' new. call_time bell_os p l i c w = Inr (bell_answer p i c (snd w), l', w') \<and> w' \<in> bell_worlds
      \<and> snd w' = snd w @ [i] \<and> adds l ps l' new"
  proof (cases "p < 2")
    case True
    then show ?thesis using tl adds_none [OF l] by (auto simp: bell_os_def bell_worlds_def intro!: exI [of _ "[]"])
  next
    case False
    have g: "os_gettimeofday bell_base (t, log @ [i]) = ((0, 1000 * t), (min (t + 1) 20, log @ [i]))" by (simp add: bell_base_def)
    define m :: taddr where "m = (if tevs l 64 = None then 64 else 0)"
    have "m = 0 \<or> tevs l m = None" "0 \<le> 1000 * t" "1000 * t < 1000000" using tl by (simp_all add: m_def)
    from create_adds [OF l this(1) _ g this(2,3), of 50 0 "()" None]
    obtain j l' w' new where c: "aeCreateTimeEvent bell_base m l 50 0 () None (t, log @ [i]) = Inr (j, l', w')" "adds l ps l' new"
        "w' = (if m = 0 then (t, log @ [i]) else (min (t + 1) 20, log @ [i]))" by auto
    then have "w' \<in> bell_worlds" "snd w' = log @ [i]" using tl by (auto simp: bell_worlds_def)
    then show ?thesis using c(1,2) False tl(1) by (auto simp: bell_os_def bell_answer_def m_def [symmetric])
  qed
qed

text \<open>
  The event at 8 fires once, creates an event and is finalized, the one at 16 is not due, the periodic one at 24 is
  put off by 100 milliseconds.
\<close>

lemma ae_pass_fires_due_witness:
  "\<exists>F l' w' new. (\<forall>fuel\<ge>F. processTimeEvents fuel bell_os bell_loop (10, []) = Inr (2, l', w')) \<and> snd w' = [2, - 1, 0]
     \<and> timer_list l' (new @ [16, 24]) \<and> (tevs l' 8 = None \<or> 8 \<in> set new)
     \<and> 110 \<le> millis (stamp_of (evt l' 24)) \<and> millis (stamp_of (evt l' 24)) \<le> 120"
proof -
  have s: "seen bell_loop 0 p = evt bell_loop p" for p by (simp add: seen_def bell_loop_def)
  have e: "stamp_of (evt bell_loop 8) = Stamp 0 5" "stamp_of (evt bell_loop 16) = Stamp 0 200" "stamp_of (evt bell_loop 24) = Stamp 0 0"
    and v: "timeProc (evt bell_loop 8) = 2" "te_id (evt bell_loop 8) = 2" "finalizerProc (evt bell_loop 8) = Some 0"
      "timeProc (evt bell_loop 24) = 1" "te_id (evt bell_loop 24) = 0"
    by (simp_all add: bell_loop_def stamp_of_def)
  have steady: "\<forall>p\<in>set [8, 16, 24]. stamp_of (seen bell_loop 0 p) \<le> Stamp 0 10 \<or> Stamp 0 20 < stamp_of (seen bell_loop 0 p)"
    by (simp add: s e less_eq_stamp_def less_stamp_def)
  have ds: "due_at (Stamp 0 10) (seen bell_loop 0) [8, 16, 24] = [8, 24]"
    by (simp add: due_at_def s e less_eq_stamp_def)
  have t: "os_time bell_os (10, []) = (0, (10, []))" "(10, []) \<in> bell_worlds"
    by (simp_all add: bell_os_def bell_base_def bell_worlds_def)
  have rs: "answered bell_answer (\<lambda>p i c v. v @ [i]) (\<lambda>f c v. v @ [- 1]) (seen bell_loop 0) [8, 24] [] = [(8, AE_NOMORE), (24, 100)]"
    by (simp add: answered_def answer_def s v bell_answer_def)
  have r: "(100 :: s32) \<noteq> AE_NOMORE" "sint (100 :: s32) = 100" by (simp_all add: AE_NOMORE_def)
  then have k: "kept [(8, AE_NOMORE), (24, 100)] [8, 16, 24] = [16, 24]" by (simp add: kept_def)
  obtain F l' w' new where P: "\<forall>fuel\<ge>F. processTimeEvents fuel bell_os bell_loop (10, []) = Inr (2, l', w')"
      "snd w' = fold (\<lambda>p. ring bell_answer (\<lambda>p i c v. v @ [i]) (\<lambda>f c v. v @ [- 1]) (seen bell_loop 0 p)) [8, 24] []"
      "after_pass (Stamp 0 10) (Stamp 0 20) (seen bell_loop 0) [8, 16, 24] [(8, AE_NOMORE), (24, 100)] l' new"
    using ae_pass_fires_due [OF bell_list t bell_clock bell_calls bell_finals steady, unfolded ds] rs by auto
  have "snd w' = [2, - 1, 0]" using P(2) r(1) by (simp add: ring_def answer_def finish_def s v bell_answer_def)
  moreover have "timer_list l' (new @ [16, 24])" using P(3) by (simp add: after_pass_def k)
  moreover have "tevs l' 8 = None \<or> 8 \<in> set new" "put_off (Stamp 0 10) (Stamp 0 20) 100 (seen bell_loop 0 24) (evt l' 24)"
    using P(3) r(1) by (simp_all add: after_pass_def)
  ultimately show ?thesis using P(1) r(2) unfolding put_off_def
    by (intro exI [of _ F] exI [of _ l'] exI [of _ w'] exI [of _ new]) (simp add: millis_def)
qed

end
