(* ===== verification/Event_Dispatch.thy ===== *)
theory Event_Dispatch
  imports Event_Pass
begin

text \<open>
  One round of the event loop, aeProcessEvents of src/src/ae.c with the epoll layer: the time the
  kernel is asked to wait, the events it reports, the handlers they call, the time events that are due.
  The handlers act on what is watched and on the world; the specification runs them over the list of
  reported events, and the pass over the time events (Event_Pass) after them.
\<close>

section \<open>Handlers and the specification of a dispatch\<close>

type_synonym ('p, 'c, 'w) file_act = "'p \<Rightarrow> int \<Rightarrow> 'c \<Rightarrow> s32 \<Rightarrow> ('p, 'c) watching \<times> 'w \<Rightarrow> ('p, 'c) watching \<times> 'w"

text \<open>
  A reported event: its epoll bits and its descriptor. A descriptor that is no longer watched for
  what is ready calls nothing; the write handler comes second and is left out where it is the
  read handler that was just called.
\<close>

definition second_call :: "('p, 'c, 'w) file_act \<Rightarrow> int \<Rightarrow> s32 \<Rightarrow> 'p option \<Rightarrow> ('p, 'c) watching \<times> 'w \<Rightarrow> ('p, 'c) watching \<times> 'w" where
  "second_call act fd m called = (\<lambda>(A, w). case A fd of None \<Rightarrow> (A, w)
     | Some (wm, r, wr, c) \<Rightarrow> if wm AND m AND AE_WRITABLE \<noteq> 0 \<and> (called = None \<or> wr \<noteq> called) then act (the wr) fd c m (A, w) else (A, w))"

definition dispatch :: "('p, 'c, 'w) file_act \<Rightarrow> epoll_event \<Rightarrow> ('p, 'c) watching \<times> 'w \<Rightarrow> ('p, 'c) watching \<times> 'w" where
  "dispatch act = (\<lambda>(b, fd) (A, w). case A fd of None \<Rightarrow> (A, w)
     | Some (wm, r, wr, c) \<Rightarrow>
         if wm AND ready_mask b AND AE_READABLE \<noteq> 0
         then second_call act fd (ready_mask b) r (act (the r) fd c (ready_mask b) (A, w))
         else second_call act fd (ready_mask b) None (A, w))"

definition time_part :: "('p, 'c) aeEventLoop \<Rightarrow> taddr \<times> taddr \<times> int \<times> int \<times> (taddr \<rightharpoonup> ('p, 'c) aeTimeEvent)" where
  "time_part l = (timeEventHead l, latestTimeEvt l, timeEventNextId l, lastTime l, tevs l)"

text \<open>
  What a handler of the descriptor \<open>fd\<close> leaves alone: the time events, the reported events, the
  block of the event table, and its own read handler.
\<close>

definition handler_keeps :: "int \<Rightarrow> ('p, 'c) aeEventLoop \<Rightarrow> ('p, 'c) aeEventLoop \<Rightarrow> bool" where
  "handler_keeps fd l l' \<longleftrightarrow> time_part l' = time_part l \<and> fired l' = fired l \<and> reallocs l' = reallocs l
     \<and> map_option (\<lambda>ev. rfileProc (ev ! nat fd)) (events l') = map_option (\<lambda>ev. rfileProc (ev ! nat fd)) (events l)"

text \<open>\<open>act\<close> is what the handlers do to the map of watched descriptors and to the world.\<close>

definition file_handlers :: "('p, 'c, 'w) os \<Rightarrow> int \<Rightarrow> ('w \<Rightarrow> int \<Rightarrow> u32 option) \<Rightarrow> ('p, 'c, 'w) file_act \<Rightarrow> bool" where
  "file_handlers os e I act \<longleftrightarrow> (\<forall>p fd c m l w n A A' w'.
     files_ok e I (l, w, []) (n, A, []) \<longrightarrow> A fd \<noteq> None \<longrightarrow> act p fd c m (A, w) = (A', w') \<longrightarrow>
     (\<exists>l'. call_file os p l fd c m w = Inr (l', w') \<and> files_ok e I (l', w', []) (n, A', []) \<and> handler_keeps fd l l'))"

lemma handler_call:
  assumes "file_handlers os e I act" "files_ok e I (l, w, []) (n, A, [])" "A fd \<noteq> None" "act p fd c m (A, w) = (A', w')"
  shows "\<exists>l'. call_file os p l fd c m w = Inr (l', w') \<and> files_ok e I (l', w', []) (n, A', []) \<and> handler_keeps fd l l'"
  using assms unfolding file_handlers_def by blast

lemma handler_keeps_refl [simp]: "handler_keeps fd l l"
  by (simp add: handler_keeps_def)

text \<open>The entry of a watched descriptor in the table.\<close>

lemma table_entry:
  assumes "files_ok e I (l, w, rs) (n, A, rs)" "0 \<le> fd" "fd < n"
  obtains ev where "events l = Some ev" "elem (events l) fd = Inr (ev ! nat fd)" "A fd = view (ev ! nat fd)" "int (length ev) = n"
proof -
  have "table_ok l" "setsize l = n" "A = watch l" using assms(1) by simp_all
  then show thesis using that assms(2,3) by (auto simp: table_ok_def watch_def)
qed

lemma and_both: "(x :: s32) AND m AND AE_READABLE \<noteq> 0 \<Longrightarrow> x \<noteq> 0 \<and> x AND AE_READABLE \<noteq> 0"
  "x AND m AND AE_WRITABLE \<noteq> 0 \<Longrightarrow> x \<noteq> 0 \<and> x AND AE_WRITABLE \<noteq> 0"
  by (auto simp: and.assoc [symmetric] mask_tests bit_and_iff)

text \<open>The second half of \<open>run_fired\<close>; \<open>rp\<close> is the read handler that was called.\<close>

lemma second_call_ok:
  assumes h: "file_handlers os e I act" and f: "files_ok e I (l, w, []) (n, A, [])" and fd: "0 \<le> fd" "fd < n"
    and rp: "case called of None \<Rightarrow> \<not> rf | Some p \<Rightarrow> rf \<and> map_option (\<lambda>ev. rfileProc (ev ! nat fd)) (events l) = Some p"
    and r: "second_call act fd m called (A, w) = (A', w')"
  obtains l' where "bindE (elem (events l) fd) (\<lambda>fe.
       if fe_mask fe AND m AND AE_WRITABLE \<noteq> 0 \<and> (\<not> rf \<or> wfileProc fe \<noteq> rfileProc fe)
       then call_file os (wfileProc fe) l fd (clientData fe) m w else Inr (l, w)) = Inr (l', w')"
    "files_ok e I (l', w', []) (n, A', [])" "handler_keeps fd l l'"
proof -
  obtain ev where ev: "events l = Some ev" "elem (events l) fd = Inr (ev ! nat fd)" "A fd = view (ev ! nat fd)"
    by (rule table_entry [OF f fd])
  let ?fe = "ev ! nat fd"
  have same: "rf \<Longrightarrow> called = Some (rfileProc ?fe)" "\<not> rf \<Longrightarrow> called = None"
    using rp ev(1) by (auto split: option.splits)
  show thesis
  proof (cases "fe_mask ?fe AND m AND AE_WRITABLE \<noteq> 0 \<and> (\<not> rf \<or> wfileProc ?fe \<noteq> rfileProc ?fe)")
    case True
    then have "fe_mask ?fe \<noteq> 0" "fe_mask ?fe AND AE_WRITABLE \<noteq> 0" using and_both(2) by blast+
    then have a: "act (wfileProc ?fe) fd (clientData ?fe) m (A, w) = (A', w')" "A fd \<noteq> None"
      using True r ev(3) same by (auto simp: second_call_def view_def split: if_splits)
    from handler_call [OF h f a(2,1)] that True ev(2) show thesis by auto
  next
    case False
    then have "(A', w') = (A, w)"
      using r ev(3) same and_both(2) [of "fe_mask ?fe" m] by (auto simp: second_call_def view_def split: if_splits)
    then show thesis using that [of l] f ev(2) False by auto
  qed
qed

section \<open>One reported event\<close>

definition fired_entry :: "epoll_event \<Rightarrow> aeFiredEvent" where
  "fired_entry = (\<lambda>(b, fd). \<lparr>fired_fd = fd, fired_mask = ready_mask b\<rparr>)"

lemma handler_keeps_trans: "handler_keeps fd l l1 \<Longrightarrow> handler_keeps fd l1 l2 \<Longrightarrow> handler_keeps fd l l2"
  by (simp add: handler_keeps_def)

lemma run_fired_ok:
  assumes h: "file_handlers os e I act" and f: "files_ok e I (l, w, []) (n, A, [])"
    and fs: "fired l = Some fs" "j < length fs" "fs ! j = fired_entry (b, fd)" and fd: "0 \<le> fd" "fd < n"
    and d: "dispatch act (b, fd) (A, w) = (A', w')"
  shows "\<exists>l'. run_fired os l (int j) w = Inr (l', w') \<and> files_ok e I (l', w', []) (n, A', []) \<and> handler_keeps fd l l'"
proof -
  obtain ev where ev: "events l = Some ev" "elem (events l) fd = Inr (ev ! nat fd)" "A fd = view (ev ! nat fd)"
    by (rule table_entry [OF f fd])
  let ?fe = "ev ! nat fd" and ?m = "ready_mask b"
  have fj: "elem (fired l) (int j) = Inr \<lparr>fired_fd = fd, fired_mask = ?m\<rparr>" using fs by (simp add: fired_entry_def)
  show ?thesis
  proof (cases "fe_mask ?fe AND ?m AND AE_READABLE \<noteq> 0")
    case True
    then have nz: "fe_mask ?fe \<noteq> 0" "fe_mask ?fe AND AE_READABLE \<noteq> 0" using and_both(1) by blast+
    obtain A1 w1 where a: "act (rfileProc ?fe) fd (clientData ?fe) ?m (A, w) = (A1, w1)" by fastforce
    obtain l1 where l1: "call_file os (rfileProc ?fe) l fd (clientData ?fe) ?m w = Inr (l1, w1)"
        "files_ok e I (l1, w1, []) (n, A1, [])" "handler_keeps fd l l1"
      using handler_call [OF h f _ a] nz ev(3) by (auto simp: view_def)
    have "second_call act fd ?m (Some (rfileProc ?fe)) (A1, w1) = (A', w')"
      using d ev(3) nz True a by (simp add: dispatch_def view_def)
    from second_call_ok [OF h l1(2) fd _ this, of True] l1(3) ev(1)
    obtain l2 where "bindE (elem (events l1) fd) (\<lambda>fe.
       if fe_mask fe AND ?m AND AE_WRITABLE \<noteq> 0 \<and> (\<not> True \<or> wfileProc fe \<noteq> rfileProc fe)
       then call_file os (wfileProc fe) l1 fd (clientData fe) ?m w1 else Inr (l1, w1)) = Inr (l2, w')"
      "files_ok e I (l2, w', []) (n, A', [])" "handler_keeps fd l1 l2"
      by (auto simp: handler_keeps_def)
    moreover obtain ev1 where "elem (events l1) fd = Inr (ev1 ! nat fd)" by (rule table_entry [OF l1(2) fd])
    moreover have "reallocs l1 = reallocs l" using l1(3) by (simp add: handler_keeps_def)
    ultimately show ?thesis using fj ev(2) l1(1,3) True
      by (intro exI [of _ l2]) (auto simp: run_fired_def Let_def intro: handler_keeps_trans)
  next
    case False
    then have "second_call act fd ?m None (A, w) = (A', w')"
      using d ev(3) by (auto simp: dispatch_def second_call_def view_def split: if_splits)
    from second_call_ok [OF h f fd _ this, of False]
    obtain l2 where "bindE (elem (events l) fd) (\<lambda>fe.
       if fe_mask fe AND ?m AND AE_WRITABLE \<noteq> 0 \<and> (\<not> False \<or> wfileProc fe \<noteq> rfileProc fe)
       then call_file os (wfileProc fe) l fd (clientData fe) ?m w else Inr (l, w)) = Inr (l2, w')"
      "files_ok e I (l2, w', []) (n, A', [])" "handler_keeps fd l l2"
      by auto
    then show ?thesis using fj ev(2) False
      by (intro exI [of _ l2]) (auto simp: run_fired_def Let_def)
  qed
qed
section \<open>The list of reported events\<close>

lemma fill_fired_ok:
  "j + k \<le> length ae \<Longrightarrow> length fs = length ae \<Longrightarrow>
   fill_fired k (int j) (Some ae) (Some fs)
     = Inr (Some (take j fs @ map fired_entry (take k (drop j ae)) @ drop (j + k) fs))"
proof (induction k arbitrary: j fs)
  case (Suc k)
  let ?fs = "fs[j := fired_entry (ae ! j)]"
  have "take (Suc j) ?fs = take j fs @ [fired_entry (ae ! j)]" "drop (Suc j + k) ?fs = drop (j + Suc k) fs"
    using Suc.prems by (simp_all add: take_Suc_conv_app_nth)
  moreover have "take (Suc k) (drop j ae) = ae ! j # take k (drop (Suc j) ae)"
    using Suc.prems by (simp add: Cons_nth_drop_Suc [symmetric])
  moreover have "fill_fired k (int (Suc j)) (Some ae) (Some ?fs)
      = Inr (Some (take (Suc j) ?fs @ map fired_entry (take k (drop (Suc j) ae)) @ drop (Suc j + k) ?fs))"
    using Suc.IH [of "Suc j" ?fs] Suc.prems by simp
  moreover obtain b fd where "ae ! j = (b, fd)" by fastforce
  ultimately show ?case using Suc.prems by (simp add: fired_entry_def add.commute)
qed simp

lemma fired_loop_ok:
  assumes h: "file_handlers os e I act"
  shows "files_ok e I (l, w, []) (n, A, []) \<Longrightarrow> fired l = Some fs \<Longrightarrow> take (length rdy) (drop j fs) = map fired_entry rdy \<Longrightarrow>
   \<forall>x\<in>set rdy. 0 \<le> snd x \<and> snd x < n \<Longrightarrow> fold (dispatch act) rdy (A, w) = (A', w') \<Longrightarrow>
   \<exists>l'. fired_loop (length rdy) (int j) os l w = Inr (l', w') \<and> files_ok e I (l', w', []) (n, A', [])
     \<and> time_part l' = time_part l"
proof (induction rdy arbitrary: j l w A)
  case (Cons x rdy)
  obtain b fd where x: "x = (b, fd)" by (cases x)
  obtain A1 w1 where d: "dispatch act (b, fd) (A, w) = (A1, w1)" by fastforce
  have "drop j fs \<noteq> []" using Cons.prems(3) by auto
  then have j: "j < length fs" by simp
  then have "fs ! j = fired_entry (b, fd)" "take (length rdy) (drop (Suc j) fs) = map fired_entry rdy"
    using Cons.prems(3) x by (simp_all add: Cons_nth_drop_Suc [symmetric])
  moreover obtain l1 where l1: "run_fired os l (int j) w = Inr (l1, w1)" "files_ok e I (l1, w1, []) (n, A1, [])" "handler_keeps fd l l1"
    using run_fired_ok [OF h Cons.prems(1,2) j calculation(1) _ _ d] Cons.prems(4) x by auto
  moreover have "fold (dispatch act) rdy (A1, w1) = (A', w')" using Cons.prems(5) x d by simp
  moreover have "fired l1 = Some fs" "time_part l1 = time_part l" using l1(3) Cons.prems(2) by (simp_all add: handler_keeps_def)
  ultimately obtain l2 where "fired_loop (length rdy) (int (Suc j)) os l1 w1 = Inr (l2, w')" "files_ok e I (l2, w', []) (n, A', [])"
      "time_part l2 = time_part l1"
    using Cons.IH [of l1 w1 A1 "Suc j"] Cons.prems(4) by auto
  then show ?case using l1(1) \<open>time_part l1 = time_part l\<close> by (simp add: add.commute)
qed simp

text \<open>
  The events that epoll_wait reports: the first entries of the event block. \<open>reports\<close> says that,
  called with the timeout \<open>T\<close>, it answers with them, for watched descriptors and no more than the block
  has room for.
\<close>

definition reports :: "('p, 'c, 'w) os \<Rightarrow> ('p, 'c) aeEventLoop \<Rightarrow> ('w \<Rightarrow> int \<Rightarrow> u32 option) \<Rightarrow> s32 \<Rightarrow> 'w
    \<Rightarrow> epoll_event list \<Rightarrow> 'w \<Rightarrow> bool" where
  "reports os l I T w rdy w' \<longleftrightarrow> I w' = I w \<and> (\<forall>x\<in>set rdy. I w (snd x) \<noteq> None) \<and>
     (\<exists>ae. os_epoll_wait os (epfd (apidata l)) (api_events (apidata l)) (setsize l) T w = ((int (length rdy), Some ae), w')
       \<and> int (length ae) = setsize l \<and> take (length rdy) ae = rdy)"

lemma poll_ok:
  assumes f: "files_ok e I (l, w, []) (n, A, [])" and r: "reports os l I (api_timeout tv) w rdy w'"
  shows "\<exists>l' fs. aeApiPoll os l tv w = Inr (int (length rdy), l', w') \<and> files_ok e I (l', w', []) (n, A, [])
    \<and> fired l' = Some fs \<and> take (length rdy) fs = map fired_entry rdy \<and> time_part l' = time_part l"
proof -
  obtain ae where ae: "os_epoll_wait os (epfd (apidata l)) (api_events (apidata l)) (setsize l) (api_timeout tv) w = ((int (length rdy), Some ae), w')"
      "int (length ae) = setsize l" "take (length rdy) ae = rdy" and I: "I w' = I w"
    using r by (auto simp: reports_def)
  have t: "table_ok l" using f by simp
  then obtain fs where fs: "fired l = Some fs" "length fs = length ae"
    using ae(2) by (auto simp: table_ok_def)
  have le: "length rdy \<le> length ae" using arg_cong [OF ae(3), of length] by simp
  define fs' where "fs' = (if rdy = [] then fs else map fired_entry rdy @ drop (length rdy) fs)"
  let ?l = "l\<lparr>apidata := (apidata l)\<lparr>api_events := Some ae\<rparr>, fired := Some fs'\<rparr>"
  have "length fs' = length fs" using le fs(2) by (simp add: fs'_def)
  then have "table_ok ?l" using t fs(1) ae(2) by (auto simp: table_ok_def)
  moreover have "watch ?l = watch l" by (simp add: watch_def fun_eq_iff)
  moreover have "aeApiPoll os l tv w = Inr (int (length rdy), ?l, w')"
    using ae(1) fs fill_fired_ok [of 0 "length rdy" ae fs] le ae(3) by (simp add: aeApiPoll_def fs'_def)
  ultimately show ?thesis using f I
    by (intro exI [of _ ?l] exI [of _ fs']) (simp add: fs'_def time_part_def)
qed

section \<open>One round\<close>

text \<open>
  What is left until the time of the event the pointer is at, in milliseconds; \<open>w'\<close> is the world behind the look at
  the clock. \<open>wait_ms\<close> is what the kernel is asked to wait: the time left, without an event any time (minus one). For
  an overdue event it should be zero; the code keeps the milliseconds.
\<close>

definition time_left :: "('p, 'c, 'w) os \<Rightarrow> ('p, 'c) aeEventLoop \<Rightarrow> 'w \<Rightarrow> int option \<Rightarrow> 'w \<Rightarrow> bool" where
  "time_left os l w D w' \<longleftrightarrow> (if latestTimeEvt l = 0 then D = None \<and> w' = w
     else \<exists>s us. os_gettimeofday os w = ((s, us), w') \<and> 0 \<le> us \<and> us < 1000000
       \<and> D = Some (until (stamp_of (evt l (latestTimeEvt l))) s us))"

definition wait_ms :: "int option \<Rightarrow> s32" where
  "wait_ms D = (case D of None \<Rightarrow> - 1 | Some d \<Rightarrow> word_of_int (if 0 \<le> d then d else d mod 1000))"

lemma poll_time_ok:
  assumes t: "timer_list l ps" and s: "time_left os l w D w'"
  obtains tv where "poll_time os l AE_ALL_EVENTS w = Inr (tv, w')" "api_timeout tv = wait_ms D"
proof (cases "latestTimeEvt l = 0")
  case True
  then show thesis
    using that [of None] s by (simp add: poll_time_def aeSearchNearestTimer_def time_left_def wait_ms_def ae_consts api_timeout_def)
next
  case False
  let ?t = "evt l (latestTimeEvt l)"
  obtain s us where g: "os_gettimeofday os w = ((s, us), w')" "0 \<le> us" "us < 1000000" "D = Some (until (stamp_of ?t) s us)"
    using s False by (auto simp: time_left_def)
  have "ps \<noteq> []" using t False by (auto simp: timer_list_def near_in_def)
  note near = near_tev [OF t this]
  have "normal (stamp_of ?t)" using t near(1) by (simp add: timer_list_def)
  then have "api_timeout (Some (sleep_time (when_sec ?t, when_ms ?t) (s, us div 1000))) = wait_ms D"
    using timeout_left [of "stamp_of ?t" us s] g(2-4) by (simp add: normal_def wait_ms_def stamp_of_def)
  then show thesis
    using that near(2) False g by (simp add: poll_time_def aeSearchNearestTimer_def ae_consts aeGetTime_def sdiv_1000 Let_def)
qed

lemma timers_same:
  assumes "timer_list l ps" "time_part l' = time_part l"
  shows "timer_list l' ps" "seen l' now = seen l now"
proof -
  have e: "tevs l' = tevs l" "timeEventHead l' = timeEventHead l" "latestTimeEvt l' = latestTimeEvt l" "timeEventNextId l' = timeEventNextId l"
      "lastTime l' = lastTime l"
    using assms(2) by (simp_all add: time_part_def)
  have t: "timers l ps" using assms(1) by (simp add: timer_list_def)
  then have "tchain l' (timeEventHead l') ps" using tchain_cong [of ps l' l] e by (simp add: timers_def)
  then have "timers l' ps" by (rule timers_cong [OF t]) (simp_all add: e)
  then show "timer_list l' ps" using assms(1) e by (simp add: timer_list_def near_in_def)
  show "seen l' now = seen l now" by (simp add: seen_def e fun_eq_iff)
qed

text \<open>The first half of a round: waiting, and the handlers of the reported events.\<close>

lemma file_half:
  assumes loop: "files_ok e I (l, w0, []) (n, A, [])" and h: "file_handlers os e I act"
    and r: "reports os l I (api_timeout tv) w0 rdy w1" and run: "fold (dispatch act) rdy (A, w1) = (A', w2)"
  obtains l1 l2 where "aeApiPoll os l tv w0 = Inr (int (length rdy), l1, w1)" "fired_loop (length rdy) 0 os l1 w1 = Inr (l2, w2)"
    "files_ok e I (l2, w2, []) (n, A', [])" "time_part l2 = time_part l"
proof -
  from poll_ok [OF loop r] obtain l1 fs where l1: "aeApiPoll os l tv w0 = Inr (int (length rdy), l1, w1)"
      "files_ok e I (l1, w1, []) (n, A, [])" "fired l1 = Some fs" "take (length rdy) fs = map fired_entry rdy" "time_part l1 = time_part l"
    by blast
  have "0 \<le> snd x \<and> snd x < n" if "x \<in> set rdy" for x
  proof -
    have "I w0 (snd x) \<noteq> None" using r that by (auto simp: reports_def)
    then have "watch l (snd x) \<noteq> None" using loop by (auto simp: bits_of_def)
    moreover obtain ev where "events l = Some ev" "int (length ev) = n" using loop by (auto simp: table_ok_def)
    ultimately show ?thesis using watch_used [of l ev "snd x"] by simp
  qed
  then obtain l2 where "fired_loop (length rdy) 0 os l1 w1 = Inr (l2, w2)" "files_ok e I (l2, w2, []) (n, A', [])" "time_part l2 = time_part l1"
    using fired_loop_ok [OF h l1(2,3), of rdy 0 A' w2] l1(4) run by auto
  then show thesis using that l1(1,5) by simp
qed

lemma files_same:
  "files_ok e I (l, w, []) (n, A, []) \<Longrightarrow> file_part l' = file_part l \<Longrightarrow> I w' = I w \<Longrightarrow> files_ok e I (l', w', []) (n, A, [])"
  by (auto simp: file_part_def table_ok_def watch_def fun_eq_iff)

text \<open>C3. One round of the event loop, on a loop with a well-formed table, interest set and list of time events, the
  pointer being into that list. The conditions: handlers act on what is watched and on the world, and leave the time events,
  their own read handler and the size of the table alone (a handler that resizes the table makes the loop read a block
  that was given back, ae_resize_in_handler); the clock, the time callbacks and the finalizers are as for a pass
  (ae_pass_fires_due: callbacks may add time events and may answer that they are to be called again), and during the pass what
  the kernel watches stays. Then, with enough fuel, aeProcessEvents ends. It asks the kernel to wait for the time left until the
  event the pointer is at: without an event for any time, with D milliseconds left for D, taken as an int. The pointer is at the
  event that fires first unless a rescheduled event has left it stale, and for an overdue event the code does not wait zero but D mod
  1000 milliseconds: both are defects, stated by ae_reschedule_stale and ae_sleeps_until. Then it runs the handlers of the reported events
  in their order, each for the descriptors that are still watched when its turn comes, the read handler before the write handler and a
  common one once, then the due time events as a pass does. It answers the number of reported and due events and leaves
  the loop well formed, with the watched descriptors the handlers leave and the time events the pass leaves.\<close>

theorem ae_process_events:
  assumes loop: "files_ok e I (l, w, []) (n, A, [])" "timer_list l ps"
    and poll: "time_left os l w D w0" "I w0 = I w" "reports os l I (wait_ms D) w0 rdy w1"
    and files: "file_handlers os e I act" "fold (dispatch act) rdy (A, w1) = (A', w2)"
    and now: "os_time os w2 = (now, w3)" "w3 \<in> W" "\<And>v. v \<in> W \<Longrightarrow> I v = I w2"
    and os: "clock_in os W obs lo hi" "time_calls os W obs lo hi ans tact" "final_calls os W obs fin"
    and steady: "\<forall>p\<in>set ps. stamp_of (seen l now p) \<le> lo \<or> hi < stamp_of (seen l now p)"
  defines "ds \<equiv> due_at lo (seen l now) ps"
  shows "\<exists>F l' w' new. (\<forall>fuel\<ge>F. aeProcessEvents fuel os l AE_ALL_EVENTS w = Inr (int (length rdy) + int (length ds), l', w'))
    \<and> files_ok e I (l', w', []) (n, A', [])
    \<and> w' \<in> W \<and> obs w' = fold (\<lambda>p. ring ans tact fin (seen l now p)) ds (obs w3)
    \<and> after_pass lo hi (seen l now) ps (answered ans tact fin (seen l now) ds (obs w3)) l' new
    \<and> (\<forall>p\<in>set new. timeEventNextId l \<le> te_id (evt l' p)) \<and> lastTime l' = now"
proof -
  obtain tv where tv: "poll_time os l AE_ALL_EVENTS w = Inr (tv, w0)" "api_timeout tv = wait_ms D"
    by (rule poll_time_ok [OF loop(2) poll(1)])
  have "files_ok e I (l, w0, []) (n, A, [])" using files_same [OF loop(1) refl poll(2)] .
  then obtain l1 l2 where l2: "aeApiPoll os l tv w0 = Inr (int (length rdy), l1, w1)" "fired_loop (length rdy) 0 os l1 w1 = Inr (l2, w2)"
    "files_ok e I (l2, w2, []) (n, A', [])" "time_part l2 = time_part l"
    by (rule file_half [OF _ files(1) poll(3) [folded tv(2)] files(2)])
  note T = timers_same [OF loop(2) l2(4)]
  have nx: "timeEventNextId l2 = timeEventNextId l" using l2(4) by (simp add: time_part_def)
  obtain F l' w' new where P: "\<forall>fuel\<ge>F. processTimeEvents fuel os l2 w2 = Inr (int (length ds), l', w')"
    "w' \<in> W" "obs w' = fold (\<lambda>p. ring ans tact fin (seen l now p)) ds (obs w3)"
    "after_pass lo hi (seen l now) ps (answered ans tact fin (seen l now) ds (obs w3)) l' new"
    "\<forall>p\<in>set new. timeEventNextId l \<le> te_id (evt l' p)" "lastTime l' = now" "file_part l' = file_part l2"
    using pass_events [OF T(1) now(1,2) os, unfolded T(2) nx, OF steady] unfolding ds_def by blast
  have "files_ok e I (l', w', []) (n, A', [])" by (rule files_same [OF l2(3) P(7) now(3) [OF P(2)]])
  moreover have "\<forall>fuel\<ge>F. aeProcessEvents fuel os l AE_ALL_EVENTS w = Inr (int (length rdy) + int (length ds), l', w')"
    using tv(1) l2(1,2) P(1) by (simp add: aeProcessEvents_def ae_consts)
  ultimately show ?thesis using P(2-6) by blast
qed

section \<open>A handler that resizes the table\<close>

lemma resize_reallocs:
  assumes "aeResizeSetSize zra zre zrf l k = Inr (AE_OK, l')" "k \<noteq> setsize l" "zre (events l) k \<noteq> None"
  shows "reallocs l' = reallocs l + 1"
  using assms by (auto simp: aeResizeSetSize_def aeApiResize_def Let_def bindE_Inr_iff AE_OK_def AE_ERR_def split: if_splits)

text \<open>A read handler may resize the table with the loop's own function: the loop then reads the mask of
  the event through a pointer into the block that zrealloc has given back.\<close>

theorem ae_resize_in_handler:
  assumes f: "files_ok e I (l, w, []) (n, A, [])" and zr: "realloc_ok zra" "realloc_ok zre" "realloc_ok zrf"
    and k: "0 \<le> k" "k \<noteq> n" "\<forall>fd\<ge>k. A fd = None"
    and fs: "fired l = Some fs" "j < length fs" "fs ! j = fired_entry (b, fd)"
    and fd: "A fd = Some (wm, Some p, wr, c)" "wm AND ready_mask b AND AE_READABLE \<noteq> 0"
    and call: "call_file os p l fd c (ready_mask b) w = bindE (aeResizeSetSize zra zre zrf l k) (\<lambda>(r, l). Inr (l, w))"
  shows "run_fired os l (int j) w = Inl Dangling"
proof -
  obtain ev where ev: "events l = Some ev" "int (length ev) = n" using f by (auto simp: table_ok_def)
  have W: "A = watch l" "setsize l = n" using f by simp_all
  have r: "0 \<le> fd" "fd < n" "A fd = view (ev ! nat fd)" using watch_used [OF ev(1), of fd] fd(1) W(1) ev(2) by auto
  obtain l' where "aeResizeSetSize zra zre zrf l k = Inr (AE_OK, l')" using resize_ok [OF f k(1) zr] k(3) by auto
  moreover have "zre (events l) k \<noteq> None" using zr(2) k(1) ev(1) by (auto simp: realloc_ok_def)
  ultimately have "aeResizeSetSize zra zre zrf l k = Inr (AE_OK, l')" "reallocs l' = reallocs l + 1"
    using resize_reallocs [of zra zre zrf l k l'] k(2) W(2) by simp_all
  moreover have "fe_mask (ev ! nat fd) = wm" "rfileProc (ev ! nat fd) = p" "clientData (ev ! nat fd) = c"
    using r(3) fd(1) by (auto simp: view_def split: if_splits)
  ultimately show ?thesis
    using fs ev r(1,2) fd(2) call by (simp add: run_fired_def fired_entry_def Let_def)
qed

section \<open>An instance\<close>

text \<open>
  Two descriptors, both watched for reading and both reported. The handler of the first, 0, stops
  watching the second one; every call of a handler is logged. A periodic time event with the id 40 is due.
\<close>

lemma delete_keeps:
  assumes "aeDeleteFileEvent os l g msk w = Inr (l', w')"
  shows "handler_keeps fd l l'"
proof (cases "g < setsize l")
  case True
  then obtain fe where fe: "elem (events l) g = Inr fe" using assms by (auto simp: aeDeleteFileEvent_def bindE_Inr_iff)
  then obtain ev where ev: "events l = Some ev" "0 \<le> g" "g < int (length ev)" "fe = ev ! nat g"
    by (auto simp: elem_def derefE_def split: option.splits if_splits)
  have "rfileProc (ev[nat g := (ev ! nat g)\<lparr>fe_mask := m\<rparr>] ! nat fd) = rfileProc (ev ! nat fd)" for m
  proof -
    have "nat g < length ev" using ev(2,3) by simp
    then show ?thesis by (cases "nat fd = nat g") simp_all
  qed
  then show ?thesis
    using assms True ev fe by (auto simp: aeDeleteFileEvent_def bindE_Inr_iff handler_keeps_def time_part_def Let_def split: if_splits)
qed (use assms in \<open>simp add: aeDeleteFileEvent_def\<close>)

type_synonym drop_world = "(int \<Rightarrow> u32 option) \<times> int list"

definition drop_base :: "(nat, unit, drop_world) os" where
  "drop_base = \<lparr>os_time = (\<lambda>w. (0, w)), os_gettimeofday = (\<lambda>w. ((0, 0), w)), os_epoll_create = (\<lambda>w. (3, w)),
     os_epoll_ctl = (\<lambda>e op fd b w. (fst (demo_ctl e op fd b (fst w)), (snd (demo_ctl e op fd b (fst w)), snd w))),
     os_epoll_wait = (\<lambda>e evs n t w. ((2, Some [(EPOLLIN, 0), (EPOLLIN, 1)]), w)), os_poll = (\<lambda>fd b t w. ((0, 0), w)),
     call_time = (\<lambda>p l i c w. Inr (100, l, (fst w, snd w @ [i]))), call_file = (\<lambda>p l fd c m w. Inr (l, w)),
     call_final = (\<lambda>p l c w. Inr (l, w)), call_before = (\<lambda>p l w. Inr (l, w))\<rparr>"

definition drop_os :: "(nat, unit, drop_world) os" where
  "drop_os = drop_base\<lparr>call_file := \<lambda>p l fd c m w.
     if p = 0 then aeDeleteFileEvent drop_base l 1 1 (fst w, snd w @ [fd]) else Inr (l, (fst w, snd w @ [fd]))\<rparr>"

fun drop_act :: "(nat, unit, drop_world) file_act" where
  "drop_act p fd c m (A, w) =
     (if p = 0 then (A(1 := watch_less 1 (A 1)), (bits_of (A(1 := watch_less 1 (A 1))), snd w @ [fd])) else (A, (fst w, snd w @ [fd])))"

definition drop_loop :: "(nat, unit) aeEventLoop" where
  "drop_loop = \<lparr>maxfd = 1, setsize = 2, timeEventNextId = 41, lastTime = 0,
     events = Some [\<lparr>fe_mask = 1, rfileProc = 0, wfileProc = 0, clientData = ()\<rparr>, \<lparr>fe_mask = 1, rfileProc = 1, wfileProc = 0, clientData = ()\<rparr>],
     fired = Some (replicate 2 \<lparr>fired_fd = 0, fired_mask = 0\<rparr>), timeEventHead = 8, stop = False,
     apidata = \<lparr>epfd = 3, api_events = Some [(0, 0), (0, 0)]\<rparr>, beforesleep = None, latestTimeEvt = 8,
     tevs = [8 \<mapsto> \<lparr>te_id = 40, when_sec = 0, when_ms = 0, timeProc = 7, finalizerProc = None, te_clientData = (), te_next = 0\<rparr>], reallocs = 0\<rparr>"

lemma drop_kernel: "epoll_kernel drop_base e {0..} fst"
  unfolding epoll_kernel_def
proof (intro allI impI)
  fix op fd b r and w w' :: drop_world
  assume "os_epoll_ctl drop_base e op fd b w = (r, w')"
  then have "os_epoll_ctl demo_os e op fd b (fst w) = (r, fst w')" by (auto simp: drop_base_def demo_os_def)
  with demo_kernel [unfolded epoll_kernel_def]
  show "if if op = EPOLL_CTL_ADD then fst w fd = None \<and> fd \<in> {0..} else fst w fd \<noteq> None
      then r \<noteq> - 1 \<and> fst w' = (fst w)(fd := if op = EPOLL_CTL_DEL then None else Some b) else r = - 1 \<and> fst w' = fst w"
    by (cases op) (auto simp: demo_os_def split: if_splits)
qed

lemma drop_log: "aeDeleteFileEvent drop_base l g msk w = Inr (l', w') \<Longrightarrow> snd w' = snd w"
  by (auto simp: aeDeleteFileEvent_def aeApiDelEvent_def bindE_Inr_iff Let_def drop_base_def split: if_splits)

lemma drop_handlers: "file_handlers drop_os e fst drop_act"
  unfolding file_handlers_def
proof (intro allI impI)
  fix p fd c m l n A A' and w w' :: drop_world
  assume f: "files_ok e fst (l, w, []) (n, A, [])" and a: "drop_act p fd c m (A, w) = (A', w')"
  show "\<exists>l'. call_file drop_os p l fd c m w = Inr (l', w') \<and> files_ok e fst (l', w', []) (n, A', []) \<and> handler_keeps fd l l'"
  proof (cases "p = 0")
    case True
    have "files_ok e fst (l, (fst w, snd w @ [fd]), []) (n, A, [])" using f by simp
    from delete_file_ok [OF this drop_kernel, of 1 1] obtain l1 w1 where
      d: "aeDeleteFileEvent drop_base l 1 1 (fst w, snd w @ [fd]) = Inr (l1, w1)"
        "files_ok e fst (l1, w1, []) (n, A(1 := watch_less 1 (A 1)), [])" by auto
    have "w1 = w'" using a True d(2) drop_log [OF d(1)] by (cases w1) auto
    then show ?thesis using a True d delete_keeps [OF d(1), of fd] by (auto simp: drop_os_def)
  qed (use f a in \<open>auto simp: drop_os_def\<close>)
qed

lemma drop_watch: "watch drop_loop = (\<lambda>fd. if fd = 0 then Some (1, Some 0, None, ()) else if fd = 1 then Some (1, Some 1, None, ()) else None)"
  by (rule ext) (auto simp: watch_def drop_loop_def view_def AE_READABLE_def AE_WRITABLE_def nth_Cons')

lemma drop_fields: "setsize drop_loop = 2" "latestTimeEvt drop_loop = 8" "lastTime drop_loop = 0"
  "evt drop_loop 8 = \<lparr>te_id = 40, when_sec = 0, when_ms = 0, timeProc = 7, finalizerProc = None, te_clientData = (), te_next = 0\<rparr>"
  by (simp_all add: drop_loop_def)

lemma drop_list: "timer_list drop_loop [8]"
  by (simp add: timer_list_def timers_def near_in_def normal_def stamp_of_def drop_loop_def)

text \<open>The time events of the instance: a clock that stands at zero, callbacks to be called again in 100 milliseconds.\<close>

lemma drop_times:
  "clock_in drop_os {v. fst v = K} snd (Stamp 0 0) (Stamp 0 0)"
    "time_calls drop_os {v. fst v = K} snd (Stamp 0 0) (Stamp 0 0) (\<lambda>p i c v. 100) (\<lambda>p i c v. v @ [i])"
    "final_calls drop_os {v. fst v = K} snd (\<lambda>f c v. v)"
proof -
  show "clock_in drop_os {v. fst v = K} snd (Stamp 0 0) (Stamp 0 0)"
    by (simp add: clock_in_def drop_os_def drop_base_def normal_def)
  show "time_calls drop_os {v. fst v = K} snd (Stamp 0 0) (Stamp 0 0) (\<lambda>p i c v. 100) (\<lambda>p i c v. v @ [i])"
    using adds_none by (fastforce simp: time_calls_def drop_os_def drop_base_def)
  show "final_calls drop_os {v. fst v = K} snd (\<lambda>f c v. v)" by (simp add: final_calls_def drop_os_def drop_base_def)
qed

lemma drop_loop_ok: "files_ok 3 fst (drop_loop, (bits_of (watch drop_loop), []), []) (2, watch drop_loop, [])"
  by (simp add: table_ok_def drop_loop_def less_Suc_eq)

lemma ae_process_events_witness:
  "\<exists>F l' K new. (\<forall>fuel\<ge>F. aeProcessEvents fuel drop_os drop_loop AE_ALL_EVENTS (bits_of (watch drop_loop), []) = Inr (3, l', (K, [0, 40])))
     \<and> watch l' 1 = None \<and> watch l' 0 \<noteq> None \<and> timer_list l' (new @ [8]) \<and> millis (stamp_of (evt l' 8)) = 100"
proof -
  let ?A = "watch drop_loop" and ?rdy = "[(EPOLLIN, 0), (EPOLLIN, 1)] :: epoll_event list"
  let ?w = "(bits_of ?A, [] :: int list)" and ?w2 = "(bits_of ((watch drop_loop)(1 := None)), [0 :: int])"
  have p: "time_left drop_os drop_loop ?w (Some 0) ?w" "reports drop_os drop_loop fst (wait_ms (Some 0)) ?w ?rdy ?w"
    by (simp_all add: time_left_def reports_def drop_fields drop_os_def drop_base_def bits_of_def drop_watch until_def stamp_of_def millis_def)
  have less: "watch_less 1 (?A 1) = None" by (simp add: drop_watch watch_less_def)
  have m: "ready_mask EPOLLIN = 1" by (simp add: ready_mask_def EPOLLIN_def EPOLLOUT_def EPOLLERR_def EPOLLHUP_def AE_READABLE_def AE_WRITABLE_def)
  have r: "fold (dispatch drop_act) ?rdy (?A, ?w) = (?A(1 := None), ?w2)"
    using less by (simp add: dispatch_def second_call_def drop_watch m AE_READABLE_def AE_WRITABLE_def)
  have now: "os_time drop_os ?w2 = (0, ?w2)" "?w2 \<in> {v. fst v = fst ?w2}" "\<And>v. v \<in> {v. fst v = fst ?w2} \<Longrightarrow> fst v = fst ?w2"
    by (simp_all add: drop_os_def drop_base_def)
  have s: "seen drop_loop 0 8 = evt drop_loop 8" by (simp add: seen_def drop_fields)
  have steady: "\<forall>p\<in>set [8]. stamp_of (seen drop_loop 0 p) \<le> Stamp 0 0 \<or> Stamp 0 0 < stamp_of (seen drop_loop 0 p)"
    by (auto simp: not_le)
  have ds: "due_at (Stamp 0 0) (seen drop_loop 0) [8] = [8]" by (simp add: due_at_def s drop_fields stamp_of_def)
  have k: "(100 :: s32) \<noteq> AE_NOMORE" "sint (100 :: s32) = 100" by (simp_all add: AE_NOMORE_def)
  obtain F l' w' new where P:
      "\<forall>fuel\<ge>F. aeProcessEvents fuel drop_os drop_loop AE_ALL_EVENTS ?w = Inr (3, l', w')"
      "files_ok 3 fst (l', w', []) (2, ?A(1 := None), [])" "snd w' = [0, 40]"
      "after_pass (Stamp 0 0) (Stamp 0 0) (seen drop_loop 0) [8] [(8, 100)] l' new"
    using ae_process_events [OF drop_loop_ok drop_list p(1) refl p(2) drop_handlers r now drop_times steady, unfolded ds] k
    by (auto simp: ring_def answer_def answered_def s drop_fields)
  have "watch l' = ?A(1 := None)" using P(2) by simp
  moreover have "timer_list l' (new @ [8])" "millis (stamp_of (evt l' 8)) = 100"
    using P(4) k by (simp_all add: after_pass_def kept_def put_off_def s drop_fields stamp_of_def millis_def)
  ultimately show ?thesis using P(1,3)
    by (intro exI [of _ F] exI [of _ l'] exI [of _ "fst w'"] exI [of _ new]) (simp add: drop_watch prod_eq_iff)
qed

end
