(* ===== verification/File_IO.thy ===== *)
theory File_IO
  imports Spg_Prelude
begin

text \<open>
  src/src/wr_file.c with src/include/wr_file.h on a model of the C library's streams: named
  files with their bytes, open streams with a position, permissions per path and a greatest
  file size. What is written is in the file at once: the buffering of stdio, which a second
  stream could see before fflush, is left out. fcntl, which only the lock functions call, is
  a parameter. A FILE pointer is a number, 0 is NULL.
\<close>

section \<open>Streams of the C library\<close>

record stream =
  s_path :: string
  s_pos :: nat
  s_rd :: bool
  s_wr :: bool
  s_app :: bool
  s_eof :: bool

record fsys =
  content :: "string \<rightharpoonup> u8 list"
  streams :: "nat \<rightharpoonup> stream"
  may_read :: "string \<Rightarrow> bool"
  may_write :: "string \<Rightarrow> bool"
  may_create :: "string \<Rightarrow> bool"
  limit :: nat

datatype access_mode = F_OK | R_OK | W_OK

definition fs_access :: "fsys \<Rightarrow> string \<Rightarrow> access_mode \<Rightarrow> s32" where
  "fs_access fs p m = (if content fs p = None then - 1
     else case m of F_OK \<Rightarrow> 0 | R_OK \<Rightarrow> if may_read fs p then 0 else - 1 | W_OK \<Rightarrow> if may_write fs p then 0 else - 1)"

datatype fmode = Mode_w | Mode_r | Mode_rbplus | Mode_aplus

definition fmode_ok :: "fsys \<Rightarrow> string \<Rightarrow> fmode \<Rightarrow> bool" where
  "fmode_ok fs p m = (case m of
       Mode_w \<Rightarrow> if content fs p = None then may_create fs p else may_write fs p
     | Mode_r \<Rightarrow> content fs p \<noteq> None \<and> may_read fs p
     | Mode_rbplus \<Rightarrow> content fs p \<noteq> None \<and> may_read fs p \<and> may_write fs p
     | Mode_aplus \<Rightarrow> if content fs p = None then may_create fs p else may_read fs p \<and> may_write fs p)"

text \<open>\<open>h\<close> is the stream the library would hand out, 0 where it has none left.\<close>

definition fopen :: "nat \<Rightarrow> fsys \<Rightarrow> string \<Rightarrow> fmode \<Rightarrow> nat \<times> fsys" where
  "fopen h fs p m =
     (if h = 0 \<or> \<not> fmode_ok fs p m then (0, fs)
      else let bytes = (if m = Mode_w \<or> content fs p = None then [] else the (content fs p)) in
           (h, fs\<lparr>content := (content fs)(p \<mapsto> bytes),
                  streams := (streams fs)(h \<mapsto> \<lparr>s_path = p, s_pos = 0, s_rd = (m \<noteq> Mode_w), s_wr = (m \<noteq> Mode_r),
                    s_app = (m = Mode_aplus), s_eof = False\<rparr>)\<rparr>))"

definition stream_at :: "fsys \<Rightarrow> nat \<Rightarrow> fault + stream" where
  "stream_at fs f = (if f = 0 then Inl Null_Deref
     else case streams fs f of None \<Rightarrow> Inl Dangling | Some s \<Rightarrow> Inr s)"

definition fclose :: "fsys \<Rightarrow> nat \<Rightarrow> fault + s32 \<times> fsys" where
  "fclose fs f = bindE (stream_at fs f) (\<lambda>_. Inr (0, fs\<lparr>streams := (streams fs)(f := None)\<rparr>))"

datatype whence = SEEK_SET | SEEK_END

definition fseek :: "fsys \<Rightarrow> nat \<Rightarrow> int \<Rightarrow> whence \<Rightarrow> fault + s32 \<times> fsys" where
  "fseek fs f off wh = bindE (stream_at fs f) (\<lambda>s.
     let bytes = (case content fs (s_path s) of None \<Rightarrow> [] | Some b \<Rightarrow> b);
         to = (case wh of SEEK_SET \<Rightarrow> off | SEEK_END \<Rightarrow> int (length bytes) + off) in
     if to < 0 then Inr (- 1, fs)
     else Inr (0, fs\<lparr>streams := (streams fs)(f \<mapsto> s\<lparr>s_pos := nat to, s_eof := False\<rparr>)\<rparr>))"

text \<open>Bytes put at a position; a gap behind the end reads as zeros.\<close>

definition put_at :: "nat \<Rightarrow> u8 list \<Rightarrow> u8 list \<Rightarrow> u8 list" where
  "put_at pos d b = (if d = [] then b
     else take pos (b @ replicate (pos - length b) 0) @ d @ drop (pos + length d) b)"

definition fwrite :: "fsys \<Rightarrow> nat \<Rightarrow> u8 list \<Rightarrow> fault + nat \<times> fsys" where
  "fwrite fs f d = bindE (stream_at fs f) (\<lambda>s.
     if \<not> s_wr s then Inr (0, fs)
     else let bytes = (case content fs (s_path s) of None \<Rightarrow> [] | Some b \<Rightarrow> b);
              pos = (if s_app s then length bytes else s_pos s);
              d = take (limit fs - pos) d
          in Inr (length d, fs\<lparr>content := (content fs)(s_path s \<mapsto> put_at pos d bytes),
                               streams := (streams fs)(f \<mapsto> s\<lparr>s_pos := pos + length d\<rparr>)\<rparr>))"

definition fread :: "fsys \<Rightarrow> nat \<Rightarrow> nat \<Rightarrow> fault + u8 list \<times> fsys" where
  "fread fs f n = bindE (stream_at fs f) (\<lambda>s.
     if \<not> s_rd s then Inr ([], fs)
     else let bytes = (case content fs (s_path s) of None \<Rightarrow> [] | Some b \<Rightarrow> b);
              d = take n (drop (s_pos s) bytes)
          in Inr (d, fs\<lparr>streams := (streams fs)(f \<mapsto> s\<lparr>s_pos := s_pos s + length d, s_eof := length d < n\<rparr>)\<rparr>))"

text \<open>fflush of NULL flushes all streams.\<close>

definition fflush :: "fsys \<Rightarrow> nat \<Rightarrow> fault + s32" where
  "fflush fs f = (if f = 0 then Inr 0 else bindE (stream_at fs f) (\<lambda>_. Inr 0))"

definition feof :: "fsys \<Rightarrow> nat \<Rightarrow> fault + bool" where
  "feof fs f = bindE (stream_at fs f) (\<lambda>s. Inr (s_eof s))"

definition clearerr :: "fsys \<Rightarrow> nat \<Rightarrow> fault + fsys" where
  "clearerr fs f = bindE (stream_at fs f) (\<lambda>s. Inr (fs\<lparr>streams := (streams fs)(f \<mapsto> s\<lparr>s_eof := False\<rparr>)\<rparr>))"

text \<open>A read on a stream that is not open for reading is the one error a stream reports here.\<close>

definition ferror :: "fsys \<Rightarrow> nat \<Rightarrow> fault + bool" where
  "ferror fs f = bindE (stream_at fs f) (\<lambda>s. Inr (\<not> s_rd s))"

text \<open>The descriptor of a stream; never - 1.\<close>

definition fileno :: "nat \<Rightarrow> int" where
  "fileno f = int f + 2"

section \<open>File objects\<close>

text \<open>wf_struct and rf_struct have the same fields; \<open>ops\<close> says which operations they carry.\<close>

datatype file_ops = Wf_Ops | Rf_Ops | Af_Ops

record file_obj =
  ops :: file_ops
  fptr :: nat
  path :: string
  fd :: int

definition WRFILE_RET_LOCK_OCCUPIED :: s32 where "WRFILE_RET_LOCK_OCCUPIED = 0xf1"

definition file_open :: "nat \<Rightarrow> fsys \<Rightarrow> string \<Rightarrow> fmode \<Rightarrow> fault + nat \<times> fsys" where
  "file_open h fs p m =
     bindE (if fs_access fs p F_OK \<noteq> 0
            then let (fl, fs) = fopen h fs p Mode_w in bindE (fclose fs fl) (\<lambda>(_, fs). Inr fs)
            else Inr fs) (\<lambda>fs. Inr (fopen h fs p m))"

definition file_close :: "fsys \<Rightarrow> nat \<Rightarrow> fault + s32 \<times> fsys" where
  "file_close fs fl = fclose fs fl"

datatype lock_type = F_RDLCK | F_WRLCK | F_UNLCK
datatype lock_cmd = F_SETLK | F_SETLKW

text \<open>fcntl gives its return value and whether errno is EACCES or EAGAIN.\<close>

type_synonym fcntl_fn = "int \<Rightarrow> lock_cmd \<Rightarrow> lock_type \<Rightarrow> s32 \<times> bool"

definition file_unlock :: "fcntl_fn \<Rightarrow> int \<Rightarrow> s32" where
  "file_unlock fcntl d = fst (fcntl d F_SETLK F_UNLCK)"

definition bias_adjust :: "fsys \<Rightarrow> nat \<Rightarrow> int \<Rightarrow> fault + s32 \<times> fsys" where
  "bias_adjust fs f off =
     bindE (if off < 0 then fseek fs f (off + 1) SEEK_END else fseek fs f off SEEK_SET) (\<lambda>(ret, fs).
     Inr (if - 1 = ret then SPG_ERR else SPG_OK, fs))"

definition wf_write :: "fsys \<Rightarrow> file_obj \<Rightarrow> int \<Rightarrow> u8 list \<Rightarrow> fault + s32 \<times> fsys" where
  "wf_write fs wfs off data =
     (if fs_access fs (path wfs) F_OK \<noteq> 0 \<or> - 1 = fd wfs \<or> fptr wfs = 0 then Inr (- 1, fs)
      else bindE (if off < 0 then fseek fs (fptr wfs) (off + 1) SEEK_END else fseek fs (fptr wfs) off SEEK_SET) (\<lambda>(ret, fs).
           if - 1 = ret then Inr (SPG_ERR, fs)
           else bindE (fwrite fs (fptr wfs) data) (\<lambda>(wrLen, fs).
                Inr (if wrLen \<noteq> length data then SPG_ERR else SPG_OK, fs))))"

definition open_as :: "nat \<Rightarrow> fsys \<Rightarrow> file_obj \<Rightarrow> fmode \<Rightarrow> fault + s32 \<times> fsys \<times> file_obj" where
  "open_as h fs wfs m =
     bindE (file_open h fs (path wfs) m) (\<lambda>(fl, fs).
     if fl = 0 then Inr (SPG_ERR, fs, wfs\<lparr>fptr := 0\<rparr>)
     else Inr (SPG_OK, fs, wfs\<lparr>fptr := fl, fd := fileno fl\<rparr>))"

definition wf_open :: "nat \<Rightarrow> fsys \<Rightarrow> file_obj \<Rightarrow> fault + s32 \<times> fsys \<times> file_obj" where
  "wf_open h fs wfs = open_as h fs wfs Mode_rbplus"

definition wf_close :: "fsys \<Rightarrow> file_obj \<Rightarrow> fault + s32 \<times> fsys \<times> file_obj" where
  "wf_close fs wfs =
     (if - 1 \<noteq> fd wfs
      then bindE (file_close fs (fptr wfs)) (\<lambda>(_, fs). Inr (SPG_OK, fs, wfs\<lparr>fptr := 0, fd := - 1\<rparr>))
      else Inr (SPG_OK, fs, wfs))"

definition wf_flush :: "fsys \<Rightarrow> file_obj \<Rightarrow> fault + s32" where
  "wf_flush fs wfs = (if fd wfs = - 1 then Inr SPG_ERR
     else bindE (fflush fs (fptr wfs)) (\<lambda>r. Inr (if r = - 1 then SPG_ERR else SPG_OK)))"

text \<open>The blocking lock functions only log what fcntl answers.\<close>

definition wf_wrlock :: "fcntl_fn \<Rightarrow> file_obj \<Rightarrow> s32 option" where
  "wf_wrlock fcntl wfs = (if fd wfs = - 1 then None else Some (fst (fcntl (fd wfs) F_SETLKW F_WRLCK)))"

definition try_lock :: "fcntl_fn \<Rightarrow> file_obj \<Rightarrow> lock_type \<Rightarrow> s32" where
  "try_lock fcntl wfs t =
     (if fd wfs = - 1 then SPG_ERR
      else let (r, occupied) = fcntl (fd wfs) F_SETLK t in
           if - 1 = r then if occupied then WRFILE_RET_LOCK_OCCUPIED else SPG_ERR
           else SPG_OK)"

definition wf_try_wrlock :: "fcntl_fn \<Rightarrow> file_obj \<Rightarrow> s32" where
  "wf_try_wrlock fcntl wfs = try_lock fcntl wfs F_WRLCK"

definition wf_unlock :: "fcntl_fn \<Rightarrow> file_obj \<Rightarrow> s32 option" where
  "wf_unlock fcntl wfs = (if fd wfs = - 1 then None else Some (file_unlock fcntl (fd wfs)))"

definition rf_open :: "nat \<Rightarrow> fsys \<Rightarrow> file_obj \<Rightarrow> fault + s32 \<times> fsys \<times> file_obj" where
  "rf_open h fs rf = open_as h fs rf Mode_r"

definition rf_close :: "fsys \<Rightarrow> file_obj \<Rightarrow> fault + s32 \<times> fsys \<times> file_obj" where
  "rf_close fs rf = bindE (file_close fs (fptr rf)) (\<lambda>(_, fs). Inr (SPG_OK, fs, rf\<lparr>fptr := 0, fd := - 1\<rparr>))"

text \<open>A read of \<open>n\<close> bytes: the length as the function returns it, and the bytes in the buffer.\<close>

definition rf_take :: "fsys \<Rightarrow> file_obj \<Rightarrow> nat \<Rightarrow> fault + u64 \<times> u8 list \<times> fsys" where
  "rf_take fs rf n =
     bindE (fread fs (fptr rf) n) (\<lambda>(d, fs).
     if length d = n then Inr (of_nat n, d, fs)
     else bindE (feof fs (fptr rf)) (\<lambda>eof.
          if eof then bindE (clearerr fs (fptr rf)) (\<lambda>fs. Inr (of_nat (length d), d, fs))
          else bindE (ferror fs (fptr rf)) (\<lambda>err.
               if err then Inl Assert_Failed else Inr (of_nat (length d), d, fs))))"

definition rf_bias_read :: "fsys \<Rightarrow> file_obj \<Rightarrow> int \<Rightarrow> nat \<Rightarrow> fault + u64 \<times> u8 list \<times> fsys" where
  "rf_bias_read fs rf off n =
     (if fs_access fs (path rf) F_OK \<noteq> 0 \<or> fd rf = - 1 then Inr (0, [], fs)
      else bindE (bias_adjust fs (fptr rf) off) (\<lambda>(ret, fs).
           if ret \<noteq> SPG_OK then Inr (scast SPG_ERR, [], fs) else rf_take fs rf n))"

definition rf_read :: "fsys \<Rightarrow> file_obj \<Rightarrow> nat \<Rightarrow> fault + u64 \<times> u8 list \<times> fsys" where
  "rf_read fs rf n =
     (if fs_access fs (path rf) F_OK \<noteq> 0 \<or> fd rf = - 1 then Inr (0, [], fs) else rf_take fs rf n)"

definition rf_rdlock :: "fcntl_fn \<Rightarrow> file_obj \<Rightarrow> s32 option" where
  "rf_rdlock fcntl rf = (if fd rf = - 1 then None else Some (fst (fcntl (fd rf) F_SETLKW F_RDLCK)))"

definition rf_try_rdlock :: "fcntl_fn \<Rightarrow> file_obj \<Rightarrow> s32" where
  "rf_try_rdlock fcntl rf = try_lock fcntl rf F_RDLCK"

definition rf_unlock :: "fcntl_fn \<Rightarrow> file_obj \<Rightarrow> s32 option" where
  "rf_unlock fcntl rf = (if fd rf = - 1 then None else Some (file_unlock fcntl (fd rf)))"

definition af_append :: "fsys \<Rightarrow> file_obj \<Rightarrow> u8 list \<Rightarrow> fault + s32 \<times> fsys" where
  "af_append fs wfs data =
     (if fs_access fs (path wfs) F_OK \<noteq> 0 \<or> - 1 = fd wfs \<or> fptr wfs = 0 then Inr (SPG_ERR, fs)
      else bindE (fwrite fs (fptr wfs) data) (\<lambda>(wrLen, fs).
           Inr (if wrLen \<noteq> length data then SPG_ERR else SPG_OK, fs)))"

definition af_open :: "nat \<Rightarrow> fsys \<Rightarrow> file_obj \<Rightarrow> fault + s32 \<times> fsys \<times> file_obj" where
  "af_open h fs wfs = open_as h fs wfs Mode_aplus"

definition af_close :: "fsys \<Rightarrow> file_obj \<Rightarrow> fault + s32 \<times> fsys \<times> file_obj" where
  "af_close fs wfs = wf_close fs wfs"

definition af_flush :: "fsys \<Rightarrow> file_obj \<Rightarrow> fault + s32" where
  "af_flush fs wfs = wf_flush fs wfs"

definition af_aplock :: "fcntl_fn \<Rightarrow> file_obj \<Rightarrow> s32 option" where
  "af_aplock fcntl wfs = wf_wrlock fcntl wfs"

definition af_try_aplock :: "fcntl_fn \<Rightarrow> file_obj \<Rightarrow> s32" where
  "af_try_aplock fcntl wfs = wf_try_wrlock fcntl wfs"

definition af_unlock :: "fcntl_fn \<Rightarrow> file_obj \<Rightarrow> s32 option" where
  "af_unlock fcntl wfs = wf_unlock fcntl wfs"

section \<open>Creation and destruction\<close>

text \<open>
  \<open>attr\<close> is None for a NULL attribute or path; \<open>mem\<close> says whether scalloc and sstrdup get
  memory. scalloc leaves the FILE pointer NULL and fd 0.
\<close>

definition create_obj :: "file_ops \<Rightarrow> bool \<times> bool \<Rightarrow> string option \<Rightarrow> fault + file_obj option" where
  "create_obj o' mem attr =
     (case attr of None \<Rightarrow> Inr None
      | Some p \<Rightarrow> if \<not> fst mem then Inr None
          else bindE (guardE (snd mem) Assert_Failed) (\<lambda>_. Inr (Some \<lparr>ops = o', fptr = 0, path = p, fd = 0\<rparr>)))"

definition create_wfile :: "bool \<times> bool \<Rightarrow> string option \<Rightarrow> fault + file_obj option" where
  "create_wfile mem attr = create_obj Wf_Ops mem attr"

definition destroy_wfile :: "fsys \<Rightarrow> file_obj \<Rightarrow> fault + fsys" where
  "destroy_wfile fs wfs = (if fd wfs \<noteq> - 1 then bindE (fclose fs (fptr wfs)) (\<lambda>(_, fs). Inr fs) else Inr fs)"

definition create_rfile :: "bool \<times> bool \<Rightarrow> string option \<Rightarrow> fault + file_obj option" where
  "create_rfile mem attr = create_obj Rf_Ops mem attr"

definition destroy_rfile :: "fsys \<Rightarrow> file_obj \<Rightarrow> fault + fsys" where
  "destroy_rfile fs rf = (if fd rf \<noteq> - 1 then bindE (fclose fs (fptr rf)) (\<lambda>(_, fs). Inr fs) else Inr fs)"

definition create_afile :: "bool \<times> bool \<Rightarrow> string option \<Rightarrow> fault + file_obj option" where
  "create_afile mem attr = bindE (create_wfile mem attr) (\<lambda>af.
     Inr (case af of None \<Rightarrow> None | Some af \<Rightarrow> Some (af\<lparr>ops := Af_Ops\<rparr>)))"

definition destroy_afile :: "fsys \<Rightarrow> file_obj \<Rightarrow> fault + fsys" where
  "destroy_afile fs af = destroy_wfile fs af"

definition fs_rdable :: "fsys \<Rightarrow> string \<Rightarrow> s32" where "fs_rdable fs p = fs_access fs p R_OK"
definition fs_wrable :: "fsys \<Rightarrow> string \<Rightarrow> s32" where "fs_wrable fs p = fs_access fs p W_OK"
definition fs_exist :: "fsys \<Rightarrow> string \<Rightarrow> s32" where "fs_exist fs p = fs_access fs p F_OK"

section \<open>Sessions\<close>

text \<open>A client that writes to a file, and one that reads from it.\<close>

definition write_file :: "nat \<Rightarrow> fsys \<Rightarrow> string \<Rightarrow> int \<Rightarrow> u8 list \<Rightarrow> fault + s32 \<times> fsys" where
  "write_file h fs p off data =
     bindE (create_wfile (True, True) (Some p)) (\<lambda>x. bindE (derefE x) (\<lambda>x.
     bindE (wf_open h fs x) (\<lambda>(_, fs, x).
     bindE (wf_write fs x off data) (\<lambda>(r, fs).
     bindE (wf_close fs x) (\<lambda>(_, fs, x).
     bindE (destroy_wfile fs x) (\<lambda>fs. Inr (r, fs)))))))"

definition append_file :: "nat \<Rightarrow> fsys \<Rightarrow> string \<Rightarrow> u8 list \<Rightarrow> fault + s32 \<times> fsys" where
  "append_file h fs p data =
     bindE (create_afile (True, True) (Some p)) (\<lambda>x. bindE (derefE x) (\<lambda>x.
     bindE (af_open h fs x) (\<lambda>(_, fs, x).
     bindE (af_append fs x data) (\<lambda>(r, fs).
     bindE (af_close fs x) (\<lambda>(_, fs, x).
     bindE (destroy_afile fs x) (\<lambda>fs. Inr (r, fs)))))))"

definition read_file :: "nat \<Rightarrow> fsys \<Rightarrow> string \<Rightarrow> int \<Rightarrow> nat \<Rightarrow> fault + u64 \<times> u8 list \<times> fsys" where
  "read_file h fs p off n =
     bindE (create_rfile (True, True) (Some p)) (\<lambda>x. bindE (derefE x) (\<lambda>x.
     bindE (rf_open h fs x) (\<lambda>(_, fs, x).
     bindE (rf_bias_read fs x off n) (\<lambda>(r, d, fs).
     bindE (rf_close fs x) (\<lambda>(_, fs, x).
     bindE (destroy_rfile fs x) (\<lambda>fs. Inr (r, d, fs)))))))"

definition bytes_of :: "fsys \<Rightarrow> string \<Rightarrow> u8 list" where
  "bytes_of fs p = (case content fs p of None \<Rightarrow> [] | Some b \<Rightarrow> b)"

lemma get_put: "take (length d) (drop pos (put_at pos d b)) = d"
  by (auto simp: put_at_def)

lemma put_at_end: "put_at (length b) d b = b @ d"
  by (auto simp: put_at_def)

lemma file_open_ok:
  assumes h: "h \<noteq> 0" "streams fs h = None" and p: "content fs p \<noteq> None \<or> may_create fs p"
    and m: "m \<noteq> Mode_w" "may_read fs p" "may_write fs p"
  shows "file_open h fs p m = Inr (h, fs\<lparr>content := (content fs)(p \<mapsto> bytes_of fs p),
    streams := (streams fs)(h \<mapsto> \<lparr>s_path = p, s_pos = 0, s_rd = True, s_wr = (m \<noteq> Mode_r), s_app = (m = Mode_aplus), s_eof = False\<rparr>)\<rparr>)"
proof (cases "content fs p")
  case None
  then show ?thesis using assms
    by (cases m) (auto simp: file_open_def fs_access_def fopen_def fmode_ok_def fclose_def stream_at_def bytes_of_def)
next
  case (Some b)
  then have "(content fs)(p \<mapsto> b) = content fs" by auto
  then show ?thesis using assms Some
    by (cases m) (auto simp: file_open_def fs_access_def fopen_def fmode_ok_def bytes_of_def)
qed

lemma fileno_not: "fileno f \<noteq> - 1"
  by (simp add: fileno_def)

lemma session_close:
  assumes "streams fs h = Some st" "h \<noteq> 0" "fd x \<noteq> - 1" "fptr x = h"
  shows "wf_close fs x = Inr (SPG_OK, fs\<lparr>streams := (streams fs)(h := None)\<rparr>, x\<lparr>fptr := 0, fd := - 1\<rparr>)"
    "rf_close fs x = Inr (SPG_OK, fs\<lparr>streams := (streams fs)(h := None)\<rparr>, x\<lparr>fptr := 0, fd := - 1\<rparr>)"
  using assms by (simp_all add: wf_close_def rf_close_def file_close_def fclose_def stream_at_def)

lemma write_file_ok:
  assumes h: "h \<noteq> 0" "streams fs h = None" and p: "content fs p \<noteq> None \<or> may_create fs p"
    and perm: "may_read fs p" "may_write fs p"
    and pos: "int pos = (if off < 0 then int (length (bytes_of fs p)) + off + 1 else off)"
    and room: "pos + length data \<le> limit fs"
  shows "\<exists>fs1. write_file h fs p off data = Inr (SPG_OK, fs1)
      \<and> fs1 = fs\<lparr>content := (content fs)(p \<mapsto> put_at pos data (bytes_of fs p))\<rparr>"
proof -
  let ?x = "\<lparr>ops = Wf_Ops, fptr = h, path = p, fd = fileno h\<rparr>"
  let ?st = "\<lparr>s_path = p, s_pos = 0, s_rd = True, s_wr = True, s_app = False, s_eof = False\<rparr>"
  let ?b = "bytes_of fs p"
  let ?o = "fs\<lparr>content := (content fs)(p \<mapsto> ?b), streams := (streams fs)(h \<mapsto> ?st)\<rparr>"
  have o: "wf_open h fs \<lparr>ops = Wf_Ops, fptr = 0, path = p, fd = 0\<rparr> = Inr (SPG_OK, ?o, ?x)"
    using file_open_ok [OF h p _ perm, of Mode_rbplus] h by (simp add: wf_open_def open_as_def)
  let ?s = "?o\<lparr>streams := (streams fs)(h \<mapsto> ?st\<lparr>s_pos := pos\<rparr>)\<rparr>"
  have seek: "(if off < 0 then fseek ?o h (off + 1) SEEK_END else fseek ?o h off SEEK_SET) = Inr (0, ?s)"
  proof (cases "off < 0")
    case True
    then have "int (length ?b) + (off + 1) = int pos" using pos by simp
    then show ?thesis using True h by (simp add: fseek_def stream_at_def Let_def)
  qed (use h pos in \<open>auto simp: fseek_def stream_at_def Let_def\<close>)
  let ?w = "?o\<lparr>content := (content fs)(p \<mapsto> put_at pos data ?b), streams := (streams fs)(h \<mapsto> ?st\<lparr>s_pos := pos + length data\<rparr>)\<rparr>"
  have w: "wf_write ?o ?x off data = Inr (SPG_OK, ?w)"
    using seek h room by (cases "off < 0")
      (simp_all add: wf_write_def fs_access_def fileno_def fwrite_def stream_at_def SPG_OK_def Let_def)
  have c: "wf_close ?w ?x = Inr (SPG_OK, ?w\<lparr>streams := (streams ?w)(h := None)\<rparr>, ?x\<lparr>fptr := 0, fd := - 1\<rparr>)"
    by (rule session_close(1)) (use h in \<open>simp_all add: fileno_not\<close>)
  have "(streams fs)(h := None) = streams fs" using h(2) by auto
  then show ?thesis
    using o w c by (simp add: write_file_def create_wfile_def create_obj_def destroy_wfile_def)
qed

lemma append_file_ok:
  assumes h: "h \<noteq> 0" "streams fs h = None" and p: "content fs p \<noteq> None \<or> may_create fs p"
    and perm: "may_read fs p" "may_write fs p" and room: "length (bytes_of fs p) + length data \<le> limit fs"
  shows "append_file h fs p data = Inr (SPG_OK, fs\<lparr>content := (content fs)(p \<mapsto> bytes_of fs p @ data)\<rparr>)"
proof -
  let ?x = "\<lparr>ops = Af_Ops, fptr = h, path = p, fd = fileno h\<rparr>"
  let ?st = "\<lparr>s_path = p, s_pos = 0, s_rd = True, s_wr = True, s_app = True, s_eof = False\<rparr>"
  let ?b = "bytes_of fs p"
  let ?o = "fs\<lparr>content := (content fs)(p \<mapsto> ?b), streams := (streams fs)(h \<mapsto> ?st)\<rparr>"
  have o: "af_open h fs \<lparr>ops = Af_Ops, fptr = 0, path = p, fd = 0\<rparr> = Inr (SPG_OK, ?o, ?x)"
    using file_open_ok [OF h p _ perm, of Mode_aplus] h by (simp add: af_open_def open_as_def)
  let ?w = "?o\<lparr>content := (content fs)(p \<mapsto> ?b @ data), streams := (streams fs)(h \<mapsto> ?st\<lparr>s_pos := length ?b + length data\<rparr>)\<rparr>"
  have w: "af_append ?o ?x data = Inr (SPG_OK, ?w)"
    using h room by (simp add: af_append_def fs_access_def fileno_def fwrite_def stream_at_def put_at_end Let_def)
  have c: "wf_close ?w ?x = Inr (SPG_OK, ?w\<lparr>streams := (streams ?w)(h := None)\<rparr>, ?x\<lparr>fptr := 0, fd := - 1\<rparr>)"
    by (rule session_close(1)) (use h in \<open>simp_all add: fileno_not\<close>)
  have "(streams fs)(h := None) = streams fs" using h(2) by auto
  then show ?thesis
    using o w c by (simp add: append_file_def create_afile_def create_wfile_def create_obj_def destroy_afile_def destroy_wfile_def af_close_def)
qed

lemma read_file_ok:
  assumes h: "h \<noteq> 0" "streams fs h = None" and c: "content fs p = Some b" and perm: "may_read fs p" "may_write fs p"
    and n: "length (take n (drop pos b)) = n"
  shows "read_file h fs p (int pos) n = Inr (of_nat n, take n (drop pos b), fs)"
proof -
  let ?x = "\<lparr>ops = Rf_Ops, fptr = h, path = p, fd = fileno h\<rparr>"
  let ?st = "\<lparr>s_path = p, s_pos = 0, s_rd = True, s_wr = False, s_app = False, s_eof = False\<rparr>"
  have same: "(content fs)(p \<mapsto> b) = content fs" "(streams fs)(h := None) = streams fs" using c h(2) by auto
  let ?o = "fs\<lparr>streams := (streams fs)(h \<mapsto> ?st)\<rparr>"
  have "content fs p \<noteq> None \<or> may_create fs p" using c by simp
  from file_open_ok [OF h this _ perm, of Mode_r] have o: "rf_open h fs \<lparr>ops = Rf_Ops, fptr = 0, path = p, fd = 0\<rparr> = Inr (SPG_OK, ?o, ?x)"
    using h c same by (simp add: rf_open_def open_as_def bytes_of_def)
  let ?r = "fs\<lparr>streams := (streams fs)(h \<mapsto> ?st\<lparr>s_pos := pos + n\<rparr>)\<rparr>"
  have r: "rf_bias_read ?o ?x (int pos) n = Inr (of_nat n, take n (drop pos b), ?r)"
    using h c n by (simp add: rf_bias_read_def fs_access_def fileno_def bias_adjust_def fseek_def stream_at_def SPG_OK_def
        rf_take_def fread_def Let_def del: length_take length_drop)
  have "rf_close ?r ?x = Inr (SPG_OK, ?r\<lparr>streams := (streams ?r)(h := None)\<rparr>, ?x\<lparr>fptr := 0, fd := - 1\<rparr>)"
    by (rule session_close(2)) (use h in \<open>simp_all add: fileno_not\<close>)
  then show ?thesis using o r same by (simp add: read_file_def create_rfile_def create_obj_def destroy_rfile_def)
qed

text \<open>C26. Writing through a write object that is created, opened, used, closed and destroyed puts the
  data at the offset (from the end, counted from - 1, if it is negative), leaves the other bytes and
  files alone and every stream closed; reading at that position through a read object gives the
  data back. Appending adds the data at the end.\<close>

theorem wr_file_roundtrip:
  assumes h: "h \<noteq> 0" "streams fs h = None" and p: "content fs p \<noteq> None \<or> may_create fs p"
    and perm: "may_read fs p" "may_write fs p"
    and pos: "int pos = (if off < 0 then int (length (bytes_of fs p)) + off + 1 else off)"
    and room: "pos + length data \<le> limit fs" "length (bytes_of fs p) + length data \<le> limit fs"
  shows "(\<exists>fs1 fs2. write_file h fs p off data = Inr (SPG_OK, fs1)
      \<and> content fs1 = (content fs)(p \<mapsto> put_at pos data (bytes_of fs p)) \<and> streams fs1 = streams fs
      \<and> read_file h fs1 p (int pos) (length data) = Inr (of_nat (length data), data, fs2)
      \<and> content fs2 = content fs1 \<and> streams fs2 = streams fs)
    \<and> (\<exists>fs1. append_file h fs p data = Inr (SPG_OK, fs1)
      \<and> content fs1 = (content fs)(p \<mapsto> bytes_of fs p @ data) \<and> streams fs1 = streams fs)"
proof -
  let ?fs = "fs\<lparr>content := (content fs)(p \<mapsto> put_at pos data (bytes_of fs p))\<rparr>"
  have "read_file h ?fs p (int pos) (length data) = Inr (of_nat (length data), data, ?fs)"
    using read_file_ok [of h ?fs p "put_at pos data (bytes_of fs p)" "length data" pos] h perm by (simp add: get_put del: length_take)
  then show ?thesis
    using write_file_ok [OF h p perm pos room(1)] append_file_ok [OF h p perm room(2)] by auto
qed

text \<open>scalloc leaves an object with descriptor 0 and no stream, and a failed open does not set
  the descriptor to - 1: closing or destroying an object that was never opened, or destroying it after
  a failed open, hands NULL to fclose. So does opening a path that does not exist and cannot be
  created, and a second close of a read object.\<close>

theorem wr_unopened_faults:
  assumes x: "create_wfile (True, True) (Some p) = Inr (Some x)" and r: "create_rfile (True, True) (Some p) = Inr (Some y)"
  shows "wf_close fs x = Inl Null_Deref \<and> destroy_wfile fs x = Inl Null_Deref
    \<and> rf_close fs y = Inl Null_Deref \<and> destroy_rfile fs y = Inl Null_Deref
    \<and> (content fs p = None \<and> \<not> may_create fs p \<longrightarrow> wf_open h fs x = Inl Null_Deref \<and> rf_open h fs y = Inl Null_Deref)
    \<and> (content fs p \<noteq> None \<and> \<not> may_write fs p \<longrightarrow> (\<exists>x'. wf_open h fs x = Inr (SPG_ERR, fs, x') \<and> destroy_wfile fs x' = Inl Null_Deref))
    \<and> (\<forall>fs1 fs2 y1 y2. rf_open h fs y = Inr (SPG_OK, fs1, y1) \<longrightarrow> rf_close fs1 y1 = Inr (SPG_OK, fs2, y2)
         \<longrightarrow> rf_close fs2 y2 = Inl Null_Deref)"
proof -
  have xy: "x = \<lparr>ops = Wf_Ops, fptr = 0, path = p, fd = 0\<rparr>" "y = \<lparr>ops = Rf_Ops, fptr = 0, path = p, fd = 0\<rparr>"
    using x r by (simp_all add: create_wfile_def create_rfile_def create_obj_def)
  have "rf_close fs2 y2 = Inl Null_Deref" if "rf_close fs1 y1 = Inr (SPG_OK, fs2, y2)" for fs1 fs2 y1 y2
    using that by (auto simp: rf_close_def file_close_def fclose_def stream_at_def)
  then show ?thesis
    unfolding xy by (auto simp: wf_close_def destroy_wfile_def rf_close_def destroy_rfile_def file_close_def fclose_def stream_at_def
        wf_open_def rf_open_def open_as_def file_open_def fs_access_def fopen_def fmode_ok_def)
qed

section \<open>Instances\<close>

definition demo_fs :: fsys where
  "demo_fs = \<lparr>content = [''a'' \<mapsto> [1, 2, 3]], streams = Map.empty, may_read = (\<lambda>_. True), may_write = (\<lambda>_. True),
     may_create = (\<lambda>_. False), limit = 100\<rparr>"

lemma wr_file_roundtrip_witness:
  "\<exists>fs1 fs2. write_file 7 demo_fs ''a'' (- 2) [9, 8] = Inr (SPG_OK, fs1) \<and> content fs1 ''a'' = Some [1, 2, 9, 8]
     \<and> read_file 7 fs1 ''a'' 2 2 = Inr (2, [9, 8], fs2)"
proof -
  have b: "bytes_of demo_fs ''a'' = [1, 2, 3]" by (simp add: bytes_of_def demo_fs_def)
  have "put_at 2 [9, 8] [1, 2, 3] = [1, 2, 9, 8]" by (simp add: put_at_def)
  then show ?thesis
    using wr_file_roundtrip [of 7 demo_fs "''a''" 2 "- 2" "[9, 8]"] unfolding b
    by (auto simp: demo_fs_def numeral_2_eq_2 [symmetric] simp del: One_nat_def)
qed

lemma wr_unopened_faults_witness:
  "\<exists>x. create_wfile (True, True) (Some ''b'') = Inr (Some x) \<and> wf_open 7 demo_fs x = Inl Null_Deref"
proof -
  obtain x y where "create_wfile (True, True) (Some ''b'') = Inr (Some x)" "create_rfile (True, True) (Some ''b'') = Inr (Some y)"
    by (simp add: create_wfile_def create_rfile_def create_obj_def)
  from this wr_unopened_faults [OF this, of demo_fs 7] show ?thesis by (auto simp: demo_fs_def)
qed

end
