(* ===== verification/C_Strings.thy ===== *)
theory C_Strings
  imports Spg_Prelude
begin

text \<open>
  The C library's functions on character arrays that the sources call: decimal output of
  integers, snprintf of a text, strncpy, strchr, the %s conversion and strtoll. A character
  array is a block of chars; reading or writing past its end is a fault.
\<close>

section \<open>Texts in character arrays\<close>

abbreviation NUL :: char where "NUL \<equiv> CHR 0x00"

text \<open>snprintf of a text into an array, with the size it is told.\<close>

definition snprintf :: "string \<Rightarrow> nat \<Rightarrow> string \<Rightarrow> fault + string" where
  "snprintf b n txt = (if n = 0 then Inr b else mem_store b 0 (take (n - 1) txt @ [NUL]))"

text \<open>strncpy: \<open>n\<close> bytes, padded with NUL, and no NUL where the text has \<open>n\<close> chars or more.\<close>

definition strncpy :: "string \<Rightarrow> string \<Rightarrow> nat \<Rightarrow> fault + string" where
  "strncpy b src n = mem_store b 0 (take n src @ replicate (n - length src) NUL)"

text \<open>The text of an array, as %s reads it: up to the first NUL, which has to be there.\<close>

definition c_text :: "string \<Rightarrow> fault + string" where
  "c_text b = (if NUL \<in> set b then Inr (takeWhile (\<lambda>c. c \<noteq> NUL) b) else Inl Out_Of_Bounds)"

text \<open>strchr: the first position of a char in the text, None where the text ends before.\<close>

fun strchr :: "string \<Rightarrow> char \<Rightarrow> fault + nat option" where
  "strchr [] c = Inl Out_Of_Bounds"
| "strchr (x # xs) c =
     (if x = c then Inr (Some 0) else if x = NUL then Inr None
      else bindE (strchr xs c) (\<lambda>i. Inr (map_option Suc i)))"

lemma snprintf_text:
  assumes "0 < n" "n \<le> length b"
  shows "snprintf b n txt = Inr (take (n - 1) txt @ NUL # drop (Suc (length (take (n - 1) txt))) b)"
  using assms by (auto simp: snprintf_def mem_store_def)

lemma snprintf_length: "snprintf b n txt = Inr b' \<Longrightarrow> length b' = length b"
  by (auto simp: snprintf_def dest: mem_store_length split: if_splits)

lemma takeWhile_text: "NUL \<notin> set t \<Longrightarrow> takeWhile (\<lambda>c. c \<noteq> NUL) (t @ NUL # r) = t"
  by (induction t) auto

lemma c_text_prefix: "NUL \<notin> set t \<Longrightarrow> c_text (t @ NUL # r) = Inr t"
  by (simp add: c_text_def takeWhile_text)

lemma strncpy_ok: "n \<le> length b \<Longrightarrow>
    strncpy b src n = Inr (take n src @ replicate (n - length src) NUL @ drop n b)"
  by (auto simp: strncpy_def mem_store_def min_def)

lemma strchr_found: "c \<notin> set t \<Longrightarrow> NUL \<notin> set t \<Longrightarrow> strchr (t @ c # r) c = Inr (Some (length t))"
  by (induction t) auto

section \<open>Decimal numerals\<close>

definition digit_char :: "nat \<Rightarrow> char" where
  "digit_char n = char_of (48 + n)"

definition is_digit :: "char \<Rightarrow> bool" where
  "is_digit c \<longleftrightarrow> 48 \<le> (of_char c :: nat) \<and> (of_char c :: nat) \<le> 57"

definition digit_val :: "char \<Rightarrow> nat" where
  "digit_val c = of_char c - 48"

fun dec_nat :: "nat \<Rightarrow> string" where
  "dec_nat n = (if n < 10 then [digit_char n] else dec_nat (n div 10) @ [digit_char (n mod 10)])"

declare dec_nat.simps [simp del]

text \<open>The %d conversion.\<close>

definition dec_int :: "int \<Rightarrow> string" where
  "dec_int i = (if i < 0 then CHR ''-'' # dec_nat (nat (- i)) else dec_nat (nat i))"

fun digits_value :: "nat \<Rightarrow> string \<Rightarrow> nat" where
  "digits_value a [] = a"
| "digits_value a (c # cs) = (if is_digit c then digits_value (10 * a + digit_val c) cs else a)"

definition is_space :: "char \<Rightarrow> bool" where
  "is_space c \<longleftrightarrow> c = CHR '' '' \<or> 9 \<le> (of_char c :: nat) \<and> (of_char c :: nat) \<le> 13"

text \<open>strtoll and strtol (long has 64 bits) with base 10 on a text: blanks, sign, digits; saturating.\<close>

definition strtoll :: "string \<Rightarrow> int" where
  "strtoll t =
     (let t = dropWhile is_space t;
          neg = (t \<noteq> [] \<and> t ! 0 = CHR ''-'');
          t = (if t \<noteq> [] \<and> (t ! 0 = CHR ''-'' \<or> t ! 0 = CHR ''+'') then drop 1 t else t);
          v = int (digits_value 0 t)
      in if neg then max (- (2 ^ 63)) (- v) else min (2 ^ 63 - 1) v)"

text \<open>strtol with base 0: a prefix 0x or 0 selects the base 16 or 8.\<close>

definition any_digit :: "char \<Rightarrow> nat" where
  "any_digit c =
     (let n = of_char c :: nat in
      if is_digit c then n - 48 else if 97 \<le> n \<and> n \<le> 122 then n - 87 else if 65 \<le> n \<and> n \<le> 90 then n - 55 else 36)"

fun base_value :: "nat \<Rightarrow> nat \<Rightarrow> string \<Rightarrow> nat" where
  "base_value b a [] = a"
| "base_value b a (c # cs) = (if any_digit c < b then base_value b (b * a + any_digit c) cs else a)"

definition strtol0 :: "string \<Rightarrow> int" where
  "strtol0 t =
     (let t = dropWhile is_space t;
          neg = (t \<noteq> [] \<and> t ! 0 = CHR ''-'');
          t = (if t \<noteq> [] \<and> (t ! 0 = CHR ''-'' \<or> t ! 0 = CHR ''+'') then drop 1 t else t);
          v = int (if take 2 t \<in> {''0x'', ''0X''} \<and> 2 < length t \<and> any_digit (t ! 2) < 16 then base_value 16 0 (drop 2 t)
                   else if take 1 t = ''0'' then base_value 8 0 t else base_value 10 0 t)
      in if neg then max (- (2 ^ 63)) (- v) else min (2 ^ 63 - 1) v)"

lemma digit_char_simps [simp]:
  assumes "n < 10"
  shows "is_digit (digit_char n)" "digit_val (digit_char n) = n"
  using assms by (simp_all add: is_digit_def digit_val_def digit_char_def)

lemma dec_nat_digits: "c \<in> set (dec_nat n) \<Longrightarrow> is_digit c"
proof (induction n rule: dec_nat.induct)
  case (1 n)
  then show ?case by (subst (asm) (2) dec_nat.simps) (auto split: if_splits)
qed

lemma dec_nat_nonempty [simp]: "dec_nat n \<noteq> []"
  by (simp add: dec_nat.simps)

lemma digits_value_append:
  "\<forall>c\<in>set s. is_digit c \<Longrightarrow> digits_value a (s @ t) = digits_value (digits_value a s) t"
  by (induction s arbitrary: a) auto

lemma digits_value_dec: "digits_value 0 (dec_nat n) = n"
proof (induction n rule: dec_nat.induct)
  case (1 n)
  show ?case
  proof (cases "n < 10")
    case False
    then have "dec_nat n = dec_nat (n div 10) @ [digit_char (n mod 10)]"
      by (subst dec_nat.simps) simp
    with 1 False show ?thesis by (simp add: digits_value_append dec_nat_digits)
  qed (simp add: dec_nat.simps)
qed

lemma dec_nat_length: "n < 10 ^ k \<Longrightarrow> 0 < k \<Longrightarrow> length (dec_nat n) \<le> k"
proof (induction k arbitrary: n)
  case (Suc k)
  show ?case
  proof (cases "n < 10")
    case False
    then have k: "0 < k" using Suc.prems by (cases k) auto
    have "n div 10 < 10 ^ k" using Suc.prems(1) by (simp add: less_mult_imp_div_less)
    then have "length (dec_nat (n div 10)) \<le> k" using k by (intro Suc.IH)
    with False show ?thesis by (subst dec_nat.simps) simp
  qed (simp add: dec_nat.simps)
qed simp

lemma is_digit_not: "is_digit c \<Longrightarrow> c \<noteq> NUL \<and> c \<noteq> CHR '' '' \<and> c \<noteq> CHR ''-'' \<and> c \<noteq> CHR ''+''"
  by (auto simp: is_digit_def)

lemma digit_not_space: "is_digit c \<Longrightarrow> \<not> is_space c"
  by (auto simp: is_digit_def is_space_def)

lemma strtoll_dec:
  assumes "n < 2 ^ 63"
  shows "strtoll (dec_nat n) = int n"
proof -
  obtain c cs where c: "dec_nat n = c # cs" by (cases "dec_nat n") auto
  then have "is_digit c" using dec_nat_digits [of c n] by simp
  moreover have "int n \<le> 2 ^ 63 - 1" using assms by simp
  ultimately show ?thesis
    using c digits_value_dec [of n] is_digit_not [of c] digit_not_space [of c]
    by (simp add: strtoll_def)
qed

end
