(* ===== verification/Anet.thy ===== *)
theory Anet
  imports C_Strings "HOL-Library.Signed_Division"
begin

text \<open>
  The socket helpers of src/src/anet.c and src/include/anet.h. The system calls they make
  are the parameters collected in the record \<open>sys\<close>, functions on the state \<open>'k\<close> of the
  kernel; what they answer is documented in the fields. The state \<open>net\<close> holds the kernel, the
  caller's buffer \<open>err\<close>, which every function hands on as it got it, and three ghosts that no
  code reads: the descriptors that socket and accept gave and that are not closed, those that
  were closed without being held, and the number of address lists that getaddrinfo gave and
  freeaddrinfo did not take back.
\<close>

section \<open>Kernel and state\<close>

definition ANET_OK :: int where "ANET_OK = 0"
definition ANET_ERR :: int where "ANET_ERR = - 1"
definition ANET_ERR_LEN :: nat where "ANET_ERR_LEN = 256"
definition ANET_NONE :: s32 where "ANET_NONE = 0"
definition ANET_IP_ONLY :: s32 where "ANET_IP_ONLY = push_bit 0 1"
definition ANET_CONNECT_NONE :: s32 where "ANET_CONNECT_NONE = 0"
definition ANET_CONNECT_NONBLOCK :: s32 where "ANET_CONNECT_NONBLOCK = 1"
definition ANET_CONNECT_BE_BINDING :: s32 where "ANET_CONNECT_BE_BINDING = 2"

lemmas anet_codes = ANET_OK_def ANET_ERR_def
lemmas anet_flags = ANET_NONE_def ANET_IP_ONLY_def ANET_CONNECT_NONE_def ANET_CONNECT_NONBLOCK_def
  ANET_CONNECT_BE_BINDING_def

text \<open>Constants of the Linux headers.\<close>

definition AF_UNSPEC :: int where "AF_UNSPEC = 0"
definition AF_LOCAL :: int where "AF_LOCAL = 1"
definition AF_INET :: int where "AF_INET = 2"
definition AF_INET6 :: int where "AF_INET6 = 10"
definition SOCK_STREAM :: int where "SOCK_STREAM = 1"
definition AI_PASSIVE :: int where "AI_PASSIVE = 1"
definition AI_NUMERICHOST :: int where "AI_NUMERICHOST = 4"
definition O_NONBLOCK :: s32 where "O_NONBLOCK = 2048"
definition EINTR :: int where "EINTR = 4"
definition EINPROGRESS :: int where "EINPROGRESS = 115"

lemmas net_consts = AF_UNSPEC_def AF_LOCAL_def AF_INET_def AF_INET6_def SOCK_STREAM_def
  AI_PASSIVE_def AI_NUMERICHOST_def EINTR_def EINPROGRESS_def

text \<open>
  A socket address: its family and the bytes behind it. In a \<open>sockaddr_in\<close> these are two
  bytes of port in network order and four of address, in a \<open>sockaddr_in6\<close> port, four bytes of
  flow information and sixteen of address, in a \<open>sockaddr_un\<close> the 108 bytes of the path.
\<close>

record sockaddr =
  sa_family :: int
  sa_data :: string

record addrinfo =
  ai_family :: int
  ai_socktype :: int
  ai_protocol :: int
  ai_addr :: sockaddr

record hints =
  h_flags :: int
  h_family :: int
  h_socktype :: int

datatype sockopt = SO_KEEPALIVE int | TCP_KEEPIDLE int | TCP_KEEPINTVL int | TCP_KEEPCNT int
  | TCP_NODELAY int | SO_SNDBUF int | SO_SNDTIMEO int int | SO_REUSEADDR int | IPV6_V6ONLY int

text \<open>
  The calls that fail answer -1 and leave a code for errno; getaddrinfo answers a code, 0 for
  success, and its list; accept, getpeername and getsockname also leave an address; read
  answers the number of bytes and the bytes, and write gets the bytes it may read.
\<close>

record 'k sys =
  sys_errno :: "'k \<Rightarrow> int"
  sys_strerror :: "int \<Rightarrow> string"
  sys_gai_strerror :: "int \<Rightarrow> string"
  sys_getfl :: "int \<Rightarrow> 'k \<Rightarrow> s32 \<times> 'k"
  sys_setfl :: "int \<Rightarrow> s32 \<Rightarrow> 'k \<Rightarrow> int \<times> 'k"
  sys_setsockopt :: "int \<Rightarrow> sockopt \<Rightarrow> 'k \<Rightarrow> int \<times> 'k"
  sys_getaddrinfo :: "string option \<Rightarrow> string option \<Rightarrow> hints \<Rightarrow> 'k \<Rightarrow> (int \<times> addrinfo list) \<times> 'k"
  sys_socket :: "int \<Rightarrow> int \<Rightarrow> int \<Rightarrow> 'k \<Rightarrow> int \<times> 'k"
  sys_bind :: "int \<Rightarrow> sockaddr \<Rightarrow> 'k \<Rightarrow> int \<times> 'k"
  sys_listen :: "int \<Rightarrow> int \<Rightarrow> 'k \<Rightarrow> int \<times> 'k"
  sys_connect :: "int \<Rightarrow> sockaddr \<Rightarrow> 'k \<Rightarrow> int \<times> 'k"
  sys_accept :: "int \<Rightarrow> 'k \<Rightarrow> (int \<times> sockaddr) \<times> 'k"
  sys_close :: "int \<Rightarrow> 'k \<Rightarrow> int \<times> 'k"
  sys_read :: "int \<Rightarrow> u64 \<Rightarrow> 'k \<Rightarrow> (int \<times> string) \<times> 'k"
  sys_write :: "int \<Rightarrow> string \<Rightarrow> 'k \<Rightarrow> int \<times> 'k"
  sys_getpeername :: "int \<Rightarrow> 'k \<Rightarrow> (int \<times> sockaddr) \<times> 'k"
  sys_getsockname :: "int \<Rightarrow> 'k \<Rightarrow> (int \<times> sockaddr) \<times> 'k"
  sys_chmod :: "string \<Rightarrow> u32 \<Rightarrow> 'k \<Rightarrow> int \<times> 'k"
  sys_ntop :: "int \<Rightarrow> string \<Rightarrow> string"

record 'k net =
  kern :: 'k
  errbuf :: "string option"
  fds :: "int list"
  stray :: "int list"
  infos :: int

text \<open>Calls, with what they do to the ghosts.\<close>

definition sysc :: "('k \<Rightarrow> 'a \<times> 'k) \<Rightarrow> 'k net \<Rightarrow> 'a \<times> 'k net" where
  "sysc f w = (let (r, k) = f (kern w) in (r, w\<lparr>kern := k\<rparr>))"

definition net_socket :: "'k sys \<Rightarrow> int \<Rightarrow> int \<Rightarrow> int \<Rightarrow> 'k net \<Rightarrow> int \<times> 'k net" where
  "net_socket sys d t p w =
     (let (s, w) = sysc (sys_socket sys d t p) w in (s, if s = - 1 then w else w\<lparr>fds := s # fds w\<rparr>))"

definition net_accept :: "'k sys \<Rightarrow> int \<Rightarrow> 'k net \<Rightarrow> (int \<times> sockaddr) \<times> 'k net" where
  "net_accept sys s w =
     (let ((fd, sa), w) = sysc (sys_accept sys s) w in ((fd, sa), if fd = - 1 then w else w\<lparr>fds := fd # fds w\<rparr>))"

definition net_close :: "'k sys \<Rightarrow> int \<Rightarrow> 'k net \<Rightarrow> 'k net" where
  "net_close sys s w =
     (let (r, w) = sysc (sys_close sys s) w
      in if s \<in> set (fds w) then w\<lparr>fds := remove1 s (fds w)\<rparr> else w\<lparr>stray := s # stray w\<rparr>)"

definition net_getaddrinfo :: "'k sys \<Rightarrow> string option \<Rightarrow> string option \<Rightarrow> hints \<Rightarrow> 'k net
    \<Rightarrow> (int \<times> addrinfo list) \<times> 'k net" where
  "net_getaddrinfo sys host serv h w =
     (let ((rv, ps), w) = sysc (sys_getaddrinfo sys host serv h) w
      in ((rv, ps), if rv = 0 then w\<lparr>infos := infos w + 1\<rparr> else w))"

definition net_freeaddrinfo :: "'k net \<Rightarrow> 'k net" where
  "net_freeaddrinfo w = w\<lparr>infos := infos w - 1\<rparr>"

text \<open>inet_ntop leaves the array alone where the text and its NUL do not fit the size it is told.\<close>

definition inet_ntop :: "'k sys \<Rightarrow> int \<Rightarrow> string \<Rightarrow> string option \<Rightarrow> nat \<Rightarrow> fault + string option" where
  "inet_ntop sys af adr dst n =
     (let t = sys_ntop sys af adr in if length t < n then block_store dst 0 (t @ [NUL]) else Inr dst)"

text \<open>The message that strerror(errno) gives.\<close>

definition errno_text :: "'k sys \<Rightarrow> 'k net \<Rightarrow> string" where
  "errno_text sys w = sys_strerror sys (sys_errno sys (kern w))"

section \<open>Errors and socket options\<close>

text \<open>\<open>txt\<close> is the text that the format and its arguments give.\<close>

definition anetSetError :: "string \<Rightarrow> 'k net \<Rightarrow> fault + 'k net" where
  "anetSetError txt w =
     (case errbuf w of None \<Rightarrow> Inr w
      | Some b \<Rightarrow> bindE (snprintf b ANET_ERR_LEN txt) (\<lambda>b. Inr (w\<lparr>errbuf := Some b\<rparr>)))"

definition anet_fail :: "string \<Rightarrow> 'k net \<Rightarrow> fault + int \<times> 'k net" where
  "anet_fail txt w = bindE (anetSetError txt w) (\<lambda>w. Inr (ANET_ERR, w))"

definition anetSetBlock :: "'k sys \<Rightarrow> int \<Rightarrow> bool \<Rightarrow> 'k net \<Rightarrow> fault + int \<times> 'k net" where
  "anetSetBlock sys fd non_block w =
     (let (flags, w) = sysc (sys_getfl sys fd) w in
      if flags = - 1 then anet_fail (''fcntl(F_GETFL): '' @ errno_text sys w) w
      else let flags = (if non_block then flags OR O_NONBLOCK else flags AND NOT O_NONBLOCK);
               (r, w) = sysc (sys_setfl sys fd flags) w
           in if r = - 1 then anet_fail (''fcntl(F_SETFL,O_NONBLOCK): '' @ errno_text sys w) w
              else Inr (ANET_OK, w))"

definition anetNonBlock :: "'k sys \<Rightarrow> int \<Rightarrow> 'k net \<Rightarrow> fault + int \<times> 'k net" where
  "anetNonBlock sys fd w = anetSetBlock sys fd True w"

definition anetBlock :: "'k sys \<Rightarrow> int \<Rightarrow> 'k net \<Rightarrow> fault + int \<times> 'k net" where
  "anetBlock sys fd w = anetSetBlock sys fd False w"

text \<open>Linux, so the four options are set; three of the tests are \<open>< 0\<close>.\<close>

definition anetKeepAlive :: "'k sys \<Rightarrow> int \<Rightarrow> int \<Rightarrow> 'k net \<Rightarrow> fault + int \<times> 'k net" where
  "anetKeepAlive sys fd interval w =
     (let (r, w) = sysc (sys_setsockopt sys fd (SO_KEEPALIVE 1)) w in
      if r = - 1 then anet_fail (''setsockopt SO_KEEPALIVE: '' @ errno_text sys w) w
      else let (r, w) = sysc (sys_setsockopt sys fd (TCP_KEEPIDLE interval)) w in
      if r < 0 then anet_fail (''setsockopt TCP_KEEPIDLE: '' @ errno_text sys w @ [CHR 0x0A]) w
      else let val = interval sdiv 3;
               val = (if val = 0 then 1 else val);
               (r, w) = sysc (sys_setsockopt sys fd (TCP_KEEPINTVL val)) w in
      if r < 0 then anet_fail (''setsockopt TCP_KEEPINTVL: '' @ errno_text sys w @ [CHR 0x0A]) w
      else let (r, w) = sysc (sys_setsockopt sys fd (TCP_KEEPCNT 3)) w in
      if r < 0 then anet_fail (''setsockopt TCP_KEEPCNT: '' @ errno_text sys w @ [CHR 0x0A]) w
      else Inr (ANET_OK, w))"

text \<open>One option and its message: the shape of six of the functions.\<close>

definition set_opt :: "'k sys \<Rightarrow> int \<Rightarrow> sockopt \<Rightarrow> string \<Rightarrow> 'k net \<Rightarrow> fault + int \<times> 'k net" where
  "set_opt sys fd opt msg w =
     (let (r, w) = sysc (sys_setsockopt sys fd opt) w in
      if r = - 1 then anet_fail (msg @ errno_text sys w) w else Inr (ANET_OK, w))"

definition anetSetTcpNoDelay :: "'k sys \<Rightarrow> int \<Rightarrow> int \<Rightarrow> 'k net \<Rightarrow> fault + int \<times> 'k net" where
  "anetSetTcpNoDelay sys fd val w = set_opt sys fd (TCP_NODELAY val) ''setsockopt TCP_NODELAY: '' w"

definition anetEnableTcpNoDelay :: "'k sys \<Rightarrow> int \<Rightarrow> 'k net \<Rightarrow> fault + int \<times> 'k net" where
  "anetEnableTcpNoDelay sys fd w = anetSetTcpNoDelay sys fd 1 w"

definition anetDisableTcpNoDelay :: "'k sys \<Rightarrow> int \<Rightarrow> 'k net \<Rightarrow> fault + int \<times> 'k net" where
  "anetDisableTcpNoDelay sys fd w = anetSetTcpNoDelay sys fd 0 w"

definition anetSetSendBuffer :: "'k sys \<Rightarrow> int \<Rightarrow> int \<Rightarrow> 'k net \<Rightarrow> fault + int \<times> 'k net" where
  "anetSetSendBuffer sys fd buffsize w = set_opt sys fd (SO_SNDBUF buffsize) ''setsockopt SO_SNDBUF: '' w"

definition anetTcpKeepAlive :: "'k sys \<Rightarrow> int \<Rightarrow> 'k net \<Rightarrow> fault + int \<times> 'k net" where
  "anetTcpKeepAlive sys fd w = set_opt sys fd (SO_KEEPALIVE 1) ''setsockopt SO_KEEPALIVE: '' w"

definition anetSendTimeout :: "'k sys \<Rightarrow> int \<Rightarrow> int \<Rightarrow> 'k net \<Rightarrow> fault + int \<times> 'k net" where
  "anetSendTimeout sys fd ms w =
     set_opt sys fd (SO_SNDTIMEO (ms sdiv 1000) (ms smod 1000 * 1000)) ''setsockopt SO_SNDTIMEO: '' w"

definition anetSetReuseAddr :: "'k sys \<Rightarrow> int \<Rightarrow> 'k net \<Rightarrow> fault + int \<times> 'k net" where
  "anetSetReuseAddr sys fd w = set_opt sys fd (SO_REUSEADDR 1) ''setsockopt SO_REUSEADDR: '' w"

section \<open>Addresses\<close>

definition sin_port :: "sockaddr \<Rightarrow> fault + int" where
  "sin_port sa = bindE (mem_slice (sa_data sa) 0 2) (\<lambda>p. Inr (256 * of_char (p ! 0) + of_char (p ! 1)))"

definition sin_addr :: "sockaddr \<Rightarrow> fault + string" where
  "sin_addr sa = mem_slice (sa_data sa) 2 4"

definition sin6_addr :: "sockaddr \<Rightarrow> fault + string" where
  "sin6_addr sa = mem_slice (sa_data sa) 6 16"

text \<open>The address as text and the port, for the two internet families.\<close>

definition addr_text :: "'k sys \<Rightarrow> int \<Rightarrow> sockaddr \<Rightarrow> string option \<Rightarrow> nat \<Rightarrow> fault + string option" where
  "addr_text sys af sa ip ip_len =
     bindE (if af = AF_INET then sin_addr sa else sin6_addr sa) (\<lambda>a. inet_ntop sys af a ip ip_len)"

text \<open>\<open>*port = v\<close> where port is not NULL; a port is None for NULL, else the value it points to.\<close>

definition set_port :: "int option \<Rightarrow> int \<Rightarrow> int option" where
  "set_port port v = (case port of None \<Rightarrow> None | Some _ \<Rightarrow> Some v)"

definition anetGenericResolve :: "'k sys \<Rightarrow> string \<Rightarrow> string option \<Rightarrow> nat \<Rightarrow> s32 \<Rightarrow> 'k net
    \<Rightarrow> fault + int \<times> string option \<times> 'k net" where
  "anetGenericResolve sys host ipbuf ipbuf_len flags w =
     (let h = \<lparr>h_flags = (if flags AND ANET_IP_ONLY \<noteq> 0 then AI_NUMERICHOST else 0), h_family = AF_UNSPEC,
               h_socktype = SOCK_STREAM\<rparr>;
          ((rv, info), w) = net_getaddrinfo sys (Some host) None h w in
      if rv \<noteq> 0 then bindE (anet_fail (sys_gai_strerror sys rv) w) (\<lambda>(r, w). Inr (r, ipbuf, w))
      else case info of [] \<Rightarrow> Inl Null_Deref
           | p # _ \<Rightarrow>
               bindE (addr_text sys (if ai_family p = AF_INET then AF_INET else AF_INET6) (ai_addr p) ipbuf ipbuf_len)
                 (\<lambda>ipbuf. Inr (ANET_OK, ipbuf, net_freeaddrinfo w)))"

definition anetResolve :: "'k sys \<Rightarrow> string \<Rightarrow> string option \<Rightarrow> nat \<Rightarrow> 'k net \<Rightarrow> fault + int \<times> string option \<times> 'k net" where
  "anetResolve sys host ipbuf ipbuf_len w = anetGenericResolve sys host ipbuf ipbuf_len ANET_NONE w"

definition anetResolveIP :: "'k sys \<Rightarrow> string \<Rightarrow> string option \<Rightarrow> nat \<Rightarrow> 'k net \<Rightarrow> fault + int \<times> string option \<times> 'k net" where
  "anetResolveIP sys host ipbuf ipbuf_len w = anetGenericResolve sys host ipbuf ipbuf_len ANET_IP_ONLY w"

section \<open>Connecting\<close>

definition anetCreateSocket :: "'k sys \<Rightarrow> int \<Rightarrow> 'k net \<Rightarrow> fault + int \<times> 'k net" where
  "anetCreateSocket sys domain w =
     (let (s, w) = net_socket sys domain SOCK_STREAM 0 w in
      if s = - 1 then anet_fail (''creating socket: '' @ errno_text sys w) w
      else bindE (anetSetReuseAddr sys s w) (\<lambda>(r, w).
           if r = ANET_ERR then Inr (ANET_ERR, net_close sys s w) else Inr (s, w)))"

text \<open>The port as text: snprintf into six chars.\<close>

definition portstr :: "int \<Rightarrow> string" where
  "portstr port = take 5 (dec_int port)"

text \<open>How the loop over the addresses is left: \<open>goto end\<close>, \<open>goto error\<close> or no address left.\<close>

datatype exit = To_End | To_Error | No_Address

fun try_bind :: "'k sys \<Rightarrow> int \<Rightarrow> addrinfo list \<Rightarrow> 'k net \<Rightarrow> bool \<times> 'k net" where
  "try_bind sys s [] w = (False, w)"
| "try_bind sys s (b # bs) w =
     (let (r, w) = sysc (sys_bind sys s (ai_addr b)) w in
      if r \<noteq> - 1 then (True, w) else try_bind sys s bs w)"

text \<open>The part for a source address; the answer is False where it does \<open>goto error\<close>.\<close>

definition bind_source :: "'k sys \<Rightarrow> string option \<Rightarrow> hints \<Rightarrow> int \<Rightarrow> 'k net \<Rightarrow> fault + bool \<times> 'k net" where
  "bind_source sys source_addr h s w =
     (case source_addr of None \<Rightarrow> Inr (True, w)
      | Some a \<Rightarrow>
          let ((rv, bs), w) = net_getaddrinfo sys (Some a) None h w in
          if rv \<noteq> 0 then bindE (anetSetError (sys_gai_strerror sys rv) w) (\<lambda>w. Inr (False, w))
          else let (bound, w) = try_bind sys s bs w;
                   w = net_freeaddrinfo w
               in if bound then Inr (True, w)
                  else bindE (anetSetError (''bind: '' @ errno_text sys w) w) (\<lambda>w. Inr (False, w)))"

fun connect_loop :: "'k sys \<Rightarrow> string option \<Rightarrow> s32 \<Rightarrow> hints \<Rightarrow> addrinfo list \<Rightarrow> int \<Rightarrow> 'k net
    \<Rightarrow> fault + exit \<times> int \<times> 'k net" where
  "connect_loop sys source_addr flags h [] s w = Inr (No_Address, s, w)"
| "connect_loop sys source_addr flags h (p # ps) s w =
     (let (s, w) = net_socket sys (ai_family p) (ai_socktype p) (ai_protocol p) w in
      if s = - 1 then connect_loop sys source_addr flags h ps s w
      else bindE (anetSetReuseAddr sys s w) (\<lambda>(r, w).
           if r = ANET_ERR then Inr (To_Error, s, w)
           else bindE (if flags AND ANET_CONNECT_NONBLOCK \<noteq> 0 then anetNonBlock sys s w else Inr (ANET_OK, w)) (\<lambda>(r, w).
           if r \<noteq> ANET_OK then Inr (To_Error, s, w)
           else bindE (bind_source sys source_addr h s w) (\<lambda>(ok, w).
           if \<not> ok then Inr (To_Error, s, w)
           else let (r, w) = sysc (sys_connect sys s (ai_addr p)) w in
                if r = - 1
                then if sys_errno sys (kern w) = EINPROGRESS \<and> flags AND ANET_CONNECT_NONBLOCK \<noteq> 0
                     then Inr (To_End, s, w)
                     else connect_loop sys source_addr flags h ps ANET_ERR (net_close sys s w)
                else Inr (To_End, s, w)))))"

function anetTcpGenericConnect :: "'k sys \<Rightarrow> string \<Rightarrow> int \<Rightarrow> string option \<Rightarrow> s32 \<Rightarrow> 'k net \<Rightarrow> fault + int \<times> 'k net" where
  "anetTcpGenericConnect sys adr port source_addr flags w =
     (let h = \<lparr>h_flags = 0, h_family = AF_UNSPEC, h_socktype = SOCK_STREAM\<rparr>;
          ((rv, servinfo), w) = net_getaddrinfo sys (Some adr) (Some (portstr port)) h w in
      if rv \<noteq> 0 then anet_fail (sys_gai_strerror sys rv) w
      else bindE (connect_loop sys source_addr flags h servinfo ANET_ERR w) (\<lambda>(ex, s, w).
           bindE (if ex = No_Address then anetSetError (''creating socket: '' @ errno_text sys w) w else Inr w) (\<lambda>w.
           let (s, w) = (if ex \<noteq> To_End \<and> s \<noteq> ANET_ERR then (ANET_ERR, net_close sys s w) else (s, w));
               w = net_freeaddrinfo w
           in if s = ANET_ERR \<and> source_addr \<noteq> None \<and> flags AND ANET_CONNECT_BE_BINDING \<noteq> 0
              then anetTcpGenericConnect sys adr port None flags w
              else Inr (s, w))))"
  by pat_completeness auto
termination
  by (relation "measure (\<lambda>(sys, adr, port, src, flags, w). if src = None then 0 else 1)") (auto split: prod.splits if_splits)

declare anetTcpGenericConnect.simps [simp del]

definition anetTcpConnect :: "'k sys \<Rightarrow> string \<Rightarrow> int \<Rightarrow> 'k net \<Rightarrow> fault + int \<times> 'k net" where
  "anetTcpConnect sys adr port w = anetTcpGenericConnect sys adr port None ANET_CONNECT_NONE w"

definition anetTcpNonBlockConnect :: "'k sys \<Rightarrow> string \<Rightarrow> int \<Rightarrow> 'k net \<Rightarrow> fault + int \<times> 'k net" where
  "anetTcpNonBlockConnect sys adr port w = anetTcpGenericConnect sys adr port None ANET_CONNECT_NONBLOCK w"

definition anetTcpNonBlockBindConnect :: "'k sys \<Rightarrow> string \<Rightarrow> int \<Rightarrow> string option \<Rightarrow> 'k net \<Rightarrow> fault + int \<times> 'k net" where
  "anetTcpNonBlockBindConnect sys adr port source_addr w =
     anetTcpGenericConnect sys adr port source_addr ANET_CONNECT_NONBLOCK w"

definition anetTcpNonBlockBestEffortBindConnect :: "'k sys \<Rightarrow> string \<Rightarrow> int \<Rightarrow> string option \<Rightarrow> 'k net \<Rightarrow> fault + int \<times> 'k net" where
  "anetTcpNonBlockBestEffortBindConnect sys adr port source_addr w =
     anetTcpGenericConnect sys adr port source_addr (ANET_CONNECT_NONBLOCK OR ANET_CONNECT_BE_BINDING) w"

text \<open>\<open>sun_path\<close> is what the bytes of the uninitialised struct hold.\<close>

definition anetUnixGenericConnect :: "'k sys \<Rightarrow> string \<Rightarrow> string \<Rightarrow> s32 \<Rightarrow> 'k net \<Rightarrow> fault + int \<times> 'k net" where
  "anetUnixGenericConnect sys sun_path path flags w =
     bindE (anetCreateSocket sys AF_LOCAL w) (\<lambda>(s, w).
     if s = ANET_ERR then Inr (ANET_ERR, w)
     else bindE (strncpy sun_path path (108 - 1)) (\<lambda>sun_path.
     bindE (if flags AND ANET_CONNECT_NONBLOCK \<noteq> 0 then anetNonBlock sys s w else Inr (ANET_OK, w)) (\<lambda>(r, w).
     if r \<noteq> ANET_OK then Inr (ANET_ERR, w)
     else let (r, w) = sysc (sys_connect sys s \<lparr>sa_family = AF_LOCAL, sa_data = sun_path\<rparr>) w in
          if r = - 1
          then if sys_errno sys (kern w) = EINPROGRESS \<and> flags AND ANET_CONNECT_NONBLOCK \<noteq> 0 then Inr (s, w)
               else bindE (anetSetError (''connect: '' @ errno_text sys w) w) (\<lambda>w. Inr (ANET_ERR, net_close sys s w))
          else Inr (s, w))))"

definition anetUnixConnect :: "'k sys \<Rightarrow> string \<Rightarrow> string \<Rightarrow> 'k net \<Rightarrow> fault + int \<times> 'k net" where
  "anetUnixConnect sys sun_path path w = anetUnixGenericConnect sys sun_path path ANET_CONNECT_NONE w"

definition anetUnixNonBlockConnect :: "'k sys \<Rightarrow> string \<Rightarrow> string \<Rightarrow> 'k net \<Rightarrow> fault + int \<times> 'k net" where
  "anetUnixNonBlockConnect sys sun_path path w = anetUnixGenericConnect sys sun_path path ANET_CONNECT_NONBLOCK w"

section \<open>Reading and writing\<close>

text \<open>
  \<open>pos\<close> is how far buf has moved, which is totlen; the size is the int difference as a
  size_t. \<open>fuel\<close> bounds the calls.
\<close>

fun read_loop :: "nat \<Rightarrow> 'k sys \<Rightarrow> int \<Rightarrow> string option \<Rightarrow> int \<Rightarrow> int \<Rightarrow> 'k net \<Rightarrow> fault + int \<times> string option \<times> 'k net" where
  "read_loop 0 sys fd buf cnt totlen w = Inl Diverges"
| "read_loop (Suc fuel) sys fd buf cnt totlen w =
     (if totlen = cnt then Inr (totlen, buf, w)
      else let ((nread, d), w) = sysc (sys_read sys fd (word_of_int (cnt - totlen))) w in
           if nread = 0 then Inr (totlen, buf, w)
           else if nread = - 1 then Inr (- 1, buf, w)
           else bindE (block_store buf (nat totlen) d) (\<lambda>buf. read_loop fuel sys fd buf cnt (totlen + nread) w))"

definition anetRead :: "nat \<Rightarrow> 'k sys \<Rightarrow> int \<Rightarrow> string option \<Rightarrow> int \<Rightarrow> 'k net \<Rightarrow> fault + int \<times> string option \<times> 'k net" where
  "anetRead fuel sys fd buf cnt w = read_loop fuel sys fd buf cnt 0 w"

fun write_loop :: "nat \<Rightarrow> 'k sys \<Rightarrow> int \<Rightarrow> string option \<Rightarrow> int \<Rightarrow> int \<Rightarrow> 'k net \<Rightarrow> fault + int \<times> 'k net" where
  "write_loop 0 sys fd buf cnt totlen w = Inl Diverges"
| "write_loop (Suc fuel) sys fd buf cnt totlen w =
     (if totlen = cnt then Inr (totlen, w)
      else bindE (block_slice buf (nat totlen) (unat (word_of_int (cnt - totlen) :: u64))) (\<lambda>d.
           let (nwritten, w) = sysc (sys_write sys fd d) w in
           if nwritten = 0 then Inr (totlen, w)
           else if nwritten = - 1 then Inr (- 1, w)
           else write_loop fuel sys fd buf cnt (totlen + nwritten) w))"

definition anetWrite :: "nat \<Rightarrow> 'k sys \<Rightarrow> int \<Rightarrow> string option \<Rightarrow> int \<Rightarrow> 'k net \<Rightarrow> fault + int \<times> 'k net" where
  "anetWrite fuel sys fd buf cnt w = write_loop fuel sys fd buf cnt 0 w"

section \<open>Servers\<close>

definition anetListen :: "'k sys \<Rightarrow> int \<Rightarrow> sockaddr \<Rightarrow> int \<Rightarrow> 'k net \<Rightarrow> fault + int \<times> 'k net" where
  "anetListen sys s sa backlog w =
     (let (r, w) = sysc (sys_bind sys s sa) w in
      if r = - 1
      then bindE (anetSetError (''bind: '' @ errno_text sys w) w) (\<lambda>w. Inr (ANET_ERR, net_close sys s w))
      else let (r, w) = sysc (sys_listen sys s backlog) w in
           if r = - 1
           then bindE (anetSetError (''listen: '' @ errno_text sys w) w) (\<lambda>w. Inr (ANET_ERR, net_close sys s w))
           else Inr (ANET_OK, w))"

definition anetV6Only :: "'k sys \<Rightarrow> int \<Rightarrow> 'k net \<Rightarrow> fault + int \<times> 'k net" where
  "anetV6Only sys s w =
     (let (r, w) = sysc (sys_setsockopt sys s (IPV6_V6ONLY 1)) w in
      if r = - 1
      then bindE (anetSetError (''setsockopt: '' @ errno_text sys w) w) (\<lambda>w. Inr (ANET_ERR, net_close sys s w))
      else Inr (ANET_OK, w))"

fun server_loop :: "'k sys \<Rightarrow> int \<Rightarrow> int \<Rightarrow> addrinfo list \<Rightarrow> 'k net \<Rightarrow> fault + exit \<times> int \<times> 'k net" where
  "server_loop sys af backlog [] w = Inr (No_Address, ANET_ERR, w)"
| "server_loop sys af backlog (p # ps) w =
     (let (s, w) = net_socket sys (ai_family p) (ai_socktype p) (ai_protocol p) w in
      if s = - 1 then server_loop sys af backlog ps w
      else bindE (if af = AF_INET6 then anetV6Only sys s w else Inr (ANET_OK, w)) (\<lambda>(r, w).
           if r = ANET_ERR then Inr (To_Error, s, w)
           else bindE (anetSetReuseAddr sys s w) (\<lambda>(r, w).
           if r = ANET_ERR then Inr (To_Error, s, w)
           else bindE (anetListen sys s (ai_addr p) backlog w) (\<lambda>(r, w).
           if r = ANET_ERR then Inr (To_Error, s, w) else Inr (To_End, s, w)))))"

text \<open>\<open>_anetTcpServer\<close>.\<close>

definition anetTcpServer_af :: "'k sys \<Rightarrow> int \<Rightarrow> string option \<Rightarrow> int \<Rightarrow> int \<Rightarrow> 'k net \<Rightarrow> fault + int \<times> 'k net" where
  "anetTcpServer_af sys port bindaddr af backlog w =
     (let h = \<lparr>h_flags = AI_PASSIVE, h_family = af, h_socktype = SOCK_STREAM\<rparr>;
          ((rv, servinfo), w) = net_getaddrinfo sys bindaddr (Some (portstr port)) h w in
      if rv \<noteq> 0 then anet_fail (sys_gai_strerror sys rv) w
      else bindE (server_loop sys af backlog servinfo w) (\<lambda>(ex, s, w).
           bindE (if ex = No_Address then anetSetError ''unable to bind socket'' w else Inr w) (\<lambda>w.
           let s = (if ex = To_End then s else ANET_ERR) in Inr (s, net_freeaddrinfo w))))"

definition anetTcpServer :: "'k sys \<Rightarrow> int \<Rightarrow> string option \<Rightarrow> int \<Rightarrow> 'k net \<Rightarrow> fault + int \<times> 'k net" where
  "anetTcpServer sys port bindaddr backlog w = anetTcpServer_af sys port bindaddr AF_INET backlog w"

definition anetTcp6Server :: "'k sys \<Rightarrow> int \<Rightarrow> string option \<Rightarrow> int \<Rightarrow> 'k net \<Rightarrow> fault + int \<times> 'k net" where
  "anetTcp6Server sys port bindaddr backlog w = anetTcpServer_af sys port bindaddr AF_INET6 backlog w"

text \<open>Here the struct is set to zero before the path is copied.\<close>

definition anetUnixServer :: "'k sys \<Rightarrow> string \<Rightarrow> u32 \<Rightarrow> int \<Rightarrow> 'k net \<Rightarrow> fault + int \<times> 'k net" where
  "anetUnixServer sys path perm backlog w =
     bindE (anetCreateSocket sys AF_LOCAL w) (\<lambda>(s, w).
     if s = ANET_ERR then Inr (ANET_ERR, w)
     else bindE (strncpy (replicate 108 NUL) path (108 - 1)) (\<lambda>sun_path.
     bindE (anetListen sys s \<lparr>sa_family = AF_LOCAL, sa_data = sun_path\<rparr> backlog w) (\<lambda>(r, w).
     if r = ANET_ERR then Inr (ANET_ERR, w)
     else bindE (if perm \<noteq> 0 then bindE (c_text sun_path) (\<lambda>t. Inr (snd (sysc (sys_chmod sys t perm) w))) else Inr w) (\<lambda>w.
     Inr (s, w)))))"

section \<open>Accepting\<close>

fun anetGenericAccept :: "nat \<Rightarrow> 'k sys \<Rightarrow> int \<Rightarrow> 'k net \<Rightarrow> fault + (int \<times> sockaddr) \<times> 'k net" where
  "anetGenericAccept 0 sys s w = Inl Diverges"
| "anetGenericAccept (Suc fuel) sys s w =
     (let ((fd, sa), w) = net_accept sys s w in
      if fd = - 1
      then if sys_errno sys (kern w) = EINTR then anetGenericAccept fuel sys s w
           else bindE (anet_fail (''accept: '' @ errno_text sys w) w) (\<lambda>(r, w). Inr ((r, sa), w))
      else Inr ((fd, sa), w))"

text \<open>\<open>ip\<close> and \<open>port\<close> are None for NULL, else what they point to; the new contents are returned.\<close>

definition anetTcpAccept :: "nat \<Rightarrow> 'k sys \<Rightarrow> int \<Rightarrow> string option \<Rightarrow> nat \<Rightarrow> int option \<Rightarrow> 'k net
    \<Rightarrow> fault + (int \<times> string option \<times> int option) \<times> 'k net" where
  "anetTcpAccept fuel sys s ip ip_len port w =
     bindE (anetGenericAccept fuel sys s w) (\<lambda>((fd, sa), w).
     if fd = - 1 then Inr ((ANET_ERR, ip, port), w)
     else let af = (if sa_family sa = AF_INET then AF_INET else AF_INET6) in
          bindE (if ip = None then Inr None else addr_text sys af sa ip ip_len) (\<lambda>ip.
          bindE (if port = None then Inr None else bindE (sin_port sa) (\<lambda>v. Inr (set_port port v))) (\<lambda>port.
          Inr ((fd, ip, port), w))))"

definition anetUnixAccept :: "nat \<Rightarrow> 'k sys \<Rightarrow> int \<Rightarrow> 'k net \<Rightarrow> fault + int \<times> 'k net" where
  "anetUnixAccept fuel sys s w =
     bindE (anetGenericAccept fuel sys s w) (\<lambda>((fd, sa), w). if fd = - 1 then Inr (ANET_ERR, w) else Inr (fd, w))"

text \<open>The common ends of the two functions below.\<close>

definition name_out :: "'k sys \<Rightarrow> int \<Rightarrow> sockaddr \<Rightarrow> string option \<Rightarrow> nat \<Rightarrow> int option
    \<Rightarrow> fault + int \<times> string option \<times> int option" where
  "name_out sys af sa ip ip_len port =
     bindE (if ip = None then Inr None else addr_text sys af sa ip ip_len) (\<lambda>ip.
     bindE (if port = None then Inr None else bindE (sin_port sa) (\<lambda>v. Inr (set_port port v))) (\<lambda>port.
     Inr (0, ip, port)))"

definition anetPeerToString :: "'k sys \<Rightarrow> int \<Rightarrow> string option \<Rightarrow> nat \<Rightarrow> int option \<Rightarrow> 'k net
    \<Rightarrow> fault + (int \<times> string option \<times> int option) \<times> 'k net" where
  "anetPeerToString sys fd ip ip_len port w =
     (let ((r, sa), w) = sysc (sys_getpeername sys fd) w;
          err = bindE (case ip of None \<Rightarrow> Inr None
                       | Some b \<Rightarrow>
                           if ip_len \<ge> 2 then block_store ip 0 [CHR ''?'', NUL]
                           else if ip_len = 1 then block_store ip 0 [NUL] else Inr ip)
                  (\<lambda>ip. Inr ((- 1, ip, set_port port 0), w))
      in if r = - 1 \<or> ip_len = 0 then err
         else if sa_family sa = AF_INET \<or> sa_family sa = AF_INET6
         then bindE (name_out sys (sa_family sa) sa ip ip_len port) (\<lambda>res. Inr (res, w))
         else if sa_family sa = AF_LOCAL
         then bindE (case ip of None \<Rightarrow> Inr None
                     | Some b \<Rightarrow> bindE (strncpy b ''/unixsocket'' ip_len) (\<lambda>b. Inr (Some b)))
                (\<lambda>ip. Inr ((0, ip, set_port port 0), w))
         else err)"

definition anetSockName :: "'k sys \<Rightarrow> int \<Rightarrow> string option \<Rightarrow> nat \<Rightarrow> int option \<Rightarrow> 'k net
    \<Rightarrow> fault + (int \<times> string option \<times> int option) \<times> 'k net" where
  "anetSockName sys fd ip ip_len port w =
     (let ((r, sa), w) = sysc (sys_getsockname sys fd) w in
      if r = - 1
      then bindE (block_store ip 0 [CHR ''?'', NUL]) (\<lambda>ip. Inr ((- 1, ip, set_port port 0), w))
      else bindE (name_out sys (if sa_family sa = AF_INET then AF_INET else AF_INET6) sa ip ip_len port)
             (\<lambda>res. Inr (res, w)))"

end
