(* ===== verification/Anet_Ledger.thy ===== *)
theory Anet_Ledger
  imports Anet
begin

text \<open>
  What the socket helpers do to the descriptors they are given and to those they make: a
  ledger of open descriptors, closes of descriptors not held, and address lists. Every
  function that makes a descriptor gives it to its caller or closes it, on every path but one.
\<close>

section \<open>The ledger\<close>

text \<open>The caller's error buffer has the size the header asks for, or is NULL.\<close>

definition err_ok :: "'k net \<Rightarrow> bool" where
  "err_ok w \<longleftrightarrow> (case errbuf w of None \<Rightarrow> True | Some b \<Rightarrow> ANET_ERR_LEN \<le> length b)"

definition ledger :: "int list \<Rightarrow> int list \<Rightarrow> int \<Rightarrow> 'k net \<Rightarrow> bool" where
  "ledger F S I w \<longleftrightarrow> fds w = F \<and> stray w = S \<and> infos w = I \<and> err_ok w"

named_theorems ledger_calls \<open>what a call does to the ledger\<close>

lemma ledgerI: "err_ok w \<Longrightarrow> ledger (fds w) (stray w) (infos w) w"
  by (simp add: ledger_def)

lemma ledger_sysc [ledger_calls]: "sysc f w = (r, w') \<Longrightarrow> ledger F S I w \<Longrightarrow> ledger F S I w'"
  by (auto simp: sysc_def ledger_def err_ok_def split: prod.splits)

lemma ledger_snd_sysc: "ledger F S I w \<Longrightarrow> ledger F S I (snd (sysc f w))"
  by (cases "sysc f w") (simp add: ledger_sysc)

lemma ledger_socket [ledger_calls]:
  "net_socket sys d t p w = (s, w') \<Longrightarrow> ledger F S I w \<Longrightarrow> ledger (if s = - 1 then F else s # F) S I w'"
  by (auto simp: net_socket_def sysc_def ledger_def err_ok_def split: prod.splits if_splits)

lemma ledger_accept [ledger_calls]:
  "net_accept sys l w = ((fd, sa), w') \<Longrightarrow> ledger F S I w \<Longrightarrow> ledger (if fd = - 1 then F else fd # F) S I w'"
  by (auto simp: net_accept_def sysc_def ledger_def err_ok_def split: prod.splits if_splits)

lemma ledger_getaddrinfo [ledger_calls]:
  "net_getaddrinfo sys a b h w = ((rv, ps), w') \<Longrightarrow> ledger F S I w \<Longrightarrow> ledger F S (if rv = 0 then I + 1 else I) w'"
  by (auto simp: net_getaddrinfo_def sysc_def ledger_def err_ok_def split: prod.splits if_splits)

lemma ledger_freeaddrinfo [ledger_calls]: "ledger F S (I + 1) w \<Longrightarrow> ledger F S I (net_freeaddrinfo w)"
  by (simp add: net_freeaddrinfo_def ledger_def err_ok_def)

lemma ledger_close [ledger_calls]: "ledger (s # F) S I w \<Longrightarrow> ledger F S I (net_close sys s w)"
  by (auto simp: net_close_def sysc_def ledger_def err_ok_def split: prod.splits)

section \<open>Errors and options\<close>

lemma anetSetError_ledger [ledger_calls]: "ledger F S I w \<Longrightarrow> gives (ledger F S I) (anetSetError txt w)"
  by (cases "errbuf w")
     (auto simp: anetSetError_def snprintf_text ledger_def err_ok_def ANET_ERR_LEN_def min_def)

lemma anet_fail_ledger [ledger_calls]:
  "ledger F S I w \<Longrightarrow> gives (\<lambda>(r, w). r = ANET_ERR \<and> ledger F S I w) (anet_fail txt w)"
  unfolding anet_fail_def by (rule gives_bind [OF anetSetError_ledger]) simp_all

abbreviation done_or_err :: "int list \<Rightarrow> int list \<Rightarrow> int \<Rightarrow> int \<times> 'k net \<Rightarrow> bool" where
  "done_or_err F S I \<equiv> \<lambda>(r, w). (r = ANET_OK \<or> r = ANET_ERR) \<and> ledger F S I w"

lemma ok_not_err [simp]: "ANET_OK \<noteq> ANET_ERR" "ANET_ERR \<noteq> ANET_OK"
  by (simp_all add: anet_codes)

lemma fail_done_or_err: "ledger F S I w \<Longrightarrow> gives (done_or_err F S I) (anet_fail txt w)"
  by (rule gives_mono [OF anet_fail_ledger]) auto

lemma set_opt_ledger [ledger_calls]: "ledger F S I w \<Longrightarrow> gives (done_or_err F S I) (set_opt sys fd opt msg w)"
  unfolding set_opt_def by (auto split: prod.split simp: Let_def fail_done_or_err ledger_sysc)

lemma anetSetReuseAddr_ledger [ledger_calls]: "ledger F S I w \<Longrightarrow> gives (done_or_err F S I) (anetSetReuseAddr sys fd w)"
  unfolding anetSetReuseAddr_def by (rule set_opt_ledger)

lemma anetSetBlock_ledger [ledger_calls]: "ledger F S I w \<Longrightarrow> gives (done_or_err F S I) (anetSetBlock sys fd nb w)"
  unfolding anetSetBlock_def by (auto split: prod.split simp: Let_def fail_done_or_err ledger_sysc)

lemma anetNonBlock_ledger [ledger_calls]: "ledger F S I w \<Longrightarrow> gives (done_or_err F S I) (anetNonBlock sys fd w)"
  unfolding anetNonBlock_def by (rule anetSetBlock_ledger)

lemma anetKeepAlive_ledger [ledger_calls]: "ledger F S I w \<Longrightarrow> gives (done_or_err F S I) (anetKeepAlive sys fd n w)"
  unfolding anetKeepAlive_def by (auto split: prod.split simp: Let_def fail_done_or_err ledger_sysc)

lemma anetEnableTcpNoDelay_ledger [ledger_calls]:
  "ledger F S I w \<Longrightarrow> gives (done_or_err F S I) (anetEnableTcpNoDelay sys fd w)"
  unfolding anetEnableTcpNoDelay_def anetSetTcpNoDelay_def by (rule set_opt_ledger)

lemma set_opt_ok:
  "\<forall>k. fst (sys_setsockopt sys fd opt k) \<noteq> - 1 \<Longrightarrow> ledger F S I w \<Longrightarrow>
   gives (\<lambda>(r, w). r = ANET_OK \<and> ledger F S I w) (set_opt sys fd opt msg w)"
  unfolding set_opt_def
  by (cases "sys_setsockopt sys fd opt (kern w)") (auto simp: sysc_def ledger_def err_ok_def dest: spec [of _ "kern w"])

section \<open>Connecting\<close>

lemma try_bind_ledger: "try_bind sys s bs w = (ok, w') \<Longrightarrow> ledger F S I w \<Longrightarrow> ledger F S I w'"
  by (induction bs arbitrary: w) (auto split: prod.splits if_splits simp: Let_def ledger_sysc)

lemma bind_source_ledger [ledger_calls]:
  assumes "ledger F S I w"
  shows "gives (\<lambda>(ok, w). ledger F S I w) (bind_source sys src h s w)"
proof (cases src)
  case (Some a)
  obtain rv bs w1 where 1: "net_getaddrinfo sys (Some a) None h w = ((rv, bs), w1)"
    by (metis surj_pair)
  note l1 = ledger_getaddrinfo [OF 1 assms]
  obtain ok w2 where 2: "try_bind sys s bs w1 = (ok, w2)" by (metis surj_pair)
  show ?thesis
  proof (cases "rv = 0")
    case True
    then have "ledger F S I (net_freeaddrinfo w2)"
      using l1 2 by (auto intro: ledger_freeaddrinfo try_bind_ledger)
    with True show ?thesis unfolding bind_source_def
      by (auto simp: Some 1 2 Let_def intro: gives_bind [OF anetSetError_ledger])
  next
    case False
    with l1 show ?thesis unfolding bind_source_def
      by (auto simp: Some 1 intro: gives_bind [OF anetSetError_ledger])
  qed
qed (use assms in \<open>simp add: bind_source_def\<close>)

text \<open>How the loop ends: connected, or with a descriptor still to close, or with none.\<close>

definition loop_end :: "int list \<Rightarrow> int list \<Rightarrow> int \<Rightarrow> exit \<times> int \<times> 'k net \<Rightarrow> bool" where
  "loop_end F S I = (\<lambda>(ex, s, w). (ex = To_End \<longrightarrow> s \<noteq> ANET_ERR) \<and> ledger (if s = ANET_ERR then F else s # F) S I w)"

lemma connect_loop_ledger:
  "ledger F S I w \<Longrightarrow> gives (loop_end F S I) (connect_loop sys src flags h ps ANET_ERR w)"
proof (induction ps arbitrary: w)
  case Nil
  then show ?case by (simp add: loop_end_def)
next
  case (Cons p ps)
  obtain s w1 where 1: "net_socket sys (ai_family p) (ai_socktype p) (ai_protocol p) w = (s, w1)"
    by (metis surj_pair)
  note l1 = ledger_socket [OF 1 Cons.prems]
  show ?case
  proof (cases "s = - 1")
    case True
    then show ?thesis using 1 l1 Cons.IH [of w1] by (simp add: ANET_ERR_def)
  next
    case s: False
    have err: "ledger (s # F) S I w \<Longrightarrow> loop_end F S I (To_Error, s, w)" for w :: "'a net"
      using s by (simp add: loop_end_def ANET_ERR_def)
    have con: "gives (loop_end F S I)
        (let (r, w) = sysc (sys_connect sys s (ai_addr p)) w in
         if r = - 1
         then if sys_errno sys (kern w) = EINPROGRESS \<and> flags AND ANET_CONNECT_NONBLOCK \<noteq> 0
              then Inr (To_End, s, w)
              else connect_loop sys src flags h ps ANET_ERR (net_close sys s w)
         else Inr (To_End, s, w))" if "ledger (s # F) S I w" for w :: "'a net"
    proof -
      obtain r w' where c: "sysc (sys_connect sys s (ai_addr p)) w = (r, w')" by (metis surj_pair)
      have l: "ledger (s # F) S I w'" by (rule ledger_sysc [OF c that])
      show ?thesis using s l Cons.IH [OF ledger_close [OF l]]
        by (auto simp: c loop_end_def ANET_ERR_def)
    qed
    show ?thesis
      using s l1 unfolding connect_loop.simps 1 Let_def
      by (auto simp del: connect_loop.simps intro!: err gives_bind [OF anetSetReuseAddr_ledger]
            gives_bind [OF anetNonBlock_ledger] gives_bind [OF bind_source_ledger] con [unfolded Let_def])
  qed
qed

text \<open>A descriptor function's contract: it gives its caller one descriptor more, or fails and holds none.\<close>

definition opens_or_err :: "int list \<Rightarrow> int list \<Rightarrow> int \<Rightarrow> int \<times> 'k net \<Rightarrow> bool" where
  "opens_or_err F S I = (\<lambda>(s, w). ledger (if s = ANET_ERR then F else s # F) S I w)"

lemma anet_fail_opens: "ledger F S I w \<Longrightarrow> gives (opens_or_err F S I) (anet_fail txt w)"
  by (rule gives_mono [OF anet_fail_ledger]) (auto simp: opens_or_err_def)

lemma connect_round_ledger:
  assumes w: "ledger F S I w"
    and again: "\<And>w'. src \<noteq> None \<Longrightarrow> ledger F S I w' \<Longrightarrow>
      gives (opens_or_err F S I) (anetTcpGenericConnect sys adr port None flags w')"
  shows "gives (opens_or_err F S I) (anetTcpGenericConnect sys adr port src flags w)"
proof -
  let ?h = "\<lparr>h_flags = 0, h_family = AF_UNSPEC, h_socktype = SOCK_STREAM\<rparr>"
  obtain rv ps w1 where g: "net_getaddrinfo sys (Some adr) (Some (portstr port)) ?h w = ((rv, ps), w1)"
    by (metis surj_pair)
  note l1 = ledger_getaddrinfo [OF g w]
  show ?thesis
  proof (cases "rv = 0")
    case True
    with l1 have l: "ledger F S (I + 1) w1" by simp
    have "gives (opens_or_err F S I)
        (bindE (if ex = No_Address then anetSetError (''creating socket: '' @ errno_text sys w) w else Inr w) (\<lambda>w.
         let (s, w) = (if ex \<noteq> To_End \<and> s \<noteq> ANET_ERR then (ANET_ERR, net_close sys s w) else (s, w));
             w = net_freeaddrinfo w
         in if s = ANET_ERR \<and> src \<noteq> None \<and> flags AND ANET_CONNECT_BE_BINDING \<noteq> 0
            then anetTcpGenericConnect sys adr port None flags w else Inr (s, w)))"
      if "loop_end F S (I + 1) (ex, s, w)" for ex s and w :: "'a net"
    proof (rule gives_bind [where P = "ledger (if s = ANET_ERR then F else s # F) S (I + 1)"])
      show "gives (ledger (if s = ANET_ERR then F else s # F) S (I + 1))
          (if ex = No_Address then anetSetError (''creating socket: '' @ errno_text sys w) w else Inr w)"
        using that by (simp add: loop_end_def anetSetError_ledger)
    next
      fix w :: "'a net"
      assume "ledger (if s = ANET_ERR then F else s # F) S (I + 1) w"
      moreover have "gives (opens_or_err F S I) (Inr (t, v))"
        if "ledger (if t = ANET_ERR then F else t # F) S I v" for t and v :: "'a net"
        using that by (simp add: opens_or_err_def)
      ultimately show "gives (opens_or_err F S I)
         (let (s, w) = (if ex \<noteq> To_End \<and> s \<noteq> ANET_ERR then (ANET_ERR, net_close sys s w) else (s, w));
             w = net_freeaddrinfo w
         in if s = ANET_ERR \<and> src \<noteq> None \<and> flags AND ANET_CONNECT_BE_BINDING \<noteq> 0
            then anetTcpGenericConnect sys adr port None flags w else Inr (s, w))"
        using again by (auto simp: Let_def ledger_close ledger_freeaddrinfo simp del: gives_simps)
    qed
    then have "gives (opens_or_err F S I) (bindE (connect_loop sys src flags ?h ps ANET_ERR w1) (\<lambda>(ex, s, w).
         bindE (if ex = No_Address then anetSetError (''creating socket: '' @ errno_text sys w) w else Inr w) (\<lambda>w.
         let (s, w) = (if ex \<noteq> To_End \<and> s \<noteq> ANET_ERR then (ANET_ERR, net_close sys s w) else (s, w));
             w = net_freeaddrinfo w
         in if s = ANET_ERR \<and> src \<noteq> None \<and> flags AND ANET_CONNECT_BE_BINDING \<noteq> 0
            then anetTcpGenericConnect sys adr port None flags w else Inr (s, w))))"
      by (intro gives_bind [OF connect_loop_ledger [OF l]]) (simp only: split_paired_all prod.case)
    with True show ?thesis by (subst anetTcpGenericConnect.simps) (simp add: g Let_def)
  qed (use l1 in \<open>subst anetTcpGenericConnect.simps, simp add: g anet_fail_opens\<close>)
qed

lemma anetTcpGenericConnect_ledger:
  "ledger F S I w \<Longrightarrow> gives (opens_or_err F S I) (anetTcpGenericConnect sys adr port src flags w)"
  by (rule connect_round_ledger) (auto intro: connect_round_ledger)

section \<open>Creating, listening, accepting\<close>

lemma set_opt_outcome:
  "ledger F S I w \<Longrightarrow>
   gives (\<lambda>(r, w). ledger F S I w \<and> (r = ANET_OK \<or> r = ANET_ERR \<and> (\<exists>k. fst (sys_setsockopt sys fd opt k) = - 1)))
     (set_opt sys fd opt msg w)"
proof -
  assume l: "ledger F S I w"
  obtain r w' where c: "sysc (sys_setsockopt sys fd opt) w = (r, w')" by (metis surj_pair)
  then have "fst (sys_setsockopt sys fd opt (kern w)) = r" by (auto simp: sysc_def split: prod.splits)
  with c ledger_sysc [OF c l] show ?thesis
    by (auto simp: set_opt_def intro!: gives_mono [OF anet_fail_ledger])
qed

lemma anetCreateSocket_ledger:
  assumes "ledger F S I w"
  shows "gives (opens_or_err F S I) (anetCreateSocket sys d w)"
proof -
  obtain s w1 where 1: "net_socket sys d SOCK_STREAM 0 w = (s, w1)" by (metis surj_pair)
  note l1 = ledger_socket [OF 1 assms]
  show ?thesis
  proof (cases "s = - 1")
    case True
    then show ?thesis using l1 by (simp add: anetCreateSocket_def 1 anet_fail_opens)
  next
    case False
    then show ?thesis using l1 unfolding anetCreateSocket_def 1 Let_def
      by (auto intro!: gives_bind [OF anetSetReuseAddr_ledger] ledger_close simp: opens_or_err_def)
         (simp_all add: ANET_ERR_def)
  qed
qed

text \<open>A function that fails closes the caller's descriptor.\<close>

definition keeps_or_closes :: "int \<Rightarrow> int list \<Rightarrow> int list \<Rightarrow> int \<Rightarrow> int \<times> 'k net \<Rightarrow> bool" where
  "keeps_or_closes s F S I = (\<lambda>(r, w). r = ANET_OK \<and> ledger (s # F) S I w \<or> r = ANET_ERR \<and> ledger F S I w)"

lemma set_error_close:
  "ledger (s # F) S I w \<Longrightarrow>
   gives (keeps_or_closes s F S I) (bindE (anetSetError txt w) (\<lambda>w. Inr (ANET_ERR, net_close sys s w)))"
  by (rule gives_bind [OF anetSetError_ledger]) (auto simp: keeps_or_closes_def ledger_close)

lemma keeps: "ledger (s # F) S I w \<Longrightarrow> keeps_or_closes s F S I (ANET_OK, w)"
  by (simp add: keeps_or_closes_def)

lemma anetV6Only_ledger: "ledger (s # F) S I w \<Longrightarrow> gives (keeps_or_closes s F S I) (anetV6Only sys s w)"
  unfolding anetV6Only_def Let_def by (auto split: prod.split intro!: set_error_close keeps simp: ledger_sysc)

lemma anetListen_ledger: "ledger (s # F) S I w \<Longrightarrow> gives (keeps_or_closes s F S I) (anetListen sys s sa n w)"
  unfolding anetListen_def Let_def by (auto split: prod.split intro!: set_error_close keeps simp: ledger_sysc)

lemma anetGenericAccept_ledger:
  "ledger F S I w \<Longrightarrow> anetGenericAccept fuel sys l w = Inr ((fd, sa), w') \<Longrightarrow>
   ledger (if fd = - 1 then F else fd # F) S I w'"
proof (induction fuel arbitrary: w)
  case (Suc fuel)
  obtain fd1 sa1 w1 where 1: "net_accept sys l w = ((fd1, sa1), w1)" by (metis surj_pair)
  note l1 = ledger_accept [OF 1 Suc.prems(1)]
  consider "fd1 \<noteq> - 1" | "fd1 = - 1" "sys_errno sys (kern w1) = EINTR" | "fd1 = - 1" "sys_errno sys (kern w1) \<noteq> EINTR"
    by blast
  then show ?case
  proof cases
    case 1
    then show ?thesis using l1 Suc.prems(2) \<open>net_accept sys l w = _\<close> by simp
  next
    case 2
    then show ?thesis using l1 Suc.prems(2) Suc.IH [of w1] \<open>net_accept sys l w = _\<close> by simp
  next
    case 3
    then have "ledger F S I w1" using l1 by simp
    then obtain v where "anet_fail (''accept: '' @ errno_text sys w1) w1 = Inr (ANET_ERR, v)" "ledger F S I v"
      using anet_fail_ledger [of F S I w1] by (auto simp: gives_iff)
    then show ?thesis using 3 Suc.prems(2) \<open>net_accept sys l w = _\<close> by (auto simp: ANET_ERR_def)
  qed
qed simp

section \<open>Servers\<close>

definition server_end :: "'k sys \<Rightarrow> int list \<Rightarrow> int list \<Rightarrow> int \<Rightarrow> int \<times> 'k net \<Rightarrow> bool" where
  "server_end sys F S I = (\<lambda>(s, w).
     if s \<noteq> ANET_ERR then ledger (s # F) S I w
     else ledger F S I w \<or>
       (\<exists>t k. ledger (t # F) S I w \<and> fst (sys_setsockopt sys t (SO_REUSEADDR 1) k) = - 1))"

definition server_loop_end :: "'k sys \<Rightarrow> int list \<Rightarrow> int list \<Rightarrow> int \<Rightarrow> exit \<times> int \<times> 'k net \<Rightarrow> bool" where
  "server_loop_end sys F S I = (\<lambda>(ex, s, w).
     (ex = To_End \<longrightarrow> s \<noteq> ANET_ERR) \<and> server_end sys F S I (if ex = To_End then s else ANET_ERR, w))"

lemma server_loop_endI:
  "ledger F S I w \<Longrightarrow> server_loop_end sys F S I (To_Error, s, w)"
  "ledger (s # F) S I w \<Longrightarrow> fst (sys_setsockopt sys s (SO_REUSEADDR 1) k) = - 1 \<Longrightarrow>
     server_loop_end sys F S I (To_Error, s, w)"
  "ledger (s # F) S I w \<Longrightarrow> s \<noteq> ANET_ERR \<Longrightarrow> server_loop_end sys F S I (To_End, s, w)"
  by (auto simp: server_loop_end_def server_end_def)

lemma server_socket_ledger:
  assumes "ledger (s # F) S I w" "s \<noteq> ANET_ERR"
  shows "gives (server_loop_end sys F S I)
    (bindE (anetSetReuseAddr sys s w) (\<lambda>(r, w).
       if r = ANET_ERR then Inr (To_Error, s, w)
       else bindE (anetListen sys s sa n w) (\<lambda>(r, w).
            if r = ANET_ERR then Inr (To_Error, s, w) else Inr (To_End, s, w))))"
  unfolding anetSetReuseAddr_def
  by (rule gives_bind [OF set_opt_outcome [OF assms(1)]])
     (use assms(2) in \<open>auto intro!: gives_bind [OF anetListen_ledger [of s F S I]] intro: server_loop_endI(2)
        simp: keeps_or_closes_def server_loop_endI(1,3)\<close>)

lemma server_loop_ledger:
  "ledger F S I w \<Longrightarrow> gives (server_loop_end sys F S I) (server_loop sys af n ps w)"
proof (induction ps arbitrary: w)
  case (Cons p ps)
  obtain s w1 where 1: "net_socket sys (ai_family p) (ai_socktype p) (ai_protocol p) w = (s, w1)"
    by (metis surj_pair)
  note l1 = ledger_socket [OF 1 Cons.prems]
  show ?case
  proof (cases "s = - 1")
    case True
    then show ?thesis using 1 l1 Cons.IH [of w1] by simp
  next
    case s: False
    then have s': "s \<noteq> ANET_ERR" and l: "ledger (s # F) S I w1" using l1 by (simp_all add: ANET_ERR_def)
    have v6: "gives (keeps_or_closes s F S I) (if af = AF_INET6 then anetV6Only sys s w1 else Inr (ANET_OK, w1))"
      using l by (simp add: anetV6Only_ledger keeps)
    have "gives (server_loop_end sys F S I)
      (bindE (if af = AF_INET6 then anetV6Only sys s w1 else Inr (ANET_OK, w1)) (\<lambda>(r, w).
           if r = ANET_ERR then Inr (To_Error, s, w)
           else bindE (anetSetReuseAddr sys s w) (\<lambda>(r, w).
           if r = ANET_ERR then Inr (To_Error, s, w)
           else bindE (anetListen sys s (ai_addr p) n w) (\<lambda>(r, w).
           if r = ANET_ERR then Inr (To_Error, s, w) else Inr (To_End, s, w)))))"
      by (rule gives_bind [OF v6])
         (auto simp: keeps_or_closes_def intro: server_loop_endI server_socket_ledger [OF _ s'])
    with s show ?thesis by (simp add: 1)
  qed
qed (simp add: server_loop_end_def server_end_def)

lemma anetTcpServer_ledger:
  assumes "ledger F S I w"
  shows "gives (server_end sys F S I) (anetTcpServer_af sys port adr af n w)"
proof -
  let ?h = "\<lparr>h_flags = AI_PASSIVE, h_family = af, h_socktype = SOCK_STREAM\<rparr>"
  obtain rv ps w1 where g: "net_getaddrinfo sys adr (Some (portstr port)) ?h w = ((rv, ps), w1)"
    by (metis surj_pair)
  note l1 = ledger_getaddrinfo [OF g assms]
  have free: "server_end sys F S (I + 1) (s, w) \<Longrightarrow> server_end sys F S I (s, net_freeaddrinfo w)" for s and w :: "'a net"
    by (auto simp: server_end_def intro: ledger_freeaddrinfo split: if_splits)
  have msg: "gives (\<lambda>w. server_end sys F S (I + 1) (if ex = To_End then s else ANET_ERR, w))
      (if ex = No_Address then anetSetError t w else Inr w)"
    if "server_loop_end sys F S (I + 1) (ex, s, w)" for ex s t and w :: "'a net"
  proof -
    obtain L where "ledger L S (I + 1) w"
      and L: "\<And>w. ledger L S (I + 1) w \<Longrightarrow> server_end sys F S (I + 1) (if ex = To_End then s else ANET_ERR, w)"
      using \<open>server_loop_end sys F S (I + 1) (ex, s, w)\<close> unfolding server_loop_end_def server_end_def
      by (auto split: if_splits)
    then show ?thesis by (auto intro: gives_mono [OF anetSetError_ledger])
  qed
  show ?thesis
  proof (cases "rv = 0")
    case True
    with l1 have l: "ledger F S (I + 1) w1" by simp
    have "gives (server_end sys F S I) (bindE (server_loop sys af n ps w1) (\<lambda>(ex, s, w).
           bindE (if ex = No_Address then anetSetError ''unable to bind socket'' w else Inr w) (\<lambda>w.
           let s = (if ex = To_End then s else ANET_ERR) in Inr (s, net_freeaddrinfo w))))"
    proof (rule gives_bind [OF server_loop_ledger [OF l]], simp only: split_paired_all prod.case)
      fix ex s and w :: "'a net"
      assume "server_loop_end sys F S (I + 1) (ex, s, w)"
      then show "gives (server_end sys F S I)
         (bindE (if ex = No_Address then anetSetError ''unable to bind socket'' w else Inr w) (\<lambda>w.
          let s = (if ex = To_End then s else ANET_ERR) in Inr (s, net_freeaddrinfo w)))"
        unfolding Let_def by (rule gives_bind [OF msg]) (simp add: free)
    qed
    with True show ?thesis by (simp add: anetTcpServer_af_def g)
  next
    case False
    then show ?thesis using l1
      by (auto simp: anetTcpServer_af_def g server_end_def intro: gives_mono [OF anet_fail_ledger])
  qed
qed

section \<open>Local sockets and names\<close>

lemma anetUnixServer_ledger:
  assumes "ledger F S I w"
  shows "gives (opens_or_err F S I) (anetUnixServer sys path perm n w)"
proof -
  obtain q where cp: "strncpy (replicate 108 NUL) path (108 - 1) = Inr q" and q: "NUL \<in> set q"
    by (simp add: strncpy_ok)
  have "gives (opens_or_err F S I)
     (bindE (anetListen sys s sa n w) (\<lambda>(r, w).
        if r = ANET_ERR then Inr (ANET_ERR, w)
        else bindE (if perm \<noteq> 0 then bindE (c_text q) (\<lambda>t. Inr (snd (sysc (sys_chmod sys t perm) w))) else Inr w)
               (\<lambda>w. Inr (s, w))))"
    if "s \<noteq> ANET_ERR" "ledger (s # F) S I w" for s sa and w :: "'a net"
    using that q by (auto intro!: gives_bind [OF anetListen_ledger [of s F S I]]
      simp: keeps_or_closes_def opens_or_err_def c_text_def ledger_snd_sysc)
  then show ?thesis unfolding anetUnixServer_def cp
    by (auto intro!: gives_bind [OF anetCreateSocket_ledger [OF assms]] simp: opens_or_err_def)
qed

definition unix_end :: "s32 \<Rightarrow> int list \<Rightarrow> int list \<Rightarrow> int \<Rightarrow> int \<times> 'k net \<Rightarrow> bool" where
  "unix_end flags F S I = (\<lambda>(s, w). if s \<noteq> ANET_ERR then ledger (s # F) S I w
      else ledger F S I w \<or> flags AND ANET_CONNECT_NONBLOCK \<noteq> 0 \<and> (\<exists>t. ledger (t # F) S I w))"

lemma anetUnixConnect_ledger:
  assumes "ledger F S I w" "length sun_path = 108"
  shows "gives (unix_end flags F S I) (anetUnixGenericConnect sys sun_path path flags w)"
proof -
  obtain q where cp: "strncpy sun_path path (108 - 1) = Inr q"
    using assms(2) by (simp add: strncpy_ok)
  have con: "gives (unix_end flags F S I)
     (let (r, w) = sysc (sys_connect sys s sa) w in
          if r = - 1
          then if sys_errno sys (kern w) = EINPROGRESS \<and> flags AND ANET_CONNECT_NONBLOCK \<noteq> 0 then Inr (s, w)
               else bindE (anetSetError (''connect: '' @ errno_text sys w) w) (\<lambda>w. Inr (ANET_ERR, net_close sys s w))
          else Inr (s, w))"
    if "s \<noteq> ANET_ERR" "ledger (s # F) S I w" for s sa and w :: "'a net"
  proof -
    obtain r v where c: "sysc (sys_connect sys s sa) w = (r, v)" by (metis surj_pair)
    have "ledger (s # F) S I v" by (rule ledger_sysc [OF c that(2)])
    with that(1) show ?thesis
      by (auto simp: c unix_end_def intro!: gives_bind [OF anetSetError_ledger [of "s # F" S I]] ledger_close)
  qed
  have ends: "ledger F S I w \<Longrightarrow> unix_end flags F S I (ANET_ERR, w)"
    "flags AND ANET_CONNECT_NONBLOCK \<noteq> 0 \<Longrightarrow> ledger (s # F) S I w \<Longrightarrow> unix_end flags F S I (ANET_ERR, w)" for s w
    by (auto simp: unix_end_def)
  show ?thesis unfolding anetUnixGenericConnect_def cp bindE_simps
  proof (rule gives_bind [OF anetCreateSocket_ledger [OF assms(1)]], clarify)
    fix s and w :: "'a net"
    assume "opens_or_err F S I (s, w)"
    then show "gives (unix_end flags F S I)
        (if s = ANET_ERR then Inr (ANET_ERR, w)
         else bindE (if flags AND ANET_CONNECT_NONBLOCK \<noteq> 0 then anetNonBlock sys s w else Inr (ANET_OK, w)) (\<lambda>(r, w).
         if r \<noteq> ANET_OK then Inr (ANET_ERR, w)
         else let (r, w) = sysc (sys_connect sys s \<lparr>sa_family = AF_LOCAL, sa_data = q\<rparr>) w in
              if r = - 1
              then if sys_errno sys (kern w) = EINPROGRESS \<and> flags AND ANET_CONNECT_NONBLOCK \<noteq> 0 then Inr (s, w)
                   else bindE (anetSetError (''connect: '' @ errno_text sys w) w) (\<lambda>w. Inr (ANET_ERR, net_close sys s w))
              else Inr (s, w)))"
      using con ends by (cases "flags AND ANET_CONNECT_NONBLOCK = 0")
        (auto simp: opens_or_err_def intro!: gives_bind [OF anetNonBlock_ledger [of "s # F" S I]])
  qed
qed

section \<open>Properties\<close>

text \<open>A kernel whose calls succeed: the next descriptor and the bytes of one pipe.\<close>

definition demo_sa :: sockaddr where
  "demo_sa = \<lparr>sa_family = 2, sa_data = [CHR 0x1B, CHR 0x59, CHR 0x7F, CHR 0x00, CHR 0x00, CHR 0x01]\<rparr>"

definition demo_sys :: "(int \<times> string) sys" where
  "demo_sys = \<lparr>sys_errno = (\<lambda>k. 0), sys_strerror = (\<lambda>e. ''error''), sys_gai_strerror = (\<lambda>e. ''error''),
     sys_getfl = (\<lambda>fd k. (2, k)), sys_setfl = (\<lambda>fd f k. (0, k)), sys_setsockopt = (\<lambda>fd opt k. (0, k)),
     sys_getaddrinfo = (\<lambda>a b h k. ((0, [\<lparr>ai_family = 2, ai_socktype = 1, ai_protocol = 6, ai_addr = demo_sa\<rparr>]), k)),
     sys_socket = (\<lambda>d t p (n, q). (n, n + 1, q)), sys_bind = (\<lambda>s a k. (0, k)), sys_listen = (\<lambda>s n k. (0, k)),
     sys_connect = (\<lambda>s a k. (0, k)), sys_accept = (\<lambda>s (n, q). ((n, demo_sa), n + 1, q)), sys_close = (\<lambda>s k. (0, k)),
     sys_read = (\<lambda>fd n (m, q). ((int (length (take (unat n) q)), take (unat n) q), m, drop (unat n) q)),
     sys_write = (\<lambda>fd d (m, q). (int (length d), m, q @ d)), sys_getpeername = (\<lambda>fd k. ((0, demo_sa), k)),
     sys_getsockname = (\<lambda>fd k. ((0, demo_sa), k)), sys_chmod = (\<lambda>p m k. (0, k)), sys_ntop = (\<lambda>af a. ''127.0.0.1'')\<rparr>"

definition demo_net :: "(int \<times> string) net" where
  "demo_net = \<lparr>kern = (3, []), errbuf = None, fds = [], stray = [], infos = 0\<rparr>"

text \<open>C8. Connecting never leaks: anetTcpGenericConnect, whatever the kernel answers and whichever flags
  and source address it gets, comes back, and then the caller holds exactly one descriptor more, the
  one returned, or, where it returns ANET_ERR, none more; every other socket made on the way is
  closed, nothing is closed that is not held, and every address list is freed.\<close>

theorem anet_connect_no_leak:
  assumes "err_ok w"
  shows "\<exists>s w'. anetTcpGenericConnect sys adr port src flags w = Inr (s, w')
    \<and> fds w' = (if s = ANET_ERR then fds w else s # fds w) \<and> stray w' = stray w \<and> infos w' = infos w"
  using anetTcpGenericConnect_ledger [OF ledgerI [OF assms], of sys adr port src flags]
  by (auto simp: gives_iff opens_or_err_def ledger_def)

theorem anet_connect_no_leak_witness:
  "\<exists>s w'. anetTcpGenericConnect demo_sys ''localhost'' 7001 None ANET_CONNECT_NONE demo_net = Inr (s, w')
    \<and> fds w' = (if s = ANET_ERR then fds demo_net else s # fds demo_net) \<and> stray w' = stray demo_net \<and> infos w' = infos demo_net"
  by (rule anet_connect_no_leak) (simp add: err_ok_def demo_net_def)

text \<open>C39. A server socket: _anetTcpServer comes back with one descriptor more for its caller, or with
  ANET_ERR. Then it has closed what it made, except where SO_REUSEADDR cannot be set: this one
  error path leaves a socket open that nobody can close any more.\<close>

theorem anet_server_ledger:
  assumes "err_ok w"
  shows "\<exists>s w'. anetTcpServer_af sys port adr af n w = Inr (s, w') \<and> stray w' = stray w \<and> infos w' = infos w
    \<and> (if s \<noteq> ANET_ERR then fds w' = s # fds w
       else fds w' = fds w \<or>
         (\<exists>t k. fds w' = t # fds w \<and> fst (sys_setsockopt sys t (SO_REUSEADDR 1) k) = - 1))"
proof -
  obtain s w' where r: "anetTcpServer_af sys port adr af n w = Inr (s, w')"
    and e: "server_end sys (fds w) (stray w) (infos w) (s, w')"
    using anetTcpServer_ledger [OF ledgerI [OF assms], of sys port adr af n] by (auto simp: gives_iff)
  from e show ?thesis unfolding r server_end_def ledger_def by (auto split: if_splits)
qed

theorem anet_server_ledger_witness:
  "\<exists>s w'. anetTcpServer_af demo_sys 7001 None AF_INET 511 demo_net = Inr (s, w')
    \<and> stray w' = stray demo_net \<and> infos w' = infos demo_net
    \<and> (if s \<noteq> ANET_ERR then fds w' = s # fds demo_net
       else fds w' = fds demo_net \<or>
         (\<exists>t k. fds w' = t # fds demo_net \<and> fst (sys_setsockopt demo_sys t (SO_REUSEADDR 1) k) = - 1))"
  by (rule anet_server_ledger) (simp add: err_ok_def demo_net_def)

text \<open>The leak of _anetTcpServer is real: the first address gives a socket on which SO_REUSEADDR
  cannot be set; the answer is ANET_ERR, and that socket stays open.\<close>

theorem anet_server_leaks:
  assumes w: "err_ok w"
    and g: "sys_getaddrinfo sys adr (Some (portstr port)) \<lparr>h_flags = AI_PASSIVE, h_family = AF_INET, h_socktype = SOCK_STREAM\<rparr>
      (kern w) = ((0, p # ps), k1)"
    and s: "sys_socket sys (ai_family p) (ai_socktype p) (ai_protocol p) k1 = (s, k2)" "s \<noteq> - 1"
    and o: "sys_setsockopt sys s (SO_REUSEADDR 1) k2 = (- 1, k3)"
  shows "\<exists>w'. anetTcpServer sys port adr n w = Inr (ANET_ERR, w') \<and> fds w' = s # fds w"
proof -
  let ?w1 = "w\<lparr>kern := k1, infos := infos w + 1\<rparr>" and ?w3 = "w\<lparr>infos := infos w + 1, fds := s # fds w, kern := k3\<rparr>"
  have 1: "net_getaddrinfo sys adr (Some (portstr port)) \<lparr>h_flags = AI_PASSIVE, h_family = AF_INET, h_socktype = SOCK_STREAM\<rparr> w
      = ((0, p # ps), ?w1)"
    using g by (simp add: net_getaddrinfo_def sysc_def)
  have "ledger (s # fds w) (stray w) (infos w + 1) ?w3"
    using w by (simp add: ledger_def err_ok_def)
  then obtain v where v: "anet_fail (''setsockopt SO_REUSEADDR: '' @ errno_text sys ?w3) ?w3 = Inr (ANET_ERR, v)" "fds v = s # fds w"
    using anet_fail_ledger [of "s # fds w" "stray w" "infos w + 1" ?w3] by (auto simp: gives_iff ledger_def)
  have "AF_INET \<noteq> AF_INET6" by (simp add: net_consts)
  with v s o show ?thesis
    by (simp add: anetTcpServer_def anetTcpServer_af_def 1 net_socket_def sysc_def anetSetReuseAddr_def set_opt_def
        net_freeaddrinfo_def)
qed

theorem anet_server_leaks_witness:
  "\<exists>w'. anetTcpServer (demo_sys\<lparr>sys_setsockopt := \<lambda>fd opt k. (- 1, k)\<rparr>) 7001 None 511 demo_net = Inr (ANET_ERR, w')
    \<and> fds w' = 3 # fds demo_net"
  by (rule anet_server_leaks [where ?k1.0 = "(3, [])" and ?k2.0 = "(4, [])" and ?k3.0 = "(4, [])"])
     (simp_all add: err_ok_def demo_net_def demo_sys_def)

end
