(* ===== verification/Anet_Streams.thy ===== *)
theory Anet_Streams
  imports Anet_Ledger
begin

text \<open>
  What anetRead and anetWrite make of a byte stream that the kernel takes and delivers in
  pieces, how accept is repeated when a signal interrupts it, and what is left in the buffers
  for messages and names. The behaviour of read, write and fcntl the statements rely on is
  that of their manual pages, as named hypotheses.
\<close>

section \<open>Reading\<close>

text \<open>
  read(2) on a stream: \<open>inq k\<close> are the bytes still to come in state \<open>k\<close>. A call fails, or takes
  at most as many bytes as it may from their front, and none only where none were asked for
  or none are to come.
\<close>

definition reads_stream :: "'k sys \<Rightarrow> int \<Rightarrow> ('k \<Rightarrow> string) \<Rightarrow> bool" where
  "reads_stream sys fd inq \<longleftrightarrow> (\<forall>n k m d k'. sys_read sys fd n k = ((m, d), k') \<longrightarrow>
     m = - 1 \<and> inq k' = inq k \<or>
     m = int (length d) \<and> length d \<le> unat n \<and> inq k = d @ inq k' \<and> (d = [] \<longrightarrow> n = 0 \<or> inq k = []))"

definition writes_stream :: "'k sys \<Rightarrow> int \<Rightarrow> ('k \<Rightarrow> string) \<Rightarrow> bool" where
  "writes_stream sys fd outq \<longleftrightarrow> (\<forall>d k m k'. sys_write sys fd d k = (m, k') \<longrightarrow>
     m = - 1 \<and> outq k' = outq k \<or> 0 \<le> m \<and> m \<le> int (length d) \<and> outq k' = outq k @ take (nat m) d)"

lemma reads_streamD:
  assumes "reads_stream sys fd inq" "sys_read sys fd n k = ((m, d), k')"
  shows "m = - 1 \<and> inq k' = inq k \<or>
     m = int (length d) \<and> length d \<le> unat n \<and> inq k = d @ inq k' \<and> (d = [] \<longrightarrow> n = 0 \<or> inq k = [])"
  using assms unfolding reads_stream_def by blast

lemma writes_streamD:
  assumes "writes_stream sys fd outq" "sys_write sys fd d k = (m, k')"
  shows "m = - 1 \<and> outq k' = outq k \<or> 0 \<le> m \<and> m \<le> int (length d) \<and> outq k' = outq k @ take (nat m) d"
  using assms unfolding writes_stream_def by blast

text \<open>The size passed on: an int that is not negative, as a size_t.\<close>

lemma unat_size: "n < 2 ^ 31 \<Longrightarrow> unat (word_of_nat n :: u64) = n"
  by (simp add: unat_of_nat take_bit_nat_eq_self)

text \<open>How a read of \<open>n\<close> bytes ends: \<open>d\<close> is what came, \<open>rest\<close> what is still to come.\<close>

definition read_end :: "nat \<Rightarrow> int \<Rightarrow> string \<Rightarrow> string \<Rightarrow> int \<Rightarrow> bool" where
  "read_end n t d rest r \<longleftrightarrow> length d \<le> n \<and>
     (r = - 1 \<and> length d < n \<or> r = t + int (length d) \<and> (length d = n \<or> rest = []))"

lemma read_loop_stream:
  assumes st: "reads_stream sys fd inq"
  shows "n < fuel \<Longrightarrow> t + n \<le> length b \<Longrightarrow> n < 2 ^ 31 \<Longrightarrow>
    \<exists>r d k. read_loop fuel sys fd (Some b) (int t + int n) (int t) w =
        Inr (r, Some (take t b @ d @ drop (t + length d) b), w\<lparr>kern := k\<rparr>)
      \<and> inq (kern w) = d @ inq k \<and> read_end n (int t) d (inq k) r"
proof (induction fuel arbitrary: n t b w)
  case (Suc fuel)
  show ?case
  proof (cases "n = 0")
    case True
    then show ?thesis by (auto simp: read_end_def intro!: exI [of _ "[]"] exI [of _ "kern w"])
  next
    case False
    obtain m e k where c: "sys_read sys fd (word_of_nat n) (kern w) = ((m, e), k)"
      by (metis surj_pair)
    note law = reads_streamD [OF st c]
    have ne: "(word_of_nat n :: u64) \<noteq> 0" using False unat_size [OF Suc.prems(3)] by (metis unsigned_0)
    consider "m = - 1" "inq k = inq (kern w)" | "e = []" "m = 0" "inq (kern w) = []" "inq k = []"
      | "e \<noteq> []" "m = int (length e)" "length e \<le> n" "inq (kern w) = e @ inq k"
      using law ne unat_size [of n] Suc.prems(3) by auto
    then show ?thesis
    proof cases
      case 1
      then show ?thesis using False
        by (auto simp: sysc_def c read_end_def intro!: exI [of _ "[]"] exI [of _ k])
    next
      case 2
      then show ?thesis using False
        by (auto simp: sysc_def c read_end_def intro!: exI [of _ "[]"] exI [of _ k])
    next
      case 3
      let ?b = "take t b @ e @ drop (t + length e) b" and ?t = "t + length e" and ?n = "n - length e"
      have "mem_store b t e = Inr ?b" using 3 Suc.prems(2) by (simp add: mem_store_def)
      moreover have "?n < fuel" "?t + ?n \<le> length ?b" "?n < 2 ^ 31"
        using 3 Suc.prems by (auto simp: length_greater_0_conv [symmetric] simp del: length_greater_0_conv)
      from Suc.IH [OF this, of "w\<lparr>kern := k\<rparr>"] obtain r d k2 where
        r: "read_loop fuel sys fd (Some ?b) (int ?t + int ?n) (int ?t) (w\<lparr>kern := k\<rparr>) =
            Inr (r, Some (take ?t ?b @ d @ drop (?t + length d) ?b), w\<lparr>kern := k2\<rparr>)"
        "inq k = d @ inq k2" "read_end ?n (int ?t) d (inq k2) r" by auto
      moreover have "take ?t ?b @ d @ drop (?t + length d) ?b = take t b @ (e @ d) @ drop (t + length (e @ d)) b"
        using Suc.prems(2) 3(3) by (simp add: min_absorb2 add.commute add.left_commute)
      moreover have "int ?t + int ?n = int t + int n" "int ?t = int t + m" using 3 by auto
      moreover have "read_end n (int t) (e @ d) (inq k2) r"
        using r(3) 3 by (auto simp: read_end_def)
      ultimately have "read_loop (Suc fuel) sys fd (Some b) (int t + int n) (int t) w =
          Inr (r, Some (take t b @ (e @ d) @ drop (t + length (e @ d)) b), w\<lparr>kern := k2\<rparr>)"
        using False 3 by (simp add: sysc_def c)
      then show ?thesis using r(2) 3(4) \<open>read_end n (int t) (e @ d) (inq k2) r\<close>
        by (intro exI [of _ r] exI [of _ "e @ d"] exI [of _ k2]) simp
    qed
  qed
qed simp

lemma anetRead_stream:
  assumes "reads_stream sys fd inq" "n < fuel" "n \<le> length b" "n < 2 ^ 31"
  shows "\<exists>r d k. anetRead fuel sys fd (Some b) (int n) w = Inr (r, Some (d @ drop (length d) b), w\<lparr>kern := k\<rparr>)
    \<and> inq (kern w) = d @ inq k \<and> (r = - 1 \<and> length d < n \<or> r = int (length d) \<and> d = take n (inq (kern w)))"
proof -
  obtain r d k where 1: "read_loop fuel sys fd (Some b) (int n) 0 w = Inr (r, Some (d @ drop (length d) b), w\<lparr>kern := k\<rparr>)"
    "inq (kern w) = d @ inq k" "read_end n 0 d (inq k) r"
    using read_loop_stream [OF assms(1), of n fuel 0 b w] assms(2-4) by auto
  from 1(2,3) have "r = - 1 \<and> length d < n \<or> r = int (length d) \<and> d = take n (inq (kern w))"
    by (auto simp: read_end_def)
  with 1 show ?thesis unfolding anetRead_def by blast
qed

section \<open>Writing\<close>

lemma write_loop_stream:
  assumes st: "writes_stream sys fd outq"
  shows "n < fuel \<Longrightarrow> t + n \<le> length b \<Longrightarrow> n < 2 ^ 31 \<Longrightarrow>
    \<exists>r j k. write_loop fuel sys fd (Some b) (int t + int n) (int t) w = Inr (r, w\<lparr>kern := k\<rparr>)
      \<and> j \<le> n \<and> outq k = outq (kern w) @ take j (drop t b) \<and> (r = - 1 \<or> r = int t + int j)"
proof (induction fuel arbitrary: n t w)
  case (Suc fuel)
  show ?case
  proof (cases "n = 0")
    case True
    then show ?thesis by (auto intro!: exI [of _ "kern w"])
  next
    case False
    let ?d = "take n (drop t b)"
    have sl: "mem_slice b t n = Inr ?d" using Suc.prems(2) by (simp add: mem_slice_def)
    obtain m k where c: "sys_write sys fd ?d (kern w) = (m, k)" by (metis surj_pair)
    have len: "length ?d = n" using Suc.prems(2) by simp
    consider "m = - 1" "outq k = outq (kern w)" | "m = 0" "outq k = outq (kern w)"
      | "0 < m" "m \<le> int n" "outq k = outq (kern w) @ take (nat m) ?d"
      using writes_streamD [OF st c] len by force
    then show ?thesis
    proof cases
      case 3
      let ?t = "t + nat m" and ?n = "n - nat m"
      have "?n < fuel" "?t + ?n \<le> length b" "?n < 2 ^ 31" using 3 Suc.prems by auto
      from Suc.IH [OF this, of "w\<lparr>kern := k\<rparr>"] obtain r j k2 where
        r: "write_loop fuel sys fd (Some b) (int ?t + int ?n) (int ?t) (w\<lparr>kern := k\<rparr>) = Inr (r, w\<lparr>kern := k2\<rparr>)"
        "j \<le> ?n" "outq k2 = outq k @ take j (drop ?t b)" "r = - 1 \<or> r = int ?t + int j" by auto
      moreover have "int ?t + int ?n = int t + int n" "int ?t = int t + m" using 3 by auto
      ultimately have "write_loop (Suc fuel) sys fd (Some b) (int t + int n) (int t) w = Inr (r, w\<lparr>kern := k2\<rparr>)"
        using False 3 c sl unat_size [of n] Suc.prems(3) by (simp add: sysc_def)
      moreover have "take (nat m) ?d @ take j (drop ?t b) = take (nat m + j) (drop t b)"
        using 3 by (simp add: take_add min_absorb1 add.commute [of t])
      ultimately show ?thesis using r(2-4) 3
        by (intro exI [of _ r] exI [of _ "nat m + j"] exI [of _ k2]) auto
    qed (use False c sl unat_size [of n] Suc.prems(3) in
        \<open>auto simp: sysc_def intro!: exI [of _ "0::nat"] exI [of _ k]\<close>)
  qed
qed simp

lemma anetWrite_stream:
  assumes "writes_stream sys fd outq" "n < fuel" "n \<le> length b" "n < 2 ^ 31"
  shows "\<exists>r j k. anetWrite fuel sys fd (Some b) (int n) w = Inr (r, w\<lparr>kern := k\<rparr>)
    \<and> j \<le> n \<and> outq k = outq (kern w) @ take j b \<and> (r = - 1 \<or> r = int j)"
  using write_loop_stream [OF assms(1), of n fuel 0 b w] assms(2-4) by (simp add: anetWrite_def)

section \<open>Properties\<close>

lemma demo_pipe: "reads_stream demo_sys fd snd" "writes_stream demo_sys fd snd"
  by (auto simp: reads_stream_def writes_stream_def demo_sys_def unat_eq_0)

text \<open>C13. anetRead does what its comment says: on a stream that delivers its bytes in pieces of any
  size, a read of n bytes comes back, and unless the kernel reports an error it answers the
  length of the first n bytes of the stream, or of all there are, and the buffer begins with
  exactly these bytes, in order, its other bytes untouched. Where it answers -1 the bytes that
  had come are in the buffer, but their number is lost.\<close>

theorem anet_read_stream:
  assumes "reads_stream sys fd inq" "n < fuel" "n \<le> length b" "n < 2 ^ 31"
  shows "\<exists>r d w'. anetRead fuel sys fd (Some b) (int n) w = Inr (r, Some (d @ drop (length d) b), w')
    \<and> inq (kern w) = d @ inq (kern w')
    \<and> (r = - 1 \<and> length d < n \<or> r = int (length d) \<and> d = take n (inq (kern w)))"
proof -
  obtain r d k where "anetRead fuel sys fd (Some b) (int n) w = Inr (r, Some (d @ drop (length d) b), w\<lparr>kern := k\<rparr>)"
    "inq (kern w) = d @ inq k" "r = - 1 \<and> length d < n \<or> r = int (length d) \<and> d = take n (inq (kern w))"
    using anetRead_stream [OF assms, of w] by blast
  then show ?thesis by (intro exI [of _ r] exI [of _ d] exI [of _ "w\<lparr>kern := k\<rparr>"]) simp
qed

theorem anet_read_stream_witness:
  "\<exists>r d w'. anetRead 4 demo_sys 3 (Some ''.....'') (int 3) (demo_net\<lparr>kern := (4, ''hello'')\<rparr>)
      = Inr (r, Some (d @ drop (length d) ''.....''), w')
    \<and> snd (kern (demo_net\<lparr>kern := (4, ''hello'')\<rparr>)) = d @ snd (kern w')
    \<and> (r = - 1 \<and> length d < 3 \<or> r = int (length d) \<and> d = take 3 (snd (kern (demo_net\<lparr>kern := (4, ''hello'')\<rparr>))))"
  by (rule anet_read_stream [OF demo_pipe(1)]) simp_all

text \<open>C19. What anetWrite sends, anetRead gets: over a kernel whose stream from one descriptor to
  another is empty, a write of a whole buffer that reports no failure, then a read of as many
  bytes, gives the buffer back and leaves the stream empty, unless the read reports an error.\<close>

theorem anet_write_read:
  assumes st: "writes_stream sys wfd q" "reads_stream sys rfd q" "q (kern w) = []"
    and n: "length d < fuel" "length d < 2 ^ 31" "length d \<le> length b"
    and wr: "anetWrite fuel sys wfd (Some d) (int (length d)) w = Inr (int (length d), w1)"
  shows "\<exists>r b' w2. anetRead fuel sys rfd (Some b) (int (length d)) w1 = Inr (r, Some b', w2)
    \<and> (r = - 1 \<or> r = int (length d) \<and> take (length d) b' = d \<and> q (kern w2) = [])"
proof -
  obtain k where w1: "w1 = w\<lparr>kern := k\<rparr>" and k: "q k = d"
    using anetWrite_stream [OF st(1) n(1) order_refl n(2), of w] wr st(3) by auto
  obtain r e k2 where r: "anetRead fuel sys rfd (Some b) (int (length d)) w1
      = Inr (r, Some (e @ drop (length e) b), w1\<lparr>kern := k2\<rparr>)" "q (kern w1) = e @ q k2"
    "r = - 1 \<and> length e < length d \<or> r = int (length e) \<and> e = take (length d) (q (kern w1))"
    using anetRead_stream [OF st(2) n(1,3,2), of w1] by blast
  with w1 k show ?thesis by auto
qed

theorem anet_write_read_witness:
  "\<exists>r b' w2. anetRead 6 demo_sys 3 (Some ''........'') (int (length ''hello'')) (demo_net\<lparr>kern := (3, ''hello'')\<rparr>)
      = Inr (r, Some b', w2)
    \<and> (r = - 1 \<or> r = int (length ''hello'') \<and> take (length ''hello'') b' = ''hello'' \<and> snd (kern w2) = [])"
proof (rule anet_write_read [OF demo_pipe(2,1), where w = demo_net and wfd = 4])
  show "anetWrite 6 demo_sys 4 (Some ''hello'') (int (length ''hello'')) demo_net
      = Inr (int (length ''hello''), demo_net\<lparr>kern := (3, ''hello'')\<rparr>)"
    by code_simp
qed (simp_all add: demo_net_def)

text \<open>The kernel after some calls of accept, and whether a call is interrupted by a signal.\<close>

primrec accepts :: "'k sys \<Rightarrow> int \<Rightarrow> nat \<Rightarrow> 'k \<Rightarrow> 'k" where
  "accepts sys s 0 k = k"
| "accepts sys s (Suc i) k = accepts sys s i (snd (sys_accept sys s k))"

definition interrupted :: "'k sys \<Rightarrow> int \<Rightarrow> 'k \<Rightarrow> bool" where
  "interrupted sys s k \<longleftrightarrow> (let ((fd, sa), k) = sys_accept sys s k in fd = - 1 \<and> sys_errno sys k = EINTR)"

lemma accept_after_signals:
  assumes "\<forall>i<n. interrupted sys s (accepts sys s i (kern w))" "n < fuel"
    "sys_accept sys s (accepts sys s n (kern w)) = ((fd, sa), k)" "fd \<noteq> - 1"
  shows "anetGenericAccept fuel sys s w = Inr ((fd, sa), w\<lparr>kern := k, fds := fd # fds w\<rparr>)"
  using assms
proof (induction n arbitrary: fuel w)
  case 0
  then show ?case by (cases fuel) (simp_all add: net_accept_def sysc_def)
next
  case (Suc n)
  obtain m where f: "fuel = Suc m" using Suc.prems(2) by (cases fuel) auto
  have int: "interrupted sys s (accepts sys s i (kern w))" if "i < Suc n" for i
    using Suc.prems(1) that by blast
  obtain sa' k' where a: "sys_accept sys s (kern w) = ((- 1, sa'), k')" "sys_errno sys k' = EINTR"
    using int [of 0] by (auto simp: interrupted_def Let_def split: prod.splits)
  have "\<forall>i<n. interrupted sys s (accepts sys s i k')" using int [of "Suc i" for i] a(1) by simp
  then have "anetGenericAccept m sys s (w\<lparr>kern := k'\<rparr>) = Inr ((fd, sa), w\<lparr>kern := k, fds := fd # fds w\<rparr>)"
    using Suc.IH [of "w\<lparr>kern := k'\<rparr>" m] Suc.prems(2-4) a(1) f by simp
  with a f show ?case by (simp add: net_accept_def sysc_def)
qed

lemma take_two: "2 \<le> length xs \<Longrightarrow> take 2 xs = [xs ! 0, xs ! 1]"
  by (cases xs; cases "tl xs") (auto simp: numeral_2_eq_2)

text \<open>Accepting under signals: however many times a signal interrupts accept, anetTcpAccept calls
  it again and comes back with the first connection; the caller's array gets the text of the
  peer's IPv4 address, ended by a NUL, and port gets the peer's port in host order.\<close>

theorem anet_accept_retries:
  assumes int: "\<forall>i<n. interrupted sys s (accepts sys s i (kern w))" "n < fuel"
    and acc: "sys_accept sys s (accepts sys s n (kern w)) = ((fd, sa), k)" "fd \<noteq> - 1"
    and sa: "sa_family sa = AF_INET" "6 \<le> length (sa_data sa)"
    and ip: "t = sys_ntop sys AF_INET (take 4 (drop 2 (sa_data sa)))" "length t < ip_len" "ip_len \<le> length b"
  shows "anetTcpAccept fuel sys s (Some b) ip_len (Some p) w =
    Inr ((fd, Some (t @ NUL # drop (Suc (length t)) b),
          Some (256 * of_char (sa_data sa ! 0) + of_char (sa_data sa ! 1))), w\<lparr>kern := k, fds := fd # fds w\<rparr>)"
  using accept_after_signals [OF int acc] acc sa ip
  by (simp add: anetTcpAccept_def addr_text_def sin_addr_def sin_port_def mem_slice_def inet_ntop_def Let_def
      mem_store_def set_port_def take_two)

definition signal_sys :: "(int \<times> string) sys" where
  "signal_sys = demo_sys\<lparr>sys_errno := (\<lambda>k. EINTR),
     sys_accept := (\<lambda>s (n, q). ((if n < 5 then - 1 else n, demo_sa), n + 1, q))\<rparr>"

theorem anet_accept_retries_witness:
  "anetTcpAccept 4 signal_sys 9 (Some (replicate 46 NUL)) 46 (Some 0) demo_net =
    Inr ((5, Some (''127.0.0.1'' @ NUL # drop (Suc (length ''127.0.0.1'')) (replicate 46 NUL)),
          Some (256 * of_char (sa_data demo_sa ! 0) + of_char (sa_data demo_sa ! 1))),
         demo_net\<lparr>kern := (6, []), fds := 5 # fds demo_net\<rparr>)"
proof (rule anet_accept_retries [where n = 2])
  show "\<forall>i<2. interrupted signal_sys 9 (accepts signal_sys 9 i (kern demo_net))"
    by (simp add: numeral_2_eq_2 All_less_Suc interrupted_def signal_sys_def demo_net_def)
qed (simp_all add: numeral_2_eq_2 signal_sys_def demo_net_def demo_sys_def demo_sa_def AF_INET_def)

text \<open>Error messages stay inside the 256 chars that ANET_ERR_LEN asks for and always end: what a
  function leaves in err is the message, cut after 255 chars, and the rest of a larger array is
  untouched.\<close>

theorem anet_error_text:
  assumes "errbuf w = Some b" "ANET_ERR_LEN \<le> length b" "NUL \<notin> set msg"
  shows "\<exists>b'. anetSetError msg w = Inr (w\<lparr>errbuf := Some b'\<rparr>) \<and> c_text b' = Inr (take 255 msg)
    \<and> length b' = length b \<and> drop ANET_ERR_LEN b' = drop ANET_ERR_LEN b"
proof -
  let ?t = "take 255 msg"
  have "NUL \<notin> set ?t" using assms(3) by (auto dest: in_set_takeD)
  moreover have "Suc (length ?t) \<le> ANET_ERR_LEN" by (simp add: ANET_ERR_LEN_def)
  moreover have "anetSetError msg w = Inr (w\<lparr>errbuf := Some (?t @ NUL # drop (Suc (length ?t)) b)\<rparr>)"
    using assms(1,2) by (simp add: anetSetError_def snprintf_text ANET_ERR_LEN_def)
  ultimately show ?thesis using assms(2)
    by (intro exI [of _ "?t @ NUL # drop (Suc (length ?t)) b"])
       (auto simp: c_text_prefix ANET_ERR_LEN_def drop_Cons' min_def)
qed

theorem anet_error_text_witness:
  "\<exists>b'. anetSetError ''bind: error'' (demo_net\<lparr>errbuf := Some (replicate 300 (CHR ''x''))\<rparr>)
      = Inr (demo_net\<lparr>errbuf := Some (replicate 300 (CHR ''x''))\<rparr>\<lparr>errbuf := Some b'\<rparr>)
    \<and> c_text b' = Inr (take 255 ''bind: error'')
    \<and> length b' = length (replicate 300 (CHR ''x'')) \<and> drop ANET_ERR_LEN b' = drop ANET_ERR_LEN (replicate 300 (CHR ''x''))"
  by (rule anet_error_text) (simp_all add: ANET_ERR_LEN_def)

text \<open>fcntl(2) on one descriptor: \<open>fl k\<close> are its flags.\<close>

definition fcntl_flags :: "'k sys \<Rightarrow> int \<Rightarrow> ('k \<Rightarrow> s32) \<Rightarrow> bool" where
  "fcntl_flags sys fd fl \<longleftrightarrow> (\<forall>k f k'. sys_getfl sys fd k = (f, k') \<longrightarrow> fl k' = fl k \<and> (f = - 1 \<or> f = fl k))
     \<and> (\<forall>k f r k'. sys_setfl sys fd f k = (r, k') \<longrightarrow> fl k' = (if r = - 1 then fl k else f))"

text \<open>anetNonBlock and anetBlock change the non-blocking flag and no other: after a success the flags are
  the old ones with bit 11 set or cleared, after a failure they are the old ones.\<close>

theorem anet_set_block:
  assumes fl: "fcntl_flags sys fd fl" and w: "err_ok w"
  shows "\<exists>r w'. anetSetBlock sys fd nb w = Inr (r, w') \<and>
    (if r = ANET_OK then \<forall>i. bit (fl (kern w')) i = (if i = 11 then nb else bit (fl (kern w)) i)
     else fl (kern w') = fl (kern w))"
proof -
  have err: "gives (\<lambda>(r, w'). r = ANET_ERR \<and> kern w' = kern v) (anet_fail msg v)" if "err_ok v" for msg and v :: "'a net"
    using that by (cases "errbuf v") (auto simp: anet_fail_def anetSetError_def err_ok_def snprintf_text ANET_ERR_LEN_def)
  have b11: "bit O_NONBLOCK i \<longleftrightarrow> i = 11" for i
  proof -
    have eq: "O_NONBLOCK = push_bit 11 1" by (simp add: O_NONBLOCK_def)
    show ?thesis by (simp only: eq bit_push_bit_iff bit_1_iff possible_bit_word) auto
  qed
  obtain f k1 where g: "sys_getfl sys fd (kern w) = (f, k1)" by (metis surj_pair)
  let ?f = "if nb then f OR O_NONBLOCK else f AND NOT O_NONBLOCK"
  obtain r k2 where s: "sys_setfl sys fd ?f k1 = (r, k2)" by (metis surj_pair)
  have k1: "fl k1 = fl (kern w)" "f = - 1 \<or> f = fl (kern w)" and k2: "fl k2 = (if r = - 1 then fl k1 else ?f)"
    using fl g s unfolding fcntl_flags_def by blast+
  have "err_ok (w\<lparr>kern := k\<rparr>)" for k using w by (simp add: err_ok_def)
  note err = err [OF this]
  show ?thesis
  proof (cases "f \<noteq> - 1 \<and> r \<noteq> - 1")
    case True
    then have "\<forall>i. bit (fl k2) i = (if i = 11 then nb else bit (fl (kern w)) i)"
      using k1 k2 by (auto simp: bit_or_iff bit_and_iff bit_not_iff b11 possible_bit_word dest: bit_imp_le_length)
    with True show ?thesis by (simp add: anetSetBlock_def sysc_def g s ANET_OK_def)
  next
    case False
    then obtain k msg where k: "fl k = fl (kern w)" "anetSetBlock sys fd nb w = anet_fail msg (w\<lparr>kern := k\<rparr>)"
      using k1 k2 g s by (cases "f = - 1") (auto simp: anetSetBlock_def sysc_def)
    obtain v where "anet_fail msg (w\<lparr>kern := k\<rparr>) = Inr (ANET_ERR, v)" "kern v = k"
      using err [of k msg] by (auto simp: gives_iff)
    with k show ?thesis by (intro exI [of _ ANET_ERR] exI [of _ v]) simp
  qed
qed

definition flag_sys :: "s32 sys" where
  "flag_sys = \<lparr>sys_errno = (\<lambda>k. 0), sys_strerror = (\<lambda>e. ''error''), sys_gai_strerror = (\<lambda>e. ''error''),
     sys_getfl = (\<lambda>fd k. (k, k)), sys_setfl = (\<lambda>fd f k. (0, f)), sys_setsockopt = (\<lambda>fd opt k. (0, k)),
     sys_getaddrinfo = (\<lambda>a b h k. ((1, []), k)), sys_socket = (\<lambda>d t p k. (- 1, k)), sys_bind = (\<lambda>s a k. (0, k)),
     sys_listen = (\<lambda>s n k. (0, k)), sys_connect = (\<lambda>s a k. (0, k)), sys_accept = (\<lambda>s k. ((- 1, demo_sa), k)),
     sys_close = (\<lambda>s k. (0, k)), sys_read = (\<lambda>fd n k. ((0, []), k)), sys_write = (\<lambda>fd d k. (0, k)),
     sys_getpeername = (\<lambda>fd k. ((0, demo_sa), k)), sys_getsockname = (\<lambda>fd k. ((0, demo_sa), k)),
     sys_chmod = (\<lambda>p m k. (0, k)), sys_ntop = (\<lambda>af a. ''127.0.0.1'')\<rparr>"

definition flag_net :: "s32 net" where
  "flag_net = \<lparr>kern = 2, errbuf = None, fds = [3], stray = [], infos = 0\<rparr>"

theorem anet_set_block_witness:
  "\<exists>r w'. anetSetBlock flag_sys 3 True flag_net = Inr (r, w') \<and>
    (if r = ANET_OK then \<forall>i. bit (kern w') i = (if i = 11 then True else bit (kern flag_net) i)
     else kern w' = kern flag_net)"
  by (rule anet_set_block) (simp_all add: fcntl_flags_def flag_sys_def err_ok_def flag_net_def)

end
