(* ===== verification/Mirror.thy ===== *)
theory Mirror
  imports Anet_Streams Event_Files
begin

text \<open>
  The test server and client of src/unit_test/ut_srv_mirror.c and ut_clt_mirror.c: an event
  loop whose file events are handled over the socket helpers. The world of the event loop is
  the state of the socket helpers; the system calls of both act on one kernel. A pointer to
  the server struct, the client data of the handlers, is the struct itself: nothing writes it
  after the registrations. \<open>stk n k\<close> is what an uninitialised array of \<open>n\<close> chars holds.
\<close>

section \<open>The server\<close>

datatype mr_proc = AcptConnHandle | HandleRmtMsg

record srv_attr =
  attr_port :: int
  tcp_backlog :: int

record ae_ops =
  accptConHandle_op :: mr_proc
  handleRmtMsg_op :: mr_proc

record mr_srv =
  srv_attr :: srv_attr
  ipFd :: "int list"
  ipFdCnt :: nat
  aeOps :: ae_ops

type_synonym 'k mr_os = "(mr_proc, mr_srv, 'k net) os"
type_synonym mr_loop = "(mr_proc, mr_srv) aeEventLoop"

definition g_attr :: srv_attr where "g_attr = \<lparr>attr_port = 7001, tcp_backlog = 511\<rparr>"

definition g_srvAeOps :: ae_ops where
  "g_srvAeOps = \<lparr>accptConHandle_op = AcptConnHandle, handleRmtMsg_op = HandleRmtMsg\<rparr>"

text \<open>The event loop's system calls on the kernel of the socket helpers.\<close>

definition net_os :: "(mr_proc, mr_srv, 'k) os \<Rightarrow> 'k mr_os" where
  "net_os b = \<lparr>os_time = sysc (os_time b), os_gettimeofday = sysc (os_gettimeofday b),
     os_epoll_create = sysc (os_epoll_create b), os_epoll_ctl = (\<lambda>e op fd bits. sysc (os_epoll_ctl b e op fd bits)),
     os_epoll_wait = (\<lambda>e evs n t. sysc (os_epoll_wait b e evs n t)), os_poll = (\<lambda>fd bits t. sysc (os_poll b fd bits t)),
     call_time = (\<lambda>p l i c w. Inl Null_Deref), call_file = (\<lambda>p l fd c m w. Inl Null_Deref),
     call_final = (\<lambda>p l c w. Inl Null_Deref), call_before = (\<lambda>p l w. Inl Null_Deref)\<rparr>"

text \<open>A message from a peer; the %s of the log reads the array up to a NUL.\<close>

definition handleRmtMsg :: "'k sys \<Rightarrow> 'k mr_os \<Rightarrow> (nat \<Rightarrow> 'k \<Rightarrow> string) \<Rightarrow> mr_loop \<Rightarrow> int \<Rightarrow> 'k net
    \<Rightarrow> fault + mr_loop \<times> 'k net" where
  "handleRmtMsg sys os stk l fd w =
     (let rdData = stk 128 (kern w);
          ((rdLen, d), w) = sysc (sys_read sys fd 128) w in
      if rdLen = - 1 then Inl Assert_Failed
      else if rdLen = 0 then aeDeleteFileEvent os l fd AE_READABLE (net_close sys fd w)
      else bindE (mem_store rdData 0 d) (\<lambda>rdData. bindE (c_text rdData) (\<lambda>txt. Inr (l, w))))"

definition handleRemote :: "'k mr_os \<Rightarrow> mr_loop \<Rightarrow> int \<Rightarrow> mr_srv \<Rightarrow> 'k net \<Rightarrow> fault + mr_loop \<times> 'k net" where
  "handleRemote os l fd srv w =
     bindE (aeCreateFileEvent os l fd AE_READABLE (handleRmtMsg_op (aeOps srv)) srv w) (\<lambda>(r, l, w). Inr (l, w))"

text \<open>The results of the three option calls are not looked at; their err is NULL.\<close>

definition acptConnHandle :: "nat \<Rightarrow> 'k sys \<Rightarrow> 'k mr_os \<Rightarrow> (nat \<Rightarrow> 'k \<Rightarrow> string) \<Rightarrow> mr_loop \<Rightarrow> int \<Rightarrow> mr_srv \<Rightarrow> 'k net
    \<Rightarrow> fault + mr_loop \<times> 'k net" where
  "acptConnHandle fuel sys os stk l fd srv w =
     bindE (anetTcpAccept fuel sys fd (Some (stk 46 (kern w))) 46 (Some 0) w) (\<lambda>((rFd, rIp, port), w).
     if rFd = ANET_ERR then Inl Assert_Failed
     else bindE (anetKeepAlive sys rFd 1 w) (\<lambda>(_, w).
          bindE (anetNonBlock sys rFd w) (\<lambda>(_, w).
          bindE (anetEnableTcpNoDelay sys rFd w) (\<lambda>(_, w).
          bindE (derefE rIp) (\<lambda>rIp. bindE (c_text rIp) (\<lambda>txt.
          handleRemote os l rFd srv w))))))"

definition mr_call :: "nat \<Rightarrow> 'k sys \<Rightarrow> 'k mr_os \<Rightarrow> (nat \<Rightarrow> 'k \<Rightarrow> string) \<Rightarrow> mr_proc \<Rightarrow> mr_loop \<Rightarrow> int \<Rightarrow> mr_srv \<Rightarrow> 'k net
    \<Rightarrow> fault + mr_loop \<times> 'k net" where
  "mr_call fuel sys os stk p l fd srv w =
     (case p of AcptConnHandle \<Rightarrow> acptConnHandle fuel sys os stk l fd srv w
      | HandleRmtMsg \<Rightarrow> handleRmtMsg sys os stk l fd w)"

text \<open>The event loop's environment: its system calls, and calling a handler.\<close>

definition mirror_os :: "nat \<Rightarrow> 'k sys \<Rightarrow> (mr_proc, mr_srv, 'k) os \<Rightarrow> (nat \<Rightarrow> 'k \<Rightarrow> string) \<Rightarrow> 'k mr_os" where
  "mirror_os fuel sys b stk =
     (net_os b)\<lparr>call_file := \<lambda>p l fd srv m w. mr_call fuel sys (net_os b) stk p l fd srv w\<rparr>"

text \<open>\<open>errMsg\<close> is a local array that both calls get as err.\<close>

definition listenPort :: "'k sys \<Rightarrow> (nat \<Rightarrow> 'k \<Rightarrow> string) \<Rightarrow> mr_srv \<Rightarrow> 'k net \<Rightarrow> fault + mr_srv \<times> 'k net" where
  "listenPort sys stk srv w =
     (let w = w\<lparr>errbuf := Some (stk 256 (kern w))\<rparr> in
      bindE (anetTcpServer sys (attr_port (srv_attr srv)) None (tcp_backlog (srv_attr srv)) w) (\<lambda>(fd, w).
      if ipFdCnt srv \<ge> length (ipFd srv) then Inl Out_Of_Bounds
      else let srv = srv\<lparr>ipFd := (ipFd srv)[ipFdCnt srv := fd]\<rparr> in
           bindE (anetNonBlock sys fd w) (\<lambda>(_, w).
           Inr (srv\<lparr>ipFdCnt := ipFdCnt srv + 1\<rparr>, w\<lparr>errbuf := None\<rparr>))))"

text \<open>
  The arguments of aeCreateEventLoop after the environment are what the allocator gives;
  \<open>srv_mem\<close> is the zeroed struct or NULL.
\<close>

definition initSrv :: "'k mr_os \<Rightarrow> mr_srv option \<Rightarrow> srv_attr option \<Rightarrow> ae_ops option \<Rightarrow> mr_loop option
    \<Rightarrow> (mr_proc, mr_srv) aeFileEvent list option \<Rightarrow> aeFiredEvent list option \<Rightarrow> bool \<Rightarrow> epoll_event list option \<Rightarrow> 'k net
    \<Rightarrow> fault + (mr_srv \<times> mr_loop option) \<times> 'k net" where
  "initSrv os srv_mem attr ops loop_mem evs fs state_mem api_evs w =
     (case (attr, ops) of
        (Some attr, Some ops) \<Rightarrow>
          bindE (derefE srv_mem) (\<lambda>srv.
          let srv = srv\<lparr>aeOps := ops, srv_attr := attr, ipFdCnt := 0\<rparr> in
          bindE (aeCreateEventLoop os loop_mem evs fs state_mem api_evs 16 w) (\<lambda>(evl, w). Inr ((srv, evl), w)))
      | _ \<Rightarrow> Inl Assert_Failed)"

text \<open>The registrations, from index \<open>idx\<close> on, \<open>k\<close> of them.\<close>

fun watch_ports :: "nat \<Rightarrow> nat \<Rightarrow> 'k mr_os \<Rightarrow> mr_srv \<Rightarrow> mr_loop option \<Rightarrow> 'k net \<Rightarrow> fault + mr_loop option \<times> 'k net" where
  "watch_ports 0 idx os srv evl w = Inr (evl, w)"
| "watch_ports (Suc k) idx os srv evl w =
     bindE (if idx < length (ipFd srv) then Inr (ipFd srv ! idx) else Inl Out_Of_Bounds) (\<lambda>fd.
     bindE (derefE evl) (\<lambda>l.
     bindE (aeCreateFileEvent os l fd AE_READABLE (accptConHandle_op (aeOps srv)) srv w) (\<lambda>(r, l, w).
     watch_ports k (idx + 1) os srv (Some l) w)))"

text \<open>launch_srv up to its last call.\<close>

definition start_srv :: "'k sys \<Rightarrow> 'k mr_os \<Rightarrow> (nat \<Rightarrow> 'k \<Rightarrow> string) \<Rightarrow> mr_srv option \<Rightarrow> mr_loop option
    \<Rightarrow> (mr_proc, mr_srv) aeFileEvent list option \<Rightarrow> aeFiredEvent list option \<Rightarrow> bool \<Rightarrow> epoll_event list option \<Rightarrow> 'k net
    \<Rightarrow> fault + mr_loop option \<times> 'k net" where
  "start_srv sys os stk srv_mem loop_mem evs fs state_mem api_evs w =
     bindE (initSrv os srv_mem (Some g_attr) (Some g_srvAeOps) loop_mem evs fs state_mem api_evs w) (\<lambda>((srv, evl), w).
     bindE (listenPort sys stk srv w) (\<lambda>(srv, w).
     watch_ports (ipFdCnt srv) 0 os srv evl w))"

definition launch_srv :: "nat \<Rightarrow> nat \<Rightarrow> 'k sys \<Rightarrow> (mr_proc, mr_srv, 'k) os \<Rightarrow> (nat \<Rightarrow> 'k \<Rightarrow> string) \<Rightarrow> mr_srv option \<Rightarrow> mr_loop option
    \<Rightarrow> (mr_proc, mr_srv) aeFileEvent list option \<Rightarrow> aeFiredEvent list option \<Rightarrow> bool \<Rightarrow> epoll_event list option \<Rightarrow> 'k net
    \<Rightarrow> fault + mr_loop \<times> 'k net" where
  "launch_srv rounds fuel sys b stk srv_mem loop_mem evs fs state_mem api_evs w =
     (let os = mirror_os fuel sys b stk in
      bindE (start_srv sys os stk srv_mem loop_mem evs fs state_mem api_evs w) (\<lambda>(evl, w).
      bindE (derefE evl) (\<lambda>l. aeMain rounds fuel os l w)))"

text \<open>
  The states the running server goes through: after the start, aeMain clears the stop flag;
  then rounds of its loop, the hook before sleeping included.
\<close>

definition main_round :: "nat \<Rightarrow> ('p, 'c, 'w) os \<Rightarrow> ('p, 'c) aeEventLoop \<Rightarrow> 'w \<Rightarrow> fault + ('p, 'c) aeEventLoop \<times> 'w" where
  "main_round fuel os l w =
     bindE (case beforesleep l of None \<Rightarrow> Inr (l, w) | Some f \<Rightarrow> call_before os f l w) (\<lambda>(l, w).
     bindE (aeProcessEvents fuel os l AE_ALL_EVENTS w) (\<lambda>(_, l, w). Inr (l, w)))"

lemma main_loop_round:
  "main_loop (Suc n) fuel os l w =
     (if stop l then Inr (l, w) else bindE (main_round fuel os l w) (\<lambda>(l, w). main_loop n fuel os l w))"
  by (simp add: main_round_def bindE_assoc split_def)

inductive served :: "nat \<Rightarrow> 'k sys \<Rightarrow> (mr_proc, mr_srv, 'k) os \<Rightarrow> (nat \<Rightarrow> 'k \<Rightarrow> string)
    \<Rightarrow> mr_loop option \<times> 'k net \<Rightarrow> mr_loop \<Rightarrow> 'k net \<Rightarrow> bool" for fuel sys b stk st where
  start: "st = (Some l, w) \<Longrightarrow> served fuel sys b stk st (l\<lparr>stop := False\<rparr>) w"
| round: "served fuel sys b stk st l w \<Longrightarrow> \<not> stop l \<Longrightarrow> main_round fuel (mirror_os fuel sys b stk) l w = Inr (l', w')
    \<Longrightarrow> served fuel sys b stk st l' w'"

section \<open>The client\<close>

record mr_clt =
  srvIp :: string
  srvPort :: int
  srvSock :: int

definition EHOSTUNREACH :: int where "EHOSTUNREACH = 113"

text \<open>At most \<open>n\<close> calls of connect.\<close>

fun con_loop :: "nat \<Rightarrow> 'k sys \<Rightarrow> int \<Rightarrow> sockaddr \<Rightarrow> 'k net \<Rightarrow> s32 \<times> 'k net" where
  "con_loop 0 sys s sa w = (SPG_ERR, w)"
| "con_loop (Suc n) sys s sa w =
     (let (ret, w) = sysc (sys_connect sys s sa) w in
      if ret = - 1
      then if sys_errno sys (kern w) = EHOSTUNREACH then (SPG_ERR, w) else con_loop n sys s sa w
      else (SPG_OK, w))"

definition conToSrv :: "'k sys \<Rightarrow> mr_clt \<Rightarrow> int \<Rightarrow> 'k net \<Rightarrow> fault + s32 \<times> mr_clt \<times> 'k net" where
  "conToSrv sys clt port w =
     (let ((ret, ps), w) = net_getaddrinfo sys (Some (srvIp clt)) (Some (portstr port))
            \<lparr>h_flags = 0, h_family = AF_INET, h_socktype = SOCK_STREAM\<rparr> w in
      if ret \<noteq> 0 then Inl Assert_Failed
      else case ps of [] \<Rightarrow> Inl Null_Deref
           | p # _ \<Rightarrow>
               let (s, w) = net_socket sys (ai_family p) (ai_socktype p) (ai_protocol p) w;
                   clt = clt\<lparr>srvSock := s\<rparr> in
               bindE (anetKeepAlive sys s 1 w) (\<lambda>(_, w).
               bindE (anetNonBlock sys s w) (\<lambda>(_, w).
               bindE (anetEnableTcpNoDelay sys s w) (\<lambda>(_, w).
               let (r, w) = con_loop 10 sys s (ai_addr p) w in Inr (r, clt, w)))))"

definition readFromSrv :: "nat \<Rightarrow> 'k sys \<Rightarrow> (nat \<Rightarrow> 'k \<Rightarrow> string) \<Rightarrow> mr_clt \<Rightarrow> 'k net \<Rightarrow> fault + (int \<times> string) \<times> 'k net" where
  "readFromSrv fuel sys stk clt w =
     bindE (anetRead fuel sys (srvSock clt) (Some (stk 128 (kern w))) 128 w) (\<lambda>(rdLen, buf, w).
     bindE (derefE buf) (\<lambda>buf. bindE (c_text buf) (\<lambda>txt. Inr ((rdLen, txt), w))))"

definition sendToSrv :: "nat \<Rightarrow> 'k sys \<Rightarrow> mr_clt \<Rightarrow> string option \<Rightarrow> nat \<Rightarrow> 'k net \<Rightarrow> fault + 'k net" where
  "sendToSrv fuel sys clt data len w =
     bindE (anetWrite fuel sys (srvSock clt) data (int len) w) (\<lambda>(wrLen, w). Inr w)"

text \<open>scanf of %s: the next word of the input and what follows it; None at the end of the input.\<close>

definition scan_s :: "string \<Rightarrow> (string \<times> string) option" where
  "scan_s inp = (let t = dropWhile is_space inp in
     if t = [] then None else Some (takeWhile (\<lambda>c. \<not> is_space c) t, dropWhile (\<lambda>c. \<not> is_space c) t))"

text \<open>One round of the loop of launch_client: the array, what is still to be read, the world.\<close>

definition client_round :: "nat \<Rightarrow> 'k sys \<Rightarrow> mr_clt \<Rightarrow> string \<times> string \<times> 'k net \<Rightarrow> fault + string \<times> string \<times> 'k net" where
  "client_round fuel sys clt = (\<lambda>(buf, inp, w).
     bindE (case scan_s inp of None \<Rightarrow> Inr (buf, [])
            | Some (t, inp) \<Rightarrow> bindE (mem_store buf 0 (t @ [NUL])) (\<lambda>buf. Inr (buf, inp))) (\<lambda>(buf, inp).
     bindE (c_text buf) (\<lambda>t.
     bindE (sendToSrv fuel sys clt (Some buf) (length t) w) (\<lambda>w. Inr (buf, inp, w)))))"

fun client_rounds :: "nat \<Rightarrow> nat \<Rightarrow> 'k sys \<Rightarrow> mr_clt \<Rightarrow> string \<times> string \<times> 'k net \<Rightarrow> fault + string \<times> string \<times> 'k net" where
  "client_rounds 0 fuel sys clt st = Inr st"
| "client_rounds (Suc n) fuel sys clt st = bindE (client_round fuel sys clt st) (client_rounds n fuel sys clt)"

text \<open>
  The loop has no end; the result is the state after the first rounds of it, None where the
  function returns before it. strdup is taken to find memory. The port, a long, becomes an int.
\<close>

definition launch_client :: "nat \<Rightarrow> nat \<Rightarrow> 'k sys \<Rightarrow> (nat \<Rightarrow> 'k \<Rightarrow> string) \<Rightarrow> string list \<Rightarrow> mr_clt \<Rightarrow> string \<Rightarrow> 'k net
    \<Rightarrow> fault + (string \<times> string \<times> 'k net) option" where
  "launch_client rounds fuel sys stk argv g_mr_clt inp w =
     (if length argv < 3 then Inr None
      else let clt = g_mr_clt\<lparr>srvIp := argv ! 1, srvPort := sint (word_of_int (strtol0 (argv ! 2)) :: s32)\<rparr> in
           bindE (conToSrv sys clt (srvPort clt) w) (\<lambda>(ret, clt, w).
           if ret \<noteq> 0 then Inl Assert_Failed
           else bindE (client_rounds rounds fuel sys clt (stk 128 (kern w), inp, w)) (\<lambda>st. Inr (Some st))))"

text \<open>A word of 128 chars or more is written behind the array.\<close>

lemma client_long_word:
  assumes "scan_s inp = Some (t, rest)" "length buf \<le> length t"
  shows "client_round fuel sys clt (buf, inp, w) = Inl Out_Of_Bounds"
  using assms by (simp add: client_round_def mem_store_def)

text \<open>At the end of the input every further round sends the last word again.\<close>

lemma client_resends:
  assumes "scan_s inp = None" "NUL \<notin> set t" "client_round fuel sys clt (t @ NUL # r, inp, w) = Inr (buf, inp', w')"
  shows "buf = t @ NUL # r \<and> inp' = [] \<and> sendToSrv fuel sys clt (Some buf) (length t) w = Inr w'"
  using assms by (auto simp: client_round_def c_text_prefix bindE_Inr_iff)

end
