(* ===== verification/Mirror_Safety.thy ===== *)
theory Mirror_Safety
  imports Mirror
begin

text \<open>
  The descriptors of the mirror server: through start-up and any number of rounds of the event
  loop, what is registered in the loop is open and was not closed behind its back; and where
  every registration succeeds, what is open is registered. Then the failures: the message
  that is logged past its end, and what the client leaves open.
\<close>

section \<open>The kernel's descriptors\<close>

text \<open>
  \<open>opn k\<close> are the descriptors open in a state of the kernel: socket and accept give one that
  is not open, close closes the one it is given, and no other call closes any.
\<close>

definition never_closes :: "('k \<Rightarrow> int set) \<Rightarrow> ('k \<Rightarrow> 'a \<times> 'k) \<Rightarrow> bool" where
  "never_closes opn f \<longleftrightarrow> (\<forall>k. opn k \<subseteq> opn (snd (f k)))"

definition gives_fresh :: "('k \<Rightarrow> int set) \<Rightarrow> ('k \<Rightarrow> int \<times> 'k) \<Rightarrow> bool" where
  "gives_fresh opn f \<longleftrightarrow> (\<forall>k s k'. f k = (s, k') \<longrightarrow>
     opn k \<subseteq> opn k' \<and> (s \<noteq> - 1 \<longrightarrow> s \<notin> opn k \<and> s \<in> opn k'))"

definition descriptors :: "'k sys \<Rightarrow> ('p, 'c, 'k) os \<Rightarrow> ('k \<Rightarrow> int set) \<Rightarrow> bool" where
  "descriptors sys b opn \<longleftrightarrow>
     (\<forall>d t p. gives_fresh opn (sys_socket sys d t p))
   \<and> (\<forall>s. gives_fresh opn (\<lambda>k. let ((fd, sa), k) = sys_accept sys s k in (fd, k)))
   \<and> (\<forall>s k. opn (snd (sys_close sys s k)) = opn k - {s})
   \<and> (\<forall>fd. never_closes opn (sys_getfl sys fd)) \<and> (\<forall>fd f. never_closes opn (sys_setfl sys fd f))
   \<and> (\<forall>fd opt. never_closes opn (sys_setsockopt sys fd opt))
   \<and> (\<forall>a s h. never_closes opn (sys_getaddrinfo sys a s h))
   \<and> (\<forall>s a. never_closes opn (sys_bind sys s a)) \<and> (\<forall>s n. never_closes opn (sys_listen sys s n))
   \<and> (\<forall>fd n. never_closes opn (sys_read sys fd n))
   \<and> never_closes opn (os_time b) \<and> never_closes opn (os_gettimeofday b) \<and> never_closes opn (os_epoll_create b)
   \<and> (\<forall>e op fd bits. never_closes opn (os_epoll_ctl b e op fd bits))
   \<and> (\<forall>e evs n t. never_closes opn (os_epoll_wait b e evs n t))"

lemma descriptorsD:
  assumes "descriptors sys b opn"
  shows "gives_fresh opn (sys_socket sys d t p)"
    "gives_fresh opn (\<lambda>k. let ((fd, sa), k) = sys_accept sys s k in (fd, k))"
    "opn (snd (sys_close sys s k)) = opn k - {s}"
    "never_closes opn (sys_getfl sys fd)" "never_closes opn (sys_setfl sys fd f)"
    "never_closes opn (sys_setsockopt sys fd opt)" "never_closes opn (sys_getaddrinfo sys a sv h)"
    "never_closes opn (sys_bind sys s sa)" "never_closes opn (sys_listen sys s n)" "never_closes opn (sys_read sys fd m)"
    "never_closes opn (os_time b)" "never_closes opn (os_gettimeofday b)" "never_closes opn (os_epoll_create b)"
    "never_closes opn (os_epoll_ctl b e op fd bits)" "never_closes opn (os_epoll_wait b e evs i tm)"
  using assms by (simp_all add: descriptors_def)

section \<open>Calls that touch no descriptor\<close>

definition keeps :: "('k \<Rightarrow> int set) \<Rightarrow> 'k net \<Rightarrow> 'k net \<Rightarrow> bool" where
  "keeps opn w w' \<longleftrightarrow> fds w' = fds w \<and> stray w' = stray w \<and> infos w' = infos w
     \<and> (errbuf w = None \<longrightarrow> errbuf w' = None) \<and> opn (kern w) \<subseteq> opn (kern w')"

lemma keeps_refl [simp]: "keeps opn w w"
  by (simp add: keeps_def)

lemma keeps_trans: "keeps opn u v \<Longrightarrow> keeps opn v w \<Longrightarrow> keeps opn u w"
  by (auto simp: keeps_def)

lemma keeps_sysc:
  assumes "never_closes opn f" "sysc f w = (r, w')"
  shows "keeps opn w w'"
proof -
  have "opn (kern w) \<subseteq> opn (snd (f (kern w)))" using assms(1) by (simp add: never_closes_def)
  with assms(2) show ?thesis by (auto simp: sysc_def keeps_def split: prod.splits)
qed

lemma keeps_error: "anetSetError t w = Inr w' \<Longrightarrow> keeps opn w w'"
  by (cases "errbuf w") (auto simp: anetSetError_def keeps_def bindE_Inr_iff)

lemma keeps_fail: "anet_fail t w = Inr (r, w') \<Longrightarrow> keeps opn w w' \<and> r = ANET_ERR"
  by (auto simp: anet_fail_def bindE_Inr_iff keeps_error)

lemma keeps_set_opt:
  assumes "never_closes opn (sys_setsockopt sys fd opt)" "set_opt sys fd opt m w = Inr (r, w')"
  shows "keeps opn w w'"
proof -
  obtain q v where c: "sysc (sys_setsockopt sys fd opt) w = (q, v)" by (metis surj_pair)
  have "keeps opn w v" by (rule keeps_sysc [OF assms(1) c])
  with assms(2) c show ?thesis by (auto simp: set_opt_def split: if_splits dest: keeps_fail intro: keeps_trans)
qed

lemma keeps_set_block:
  assumes d: "descriptors sys b opn" and r: "anetSetBlock sys fd nb w = Inr (r, w')"
  shows "keeps opn w w'"
proof -
  obtain f v where g: "sysc (sys_getfl sys fd) w = (f, v)" by (metis surj_pair)
  let ?f = "if nb then f OR O_NONBLOCK else f AND NOT O_NONBLOCK"
  obtain q u where s: "sysc (sys_setfl sys fd ?f) v = (q, u)" by (metis surj_pair)
  have "keeps opn w v" "keeps opn v u"
    by (rule keeps_sysc [OF descriptorsD(4) [OF d] g] keeps_sysc [OF descriptorsD(5) [OF d] s])+
  with r g s show ?thesis
    by (auto simp: anetSetBlock_def Let_def split: if_splits dest!: keeps_fail intro: keeps_trans)
qed

lemma keeps_keep_alive:
  assumes d: "descriptors sys b opn" and r: "anetKeepAlive sys fd n w = Inr (r, w')"
  shows "keeps opn w w'"
proof -
  note op = keeps_sysc [OF descriptorsD(6) [OF d]]
  obtain q1 v1 where 1: "sysc (sys_setsockopt sys fd (SO_KEEPALIVE 1)) w = (q1, v1)" by (metis surj_pair)
  obtain q2 v2 where 2: "sysc (sys_setsockopt sys fd (TCP_KEEPIDLE n)) v1 = (q2, v2)" by (metis surj_pair)
  let ?v = "if n sdiv 3 = 0 then 1 else n sdiv 3"
  obtain q3 v3 where 3: "sysc (sys_setsockopt sys fd (TCP_KEEPINTVL ?v)) v2 = (q3, v3)" by (metis surj_pair)
  obtain q4 v4 where 4: "sysc (sys_setsockopt sys fd (TCP_KEEPCNT 3)) v3 = (q4, v4)" by (metis surj_pair)
  have k: "keeps opn w v1" "keeps opn v1 v2" "keeps opn v2 v3" "keeps opn v3 v4"
    by (rule op [OF 1] op [OF 2] op [OF 3] op [OF 4])+
  then have "keeps opn w v2" "keeps opn w v3" "keeps opn w v4" by (blast intro: keeps_trans)+
  with k(1) r 1 2 3 4 show ?thesis
    by (auto simp: anetKeepAlive_def Let_def split: if_splits dest!: keeps_fail intro: keeps_trans)
qed

section \<open>New connections\<close>

definition gains :: "('k \<Rightarrow> int set) \<Rightarrow> int \<Rightarrow> 'k net \<Rightarrow> 'k net \<Rightarrow> bool" where
  "gains opn s w w' \<longleftrightarrow> fds w' = s # fds w \<and> stray w' = stray w \<and> infos w' = infos w
     \<and> (errbuf w = None \<longrightarrow> errbuf w' = None)
     \<and> opn (kern w) \<subseteq> opn (kern w') \<and> s \<notin> opn (kern w) \<and> s \<in> opn (kern w')"

lemma gains_keeps: "gains opn s u v \<Longrightarrow> keeps opn v w \<Longrightarrow> gains opn s u w"
  by (auto simp: gains_def keeps_def)

lemma keeps_gains: "keeps opn u v \<Longrightarrow> gains opn s v w \<Longrightarrow> gains opn s u w"
  by (auto simp: gains_def keeps_def)

lemma gains_socket:
  assumes "descriptors sys b opn" "net_socket sys d t p w = (s, w')"
  shows "if s = - 1 then keeps opn w w' else gains opn s w w'"
proof -
  obtain k where k: "sys_socket sys d t p (kern w) = (s, k)"
    using assms(2) by (auto simp: net_socket_def sysc_def split: prod.splits if_splits)
  have "opn (kern w) \<subseteq> opn k \<and> (s \<noteq> - 1 \<longrightarrow> s \<notin> opn (kern w) \<and> s \<in> opn k)"
    using descriptorsD(1) [OF assms(1), of d t p] k unfolding gives_fresh_def by blast
  with k assms(2) show ?thesis by (auto simp: net_socket_def sysc_def keeps_def gains_def)
qed

lemma gains_accept_call:
  assumes "descriptors sys b opn" "net_accept sys l w = ((fd, sa), w')"
  shows "if fd = - 1 then keeps opn w w' else gains opn fd w w'"
proof -
  obtain k where k: "sys_accept sys l (kern w) = ((fd, sa), k)"
    using assms(2) by (auto simp: net_accept_def sysc_def split: prod.splits if_splits)
  have "opn (kern w) \<subseteq> opn k \<and> (fd \<noteq> - 1 \<longrightarrow> fd \<notin> opn (kern w) \<and> fd \<in> opn k)"
    using descriptorsD(2) [OF assms(1), of l, unfolded gives_fresh_def, rule_format, of "kern w" fd k] k by simp
  with k assms(2) show ?thesis by (auto simp: net_accept_def sysc_def keeps_def gains_def)
qed

lemma gains_accept:
  assumes d: "descriptors sys b opn"
  shows "anetGenericAccept fuel sys l w = Inr ((fd, sa), w') \<Longrightarrow> fd \<noteq> - 1 \<Longrightarrow> gains opn fd w w'"
proof (induction fuel arbitrary: w)
  case (Suc fuel)
  obtain fd1 sa1 w1 where a: "net_accept sys l w = ((fd1, sa1), w1)" by (metis surj_pair)
  note g = gains_accept_call [OF d a]
  show ?case
  proof (cases "fd1 = - 1")
    case True
    then have "sys_errno sys (kern w1) = EINTR \<and> anetGenericAccept fuel sys l w1 = Inr ((fd, sa), w')"
      using Suc.prems a by (auto simp: bindE_Inr_iff ANET_ERR_def dest!: keeps_fail split: if_splits)
    then have "gains opn fd w1 w'" using Suc.IH Suc.prems(2) by blast
    with g True show ?thesis by (simp add: keeps_gains)
  next
    case False
    with a g Suc.prems(1) show ?thesis by simp
  qed
qed simp

lemma gains_tcp_accept:
  assumes "descriptors sys b opn" "anetTcpAccept fuel sys l ip n port w = Inr ((fd, ip', port'), w')" "fd \<noteq> ANET_ERR"
  shows "gains opn fd w w'"
  using assms gains_accept [OF assms(1)]
  by (auto simp: anetTcpAccept_def bindE_Inr_iff split: if_splits)

section \<open>Registrations\<close>

lemma aeCreate_watch:
  assumes d: "descriptors sys b opn" and tab: "events l = Some ev" "int (length ev) = setsize l"
    and r: "aeCreateFileEvent (net_os b) l fd AE_READABLE p c w = Inr (r, l', w')"
  shows "keeps opn w w'" "\<exists>ev' m. l' = l\<lparr>events := Some ev', maxfd := m\<rparr> \<and> length ev' = length ev"
    "if r = AE_OK then watch l' = (watch l)(fd := watch_more AE_READABLE p c (watch l fd)) else watch l' = watch l"
    "(\<forall>e op fd bits k. op \<noteq> EPOLL_CTL_DEL \<longrightarrow> fst (os_epoll_ctl b e op fd bits k) \<noteq> - 1) \<Longrightarrow> fd < setsize l \<Longrightarrow> r = AE_OK"
proof -
  have "keeps opn w w' \<and> (\<exists>ev' m. l' = l\<lparr>events := Some ev', maxfd := m\<rparr> \<and> length ev' = length ev) \<and>
    (if r = AE_OK then watch l' = (watch l)(fd := watch_more AE_READABLE p c (watch l fd)) else watch l' = watch l) \<and>
    ((\<forall>e op fd bits k. op \<noteq> EPOLL_CTL_DEL \<longrightarrow> fst (os_epoll_ctl b e op fd bits k) \<noteq> - 1) \<longrightarrow> fd < setsize l \<longrightarrow> r = AE_OK)"
  proof (cases "fd \<ge> setsize l")
    case True
    with r tab show ?thesis
      by (auto simp: aeCreateFileEvent_def ae_consts intro!: exI [of _ ev] exI [of _ "maxfd l"])
  next
    case False
    have fd: "0 \<le> fd" "fd < int (length ev)"
      using r False tab by (auto simp: aeCreateFileEvent_def aeApiAddEvent_def elem_def bindE_Inr_iff split: if_splits)
    let ?fe = "ev ! nat fd"
    let ?op = "if fe_mask ?fe = AE_NONE then EPOLL_CTL_ADD else EPOLL_CTL_MOD"
    let ?bits = "epoll_bits (AE_READABLE OR fe_mask ?fe)"
    obtain q v where c: "sysc (os_epoll_ctl b (epfd (apidata l)) ?op fd ?bits) w = (q, v)" by (metis surj_pair)
    have v: "keeps opn w v" by (rule keeps_sysc [OF descriptorsD(14) [OF d] c])
    have q: "q = fst (os_epoll_ctl b (epfd (apidata l)) ?op fd ?bits (kern w))"
      using c by (auto simp: sysc_def split: prod.splits)
    show ?thesis
    proof (cases "q = - 1")
      case True
      then have "r = AE_ERR" "l' = l" "w' = v" using r False fd c tab
        by (auto simp: aeCreateFileEvent_def aeApiAddEvent_def net_os_def Let_def)
      moreover have "?op \<noteq> EPOLL_CTL_DEL" by simp
      ultimately show ?thesis using v True q
        by (auto simp: ae_consts intro!: exI [of _ ev] exI [of _ "maxfd l"] simp: tab)
    next
      case ok: False
      let ?ev = "ev[nat fd := fe_set AE_READABLE p c ?fe]"
      have "r = AE_OK" "w' = v" and l': "l' = l\<lparr>events := Some ?ev, maxfd := max fd (maxfd l)\<rparr>"
        using r False fd c tab ok
        by (auto simp: aeCreateFileEvent_def aeApiAddEvent_def net_os_def Let_def max_def)
      moreover have "watch l' = (watch l)(fd := view (fe_set AE_READABLE p c ?fe))"
        by (rule watch_upd [OF tab(1) _ fd]) (simp add: l')
      moreover have "view (fe_set AE_READABLE p c ?fe) = watch_more AE_READABLE p c (watch l fd)"
        using view_more [of AE_READABLE p c ?fe] fd tab by (simp add: watch_def AE_READABLE_def)
      ultimately show ?thesis using v by auto
    qed
  qed
  then show "keeps opn w w'" "\<exists>ev' m. l' = l\<lparr>events := Some ev', maxfd := m\<rparr> \<and> length ev' = length ev"
    "if r = AE_OK then watch l' = (watch l)(fd := watch_more AE_READABLE p c (watch l fd)) else watch l' = watch l"
    "(\<forall>e op fd bits k. op \<noteq> EPOLL_CTL_DEL \<longrightarrow> fst (os_epoll_ctl b e op fd bits k) \<noteq> - 1) \<Longrightarrow> fd < setsize l \<Longrightarrow> r = AE_OK"
    by blast+
qed

lemma maxfd_kept: "l\<lparr>events := x\<rparr> = l\<lparr>events := x, maxfd := m\<rparr> \<longleftrightarrow> m = maxfd l"
  by (cases l) auto

lemma aeDelete_watch:
  assumes d: "descriptors sys b opn" and tab: "events l = Some ev" "int (length ev) = setsize l"
    and r: "aeDeleteFileEvent (net_os b) l fd msk w = Inr (l', w')"
  shows "keeps opn w w' \<and> (\<exists>ev' m. l' = l\<lparr>events := Some ev', maxfd := m\<rparr> \<and> length ev' = length ev)
    \<and> watch l' = (watch l)(fd := watch_less msk (watch l fd))"
proof (cases "watch l fd = None")
  case True
  have "l' = l \<and> w' = w"
  proof (cases "fd \<ge> setsize l")
    case False
    then have "0 \<le> fd" "fd < int (length ev)"
      using r tab by (auto simp: aeDeleteFileEvent_def elem_def bindE_Inr_iff split: if_splits)
    with True r tab False show ?thesis by (simp add: aeDeleteFileEvent_def watch_def AE_NONE_def)
  qed (use r in \<open>simp add: aeDeleteFileEvent_def\<close>)
  with True tab show ?thesis by (auto simp: watch_less_def intro!: exI [of _ ev] exI [of _ "maxfd l"])
next
  case False
  note fd = watch_used [OF tab(1) False]
  let ?fe = "ev ! nat fd"
  let ?m = "fe_mask ?fe AND NOT msk"
  let ?ev = "ev[nat fd := ?fe\<lparr>fe_mask := ?m\<rparr>]"
  let ?op = "if ?m \<noteq> AE_NONE then EPOLL_CTL_MOD else EPOLL_CTL_DEL"
  obtain q v where c: "sysc (os_epoll_ctl b (epfd (apidata l)) ?op fd (epoll_bits ?m)) w = (q, v)" by (metis surj_pair)
  have v: "keeps opn w v" by (rule keeps_sysc [OF descriptorsD(14) [OF d] c])
  have "(\<exists>m. l' = l\<lparr>events := Some ?ev, maxfd := m\<rparr>) \<and> w' = v"
    using r fd(1,2,4) tab c
    by (auto simp: aeDeleteFileEvent_def aeApiDelEvent_def net_os_def Let_def AE_NONE_def bindE_Inr_iff
        maxfd_kept split: if_splits)
  then obtain m where l': "l' = l\<lparr>events := Some ?ev, maxfd := m\<rparr>" "w' = v" by blast
  have "watch l' = (watch l)(fd := view (?fe\<lparr>fe_mask := ?m\<rparr>))"
    by (rule watch_upd [OF tab(1) _ fd(1,2)]) (simp add: l')
  then have "watch l' = (watch l)(fd := watch_less msk (watch l fd))" by (simp add: view_less fd)
  with l' v show ?thesis by auto
qed

section \<open>The invariant\<close>

text \<open>With \<open>full\<close>, the laws of a kernel that never refuses a registration.\<close>

definition registers :: "'k sys \<Rightarrow> ('p, 'c, 'k) os \<Rightarrow> bool" where
  "registers sys b \<longleftrightarrow> (\<forall>e op fd bits k. op \<noteq> EPOLL_CTL_DEL \<longrightarrow> fst (os_epoll_ctl b e op fd bits k) \<noteq> - 1)
     \<and> (\<forall>d t p k. fst (sys_socket sys d t p k) < 16) \<and> (\<forall>s k. fst (fst (sys_accept sys s k)) < 16)"

definition watched :: "('p, 'c) aeEventLoop \<Rightarrow> int set" where
  "watched l = {fd. watch l fd \<noteq> None}"

definition read_only :: "('p, 'c) aeEventLoop \<Rightarrow> bool" where
  "read_only l \<longleftrightarrow> (\<forall>fd v. watch l fd = Some v \<longrightarrow> fst v = AE_READABLE)"

definition loop_inv :: "mr_loop \<Rightarrow> bool" where
  "loop_inv l \<longleftrightarrow> (\<exists>ev. events l = Some ev \<and> int (length ev) = setsize l) \<and> setsize l = 16 \<and> timeEventHead l = 0
     \<and> latestTimeEvt l = 0 \<and> beforesleep l = None \<and> read_only l"

definition net_inv :: "('k \<Rightarrow> int set) \<Rightarrow> 'k net \<Rightarrow> bool" where
  "net_inv opn w \<longleftrightarrow> distinct (fds w) \<and> set (fds w) \<subseteq> opn (kern w) \<and> stray w = [] \<and> infos w = 0 \<and> errbuf w = None"

definition srv_inv :: "bool \<Rightarrow> ('k \<Rightarrow> int set) \<Rightarrow> mr_loop \<Rightarrow> 'k net \<Rightarrow> bool" where
  "srv_inv full opn l w \<longleftrightarrow> loop_inv l \<and> net_inv opn w \<and> watched l \<subseteq> set (fds w) \<and> (full \<longrightarrow> set (fds w) \<subseteq> watched l)"

lemma inv_keeps: "srv_inv full opn l w \<Longrightarrow> keeps opn w w' \<Longrightarrow> srv_inv full opn l w'"
  by (auto simp: srv_inv_def net_inv_def keeps_def)

lemma watch_cong: "events l' = events l \<Longrightarrow> watch l' = watch l"
  by (simp add: watch_def fun_eq_iff)

lemma watch_same: "watch l' = watch l \<Longrightarrow> watched l' = watched l \<and> read_only l' = read_only l"
  by (simp add: watched_def read_only_def)

lemma watched_upd: "watch l' = (watch l)(fd := v) \<Longrightarrow> watched l' = (if v = None then watched l - {fd} else insert fd (watched l))"
  by (auto simp: watched_def)

lemma read_only_upd:
  "read_only l \<Longrightarrow> watch l' = (watch l)(fd := v) \<Longrightarrow> (case v of None \<Rightarrow> True | Some x \<Rightarrow> fst x = AE_READABLE) \<Longrightarrow> read_only l'"
  by (auto simp: read_only_def split: option.splits)

lemma read_onlyD: "read_only l \<Longrightarrow> watch l fd = Some v \<Longrightarrow> fst v = AE_READABLE"
  unfolding read_only_def by blast

lemma inv_frame:
  "srv_inv full opn l w \<Longrightarrow> events l' = events l \<Longrightarrow> setsize l' = setsize l \<Longrightarrow> timeEventHead l' = timeEventHead l
    \<Longrightarrow> latestTimeEvt l' = latestTimeEvt l \<Longrightarrow> beforesleep l' = beforesleep l \<Longrightarrow> srv_inv full opn l' w"
  using watch_same [OF watch_cong [of l' l]] by (auto simp: srv_inv_def loop_inv_def)

text \<open>The changes to the table: an entry more, an entry less.\<close>

lemma more_read:
  assumes "read_only l"
  shows "\<exists>x. watch_more AE_READABLE p c (watch l fd) = Some x \<and> fst x = AE_READABLE"
  using read_onlyD [OF assms, of fd] by (cases "watch l fd") (auto simp: watch_more_def Let_def)

lemma less_read:
  assumes "read_only l"
  shows "watch_less AE_READABLE (watch l fd) = None"
  using read_onlyD [OF assms, of fd] by (cases "watch l fd") (auto simp: watch_less_def)

lemma create_inv:
  assumes d: "descriptors sys b opn" and reg: "full \<longrightarrow> registers sys b \<and> fd < 16"
    and l: "loop_inv l" and n: "net_inv opn w" and fd: "fd \<in> set (fds w)"
    and ws: "watched l \<subseteq> set (fds w)" "full \<longrightarrow> set (fds w) \<subseteq> insert fd (watched l)"
    and r: "aeCreateFileEvent (net_os b) l fd AE_READABLE p c w = Inr (r, l', w')"
  shows "srv_inv full opn l' w'"
proof -
  obtain ev where tab: "events l = Some ev" "int (length ev) = setsize l" and 16: "setsize l = 16" and ro: "read_only l"
    using l by (auto simp: loop_inv_def)
  note c = aeCreate_watch [OF d tab r]
  have n': "net_inv opn w'" "set (fds w') = set (fds w)" using n c(1) by (auto simp: net_inv_def keeps_def)
  obtain ev' m where l': "l' = l\<lparr>events := Some ev', maxfd := m\<rparr>" "length ev' = length ev" using c(2) by blast
  have frame: "read_only l' \<Longrightarrow> loop_inv l'" using l l' tab by (auto simp: loop_inv_def)
  show ?thesis
  proof (cases "r = AE_OK")
    case True
    obtain x where x: "watch_more AE_READABLE p c (watch l fd) = Some x" "fst x = AE_READABLE" using more_read [OF ro] by blast
    have w: "watch l' = (watch l)(fd := Some x)" using c(3) True x by simp
    have "loop_inv l'" by (rule frame [OF read_only_upd [OF ro w]]) (simp add: x)
    moreover have "watched l' = insert fd (watched l)" using watched_upd [OF w] by simp
    ultimately show ?thesis using n' ws fd unfolding srv_inv_def by auto
  next
    case False
    have "\<not> full"
    proof
      assume full
      with reg have g: "registers sys b" "fd < 16" by auto
      have "r = AE_OK" by (rule c(4)) (use g in \<open>auto simp: registers_def 16\<close>)
      with False show False by simp
    qed
    moreover have "watch l' = watch l" using False c(3) by simp
    note watch_same [OF this]
    ultimately show ?thesis using n' ws frame ro unfolding srv_inv_def by simp
  qed
qed

lemma net_close_held:
  assumes "descriptors sys b opn" "net_inv opn w" "fd \<in> set (fds w)"
  shows "net_inv opn (net_close sys fd w)" "set (fds (net_close sys fd w)) = set (fds w) - {fd}"
proof -
  obtain q k where c: "sys_close sys fd (kern w) = (q, k)" by (metis surj_pair)
  have "opn k = opn (kern w) - {fd}" using descriptorsD(3) [OF assms(1), of fd "kern w"] c by simp
  moreover have "net_close sys fd w = w\<lparr>kern := k, fds := remove1 fd (fds w)\<rparr>"
    using assms(3) by (simp add: net_close_def sysc_def c)
  ultimately show "net_inv opn (net_close sys fd w)" "set (fds (net_close sys fd w)) = set (fds w) - {fd}"
    using assms(2) by (auto simp: net_inv_def)
qed

section \<open>The handlers\<close>

lemma handleRmtMsg_inv:
  assumes d: "descriptors sys b opn" and i: "srv_inv full opn l w" and fd: "watch l fd \<noteq> None"
    and r: "handleRmtMsg sys (net_os b) stk l fd w = Inr (l', w')"
  shows "srv_inv full opn l' w'"
proof -
  obtain n dat w1 where rd: "sysc (sys_read sys fd 128) w = ((n, dat), w1)" by (metis surj_pair)
  have i1: "srv_inv full opn l w1" by (rule inv_keeps [OF i keeps_sysc [OF descriptorsD(10) [OF d] rd]])
  show ?thesis
  proof (cases "n = 0")
    case False
    with r rd i1 show ?thesis by (auto simp: handleRmtMsg_def bindE_Inr_iff split: if_splits)
  next
    case True
    let ?w2 = "net_close sys fd w1"
    have held: "fd \<in> set (fds w1)" using i1 fd by (auto simp: srv_inv_def watched_def)
    have n1: "net_inv opn w1" and l: "loop_inv l" using i1 by (auto simp: srv_inv_def)
    note c = net_close_held [OF d n1 held]
    have del: "aeDeleteFileEvent (net_os b) l fd AE_READABLE ?w2 = Inr (l', w')"
      using r rd True by (simp add: handleRmtMsg_def)
    obtain ev where tab: "events l = Some ev" "int (length ev) = setsize l" and ro: "read_only l"
      using l by (auto simp: loop_inv_def)
    note D = aeDelete_watch [OF d tab del]
    have w: "watch l' = (watch l)(fd := None)" using D less_read [OF ro] by simp
    have "read_only l'" by (rule read_only_upd [OF ro w]) simp
    then have "loop_inv l'" using D l tab by (auto simp: loop_inv_def)
    moreover have "net_inv opn w'" "set (fds w') = set (fds w1) - {fd}" using c D by (auto simp: net_inv_def keeps_def)
    moreover have "watched l' = watched l - {fd}" using watched_upd [OF w] by simp
    ultimately show ?thesis using i1 unfolding srv_inv_def by auto
  qed
qed

lemma accept_small:
  "(\<And>s k. fst (fst (sys_accept sys s k)) < m) \<Longrightarrow> anetGenericAccept fuel sys s w = Inr ((fd, sa), w') \<Longrightarrow> fd < (m :: int)"
proof (induction fuel arbitrary: w)
  case (Suc fuel)
  obtain fd1 sa1 w1 where a: "net_accept sys s w = ((fd1, sa1), w1)" by (metis surj_pair)
  then have "fd1 = fst (fst (sys_accept sys s (kern w)))"
    by (auto simp: net_accept_def sysc_def split: prod.splits)
  then have "fd1 < m" using Suc.prems(1) by simp
  with a Suc show ?case by (auto simp: bindE_Inr_iff ANET_ERR_def dest!: keeps_fail split: if_splits)
qed simp

lemma acptConnHandle_inv:
  assumes d: "descriptors sys b opn" and i: "srv_inv full opn l w" and reg: "full \<longrightarrow> registers sys b"
    and r: "acptConnHandle fuel sys (net_os b) stk l fd srv w = Inr (l', w')"
  shows "srv_inv full opn l' w'"
proof -
  obtain rFd ip port w1 where a: "anetTcpAccept fuel sys fd (Some (stk 46 (kern w))) 46 (Some 0) w = Inr ((rFd, ip, port), w1)"
      "rFd \<noteq> ANET_ERR"
    using r by (auto simp: acptConnHandle_def bindE_Inr_iff split: if_splits)
  obtain r1 w2 r2 w3 r3 w4 q where k: "anetKeepAlive sys rFd 1 w1 = Inr (r1, w2)" "anetNonBlock sys rFd w2 = Inr (r2, w3)"
      "anetEnableTcpNoDelay sys rFd w3 = Inr (r3, w4)"
      "aeCreateFileEvent (net_os b) l rFd AE_READABLE (handleRmtMsg_op (aeOps srv)) srv w4 = Inr (q, l', w')"
    using r a by (auto simp: acptConnHandle_def handleRemote_def bindE_Inr_iff)
  have g: "gains opn rFd w w1" by (rule gains_tcp_accept [OF d a])
  have "keeps opn w1 w4"
    using keeps_keep_alive [OF d k(1)] keeps_set_block [OF d k(2) [unfolded anetNonBlock_def]]
      keeps_set_opt [OF descriptorsD(6) [OF d] k(3) [unfolded anetEnableTcpNoDelay_def anetSetTcpNoDelay_def]]
    by (blast intro: keeps_trans)
  then have g: "gains opn rFd w w4" by (rule gains_keeps [OF g])
  have small: "full \<longrightarrow> registers sys b \<and> rFd < 16"
    using reg a(1) accept_small [of sys 16 fuel fd]
    by (auto simp: registers_def anetTcpAccept_def bindE_Inr_iff ANET_ERR_def split: if_splits)
  have n4: "net_inv opn w4" "set (fds w4) = insert rFd (set (fds w))"
    using g i by (auto simp: gains_def srv_inv_def net_inv_def)
  show ?thesis
    by (rule create_inv [OF d small _ n4(1) _ _ _ k(4)]) (use n4(2) i in \<open>auto simp: srv_inv_def\<close>)
qed

lemma mr_call_inv:
  assumes "descriptors sys b opn" "srv_inv full opn l w" "full \<longrightarrow> registers sys b" "watch l fd \<noteq> None"
    "mr_call fuel sys (net_os b) stk p l fd srv w = Inr (l', w')"
  shows "srv_inv full opn l' w'"
  using assms(5) acptConnHandle_inv [OF assms(1-3)] handleRmtMsg_inv [OF assms(1,2,4)]
  by (cases p) (auto simp: mr_call_def)

section \<open>Rounds of the loop\<close>

lemma mirror_os_simps [simp]:
  "os_time (mirror_os fuel sys b stk) = sysc (os_time b)"
  "os_gettimeofday (mirror_os fuel sys b stk) = sysc (os_gettimeofday b)"
  "os_epoll_wait (mirror_os fuel sys b stk) e evs n t = sysc (os_epoll_wait b e evs n t)"
  "call_file (mirror_os fuel sys b stk) p l fd srv m w = mr_call fuel sys (net_os b) stk p l fd srv w"
  by (simp_all add: mirror_os_def net_os_def)

lemma mask_of:
  assumes "loop_inv l" "elem (events l) fd = Inr fe"
  shows "fe_mask fe = 0 \<or> fe_mask fe = AE_READABLE" "fe_mask fe \<noteq> 0 \<Longrightarrow> watch l fd \<noteq> None"
proof -
  obtain ev where ev: "events l = Some ev" and ro: "read_only l" using assms(1) by (auto simp: loop_inv_def)
  then have w: "watch l fd = view fe" using assms(2) by (auto simp: elem_def watch_def split: if_splits)
  then show "fe_mask fe = 0 \<or> fe_mask fe = AE_READABLE"
    using read_onlyD [OF ro, of fd] by (auto simp: view_def split: if_splits)
  show "fe_mask fe \<noteq> 0 \<Longrightarrow> watch l fd \<noteq> None" unfolding w by simp
qed

lemma no_write: "fe_mask fe = 0 \<or> fe_mask fe = AE_READABLE \<Longrightarrow> fe_mask fe AND msk AND AE_WRITABLE = 0"
  by (auto simp: and.assoc [symmetric] mask_tests bit_and_iff AE_READABLE_def)

lemma run_fired_inv:
  assumes d: "descriptors sys b opn" and i: "srv_inv full opn l w" and reg: "full \<longrightarrow> registers sys b"
    and r: "run_fired (mirror_os fuel sys b stk) l j w = Inr (l', w')"
  shows "srv_inv full opn l' w'"
proof -
  obtain f fe where f: "elem (fired l) j = Inr f" and fe: "elem (events l) (fired_fd f) = Inr fe"
    using r by (auto simp: run_fired_def bindE_Inr_iff Let_def)
  have l: "loop_inv l" using i by (simp add: srv_inv_def)
  let ?rd = "fe_mask fe AND fired_mask f AND AE_READABLE \<noteq> 0"
  show ?thesis
  proof (cases ?rd)
    case True
    then have "fe_mask fe \<noteq> 0" by auto
    note w = mask_of(2) [OF l fe this]
    obtain l1 w1 fe1 where c: "mr_call fuel sys (net_os b) stk (rfileProc fe) l (fired_fd f) (clientData fe) w = Inr (l1, w1)"
      and fe1: "elem (events l1) (fired_fd f) = Inr fe1" and n: "reallocs l1 = reallocs l"
      using r f fe True by (auto simp: run_fired_def bindE_Inr_iff Let_def split: if_splits)
    have i1: "srv_inv full opn l1 w1" by (rule mr_call_inv [OF d i reg w c])
    then have "loop_inv l1" by (simp add: srv_inv_def)
    note no_write [OF mask_of(1) [OF this fe1]]
    with r f fe True c fe1 n i1 show ?thesis by (simp add: run_fired_def)
  next
    case False
    with r f fe i no_write [OF mask_of(1) [OF l fe]] show ?thesis by (simp add: run_fired_def)
  qed
qed

lemma fired_loop_inv:
  assumes d: "descriptors sys b opn" and reg: "full \<longrightarrow> registers sys b"
  shows "srv_inv full opn l w \<Longrightarrow> fired_loop k j (mirror_os fuel sys b stk) l w = Inr (l', w') \<Longrightarrow> srv_inv full opn l' w'"
proof (induction k arbitrary: j l w)
  case (Suc k)
  then obtain l1 w1 where "run_fired (mirror_os fuel sys b stk) l j w = Inr (l1, w1)"
    "fired_loop k (j + 1) (mirror_os fuel sys b stk) l1 w1 = Inr (l', w')" by (auto simp: bindE_Inr_iff)
  then show ?case using Suc.IH run_fired_inv [OF d Suc.prems(1) reg] by blast
qed simp

lemma aeApiPoll_inv:
  assumes d: "descriptors sys b opn" and i: "srv_inv full opn l w"
    and r: "aeApiPoll (mirror_os fuel sys b stk) l tvp w = Inr (n, l', w')"
  shows "srv_inv full opn l' w'"
proof -
  obtain q evs v where c: "sysc (os_epoll_wait b (epfd (apidata l)) (api_events (apidata l)) (setsize l) (api_timeout tvp)) w
      = ((q, evs), v)" by (metis surj_pair)
  have "srv_inv full opn l v" by (rule inv_keeps [OF i keeps_sysc [OF descriptorsD(15) [OF d] c]])
  then show ?thesis using r c by (auto simp: aeApiPoll_def Let_def bindE_Inr_iff split: if_splits elim: inv_frame)
qed

lemma main_round_inv:
  assumes d: "descriptors sys b opn" and i: "srv_inv full opn l w" and reg: "full \<longrightarrow> registers sys b"
    and r: "main_round fuel (mirror_os fuel sys b stk) l w = Inr (l', w')"
  shows "srv_inv full opn l' w'"
proof -
  have l: "beforesleep l = None" "latestTimeEvt l = 0" using i by (auto simp: srv_inv_def loop_inv_def)
  have flags: "AE_ALL_EVENTS AND AE_TIME_EVENTS \<noteq> 0" "AE_ALL_EVENTS AND AE_DONT_WAIT = 0"
    by (simp_all add: ae_consts)
  obtain n l1 w1 l2 w2 m where
    p: "aeApiPoll (mirror_os fuel sys b stk) l None w = Inr (n, l1, w1)"
    and f: "fired_loop (nat n) 0 (mirror_os fuel sys b stk) l1 w1 = Inr (l2, w2)"
    and t: "processTimeEvents fuel (mirror_os fuel sys b stk) l2 w2 = Inr (m, l', w')"
    using r l flags by (auto simp: main_round_def aeProcessEvents_def poll_time_def aeSearchNearestTimer_def bindE_Inr_iff)
  have i2: "srv_inv full opn l2 w2" by (rule fired_loop_inv [OF d reg aeApiPoll_inv [OF d i p] f])
  obtain now v where c: "sysc (os_time b) w2 = (now, v)" by (metis surj_pair)
  have iv: "srv_inv full opn l2 v" by (rule inv_keeps [OF i2 keeps_sysc [OF descriptorsD(11) [OF d] c]])
  have "timeEventHead l2 = 0" using i2 by (simp add: srv_inv_def loop_inv_def)
  then have "l' = l2\<lparr>lastTime := now\<rparr> \<and> w' = v"
    using t c by (cases fuel) (auto simp: processTimeEvents_def Let_def bindE_Inr_iff split: if_splits)
  then show ?thesis using inv_frame [OF iv] by simp
qed

section \<open>Starting\<close>

lemma create_loop_inv:
  assumes d: "descriptors sys b opn" and n: "length evs = 16"
    and r: "aeCreateEventLoop (mirror_os fuel sys b stk) lm (Some evs) fs state_mem api_evs 16 w = Inr (Some l, w')"
  shows "loop_inv l \<and> watched l = {} \<and> keeps opn w w'"
proof -
  obtain evs' where c: "clear_masks 16 0 (Some evs) = Inr (Some evs')" "length evs' = 16" "\<forall>j<16. fe_mask (evs' ! j) = 0"
    using clear_masks_ok [of 0 16 evs] n by auto
  obtain now v where t: "sysc (os_time b) w = (now, v)" by (metis surj_pair)
  obtain fd u where e: "sysc (os_epoll_create b) v = (fd, u)" by (metis surj_pair)
  have k: "keeps opn w u"
    by (rule keeps_trans [OF keeps_sysc [OF descriptorsD(11) [OF d] t] keeps_sysc [OF descriptorsD(13) [OF d] e]])
  have l: "events l = Some evs'" "setsize l = 16" "timeEventHead l = 0" "latestTimeEvt l = 0" "beforesleep l = None" "w' = u"
    using r c(1) t e
    by (auto simp: aeCreateEventLoop_def aeApiCreate_def Let_def mirror_os_def net_os_def split: option.splits if_splits)
  have "watch l g = None" for g using l(1) c(2,3) by (auto simp: watch_def)
  then have "watched l = {}" "read_only l" by (simp_all add: watched_def read_only_def)
  with l c(2) k show ?thesis by (simp add: loop_inv_def)
qed

text \<open>A server socket that is handed out is open.\<close>

lemma server_loop_open:
  assumes d: "descriptors sys b opn"
  shows "server_loop sys AF_INET n ps w = Inr (To_End, s, w') \<Longrightarrow> s \<in> opn (kern w') \<and>
     ((\<forall>d t p k. fst (sys_socket sys d t p k) < m) \<longrightarrow> s < m)"
proof (induction ps arbitrary: w)
  case (Cons p ps)
  obtain q w1 where 1: "net_socket sys (ai_family p) (ai_socktype p) (ai_protocol p) w = (q, w1)" by (metis surj_pair)
  have q: "q = fst (sys_socket sys (ai_family p) (ai_socktype p) (ai_protocol p) (kern w))"
    using 1 by (auto simp: net_socket_def sysc_def split: prod.splits)
  show ?case
  proof (cases "q = - 1")
    case True
    with 1 Cons show ?thesis by simp
  next
    case False
    have "AF_INET \<noteq> AF_INET6" by (simp add: net_consts)
    then obtain r2 w2 r3 where s: "s = q" and r: "anetSetReuseAddr sys q w1 = Inr (r2, w2)"
        and l: "anetListen sys q (ai_addr p) n w2 = Inr (r3, w')" "r3 \<noteq> ANET_ERR"
      using Cons.prems 1 False by (auto simp: bindE_Inr_iff split: if_splits)
    have "q \<in> opn (kern w1)" using gains_socket [OF d 1] False by (simp add: gains_def)
    moreover have "keeps opn w1 w2" by (rule keeps_set_opt [OF descriptorsD(6) [OF d] r [unfolded anetSetReuseAddr_def]])
    moreover have "keeps opn w2 w'"
    proof -
      obtain r4 v4 where b: "sysc (sys_bind sys q (ai_addr p)) w2 = (r4, v4)" by (metis surj_pair)
      obtain r5 v5 where c: "sysc (sys_listen sys q n) v4 = (r5, v5)" by (metis surj_pair)
      have "keeps opn w2 v4" "keeps opn v4 v5"
        by (rule keeps_sysc [OF descriptorsD(8) [OF d] b] keeps_sysc [OF descriptorsD(9) [OF d] c])+
      moreover have "w' = v5" using l b c by (auto simp: anetListen_def bindE_Inr_iff split: if_splits)
      ultimately show ?thesis by (blast intro: keeps_trans)
    qed
    ultimately have "q \<in> opn (kern w')" by (auto simp: keeps_def)
    then show ?thesis using s q by auto
  qed
qed simp

lemma anetTcpServer_open:
  assumes d: "descriptors sys b opn" and r: "anetTcpServer sys port adr n w = Inr (s, w')" and s: "s \<noteq> ANET_ERR"
  shows "s \<in> opn (kern w')" "(\<forall>d t p k. fst (sys_socket sys d t p k) < m) \<Longrightarrow> s < m"
proof -
  let ?h = "\<lparr>h_flags = AI_PASSIVE, h_family = AF_INET, h_socktype = SOCK_STREAM\<rparr>"
  obtain rv ps w1 where g: "net_getaddrinfo sys adr (Some (portstr port)) ?h w = ((rv, ps), w1)" by (metis surj_pair)
  then have "rv = 0" using r s by (auto simp: anetTcpServer_def anetTcpServer_af_def dest: keeps_fail split: if_splits)
  with r g s obtain v where "server_loop sys AF_INET n ps w1 = Inr (To_End, s, v)" "kern w' = kern v"
    by (auto simp: anetTcpServer_def anetTcpServer_af_def Let_def bindE_Inr_iff net_freeaddrinfo_def split: if_splits)
  with server_loop_open [OF d this(1), of m] show "s \<in> opn (kern w')"
    "(\<forall>d t p k. fst (sys_socket sys d t p k) < m) \<Longrightarrow> s < m" by auto
qed

lemma aeCreate_negative: "events l = Some ev \<Longrightarrow> setsize l = 16 \<Longrightarrow> fd < 0 \<Longrightarrow>
    aeCreateFileEvent (net_os b) l fd msk p c w = Inl Out_Of_Bounds"
  by (simp add: aeCreateFileEvent_def aeApiAddEvent_def elem_def)

lemma create_os: "aeCreateFileEvent (mirror_os fuel sys b stk) l fd msk p c w = aeCreateFileEvent (net_os b) l fd msk p c w"
  by (simp add: aeCreateFileEvent_def aeApiAddEvent_def mirror_os_def)

definition fresh_net :: "'k net \<Rightarrow> bool" where
  "fresh_net w \<longleftrightarrow> fds w = [] \<and> stray w = [] \<and> infos w = 0 \<and> errbuf w = None"

lemma start_inv:
  assumes d: "descriptors sys b opn" and reg: "full \<longrightarrow> registers sys b"
    and n: "length evs = 16" and stk: "\<And>n k. length (stk n k) = n" and w: "fresh_net w"
    and r: "start_srv sys (mirror_os fuel sys b stk) stk srv_mem loop_mem (Some evs) fs sm api w = Inr (Some l', w')"
  shows "srv_inv full opn l' w'"
proof -
  let ?os = "mirror_os fuel sys b stk"
  obtain srv evl w1 where i: "initSrv ?os srv_mem (Some g_attr) (Some g_srvAeOps) loop_mem (Some evs) fs sm api w = Inr ((srv, evl), w1)"
    and cnt: "ipFdCnt srv = 0"
    using r by (auto simp: start_srv_def initSrv_def bindE_Inr_iff Let_def)
  obtain srv2 w2 where lp: "listenPort sys stk srv w1 = Inr (srv2, w2)"
    and wp: "watch_ports (ipFdCnt srv2) 0 ?os srv2 evl w2 = Inr (Some l', w')"
    using r i by (auto simp: start_srv_def bindE_Inr_iff)
  let ?w1 = "w1\<lparr>errbuf := Some (stk 256 (kern w1))\<rparr>"
  obtain s q w3 w4 where srv: "anetTcpServer sys (attr_port (srv_attr srv)) None (tcp_backlog (srv_attr srv)) ?w1 = Inr (s, w3)"
    and nb: "anetNonBlock sys s w3 = Inr (q, w4)" and w2: "w2 = w4\<lparr>errbuf := None\<rparr>"
    and srv2: "ipFdCnt srv2 = 1" "ipFd srv2 ! 0 = s" "0 < length (ipFd srv2)"
    using lp cnt by (auto simp: listenPort_def Let_def bindE_Inr_iff split: if_splits)
  obtain l where evl: "evl = Some l" using wp srv2 by (cases evl) (auto simp: bindE_Inr_iff)
  have "loop_inv l \<and> watched l = {} \<and> keeps opn w w1"
    using i create_loop_inv [OF d n] by (auto simp: evl initSrv_def bindE_Inr_iff Let_def)
  then have l: "loop_inv l" "watched l = {}" and k1: "keeps opn w w1" by auto
  obtain r5 where cr: "aeCreateFileEvent (net_os b) l s AE_READABLE (accptConHandle_op (aeOps srv2)) srv2 w2 = Inr (r5, l', w')"
    using wp srv2 by (auto simp: evl bindE_Inr_iff create_os)
  have "0 \<le> s"
  proof (rule ccontr)
    assume "\<not> 0 \<le> s"
    moreover obtain ev where "events l = Some ev" "setsize l = 16" using l(1) by (auto simp: loop_inv_def)
    ultimately show False using cr by (simp add: aeCreate_negative)
  qed
  then have s: "s \<noteq> ANET_ERR" by (auto simp: ANET_ERR_def)
  have "ledger [] [] 0 ?w1" using k1 w stk by (simp add: ledger_def keeps_def fresh_net_def err_ok_def ANET_ERR_LEN_def)
  with s srv have "ledger [s] [] 0 w3"
    using anetTcpServer_ledger [of "[]" "[]" 0 ?w1 sys "attr_port (srv_attr srv)" None AF_INET "tcp_backlog (srv_attr srv)"]
    by (auto simp: anetTcpServer_def gives_iff server_end_def)
  moreover have "keeps opn w3 w4" by (rule keeps_set_block [OF d nb [unfolded anetNonBlock_def]])
  moreover note anetTcpServer_open(1) [OF d srv s] anetTcpServer_open(2) [OF d srv s, of 16]
  ultimately have n2: "net_inv opn w2" "fds w2 = [s]" and small: "full \<longrightarrow> registers sys b \<and> s < 16"
    using reg by (auto simp: net_inv_def ledger_def keeps_def w2 registers_def)
  show ?thesis by (rule create_inv [OF d small l(1) n2(1) _ _ _ cr]) (simp_all add: n2 l)
qed

section \<open>Properties\<close>

lemma served_inv:
  assumes d: "descriptors sys b opn" and reg: "full \<longrightarrow> registers sys b"
    and n: "length evs = 16" and stk: "\<And>n k. length (stk n k) = n" and w: "fresh_net w0"
    and r: "start_srv sys (mirror_os fuel sys b stk) stk srv_mem loop_mem (Some evs) fs sm api w0 = Inr st"
    and s: "served fuel sys b stk st l w"
  shows "srv_inv full opn l w"
  using s
proof induction
  case (start l w)
  then have "srv_inv full opn l w" using start_inv [OF d reg n stk w] r by simp
  then show ?case by (rule inv_frame) simp_all
next
  case (round l w l' w')
  show ?case by (rule main_round_inv [OF d round.IH reg round.hyps(3)])
qed

text \<open>C2. The mirror server never loses track of a descriptor: from a successful start through any number
  of rounds of its event loop, over any kernel that does not hand out a descriptor twice, every
  descriptor registered in the loop is open and held by the server, none is held twice, nothing is closed that is
  not held, and no address list is left. Where the kernel also refuses no registration and its descriptors fit the
  sixteen slots of the table, the converse holds too: every connection it holds is watched, so none is leaked.\<close>

theorem mirror_descriptors:
  assumes d: "descriptors sys b opn" and n: "length evs = 16" and stk: "\<And>n k. length (stk n k) = n"
    and w: "fresh_net w0"
    and r: "start_srv sys (mirror_os fuel sys b stk) stk srv_mem loop_mem (Some evs) fs sm api w0 = Inr st"
    and s: "served fuel sys b stk st l w"
  shows "(\<forall>fd. watch l fd \<noteq> None \<longrightarrow> fd \<in> set (fds w) \<and> fd \<in> opn (kern w)) \<and> distinct (fds w) \<and> stray w = [] \<and> infos w = 0
    \<and> (registers sys b \<longrightarrow> (\<forall>fd\<in>set (fds w). watch l fd \<noteq> None))"
proof -
  have "srv_inv (registers sys b) opn l w" by (rule served_inv [OF d _ n stk w r s]) simp
  then have i: "net_inv opn w" "watched l \<subseteq> set (fds w)" "registers sys b \<longrightarrow> set (fds w) \<subseteq> watched l"
    by (simp_all add: srv_inv_def)
  have "watch l fd \<noteq> None \<longleftrightarrow> fd \<in> watched l" for fd by (simp add: watched_def)
  with i show ?thesis unfolding net_inv_def by blast
qed

text \<open>A kernel as the list of its open descriptors; one connection waits at the first round, no bytes follow.\<close>

definition next_fd :: "int list \<Rightarrow> int" where
  "next_fd k = foldr max k 0 + 1"

lemma next_fd_fresh: "next_fd k \<notin> set k"
proof -
  have "\<forall>x\<in>set k. x \<le> foldr max k 0" by (induction k) auto
  then show ?thesis by (auto simp: next_fd_def)
qed

lemma next_fd_pos: "0 < next_fd k"
proof -
  have "0 \<le> foldr max k 0" by (induction k) auto
  then show ?thesis by (simp add: next_fd_def)
qed

definition mr_sys :: "int list sys" where
  "mr_sys = \<lparr>sys_errno = (\<lambda>k. 0), sys_strerror = (\<lambda>e. ''error''), sys_gai_strerror = (\<lambda>e. ''error''),
     sys_getfl = (\<lambda>fd k. (2, k)), sys_setfl = (\<lambda>fd f k. (0, k)), sys_setsockopt = (\<lambda>fd opt k. (0, k)),
     sys_getaddrinfo = (\<lambda>a b h k. ((0, [\<lparr>ai_family = 2, ai_socktype = 1, ai_protocol = 6, ai_addr = demo_sa\<rparr>]), k)),
     sys_socket = (\<lambda>d t p k. (next_fd k, next_fd k # k)), sys_bind = (\<lambda>s a k. (0, k)), sys_listen = (\<lambda>s n k. (0, k)),
     sys_connect = (\<lambda>s a k. (0, k)), sys_accept = (\<lambda>s k. ((next_fd k, demo_sa), next_fd k # k)),
     sys_close = (\<lambda>s k. (0, filter (\<lambda>x. x \<noteq> s) k)), sys_read = (\<lambda>fd n k. ((0, []), k)), sys_write = (\<lambda>fd d k. (0, k)),
     sys_getpeername = (\<lambda>fd k. ((0, demo_sa), k)), sys_getsockname = (\<lambda>fd k. ((0, demo_sa), k)),
     sys_chmod = (\<lambda>p m k. (0, k)), sys_ntop = (\<lambda>af a. ''127.0.0.1'')\<rparr>"

definition mr_os :: "(mr_proc, mr_srv, int list) os" where
  "mr_os = \<lparr>os_time = (\<lambda>w. (0, w)), os_gettimeofday = (\<lambda>w. ((0, 0), w)), os_epoll_create = (\<lambda>k. (next_fd k, next_fd k # k)),
     os_epoll_ctl = (\<lambda>e op fd bits k. (0, k)), os_epoll_wait = (\<lambda>e evs n t k. ((1, Some [(EPOLLIN, 4)]), k)),
     os_poll = (\<lambda>fd b t w. ((0, 0), w)), call_time = (\<lambda>p l i c w. Inl Null_Deref), call_file = (\<lambda>p l fd c m w. Inl Null_Deref),
     call_final = (\<lambda>p l c w. Inl Null_Deref), call_before = (\<lambda>p l w. Inl Null_Deref)\<rparr>"

definition mr_stk :: "nat \<Rightarrow> int list \<Rightarrow> string" where
  "mr_stk n k = replicate n (CHR ''x'')"

definition mr_srv0 :: mr_srv where
  "mr_srv0 = \<lparr>srv_attr = \<lparr>attr_port = 0, tcp_backlog = 0\<rparr>, ipFd = replicate 32 0, ipFdCnt = 0, aeOps = g_srvAeOps\<rparr>"

definition mr_ev0 :: "(mr_proc, mr_srv) aeFileEvent" where
  "mr_ev0 = \<lparr>fe_mask = 7, rfileProc = AcptConnHandle, wfileProc = AcptConnHandle, clientData = mr_srv0\<rparr>"

definition mr_loop0 :: mr_loop where
  "mr_loop0 = \<lparr>maxfd = 0, setsize = 0, timeEventNextId = 0, lastTime = 0, events = None, fired = None, timeEventHead = 0, stop = False,
     apidata = \<lparr>epfd = 0, api_events = None\<rparr>, beforesleep = None, latestTimeEvt = 0, tevs = Map.empty, reallocs = 0\<rparr>"

definition mr_start :: "fault + mr_loop option \<times> int list net" where
  "mr_start = start_srv mr_sys (mirror_os 4 mr_sys mr_os mr_stk) mr_stk (Some mr_srv0) (Some mr_loop0) (Some (replicate 16 mr_ev0))
     (Some (replicate 16 \<lparr>fired_fd = 0, fired_mask = 0\<rparr>)) True (Some (replicate 16 (0, 0)))
     \<lparr>kern = [2, 1, 0], errbuf = None, fds = [], stray = [], infos = 0\<rparr>"

lemma mr_descriptors: "descriptors mr_sys mr_os set"
  by (auto simp: descriptors_def gives_fresh_def never_closes_def mr_sys_def mr_os_def next_fd_fresh)

lemma mr_run: "gives (\<lambda>(evl, w). case evl of None \<Rightarrow> False
    | Some l \<Rightarrow> gives (\<lambda>(l, w). fds w = [5, 4]) (main_round 4 (mirror_os 4 mr_sys mr_os mr_stk) (l\<lparr>stop := False\<rparr>) w)) mr_start"
  by code_simp

theorem mirror_descriptors_witness:
  "\<exists>st l w. mr_start = Inr st \<and> served 4 mr_sys mr_os mr_stk st l w \<and> fds w = [5, 4] \<and>
    (\<forall>fd. watch l fd \<noteq> None \<longrightarrow> fd \<in> set (fds w) \<and> fd \<in> set (kern w)) \<and> distinct (fds w) \<and> stray w = [] \<and> infos w = 0
    \<and> (registers mr_sys mr_os \<longrightarrow> (\<forall>fd\<in>set (fds w). watch l fd \<noteq> None))"
proof -
  obtain l0 w0 l w where 1: "mr_start = Inr (Some l0, w0)"
    and 2: "main_round 4 (mirror_os 4 mr_sys mr_os mr_stk) (l0\<lparr>stop := False\<rparr>) w0 = Inr (l, w)" "fds w = [5, 4]"
    using mr_run by (auto simp: gives_iff split: option.splits)
  have s: "served 4 mr_sys mr_os mr_stk (Some l0, w0) l w"
    by (rule served.round [OF served.start [OF refl] _ 2(1)]) simp
  note inv = mirror_descriptors [OF mr_descriptors _ _ _ 1 [unfolded mr_start_def] s]
  show ?thesis
    by (intro exI [of _ "(Some l0, w0)"] exI [of _ l] exI [of _ w] conjI 1 s 2(2) inv [THEN conjunct1]
        inv [THEN conjunct2, THEN conjunct1] inv [THEN conjunct2, THEN conjunct2, THEN conjunct1]
        inv [THEN conjunct2, THEN conjunct2, THEN conjunct2, THEN conjunct1]
        inv [THEN conjunct2, THEN conjunct2, THEN conjunct2, THEN conjunct2])
       (simp_all add: mr_stk_def fresh_net_def)
qed

text \<open>The mirror server logs a message as if it were a C string: a read of d bytes into the local array of 128
  chars is followed by the %s of the log, which stops at a NUL of the message or, behind a message shorter than
  the array, at whatever the uninitialised rest holds; a message of 128 bytes without a NUL is read past the end
  of the array.\<close>

theorem mirror_message_overread:
  assumes rd: "sys_read sys fd 128 (kern w) = ((int (length d), d), k)" and d: "d \<noteq> []" "length d \<le> 128"
    and stk: "length (stk 128 (kern w)) = 128"
  shows "handleRmtMsg sys os stk l fd w =
      (if NUL \<in> set (d @ drop (length d) (stk 128 (kern w))) then Inr (l, w\<lparr>kern := k\<rparr>) else Inl Out_Of_Bounds)"
  using rd d stk by (simp add: handleRmtMsg_def sysc_def mem_store_def c_text_def)

theorem mirror_message_overread_witness:
  "\<forall>os. handleRmtMsg demo_sys os (\<lambda>n k. replicate n (CHR ''x'')) mr_loop0 4
     (demo_net\<lparr>kern := (4, replicate 128 (CHR ''m''))\<rparr>) = Inl Out_Of_Bounds"
proof
  fix os
  show "handleRmtMsg demo_sys os (\<lambda>n k. replicate n (CHR ''x'')) mr_loop0 4
     (demo_net\<lparr>kern := (4, replicate 128 (CHR ''m''))\<rparr>) = Inl Out_Of_Bounds"
    by (subst mirror_message_overread [where d = "replicate 128 (CHR ''m'')" and k = "(4, [])"])
       (simp_all add: demo_sys_def)
qed

lemma con_loop_ledger: "ledger F S I w \<Longrightarrow> con_loop n sys s sa w = (r, w') \<Longrightarrow> ledger F S I w' \<and> (r = SPG_OK \<or> r = SPG_ERR)"
proof (induction n arbitrary: w)
  case (Suc n)
  obtain q v where c: "sysc (sys_connect sys s sa) w = (q, v)" by (metis surj_pair)
  with Suc ledger_sysc [OF c Suc.prems(1)] show ?case by (auto split: if_splits)
qed simp

text \<open>The mirror client keeps what it opened whatever becomes of the connection: once the server's address is
  resolved and a socket made, conToSrv returns SPG_OK or SPG_ERR, and in both cases the socket is open, also when
  the caller is told that there is no connection, and the address list is never freed.\<close>

theorem client_connect_leaks:
  assumes w: "err_ok w"
    and g: "net_getaddrinfo sys (Some (srvIp clt)) (Some (portstr port))
      \<lparr>h_flags = 0, h_family = AF_INET, h_socktype = SOCK_STREAM\<rparr> w = ((0, p # ps), w1)"
    and s: "net_socket sys (ai_family p) (ai_socktype p) (ai_protocol p) w1 = (s, w2)" "s \<noteq> - 1"
  shows "\<exists>r w'. conToSrv sys clt port w = Inr (r, clt\<lparr>srvSock := s\<rparr>, w') \<and> (r = SPG_OK \<or> r = SPG_ERR)
    \<and> fds w' = s # fds w \<and> infos w' = infos w + 1"
proof -
  let ?L = "ledger (s # fds w) (stray w) (infos w + 1)"
  have "ledger (fds w) (stray w) (infos w + 1) w1" using ledger_getaddrinfo [OF g ledgerI [OF w]] by simp
  then have 2: "?L w2" using ledger_socket [OF s(1)] s(2) by auto
  have "gives (\<lambda>(r, c, v). c = clt\<lparr>srvSock := s\<rparr> \<and> (r = SPG_OK \<or> r = SPG_ERR) \<and> ?L v) (conToSrv sys clt port w)"
    unfolding conToSrv_def g
    by (auto simp: s Let_def intro!: gives_bind [OF anetKeepAlive_ledger [OF 2]]
        gives_bind [OF anetNonBlock_ledger [of "s # fds w" "stray w" "infos w + 1"]]
        gives_bind [OF anetEnableTcpNoDelay_ledger [of "s # fds w" "stray w" "infos w + 1"]]
        dest: con_loop_ledger split: prod.split)
  then show ?thesis by (auto simp: gives_iff ledger_def)
qed

theorem client_connect_leaks_witness:
  "\<exists>r w'. conToSrv (demo_sys\<lparr>sys_connect := \<lambda>s a k. (- 1, k)\<rparr>) \<lparr>srvIp = ''10.0.0.1'', srvPort = 7001, srvSock = 0\<rparr> 7001 demo_net
      = Inr (r, \<lparr>srvIp = ''10.0.0.1'', srvPort = 7001, srvSock = 0\<rparr>\<lparr>srvSock := 3\<rparr>, w') \<and> (r = SPG_OK \<or> r = SPG_ERR)
    \<and> fds w' = 3 # fds demo_net \<and> infos w' = infos demo_net + 1"
  by (rule client_connect_leaks [where ?w1.0 = "demo_net\<lparr>infos := 1\<rparr>" and ?w2.0 = "demo_net\<lparr>infos := 1, kern := (4, []), fds := [3]\<rparr>"])
     (simp_all add: err_ok_def demo_net_def demo_sys_def net_getaddrinfo_def net_socket_def sysc_def)

end
