(* ===== verification/Proc_Stat.thy ===== *)
theory Proc_Stat
  imports C_Strings "HOL-Library.Signed_Division"
begin

text \<open>
  What src/src/zmalloc.c reads from /proc, as the Makefile defines HAVE_PROC_STAT and
  HAVE_PROC_SMAPS, and the clocks of src/src/spg_util.c. The files, the page size and
  gettimeofday are arguments; uninitialised arrays are what the argument says they hold.
\<close>

section \<open>The resident set size\<close>

text \<open>The position behind the next \<open>n\<close> spaces; None where the text ends before.\<close>

fun skip_fields :: "nat \<Rightarrow> string \<Rightarrow> nat \<Rightarrow> fault + nat option" where
  "skip_fields 0 buf p = Inr (Some p)"
| "skip_fields (Suc n) buf p =
     bindE (strchr (drop p buf) (CHR '' '')) (\<lambda>i.
     case i of None \<Rightarrow> Inr None | Some i \<Rightarrow> skip_fields n buf (p + i + 1))"

text \<open>
  \<open>file\<close> is what open and read give: None where open fails, else the bytes, none of them where
  the read fails. \<open>buf\<close> is the array of 4096 chars. The size is a size_t, which wraps.
\<close>

definition zmalloc_get_rss :: "int \<Rightarrow> string \<Rightarrow> string option \<Rightarrow> fault + u64" where
  "zmalloc_get_rss page buf file =
     (case file of None \<Rightarrow> Inr 0
      | Some d \<Rightarrow>
          if d = [] then Inr 0
          else bindE (mem_store buf 0 (take 4096 d)) (\<lambda>buf.
               bindE (skip_fields 23 buf 0) (\<lambda>p.
               case p of None \<Rightarrow> Inr 0
               | Some p \<Rightarrow>
                   bindE (strchr (drop p buf) (CHR '' '')) (\<lambda>x.
                   case x of None \<Rightarrow> Inr 0
                   | Some x \<Rightarrow>
                       bindE (mem_store buf (p + x) [NUL]) (\<lambda>buf.
                       bindE (c_text (drop p buf)) (\<lambda>t.
                       Inr (word_of_int (strtoll t) * word_of_int page)))))))"

section \<open>The fields of smaps\<close>

text \<open>One fgets into an array of \<open>n + 1\<close> chars: up to a newline, \<open>n\<close> chars or the end.\<close>

fun fgets_line :: "nat \<Rightarrow> string \<Rightarrow> string" where
  "fgets_line 0 s = []"
| "fgets_line (Suc n) [] = []"
| "fgets_line (Suc n) (c # s) = (if c = CHR 0x0A then [c] else c # fgets_line n s)"

lemma fgets_line_length: "s \<noteq> [] \<Longrightarrow> 0 < n \<Longrightarrow> 0 < length (fgets_line n s)"
  by (cases n; cases s) auto

text \<open>
  A line, ended by its NUL, that begins with the field: its number in bytes. The first \<open>k\<close> of
  the line is made a NUL, wherever it is.
\<close>

definition smap_line :: "string \<Rightarrow> string \<Rightarrow> fault + u64" where
  "smap_line field line =
     (if take (length field) line \<noteq> field then Inr 0
      else bindE (strchr line (CHR ''k'')) (\<lambda>p.
           case p of None \<Rightarrow> Inr 0
           | Some p \<Rightarrow>
               bindE (mem_store line p [NUL]) (\<lambda>line.
               bindE (c_text (drop (length field) line)) (\<lambda>t. Inr (word_of_int (strtoll t * 1024))))))"

function smap_loop :: "string \<Rightarrow> string \<Rightarrow> u64 \<Rightarrow> fault + u64" where
  "smap_loop field [] bytes = Inr bytes"
| "smap_loop field (c # s) bytes =
     (let line = fgets_line 1023 (c # s) in
      bindE (smap_line field (line @ [NUL])) (\<lambda>n. smap_loop field (drop (length line) (c # s)) (bytes + n)))"
  by pat_completeness auto
termination
proof (relation "measure (\<lambda>(field, s, bytes). length s)", goal_cases)
  case (2 field c s bytes line n)
  then show ?case using fgets_line_length [of "c # s" 1023] by (simp del: fgets_line.simps)
qed simp

text \<open>\<open>file\<close> is None where fopen fails, else the text of smaps.\<close>

definition zmalloc_get_smap_bytes_by_field :: "string \<Rightarrow> string option \<Rightarrow> fault + u64" where
  "zmalloc_get_smap_bytes_by_field field file = (case file of None \<Rightarrow> Inr 0 | Some s \<Rightarrow> smap_loop field s 0)"

definition zmalloc_get_private_dirty :: "string option \<Rightarrow> fault + u64" where
  "zmalloc_get_private_dirty file = zmalloc_get_smap_bytes_by_field ''Private_Dirty:'' file"

section \<open>Clocks\<close>

text \<open>\<open>now\<close> is what gettimeofday gives: seconds and microseconds.\<close>

definition get_ustime :: "int \<times> int \<Rightarrow> u64" where
  "get_ustime now = word_of_int (fst now) * 1000000 + word_of_int (snd now)"

definition get_mstime :: "int \<times> int \<Rightarrow> u64" where
  "get_mstime now = word_of_int (sint (get_ustime now) sdiv 1000)"

definition get_stime :: "int \<times> int \<Rightarrow> s32" where
  "get_stime now = word_of_int (fst now)"

lemma sint_of_small: "- (2 ^ 63) \<le> i \<Longrightarrow> i < 2 ^ 63 \<Longrightarrow> sint (word_of_int i :: u64) = i"
  by transfer (simp add: signed_take_bit_int_eq_self)

lemma get_ustime_value:
  assumes "0 \<le> sec" "sec < 2 ^ 42" "0 \<le> us" "us < 1000000"
  shows "sint (get_ustime (sec, us)) = sec * 1000000 + us" "sint (get_mstime (sec, us)) = sec * 1000 + us div 1000"
proof -
  have b: "sec * 1000000 + us < 2 ^ 63" using assms by simp
  have eq: "get_ustime (sec, us) = word_of_int (sec * 1000000 + us)" by (simp add: get_ustime_def)
  show u: "sint (get_ustime (sec, us)) = sec * 1000000 + us"
    unfolding eq by (rule sint_of_small) (use assms b in auto)
  have d: "(sec * 1000000 + us) div 1000 = sec * 1000 + us div 1000" by simp
  have "(sec * 1000000 + us) sdiv 1000 = sec * 1000 + us div 1000"
    using assms d by (simp add: signed_divide_int_def sgn_if)
  then have eq: "get_mstime (sec, us) = word_of_int (sec * 1000 + us div 1000)"
    unfolding get_mstime_def u by simp
  have "0 \<le> us div 1000" "us div 1000 < 1000" using assms by (simp_all add: pos_imp_zdiv_nonneg_iff)
  then show "sint (get_mstime (sec, us)) = sec * 1000 + us div 1000"
    unfolding eq by (intro sint_of_small) (use assms in simp_all)
qed

section \<open>What the readings are\<close>

lemma strchr_drop:
  assumes "c \<notin> set t" "NUL \<notin> set t" "drop p b = t @ c # r"
  shows "strchr (drop p b) c = Inr (Some (length t))"
  unfolding assms(3) by (rule strchr_found [OF assms(1,2)])

definition spaced :: "string list \<Rightarrow> string" where
  "spaced fs = concat (map (\<lambda>f. f @ '' '') fs)"

lemma skip_fields_spaced:
  "\<forall>f\<in>set fs. CHR '' '' \<notin> set f \<and> NUL \<notin> set f \<Longrightarrow> drop p b = spaced fs @ r \<Longrightarrow>
   skip_fields (length fs) b p = Inr (Some (p + length (spaced fs)))"
proof (induction fs arbitrary: p)
  case (Cons f fs)
  have dr: "drop p b = f @ CHR '' '' # spaced fs @ r" using Cons.prems(2) by (simp add: spaced_def)
  then have "strchr (drop p b) (CHR '' '') = Inr (Some (length f))"
    using Cons.prems(1) by (intro strchr_drop) auto
  moreover have "drop (p + length f + 1) b = spaced fs @ r"
  proof -
    have "drop (p + length f + 1) b = drop (length f + 1) (drop p b)" by (simp add: add.commute add.left_commute)
    then show ?thesis unfolding dr by simp
  qed
  from Cons.IH [OF _ this] Cons.prems(1)
  have "skip_fields (length fs) b (p + length f + 1) = Inr (Some (p + length f + 1 + length (spaced fs)))" by simp
  ultimately show ?case by (simp add: spaced_def)
qed (simp add: spaced_def)

text \<open>C40. zmalloc_get_rss reads the 24th field of /proc/self/stat: where the 23 fields before it contain no space,
  the field is a decimal numeral and a space follows it within the 4096 chars of the array, the result is
  the number times the page size, as a size_t. A process name with a space in it, which the second field may
  hold, shifts the fields, and then the result is that of another field.\<close>

theorem zmalloc_rss_field:
  assumes fs: "length fs = 23" "\<forall>f\<in>set fs. CHR '' '' \<notin> set f \<and> NUL \<notin> set f"
    and v: "v < 2 ^ 63" and d: "d = spaced fs @ dec_nat v @ CHR '' '' # rest" "length d \<le> 4096" "length buf = 4096"
  shows "zmalloc_get_rss page buf (Some d) = Inr (word_of_nat v * word_of_int page)"
proof -
  let ?b = "d @ drop (length d) buf" and ?p = "length (spaced fs)" and ?n = "dec_nat v"
  have st: "mem_store buf 0 (take 4096 d) = Inr ?b" using d by (auto simp: mem_store_def)
  have sk: "skip_fields 23 ?b 0 = Inr (Some ?p)"
    using skip_fields_spaced [of fs 0 ?b "?n @ CHR '' '' # rest @ drop (length d) buf"] fs d(1) by simp
  have dr: "drop ?p ?b = ?n @ CHR '' '' # rest @ drop (length d) buf" using d(1) by simp
  have nd: "NUL \<notin> set ?n" "CHR '' '' \<notin> set ?n" using dec_nat_digits [of _ v] is_digit_not by blast+
  have x: "strchr (drop ?p ?b) (CHR '' '') = Inr (Some (length ?n))" by (rule strchr_drop [OF nd(2,1) dr])
  have "?b = (spaced fs @ ?n) @ [CHR '' ''] @ rest @ drop (length d) buf" using d(1) by simp
  then have s2: "mem_store ?b (?p + length ?n) [NUL] = Inr ((spaced fs @ ?n) @ [NUL] @ rest @ drop (length d) buf)"
    using mem_store_middle [of "[NUL]" "[CHR '' '']" "spaced fs @ ?n" "rest @ drop (length d) buf"] by simp
  have "drop ?p ((spaced fs @ ?n) @ [NUL] @ rest @ drop (length d) buf) = ?n @ NUL # rest @ drop (length d) buf" by simp
  then have t: "c_text (drop ?p ((spaced fs @ ?n) @ [NUL] @ rest @ drop (length d) buf)) = Inr ?n"
    using c_text_prefix [OF nd(1)] by simp
  have "d \<noteq> []" using d(1) by simp
  then show ?thesis
    unfolding zmalloc_get_rss_def using st sk x s2 t strtoll_dec [OF v] by (simp del: drop_append append_assoc)
qed

theorem zmalloc_rss_field_witness:
  "zmalloc_get_rss 4096 (replicate 4096 (CHR ''x'')) (Some (spaced (replicate 23 ''0'') @ dec_nat 513 @ CHR '' '' # ''9''))
    = Inr (word_of_nat 513 * word_of_int 4096)"
proof (rule zmalloc_rss_field [where fs = "replicate 23 ''0''" and rest = "''9''"])
  show "length (spaced (replicate 23 ''0'') @ dec_nat 513 @ CHR '' '' # ''9'') \<le> 4096" by code_simp
qed simp_all

end
