(* ===== verification/Hex_Dump.thy ===== *)
theory Hex_Dump
  imports C_Strings
begin

text \<open>
  hex_dump of src/unit_test/ut.c: the lines it logs, and which bytes they show.
\<close>

section \<open>The code\<close>

definition hex_digit :: "nat \<Rightarrow> char" where
  "hex_digit n = (if n < 10 then char_of (48 + n) else char_of (55 + n))"

text \<open>The text of %02X and a space.\<close>

definition hex_text :: "u8 \<Rightarrow> string" where
  "hex_text b = [hex_digit (unat b div 16), hex_digit (unat b mod 16), CHR '' '']"

text \<open>
  \<open>k\<close> bytes are left from index \<open>i\<close> on; \<open>tmp\<close> is the array of 128 chars and \<open>out\<close> the lines so
  far. sprintf writes the text and its NUL.
\<close>

fun dump_loop :: "nat \<Rightarrow> nat \<Rightarrow> u8 list \<Rightarrow> string \<Rightarrow> string list \<Rightarrow> fault + string \<times> string list" where
  "dump_loop 0 i data tmp out = Inr (tmp, out)"
| "dump_loop (Suc k) i data tmp out =
     (if i \<ge> length data then Inl Out_Of_Bounds
      else bindE (mem_store tmp (i mod 16 * 3) (hex_text (data ! i) @ [NUL])) (\<lambda>tmp.
           if (i + 1) mod 16 = 0
           then bindE (c_text tmp) (\<lambda>t. dump_loop k (i + 1) data (replicate 128 NUL) (out @ [t]))
           else dump_loop k (i + 1) data tmp out))"

definition hex_dump :: "string \<Rightarrow> u8 list option \<Rightarrow> nat \<Rightarrow> fault + string list" where
  "hex_dump info data len =
     (case data of None \<Rightarrow> Inr []
      | Some d \<Rightarrow>
          bindE (dump_loop len 0 d (replicate 128 NUL) [''['' @ info @ '' length='' @ dec_nat len @ '']:'']) (\<lambda>(tmp, out).
          if (len + 1) mod 16 \<noteq> 0 then bindE (c_text tmp) (\<lambda>t. Inr (out @ [t])) else Inr out))"

section \<open>The lines\<close>

definition hex_row :: "u8 list \<Rightarrow> string" where
  "hex_row bs = concat (map hex_text bs)"

lemma hex_row_simps [simp]:
  "hex_row [] = []" "hex_row (a @ b) = hex_row a @ hex_row b" "length (hex_row bs) = 3 * length bs"
  by (simp_all add: hex_row_def hex_text_def length_concat comp_def sum_list_triv)

lemma hex_digit_not_NUL: "n < 16 \<Longrightarrow> hex_digit n \<noteq> NUL"
proof -
  assume n: "n < 16"
  have "of_char (hex_digit n) = (if n < 10 then 48 + n else 55 + n)" using n by (simp add: hex_digit_def)
  then show ?thesis by (auto split: if_splits)
qed

lemma hex_row_text: "NUL \<notin> set (hex_row bs)"
proof -
  have "hex_digit (unat b div 16) \<noteq> NUL" "hex_digit (unat b mod 16) \<noteq> NUL" for b :: u8
    using unat_less_exp [of b] by (intro hex_digit_not_NUL; simp)+
  then show ?thesis by (fastforce simp: hex_row_def hex_text_def)
qed

text \<open>The array holds the row so far, then NULs.\<close>

definition row_buf :: "u8 list \<Rightarrow> string" where
  "row_buf bs = hex_row bs @ replicate (128 - 3 * length bs) NUL"

lemma row_buf_text: "length bs \<le> 16 \<Longrightarrow> c_text (row_buf bs) = Inr (hex_row bs)"
proof -
  assume "length bs \<le> 16"
  then have "row_buf bs = hex_row bs @ NUL # replicate (127 - 3 * length bs) NUL"
    by (simp add: row_buf_def Suc_diff_le flip: replicate_Suc)
  then show ?thesis using c_text_prefix [OF hex_row_text] by simp
qed

lemma row_buf_step:
  assumes "length bs < 16"
  shows "mem_store (row_buf bs) (3 * length bs) (hex_text b @ [NUL]) = Inr (row_buf (bs @ [b]))"
proof -
  have "125 - 3 * length bs = Suc (124 - 3 * length bs)" using assms by simp
  then have "row_buf (bs @ [b]) = hex_row bs @ (hex_text b @ [NUL]) @ replicate (124 - 3 * length bs) NUL"
    by (simp add: row_buf_def hex_row_def [of "[b]"])
  moreover have "128 - 3 * length bs = 4 + (124 - 3 * length bs)" using assms by simp
  then have "row_buf bs = hex_row bs @ replicate 4 NUL @ replicate (124 - 3 * length bs) NUL"
    by (simp only: row_buf_def replicate_add append_assoc)
  ultimately show ?thesis
    using mem_store_middle [of "hex_text b @ [NUL]" "replicate 4 NUL" "hex_row bs"] by (simp add: hex_text_def)
qed

text \<open>The rows of 16 bytes, and the bytes behind the last full row.\<close>

fun full_rows :: "nat \<Rightarrow> u8 list \<Rightarrow> string list" where
  "full_rows 0 d = []"
| "full_rows (Suc n) d = hex_row (take 16 d) # full_rows n (drop 16 d)"

lemma dump_loop_rows:
  "i + k \<le> length d \<Longrightarrow> length bs = i mod 16 \<Longrightarrow> xs = bs @ take k (drop i d) \<Longrightarrow>
   dump_loop k i d (row_buf bs) out =
     Inr (row_buf (drop (16 * (length xs div 16)) xs), out @ full_rows (length xs div 16) xs)"
proof (induction k arbitrary: i bs out xs)
  case 0
  then have "length bs < 16" by simp
  with 0 show ?case by simp
next
  case (Suc k)
  let ?b = "bs @ [d ! i]"
  have xs: "xs = ?b @ take k (drop (i + 1) d)"
    using Suc.prems by (simp add: take_Suc_conv_app_nth Cons_nth_drop_Suc [symmetric])
  have st: "mem_store (row_buf bs) (i mod 16 * 3) (hex_text (d ! i) @ [NUL]) = Inr (row_buf ?b)"
    using row_buf_step [of bs "d ! i"] Suc.prems(2) by (simp add: mult.commute)
  show ?case
  proof (cases "(i + 1) mod 16 = 0")
    case True
    then have "i mod 16 = 15" by presburger
    then have l16: "length ?b = 16" using Suc.prems(2) by simp
    let ?ys = "take k (drop (i + 1) d)"
    have tx: "c_text (row_buf ?b) = Inr (hex_row ?b)" by (rule row_buf_text) (simp only: l16 order_refl)
    have "length xs = 16 + length ?ys" using l16 by (simp add: xs)
    then have n: "length xs div 16 = Suc (length ?ys div 16)" by (simp del: length_take)
    have dr: "drop (16 * Suc m) xs = drop (16 * m) ?ys" for m unfolding xs using l16 by simp
    have "dump_loop k (i + 1) d (row_buf []) (out @ [hex_row ?b]) =
        Inr (row_buf (drop (16 * (length ?ys div 16)) ?ys), (out @ [hex_row ?b]) @ full_rows (length ?ys div 16) ?ys)"
      by (rule Suc.IH) (use Suc.prems True in auto)
    moreover have "take 16 xs = ?b" "drop 16 xs = ?ys" using l16 by (simp_all add: xs)
    then have "full_rows (length xs div 16) xs = hex_row ?b # full_rows (length ?ys div 16) ?ys"
      unfolding n full_rows.simps by (simp only:)
    moreover have "row_buf [] = replicate 128 NUL" by (simp add: row_buf_def)
    ultimately show ?thesis using Suc.prems(1) st tx True n dr by simp
  next
    case False
    have "dump_loop k (i + 1) d (row_buf ?b) out =
        Inr (row_buf (drop (16 * (length xs div 16)) xs), out @ full_rows (length xs div 16) xs)"
      by (rule Suc.IH [OF _ _ xs]) (use Suc.prems False in \<open>auto simp: mod_Suc\<close>)
    with Suc.prems(1) st False show ?thesis by simp
  qed
qed

text \<open>What hex_dump logs of len bytes: the header, one line of two hexadecimal digits per byte for each full row of
  16, and then, as a last line, the bytes behind the last full row, also where there are none. Where there are
  15 of them the test of the last line is wrong, and they are never logged. Its array is never overrun.\<close>

theorem hex_dump_lines:
  "hex_dump info (Some d) (length d) =
     Inr ((''['' @ info @ '' length='' @ dec_nat (length d) @ '']:'') # full_rows (length d div 16) d
       @ (if length d mod 16 = 15 then [] else [hex_row (drop (16 * (length d div 16)) d)]))"
proof -
  let ?h = "''['' @ info @ '' length='' @ dec_nat (length d) @ '']:''" and ?r = "drop (16 * (length d div 16)) d"
  have "row_buf [] = replicate 128 NUL" by (simp add: row_buf_def)
  then have "dump_loop (length d) 0 d (replicate 128 NUL) [?h] = Inr (row_buf ?r, [?h] @ full_rows (length d div 16) d)"
    using dump_loop_rows [of 0 "length d" d "[]" d "[?h]"] by simp
  moreover have "length ?r = length d mod 16" by (simp add: minus_mult_div_eq_mod)
  then have "c_text (row_buf ?r) = Inr (hex_row ?r)" by (intro row_buf_text) simp
  moreover have "(length d + 1) mod 16 \<noteq> 0 \<longleftrightarrow> length d mod 16 \<noteq> 15" by presburger
  ultimately show ?thesis by (simp add: hex_dump_def)
qed

end
