(* ===== verification/Shared_Objects.thy ===== *)
theory Shared_Objects
  imports Locks "HOL-Library.Multiset"
begin

text \<open>
  Threads that share an object which has a readers-writer lock in it, and that call its operations the
  way src/unit_test/vector_ut.c does: lock, operate, unlock. An operation is not indivisible: it reads the
  object when it starts and writes it when it ends, and the steps of the threads interleave. The lock
  makes the calls serializable: they answer, and leave the object, as if they had been made one after
  the other.
\<close>

section \<open>Threads\<close>

text \<open>A thread before the lock, behind it, in the operation with what it read, behind the operation.\<close>

datatype 'a phase = Idle | Locked | Running 'a | Finished

record ('c, 'r, 'a) thread =
  todo :: "'c list"
  phase :: "'a phase"
  answers :: "'r list"

text \<open>\<open>calls\<close>, which no step reads, is the history: who called what in the order of the ends, with the answers.\<close>

record ('c, 'r, 'a) shared =
  obj :: 'a
  threads :: "('c, 'r, 'a) thread list"
  calls :: "(nat \<times> 'c \<times> 'r) list"

text \<open>
  \<open>exec\<close> is an operation, \<open>writes\<close> tells those called under the write lock, \<open>lk\<close> and \<open>put\<close> are
  reading and writing the lock in the object. An operation does not write the lock.
\<close>

inductive rw_step :: "('c \<Rightarrow> 'a \<Rightarrow> fault + 'r \<times> 'a) \<Rightarrow> ('c \<Rightarrow> bool) \<Rightarrow> ('a \<Rightarrow> rwl) \<Rightarrow> (rwl \<Rightarrow> 'a \<Rightarrow> 'a)
    \<Rightarrow> ('c, 'r, 'a) shared \<Rightarrow> ('c, 'r, 'a) shared \<Rightarrow> bool" for exec writes lk put where
  acquire: "i < length (threads s) \<Longrightarrow> threads s ! i = th \<Longrightarrow> phase th = Idle \<Longrightarrow> todo th = c # cs \<Longrightarrow>
     \<not> rw_waits i (writes c) (lk (obj s)) \<Longrightarrow>
     l = (if writes c then wrlock_getwr (pthread_rw i) (lk (obj s)) else wrlock_getrd (pthread_rw i) (lk (obj s))) \<Longrightarrow>
     rw_step exec writes lk put s (s\<lparr>obj := put l (obj s), threads := (threads s)[i := th\<lparr>phase := Locked\<rparr>]\<rparr>)"
| start: "i < length (threads s) \<Longrightarrow> threads s ! i = th \<Longrightarrow> phase th = Locked \<Longrightarrow>
     rw_step exec writes lk put s (s\<lparr>threads := (threads s)[i := th\<lparr>phase := Running (obj s)\<rparr>]\<rparr>)"
| finish: "i < length (threads s) \<Longrightarrow> threads s ! i = th \<Longrightarrow> phase th = Running b \<Longrightarrow> todo th = c # cs \<Longrightarrow>
     exec c b = Inr (r, b') \<Longrightarrow> a = (if writes c then put (lk (obj s)) b' else obj s) \<Longrightarrow>
     rw_step exec writes lk put s
       (s\<lparr>obj := a, threads := (threads s)[i := th\<lparr>phase := Finished, answers := answers th @ [r]\<rparr>],
          calls := calls s @ [(i, c, r)]\<rparr>)"
| release: "i < length (threads s) \<Longrightarrow> threads s ! i = th \<Longrightarrow> phase th = Finished \<Longrightarrow> todo th = c # cs \<Longrightarrow>
     l = wrlock_unlock (pthread_rw i) (lk (obj s)) \<Longrightarrow>
     rw_step exec writes lk put s
       (s\<lparr>obj := put l (obj s), threads := (threads s)[i := th\<lparr>phase := Idle, todo := cs\<rparr>]\<rparr>)"

definition rw_init_state :: "'a \<Rightarrow> 'c list list \<Rightarrow> ('c, 'r, 'a) shared" where
  "rw_init_state a progs = \<lparr>obj = a, threads = map (\<lambda>p. \<lparr>todo = p, phase = Idle, answers = []\<rparr>) progs, calls = []\<rparr>"

inductive rw_reach :: "('c \<Rightarrow> 'a \<Rightarrow> fault + 'r \<times> 'a) \<Rightarrow> ('c \<Rightarrow> bool) \<Rightarrow> ('a \<Rightarrow> rwl) \<Rightarrow> (rwl \<Rightarrow> 'a \<Rightarrow> 'a)
    \<Rightarrow> 'a \<Rightarrow> 'c list list \<Rightarrow> ('c, 'r, 'a) shared \<Rightarrow> bool" for exec writes lk put a progs where
  initial: "rw_reach exec writes lk put a progs (rw_init_state a progs)"
| step: "rw_reach exec writes lk put a progs s \<Longrightarrow> rw_step exec writes lk put s s' \<Longrightarrow>
     rw_reach exec writes lk put a progs s'"

text \<open>The step of a chosen thread, where it has one, and the run under a schedule.\<close>

definition rw_next :: "('c \<Rightarrow> 'a \<Rightarrow> fault + 'r \<times> 'a) \<Rightarrow> ('c \<Rightarrow> bool) \<Rightarrow> ('a \<Rightarrow> rwl) \<Rightarrow> (rwl \<Rightarrow> 'a \<Rightarrow> 'a)
    \<Rightarrow> nat \<Rightarrow> ('c, 'r, 'a) shared \<Rightarrow> ('c, 'r, 'a) shared option" where
  "rw_next exec writes lk put i s =
     (if i < length (threads s)
      then let th = threads s ! i; P = pthread_rw i; a = obj s in
        case todo th of [] \<Rightarrow> None
        | c # cs \<Rightarrow>
            (case phase th of
               Idle \<Rightarrow> if rw_waits i (writes c) (lk a) then None
                 else Some (s\<lparr>obj := put (if writes c then wrlock_getwr P (lk a) else wrlock_getrd P (lk a)) a,
                              threads := (threads s)[i := th\<lparr>phase := Locked\<rparr>]\<rparr>)
             | Locked \<Rightarrow> Some (s\<lparr>threads := (threads s)[i := th\<lparr>phase := Running a\<rparr>]\<rparr>)
             | Running b \<Rightarrow>
                 (case exec c b of Inl e \<Rightarrow> None
                  | Inr (r, b') \<Rightarrow>
                      Some (s\<lparr>obj := if writes c then put (lk a) b' else a,
                              threads := (threads s)[i := th\<lparr>phase := Finished, answers := answers th @ [r]\<rparr>],
                              calls := calls s @ [(i, c, r)]\<rparr>))
             | Finished \<Rightarrow> Some (s\<lparr>obj := put (wrlock_unlock P (lk a)) a,
                                   threads := (threads s)[i := th\<lparr>phase := Idle, todo := cs\<rparr>]\<rparr>))
      else None)"

fun rw_run where
  "rw_run exec writes lk put [] s = Some s"
| "rw_run exec writes lk put (i # is) s =
     (case rw_next exec writes lk put i s of None \<Rightarrow> None | Some s \<Rightarrow> rw_run exec writes lk put is s)"

lemma rw_next_step:
  assumes n: "rw_next exec writes lk put i s = Some s'"
  shows "rw_step exec writes lk put s s'"
proof -
  let ?th = "threads s ! i"
  have i: "i < length (threads s)" using n by (auto simp: rw_next_def split: if_splits)
  obtain c cs where c: "todo ?th = c # cs" using n i by (cases "todo ?th") (simp_all add: rw_next_def)
  show ?thesis
  proof (cases "phase ?th")
    case Idle
    have w: "\<not> rw_waits i (writes c) (lk (obj s))" using n i c Idle by (auto simp: rw_next_def Let_def)
    show ?thesis using rw_step.acquire [where writes = writes and lk = lk and exec = exec and put = put, OF i refl Idle c w refl] n i c Idle w by (simp add: rw_next_def Let_def)
  next
    case Locked
    show ?thesis using rw_step.start [OF i refl Locked, of exec writes lk put] n i c Locked by (simp add: rw_next_def Let_def)
  next
    case (Running b)
    obtain r b' where r: "exec c b = Inr (r, b')"
      using n i c Running by (cases "exec c b") (auto simp: rw_next_def Let_def)
    show ?thesis
      using rw_step.finish [where writes = writes and lk = lk and exec = exec and put = put, OF i refl Running c r refl] n i c Running r by (simp add: rw_next_def Let_def)
  next
    case Finished
    show ?thesis using rw_step.release [OF i refl Finished c refl, of exec writes lk put] n i c Finished
      by (simp add: rw_next_def Let_def)
  qed
qed

lemma rw_run_reach:
  "rw_reach exec writes lk put a progs s \<Longrightarrow> rw_run exec writes lk put is s = Some s' \<Longrightarrow>
   rw_reach exec writes lk put a progs s'"
proof (induction "is" arbitrary: s)
  case (Cons i "is")
  then obtain u where "rw_next exec writes lk put i s = Some u" "rw_run exec writes lk put is u = Some s'"
    by (auto split: option.splits)
  with Cons show ?case using rw_reach.step [OF Cons.prems(1) rw_next_step] by blast
qed simp

text \<open>One call after the other, each with the answer it had.\<close>

fun replays :: "('c \<Rightarrow> 'a \<Rightarrow> fault + 'r \<times> 'a) \<Rightarrow> 'a \<Rightarrow> (nat \<times> 'c \<times> 'r) list \<Rightarrow> 'a \<Rightarrow> bool" where
  "replays exec a [] b \<longleftrightarrow> b = a"
| "replays exec a ((i, c, r) # es) b \<longleftrightarrow> (\<exists>a'. exec c a = Inr (r, a') \<and> replays exec a' es b)"

lemma replays_snoc:
  "replays exec a (es @ [(i, c, r)]) b \<longleftrightarrow> (\<exists>a'. replays exec a es a' \<and> exec c a' = Inr (r, b))"
  by (induction exec a es b rule: replays.induct) auto

definition inside :: "('c, 'r, 'a) thread \<Rightarrow> bool" where
  "inside th \<longleftrightarrow> phase th \<noteq> Idle"

text \<open>The calls a thread has not ended.\<close>

definition rest :: "('c, 'r, 'a) thread \<Rightarrow> 'c list" where
  "rest th = (if phase th = Finished then tl (todo th) else todo th)"

definition calls_of :: "nat \<Rightarrow> (nat \<times> 'c \<times> 'r) list \<Rightarrow> ('c \<times> 'r) list" where
  "calls_of i es = map snd (filter (\<lambda>e. fst e = i) es)"

lemma calls_of_snoc [simp]:
  "calls_of i (es @ [(j, x)]) = (if j = i then calls_of i es @ [x] else calls_of i es)" "calls_of i [] = []"
  by (simp_all add: calls_of_def)

text \<open>All calls, as the calls of all threads.\<close>

lemma mset_calls_of:
  "\<forall>e\<in>set es. fst e < n \<Longrightarrow> mset (map (fst \<circ> snd) es) = (\<Sum>i<n. mset (map fst (calls_of i es)))"
proof (induction es)
  case (Cons e es)
  obtain j c r where e: "e = (j, c, r)" by (cases e)
  have j: "j < n" using Cons.prems e by simp
  have "(\<Sum>i<n. mset (map fst (calls_of i (e # es)))) = (\<Sum>i<n. (if i = j then {#c#} else {#}) + mset (map fst (calls_of i es)))"
    by (rule sum.cong) (auto simp: calls_of_def e)
  also have "\<dots> = {#c#} + (\<Sum>i<n. mset (map fst (calls_of i es)))" using j by (simp add: sum.distrib)
  also have "\<dots> = {#c#} + mset (map (fst \<circ> snd) es)" using Cons by (simp add: comp_def)
  finally show ?case by (simp add: e comp_def)
qed (simp add: calls_of_def)

lemma mset_concat_nth: "mset (concat xss) = (\<Sum>i<length xss. mset (xss ! i))"
  by (simp add: mset_concat sum_list_sum_nth atLeast0LessThan)

section \<open>The contract of an object, and what the lock gives\<close>

definition lock_ok :: "nat \<Rightarrow> rwl \<Rightarrow> bool" where
  "lock_ok n l \<longleftrightarrow> distinct (rd_owners l) \<and> (wr_owner l = None \<or> rd_owners l = [])
     \<and> (\<forall>i. wr_owner l = Some i \<longrightarrow> i < n) \<and> set (rd_owners l) \<subseteq> {..<n}"

text \<open>The lock knows the threads inside, and what an operation in progress has read is still there.\<close>

definition thread_ok :: "('c \<Rightarrow> bool) \<Rightarrow> (rwl \<Rightarrow> 'a \<Rightarrow> 'a) \<Rightarrow> nat \<Rightarrow> rwl \<Rightarrow> 'a \<Rightarrow> ('c, 'r, 'a) thread \<Rightarrow> bool" where
  "thread_ok writes put i l a th \<longleftrightarrow> (inside th \<longrightarrow> todo th \<noteq> [])
     \<and> (wr_owner l = Some i \<longleftrightarrow> inside th \<and> writes (hd (todo th)))
     \<and> (i \<in> set (rd_owners l) \<longleftrightarrow> inside th \<and> \<not> writes (hd (todo th)))
     \<and> (\<forall>b. phase th = Running b \<longrightarrow> put l b = a)"

locale shared_object =
  fixes exec :: "'c \<Rightarrow> 'a \<Rightarrow> fault + 'r \<times> 'a" and writes :: "'c \<Rightarrow> bool"
    and lk :: "'a \<Rightarrow> rwl" and put :: "rwl \<Rightarrow> 'a \<Rightarrow> 'a"
  assumes lk_put: "lk (put l a) = l" and put_put: "put l (put k a) = put l a" and put_lk: "put (lk a) a = a"
    and exec_put: "exec c (put l a) = bindE (exec c a) (\<lambda>(r, b). Inr (r, put l b))"
    and reads_only: "\<not> writes c \<Longrightarrow> exec c a = Inr (r, b) \<Longrightarrow> b = a"
begin

abbreviation rw where "rw \<equiv> rw_step exec writes lk put"

definition rw_inv :: "'a \<Rightarrow> 'c list list \<Rightarrow> ('c, 'r, 'a) shared \<Rightarrow> bool" where
  "rw_inv a progs s \<longleftrightarrow> lock_ok (length progs) (lk (obj s)) \<and> length (threads s) = length progs
     \<and> (\<forall>i<length progs. thread_ok writes put i (lk (obj s)) (obj s) (threads s ! i))
     \<and> replays exec a (calls s) (put (lk a) (obj s)) \<and> (\<forall>e\<in>set (calls s). fst e < length progs)
     \<and> (\<forall>i<length progs. map fst (calls_of i (calls s)) @ rest (threads s ! i) = progs ! i
          \<and> map snd (calls_of i (calls s)) = answers (threads s ! i))"

lemma rw_inv_init: "lk a = rwl_free \<Longrightarrow> rw_inv a progs (rw_init_state a progs)"
  using put_lk [of a]
  by (auto simp: rw_inv_def rw_init_state_def lock_ok_def thread_ok_def rwl_free_def inside_def rest_def calls_of_def)

lemma same_object: "put l b = a \<Longrightarrow> lk a = l \<Longrightarrow> put k b = put k a"
  using put_put by metis

text \<open>A thread that gets or gives back the lock leaves the others as they were.\<close>

lemma other_acquires:
  assumes "thread_ok writes put j l a th" "lock_ok n l" "lk a = l" "\<not> rw_waits i w l" "j \<noteq> i" "wr_owner l \<noteq> Some i"
  shows "thread_ok writes put j (if w then l\<lparr>wr_owner := Some i\<rparr> else l\<lparr>rd_owners := i # rd_owners l\<rparr>)
    (put (if w then l\<lparr>wr_owner := Some i\<rparr> else l\<lparr>rd_owners := i # rd_owners l\<rparr>) a) th"
  using assms same_object [of l _ a] by (auto simp: thread_ok_def rw_waits_def)

lemma other_releases:
  assumes "thread_ok writes put j l a th" "lock_ok n l" "lk a = l" "j \<noteq> i"
  shows "thread_ok writes put j (wrlock_unlock (pthread_rw i) l) (put (wrlock_unlock (pthread_rw i) l) a) th"
  using assms same_object [of l _ a] by (auto simp: thread_ok_def lock_ok_def)

text \<open>A writer that writes is alone.\<close>

lemma writer_alone:
  assumes "thread_ok writes put i l a th" "inside th" "writes (hd (todo th))" "thread_ok writes put j l a th'"
    "lock_ok n l" "j \<noteq> i"
  shows "\<not> inside th'"
  using assms by (auto simp: thread_ok_def lock_ok_def)

text \<open>What an operation that ends does is what it does on the object as it is.\<close>

lemma exec_now:
  assumes "exec c b = Inr (r, b')" "put (lk a) b = a"
  shows "exec c a = Inr (r, put (lk a) b')"
  using exec_put [of c "lk a" b] assms by simp

lemma replay_now:
  assumes "replays exec a0 es (put (lk a0) a)" "exec c a = Inr (r, a')"
  shows "replays exec a0 (es @ [(i, c, r)]) (put (lk a0) a')"
  using assms exec_put [of c "lk a0" a] by (auto simp: replays_snoc)

lemma rw_inv_update:
  assumes inv: "rw_inv a progs s" and i: "i < length progs"
    and l: "lock_ok (length progs) (lk o')" and th: "thread_ok writes put i (lk o') o' th'"
    and others: "\<And>j. j < length progs \<Longrightarrow> j \<noteq> i \<Longrightarrow> thread_ok writes put j (lk o') o' (threads s ! j)"
    and es: "replays exec a es' (put (lk a) o')" "es' = calls s \<or> (\<exists>c r. es' = calls s @ [(i, c, r)])"
    and ord: "map fst (calls_of i es') @ rest th' = progs ! i" "map snd (calls_of i es') = answers th'"
  shows "rw_inv a progs \<lparr>obj = o', threads = (threads s)[i := th'], calls = es'\<rparr>"
proof -
  have n: "length (threads s) = length progs" using inv by (simp add: rw_inv_def)
  have es': "\<forall>e\<in>set es'. fst e < length progs" using inv i es(2) by (auto simp: rw_inv_def)
  have "calls_of j es' = calls_of j (calls s)" if "j \<noteq> i" for j using es(2) that by auto
  moreover have "thread_ok writes put j (lk o') o' ((threads s)[i := th'] ! j)" if "j < length progs" for j
    using that n th others by (cases "j = i") simp_all
  moreover have "map fst (calls_of j es') @ rest ((threads s)[i := th'] ! j) = progs ! j
      \<and> map snd (calls_of j es') = answers ((threads s)[i := th'] ! j)" if "j < length progs" for j
    using that n inv ord \<open>\<And>j. j \<noteq> i \<Longrightarrow> calls_of j es' = calls_of j (calls s)\<close>
    by (cases "j = i") (simp_all add: rw_inv_def)
  ultimately show ?thesis
    using n l es(1) es' by (simp add: rw_inv_def)
qed

lemma rw_invD:
  assumes "rw_inv a progs s" "i < length (threads s)" "threads s ! i = th"
  shows "i < length progs" "lock_ok (length progs) (lk (obj s))" "thread_ok writes put i (lk (obj s)) (obj s) th"
    "\<And>j. j < length progs \<Longrightarrow> thread_ok writes put j (lk (obj s)) (obj s) (threads s ! j)"
    "replays exec a (calls s) (put (lk a) (obj s))"
    "map fst (calls_of i (calls s)) @ rest th = progs ! i" "map snd (calls_of i (calls s)) = answers th"
  using assms by (auto simp: rw_inv_def)

lemma shared_eta: "s\<lparr>obj := o', threads := ts\<rparr> = \<lparr>obj = o', threads = ts, calls = calls s\<rparr>"
    "s\<lparr>threads := ts\<rparr> = \<lparr>obj = obj s, threads = ts, calls = calls s\<rparr>"
    "s\<lparr>obj := o', threads := ts, calls := es\<rparr> = \<lparr>obj = o', threads = ts, calls = es\<rparr>"
  by simp_all

text \<open>The invariant over each kind of step.\<close>

lemma rw_inv_acquire:
  assumes inv: "rw_inv a progs s"
    and step: "i < length (threads s)" "threads s ! i = th" "phase th = Idle" "todo th = c # cs"
      "\<not> rw_waits i (writes c) (lk (obj s))"
      "l = (if writes c then wrlock_getwr (pthread_rw i) (lk (obj s)) else wrlock_getrd (pthread_rw i) (lk (obj s)))"
  shows "rw_inv a progs (s\<lparr>obj := put l (obj s), threads := (threads s)[i := th\<lparr>phase := Locked\<rparr>]\<rparr>)"
proof -
  note D = rw_invD [OF inv step(1,2)]
  let ?l = "lk (obj s)" and ?w = "writes c"
  have own: "wr_owner ?l \<noteq> Some i" using D(3) step(3) by (simp add: thread_ok_def inside_def)
  have l: "l = (if ?w then ?l\<lparr>wr_owner := Some i\<rparr> else ?l\<lparr>rd_owners := i # rd_owners ?l\<rparr>)"
    using step(6) own by simp
  have none: "wr_owner ?l = None" "?w \<longrightarrow> rd_owners ?l = []" using step(5) own by (auto simp: rw_waits_def)
  have "i \<notin> set (rd_owners ?l)" using D(3) step(3) by (simp add: thread_ok_def inside_def)
  then have ok: "lock_ok (length progs) l" using D(1,2) none by (auto simp: l lock_ok_def)
  show ?thesis
    unfolding shared_eta(1)
  proof (rule rw_inv_update [OF inv D(1)], unfold lk_put put_put)
    show "thread_ok writes put i l (put l (obj s)) (th\<lparr>phase := Locked\<rparr>)"
      using step(4) none own D(3) step(3) by (auto simp: thread_ok_def inside_def l)
    show "thread_ok writes put j l (put l (obj s)) (threads s ! j)" if "j < length progs" "j \<noteq> i" for j
      unfolding l by (rule other_acquires [OF D(4) [OF that(1)] D(2) refl step(5) that(2) own])
    show "map fst (calls_of i (calls s)) @ rest (th\<lparr>phase := Locked\<rparr>) = progs ! i"
      using D(6) step(3) by (simp add: rest_def)
  qed (use ok D in simp_all)
qed

lemma rw_inv_start:
  assumes inv: "rw_inv a progs s"
    and step: "i < length (threads s)" "threads s ! i = th" "phase th = Locked"
  shows "rw_inv a progs (s\<lparr>threads := (threads s)[i := th\<lparr>phase := Running (obj s)\<rparr>]\<rparr>)"
proof -
  note D = rw_invD [OF inv step(1,2)]
  show ?thesis
    unfolding shared_eta(2)
  proof (rule rw_inv_update [OF inv D(1)])
    show "thread_ok writes put i (lk (obj s)) (obj s) (th\<lparr>phase := Running (obj s)\<rparr>)"
      using D(3) step(3) put_lk by (auto simp: thread_ok_def inside_def)
    show "map fst (calls_of i (calls s)) @ rest (th\<lparr>phase := Running (obj s)\<rparr>) = progs ! i"
      using D(6) step(3) by (simp add: rest_def)
  qed (use D in simp_all)
qed

lemma rw_inv_finish:
  assumes inv: "rw_inv a progs s"
    and step: "i < length (threads s)" "threads s ! i = th" "phase th = Running b" "todo th = c # cs"
      "exec c b = Inr (r, b')" "o' = (if writes c then put (lk (obj s)) b' else obj s)"
  shows "rw_inv a progs (s\<lparr>obj := o',
      threads := (threads s)[i := th\<lparr>phase := Finished, answers := answers th @ [r]\<rparr>], calls := calls s @ [(i, c, r)]\<rparr>)"
proof -
  note D = rw_invD [OF inv step(1,2)]
  have b: "put (lk (obj s)) b = obj s" using D(3) step(3) by (simp add: thread_ok_def)
  note now = exec_now [OF step(5) b]
  have o': "o' = put (lk (obj s)) b'"
    using step(6) reads_only [OF _ now] by (auto split: if_splits)
  have lk: "lk o' = lk (obj s)" by (simp add: o' lk_put)
  have th: "inside th" "hd (todo th) = c" using step(3,4) by (simp_all add: inside_def)
  have others: "thread_ok writes put j (lk o') o' (threads s ! j)" if j: "j < length progs" "j \<noteq> i" for j
  proof (cases "writes c")
    case True
    have "\<not> inside (threads s ! j)" by (rule writer_alone [OF D(3) th(1) _ D(4) [OF j(1)] D(2) j(2)]) (simp add: th True)
    then show ?thesis using D(4) [OF j(1)] by (auto simp: thread_ok_def inside_def lk)
  next
    case False
    then show ?thesis using D(4) [OF j(1)] step(6) by simp
  qed
  show ?thesis
    unfolding shared_eta(3)
  proof (rule rw_inv_update [OF inv D(1) _ _ others])
    show "replays exec a (calls s @ [(i, c, r)]) (put (lk a) o')"
      using replay_now [OF D(5) now] by (simp add: o')
    show "map fst (calls_of i (calls s @ [(i, c, r)])) @ rest (th\<lparr>phase := Finished, answers := answers th @ [r]\<rparr>) = progs ! i"
      using D(6) step(3,4) by (simp add: rest_def)
    show "thread_ok writes put i (lk o') o' (th\<lparr>phase := Finished, answers := answers th @ [r]\<rparr>)"
      using D(3) th step(4) by (auto simp: thread_ok_def inside_def lk)
  qed (use D in \<open>auto simp: lk\<close>)
qed

lemma rw_inv_release:
  assumes inv: "rw_inv a progs s"
    and step: "i < length (threads s)" "threads s ! i = th" "phase th = Finished" "todo th = c # cs"
      "l = wrlock_unlock (pthread_rw i) (lk (obj s))"
  shows "rw_inv a progs (s\<lparr>obj := put l (obj s), threads := (threads s)[i := th\<lparr>phase := Idle, todo := cs\<rparr>]\<rparr>)"
proof -
  note D = rw_invD [OF inv step(1,2)]
  have th: "inside th" "hd (todo th) = c" using step(3,4) by (simp_all add: inside_def)
  have ok: "lock_ok (length progs) l" using D(2) by (auto simp: step(5) lock_ok_def dest: notin_set_remove1)
  show ?thesis
    unfolding shared_eta(1)
  proof (rule rw_inv_update [OF inv D(1)], unfold lk_put put_put)
    show "thread_ok writes put j l (put l (obj s)) (threads s ! j)" if "j < length progs" "j \<noteq> i" for j
      unfolding step(5) by (rule other_releases [OF D(4) [OF that(1)] D(2) refl that(2)])
    show "thread_ok writes put i l (put l (obj s)) (th\<lparr>phase := Idle, todo := cs\<rparr>)"
      using D(2,3) th by (auto simp: thread_ok_def lock_ok_def inside_def step(5))
    show "map fst (calls_of i (calls s)) @ rest (th\<lparr>phase := Idle, todo := cs\<rparr>) = progs ! i"
      using D(6) step(3,4) by (simp add: rest_def)
  qed (use ok D in simp_all)
qed

lemma rw_inv_step:
  assumes "rw s s'" "rw_inv a progs s"
  shows "rw_inv a progs s'"
  using assms(1)
proof (cases rule: rw_step.cases)
  case acquire
  then show ?thesis using rw_inv_acquire [OF assms(2)] by metis
next
  case start
  then show ?thesis using rw_inv_start [OF assms(2)] by metis
next
  case finish
  then show ?thesis using rw_inv_finish [OF assms(2)] by metis
next
  case release
  then show ?thesis using rw_inv_release [OF assms(2)] by metis
qed

lemma rw_reach_inv: "rw_reach exec writes lk put a progs s \<Longrightarrow> lk a = rwl_free \<Longrightarrow> rw_inv a progs s"
  by (induction rule: rw_reach.induct) (auto intro: rw_inv_init rw_inv_step)

text \<open>A writer has the object for itself.\<close>

lemma writer_excludes:
  assumes "rw_inv a progs s" "i < length progs" "j < length progs" "inside (threads s ! i)" "inside (threads s ! j)" "i \<noteq> j"
  shows "\<not> writes (hd (todo (threads s ! i)))"
proof
  assume w: "writes (hd (todo (threads s ! i)))"
  have "thread_ok writes put i (lk (obj s)) (obj s) (threads s ! i)" "thread_ok writes put j (lk (obj s)) (obj s) (threads s ! j)"
    "lock_ok (length progs) (lk (obj s))" using assms(1-3) by (auto simp: rw_inv_def)
  then show False using writer_alone [OF _ assms(4) w] assms(5,6) by blast
qed

text \<open>A thread behind the lock can go on, unless its operation faults on the object as it is.\<close>

lemma inside_steps:
  assumes inv: "rw_inv a progs s" and i: "i < length progs" and in_s: "inside (threads s ! i)"
  shows "(\<exists>s'. rw s s') \<or> (\<exists>e. exec (hd (rest (threads s ! i))) (obj s) = Inl e \<and> rest (threads s ! i) \<noteq> [])"
proof -
  have n: "i < length (threads s)" using inv i by (simp add: rw_inv_def)
  obtain th where th: "threads s ! i = th" by simp
  note D = rw_invD [OF inv n th]
  obtain c cs where c: "todo th = c # cs" using D(3) in_s th by (cases "todo th") (auto simp: thread_ok_def)
  show ?thesis
  proof (cases "phase th")
    case Idle
    then show ?thesis using in_s th by (simp add: inside_def)
  next
    case Locked
    then show ?thesis using rw_step.start [OF n th] by blast
  next
    case (Running b)
    have b: "put (lk (obj s)) b = obj s" using D(3) Running by (simp add: thread_ok_def)
    show ?thesis
    proof (cases "exec c b")
      case (Inl e)
      then have "exec c (obj s) = Inl e" using exec_put [of c "lk (obj s)" b] b by simp
      then show ?thesis using th c Running by (simp add: rest_def)
    next
      case (Inr x)
      then show ?thesis using rw_step.finish [OF n th Running c _ refl] by (cases x) blast
    qed
  next
    case Finished
    then show ?thesis using rw_step.release [OF n th _ c refl] by blast
  qed
qed

text \<open>No deadlock: as long as a call is left some thread can go on, or a call faults.\<close>

lemma rw_progress:
  assumes inv: "rw_inv a progs s" and i: "i < length progs" and more: "todo (threads s ! i) \<noteq> []"
  shows "(\<exists>s'. rw s s') \<or> (\<exists>e. \<exists>j<length progs. exec (hd (rest (threads s ! j))) (obj s) = Inl e \<and> rest (threads s ! j) \<noteq> [])"
proof (cases "\<exists>j<length progs. inside (threads s ! j)")
  case True
  then show ?thesis using inside_steps [OF inv] by blast
next
  case False
  have n: "i < length (threads s)" using inv i by (simp add: rw_inv_def)
  note D = rw_invD [OF inv n refl]
  have "\<not> inside (threads s ! j)" if "j < length progs" for j using False that by blast
  then have "wr_owner (lk (obj s)) \<noteq> Some j" "j \<notin> set (rd_owners (lk (obj s)))" if "j < length progs" for j
    using D(4) [OF that] that by (auto simp: thread_ok_def)
  then have "wr_owner (lk (obj s)) = None" "rd_owners (lk (obj s)) = []"
    using D(2) by (cases "wr_owner (lk (obj s))"; cases "rd_owners (lk (obj s))"; auto simp: lock_ok_def)+
  moreover have "phase (threads s ! i) = Idle" using False i by (auto simp: inside_def)
  moreover obtain c cs where "todo (threads s ! i) = c # cs" using more by (cases "todo (threads s ! i)") auto
  ultimately show ?thesis using rw_step.acquire [OF n refl _ _ _ refl] by (fastforce simp: rw_waits_def)
qed

lemma rw_all_calls:
  assumes "rw_inv a progs s"
  shows "mset (map (fst \<circ> snd) (calls s)) + (\<Sum>i<length progs. mset (rest (threads s ! i))) = mset (concat progs)"
proof -
  have "mset (map (fst \<circ> snd) (calls s)) = (\<Sum>i<length progs. mset (map fst (calls_of i (calls s))))"
    using assms by (intro mset_calls_of) (simp add: rw_inv_def)
  then have "mset (map (fst \<circ> snd) (calls s)) + (\<Sum>i<length progs. mset (rest (threads s ! i)))
      = (\<Sum>i<length progs. mset (map fst (calls_of i (calls s)) @ rest (threads s ! i)))"
    by (simp add: sum.distrib)
  also have "\<dots> = (\<Sum>i<length progs. mset (progs ! i))"
    using assms by (intro sum.cong) (auto simp: rw_inv_def)
  finally show ?thesis by (simp add: mset_concat_nth)
qed

end

end
