(* ===== verification/Shared_Vector.thy ===== *)
theory Shared_Vector
  imports Vector Shared_Objects
begin

text \<open>
  A vector that several threads share, each call bracketed by the lock operations of the vector, as
  src/unit_test/vector_ut.c does it: additions and deletions under the write lock, the others under the read
  lock. A pointer that _get or _find_get answers is read before the unlock.
\<close>

section \<open>Calls\<close>

datatype vec_call = Call_Add (added: "u8 list") | Call_Del u32 | Call_Find "u8 list" | Call_Find_Get "u8 list"
  | Call_Get u32 | Call_Len

datatype vec_answer = Ret s32 | Pos u32 | Val "u8 list option"

fun vec_writes :: "vec_call \<Rightarrow> bool" where
  "vec_writes (Call_Add x) = True" | "vec_writes (Call_Del i) = True" | "vec_writes c = False"

fun vec_exec :: "zrealloc_fn \<Rightarrow> vec_call \<Rightarrow> 'lk vec_st \<Rightarrow> fault + vec_answer \<times> 'lk vec_st" where
  "vec_exec zr (Call_Add x) v = bindE (do_vec_add zr v x) (\<lambda>(r, v). Inr (Ret r, v))"
| "vec_exec zr (Call_Del i) v = bindE (do_vec_del v i) (\<lambda>(r, v). Inr (Ret r, v))"
| "vec_exec zr (Call_Find x) v = bindE (do_vec_find v x) (\<lambda>i. Inr (Pos i, v))"
| "vec_exec zr (Call_Find_Get x) v =
     bindE (do_vec_find_get v x) (\<lambda>p.
     case p of None \<Rightarrow> Inr (Val None, v) | Some p \<Rightarrow> bindE (vec_deref v p) (\<lambda>y. Inr (Val (Some y), v)))"
| "vec_exec zr (Call_Get i) v = bindE (do_vec_get v i) (\<lambda>p. bindE (vec_deref v p) (\<lambda>y. Inr (Val (Some y), v)))"
| "vec_exec zr Call_Len v = Inr (Pos (do_vec_get_len v), v)"

abbreviation set_rwlock :: "'lk \<Rightarrow> 'lk vec_st \<Rightarrow> 'lk vec_st" where
  "set_rwlock l v \<equiv> v\<lparr>rwlock := l\<rparr>"

abbreviation vec_reach where
  "vec_reach zr \<equiv> rw_reach (vec_exec zr) vec_writes rwlock set_rwlock"

abbreviation vec_step where
  "vec_step zr \<equiv> rw_step (vec_exec zr) vec_writes rwlock set_rwlock"

text \<open>The lock steps of the threads are the lock operations of the vector.\<close>

lemma vec_lock_steps:
  "set_rwlock (wrlock_getwr P (rwlock v)) v = do_write_lock P v"
  "set_rwlock (wrlock_getrd P (rwlock v)) v = do_read_lock P v"
  "set_rwlock (wrlock_unlock P (rwlock v)) v = do_wr_unlock P v"
  by (simp_all add: do_write_lock_def do_read_lock_def do_wr_unlock_def)

section \<open>The operations leave the lock alone\<close>

lemma vec_scan_lock: "vec_scan (set_rwlock l v) test val d idx = vec_scan v test val d idx"
proof (induction v test val d idx rule: vec_scan.induct)
  case (1 v test val d idx)
  have u: "vec_unit (set_rwlock l v) idx = vec_unit v idx" by (simp add: vec_unit_def)
  show ?case
    using 1 by (subst (1 2) vec_scan.simps, unfold u) (cases "vec_unit v idx"; simp)
qed

lemma set_rwlock_commute:
  "(set_rwlock l v)\<lparr>vdata := d\<rparr> = set_rwlock l (v\<lparr>vdata := d\<rparr>)" "(set_rwlock l v)\<lparr>used := n\<rparr> = set_rwlock l (v\<lparr>used := n\<rparr>)"
  by simp_all

lemma vec_ops_lock:
  "find_pos (set_rwlock l v) x = find_pos v x"
  "vec_resize zr (set_rwlock l v) = (case vec_resize zr v of (r, w) \<Rightarrow> (r, set_rwlock l w))"
  "vec_expand (set_rwlock l v) i n = bindE (vec_expand v i n) (\<lambda>w. Inr (set_rwlock l w))"
  "vec_reduce (set_rwlock l v) i n = bindE (vec_reduce v i n) (\<lambda>w. Inr (set_rwlock l w))"
  "vec_set_val (set_rwlock l v) i x n = bindE (vec_set_val v i x n) (\<lambda>w. Inr (set_rwlock l w))"
  "do_vec_find (set_rwlock l v) x = do_vec_find v x"
  by (simp_all add: find_pos_def ascend_find_pos_def descend_find_pos_def do_vec_find_def dichotomy_find_def
      vec_scan_lock vec_resize_def vec_expand_def vec_reduce_def vec_set_val_def Let_def bindE_assoc set_rwlock_commute)

lemma do_vec_add_lock:
  "do_vec_add zr (set_rwlock l v) x = bindE (do_vec_add zr v x) (\<lambda>(r, w). Inr (r, set_rwlock l w))"
proof -
  obtain r w where rw: "(if used v = vecLen v then vec_resize zr v else (SPG_OK, v)) = (r, w)" by fastforce
  then have "(if used v = vecLen v then vec_resize zr (set_rwlock l v) else (SPG_OK, set_rwlock l v)) = (r, set_rwlock l w)"
    by (auto simp: vec_ops_lock split: if_splits prod.splits)
  then show ?thesis
    using rw by (simp add: do_vec_add_def vec_ops_lock bindE_assoc set_rwlock_commute)
qed

lemma do_vec_get_lock:
  "do_vec_get (set_rwlock l v) i = do_vec_get v i" "vec_deref (set_rwlock l v) p = vec_deref v p"
  by (simp_all add: do_vec_get_def vec_deref_def)

lemma do_vec_find_get_lock: "do_vec_find_get (set_rwlock l v) x = do_vec_find_get v x"
  by (simp add: do_vec_find_get_def vec_ops_lock do_vec_get_lock cong: if_cong)

lemma do_vec_del_lock:
  "do_vec_del (set_rwlock l v) i = bindE (do_vec_del v i) (\<lambda>(r, w). Inr (r, set_rwlock l w))"
  by (simp add: do_vec_del_def vec_ops_lock bindE_assoc set_rwlock_commute)

lemma vec_exec_lock: "vec_exec zr c (set_rwlock l v) = bindE (vec_exec zr c v) (\<lambda>(r, w). Inr (r, set_rwlock l w))"
  by (cases c)
    (auto simp: do_vec_add_lock do_vec_del_lock do_vec_get_lock do_vec_find_get_lock vec_ops_lock do_vec_get_len_def bindE_assoc split_def
      intro!: bindE_cong split: option.splits)

lemma vec_view_lock: "elems (set_rwlock l v) = elems v" "vec_sorted (set_rwlock l v) = vec_sorted v"
proof -
  show e: "elems (set_rwlock l v) = elems v" by (cases "vdata v") (simp_all add: elems_def)
  show "vec_sorted (set_rwlock l v) = vec_sorted v" unfolding vec_sorted_def e by (simp cong: if_cong)
qed

interpretation shared_vector: shared_object "vec_exec zr" vec_writes rwlock set_rwlock for zr
proof unfold_locales
  fix c r and a b :: "rwl vec_st"
  assume "\<not> vec_writes c" "vec_exec zr c a = Inr (r, b)"
  then show "b = a" by (cases c) (auto simp: bindE_Inr_iff split: option.splits)
qed (simp_all add: vec_exec_lock)

section \<open>What the threads get\<close>

text \<open>C17. Threads that call a shared vector under its lock, in any interleaving of the steps of their calls: every
  answer so far, and the vector itself but for its lock, are those of the calls made one after the other in the
  order in which they ended; each thread's calls are in its own order; and no thread is inside while
  another is inside for writing.\<close>

theorem vec_threads_serial:
  assumes "rwlock v = rwl_free" and "vec_reach zr v progs s"
  shows "replays (vec_exec zr) v (calls s) (set_rwlock rwl_free (obj s))
    \<and> (\<forall>i<length progs. map fst (calls_of i (calls s)) @ rest (threads s ! i) = progs ! i
         \<and> map snd (calls_of i (calls s)) = answers (threads s ! i)
         \<and> (\<forall>j<length progs. i \<noteq> j \<and> inside (threads s ! i) \<and> inside (threads s ! j)
              \<longrightarrow> \<not> vec_writes (hd (todo (threads s ! i)))))"
proof -
  have inv: "shared_vector.rw_inv zr v progs s"
    by (rule shared_vector.rw_reach_inv [OF assms(2,1)])
  then show ?thesis
    using shared_vector.writer_excludes [OF inv] assms(1) by (simp add: shared_vector.rw_inv_def)
qed

lemma replays_adds:
  "replays (vec_exec zr) v es w \<Longrightarrow> map (fst \<circ> snd) es = map Call_Add xs \<Longrightarrow>
   do_vec_adds zr v (xs @ ys) = Inr (SPG_OK, v') \<Longrightarrow> do_vec_adds zr w ys = Inr (SPG_OK, v')"
proof (induction es arbitrary: v xs)
  case (Cons e es)
  obtain i c r where e: "e = (i, c, r)" by (cases e)
  obtain x xs' where x: "xs = x # xs'" "c = Call_Add x" "map (fst \<circ> snd) es = map Call_Add xs'"
    using Cons.prems(2) e by (cases xs) (auto simp: comp_def)
  obtain a where a: "vec_exec zr c v = Inr (r, a)" "replays (vec_exec zr) a es w" using Cons.prems(1) e by auto
  then obtain q where q: "do_vec_add zr v x = Inr (q, a)" using x by (auto simp: bindE_Inr_iff)
  then have "do_vec_adds zr a (xs' @ ys) = Inr (SPG_OK, v')"
    using Cons.prems(3) x by (auto simp: SPG_OK_def split: if_splits)
  then show ?case by (rule Cons.IH [OF a(2) x(3)])
qed simp

text \<open>
  What the finished calls have added, \<open>ys\<close>, and what the vector still takes: any values that are left to add.
\<close>

lemma vec_threads_left:
  assumes alloc: "allocator zm zr"
    and mem: "\<forall>b n. unat n = cap_after (unat (vecLen v)) * unat (unitSz v) \<longrightarrow> zr (Some b) n \<noteq> None"
    and cmp: "comparator D (vcmp v)" and v: "vec_phase v" "vec_sorted v" "rwlock v = rwl_free"
    and xs: "\<forall>x\<in>set (concat xss). length x = unat (unitSz v)" "set (elems v) \<union> set (concat xss) \<subseteq> D"
    and cap: "unat (used v) + length (concat xss) \<le> cap_after (unat (vecLen v))"
    and reach: "vec_reach zr v (map (map Call_Add) xss) s"
  obtains ys where "mset (map Call_Add ys) + (\<Sum>i<length xss. mset (rest (threads s ! i))) = image_mset Call_Add (mset (concat xss))"
    "\<And>zs. mset (map Call_Add zs) \<subseteq># (\<Sum>i<length xss. mset (rest (threads s ! i))) \<Longrightarrow>
       \<exists>v'. do_vec_adds zr (set_rwlock rwl_free (obj s)) zs = Inr (SPG_OK, v') \<and> vec_sorted v' \<and> mset (elems v') = mset (elems v) + mset (ys @ zs)"
proof -
  let ?n = "length xss" and ?w = "set_rwlock rwl_free (obj s)"
  have inv: "shared_vector.rw_inv zr v (map (map Call_Add) xss) s" by (rule shared_vector.rw_reach_inv [OF reach v(3)])
  have rp: "replays (vec_exec zr) v (calls s) ?w" and n: "length (threads s) = ?n"
    using inv v(3) by (simp_all add: shared_vector.rw_inv_def)
  have all: "mset (map (fst \<circ> snd) (calls s)) + (\<Sum>i<?n. mset (rest (threads s ! i))) = image_mset Call_Add (mset (concat xss))"
    using shared_vector.rw_all_calls [OF inv] unfolding map_concat [symmetric] length_map mset_map .
  have "\<forall>c\<in>set (map (fst \<circ> snd) (calls s)). \<exists>x. c = Call_Add x"
  proof
    fix c assume "c \<in> set (map (fst \<circ> snd) (calls s))"
    then have "c \<in># image_mset Call_Add (mset (concat xss))" unfolding all [symmetric] by simp
    then show "\<exists>x. c = Call_Add x" by auto
  qed
  then obtain ys where ys: "map (fst \<circ> snd) (calls s) = map Call_Add ys" unfolding ex_map_conv [symmetric] by (elim exE)
  have runs: "\<exists>v'. do_vec_adds zr ?w zs = Inr (SPG_OK, v') \<and> vec_sorted v' \<and> mset (elems v') = mset (elems v) + mset (ys @ zs)"
    if zs: "mset (ys @ zs) \<subseteq># mset (concat xss)" for zs
  proof -
    have sub: "length (ys @ zs) \<le> length (concat xss)" "set (ys @ zs) \<subseteq> set (concat xss)"
      using size_mset_mono [OF zs] set_mset_mono [OF zs] by simp_all
    have "\<forall>x\<in>set (ys @ zs). length x = unat (unitSz v)" using sub(2) xs(1) by blast
    moreover have "set (elems v) \<union> set (ys @ zs) \<subseteq> D" using sub(2) xs(2) by blast
    moreover have "unat (used v) + length (ys @ zs) \<le> cap_after (unat (vecLen v))" using sub(1) cap by linarith
    ultimately obtain v' where "do_vec_adds zr v (ys @ zs) = Inr (SPG_OK, v')" "vec_sorted v'"
        "mset (elems v') = mset (elems v) + mset (ys @ zs)"
      using vec_add_run [OF alloc mem cmp v(1,2), of "ys @ zs"] by blast
    then show ?thesis using replays_adds [OF rp ys] by blast
  qed
  have rest_adds: "mset (ys @ zs) \<subseteq># mset (concat xss)"
    if "mset (map Call_Add zs) \<subseteq># (\<Sum>i<?n. mset (rest (threads s ! i)))" for zs
  proof -
    have "mset (map Call_Add (ys @ zs)) \<subseteq># image_mset Call_Add (mset (concat xss))"
      using that unfolding all [symmetric] ys by simp
    from image_mset_subseteq_mono [OF this, of added] show ?thesis by (simp add: comp_def image_mset.compositionality)
  qed
  show thesis
  proof (rule that)
    show "mset (map Call_Add ys) + (\<Sum>i<?n. mset (rest (threads s ! i))) = image_mset Call_Add (mset (concat xss))"
      using all unfolding ys .
  qed (rule runs [OF rest_adds])
qed

text \<open>C5. Threads that add values of the unit size to a shared vector, sorted, well formed and unlocked, under its lock. The
  condition: the used units and all values to be added fit into the capacity after the one resize the vector does (cap_after),
  zrealloc has the memory for it and the callback is a comparator on the values; beyond that the code writes outside its block (vec_adds_overflow, C31), also with one thread.
  Within it no interleaving loses a value, none breaks the order, and none gets stuck: where every thread
  is done the vector holds its old values and those of all threads, sorted; before that some thread can go on.\<close>

theorem vec_threads_add:
  assumes alloc: "allocator zm zr"
    and mem: "\<forall>b n. unat n = cap_after (unat (vecLen v)) * unat (unitSz v) \<longrightarrow> zr (Some b) n \<noteq> None"
    and cmp: "comparator D (vcmp v)" and v: "vec_phase v" "vec_sorted v" "rwlock v = rwl_free"
    and xs: "\<forall>x\<in>set (concat xss). length x = unat (unitSz v)" "set (elems v) \<union> set (concat xss) \<subseteq> D"
    and cap: "unat (used v) + length (concat xss) \<le> cap_after (unat (vecLen v))"
    and reach: "vec_reach zr v (map (map Call_Add) xss) s"
  shows "if \<forall>th\<in>set (threads s). todo th = [] then vec_sorted (obj s) \<and> mset (elems (obj s)) = mset (elems v) + mset (concat xss)
    else \<exists>s'. vec_step zr s s'"
proof -
  let ?n = "length xss" and ?w = "set_rwlock rwl_free (obj s)"
  have inv: "shared_vector.rw_inv zr v (map (map Call_Add) xss) s" by (rule shared_vector.rw_reach_inv [OF reach v(3)])
  then have n: "length (threads s) = ?n" by (simp add: shared_vector.rw_inv_def)
  obtain ys where all: "mset (map Call_Add ys) + (\<Sum>i<?n. mset (rest (threads s ! i))) = image_mset Call_Add (mset (concat xss))"
    and runs: "\<And>zs. mset (map Call_Add zs) \<subseteq># (\<Sum>i<?n. mset (rest (threads s ! i))) \<Longrightarrow>
       \<exists>v'. do_vec_adds zr ?w zs = Inr (SPG_OK, v') \<and> vec_sorted v' \<and> mset (elems v') = mset (elems v) + mset (ys @ zs)"
    using vec_threads_left [OF assms] by metis
  show ?thesis
  proof (cases "\<forall>th\<in>set (threads s). todo th = []")
    case True
    then have "rest (threads s ! i) = []" if "i < ?n" for i using that n by (simp add: rest_def)
    then have "image_mset added (mset (map Call_Add ys)) = image_mset added (image_mset Call_Add (mset (concat xss)))"
      using all by simp
    then have "mset ys = mset (concat xss)" by (simp add: image_mset.compositionality comp_def)
    then show ?thesis using runs [of "[]"] True by (simp add: vec_view_lock)
  next
    case False
    then obtain i where i: "i < ?n" "todo (threads s ! i) \<noteq> []" using n by (auto simp: in_set_conv_nth)
    have "vec_exec zr (hd (rest (threads s ! j))) (obj s) \<noteq> Inl e" if j: "j < ?n" "rest (threads s ! j) \<noteq> []" for e j
    proof -
      let ?c = "hd (rest (threads s ! j))"
      have "?c \<in># (\<Sum>i<?n. mset (rest (threads s ! i)))" using j by (auto simp: set_mset_sum intro!: bexI [of _ j])
      moreover from this have "?c \<in># image_mset Call_Add (mset (concat xss))" unfolding all [symmetric] by simp
      then obtain x where x: "?c = Call_Add x" by auto
      ultimately have "mset (map Call_Add [x]) \<subseteq># (\<Sum>i<?n. mset (rest (threads s ! i)))" by simp
      from runs [OF this] obtain v' where "do_vec_adds zr ?w [x] = Inr (SPG_OK, v')" by blast
      then have "do_vec_add zr ?w x \<noteq> Inl e" by auto
      then show ?thesis by (cases "do_vec_add zr (obj s) x") (auto simp: x do_vec_add_lock)
    qed
    then show ?thesis using shared_vector.rw_progress [OF inv, of i] i False by auto
  qed
qed

text \<open>Two threads that add to an empty vector: one waits at the lock while the other adds.\<close>

definition demo_shared :: "rwl vec_st" where
  "demo_shared = \<lparr>unitSz = 4, vecLen = 16, used = 0, vcmp = int_cmp, rwlock = rwl_free,
     flag_order = VEC_ASCEND_ORDER, vdata = Some (replicate 64 0xa5)\<rparr>"

definition demo_progs :: "vec_call list list" where
  "demo_progs = map (map Call_Add) [[[5, 0, 0, 0]], [[3, 0, 0, 0]]]"

definition demo_schedule :: "nat list \<Rightarrow> (vec_call, vec_answer, rwl vec_st) shared option" where
  "demo_schedule is = rw_run (vec_exec demo_zr) vec_writes rwlock set_rwlock is (rw_init_state demo_shared demo_progs)"

lemma demo_shared_facts:
  "vec_phase demo_shared" "vec_sorted demo_shared" "elems demo_shared = []" "unitSz demo_shared = 4"
  "used demo_shared = 0" "vecLen demo_shared = 16" "vcmp demo_shared = int_cmp" "rwlock demo_shared = rwl_free"
  by (simp_all add: demo_shared_def vec_phase_def vec_inv_def cap_after_def vec_sorted_def elems_def)

lemma demo_reach: "demo_schedule is = Some s \<Longrightarrow> vec_reach demo_zr demo_shared demo_progs s"
  unfolding demo_schedule_def by (rule rw_run_reach [OF rw_reach.initial])

lemma demo_runs:
  "(case demo_schedule [0, 0, 0, 0, 1, 1, 1, 1] of None \<Rightarrow> False
    | Some s \<Rightarrow> \<forall>th\<in>set (threads s). todo th = [])"
  "(case demo_schedule [1, 1, 1] of None \<Rightarrow> False | Some s \<Rightarrow> calls s = [(1, Call_Add [3, 0, 0, 0], Ret SPG_OK)])"
  by code_simp+

theorem vec_threads_serial_witness:
  "\<exists>s. demo_schedule [1, 1, 1] = Some s \<and> calls s = [(1, Call_Add [3, 0, 0, 0], Ret SPG_OK)]
    \<and> replays (vec_exec demo_zr) demo_shared (calls s) (set_rwlock rwl_free (obj s))"
proof -
  obtain s where s: "demo_schedule [1, 1, 1] = Some s" "calls s = [(1, Call_Add [3, 0, 0, 0], Ret SPG_OK)]"
    using demo_runs(2) by (auto split: option.splits)
  show ?thesis
    using vec_threads_serial [OF demo_shared_facts(8) demo_reach [OF s(1)]] s by blast
qed

theorem vec_threads_add_witness:
  "\<exists>s. demo_schedule [0, 0, 0, 0, 1, 1, 1, 1] = Some s \<and> vec_sorted (obj s)
    \<and> mset (elems (obj s)) = {#[5, 0, 0, 0], [3, 0, 0, 0]#}"
proof -
  obtain s where s: "demo_schedule [0, 0, 0, 0, 1, 1, 1, 1] = Some s" "\<forall>th\<in>set (threads s). todo th = []"
    using demo_runs(1) by (auto split: option.splits)
  have mem: "\<forall>b n. unat n = cap_after (unat (vecLen demo_shared)) * unat (unitSz demo_shared) \<longrightarrow> demo_zr (Some b) n \<noteq> None"
    using demo_zr_total by (simp add: demo_shared_facts cap_after_def)
  have cmp: "comparator {b. le32 b \<in> int_half_range} (vcmp demo_shared)"
    unfolding demo_shared_facts by (rule int_cmp.comparator_axioms)
  have "if \<forall>th\<in>set (threads s). todo th = []
      then vec_sorted (obj s) \<and> mset (elems (obj s)) = mset (elems demo_shared) + mset (concat [[[5, 0, 0, 0]], [[3, 0, 0, 0]]])
      else \<exists>s'. vec_step demo_zr s s'"
    by (rule vec_threads_add [OF demo_allocator mem cmp demo_shared_facts(1,2,8) _ _ _ demo_reach [OF s(1), unfolded demo_progs_def]])
      (simp_all add: demo_shared_facts le32_def int_half_range_def cap_after_def)
  then show ?thesis using s by (simp add: demo_shared_facts)
qed

end
