(* ===== verification/Vector_Test.thy ===== *)
theory Vector_Test
  imports Shared_Vector C_Strings
begin

text \<open>
  The program that src/unit_test/ut_main.c runs, do_vector_ut of src/unit_test/vector_ut.c: a client of the
  vector, its locks and the compare callback. Each printf gives one text; the only thread has the number 0.
\<close>

section \<open>The program\<close>

abbreviation me :: "rwl rwlock_ops" where "me \<equiv> pthread_rw 0"

text \<open>A lock call that waits for a lock that nobody will give back.\<close>

definition wait_lock :: "bool \<Rightarrow> rwl vec_st \<Rightarrow> fault + rwl vec_st" where
  "wait_lock wr vec =
     (if rw_waits 0 wr (rwlock vec) then Inl Diverges
      else Inr (if wr then do_write_lock me vec else do_read_lock me vec))"

text \<open>The results of the additions are not looked at.\<close>

fun add_all :: "zrealloc_fn \<Rightarrow> rwl vec_st \<Rightarrow> s32 list \<Rightarrow> fault + rwl vec_st" where
  "add_all zr vec [] = Inr vec"
| "add_all zr vec (x # xs) = bindE (do_vec_add zr vec (int_bytes x)) (\<lambda>(_, vec). add_all zr vec xs)"

text \<open>The texts for the indices from \<open>idx\<close> on, \<open>k\<close> of them.\<close>

fun print_all :: "nat \<Rightarrow> nat \<Rightarrow> rwl vec_st \<Rightarrow> fault + string list" where
  "print_all 0 idx vec = Inr []"
| "print_all (Suc k) idx vec =
     bindE (do_vec_get vec (of_nat idx)) (\<lambda>p. bindE (vec_deref vec p) (\<lambda>val.
     bindE (print_all k (idx + 1) vec) (\<lambda>out.
     Inr (([CHR 0x09] @ ''Get No.'' @ dec_int (int idx) @ ''=['' @ dec_int (sint (le32 val :: s32)) @ ''].'' @ [CHR 0x0A]) # out))))"

text \<open>
  The function with its array as an argument; the array has to have the index 9. \<open>struct_ok\<close> and \<open>zm\<close>
  are what get_vector asks the allocator for.
\<close>

definition vector_ut :: "bool \<Rightarrow> zmalloc_fn \<Rightarrow> zrealloc_fn \<Rightarrow> s32 list \<Rightarrow> fault + string list \<times> rwl vec_st" where
  "vector_ut struct_ok zm zr array =
     bindE (derefE (get_vector struct_ok zm (snd (wrlock_init me rwl_free)) 4 (Some int_cmp) 9 (ucast VEC_NONE_ORDER))) (\<lambda>vec.
     bindE (wait_lock True vec) (\<lambda>vec.
     let out1 = ''Input length = '' @ dec_int (int (length array)) @ ''.'' @ [CHR 0x0A] in
     bindE (add_all zr vec array) (\<lambda>vec.
     let vec = do_wr_unlock me vec in
     bindE (wait_lock False vec) (\<lambda>vec.
     let len = do_vec_get_len vec; out2 = ''Vector length = '' @ dec_nat (unat len) @ [CHR 0x0A] in
     bindE (print_all (unat len) 0 vec) (\<lambda>outs.
     let vec = do_wr_unlock me vec; (r, vec) = do_read_trylock me vec in
     bindE (guardE (r = 0) Assert_Failed) (\<lambda>_.
     bindE (do_vec_find_get vec (int_bytes (array ! 9))) (\<lambda>val.
     bindE (case val of None \<Rightarrow> Inr (''Can'' @ [CHR 0x27] @ ''t find valued.'' @ [CHR 0x0A])
            | Some p \<Rightarrow> bindE (vec_deref vec p) (\<lambda>val. Inr (''Find:'' @ dec_int (sint (le32 val :: s32)) @ ''.'' @ [CHR 0x0A]))) (\<lambda>out3.
     bindE (do_vec_find vec (int_bytes (array ! 9))) (\<lambda>idx.
     let vec = do_wr_unlock me vec; (r, vec) = do_write_trylock me vec in
     bindE (guardE (r = 0) Assert_Failed) (\<lambda>_.
     bindE (do_vec_del vec idx) (\<lambda>(_, vec).
     let vec = do_wr_unlock me vec in
     Inr ([out1, out2] @ outs @ [out3, ''Vector length = '' @ dec_nat (unat (do_vec_get_len vec)) @ ''.'' @ [CHR 0x0A]], vec))))))))))))"

definition do_vector_ut :: "bool \<Rightarrow> zmalloc_fn \<Rightarrow> zrealloc_fn \<Rightarrow> fault + string list \<times> rwl vec_st" where
  "do_vector_ut struct_ok zm zr = vector_ut struct_ok zm zr
     [29, 12, 32, - 14, 213, 4, 12, 43, 56, 43, 13, 4654, 32, 23, 543, 213, 564, 3, 23, 546, 65, 734]"

text \<open>main, with the calls that are not commented out.\<close>

definition main :: "bool \<Rightarrow> zmalloc_fn \<Rightarrow> zrealloc_fn \<Rightarrow> fault + s32 \<times> string list" where
  "main struct_ok zm zr = bindE (do_vector_ut struct_ok zm zr) (\<lambda>(out, _). Inr (0, out))"

section \<open>What its steps do\<close>

lemma int_cmp_zero: "sint (int_cmp (int_bytes x) (int_bytes y)) = 0 \<longleftrightarrow> x = y"
  by (simp add: int_cmp_def key_compare_def signed_eq_0_iff)

lemma vec_phase_lock [simp]: "vec_inv (set_rwlock l v) = vec_inv v" "vec_phase (set_rwlock l v) = vec_phase v"
proof -
  show i: "vec_inv (set_rwlock l v) = vec_inv v" by (cases "vdata v") (simp_all add: vec_inv_def)
  show "vec_phase (set_rwlock l v) = vec_phase v" unfolding vec_phase_def i by (simp cong: if_cong)
qed

text \<open>An unsorted vector of ints: what it holds, in the order of the additions.\<close>

definition ints :: "rwl vec_st \<Rightarrow> s32 list \<Rightarrow> bool" where
  "ints v xs \<longleftrightarrow> vec_phase v \<and> unitSz v = 4 \<and> vecLen v = 17 \<and> vcmp v = int_cmp \<and> flag_order v = VEC_NONE_ORDER
     \<and> elems v = map int_bytes xs"

lemma ints_lock [simp]: "ints (set_rwlock l v) xs = ints v xs"
  by (simp add: ints_def vec_view_lock)

lemma ints_used: "ints v xs \<Longrightarrow> unat (used v) = length xs" "ints v xs \<Longrightarrow> vec_inv v"
  using length_elems [of v] by (auto simp: ints_def vec_phase_def)

lemma cap_17: "cap_after 17 = 51"
  by (simp add: cap_after_def)

lemma ints_add:
  assumes alloc: "allocator zm zr" and mem: "\<forall>b. zr (Some b) 204 \<noteq> None"
    and v: "ints v xs" and n: "length xs < 51"
  shows "\<exists>v'. do_vec_add zr v (int_bytes x) = Inr (SPG_OK, v') \<and> ints v' (xs @ [x]) \<and> rwlock v' = rwlock v"
proof -
  have "vec_phase v" "unitSz v = 4" "vecLen v = 17" using v by (simp_all add: ints_def)
  moreover have "zr (Some b) k \<noteq> None" if "unat k = 204" for b k
  proof -
    have "k = 204" using that by (simp add: word_unat_eq_iff)
    then show ?thesis using mem by simp
  qed
  moreover have "length (int_bytes x) = 4" by (simp add: int_bytes_def)
  ultimately obtain d where d: "do_vec_add zr v (int_bytes x) = Inr (SPG_OK, v\<lparr>vdata := Some d, used := used v + 1\<rparr>)"
      "vec_phase (v\<lparr>vdata := Some d, used := used v + 1\<rparr>)"
      "elems (v\<lparr>vdata := Some d, used := used v + 1\<rparr>) =
         take (insert_pos v (int_bytes x)) (elems v) @ int_bytes x # drop (insert_pos v (int_bytes x)) (elems v)"
    using do_vec_add_phase [OF alloc, of v "int_bytes x"] ints_used [OF v] n by (auto simp: Let_def cap_17)
  have "insert_pos v (int_bytes x) = length (elems v)"
    using v by (simp add: insert_pos_def ints_def VEC_NONE_ORDER_def VEC_ASCEND_ORDER_def VEC_DSCEND_ORDER_def)
  then show ?thesis using d v by (simp add: ints_def)
qed

lemma add_all_ints:
  assumes alloc: "allocator zm zr" and mem: "\<forall>b. zr (Some b) 204 \<noteq> None"
  shows "ints v xs \<Longrightarrow> length xs + length ys \<le> 51 \<Longrightarrow>
    \<exists>v'. add_all zr v ys = Inr v' \<and> ints v' (xs @ ys) \<and> rwlock v' = rwlock v"
proof (induction ys arbitrary: v xs)
  case (Cons y ys)
  obtain v1 where v1: "do_vec_add zr v (int_bytes y) = Inr (SPG_OK, v1)" "ints v1 (xs @ [y])" "rwlock v1 = rwlock v"
    using ints_add [OF alloc mem Cons.prems(1)] Cons.prems(2) by auto
  then show ?case using Cons.IH [OF v1(2)] Cons.prems(2) by simp
qed auto

text \<open>The text for one element.\<close>

definition got_line :: "nat \<Rightarrow> s32 \<Rightarrow> string" where
  "got_line i x = [CHR 0x09] @ ''Get No.'' @ dec_int (int i) @ ''=['' @ dec_int (sint x) @ ''].'' @ [CHR 0x0A]"

lemma ints_get:
  assumes v: "ints v xs" and i: "i < length xs"
  shows "\<exists>p. do_vec_get v (of_nat i) = Inr p \<and> vec_deref v p = Inr (int_bytes (xs ! i))"
proof -
  have u: "unat (of_nat i :: u32) = i" using unat_index [of i "used v"] ints_used(1) [OF v] i by simp
  then have "of_nat i < used v" using ints_used(1) [OF v] i by (simp add: word_less_nat_alt)
  then show ?thesis using do_vec_get_deref [OF ints_used(2) [OF v], of "of_nat i"] u v i by (simp add: ints_def)
qed

lemma print_all_ints:
  "ints v xs \<Longrightarrow> i + k = length xs \<Longrightarrow>
   print_all k i v = Inr (map (\<lambda>(j, x). got_line j x) (zip [i..<length xs] (drop i xs)))"
proof (induction k arbitrary: i)
  case (Suc k)
  have i: "i < length xs" using Suc.prems(2) by simp
  obtain p where p: "do_vec_get v (of_nat i) = Inr p" "vec_deref v p = Inr (int_bytes (xs ! i))"
    using ints_get [OF Suc.prems(1) i] by blast
  have "print_all k (i + 1) v = Inr (map (\<lambda>(j, x). got_line j x) (zip [i + 1..<length xs] (drop (i + 1) xs)))"
    by (rule Suc.IH) (use Suc.prems in auto)
  moreover have "[i..<length xs] = i # [i + 1..<length xs]" using i by (simp add: upt_rec)
  moreover have "drop i xs = xs ! i # drop (i + 1) xs" using i by (simp add: Cons_nth_drop_Suc)
  ultimately show ?case using p by (simp add: got_line_def)
qed simp

lemma first_hit_remove:
  "first_hit P xs < length xs \<Longrightarrow> (\<And>y. y \<in> set xs \<Longrightarrow> P y \<longleftrightarrow> y = x) \<Longrightarrow>
   take (first_hit P xs) xs @ drop (Suc (first_hit P xs)) xs = remove1 x xs"
  by (induction xs) (auto simp: first_hit_def)

lemma ints_find:
  assumes v: "ints v xs" and x: "x \<in> set xs"
  shows "\<exists>k < length xs. xs ! k = x \<and> do_vec_find v (int_bytes x) = Inr (of_nat k)
    \<and> take k xs @ drop (Suc k) xs = remove1 x xs"
proof -
  let ?P = "\<lambda>y. 0 = sint (vcmp v (int_bytes x) y)" and ?Q = "\<lambda>y. y = x"
  have "first_hit ?P (map int_bytes xs) = first_hit ?Q xs"
  proof -
    have "?P (int_bytes y) = ?Q y" for y using v int_cmp_zero [of x y] by (simp add: ints_def eq_commute [of 0] eq_commute [of x])
    then show ?thesis by (simp add: first_hit_def takeWhile_map comp_def)
  qed
  moreover have "first_hit ?Q xs < length xs"
    using x first_hit_none [of ?Q xs] first_hit_le [of ?Q xs] by (auto simp: le_less)
  ultimately show ?thesis
    using find_elems [OF ints_used(2) [OF v], of "int_bytes x"] ints_used(1) [OF v] v
      first_hit_hit [of ?Q xs] first_hit_remove [of ?Q xs x]
    by (intro exI [of _ "first_hit ?Q xs"]) (simp add: ints_def)
qed

text \<open>The vector the test works on.\<close>

lemma get_vector_ints:
  assumes alloc: "allocator zm zr" and mem: "zm 68 \<noteq> None"
  shows "\<exists>v. get_vector True zm (snd (wrlock_init me rwl_free)) 4 (Some int_cmp) 9 (ucast VEC_NONE_ORDER) = Some v
    \<and> ints v [] \<and> rwlock v = rwl_free"
proof -
  have al: "ALIGN_OF 9 VEC_LEN_ALIGN_MASK = 17" by (simp add: ALIGN_OF_def VEC_LEN_ALIGN_MASK_def)
  obtain b where b: "zm 68 = Some b" using mem by blast
  let ?v = "\<lparr>unitSz = 4, vecLen = 17, used = 0, vcmp = int_cmp, rwlock = rwl_free, flag_order = VEC_NONE_ORDER, vdata = Some b\<rparr>"
  have v: "get_vector True zm (snd (wrlock_init me rwl_free)) 4 (Some int_cmp) 9 (ucast VEC_NONE_ORDER) = Some ?v"
    using b by (simp add: get_vector_def al wrlock_init_def pthread_rw_def VEC_NONE_ORDER_def)
  have "vec_phase ?v" "elems ?v = []" "unitSz ?v = 4"
    using get_vector_phase [OF alloc v] by (simp_all add: cap_17)
  then show ?thesis using v by (simp add: ints_def)
qed

text \<open>Locking and unlocking by a single thread.\<close>

lemma alone_locks:
  "rwlock v = rwl_free \<Longrightarrow> wait_lock True v = Inr (set_rwlock (rwl_free\<lparr>wr_owner := Some 0\<rparr>) v)"
  "rwlock v = rwl_free \<Longrightarrow> wait_lock False v = Inr (set_rwlock (rwl_free\<lparr>rd_owners := [0]\<rparr>) v)"
  "rwlock v = rwl_free \<Longrightarrow> do_read_trylock me v = (0, set_rwlock (rwl_free\<lparr>rd_owners := [0]\<rparr>) v)"
  "rwlock v = rwl_free \<Longrightarrow> do_write_trylock me v = (0, set_rwlock (rwl_free\<lparr>wr_owner := Some 0\<rparr>) v)"
  "rwlock v = rwl_free\<lparr>wr_owner := Some 0\<rparr> \<Longrightarrow> do_wr_unlock me v = set_rwlock rwl_free v"
  "rwlock v = rwl_free\<lparr>rd_owners := [0]\<rparr> \<Longrightarrow> do_wr_unlock me v = set_rwlock rwl_free v"
  by (simp_all add: wait_lock_def rw_waits_def rwl_free_def do_write_lock_def do_read_lock_def do_read_trylock_def
      do_write_trylock_def do_wr_unlock_def)

lemma add_all_append: "add_all zr v (xs @ ys) = bindE (add_all zr v xs) (\<lambda>v. add_all zr v ys)"
  by (induction xs arbitrary: v) (auto simp: bindE_assoc split_def)

lemma add_all_overflow:
  assumes alloc: "allocator zm zr" and mem: "\<forall>b. zr (Some b) 204 \<noteq> None" and v: "ints v []" and n: "51 < length xs"
  shows "add_all zr v xs = Inl Out_Of_Bounds"
proof -
  obtain w where w: "add_all zr v (take 51 xs) = Inr w" "ints w (take 51 xs)"
    using add_all_ints [OF alloc mem v, of "take 51 xs"] n by auto
  obtain y ys where y: "drop 51 xs = y # ys" using n by (cases "drop 51 xs") auto
  have u: "unat (used w) = 51" using ints_used(1) [OF w(2)] n by simp
  then have "\<not> used w \<le> vecLen w" "used w \<noteq> vecLen w" using w(2) by (auto simp: ints_def word_le_nat_alt)
  moreover from this have "length (the (vdata w)) = 204" using w(2) by (simp add: ints_def vec_phase_def cap_17)
  moreover have "length (int_bytes y) = unat (unitSz w)" using w(2) by (simp add: ints_def int_bytes_def)
  ultimately have "do_vec_add zr w (int_bytes y) = Inl Out_Of_Bounds"
    using do_vec_add_overflow [OF ints_used(2) [OF w(2)]] u w(2) by (simp add: ints_def)
  then have "add_all zr v (take 51 xs @ drop 51 xs) = Inl Out_Of_Bounds"
    unfolding add_all_append w(1) y by simp
  then show ?thesis by simp
qed

text \<open>C25. The test program, for any array in the place of its own: with at most 51 values it ends without a fault; it
  prints the values in their order, the value it looks for, which it finds, and the two lengths; the vector
  is left with that value removed where it first stood, and its lock free. With more values the additions
  behind the one effective resize overflow the block.\<close>

theorem vector_test_result:
  assumes "allocator zm zr" and "zm 68 \<noteq> None" and "\<forall>b. zr (Some b) 204 \<noteq> None" and "9 < length array"
  shows "if length array \<le> 51
    then \<exists>v. vector_ut True zm zr array =
        Inr ([''Input length = '' @ dec_int (int (length array)) @ ''.'' @ [CHR 0x0A],
              ''Vector length = '' @ dec_nat (length array) @ [CHR 0x0A]]
            @ map (\<lambda>(i, x). got_line i x) (zip [0..<length array] array)
            @ [''Find:'' @ dec_int (sint (array ! 9)) @ ''.'' @ [CHR 0x0A],
               ''Vector length = '' @ dec_nat (length array - 1) @ ''.'' @ [CHR 0x0A]], v)
        \<and> elems v = map int_bytes (remove1 (array ! 9) array) \<and> rwlock v = rwl_free
    else vector_ut True zm zr array = Inl Out_Of_Bounds"
proof -
  obtain v0 where v0: "get_vector True zm (snd (wrlock_init me rwl_free)) 4 (Some int_cmp) 9 (ucast VEC_NONE_ORDER) = Some v0"
      "ints v0 []" "rwlock v0 = rwl_free"
    using get_vector_ints [OF assms(1,2)] by blast
  let ?v1 = "set_rwlock (rwl_free\<lparr>wr_owner := Some 0\<rparr>) v0"
  show ?thesis
  proof (cases "length array \<le> 51")
    case False
    then have "add_all zr ?v1 array = Inl Out_Of_Bounds"
      using v0(2) by (intro add_all_overflow [OF assms(1,3)]) simp_all
    then show ?thesis using v0 False by (simp add: vector_ut_def alone_locks)
  next
    case True
    obtain v2 where v2: "add_all zr ?v1 array = Inr v2" "ints v2 array" "rwlock v2 = rwl_free\<lparr>wr_owner := Some 0\<rparr>"
      using add_all_ints [OF assms(1,3), of ?v1 "[]" array] v0(2) True by auto
    have i: "ints (set_rwlock l v2) array" for l using v2(2) by simp
    obtain k where k: "k < length array" "array ! k = array ! 9" "do_vec_find (set_rwlock l v2) (int_bytes (array ! 9)) = Inr (of_nat k)"
        "take k array @ drop (Suc k) array = remove1 (array ! 9) array" for l
      using ints_find [OF v2(2), of "array ! 9"] assms(4) by (auto simp: vec_ops_lock)
    have u: "unat (used v2) = length array" by (rule ints_used(1) [OF v2(2)])
    have inf: "of_nat k \<noteq> VEC_INFINITE_VAL_32" using index_not_infinite [of k "used v2"] k(1) u by simp
    obtain p where p: "do_vec_get (set_rwlock l v2) (of_nat k) = Inr p" "vec_deref (set_rwlock l v2) p = Inr (int_bytes (array ! 9))" for l
      using ints_get [OF v2(2) k(1)] k(2) by (auto simp: do_vec_get_lock)
    have fg: "do_vec_find_get (set_rwlock l v2) (int_bytes (array ! 9)) = Inr (Some p)" for l
      using k(3) p(1) inf by (simp add: do_vec_find_get_def)
    let ?v5 = "set_rwlock (rwl_free\<lparr>wr_owner := Some 0\<rparr>) v2"
    have kk: "unat (of_nat k :: u32) = k" using unat_index [of k "used v2"] k(1) u by simp
    have "of_nat k < used ?v5" using kk k(1) u by (simp add: word_less_nat_alt)
    then obtain d where d: "do_vec_del ?v5 (of_nat k) = Inr (SPG_OK, ?v5\<lparr>vdata := Some d, used := used ?v5 - 1\<rparr>)"
        "elems (?v5\<lparr>vdata := Some d, used := used ?v5 - 1\<rparr>) = take k (elems v2) @ drop (Suc k) (elems v2)"
      using do_vec_del_elems [OF ints_used(2) [OF i], of "of_nat k"] kk by (auto simp: Let_def vec_view_lock)
    have e: "elems (set_rwlock rwl_free (?v5\<lparr>vdata := Some d, used := used ?v5 - 1\<rparr>)) = map int_bytes (remove1 (array ! 9) array)"
      unfolding vec_view_lock d(2) using v2(2) k(4) by (simp add: ints_def take_map drop_map flip: map_append)
    have one: "unat (used v2 - 1) = length array - 1"
      using u assms(4) by (subst unat_sub) (auto simp: word_le_nat_alt)
    have pr: "print_all (length array) 0 (set_rwlock l v2) = Inr (map (\<lambda>(i, x). got_line i x) (zip [0..<length array] array))" for l
      using print_all_ints [OF i, of 0 "length array"] by simp
    show ?thesis
      using True v0 v2 fg k(3) p d(1) e pr u one
      by (simp add: vector_ut_def alone_locks do_vec_get_len_def vec_view_lock)
  qed
qed

theorem vector_test_result_witness:
  "\<exists>out v. do_vector_ut True demo_zm demo_zr = Inr (out, v) \<and> main True demo_zm demo_zr = Inr (0, out) \<and> length out = 26
    \<and> out ! 24 = ''Find:43.'' @ [CHR 0x0A] \<and> out ! 25 = ''Vector length = 21.'' @ [CHR 0x0A]
    \<and> elems v = map int_bytes [29, 12, 32, - 14, 213, 4, 12, 56, 43, 13, 4654, 32, 23, 543, 213, 564, 3, 23, 546, 65, 734]"
proof -
  let ?a = "[29, 12, 32, - 14, 213, 4, 12, 43, 56, 43, 13, 4654, 32, 23, 543, 213, 564, 3, 23, 546, 65, 734] :: s32 list"
  have mem: "demo_zm 68 \<noteq> None" "\<forall>b. demo_zr (Some b) 204 \<noteq> None"
    using demo_zm_eq [of 68] demo_zr_total [of 204] by simp_all
  obtain v where v: "do_vector_ut True demo_zm demo_zr =
        Inr ([''Input length = '' @ dec_int (int (length ?a)) @ ''.'' @ [CHR 0x0A],
              ''Vector length = '' @ dec_nat (length ?a) @ [CHR 0x0A]]
            @ map (\<lambda>(i, x). got_line i x) (zip [0..<length ?a] ?a)
            @ [''Find:'' @ dec_int (sint (?a ! 9)) @ ''.'' @ [CHR 0x0A],
               ''Vector length = '' @ dec_nat (length ?a - 1) @ ''.'' @ [CHR 0x0A]], v)"
      "elems v = map int_bytes (remove1 (?a ! 9) ?a)"
    unfolding do_vector_ut_def using vector_test_result [OF demo_allocator mem, of ?a] by auto
  have "dec_int (sint (?a ! 9)) = ''43''" "dec_nat (length ?a - 1) = ''21''" by code_simp+
  moreover have "remove1 (?a ! 9) ?a = [29, 12, 32, - 14, 213, 4, 12, 56, 43, 13, 4654, 32, 23, 543, 213, 564, 3, 23, 546, 65, 734]"
    by code_simp
  ultimately show ?thesis using v by (simp add: main_def nth_append)
qed

end
