(* ===== verification/File_Test.thy ===== *)
theory File_Test
  imports File_IO C_Strings Machines
begin

text \<open>
  The test program of the file objects, src/unit_test/wr_rd_file_ut.c: a menu that appends to one file, writes
  at an offset, and reads from it. What is typed in is a list of items, scanf having split and converted it;
  \<open>out\<close> is what the program logs and prints for them, the prompts left out. The program refines a file of bytes.
\<close>

section \<open>The program\<close>

datatype menu_item = Item_Append string | Item_Write int string | Item_Read s32 | Item_Rdm_Read int s32 | Item_Other

record file_ut =
  ut_fs :: fsys
  g_write_file :: file_obj
  g_append_file :: file_obj
  g_read_file :: file_obj
  out :: "string list"

definition WF_TEST_PATH :: string where "WF_TEST_PATH = ''ut_write_file.txt''"

definition bytes_text :: "u8 list \<Rightarrow> string" where "bytes_text d = map (\<lambda>b. char_of (unat b)) d"
definition text_bytes :: "string \<Rightarrow> u8 list" where "text_bytes s = map of_char s"

text \<open>scanf with %s into a zeroed array of 128 chars.\<close>

definition scan_text :: "string \<Rightarrow> fault + string" where
  "scan_text s = mem_store (replicate 128 NUL) 0 (s @ [NUL])"

definition say :: "string \<Rightarrow> file_ut \<Rightarrow> file_ut" where
  "say t st = st\<lparr>out := out st @ [t]\<rparr>"

definition write_to_file :: "nat \<Rightarrow> int \<Rightarrow> string \<Rightarrow> file_ut \<Rightarrow> fault + file_ut" where
  "write_to_file h offset s st =
     bindE (scan_text s) (\<lambda>buf.
     bindE (wf_open h (ut_fs st) (g_write_file st)) (\<lambda>(ret, fs, x).
     bindE (guardE (SPG_OK = ret) Assert_Failed) (\<lambda>_.
     bindE (c_text buf) (\<lambda>txt.
     bindE (wf_write fs x offset (text_bytes txt)) (\<lambda>(ret, fs).
     let st = (if SPG_OK \<noteq> ret then say ''Write to file failed.'' st else st) in
     bindE (wf_flush fs x) (\<lambda>_.
     bindE (wf_close fs x) (\<lambda>(_, fs, x).
     Inr (st\<lparr>ut_fs := fs, g_write_file := x\<rparr>))))))))"

definition append_to_file :: "nat \<Rightarrow> string \<Rightarrow> file_ut \<Rightarrow> fault + file_ut" where
  "append_to_file h s st =
     bindE (scan_text s) (\<lambda>buf.
     bindE (af_open h (ut_fs st) (g_append_file st)) (\<lambda>(ret, fs, x).
     bindE (guardE (SPG_OK = ret) Assert_Failed) (\<lambda>_.
     bindE (c_text buf) (\<lambda>txt.
     bindE (af_append fs x (text_bytes txt)) (\<lambda>(ret, fs).
     bindE (guardE (SPG_OK = ret) Assert_Failed) (\<lambda>_.
     bindE (af_flush fs x) (\<lambda>_.
     bindE (af_close fs x) (\<lambda>(_, fs, x).
     Inr (st\<lparr>ut_fs := fs, g_append_file := x\<rparr>)))))))))"

text \<open>What both reads do with the answer and the bytes; the length is converted to a size_t, the answer to an int32_t.\<close>

definition show_read :: "s32 \<Rightarrow> u64 \<times> u8 list \<times> fsys \<Rightarrow> file_obj \<Rightarrow> file_ut \<Rightarrow> fault + file_ut" where
  "show_read len = (\<lambda>(ret, d, fs) x st.
     bindE (mem_store (replicate 128 NUL) 0 (bytes_text d)) (\<lambda>buf.
     let st = (if len \<noteq> ucast ret then say ''Read abnormal.'' st else st) in
     bindE (rf_close fs x) (\<lambda>(_, fs, x).
     bindE (c_text buf) (\<lambda>txt.
     Inr (say (''Get file context:'' @ txt @ [CHR 0x0A]) (st\<lparr>ut_fs := fs, g_read_file := x\<rparr>))))))"

definition read_from_file :: "nat \<Rightarrow> s32 \<Rightarrow> file_ut \<Rightarrow> fault + file_ut" where
  "read_from_file h len st =
     bindE (rf_open h (ut_fs st) (g_read_file st)) (\<lambda>(ret, fs, x).
     bindE (guardE (SPG_OK = ret) Assert_Failed) (\<lambda>_.
     bindE (rf_read fs x (unat (scast len :: u64))) (\<lambda>res. show_read len res x st)))"

definition rdm_read_from_file :: "nat \<Rightarrow> int \<Rightarrow> s32 \<Rightarrow> file_ut \<Rightarrow> fault + file_ut" where
  "rdm_read_from_file h offset len st =
     bindE (rf_open h (ut_fs st) (g_read_file st)) (\<lambda>(ret, fs, x).
     bindE (guardE (SPG_OK = ret) Assert_Failed) (\<lambda>_.
     bindE (rf_bias_read fs x offset (unat (scast len :: u64))) (\<lambda>res. show_read len res x st)))"

text \<open>An item of the menu, but for the one that ends the program.\<close>

fun menu_exec :: "nat \<Rightarrow> menu_item \<Rightarrow> file_ut \<Rightarrow> fault + file_ut" where
  "menu_exec h (Item_Append s) st = append_to_file h s st"
| "menu_exec h (Item_Write off s) st = write_to_file h off s st"
| "menu_exec h (Item_Read len) st = read_from_file h len st"
| "menu_exec h (Item_Rdm_Read off len) st = rdm_read_from_file h off len st"
| "menu_exec h Item_Other st = Inr st"

definition do_fileio_ut :: "nat \<Rightarrow> bool \<times> bool \<Rightarrow> fsys \<Rightarrow> menu_item list \<Rightarrow> fault + file_ut" where
  "do_fileio_ut h mem fs items =
     bindE (create_wfile mem (Some WF_TEST_PATH)) (\<lambda>w. bindE (guardE (w \<noteq> None) Assert_Failed) (\<lambda>_.
     bindE (create_rfile mem (Some WF_TEST_PATH)) (\<lambda>r. bindE (guardE (r \<noteq> None) Assert_Failed) (\<lambda>_.
     bindE (create_afile mem (Some WF_TEST_PATH)) (\<lambda>a. bindE (guardE (a \<noteq> None) Assert_Failed) (\<lambda>_.
     runE (menu_exec h) (takeWhile (\<lambda>i. i \<noteq> Item_Other) items)
       \<lparr>ut_fs = fs, g_write_file = the w, g_append_file = the a, g_read_file = the r, out = []\<rparr>))))))"

section \<open>The file it works on\<close>

text \<open>The specification: bytes of at most \<open>lim\<close>, and what is printed. Items outside of it break the program's contract.\<close>

definition spec_pos :: "u8 list \<Rightarrow> int \<Rightarrow> int" where
  "spec_pos b off = (if off < 0 then int (length b) + off + 1 else off)"

definition good_text :: "string \<Rightarrow> bool" where
  "good_text s \<longleftrightarrow> NUL \<notin> set s \<and> length s < 128"

definition shown :: "s32 \<Rightarrow> u8 list \<Rightarrow> string list" where
  "shown len d = (if sint len \<noteq> int (length d) then [''Read abnormal.''] else [])
     @ [''Get file context:'' @ takeWhile (\<lambda>c. c \<noteq> NUL) (bytes_text d) @ [CHR 0x0A]]"

fun file_spec :: "nat \<Rightarrow> menu_item \<Rightarrow> u8 list \<times> string list \<Rightarrow> (u8 list \<times> string list) option" where
  "file_spec lim (Item_Append s) (b, o') =
     (if good_text s \<and> length b + length s \<le> lim then Some (b @ text_bytes s, o') else None)"
| "file_spec lim (Item_Write off s) (b, o') =
     (if \<not> good_text s then None
      else if spec_pos b off < 0 then Some (b, o' @ [''Write to file failed.''])
      else if nat (spec_pos b off) + length s \<le> lim then Some (put_at (nat (spec_pos b off)) (text_bytes s) b, o')
      else None)"
| "file_spec lim (Item_Read len) (b, o') =
     (if 0 \<le> sint len \<and> sint len < 128 then Some (b, o' @ shown len (take (nat (sint len)) b)) else None)"
| "file_spec lim (Item_Rdm_Read off len) (b, o') =
     (if \<not> (0 \<le> sint len \<and> sint len < 128) then None
      else if spec_pos b off < 0 then Some (b, o' @ [''Read abnormal.'', ''Get file context:'' @ [CHR 0x0A]])
      else Some (b, o' @ shown len (take (nat (sint len)) (drop (nat (spec_pos b off)) b))))"
| "file_spec lim Item_Other a = None"

definition file_rel :: "nat \<Rightarrow> nat \<Rightarrow> file_ut \<Rightarrow> u8 list \<times> string list \<Rightarrow> bool" where
  "file_rel lim h st = (\<lambda>(b, o').
     let fs = ut_fs st; p = WF_TEST_PATH in
     bytes_of fs p = b \<and> out st = o' \<and> limit fs = lim \<and> h \<noteq> 0 \<and> streams fs h = None
     \<and> (content fs p \<noteq> None \<or> may_create fs p) \<and> may_read fs p \<and> may_write fs p
     \<and> file_obj.path (g_write_file st) = p \<and> file_obj.path (g_append_file st) = p \<and> file_obj.path (g_read_file st) = p)"

section \<open>Refinement\<close>

lemma unat_of_char: "unat (of_char c :: u8) = of_char c"
proof -
  have "unat (of_char c :: u8) = unat (of_nat (of_char c) :: u8)" by (simp only: of_nat_of_char)
  also have "\<dots> = of_char c"
    by (simp add: unsigned_of_nat take_bit_nat_eq_self_iff)
  finally show ?thesis .
qed

lemma text_bytes_simps [simp]: "bytes_text (text_bytes s) = s" "length (text_bytes s) = length s" "length (bytes_text d) = length d"
  by (simp_all add: bytes_text_def text_bytes_def comp_def unat_of_char)

lemma scan_good:
  assumes "good_text s"
  shows "\<exists>buf. scan_text s = Inr buf \<and> c_text buf = Inr s"
proof -
  have "scan_text s = Inr (s @ NUL # replicate (127 - length s) NUL)"
    using assms by (simp add: scan_text_def mem_store_def good_text_def)
  then show ?thesis using assms by (simp add: c_text_prefix good_text_def)
qed

text \<open>The file as an open leaves it.\<close>

definition opened :: "nat \<Rightarrow> fmode \<Rightarrow> fsys \<Rightarrow> fsys" where
  "opened h m fs = (let p = WF_TEST_PATH in
     fs\<lparr>content := (content fs)(p \<mapsto> bytes_of fs p), streams := (streams fs)(h \<mapsto>
       \<lparr>s_path = p, s_pos = 0, s_rd = True, s_wr = (m \<noteq> Mode_r), s_app = (m = Mode_aplus), s_eof = False\<rparr>)\<rparr>)"

lemma open_rel:
  assumes "file_rel lim h st (b, o')" "file_obj.path x = WF_TEST_PATH" "m \<noteq> Mode_w"
  shows "open_as h (ut_fs st) x m = Inr (SPG_OK, opened h m (ut_fs st), x\<lparr>fptr := h, fd := fileno h\<rparr>)"
  using file_open_ok [of h "ut_fs st" WF_TEST_PATH m] assms
  by (simp add: open_as_def file_rel_def opened_def Let_def)

text \<open>The state behind an item: bytes, and the streams as before.\<close>

definition closed :: "nat \<Rightarrow> u8 list \<Rightarrow> fsys \<Rightarrow> fsys" where
  "closed h b fs = fs\<lparr>content := (content fs)(WF_TEST_PATH \<mapsto> b), streams := (streams fs)(h := None)\<rparr>"

lemma closed_rel:
  assumes "file_rel lim h st (b, o')" and "run = Inr st'" and "ut_fs st' = closed h b' (ut_fs st)" and "out st' = o''"
    and "file_obj.path (g_write_file st') = WF_TEST_PATH" "file_obj.path (g_append_file st') = WF_TEST_PATH"
      "file_obj.path (g_read_file st') = WF_TEST_PATH"
  shows "\<exists>st'. run = Inr st' \<and> file_rel lim h st' (b', o'')"
  using assms by (auto simp: file_rel_def closed_def bytes_of_def Let_def)

lemma opened_simps [simp]:
  "content (opened h m fs) = (content fs)(WF_TEST_PATH \<mapsto> bytes_of fs WF_TEST_PATH)" "limit (opened h m fs) = limit fs"
  "streams (opened h m fs) h = Some \<lparr>s_path = WF_TEST_PATH, s_pos = 0, s_rd = True, s_wr = (m \<noteq> Mode_r),
     s_app = (m = Mode_aplus), s_eof = False\<rparr>"
  by (simp_all add: opened_def Let_def)

text \<open>The file with an open stream, behind any use of it.\<close>

definition in_use :: "nat \<Rightarrow> u8 list \<Rightarrow> stream \<Rightarrow> fsys \<Rightarrow> fsys" where
  "in_use h b sp fs = fs\<lparr>content := (content fs)(WF_TEST_PATH \<mapsto> b), streams := (streams fs)(h \<mapsto> sp)\<rparr>"

lemma in_use_ends:
  assumes "h \<noteq> 0" "fptr x = h" "fd x = fileno h"
  shows "wf_flush (in_use h b sp fs) x = Inr SPG_OK"
    "wf_close (in_use h b sp fs) x = Inr (SPG_OK, closed h b fs, x\<lparr>fptr := 0, fd := - 1\<rparr>)"
    "rf_close (in_use h b sp fs) x = Inr (SPG_OK, closed h b fs, x\<lparr>fptr := 0, fd := - 1\<rparr>)"
proof -
  have st: "stream_at (in_use h b sp fs) h = Inr sp" using assms(1) by (simp add: stream_at_def in_use_def)
  then show "wf_flush (in_use h b sp fs) x = Inr SPG_OK"
    using assms by (simp add: wf_flush_def fileno_not fflush_def)
  have "streams (in_use h b sp fs) h = Some sp" "fd x \<noteq> - 1" using assms(3) by (simp_all add: in_use_def fileno_not)
  from session_close [OF this(1) assms(1) this(2) assms(2)]
  show "wf_close (in_use h b sp fs) x = Inr (SPG_OK, closed h b fs, x\<lparr>fptr := 0, fd := - 1\<rparr>)"
    "rf_close (in_use h b sp fs) x = Inr (SPG_OK, closed h b fs, x\<lparr>fptr := 0, fd := - 1\<rparr>)"
    by (simp_all add: closed_def in_use_def)
qed

lemma fwrite_opened:
  assumes "h \<noteq> 0" "m = Mode_aplus" "b = bytes_of fs WF_TEST_PATH" "length b + length d \<le> limit fs"
  shows "\<exists>sp. fwrite (opened h m fs) h d = Inr (length d, in_use h (b @ d) sp fs)"
  using assms by (simp add: fwrite_def stream_at_def Let_def put_at_end) (auto simp: opened_def in_use_def Let_def)

text \<open>The tests at the head of the operations.\<close>

lemma opened_usable:
  assumes "fptr x \<noteq> 0" "fd x = fileno h" "file_obj.path x = WF_TEST_PATH"
  shows "wf_write (opened h m fs) x off d =
      bindE (if off < 0 then fseek (opened h m fs) (fptr x) (off + 1) SEEK_END else fseek (opened h m fs) (fptr x) off SEEK_SET)
      (\<lambda>(ret, fs). if - 1 = ret then Inr (SPG_ERR, fs)
        else bindE (fwrite fs (fptr x) d) (\<lambda>(wrLen, fs). Inr (if wrLen \<noteq> length d then SPG_ERR else SPG_OK, fs)))"
    "af_append (opened h m fs) x d = bindE (fwrite (opened h m fs) (fptr x) d)
      (\<lambda>(wrLen, fs). Inr (if wrLen \<noteq> length d then SPG_ERR else SPG_OK, fs))"
    "rf_read (opened h m fs) x n = rf_take (opened h m fs) x n"
    "rf_bias_read (opened h m fs) x off n = bindE (bias_adjust (opened h m fs) (fptr x) off)
      (\<lambda>(ret, fs). if ret \<noteq> SPG_OK then Inr (scast SPG_ERR, [], fs) else rf_take fs x n)"
  using assms
  by (simp_all add: wf_write_def af_append_def rf_read_def rf_bias_read_def fs_access_def fileno_not fileno_not [symmetric])

lemma file_rel_paths:
  assumes "file_rel lim h st (b, o')"
  shows "file_obj.path (g_write_file st) = WF_TEST_PATH" "file_obj.path (g_append_file st) = WF_TEST_PATH"
    "file_obj.path (g_read_file st) = WF_TEST_PATH" "b = bytes_of (ut_fs st) WF_TEST_PATH" "limit (ut_fs st) = lim"
    "h \<noteq> 0" "out st = o'"
  using assms by (auto simp: file_rel_def Let_def)

lemma append_rel:
  assumes r: "file_rel lim h st (b, o')" and s: "good_text s" "length b + length s \<le> lim"
  shows "\<exists>st'. append_to_file h s st = Inr st' \<and> file_rel lim h st' (b @ text_bytes s, o')"
proof -
  let ?fs = "ut_fs st" and ?x = "(g_append_file st)\<lparr>fptr := h, fd := fileno h\<rparr>"
  note P = file_rel_paths [OF r]
  obtain buf where buf: "scan_text s = Inr buf" "c_text buf = Inr s" using scan_good [OF s(1)] by blast
  have op: "af_open h ?fs (g_append_file st) = Inr (SPG_OK, opened h Mode_aplus ?fs, ?x)"
    unfolding af_open_def by (rule open_rel [OF r P(2)]) simp
  obtain sp where w: "fwrite (opened h Mode_aplus ?fs) h (text_bytes s) = Inr (length (text_bytes s), in_use h (b @ text_bytes s) sp ?fs)"
    using fwrite_opened [OF P(6) refl P(4), of "text_bytes s"] P(5) s(2) by auto
  have "append_to_file h s st = Inr (st\<lparr>ut_fs := closed h (b @ text_bytes s) ?fs, g_append_file := ?x\<lparr>fptr := 0, fd := - 1\<rparr>\<rparr>)"
    using buf op w P(2,6) opened_usable(2) [of ?x h] in_use_ends(1,2) [of h ?x]
    by (simp add: append_to_file_def af_flush_def af_close_def)
  then show ?thesis by (rule closed_rel [OF r]) (simp_all add: P)
qed

lemma seek_opened:
  assumes h: "h \<noteq> 0" and b: "b = bytes_of fs WF_TEST_PATH"
  shows "(if off < 0 then fseek (opened h m fs) h (off + 1) SEEK_END else fseek (opened h m fs) h off SEEK_SET)
    = (if spec_pos b off < 0 then Inr (- 1, opened h m fs)
       else Inr (0, in_use h b \<lparr>s_path = WF_TEST_PATH, s_pos = nat (spec_pos b off), s_rd = True, s_wr = (m \<noteq> Mode_r),
         s_app = (m = Mode_aplus), s_eof = False\<rparr> fs))"
  using h by (auto simp: fseek_def stream_at_def spec_pos_def Let_def b add.assoc) (simp_all add: opened_def in_use_def Let_def)

lemma opened_in_use: "\<exists>sp. opened h m fs = in_use h (bytes_of fs WF_TEST_PATH) sp fs"
  by (auto simp: opened_def in_use_def Let_def)

lemma write_rel:
  assumes r: "file_rel lim h st (b, o')" and s: "good_text s" and lim: "0 \<le> spec_pos b off \<Longrightarrow> nat (spec_pos b off) + length s \<le> lim"
  shows "\<exists>st'. write_to_file h off s st = Inr st' \<and> file_rel lim h st'
    (if spec_pos b off < 0 then (b, o' @ [''Write to file failed.'']) else (put_at (nat (spec_pos b off)) (text_bytes s) b, o'))"
proof -
  let ?fs = "ut_fs st" and ?x = "(g_write_file st)\<lparr>fptr := h, fd := fileno h\<rparr>"
  note P = file_rel_paths [OF r]
  obtain buf where buf: "scan_text s = Inr buf" "c_text buf = Inr s" using scan_good [OF s] by blast
  have op: "wf_open h ?fs (g_write_file st) = Inr (SPG_OK, opened h Mode_rbplus ?fs, ?x)"
    unfolding wf_open_def by (rule open_rel [OF r P(1)]) simp
  have w: "wf_write (opened h Mode_rbplus ?fs) ?x off (text_bytes s) =
      bindE (if off < 0 then fseek (opened h Mode_rbplus ?fs) h (off + 1) SEEK_END else fseek (opened h Mode_rbplus ?fs) h off SEEK_SET)
      (\<lambda>(ret, fs). if - 1 = ret then Inr (SPG_ERR, fs)
        else bindE (fwrite fs h (text_bytes s)) (\<lambda>(wrLen, fs). Inr (if wrLen \<noteq> length (text_bytes s) then SPG_ERR else SPG_OK, fs)))"
    using opened_usable(1) [of ?x h Mode_rbplus ?fs off "text_bytes s"] P(1,6) by (simp cong: if_cong)
  note seek = seek_opened [OF P(6,4), of off Mode_rbplus]
  show ?thesis
  proof (cases "spec_pos b off < 0")
    case True
    obtain sp where sp: "opened h Mode_rbplus ?fs = in_use h b sp ?fs" using opened_in_use P(4) by metis
    have "wf_write (opened h Mode_rbplus ?fs) ?x off (text_bytes s) = Inr (SPG_ERR, in_use h b sp ?fs)"
      unfolding sp [symmetric] w seek using True by simp
    then have "write_to_file h off s st = Inr ((say ''Write to file failed.'' st)\<lparr>ut_fs := closed h b ?fs, g_write_file := ?x\<lparr>fptr := 0, fd := - 1\<rparr>\<rparr>)"
      using buf op P(6) in_use_ends(1,2) [of h ?x] by (simp add: write_to_file_def SPG_OK_def SPG_ERR_def)
    then have "\<exists>st'. write_to_file h off s st = Inr st' \<and> file_rel lim h st' (b, o' @ [''Write to file failed.''])"
      by (rule closed_rel [OF r]) (simp_all add: say_def P)
    then show ?thesis using True by simp
  next
    case False
    let ?n = "nat (spec_pos b off)"
    obtain sp where sp: "fwrite (in_use h b \<lparr>s_path = WF_TEST_PATH, s_pos = ?n, s_rd = True, s_wr = True, s_app = False, s_eof = False\<rparr> ?fs) h (text_bytes s)
        = Inr (length (text_bytes s), in_use h (put_at ?n (text_bytes s) b) sp ?fs)"
      using P(5,6) lim False by (simp add: fwrite_def stream_at_def in_use_def Let_def)
    have "wf_write (opened h Mode_rbplus ?fs) ?x off (text_bytes s) = Inr (SPG_OK, in_use h (put_at ?n (text_bytes s) b) sp ?fs)"
      unfolding w seek using False sp by simp
    then have "write_to_file h off s st = Inr (st\<lparr>ut_fs := closed h (put_at ?n (text_bytes s) b) ?fs, g_write_file := ?x\<lparr>fptr := 0, fd := - 1\<rparr>\<rparr>)"
      using buf op P(6) in_use_ends(1,2) [of h ?x] by (simp add: write_to_file_def)
    then have "\<exists>st'. write_to_file h off s st = Inr st' \<and> file_rel lim h st' (put_at ?n (text_bytes s) b, o')"
      by (rule closed_rel [OF r]) (simp_all add: P)
    then show ?thesis using False by simp
  qed
qed

lemma take_in_use:
  assumes "h \<noteq> 0" "fptr x = h" "s_rd sp" "s_path sp = WF_TEST_PATH"
  shows "\<exists>sp'. rf_take (in_use h b sp fs) x n =
    Inr (of_nat (length (take n (drop (s_pos sp) b))), take n (drop (s_pos sp) b), in_use h b sp' fs)"
proof -
  let ?d = "take n (drop (s_pos sp) b)"
  have at: "stream_at (in_use h b sp fs) h = Inr sp" for sp using assms(1) by (simp add: stream_at_def in_use_def)
  have upd: "in_use h b sp fs\<lparr>streams := (streams (in_use h b sp fs))(h \<mapsto> sp'')\<rparr> = in_use h b sp'' fs" for sp sp''
    by (simp add: in_use_def)
  have bytes: "content (in_use h b sp fs) WF_TEST_PATH = Some b" for sp by (simp add: in_use_def)
  have rd: "fread (in_use h b sp fs) h n =
      Inr (?d, in_use h b (sp\<lparr>s_pos := s_pos sp + length ?d, s_eof := length ?d < n\<rparr>) fs)"
    unfolding fread_def at bindE_simps Let_def assms(4) bytes upd using assms(3) by simp
  show ?thesis
  proof (cases "length ?d = n")
    case True
    then show ?thesis by (simp add: rf_take_def assms(2) rd) blast
  next
    case False
    then have "length ?d < n" by simp
    then show ?thesis using False
      by (simp add: rf_take_def assms(2) rd feof_def clearerr_def at upd del: length_take length_drop) blast
  qed
qed

lemma c_text_padded: "c_text (t @ replicate (Suc k) NUL) = Inr (takeWhile (\<lambda>c. c \<noteq> NUL) t)"
  by (induction t) (auto simp: c_text_def)

lemma len_size:
  assumes "0 \<le> sint (len :: s32)"
  shows "unat (scast len :: u64) = nat (sint len)"
proof -
  have "uint (scast len :: u64) = sint len mod 2 ^ 64" unfolding scast_eq by (simp only: uint_word_of_int) simp
  also have "\<dots> = sint len" using assms sint_lt [of len] by (intro mod_pos_pos_trivial) simp_all
  finally show ?thesis unfolding unat_eq_nat_uint by (rule arg_cong)
qed

lemma len_answer:
  assumes "0 \<le> sint (len :: s32)" "k < 128"
  shows "len = ucast (of_nat k :: u64) \<longleftrightarrow> sint len = int k"
proof -
  have u: "(ucast (of_nat k :: u64) :: s32) = of_nat k"
    using assms(2) by (intro bit_word_eqI) (simp add: bit_simps)
  have "sint (of_nat k :: s32) = int k" using assms(2) by transfer (simp add: signed_take_bit_int_eq_self)
  then show ?thesis unfolding u by (metis signed_word_eqI)
qed

lemma show_ok:
  assumes h: "h \<noteq> 0" "fptr x = h" "fd x = fileno h" and len: "0 \<le> sint len" "length d < 128"
    and ret: "(len = ucast ret) = (sint len = int (length d))"
  shows "show_read len (ret, d, in_use h b sp fs) x st =
    Inr (st\<lparr>ut_fs := closed h b fs, g_read_file := x\<lparr>fptr := 0, fd := - 1\<rparr>, out := out st @ shown len d\<rparr>)"
proof -
  have "mem_store (replicate 128 NUL) 0 (bytes_text d) = Inr (bytes_text d @ replicate (Suc (127 - length d)) NUL)"
    using len(2) by (auto simp: mem_store_def Suc_diff_le bytes_text_def simp del: replicate_Suc)
  then show ?thesis
    using in_use_ends(3) [OF h] ret c_text_padded [of "bytes_text d" "127 - length d"]
    by (simp add: show_read_def say_def shown_def del: replicate_Suc)
qed

lemma read_rel:
  assumes r: "file_rel lim h st (b, o')" and len: "0 \<le> sint len" "sint len < 128"
  shows "\<exists>st'. read_from_file h len st = Inr st' \<and> file_rel lim h st' (b, o' @ shown len (take (nat (sint len)) b))"
proof -
  let ?fs = "ut_fs st" and ?x = "(g_read_file st)\<lparr>fptr := h, fd := fileno h\<rparr>" and ?d = "take (nat (sint len)) b"
  note P = file_rel_paths [OF r]
  have op: "rf_open h ?fs (g_read_file st) = Inr (SPG_OK, opened h Mode_r ?fs, ?x)"
    unfolding rf_open_def by (rule open_rel [OF r P(3)]) simp
  let ?sp = "\<lparr>s_path = WF_TEST_PATH, s_pos = 0, s_rd = True, s_wr = False, s_app = False, s_eof = False\<rparr>"
  have o: "opened h Mode_r ?fs = in_use h b ?sp ?fs" by (simp add: opened_def in_use_def P(4) Let_def)
  obtain sp where t: "rf_take (in_use h b ?sp ?fs) ?x (nat (sint len)) = Inr (of_nat (length ?d), ?d, in_use h b sp ?fs)"
    using take_in_use [of h ?x ?sp b ?fs "nat (sint len)"] P(6) by auto
  have d: "length ?d < 128" using len by simp
  have "read_from_file h len st = Inr (st\<lparr>ut_fs := closed h b ?fs, g_read_file := ?x\<lparr>fptr := 0, fd := - 1\<rparr>, out := out st @ shown len ?d\<rparr>)"
    using op opened_usable(3) [of ?x h Mode_r ?fs] P(3,6) t o len_size [OF len(1)]
      show_ok [OF P(6) _ _ len(1) d len_answer [OF len(1) d], of ?x] by (simp add: read_from_file_def)
  then show ?thesis by (rule closed_rel [OF r]) (simp_all add: P)
qed

lemma rdm_read_rel:
  assumes r: "file_rel lim h st (b, o')" and len: "0 \<le> sint len" "sint len < 128"
  shows "\<exists>st'. rdm_read_from_file h off len st = Inr st' \<and> file_rel lim h st' (b, o' @
    (if spec_pos b off < 0 then [''Read abnormal.'', ''Get file context:'' @ [CHR 0x0A]]
     else shown len (take (nat (sint len)) (drop (nat (spec_pos b off)) b))))"
proof -
  let ?fs = "ut_fs st" and ?x = "(g_read_file st)\<lparr>fptr := h, fd := fileno h\<rparr>"
  note P = file_rel_paths [OF r]
  have op: "rf_open h ?fs (g_read_file st) = Inr (SPG_OK, opened h Mode_r ?fs, ?x)"
    unfolding rf_open_def by (rule open_rel [OF r P(3)]) simp
  note seek = seek_opened [OF P(6,4), of off Mode_r]
  have rd: "rf_bias_read (opened h Mode_r ?fs) ?x off n = bindE (bias_adjust (opened h Mode_r ?fs) h off)
      (\<lambda>(ret, fs). if ret \<noteq> SPG_OK then Inr (scast SPG_ERR, [], fs) else rf_take fs ?x n)" for n
    using opened_usable(4) [of ?x h Mode_r ?fs off n] P(3,6) by simp
  show ?thesis
  proof (cases "spec_pos b off < 0")
    case True
    obtain sp where sp: "opened h Mode_r ?fs = in_use h b sp ?fs" using opened_in_use P(4) by metis
    have "bias_adjust (opened h Mode_r ?fs) h off = Inr (SPG_ERR, in_use h b sp ?fs)"
      unfolding bias_adjust_def seek using True sp by simp
    then have b: "rf_bias_read (opened h Mode_r ?fs) ?x off n = Inr (scast SPG_ERR, [], in_use h b sp ?fs)" for n
      unfolding rd by (simp add: SPG_ERR_def SPG_OK_def)
    have neg: "len \<noteq> - 1" using len(1) by auto
    have "ucast (scast SPG_ERR :: u64) = (- 1 :: s32)" unfolding SPG_ERR_def by (intro bit_word_eqI) (simp add: bit_simps)
    then have "show_read len (scast SPG_ERR, [], in_use h b sp ?fs) ?x st =
        Inr (st\<lparr>ut_fs := closed h b ?fs, g_read_file := ?x\<lparr>fptr := 0, fd := - 1\<rparr>,
          out := out st @ [''Read abnormal.'', ''Get file context:'' @ [CHR 0x0A]]\<rparr>)"
      using in_use_ends(3) [of h ?x b sp ?fs] P(6) neg c_text_padded [of "[]" 127]
      by (simp add: show_read_def say_def mem_store_def bytes_text_def del: replicate_Suc)
    then have "rdm_read_from_file h off len st = Inr (st\<lparr>ut_fs := closed h b ?fs, g_read_file := ?x\<lparr>fptr := 0, fd := - 1\<rparr>,
          out := out st @ [''Read abnormal.'', ''Get file context:'' @ [CHR 0x0A]]\<rparr>)"
      using op b by (simp add: rdm_read_from_file_def)
    then have "\<exists>st'. rdm_read_from_file h off len st = Inr st' \<and> file_rel lim h st' (b, o' @ [''Read abnormal.'', ''Get file context:'' @ [CHR 0x0A]])"
      by (rule closed_rel [OF r]) (simp_all add: P)
    then show ?thesis using True by simp
  next
    case False
    let ?d = "take (nat (sint len)) (drop (nat (spec_pos b off)) b)"
    let ?sp = "\<lparr>s_path = WF_TEST_PATH, s_pos = nat (spec_pos b off), s_rd = True, s_wr = False, s_app = False, s_eof = False\<rparr>"
    have "bias_adjust (opened h Mode_r ?fs) h off = Inr (SPG_OK, in_use h b ?sp ?fs)"
      unfolding bias_adjust_def seek using False by simp
    then have b: "rf_bias_read (opened h Mode_r ?fs) ?x off n = rf_take (in_use h b ?sp ?fs) ?x n" for n
      unfolding rd by simp
    obtain sp where t: "rf_take (in_use h b ?sp ?fs) ?x (nat (sint len)) = Inr (of_nat (length ?d), ?d, in_use h b sp ?fs)"
      using take_in_use [of h ?x ?sp b ?fs "nat (sint len)"] P(6) by auto
    have d: "length ?d < 128" using len by simp
    have "rdm_read_from_file h off len st = Inr (st\<lparr>ut_fs := closed h b ?fs, g_read_file := ?x\<lparr>fptr := 0, fd := - 1\<rparr>, out := out st @ shown len ?d\<rparr>)"
      using op b P(6) t len_size [OF len(1)] show_ok [OF P(6) _ _ len(1) d len_answer [OF len(1) d], of ?x]
      by (simp add: rdm_read_from_file_def)
    then have "\<exists>st'. rdm_read_from_file h off len st = Inr st' \<and> file_rel lim h st' (b, o' @ shown len ?d)"
      by (rule closed_rel [OF r]) (simp_all add: P)
    then show ?thesis using False by simp
  qed
qed

interpretation file_machine: simulation "menu_exec h" "file_spec lim" "file_rel lim h" for h lim
proof
  fix c st a a'
  assume r: "file_rel lim h st a" and step: "file_spec lim c a = Some a'"
  obtain b o' where a: "a = (b, o')" by (cases a)
  note r = r [unfolded a]
  show "\<exists>st'. menu_exec h c st = Inr st' \<and> file_rel lim h st' a'"
  proof (cases c)
    case (Item_Append s)
    then show ?thesis using step append_rel [OF r, of s] by (auto simp: a split: if_splits)
  next
    case (Item_Write off s)
    then show ?thesis using step write_rel [OF r, of s off] by (auto simp: a split: if_splits)
  next
    case (Item_Read len)
    then show ?thesis using step read_rel [OF r, of len] by (auto simp: a split: if_splits)
  next
    case (Item_Rdm_Read off len)
    then show ?thesis using step rdm_read_rel [OF r, of len off] by (auto simp: a split: if_splits)
  qed (use step in \<open>simp add: a\<close>)
qed

section \<open>The whole program\<close>

lemma steps_no_other: "steps (file_spec lim) items a = Some a' \<Longrightarrow> Item_Other \<notin> set items"
  by (induction items arbitrary: a) (auto split: option.splits)

text \<open>C11. The test program of the file objects, on a path it may read and write: its items, up to the one that ends
  it, do to the file and print what the specification of a file of bytes says: an append adds the text, a
  write puts it at the offset (or counted from the end), a read shows the bytes asked for and says so where there
  are fewer. No assertion of the program fails, no buffer is overrun and no stream stays open.\<close>

theorem fileio_refines:
  assumes "h \<noteq> 0" "streams fs h = None" "may_read fs WF_TEST_PATH" "may_write fs WF_TEST_PATH"
    and "content fs WF_TEST_PATH \<noteq> None \<or> may_create fs WF_TEST_PATH"
    and "steps (file_spec (limit fs)) items (bytes_of fs WF_TEST_PATH, []) = Some (b, o')"
  shows "\<exists>st. do_fileio_ut h (True, True) fs (items @ Item_Other # others) = Inr st
    \<and> bytes_of (ut_fs st) WF_TEST_PATH = b \<and> out st = o' \<and> streams (ut_fs st) h = None"
proof -
  obtain w r a where objs: "create_wfile (True, True) (Some WF_TEST_PATH) = Inr (Some w)"
      "create_rfile (True, True) (Some WF_TEST_PATH) = Inr (Some r)"
      "create_afile (True, True) (Some WF_TEST_PATH) = Inr (Some a)"
    and p: "file_obj.path w = WF_TEST_PATH" "file_obj.path r = WF_TEST_PATH" "file_obj.path a = WF_TEST_PATH"
    by (simp add: create_wfile_def create_rfile_def create_afile_def create_obj_def)
  let ?st = "\<lparr>ut_fs = fs, g_write_file = w, g_append_file = a, g_read_file = r, out = []\<rparr>"
  have "file_rel (limit fs) h ?st (bytes_of fs WF_TEST_PATH, [])"
    using assms(1-5) p by (simp add: file_rel_def Let_def)
  from file_machine.run [OF this assms(6)] obtain st where
    st: "runE (menu_exec h) items ?st = Inr st" "file_rel (limit fs) h st (b, o')" by blast
  have "takeWhile (\<lambda>i. i \<noteq> Item_Other) (items @ Item_Other # others) = items"
    using steps_no_other [OF assms(6)] by (subst takeWhile_append2) auto
  then have "do_fileio_ut h (True, True) fs (items @ Item_Other # others) = Inr st"
    using st(1) by (simp add: do_fileio_ut_def objs)
  then show ?thesis using st(2) by (auto simp: file_rel_def Let_def)
qed

definition demo_dir :: fsys where
  "demo_dir = \<lparr>content = Map.empty, streams = Map.empty, may_read = (\<lambda>_. True), may_write = (\<lambda>_. True),
     may_create = (\<lambda>_. True), limit = 1000\<rparr>"

theorem fileio_refines_witness:
  "\<exists>st. do_fileio_ut 7 (True, True) demo_dir
      ([Item_Append ''sponge'', Item_Write 1 ''PO'', Item_Rdm_Read (- 3) 5, Item_Read 3] @ Item_Other # [Item_Read 1]) = Inr st
    \<and> bytes_of (ut_fs st) WF_TEST_PATH = text_bytes ''sPOnge''
    \<and> out st = [''Read abnormal.'', ''Get file context:ge'' @ [CHR 0x0A], ''Get file context:sPO'' @ [CHR 0x0A]]
    \<and> streams (ut_fs st) 7 = None"
  by (rule fileio_refines)
    (simp_all add: demo_dir_def bytes_of_def good_text_def text_bytes_def put_at_def spec_pos_def shown_def bytes_text_def
      char_of_def bit_0)

end
