(* ===== verification/Pool_Test.thy ===== *)
theory Pool_Test
  imports Mempool Zmalloc Comparators
begin

text \<open>
  src/unit_test/mp_ut.c: the test program of the memory pool, with the callbacks it gives the pool, on the
  allocator of theory Zmalloc, which also gives the pool its struct and its slot arrays. What a callback logs is counted; one that would have stopped the program leaves
  the reason in \<open>crash\<close>, and what comes behind it does not count. The three numbers typed in for a round are
  an argument, and so is what the array of the test holds at first: the code does not clear it.
\<close>

section \<open>The callbacks\<close>

record lala_heap =
  zmst :: zm_state
  lalala :: "nat \<rightharpoonup> u8 list"
  slabs :: "nat \<rightharpoonup> u8 list"
  top :: nat
  oh_no :: nat
  crash :: "fault option"

text \<open>Blocks start with the header of zmalloc; mgList is behind it.\<close>

fun list_init :: "nat \<Rightarrow> nat \<Rightarrow> u8 list \<Rightarrow> fault + u8 list" where
  "list_init 0 idx la = Inr la"
| "list_init (Suc k) idx la = bindE (mem_store la (8 + 4 * idx) (int_bytes (of_nat idx))) (list_init k (idx + 1))"

text \<open>How many messages the check of an element logs.\<close>

fun list_bad :: "nat \<Rightarrow> nat \<Rightarrow> u8 list \<Rightarrow> fault + nat" where
  "list_bad 0 idx la = Inr 0"
| "list_bad (Suc k) idx la =
     bindE (mem_slice la (8 + 4 * idx) 4) (\<lambda>x. bindE (list_bad k (idx + 1) la) (\<lambda>n.
     Inr (if le32 x \<noteq> (of_nat idx :: s32) then n + 1 else n)))"

definition alloc_unit :: "libc_malloc \<Rightarrow> lala_heap \<Rightarrow> nat option \<times> lala_heap" where
  "alloc_unit malloc h =
     (case bindE (zmalloc malloc (zmst h) 400) (\<lambda>(p, st). bindE (derefE p) (\<lambda>la.
           bindE (list_init 100 0 la) (\<lambda>la. Inr (la, st)))) of
        Inl e \<Rightarrow> (None, h\<lparr>crash := Some e\<rparr>)
      | Inr (la, st) \<Rightarrow> (Some (top h), h\<lparr>zmst := st, lalala := (lalala h)(top h \<mapsto> la), top := top h + 1\<rparr>))"

definition free_unit :: "nat option \<Rightarrow> lala_heap \<Rightarrow> lala_heap" where
  "free_unit element h =
     (case bindE (derefE element) (\<lambda>a. bindE (case lalala h a of None \<Rightarrow> Inl Dangling | Some la \<Rightarrow> Inr la) (\<lambda>la.
           bindE (list_bad 100 0 la) (\<lambda>n. bindE (zfree (zmst h) (Some la)) (\<lambda>st.
           Inr (h\<lparr>zmst := st, lalala := (lalala h)(a := None), oh_no := oh_no h + n\<rparr>))))) of
        Inl e \<Rightarrow> h\<lparr>crash := Some e\<rparr>
      | Inr h \<Rightarrow> h)"

text \<open>vfy_itm is not called by the program.\<close>

fun vfy_itm :: "lala_heap \<Rightarrow> nat option list \<Rightarrow> nat \<Rightarrow> nat \<Rightarrow> fault + nat" where
  "vfy_itm h la i 0 = Inr 0"
| "vfy_itm h la i (Suc k) =
     bindE (mem_slice la i 1) (\<lambda>ll. bindE (derefE (hd ll)) (\<lambda>a.
     bindE (case lalala h a of None \<Rightarrow> Inl Dangling | Some ll \<Rightarrow> list_bad 100 0 ll) (\<lambda>n.
     bindE (vfy_itm h la (i + 1) k) (\<lambda>n'. Inr (n + n')))))"

section \<open>The memory of the pool\<close>

text \<open>
  smalloc, scalloc and sfree for the struct and the slot array of the pool (theory Zmalloc). \<open>slabs\<close> holds these
  blocks with their headers; what the pool has in its slots is a field of the pool, filled at first with what the block holds.
\<close>

definition slot_view :: "u8 list \<Rightarrow> nat option list" where
  "slot_view la = map (\<lambda>i. let x = size_of_bytes (take 8 (drop (8 + 8 * i) la)) in if x = 0 then None else Some (unat x))
     [0..<(length la - 8) div 8]"

definition keep_slab :: "u8 list option \<times> zm_state \<Rightarrow> lala_heap \<Rightarrow> (nat \<times> u8 list) option \<times> lala_heap" where
  "keep_slab = (\<lambda>(p, st) h. case p of None \<Rightarrow> (None, h\<lparr>zmst := st\<rparr>)
     | Some la \<Rightarrow> (Some (top h, la), h\<lparr>zmst := st, slabs := (slabs h)(top h \<mapsto> la), top := top h + 1\<rparr>))"

definition pool_mem :: "libc_malloc \<Rightarrow> libc_malloc \<Rightarrow> (nat, lala_heap) slot_mem" where
  "pool_mem malloc calloc1 = \<lparr>
     smalloc_slots = (\<lambda>n h. bindE (smalloc malloc (zmst h) n) (\<lambda>r. let (b, h) = keep_slab r h in Inr (map_option (apsnd slot_view) b, h))),
     scalloc_slots = (\<lambda>n h. bindE (scalloc calloc1 (zmst h) n) (\<lambda>r. let (b, h) = keep_slab r h in Inr (map_option (apsnd slot_view) b, h))),
     scalloc_struct = (\<lambda>n h. bindE (scalloc calloc1 (zmst h) n) (\<lambda>r. let (b, h) = keep_slab r h in Inr (map_option fst b, h))),
     sfree_block = (\<lambda>a h. bindE (case slabs h a of None \<Rightarrow> Inl Invalid_Free | Some la \<Rightarrow> Inr la) (\<lambda>la.
       bindE (sfree (zmst h) (Some la)) (\<lambda>st. Inr (h\<lparr>zmst := st, slabs := (slabs h)(a := None)\<rparr>))))\<rparr>"

section \<open>The program\<close>

datatype mp_event = Get_Failed | Create_Failed | After_Get s32 "s32 list" s32 | After_Change s32 "s32 list" s32 | After_Put s32 "s32 list" s32

definition DO_ALLOC_FREE_TEST_TIMES :: nat where "DO_ALLOC_FREE_TEST_TIMES = 40"

definition mp_info :: "(s32 \<Rightarrow> s32 list \<Rightarrow> s32 \<Rightarrow> mp_event) \<Rightarrow> ('n, 'w) mempool \<Rightarrow> mp_event" where
  "mp_info ev mp = ev (freeCnt mp) (rev (wl mp)) (slotCnt mp)"

text \<open>What is typed in is high, middle and low.\<close>

definition mdy_mp_wl :: "('n, 'w) slot_mem \<Rightarrow> s32 \<times> s32 \<times> s32 \<Rightarrow> ('n, 'w) mempool \<Rightarrow> 'w \<Rightarrow> fault + ('n, 'w) mempool \<times> 'w" where
  "mdy_mp_wl H = (\<lambda>(hg, md, lw) g_mp w. bindE (update_mpwl H g_mp hg md lw w) (\<lambda>(_, g_mp, w). Inr (g_mp, w)))"

text \<open>\<open>inp r\<close> is typed in when \<open>r\<close> rounds are left behind this one.\<close>

fun do_alloc_free_test :: "('n, 'w) slot_mem \<Rightarrow> (nat \<Rightarrow> s32 \<times> s32 \<times> s32) \<Rightarrow> nat \<Rightarrow> ('n, 'w) mempool \<Rightarrow> 'n option list \<Rightarrow> 'w
    \<Rightarrow> fault + mp_event list \<times> ('n, 'w) mempool \<times> 'w" where
  "do_alloc_free_test H inp 0 g_mp tmp w = Inr ([], g_mp, w)"
| "do_alloc_free_test H inp (Suc r) g_mp tmp w =
     bindE (get_mp_nodes H g_mp tmp 10 w) (\<lambda>(ret, g_mp, tmp, w).
     if SPG_OK \<noteq> ret then Inr ([Get_Failed], g_mp, w)
     else let got = mp_info After_Get g_mp in
       bindE (mdy_mp_wl H (inp r) g_mp w) (\<lambda>(g_mp, w).
       let changed = mp_info After_Change g_mp in
       bindE (put_mp_nodes H g_mp tmp 10 w) (\<lambda>(g_mp, w).
       let done = mp_info After_Put g_mp in
       bindE (do_alloc_free_test H inp r g_mp tmp w) (\<lambda>(lg, g_mp, w). Inr ([got, changed, done] @ lg, g_mp, w)))))"

definition ut_mempool :: "libc_malloc \<Rightarrow> libc_malloc \<Rightarrow> nat option list \<Rightarrow> (nat \<Rightarrow> s32 \<times> s32 \<times> s32)
    \<Rightarrow> lala_heap \<Rightarrow> fault + mp_event list \<times> lala_heap" where
  "ut_mempool malloc calloc1 garbage inp h =
     (let H = pool_mem malloc calloc1 in
      bindE (create_mp H 128 512 1024 (alloc_unit malloc) free_unit h) (\<lambda>(g_mp, h).
      case g_mp of None \<Rightarrow> Inr ([Create_Failed], h)
      | Some g_mp \<Rightarrow>
          bindE (do_alloc_free_test H inp DO_ALLOC_FREE_TEST_TIMES g_mp garbage h) (\<lambda>(lg, g_mp, h).
          bindE (destroy_mp H g_mp h) (\<lambda>h. Inr (lg, h)))))"

section \<open>Elements\<close>

definition list_image :: "nat \<Rightarrow> nat \<Rightarrow> u8 list" where
  "list_image idx k = concat (map (\<lambda>i. int_bytes (of_nat i)) [idx..<idx + k])"

lemma length_int_bytes [simp]: "length (int_bytes x) = 4"
  by (simp add: int_bytes_def)

lemma list_image_Suc: "list_image idx (Suc k) = int_bytes (of_nat idx) @ list_image (idx + 1) k"
  by (simp add: list_image_def upt_conv_Cons del: upt_Suc)

lemma list_image_0 [simp]: "list_image idx 0 = []"
  by (simp add: list_image_def)

lemma list_init_image:
  "length a = 8 + 4 * idx \<Longrightarrow> length b = 4 * k \<Longrightarrow> list_init k idx (a @ b) = Inr (a @ list_image idx k)"
proof (induction k arbitrary: idx a b)
  case (Suc k)
  have "mem_store (a @ b) (8 + 4 * idx) (int_bytes (of_nat idx)) = Inr ((a @ int_bytes (of_nat idx)) @ drop 4 b)"
    using Suc.prems by (simp add: mem_store_def int_bytes_def)
  then show ?case
    using Suc.IH [of "a @ int_bytes (of_nat idx)" "idx + 1" "drop 4 b"] Suc.prems by (simp add: list_image_Suc)
qed simp

lemma list_bad_image:
  "length a = 8 + 4 * idx \<Longrightarrow> list_bad k idx (a @ list_image idx k @ r) = Inr 0"
proof (induction k arbitrary: idx a)
  case (Suc k)
  have "mem_slice (a @ list_image idx (Suc k) @ r) (8 + 4 * idx) 4 = Inr (int_bytes (of_nat idx))"
    using Suc.prems by (simp add: list_image_Suc mem_slice_def)
  then show ?case
    using Suc.IH [of "a @ int_bytes (of_nat idx)" "idx + 1"] Suc.prems by (simp add: list_image_Suc)
qed simp

text \<open>
  Every element is whole, the addresses to come are free, and the allocator counts 408 bytes for each element and what
  it charges for the blocks of the pool. Nothing has crashed, at least where malloc has memory for the elements. malloc and
  calloc give blocks of the size asked for.
\<close>

definition lala :: "u8 list" where
  "lala = size_bytes 400 @ list_image 0 100"

definition sized :: "libc_malloc \<Rightarrow> bool" where
  "sized malloc \<longleftrightarrow> (\<forall>n b. malloc n = Some b \<longrightarrow> length b = unat n)"

definition unit_memory :: "libc_malloc \<Rightarrow> bool" where
  "unit_memory malloc \<longleftrightarrow> (\<exists>b. malloc 408 = Some b \<and> length b = 408)"

definition slab_charge :: "lala_heap \<Rightarrow> u64" where
  "slab_charge h = (\<Sum>a\<in>dom (slabs h). charge (the (slabs h a)))"

definition lala_ok :: "libc_malloc \<Rightarrow> libc_malloc \<Rightarrow> nat \<Rightarrow> u64 \<Rightarrow> lala_heap \<Rightarrow> bool" where
  "lala_ok malloc calloc1 n base h \<longleftrightarrow> sized malloc \<and> sized calloc1 \<and> (crash h = None \<or> \<not> unit_memory malloc) \<and> oh_no h = n
     \<and> finite (dom (lalala h)) \<and> dom (lalala h) \<subseteq> {..<top h} \<and> (\<forall>la\<in>ran (lalala h). \<exists>r. la = lala @ r)
     \<and> finite (dom (slabs h)) \<and> dom (slabs h) \<subseteq> {..<top h} \<and> (\<forall>la\<in>ran (slabs h). 8 \<le> length la)
     \<and> used_memory (zmst h) = base + of_nat (card (dom (lalala h))) * 408 + slab_charge h"

abbreviation lala_blks :: "lala_heap \<Rightarrow> nat set" where
  "lala_blks h \<equiv> dom (slabs h)"

abbreviation lala_out :: "lala_heap \<Rightarrow> nat set" where
  "lala_out h \<equiv> dom (lalala h)"

lemma lala_good: "list_bad 100 0 (lala @ r) = Inr 0" "zfree st (Some (lala @ r)) = Inr (update_zmalloc_stat_free st 408)"
proof -
  show "list_bad 100 0 (lala @ r) = Inr 0" unfolding lala_def append_assoc by (rule list_bad_image) simp
  show "zfree st (Some (lala @ r)) = Inr (update_zmalloc_stat_free st 408)"
    by (simp add: lala_def zfree_def PREFIX_SIZE_def)
qed

lemma stat_size_408: "stat_size 408 = 408"
  by (simp add: stat_size_def)

lemma free_unit_ok:
  assumes h: "lala_ok malloc calloc1 n base h" and a: "a \<in> lala_out h"
  shows "lala_ok malloc calloc1 n base (free_unit (Some a) h)" "lala_out (free_unit (Some a) h) = lala_out h - {a}"
proof -
  obtain la where at: "lalala h a = Some la" using a by auto
  then have "la \<in> ran (lalala h)" by (auto simp: ran_def)
  then obtain r where la: "la = lala @ r" using h by (auto simp: lala_ok_def)
  have f: "free_unit (Some a) h = h\<lparr>zmst := update_zmalloc_stat_free (zmst h) 408, lalala := (lalala h)(a := None)\<rparr>"
    using at by (simp add: free_unit_def lala_good la)
  then show "lala_out (free_unit (Some a) h) = lala_out h - {a}" by simp
  have "card (lala_out h) = Suc (card (lala_out h - {a}))"
    using h a by (intro card.remove) (simp_all add: lala_ok_def)
  then have "(of_nat (card (lala_out h)) :: u64) = of_nat (card (lala_out h - {a})) + 1" by simp
  then show "lala_ok malloc calloc1 n base (free_unit (Some a) h)"
    using h unfolding f lala_ok_def
    by (auto simp: update_zmalloc_stat_free_def stat_size_408 ran_def slab_charge_def algebra_simps)
qed

text \<open>On a block of the right size the initialisation fills the whole of it.\<close>

lemma list_init_long:
  "list_init k idx la = Inr la' \<Longrightarrow> length a = 8 + 4 * idx \<Longrightarrow> take (8 + 4 * idx) la = a \<Longrightarrow> 8 + 4 * idx \<le> length la \<Longrightarrow>
   \<exists>r. la' = a @ list_image idx k @ r"
proof (induction k arbitrary: idx la a)
  case 0
  then show ?case by (metis append_take_drop_id list_image_0 append_Nil list_init.simps(1) sum.inject(2))
next
  case (Suc k)
  let ?b = "int_bytes (of_nat idx)"
  from Suc.prems(1) obtain l where l: "mem_store la (8 + 4 * idx) ?b = Inr l" "list_init k (idx + 1) l = Inr la'"
    by (auto simp: bindE_Inr_iff)
  have len: "8 + 4 * idx + 4 \<le> length la" and eq: "l = a @ ?b @ drop (8 + 4 * idx + 4) la"
    using l(1) Suc.prems(3,4) by (auto simp: mem_store_def int_bytes_def split: if_splits)
  show ?case
    using Suc.IH [OF l(2), of "a @ ?b"] Suc.prems(2) len by (simp add: eq list_image_Suc)
qed

lemma crash_ok: "lala_ok malloc calloc1 n base h \<Longrightarrow> \<not> unit_memory malloc \<Longrightarrow> lala_ok malloc calloc1 n base (h\<lparr>crash := Some e\<rparr>)"
  by (simp add: lala_ok_def slab_charge_def)

lemma alloc_unit_cases:
  assumes h: "lala_ok malloc calloc1 n base h"
  shows "(\<exists>e. alloc_unit malloc h = (None, h\<lparr>crash := Some e\<rparr>) \<and> \<not> unit_memory malloc)
    \<or> (\<exists>la r. la = lala @ r \<and> alloc_unit malloc h = (Some (top h), h\<lparr>zmst := update_zmalloc_stat_alloc (zmst h) 408,
         lalala := (lalala h)(top h \<mapsto> la), top := top h + 1\<rparr>))"
proof (cases "malloc 408")
  case None
  then show ?thesis by (auto simp: alloc_unit_def zmalloc_def PREFIX_SIZE_def unit_memory_def)
next
  case (Some b)
  show ?thesis
  proof (cases "8 \<le> length b")
    case False
    then have "\<not> unit_memory malloc" using Some by (auto simp: unit_memory_def)
    then show ?thesis using Some False by (auto simp: alloc_unit_def zmalloc_def PREFIX_SIZE_def mem_store_def)
  next
    case True
    let ?la = "size_bytes 400 @ drop 8 b"
    have z: "zmalloc malloc (zmst h) 400 = Inr (Some ?la, update_zmalloc_stat_alloc (zmst h) 408)"
      using Some True by (simp add: zmalloc_def PREFIX_SIZE_def store_header)
    show ?thesis
    proof (cases "list_init 100 0 ?la")
      case (Inl e)
      then have "length b \<noteq> 408" using list_init_image [of "size_bytes 400" 0 "drop 8 b" 100] by auto
      then have "\<not> unit_memory malloc" using Some by (simp add: unit_memory_def)
      then show ?thesis using z Inl by (auto simp: alloc_unit_def)
    next
      case (Inr la)
      obtain r where "la = lala @ r"
        using list_init_long [OF Inr, of "size_bytes 400"] by (auto simp: lala_def)
      then show ?thesis using z Inr by (auto simp: alloc_unit_def)
    qed
  qed
qed

lemma new_unit_ok:
  assumes "lala_ok malloc calloc1 n base h" "la = lala @ r" "h' = h\<lparr>zmst := update_zmalloc_stat_alloc (zmst h) 408,
         lalala := (lalala h)(top h \<mapsto> la), top := top h + 1\<rparr>"
  shows "lala_ok malloc calloc1 n base h' \<and> top h \<notin> lala_out h \<and> lala_out h' = insert (top h) (lala_out h)"
proof -
  have new: "top h \<notin> lala_out h" using assms(1) by (auto simp: lala_ok_def)
  then have "ran ((lalala h)(top h \<mapsto> la)) = insert la (ran (lalala h))" by auto
  then show ?thesis
    using assms new
    by (auto simp: lala_ok_def update_zmalloc_stat_alloc_def stat_size_408 slab_charge_def algebra_simps simp del: ran_map_upd)
qed

text \<open>Blocks of the pool.\<close>

lemma slab_charge_new:
  assumes "finite (dom (slabs h))" "slabs h a = None" "slabs h' = (slabs h)(a \<mapsto> la)"
  shows "slab_charge h' = slab_charge h + charge la"
proof -
  have "(\<Sum>x\<in>dom (slabs h). charge (the (slabs h' x))) = slab_charge h"
    unfolding slab_charge_def by (rule sum.cong) (use assms in auto)
  moreover have "dom (slabs h') = insert a (dom (slabs h))" "a \<notin> dom (slabs h)" using assms(2,3) by auto
  ultimately show ?thesis using assms(1,3) by (simp add: slab_charge_def add.commute)
qed

lemma slab_charge_end:
  assumes "finite (dom (slabs h))" "slabs h a = Some la" "slabs h' = (slabs h)(a := None)"
  shows "slab_charge h' = slab_charge h - charge la"
proof -
  have "finite (dom (slabs h'))" using assms(1,3) by simp
  moreover have "slabs h' a = None" "slabs h = (slabs h')(a \<mapsto> la)" using assms(2,3) by auto
  ultimately have "slab_charge h = slab_charge h' + charge la" by (rule slab_charge_new)
  then show ?thesis by simp
qed

lemma keep_slab_ok:
  assumes h: "lala_ok malloc calloc1 n base h"
    and eff: "case p of None \<Rightarrow> st = zmst h | Some b \<Rightarrow> 8 \<le> length b \<and> used_memory st = used_memory (zmst h) + charge b"
    and r: "keep_slab (p, st) h = (r, h')"
  shows "lala_ok malloc calloc1 n base h' \<and> lala_out h' = lala_out h
    \<and> (case r of None \<Rightarrow> p = None \<and> lala_blks h' = lala_blks h
       | Some (a, la) \<Rightarrow> p = Some la \<and> a \<notin> lala_blks h \<and> lala_blks h' = insert a (lala_blks h))"
proof (cases p)
  case None
  then show ?thesis using h eff r by (auto simp: keep_slab_def)
next
  case (Some b)
  have h': "h' = h\<lparr>zmst := st, slabs := (slabs h)(top h \<mapsto> b), top := top h + 1\<rparr>" "r = Some (top h, b)"
    using r Some by (simp_all add: keep_slab_def)
  have new: "top h \<notin> lala_blks h" "slabs h (top h) = None" using h by (auto simp: lala_ok_def)
  have f: "finite (lala_blks h)" using h by (simp add: lala_ok_def)
  have "slab_charge h' = slab_charge h + charge b" by (rule slab_charge_new [OF f new(2)]) (simp add: h'(1))
  moreover have "ran (slabs h') \<subseteq> insert b (ran (slabs h))" using new(2) by (simp add: h'(1))
  ultimately have "lala_ok malloc calloc1 n base h'"
    using h eff Some new by (auto simp: lala_ok_def h'(1) ran_map_upd)
  then show ?thesis using Some h' new by simp
qed

lemma fresh_block:
  assumes h: "lala_ok malloc calloc1 n base h" and sz: "unat (sz :: u64) < 2 ^ 34"
    and f: "z = zmalloc malloc \<or> z = zcalloc calloc1"
  shows "\<exists>p st. z (zmst h) sz = Inr (p, st) \<and> (case p of None \<Rightarrow> st = zmst h
    | Some b \<Rightarrow> length b = unat sz + 8 \<and> used_memory st = used_memory (zmst h) + charge b)"
proof -
  have m: "sized malloc" "sized calloc1" using h by (simp_all add: lala_ok_def)
  have add: "unat (sz + PREFIX_SIZE) = unat sz + 8" using sz by (simp add: PREFIX_SIZE_def unat_add_no_wrap)
  have run: "\<exists>p st. z (zmst h) sz = Inr (p, st) \<and> (\<forall>b. p = Some b \<longrightarrow> length b = unat sz + 8)"
  proof -
    obtain g where g: "sized g" "z (zmst h) sz = (case g (sz + PREFIX_SIZE) of None \<Rightarrow> Inr (None, zmst h)
        | Some ptr \<Rightarrow> bindE (mem_store ptr 0 (size_bytes sz)) (\<lambda>ptr. Inr (Some ptr, update_zmalloc_stat_alloc (zmst h) (sz + PREFIX_SIZE))))"
      using f m unfolding zmalloc_def zcalloc_def by (elim disjE) auto
    then show ?thesis using add by (auto simp: sized_def store_header split: option.splits)
  qed
  then obtain p st where z: "z (zmst h) sz = Inr (p, st)" "\<forall>b. p = Some b \<longrightarrow> length b = unat sz + 8" by blast
  moreover have "case p of None \<Rightarrow> st = zmst h | Some b \<Rightarrow> used_memory st = used_memory (zmst h) + charge b"
    using f z(1) zmalloc_effect [of malloc "zmst h" sz p st] zcalloc_effect [of calloc1 "zmst h" sz p st]
    by (auto split: option.splits)
  ultimately show ?thesis by (intro exI [of _ p] exI [of _ st]) (simp split: option.splits)
qed

lemma block_ok:
  assumes h: "lala_ok malloc calloc1 n base h" and sz: "unat (sz :: u64) < 2 ^ 34" and f: "z = zmalloc malloc \<or> z = zcalloc calloc1"
  obtains p st r h' where "z (zmst h) sz = Inr (p, st)" "keep_slab (p, st) h = (r, h')" "lala_ok malloc calloc1 n base h'"
    "lala_out h' = lala_out h" "case r of None \<Rightarrow> lala_blks h' = lala_blks h
       | Some (a, la) \<Rightarrow> length la = unat sz + 8 \<and> a \<notin> lala_blks h \<and> lala_blks h' = insert a (lala_blks h)"
proof -
  obtain p st where z: "z (zmst h) sz = Inr (p, st)" "case p of None \<Rightarrow> st = zmst h
      | Some b \<Rightarrow> length b = unat sz + 8 \<and> used_memory st = used_memory (zmst h) + charge b"
    using fresh_block [OF h sz f] by blast
  obtain r h' where k: "keep_slab (p, st) h = (r, h')" by fastforce
  have e: "case p of None \<Rightarrow> st = zmst h | Some b \<Rightarrow> 8 \<le> length b \<and> used_memory st = used_memory (zmst h) + charge b"
    using z(2) by (auto split: option.splits)
  show thesis using that [OF z(1) k] keep_slab_ok [OF h e k] z(2) by (auto split: option.splits)
qed

lemma end_slab:
  assumes h: "lala_ok malloc calloc1 n base h" and a: "a \<in> lala_blks h"
  shows "\<exists>h'. sfree_block (pool_mem malloc calloc1) a h = Inr h' \<and> lala_ok malloc calloc1 n base h'
    \<and> lala_out h' = lala_out h \<and> lala_blks h' = lala_blks h - {a}"
proof -
  obtain la where la: "slabs h a = Some la" using a by auto
  then have len: "8 \<le> length la" using h by (auto simp: lala_ok_def ran_def)
  let ?h = "h\<lparr>zmst := (zmst h)\<lparr>used_memory := used_memory (zmst h) - charge la\<rparr>, slabs := (slabs h)(a := None)\<rparr>"
  have "sfree_block (pool_mem malloc calloc1) a h = Inr ?h"
    using la zfree_effect [OF len, of "zmst h"] by (simp add: pool_mem_def sfree_def)
  moreover have "slab_charge ?h = slab_charge h - charge la"
    by (rule slab_charge_end [OF _ la]) (use h in \<open>simp_all add: lala_ok_def\<close>)
  then have "lala_ok malloc calloc1 n base ?h" using h by (auto simp: lala_ok_def ran_def)
  ultimately show ?thesis by (intro exI [of _ ?h]) auto
qed

interpretation lala_source: pool_client "alloc_unit malloc" free_unit "lala_ok malloc calloc1 n base" lala_out
    "pool_mem malloc calloc1" lala_blks for malloc calloc1 n base
proof unfold_locales
  fix h a h' assume "lala_ok malloc calloc1 n base h" "alloc_unit malloc h = (Some a, h')"
  then show "lala_ok malloc calloc1 n base h' \<and> a \<notin> lala_out h \<and> lala_out h' = insert a (lala_out h)"
    using alloc_unit_cases [of malloc calloc1 n base h] new_unit_ok [of malloc calloc1 n base h] by auto
next
  fix h h' assume "lala_ok malloc calloc1 n base h" "alloc_unit malloc h = (None, h')"
  then show "lala_ok malloc calloc1 n base h' \<and> lala_out h' = lala_out h"
    using alloc_unit_cases [of malloc calloc1 n base h] crash_ok [of malloc calloc1 n base h] by auto
next
  fix h a assume "lala_ok malloc calloc1 n base h" "a \<in> lala_out h"
  then show "lala_ok malloc calloc1 n base (free_unit (Some a) h) \<and> lala_out (free_unit (Some a) h) = lala_out h - {a}"
    using free_unit_ok by blast
next
  fix h r h' assume "lala_ok malloc calloc1 n base h" "alloc_unit malloc h = (r, h')"
  then show "lala_blks h' = lala_blks h" using alloc_unit_cases [of malloc calloc1 n base h] by auto
next
  fix h a assume "lala_ok malloc calloc1 n base h" "a \<in> lala_out h"
  then show "lala_blks (free_unit (Some a) h) = lala_blks h"
    by (auto simp: free_unit_def bindE_def split: option.splits sum.splits)
next
  fix h and sz :: u64 and f
  assume h: "lala_ok malloc calloc1 n base h" "unat sz < 2 ^ 34"
    and f: "f = smalloc_slots (pool_mem malloc calloc1) \<or> f = scalloc_slots (pool_mem malloc calloc1)"
  obtain z where z: "z = zmalloc malloc \<or> z = zcalloc calloc1"
      "f sz h = bindE (z (zmst h) sz) (\<lambda>r. let (b, h) = keep_slab r h in Inr (map_option (apsnd slot_view) b, h))"
    using f by (auto simp: pool_mem_def smalloc_def scalloc_def)
  obtain p st r h' where k: "z (zmst h) sz = Inr (p, st)" "keep_slab (p, st) h = (r, h')" "lala_ok malloc calloc1 n base h'"
    "lala_out h' = lala_out h" "case r of None \<Rightarrow> lala_blks h' = lala_blks h
       | Some (a, la) \<Rightarrow> length la = unat sz + 8 \<and> a \<notin> lala_blks h \<and> lala_blks h' = insert a (lala_blks h)"
    by (rule block_ok [OF h z(1)])
  show "\<exists>r h'. f sz h = Inr (r, h') \<and> lala_ok malloc calloc1 n base h' \<and> lala_out h' = lala_out h
      \<and> (case r of None \<Rightarrow> lala_blks h' = lala_blks h
         | Some (p, a) \<Rightarrow> length a = unat sz div 8 \<and> p \<notin> lala_blks h \<and> lala_blks h' = insert p (lala_blks h))"
    using z(2) k by (intro exI [of _ "map_option (apsnd slot_view) r"] exI [of _ h']) (auto simp: slot_view_def split: option.splits)
next
  fix h and sz :: u64 assume h: "lala_ok malloc calloc1 n base h" "unat sz < 2 ^ 34"
  obtain p st r h' where k: "zcalloc calloc1 (zmst h) sz = Inr (p, st)" "keep_slab (p, st) h = (r, h')" "lala_ok malloc calloc1 n base h'"
    "lala_out h' = lala_out h" "case r of None \<Rightarrow> lala_blks h' = lala_blks h
       | Some (a, la) \<Rightarrow> length la = unat sz + 8 \<and> a \<notin> lala_blks h \<and> lala_blks h' = insert a (lala_blks h)"
    by (rule block_ok [OF h, of "zcalloc calloc1"]) blast
  show "\<exists>r h'. scalloc_struct (pool_mem malloc calloc1) sz h = Inr (r, h') \<and> lala_ok malloc calloc1 n base h' \<and> lala_out h' = lala_out h
      \<and> (case r of None \<Rightarrow> lala_blks h' = lala_blks h | Some p \<Rightarrow> p \<notin> lala_blks h \<and> lala_blks h' = insert p (lala_blks h))"
    using k by (intro exI [of _ "map_option fst r"] exI [of _ h']) (auto simp: pool_mem_def scalloc_def split: option.splits)
qed (rule end_slab)

lemma alloc_unit_gives:
  assumes "unit_memory malloc" "lala_ok malloc calloc1 n base h"
  shows "\<exists>a h'. alloc_unit malloc h = (Some a, h') \<and> lala_ok malloc calloc1 n base h' \<and> lala_out h' = insert a (lala_out h) \<and> a \<notin> lala_out h"
  using alloc_unit_cases [OF assms(2)] new_unit_ok [OF assms(2)] assms(1) by blast

section \<open>The rounds\<close>

abbreviation lala_owns :: "libc_malloc \<Rightarrow> libc_malloc \<Rightarrow> nat \<Rightarrow> u64 \<Rightarrow> (nat, lala_heap) mempool \<Rightarrow> lala_heap \<Rightarrow> nat set \<Rightarrow> nat set \<Rightarrow> bool" where
  "lala_owns malloc calloc1 n base \<equiv> owns (lala_ok malloc calloc1 n base) lala_out lala_blks"

text \<open>A request never falls back on the pool, so that nothing of the array that it does not clear is read.\<close>

lemma get_all:
  assumes m: "unit_memory malloc"
  shows "alloc_fn mp = alloc_unit malloc \<Longrightarrow> lala_owns malloc calloc1 n base mp h C B \<Longrightarrow> length nodes = idx + k + r \<Longrightarrow>
   \<exists>ds h'. get_loop H mp nodes nr idx k h = Inr (MP_OK, mp, take idx nodes @ map Some ds @ drop (idx + k) nodes, h')
     \<and> length ds = k \<and> distinct ds \<and> set ds \<inter> C = {} \<and> lala_owns malloc calloc1 n base mp h' (C \<union> set ds) B"
proof (induction k arbitrary: nodes idx h C)
  case 0
  then show ?case by simp
next
  case (Suc k)
  have ok: "lala_ok malloc calloc1 n base h" using Suc.prems(2) by (simp add: owns_def)
  obtain a h1 where a: "alloc_unit malloc h = (Some a, h1)" "lala_ok malloc calloc1 n base h1" "lala_out h1 = insert a (lala_out h)" "a \<notin> lala_out h"
    using alloc_unit_gives [OF m ok] by blast
  have "lala_blks h1 = lala_blks h" by (rule lala_source.alloc_blks [OF ok a(1)])
  from owns_fresh [OF Suc.prems(2) a(2,4,3) this]
  have own: "lala_owns malloc calloc1 n base mp h1 (insert a C) B" and new: "a \<notin> C" by blast+
  have st: "mem_store nodes idx [Some a] = Inr (take idx nodes @ Some a # drop (Suc idx) nodes)"
    using Suc.prems(3) by (simp add: mem_store_def)
  let ?ns = "take idx nodes @ Some a # drop (Suc idx) nodes"
  obtain ds h' where ds: "get_loop H mp ?ns nr (idx + 1) k h1
        = Inr (MP_OK, mp, take (idx + 1) ?ns @ map Some ds @ drop (idx + 1 + k) ?ns, h')"
      "length ds = k" "distinct ds" "set ds \<inter> insert a C = {}" "lala_owns malloc calloc1 n base mp h' (insert a C \<union> set ds) B"
    using Suc.IH [OF Suc.prems(1) own, of ?ns "idx + 1"] Suc.prems(3) by auto
  have "take (idx + 1) ?ns = take idx nodes @ [Some a]" "drop (idx + 1 + k) ?ns = drop (idx + Suc k) nodes"
    using Suc.prems(3) by (simp_all add: min_def add.commute [of k])
  then show ?case
    using a(1) Suc.prems(1) st ds new by (intro exI [of _ "a # ds"] exI [of _ h']) (auto simp: Un_commute)
qed

lemma round_ok:
  assumes m: "unit_memory malloc" and H: "H = pool_mem malloc calloc1"
    and mp: "mp_ok mp" "uses mp (alloc_unit malloc) free_unit" "syswl mp = 0"
    and own: "lala_owns malloc calloc1 n base mp h C B" and tmp: "length tmp = 10" and lw: "unat lw \<le> level mp"
  shows "\<exists>ds mp1 mp2 h1 h2 h3. get_mp_nodes H mp tmp 10 h = Inr (SPG_OK, mp, map Some ds, h1) \<and> length ds = 10
    \<and> mdy_mp_wl H (hg, md, lw) mp h1 = Inr (mp1, h2) \<and> put_mp_nodes H mp1 (map Some ds) 10 h2 = Inr (mp2, h3)
    \<and> mp_ok mp2 \<and> uses mp2 (alloc_unit malloc) free_unit \<and> syswl mp2 = 0 \<and> lala_owns malloc calloc1 n base mp2 h3 C B
    \<and> level mp2 = unat lw"
proof -
  obtain ds h1 where ds: "get_mp_nodes H mp tmp 10 h = Inr (SPG_OK, mp, map Some ds, h1)"
      "length ds = 10" "distinct ds" "set ds \<inter> C = {}" "lala_owns malloc calloc1 n base mp h1 (C \<union> set ds) B"
    using get_all [OF m _ own, of tmp 0 10 0 H 10] mp(2) tmp
    by (auto simp: get_mp_nodes_def uses_def MP_OK_def SPG_OK_def)
  have lv: "unat ([lw, md, hg] ! unat (syswl mp)) \<le> unat (slotCnt mp)"
    using lw mp(1,3) by (simp add: mp_ok_def)
  obtain mp1 h2 where u: "update_mpwl H mp hg md lw h1 = Inr (MP_OK, mp1, h2)" "mp_ok mp1"
      "uses mp1 (alloc_unit malloc) free_unit" "lala_owns malloc calloc1 n base mp1 h2 (C \<union> set ds) B"
      "wl mp1 = [lw, md, hg]" "syswl mp1 = syswl mp"
    using update_mpwl_ok [OF lala_source.pool_client_axioms mp(1,2) ds(5) _ lv] mp(3) unfolding H by auto
  obtain mp2 h3 where p: "put_mp_nodes H mp1 (map Some ds) 10 h2 = Inr (mp2, h3)" "mp_ok mp2"
      "uses mp2 (alloc_unit malloc) free_unit" "lala_owns malloc calloc1 n base mp2 h3 (C \<union> set ds - set ds) B" "mp_same mp1 mp2"
    using lala_source.put_owns [OF u(2,3,4), of 10 "map Some ds" ds] ds(2,3) unfolding H by auto
  have C: "C \<union> set ds - set ds = C" using ds(4) by auto
  have "wl mp2 = [lw, md, hg]" "syswl mp2 = 0" using p(5) u(5,6) mp(3) by (simp_all add: mp_same_def)
  then show ?thesis
    using ds(1,2) u(1) p unfolding C by (auto simp: mdy_mp_wl_def level_def)
qed

text \<open>The low levels typed in never go up again.\<close>

fun falling :: "nat \<Rightarrow> nat \<Rightarrow> (nat \<Rightarrow> s32 \<times> s32 \<times> s32) \<Rightarrow> bool" where
  "falling lv 0 inp = True"
| "falling lv (Suc r) inp = (case inp r of (hg, md, lw) \<Rightarrow> unat lw \<le> lv \<and> falling (unat lw) r inp)"

lemma rounds_ok:
  assumes m: "unit_memory malloc" and H: "H = pool_mem malloc calloc1"
  shows "mp_ok mp \<Longrightarrow> uses mp (alloc_unit malloc) free_unit \<Longrightarrow> syswl mp = 0 \<Longrightarrow>
   lala_owns malloc calloc1 n base mp h C B \<Longrightarrow> length tmp = 10 \<Longrightarrow> falling (level mp) r inp \<Longrightarrow>
   \<exists>lg mp' h'. do_alloc_free_test H inp r mp tmp h = Inr (lg, mp', h') \<and> length lg = 3 * r \<and> Get_Failed \<notin> set lg
     \<and> mp_ok mp' \<and> uses mp' (alloc_unit malloc) free_unit \<and> lala_owns malloc calloc1 n base mp' h' C B"
proof (induction r arbitrary: mp tmp h)
  case (Suc r)
  obtain hg md lw where inp: "inp r = (hg, md, lw)" by (cases "inp r")
  have lw: "unat lw \<le> level mp" "falling (unat lw) r inp" using Suc.prems(6) inp by simp_all
  obtain ds mp1 mp2 h1 h2 h3 where o: "get_mp_nodes H mp tmp 10 h = Inr (SPG_OK, mp, map Some ds, h1)" "length ds = 10"
      "mdy_mp_wl H (hg, md, lw) mp h1 = Inr (mp1, h2)" "put_mp_nodes H mp1 (map Some ds) 10 h2 = Inr (mp2, h3)"
      "mp_ok mp2" "uses mp2 (alloc_unit malloc) free_unit" "syswl mp2 = 0" "lala_owns malloc calloc1 n base mp2 h3 C B"
      "level mp2 = unat lw"
    using round_ok [OF m H Suc.prems(1-5) lw(1), of hg md] by blast
  obtain lg mp' h' where r: "do_alloc_free_test H inp r mp2 (map Some ds) h3 = Inr (lg, mp', h')" "length lg = 3 * r"
      "Get_Failed \<notin> set lg" "mp_ok mp'" "uses mp' (alloc_unit malloc) free_unit" "lala_owns malloc calloc1 n base mp' h' C B"
    using Suc.IH [OF o(5-8), of "map Some ds"] o(2,9) lw(2) by auto
  show ?case using o(1,3,4) r inp by (simp add: Let_def mp_info_def)
qed simp

section \<open>The whole program\<close>

text \<open>C12. The test program of the pool, from a state where it holds no element and no block, with low levels that start at no more than 128 and never go up, where malloc has
  memory for the elements, and malloc and calloc for the pool's own blocks or not: whatever its array
  holds at first, no operation of the pool faults, each of the
  40 rounds gets its elements, no element is damaged, freed twice or read after its end, and all of them, the struct
  of the pool and every slot array it ever had are given back to the allocator, each once, whose count of used memory is what it was.\<close>

theorem ut_mempool_clean:
  assumes "unit_memory malloc" and "sized malloc" and "sized calloc1" and "length garbage = 10"
    and "falling 128 DO_ALLOC_FREE_TEST_TIMES inp" and "crash h = None" and "lalala h = Map.empty" and "slabs h = Map.empty"
  shows "\<exists>lg h'. ut_mempool malloc calloc1 garbage inp h = Inr (lg, h') \<and> (lg = [Create_Failed] \<or> length lg = 120)
    \<and> Get_Failed \<notin> set lg \<and> crash h' = None \<and> oh_no h' = oh_no h \<and> lalala h' = Map.empty \<and> slabs h' = Map.empty
    \<and> used_memory (zmst h') = used_memory (zmst h)"
proof -
  let ?n = "oh_no h" and ?b = "used_memory (zmst h)" and ?H = "pool_mem malloc calloc1"
  note ns = lala_source.pool_client_axioms [of malloc calloc1 ?n ?b]
  have h: "lala_ok malloc calloc1 ?n ?b h" "lala_out h = {}" "lala_blks h = {}"
    using assms(2,3,6-8) by (simp_all add: lala_ok_def slab_charge_def)
  obtain mp h1 where c: "create_mp ?H 128 512 1024 (alloc_unit malloc) free_unit h = Inr (mp, h1)"
    and mp: "case mp of None \<Rightarrow> lala_ok malloc calloc1 ?n ?b h1 \<and> lala_out h1 = {} \<and> lala_blks h1 = {}
       | Some mp \<Rightarrow> mp_ok mp \<and> uses mp (alloc_unit malloc) free_unit \<and> lala_owns malloc calloc1 ?n ?b mp h1 {} {}
           \<and> wl mp = [128, 512, 1024] \<and> syswl mp = 0"
    using create_owns [OF ns _ h(1), of 128 512 1024] h(2,3) by (auto split: option.splits)
  have fin: "crash h' = None \<and> oh_no h' = ?n \<and> lalala h' = Map.empty \<and> slabs h' = Map.empty \<and> used_memory (zmst h') = ?b"
    if "lala_ok malloc calloc1 ?n ?b h'" "lala_out h' = {}" "lala_blks h' = {}" for h'
    using that assms(1) by (simp add: lala_ok_def slab_charge_def)
  show ?thesis
  proof (cases mp)
    case None
    then show ?thesis using c mp fin [of h1] by (simp add: ut_mempool_def)
  next
    case (Some pool)
    then have p: "mp_ok pool" "uses pool (alloc_unit malloc) free_unit" "syswl pool = 0" "lala_owns malloc calloc1 ?n ?b pool h1 {} {}"
        "level pool = 128"
      using mp by (simp_all add: level_def)
    obtain lg pool' h2 where r: "do_alloc_free_test ?H inp DO_ALLOC_FREE_TEST_TIMES pool garbage h1 = Inr (lg, pool', h2)"
        "length lg = 3 * DO_ALLOC_FREE_TEST_TIMES" "Get_Failed \<notin> set lg"
        "mp_ok pool'" "uses pool' (alloc_unit malloc) free_unit" "lala_owns malloc calloc1 ?n ?b pool' h2 {} {}"
      using rounds_ok [OF assms(1) refl p(1-4) assms(4), of DO_ALLOC_FREE_TEST_TIMES inp] p(5) assms(5) by auto
    obtain h3 where d: "destroy_mp ?H pool' h2 = Inr h3" "lala_ok malloc calloc1 ?n ?b h3" "lala_out h3 = {}" "lala_blks h3 = {}"
      using lala_source.drain_owns [OF mp_ok_shape [OF r(4)] r(5,6)] by blast
    have "ut_mempool malloc calloc1 garbage inp h = Inr (lg, h3)"
      unfolding ut_mempool_def Let_def c by (simp add: Some r(1) d(1))
    then show ?thesis using r(2,3) fin [OF d(2-4)] by (simp add: DO_ALLOC_FREE_TEST_TIMES_def)
  qed
qed

text \<open>A malloc with memory for everyone, and levels that fall by three a round.\<close>

definition demo_levels :: "nat \<Rightarrow> s32 \<times> s32 \<times> s32" where
  "demo_levels r = (1024, 512, of_nat (3 * r))"

lemma demo_falling: "r \<le> 40 \<Longrightarrow> 3 * r \<le> lv + 3 \<Longrightarrow> falling lv r demo_levels"
proof (induction r arbitrary: lv)
  case (Suc r)
  have "unat (of_nat (3 * r) :: s32) = 3 * r"
    using Suc.prems(1) by (simp only: unsigned_of_nat) (simp add: take_bit_nat_eq_self_iff)
  then show ?case using Suc by (simp add: demo_levels_def del: of_nat_mult)
qed simp

definition demo_malloc :: "u8 \<Rightarrow> libc_malloc" where
  "demo_malloc x n = Some (replicate (unat n) x)"

definition demo_start :: lala_heap where
  "demo_start = \<lparr>zmst = \<lparr>used_memory = 1000, zmalloc_thread_safe = 0\<rparr>, lalala = Map.empty, slabs = Map.empty, top = 1, oh_no = 0, crash = None\<rparr>"

theorem ut_mempool_clean_witness:
  "\<exists>lg h'. ut_mempool (demo_malloc 0xcd) (demo_malloc 0) (replicate 10 (Some 77)) demo_levels demo_start = Inr (lg, h')
    \<and> (lg = [Create_Failed] \<or> length lg = 120) \<and> Get_Failed \<notin> set lg \<and> crash h' = None \<and> oh_no h' = 0
    \<and> lalala h' = Map.empty \<and> slabs h' = Map.empty \<and> used_memory (zmst h') = 1000"
proof -
  have m: "unit_memory (demo_malloc 0xcd)" "sized (demo_malloc 0xcd)" "sized (demo_malloc 0)"
    by (simp_all add: unit_memory_def sized_def demo_malloc_def)
  from ut_mempool_clean [OF m, of "replicate 10 (Some 77)" demo_levels demo_start]
  show ?thesis using demo_falling [of 40 128] by (simp add: DO_ALLOC_FREE_TEST_TIMES_def demo_start_def)
qed

end
