(* ===== verification/Skip_Test.thy ===== *)
theory Skip_Test
  imports Skip_Insert C_Strings Machines
begin

text \<open>
  src/unit_test/skiplist_ut.c: the menu program that tests the skip list, with the two functions of
  src/src/spg_skiplist.c that print one. A key is the address of an int of its own and the int. \<open>sm\<close> gives
  the address of a new int, and \<open>nd\<close> is that of a new node; 0 is NULL. What is typed in is a list of items, the draws
  of rand are part of them; the prompts and the help text are left out of what is printed.
\<close>

section \<open>The program\<close>

type_synonym int_ptr = "nat \<times> s32"

record skl_ut =
  g_skl :: "int_ptr spg_skl"
  ints :: "nat list"
  printed :: "string list"

definition print :: "string \<Rightarrow> skl_ut \<Rightarrow> skl_ut" where
  "print t st = st\<lparr>printed := printed st @ [t]\<rparr>"

text \<open>NULL keys, which the code would dereference after showing the list, are never compared.\<close>

definition ptr_compare :: "int_ptr option compare" where
  "ptr_compare x y = (case (x, y) of (Some a, Some b) \<Rightarrow> key_compare (snd a) (snd b) | _ \<Rightarrow> 0)"

text \<open>The visitor of a traversal reads the int without a test for NULL; after a fault nothing more is printed.\<close>

definition print_val :: "int_ptr option \<Rightarrow> fault + string list \<Rightarrow> fault + string list" where
  "print_val val out = bindE out (\<lambda>l. case val of None \<Rightarrow> Inl Null_Deref | Some (a, v) \<Rightarrow> Inr (l @ [dec_int (sint v) @ '' '']))"

type_synonym int_source = "nat list \<Rightarrow> nat"

text \<open>sfree of an int.\<close>

definition sfree_int :: "nat \<Rightarrow> skl_ut \<Rightarrow> fault + skl_ut" where
  "sfree_int a st = (if a = 0 then Inr st else if a \<in> set (ints st) then Inr (st\<lparr>ints := remove1 a (ints st)\<rparr>) else Inl Invalid_Free)"

text \<open>The key of a failed insertion is lost.\<close>

definition do_skl_insert :: "naddr \<Rightarrow> int_source \<Rightarrow> s32 list \<Rightarrow> s32 \<Rightarrow> skl_ut \<Rightarrow> fault + skl_ut" where
  "do_skl_insert nd sm rs v st =
     (let val = sm (ints st) in
      bindE (guardE (val \<noteq> 0) Assert_Failed) (\<lambda>_.
      bindE (skl_insert rs nd (g_skl st) (Some (val, v))) (\<lambda>(ret, skl).
      let st = st\<lparr>g_skl := skl, ints := val # ints st\<rparr> in
      Inr (print (if SPG_OK \<noteq> ret then ''Insert failed.'' else ''Insert success.'') st))))"

definition do_skl_traversal_forward :: "nat \<Rightarrow> skl_ut \<Rightarrow> fault + skl_ut" where
  "do_skl_traversal_forward fuel st =
     (let st = print ''Forward traversal:'' st in
      bindE (skl_foreach fuel (g_skl st) TRAV_FORWARD print_val (Inr (printed st))) (\<lambda>out.
      bindE out (\<lambda>l. Inr (print [CHR 0x0A] (st\<lparr>printed := l\<rparr>)))))"

definition do_skl_traversal_backward :: "nat \<Rightarrow> skl_ut \<Rightarrow> fault + skl_ut" where
  "do_skl_traversal_backward fuel st =
     (let st = print ''Backward traversal:'' st in
      bindE (skl_foreach fuel (g_skl st) TRAV_BACKWARD print_val (Inr (printed st))) (\<lambda>out.
      bindE out (\<lambda>l. Inr (print [CHR 0x0A] (st\<lparr>printed := l\<rparr>)))))"

text \<open>The value to find is a local variable: its address is no allocated one.\<close>

definition do_skl_find :: "nat \<Rightarrow> s32 \<Rightarrow> skl_ut \<Rightarrow> fault + skl_ut" where
  "do_skl_find fuel v st =
     bindE (skl_find_get fuel (g_skl st) (Some (0, v))) (\<lambda>(ret, skl).
     let st = st\<lparr>g_skl := skl\<rparr> in
     case ret of None \<Rightarrow> Inr (print ''not found'' st)
     | Some (a, _) \<Rightarrow> bindE (sfree_int a (print ''found value'' st)) (\<lambda>st. Inr (print ''Find and get success.'' st)))"

text \<open>
  The variant of the two functions with STATIC_TEST, which the file leaves undefined: all ints of an array at the address
  \<open>arr\<close>, from the last one to the first. \<open>draw\<close> gives the draws of the level and the node of an insertion.
\<close>

definition test_array :: "s32 list" where
  "test_array = [91, 75,  1,  4, 24, 14, 32, 45, 81, 72, 19, 86, 30, 66, 28, 71, 51, 55, 2,  23,
     55, 37, 62, 98, 7,  31, 84, 29, 42, 44]"

definition test_key :: "nat \<Rightarrow> nat \<Rightarrow> int_ptr" where
  "test_key arr cnt = (arr + 4 * cnt, test_array ! cnt)"

fun insert_static :: "nat \<Rightarrow> (nat \<Rightarrow> s32 list \<times> naddr) \<Rightarrow> nat \<Rightarrow> skl_ut \<Rightarrow> fault + skl_ut" where
  "insert_static arr draw 0 st = Inr (print ''Insert success.'' st)"
| "insert_static arr draw (Suc cnt) st =
     bindE (skl_insert (fst (draw cnt)) (snd (draw cnt)) (g_skl st) (Some (test_key arr cnt))) (\<lambda>(ret, skl).
     let st = st\<lparr>g_skl := skl\<rparr> in
     if SPG_OK \<noteq> ret then Inr (print ''Skiplist insert failed.'' st) else insert_static arr draw cnt st)"

definition do_skl_insert_static :: "nat \<Rightarrow> (nat \<Rightarrow> s32 list \<times> naddr) \<Rightarrow> skl_ut \<Rightarrow> fault + skl_ut" where
  "do_skl_insert_static arr draw st = insert_static arr draw (length test_array) st"

fun find_static :: "nat \<Rightarrow> nat \<Rightarrow> nat \<Rightarrow> skl_ut \<Rightarrow> fault + skl_ut" where
  "find_static fuel arr 0 st = Inr (print ''Find and get success.'' st)"
| "find_static fuel arr (Suc cnt) st =
     bindE (skl_find_get fuel (g_skl st) (Some (test_key arr cnt))) (\<lambda>(ret, skl).
     let st = st\<lparr>g_skl := skl\<rparr> in
     case ret of None \<Rightarrow> Inr (print ''Not found.'' st) | Some _ \<Rightarrow> find_static fuel arr cnt st)"

definition do_skl_find_static :: "nat \<Rightarrow> nat \<Rightarrow> skl_ut \<Rightarrow> fault + skl_ut" where
  "do_skl_find_static fuel arr st = find_static fuel arr (length test_array) st"

text \<open>One list element per pass: the draw of the key, which rand gives as a number not below 0, those of the level, and the node.\<close>

fun do_times_insert :: "int_source \<Rightarrow> (s32 \<times> s32 list \<times> naddr) list \<Rightarrow> skl_ut \<Rightarrow> fault + skl_ut" where
  "do_times_insert sm [] st = Inr st"
| "do_times_insert sm ((r, rs, nd) # ps) st =
     (let key = sm (ints st) in
      bindE (guardE (key \<noteq> 0) Null_Deref) (\<lambda>_.
      bindE (skl_insert rs nd (g_skl st) (Some (key, r mod 300))) (\<lambda>(ret, skl).
      let st = st\<lparr>g_skl := skl, ints := key # ints st\<rparr> in
      do_times_insert sm ps (if SPG_OK \<noteq> ret then print ''Insert failed.'' st else st))))"

fun do_times_find_get :: "nat \<Rightarrow> s32 list \<Rightarrow> skl_ut \<Rightarrow> fault + skl_ut" where
  "do_times_find_get fuel [] st = Inr st"
| "do_times_find_get fuel (r # rs) st =
     (let key = r mod 300 in
      bindE (skl_find_get fuel (g_skl st) (Some (0, key))) (\<lambda>(retKey, skl).
      let st = st\<lparr>g_skl := skl\<rparr> in
      bindE (case retKey of None \<Rightarrow> Inr st
             | Some (a, _) \<Rightarrow> sfree_int a (print (''found key='' @ dec_int (sint key) @ ''.'') st)) (do_times_find_get fuel rs)))"

definition show_skl_stat :: "'k spg_skl \<Rightarrow> string list" where
  "show_skl_stat skl =
     [''Skiplist statistics:'', [CHR 0x09] @ ''skiplist have ['' @ dec_int (sint (len skl)) @ ''] nodes.'']
     @ map (\<lambda>idx. [CHR 0x09, CHR ''[''] @ dec_nat idx @ '']level have ['' @ dec_int (sint (lvlCnt skl ! idx)) @ ''] node.'')
         [0..<nat SKIPLIST_LEVEL_MAX]
     @ [''Locked time total:['' @ dec_int (sint (lock_time_sum skl)) @ ''].'']"

text \<open>
  A round of the random test: one element per pass of its inner loop, the draws of the insertions and those of the
  searches, of which the code makes three times as many.
\<close>

type_synonym rand_round = "((s32 \<times> s32 list \<times> naddr) list \<times> s32 list) list"

fun random_passes :: "nat \<Rightarrow> int_source \<Rightarrow> rand_round \<Rightarrow> skl_ut \<Rightarrow> fault + skl_ut" where
  "random_passes fuel sm [] st = Inr st"
| "random_passes fuel sm ((is, fs) # ps) st =
     bindE (do_times_insert sm is st) (\<lambda>st. bindE (do_times_find_get fuel fs st) (\<lambda>st.
     random_passes fuel sm ps (print (''Do '' @ dec_nat (length is) @ '' times test complete.'') st)))"

fun do_random_test :: "nat \<Rightarrow> int_source \<Rightarrow> rand_round list \<Rightarrow> skl_ut \<Rightarrow> fault + skl_ut" where
  "do_random_test fuel sm [] st = Inr st"
| "do_random_test fuel sm (r # rs) st =
     bindE (random_passes fuel sm r st) (\<lambda>st.
     do_random_test fuel sm rs (st\<lparr>printed := printed st @ show_skl_stat (g_skl st)\<rparr>))"

text \<open>\<open>ptr\<close> is the text of %p, which the C library chooses.\<close>

definition show_sklnode :: "(naddr \<Rightarrow> string) \<Rightarrow> 'k spg_skl \<Rightarrow> naddr \<Rightarrow> fault + string list" where
  "show_sklnode ptr skl p =
     bindE (node skl p) (\<lambda>n.
     Inr ([[], ''node info:'', ''node:'' @ [CHR 0x09, CHR '' ''] @ ptr p,
          [CHR 0x09] @ '' level max:'' @ [CHR 0x09, CHR '' ''] @ dec_int (lvlNum n),
          [CHR 0x09] @ '' backward :'' @ [CHR 0x09, CHR '' ''] @ ptr (backward n), [CHR 0x09] @ '' node next:'']
        @ map (\<lambda>l. [CHR 0x09, CHR 0x09] @ '' node['' @ dec_nat l @ '']:['' @ ptr (lvl n ! l) @ '']'') (rev [0..<nat (lvlNum n)])))"

fun show_loop :: "nat \<Rightarrow> (naddr \<Rightarrow> string) \<Rightarrow> 'k spg_skl \<Rightarrow> naddr \<Rightarrow> fault + string list" where
  "show_loop 0 ptr skl tmp = Inl Diverges"
| "show_loop (Suc fuel) ptr skl tmp =
     (if tmp \<noteq> 0
      then bindE (show_sklnode ptr skl tmp) (\<lambda>t. bindE (get_lvl skl tmp 0) (\<lambda>q.
           bindE (show_loop fuel ptr skl q) (\<lambda>ts. Inr (t @ ts))))
      else Inr [])"

definition trav_show_skl :: "nat \<Rightarrow> (naddr \<Rightarrow> string) \<Rightarrow> 'k spg_skl \<Rightarrow> fault + string list" where
  "trav_show_skl fuel ptr skl = bindE (get_lvl skl (sklhead skl) 0) (show_loop fuel ptr skl)"

datatype skl_item = Do_Insert naddr "s32 list" s32 | Do_Forward | Do_Backward | Do_Find s32 | Do_Flush | Do_Stat
  | Do_Random "rand_round list" | Do_Show | Do_Help | Do_Nothing

fun skl_menu :: "nat \<Rightarrow> int_source \<Rightarrow> (naddr \<Rightarrow> string) \<Rightarrow> skl_item \<Rightarrow> skl_ut \<Rightarrow> fault + skl_ut" where
  "skl_menu fuel sm ptr (Do_Insert nd rs v) st = do_skl_insert nd sm rs v st"
| "skl_menu fuel sm ptr Do_Forward st = do_skl_traversal_forward fuel st"
| "skl_menu fuel sm ptr Do_Backward st = do_skl_traversal_backward fuel st"
| "skl_menu fuel sm ptr (Do_Find v) st = do_skl_find fuel v st"
| "skl_menu fuel sm ptr Do_Flush st = bindE (skl_flush_all fuel (g_skl st)) (\<lambda>skl. Inr (st\<lparr>g_skl := skl\<rparr>))"
| "skl_menu fuel sm ptr Do_Stat st = Inr (st\<lparr>printed := printed st @ show_skl_stat (g_skl st)\<rparr>)"
| "skl_menu fuel sm ptr (Do_Random rounds) st = do_random_test fuel sm rounds st"
| "skl_menu fuel sm ptr Do_Show st =
     bindE (trav_show_skl fuel ptr (g_skl st)) (\<lambda>l. Inr (st\<lparr>printed := printed st @ l\<rparr>))"
| "skl_menu fuel sm ptr Do_Help st = Inr st"
| "skl_menu fuel sm ptr Do_Nothing st = Inr st"

text \<open>
  The program reads items for ever; this is what the first ones do. \<open>garbage\<close> is what the memory of the list held,
  \<open>head\<close> the address of its head. The result of skl_create is not looked at: where it is NULL, every item but the
  last two reads it, which is a fault here from the start.
\<close>

definition do_skl_ut :: "nat \<Rightarrow> int_source \<Rightarrow> (naddr \<Rightarrow> string) \<Rightarrow> bool \<Rightarrow> naddr
    \<Rightarrow> s32 list \<times> 64 word \<times> 64 word    \<Rightarrow> skl_item list \<Rightarrow> fault + skl_ut" where
  "do_skl_ut fuel sm ptr skl_mem head garbage items =
     bindE (skl_create skl_mem head garbage Map.empty (Some ptr_compare)) (\<lambda>g.
     bindE (derefE g) (\<lambda>skl. runE (skl_menu fuel sm ptr) items \<lparr>g_skl = skl, ints = [], printed = []\<rparr>))"

section \<open>What stays in an operation\<close>

definition same_list :: "'k spg_skl \<Rightarrow> 'k spg_skl \<Rightarrow> bool" where
  "same_list s s' \<longleftrightarrow> sklhead s' = sklhead s \<and> cmpFunc s' = cmpFunc s"

lemma same_list_refl [simp]: "same_list s s"
  by (simp add: same_list_def)

lemma same_list_trans: "same_list a b \<Longrightarrow> same_list b c \<Longrightarrow> same_list a c"
  by (simp add: same_list_def)

lemma same_set_lvl: "set_lvl s p i v = Inr s' \<Longrightarrow> same_list s s'"
  by (auto simp: set_lvl_def bindE_Inr_iff set_node_def same_list_def split: if_splits)

lemma same_put_node: "put_sklnode s p = Inr s' \<Longrightarrow> same_list s s'"
  by (auto simp: put_sklnode_def bindE_Inr_iff count_level_def same_list_def split: if_splits)

lemma same_copy: "copy_levels s b n i c h u = Inr (s', c') \<Longrightarrow> same_list s s'"
proof (induction s b n i c h u rule: copy_levels.induct)
  case (1 s b n i c h u)
  then show ?case
    by (subst (asm) (2) copy_levels.simps)
      (auto simp: bindE_Inr_iff split: if_splits, (meson same_set_lvl same_list_trans)+)
qed

lemma same_unlink: "unlink_back f s n b h c = Inr s' \<Longrightarrow> same_list s s'"
  by (induction f s n b h c rule: unlink_back.induct)
    (auto simp: bindE_Inr_iff Let_def split: if_splits, (meson same_copy same_list_trans)+)

lemma same_lower: "lower_level f s = Inr s' \<Longrightarrow> same_list s s'"
  by (induction f arbitrary: s) (fastforce simp: bindE_Inr_iff Let_def same_list_def split: if_splits)+

lemma same_delete: "skl_delete_node f s p = Inr s' \<Longrightarrow> same_list s s'"
  by (auto simp: skl_delete_node_def bindE_Inr_iff Let_def set_node_def split: if_splits
      dest!: same_unlink same_lower same_put_node) (auto simp: same_list_def)

lemma same_find: "skl_find_get f s k = Inr (r, s') \<Longrightarrow> same_list s s'"
  by (auto simp: skl_find_get_def bindE_Inr_iff split: if_splits dest!: same_delete)

lemma same_flush_loop: "flush_loop f s p = Inr s' \<Longrightarrow> same_list s s'"
  by (induction f arbitrary: s p) (auto simp: bindE_Inr_iff split: if_splits dest!: same_put_node intro: same_list_trans)

lemma same_flush: "skl_flush_all f s = Inr s' \<Longrightarrow> same_list s s'"
  by (auto simp: skl_flush_all_def bindE_Inr_iff Let_def set_node_def split: if_splits dest!: same_flush_loop)
    (auto simp: same_list_def)

lemma same_link_levels: "link_levels s p pr i h = Inr s' \<Longrightarrow> same_list s s'"
proof (induction s p pr i h rule: link_levels.induct)
  case (1 s p pr i h)
  then show ?case
    by (subst (asm) (2) link_levels.simps)
      (auto simp: bindE_Inr_iff split: if_splits, (meson same_set_lvl same_list_trans)+)
qed

lemma same_link_back: "link_back s p = Inr s' \<Longrightarrow> same_list s s'"
  by (auto simp: link_back_def bindE_Inr_iff Let_def set_node_def same_list_def split: if_splits)

lemma same_link: "link_node s p h pr = Inr s' \<Longrightarrow> same_list s s'"
  by (auto simp: link_node_def bindE_Inr_iff split: if_splits dest!: same_link_levels same_link_back)
    (auto simp: same_list_def)

lemma same_insert: "skl_insert rs p s k = Inr (r, s') \<Longrightarrow> same_list s s'"
  by (auto simp: skl_insert_def get_sklnode_def count_level_def bindE_Inr_iff Let_def set_node_def split: if_splits
      dest!: same_link) (auto simp: same_list_def)

section \<open>A slot for one int\<close>

text \<open>
  What the program does of the items 1 to 5, as long as nothing is inserted behind a first int. The list takes no second one
  (theory Skip_Insert). \<open>head\<close> is the address of its head node.
\<close>

definition slot_text :: "s32 option \<Rightarrow> string list" where
  "slot_text s = (case s of None \<Rightarrow> [] | Some v \<Rightarrow> [dec_int (sint v) @ '' ''])"

fun slot_step :: "naddr \<Rightarrow> skl_item \<Rightarrow> s32 option \<times> string list \<Rightarrow> (s32 option \<times> string list) option" where
  "slot_step head (Do_Insert nd rs v) (s, l) =
     (if s = None \<and> nd \<noteq> 0 \<and> nd \<noteq> head \<and> v \<in> int_half_range \<and> skl_gen_level rs \<noteq> Inl Diverges
      then Some (Some v, l @ [''Insert success.'']) else None)"
| "slot_step head Do_Forward (s, l) = Some (s, l @ [''Forward traversal:''] @ slot_text s @ [[CHR 0x0A]])"
| "slot_step head Do_Backward (s, l) = Some (s, l @ [''Backward traversal:''] @ slot_text s @ [[CHR 0x0A]])"
| "slot_step head (Do_Find v) (s, l) =
     (if v \<notin> int_half_range then None
      else Some (if s = Some v then (None, l @ [''found value'', ''Find and get success.'']) else (s, l @ [''not found''])))"
| "slot_step head Do_Flush (s, l) = Some (None, l)"
| "slot_step head Do_Help a = Some a"
| "slot_step head Do_Nothing a = Some a"
| "slot_step head i a = None"

definition slot_rel :: "naddr \<Rightarrow> skl_ut \<Rightarrow> s32 option \<times> string list \<Rightarrow> bool" where
  "slot_rel head st = (\<lambda>(s, l).
     sklhead (g_skl st) = head \<and> cmpFunc (g_skl st) = ptr_compare \<and> printed st = l
     \<and> (case s of None \<Rightarrow> skl_ok (g_skl st) []
        | Some v \<Rightarrow> v \<in> int_half_range \<and> (\<exists>p a. skl_ok (g_skl st) [p] \<and> key_of (g_skl st) p = Some (a, v)
            \<and> a \<in> set (ints st) \<and> a \<noteq> 0)))"

lemma ptr_comparator: "comparator {Some x | x. snd x \<in> int_half_range} ptr_compare"
  by unfold_locales (auto simp: ptr_compare_def sint_key_compare sgn_if)

lemma gen_loop_total: "gen_loop rs l = Inl Diverges \<or> (\<exists>h rs'. gen_loop rs l = Inr (h, rs'))"
  by (induction rs arbitrary: l) auto

lemma gen_level_total: "skl_gen_level rs \<noteq> Inl Diverges \<Longrightarrow> \<exists>h rs'. skl_gen_level rs = Inr (h, rs')"
  using gen_loop_total [of rs 1] by (auto simp: skl_gen_level_def)

lemma slot_insert:
  assumes r: "slot_rel head st (None, l)" and rs: "skl_gen_level rs \<noteq> Inl Diverges" and nd: "nd \<noteq> 0" "nd \<noteq> head"
    and v: "v \<in> int_half_range" and sm: "\<forall>l. sm l \<noteq> 0 \<and> sm l \<notin> set l"
  shows "\<exists>st'. do_skl_insert nd sm rs v st = Inr st' \<and> slot_rel head st' (Some v, l @ [''Insert success.''])"
proof -
  let ?a = "sm (ints st)"
  have R: "skl_ok (g_skl st) []" "sklhead (g_skl st) = head" "cmpFunc (g_skl st) = ptr_compare" "printed st = l"
    using r by (simp_all add: slot_rel_def)
  obtain h rs' where h: "skl_gen_level rs = Inr (h, rs')" using gen_level_total [OF rs] by blast
  obtain s' where s': "skl_insert rs nd (g_skl st) (Some (?a, v)) = Inr (SPG_OK, s')" "skl_ok s' [nd]"
      "key_of s' nd = Some (?a, v)"
    using insert_cases [OF R(1) h, of nd "Some (?a, v)"] R(2) nd by auto
  moreover have "same_list (g_skl st) s'" by (rule same_insert [OF s'(1)])
  ultimately show ?thesis
    using R sm v by (auto simp: do_skl_insert_def Let_def slot_rel_def print_def same_list_def)
qed

lemma slot_insert_full:
  assumes r: "slot_rel head st (Some w, l)" and rs: "skl_gen_level rs \<noteq> Inl Diverges"
    and nd: "nd \<noteq> 0" "nodes (g_skl st) nd = None" and sm: "\<forall>l. sm l \<noteq> 0 \<and> sm l \<notin> set l"
  shows "do_skl_insert nd sm rs v st = Inl Null_Deref"
proof -
  obtain p where ok: "skl_ok (g_skl st) [p]" using r by (auto simp: slot_rel_def)
  obtain h rs' where h: "skl_gen_level rs = Inr (h, rs')" using gen_level_total [OF rs] by blast
  have "nd \<notin> set (sklhead (g_skl st) # [p])"
  proof
    assume "nd \<in> set (sklhead (g_skl st) # [p])"
    then have "node_ok (g_skl st) nd" by (rule skl_okD(2) [OF ok])
    then show False using nd(2) by (auto simp: node_ok_def)
  qed
  then have "skl_insert rs nd (g_skl st) (Some (sm (ints st), v)) = Inl Null_Deref"
    using insert_cases [OF ok h] nd(1) by simp
  then show ?thesis using sm by (simp add: do_skl_insert_def)
qed

text \<open>The static test dereferences NULL at its second int.\<close>

lemma static_insert_faults:
  assumes ok: "skl_ok (g_skl st) []" and d: "\<And>i. skl_gen_level (fst (draw i)) \<noteq> Inl Diverges"
    and nd: "snd (draw 29) \<noteq> 0" "snd (draw 29) \<noteq> sklhead (g_skl st)" "snd (draw 28) \<noteq> 0"
      "snd (draw 28) \<notin> {sklhead (g_skl st), snd (draw 29)}"
  shows "do_skl_insert_static arr draw st = Inl Null_Deref"
proof -
  obtain h rs where h: "skl_gen_level (fst (draw 29)) = Inr (h, rs)" using gen_level_total [OF d] by blast
  obtain s' where s': "skl_insert (fst (draw 29)) (snd (draw 29)) (g_skl st) (Some (test_key arr 29)) = Inr (SPG_OK, s')"
      "skl_ok s' [snd (draw 29)]"
    using insert_cases [OF ok h, of "snd (draw 29)" "Some (test_key arr 29)"] nd by auto
  have "sklhead s' = sklhead (g_skl st)" using same_insert [OF s'(1)] by (simp add: same_list_def)
  moreover obtain h' rs' where "skl_gen_level (fst (draw 28)) = Inr (h', rs')" using gen_level_total [OF d] by blast
  ultimately have "skl_insert (fst (draw 28)) (snd (draw 28)) s' (Some (test_key arr 28)) = Inl Null_Deref"
    using insert_cases [OF s'(2), of "fst (draw 28)" h' rs' "snd (draw 28)"] nd by auto
  moreover have "length test_array = Suc (Suc 28)" by (simp add: test_array_def)
  ultimately show ?thesis using s'(1) unfolding do_skl_insert_static_def by (simp only: insert_static.simps) simp
qed

lemma slot_rel_print: "slot_rel head st (s, l) \<Longrightarrow> slot_rel head (st\<lparr>printed := l'\<rparr>) (s, l')"
  by (cases s) (simp_all add: slot_rel_def)

text \<open>The nodes behind the head, and what a search needs of them.\<close>

lemma slot_nodes:
  assumes "slot_rel head st (s, l)"
  shows "\<exists>ns. skl_ok (g_skl st) ns \<and> length ns \<le> 1
    \<and> (case s of None \<Rightarrow> ns = [] | Some v \<Rightarrow> v \<in> int_half_range
        \<and> (\<exists>p a. ns = [p] \<and> key_of (g_skl st) p = Some (a, v) \<and> a \<in> set (ints st) \<and> a \<noteq> 0))"
  using assms by (cases s) (auto simp: slot_rel_def)

lemma slot_fold:
  assumes "case s of None \<Rightarrow> ns = [] | Some v \<Rightarrow> v \<in> int_half_range \<and> (\<exists>p a. ns = [p] \<and> key_of g p = Some (a, v) \<and> a \<in> A \<and> a \<noteq> 0)"
  shows "fold print_val (keys_of g ns) (Inr l) = Inr (l @ slot_text s)" "fold print_val (rev (keys_of g ns)) (Inr l) = Inr (l @ slot_text s)"
    "cmp_sorted c (keys_of g ns)" "set (keys_of g ns) \<subseteq> {Some x | x. snd x \<in> int_half_range}"
    "(\<exists>p\<in>set ns. ptr_compare (Some (0, v)) (key_of g p) = 0) \<longleftrightarrow> s = Some v"
  using assms by (cases s; force simp: slot_text_def print_val_def ptr_compare_def key_compare_def)+

lemma slot_traversals:
  assumes r: "slot_rel head st (s, l)" and f: "18 < fuel"
  shows "do_skl_traversal_forward fuel st = Inr (st\<lparr>printed := l @ [''Forward traversal:''] @ slot_text s @ [[CHR 0x0A]]\<rparr>)"
    "do_skl_traversal_backward fuel st = Inr (st\<lparr>printed := l @ [''Backward traversal:''] @ slot_text s @ [[CHR 0x0A]]\<rparr>)"
proof -
  have l: "printed st = l" using r by (simp add: slot_rel_def)
  obtain ns where ns: "skl_ok (g_skl st) ns" "length ns \<le> 1" "case s of None \<Rightarrow> ns = [] | Some v \<Rightarrow> v \<in> int_half_range
        \<and> (\<exists>p a. ns = [p] \<and> key_of (g_skl st) p = Some (a, v) \<and> a \<in> set (ints st) \<and> a \<noteq> 0)"
    using slot_nodes [OF r] by (elim exE conjE)
  have "length ns < fuel" using ns(2) f by simp
  note walk = foreach_ok [OF ns(1) this, of print_val]
  show "do_skl_traversal_forward fuel st = Inr (st\<lparr>printed := l @ [''Forward traversal:''] @ slot_text s @ [[CHR 0x0A]]\<rparr>)"
    using walk slot_fold(1) [OF ns(3)] l by (simp add: do_skl_traversal_forward_def print_def)
  show "do_skl_traversal_backward fuel st = Inr (st\<lparr>printed := l @ [''Backward traversal:''] @ slot_text s @ [[CHR 0x0A]]\<rparr>)"
    using walk slot_fold(2) [OF ns(3)] l by (simp add: do_skl_traversal_backward_def print_def rev_map)
qed

lemma slot_find:
  assumes r: "slot_rel head st (s, l)" and f: "18 < fuel" and v: "v \<in> int_half_range"
  shows "\<exists>st'. do_skl_find fuel v st = Inr st' \<and> slot_rel head st'
    (if s = Some v then (None, l @ [''found value'', ''Find and get success.'']) else (s, l @ [''not found'']))"
proof -
  let ?k = "Some (0, v)" and ?g = "g_skl st"
  have R: "cmpFunc ?g = ptr_compare" "printed st = l" "sklhead ?g = head" using r by (simp_all add: slot_rel_def)
  obtain ns where ns: "skl_ok ?g ns" "length ns \<le> 1" and sv: "case s of None \<Rightarrow> ns = [] | Some v \<Rightarrow> v \<in> int_half_range
        \<and> (\<exists>p a. ns = [p] \<and> key_of ?g p = Some (a, v) \<and> a \<in> set (ints st) \<and> a \<noteq> 0)"
    using slot_nodes [OF r] by (elim exE conjE)
  have k: "?k \<in> {Some x | x. snd x \<in> int_half_range}" "length ns + 16 < fuel" using v ns(2) f by simp_all
  have cmp: "comparator {Some x | x. snd x \<in> int_half_range} (cmpFunc ?g)" unfolding R(1) by (rule ptr_comparator)
  note fg = find_get_ok [OF ns(1) cmp slot_fold(3,4) [OF sv] k, THEN conjunct2, unfolded R(1) slot_fold(5) [OF sv]]
  show ?thesis
  proof (cases "s = Some v")
    case True
    obtain p a where p: "ns = [p]" "key_of ?g p = Some (a, v)" "a \<in> set (ints st)" "a \<noteq> 0" using sv True by auto
    then obtain g' where g': "skl_find_get fuel ?g ?k = Inr (Some (a, v), g')" "skl_ok g' []"
      using fg True by (auto simp: Cons_eq_append_conv)
    have "same_list ?g g'" by (rule same_find [OF g'(1)])
    then show ?thesis using g' p(3,4) R True
      by (simp add: do_skl_find_def sfree_int_def print_def slot_rel_def same_list_def)
  next
    case False
    then have "skl_find_get fuel ?g ?k = Inr (None, ?g)" using fg by simp
    then show ?thesis using slot_rel_print [OF r] False R(2) by (simp add: do_skl_find_def print_def)
  qed
qed

lemma slot_machine:
  assumes sm: "\<forall>l. sm l \<noteq> 0 \<and> sm l \<notin> set l" and f: "18 < fuel"
  shows "simulation (skl_menu fuel sm ptr) (slot_step head) (slot_rel head)"
proof
  fix c st a a'
  assume r: "slot_rel head st a" and step: "slot_step head c a = Some a'"
  obtain s l where a: "a = (s, l)" by (cases a)
  note r = r [unfolded a]
  show "\<exists>st'. skl_menu fuel sm ptr c st = Inr st' \<and> slot_rel head st' a'"
  proof (cases c)
    case (Do_Insert nd rs v)
    then show ?thesis using step r slot_insert [of head st l rs nd v sm] sm by (auto simp: a split: if_splits)
  next
    case Do_Forward
    then show ?thesis using step slot_rel_print [OF r] slot_traversals(1) [OF r f] by (auto simp: a)
  next
    case Do_Backward
    then show ?thesis using step slot_rel_print [OF r] slot_traversals(2) [OF r f] by (auto simp: a)
  next
    case (Do_Find v)
    then show ?thesis using step slot_find [OF r f, of v] by (auto simp: a split: if_splits)
  next
    case Do_Flush
    obtain ns where ns: "skl_ok (g_skl st) ns" "length ns \<le> 1" using slot_nodes [OF r] by blast
    then obtain g' where g': "skl_flush_all fuel (g_skl st) = Inr g'" "skl_ok g' []"
      using flush_all_ok [OF ns(1), of fuel] f by auto
    have "same_list (g_skl st) g'" by (rule same_flush [OF g'(1)])
    then show ?thesis using Do_Flush step r g' by (auto simp: a slot_rel_def same_list_def)
  qed (use step r in \<open>auto simp: a\<close>)
qed

lemma runE_append: "runE f (xs @ ys) s = bindE (runE f xs s) (runE f ys)"
proof (induction xs arbitrary: s)
  case (Cons x xs)
  then have "runE f (xs @ ys) = (\<lambda>s. bindE (runE f xs s) (runE f ys))" by (simp add: fun_eq_iff)
  then show ?case by (simp add: bindE_assoc)
qed simp

text \<open>C24. The test program of the skip list, on a list that its memory allows: with the items 1 to 5 and ints whose differences
  do not wrap, it holds at most one int and prints what a slot for one int would; the list is well formed all
  along and each int found is freed once. Where the slot is full, the next insertion that finds memory dereferences
  NULL, whatever its level and value: the program never holds two ints.\<close>

theorem skl_ut_one_slot:
  assumes "18 < fuel" "head \<noteq> 0" "length cnt = 16" and sm: "\<forall>l. sm l \<noteq> 0 \<and> sm l \<notin> set l"
    and steps: "steps (slot_step head) items (None, []) = Some (s, l)"
  shows "\<exists>st. do_skl_ut fuel sm ptr True head (cnt, lsum, tmp) items = Inr st \<and> printed st = l
    \<and> unat (len (g_skl st)) = (if s = None then 0 else 1)
    \<and> (\<forall>nd rs v. s \<noteq> None \<and> nd \<noteq> 0 \<and> nodes (g_skl st) nd = None \<and> skl_gen_level rs \<noteq> Inl Diverges \<longrightarrow>
         do_skl_ut fuel sm ptr True head (cnt, lsum, tmp) (items @ [Do_Insert nd rs v]) = Inl Null_Deref)"
proof -
  obtain skl where c: "skl_create True head (cnt, lsum, tmp) Map.empty (Some ptr_compare) = Inr (Some skl)"
      "skl_ok skl []" "cmpFunc skl = ptr_compare" "sklhead skl = head"
    using skl_create_ok [OF assms(2,3), of lsum tmp Map.empty ptr_compare] by blast
  let ?st = "\<lparr>g_skl = skl, ints = [], printed = []\<rparr>"
  have run: "do_skl_ut fuel sm ptr True head (cnt, lsum, tmp) is = runE (skl_menu fuel sm ptr) is ?st" for "is"
    using c(1) by (simp add: do_skl_ut_def)
  have "slot_rel head ?st (None, [])" using c by (simp add: slot_rel_def)
  from simulation.run [OF slot_machine [OF sm assms(1)] this steps] obtain st where
    st: "runE (skl_menu fuel sm ptr) items ?st = Inr st" "slot_rel head st (s, l)" by blast
  have one: "unat (len (g_skl st)) = (if s = None then 0 else 1)"
  proof -
    obtain ns where "skl_ok (g_skl st) ns" "length ns = (if s = None then 0 else 1)"
      using slot_nodes [OF st(2)] by (auto split: option.splits)
    then show ?thesis using skl_okD(8) [of "g_skl st" ns] by (auto split: if_splits)
  qed
  have full: "do_skl_insert nd sm rs v st = Inl Null_Deref"
    if n: "s \<noteq> None" "nd \<noteq> 0" "nodes (g_skl st) nd = None" "skl_gen_level rs \<noteq> Inl Diverges" for nd rs v
  proof -
    obtain w where "s = Some w" using n(1) by auto
    then show ?thesis using slot_insert_full [OF _ n(4,2,3) sm] st(2) by blast
  qed
  have l: "printed st = l" using st(2) by (simp add: slot_rel_def)
  show ?thesis
    unfolding run by (intro exI [of _ st] conjI st(1) l one allI impI) (simp add: runE_append st(1) full)
qed

definition demo_items :: "skl_item list" where
  "demo_items = [Do_Insert 65 [3, 0x7fff] 7, Do_Forward, Do_Find 7, Do_Find 7, Do_Insert 66 [0xffff] 5]"

theorem skl_ut_one_slot_witness:
  "\<exists>st. do_skl_ut 19 (\<lambda>l. Suc (sum_list l)) (\<lambda>p. ''p'') True 64 (replicate 16 0, 0, 0) demo_items = Inr st
    \<and> printed st = [''Insert success.'', ''Forward traversal:'', ''7 '', [CHR 0x0A], ''found value'', ''Find and get success.'',
        ''not found'', ''Insert success.'']
    \<and> (nodes (g_skl st) 67 = None \<longrightarrow>
        do_skl_ut 19 (\<lambda>l. Suc (sum_list l)) (\<lambda>p. ''p'') True 64 (replicate 16 0, 0, 0) (demo_items @ [Do_Insert 67 [0xffff] 6]) = Inl Null_Deref)"
proof -
  have sm: "\<forall>l. Suc (sum_list l) \<noteq> 0 \<and> Suc (sum_list l) \<notin> set l"
    using member_le_sum_list by fastforce
  have lv: "skl_gen_level [3, 0x7fff] \<noteq> Inl Diverges" "skl_gen_level [0xffff] \<noteq> Inl Diverges" by code_simp+
  have t: "dec_int 7 = ''7''" by code_simp
  have "steps (slot_step 64) demo_items (None, []) = Some (Some 5, [''Insert success.'', ''Forward traversal:'', ''7 '', [CHR 0x0A],
      ''found value'', ''Find and get success.'', ''not found'', ''Insert success.''])"
    using lv by (simp add: demo_items_def int_half_range_def slot_text_def t)
  from skl_ut_one_slot [OF _ _ _ sm this, of 19 "replicate 16 0" "\<lambda>p. ''p''" 0 0] lv(2)
  show ?thesis by force
qed

end
