(* ===== verification/Logging.thy ===== *)
theory Logging
  imports C_Strings
begin

text \<open>
  The log macros of src/include/util/fmt_print.h as the Makefile defines _TERM_PRT_: what printf
  writes for the place of a log and the text of its format. The results of the other theories hold
  the texts alone. The variant for syslog hands the same line to syslog with a level.
\<close>

text \<open>Where a log stands: __FILE__, __func__ and __LINE__.\<close>

type_synonym log_place = "string \<times> string \<times> nat"

definition prt_dir :: "log_place \<Rightarrow> string \<Rightarrow> string" where
  "prt_dir = (\<lambda>(file, func, line) txt.
     ''['' @ file @ ''][''  @ func @ '']['' @ dec_int (int line) @ '']'' @ txt @ [CHR 0x0A])"

definition logEasy :: "log_place \<Rightarrow> string \<Rightarrow> string" where
  "logEasy p txt = prt_dir p txt"

definition logTrace :: "log_place \<Rightarrow> string \<Rightarrow> string" where
  "logTrace p txt = prt_dir p (''[TRACE]'' @ txt)"

definition logWarn :: "log_place \<Rightarrow> string \<Rightarrow> string" where
  "logWarn p txt = prt_dir p (''[WARN]'' @ txt)"

definition logInfo :: "log_place \<Rightarrow> string \<Rightarrow> string" where
  "logInfo p txt = prt_dir p (''[INFO]'' @ txt)"

definition logErr :: "log_place \<Rightarrow> string \<Rightarrow> string" where
  "logErr p txt = prt_dir p (''[ERROR]'' @ txt)"

text \<open>Under _SYS_LOG_: the level and the line; the newline is part of the format there as well.\<close>

datatype syslog_level = LOG_DEBUG | LOG_INFO | LOG_ERR

definition sys_prt_dir :: "syslog_level \<Rightarrow> log_place \<Rightarrow> string \<Rightarrow> syslog_level \<times> string" where
  "sys_prt_dir lvl p txt = (lvl, prt_dir p txt)"

definition sys_logTrace :: "log_place \<Rightarrow> string \<Rightarrow> syslog_level \<times> string" where
  "sys_logTrace p txt = sys_prt_dir LOG_DEBUG p txt"

definition sys_logInfo :: "log_place \<Rightarrow> string \<Rightarrow> syslog_level \<times> string" where
  "sys_logInfo p txt = sys_prt_dir LOG_INFO p txt"

definition sys_logErr :: "log_place \<Rightarrow> string \<Rightarrow> syslog_level \<times> string" where
  "sys_logErr p txt = sys_prt_dir LOG_ERR p txt"

text \<open>init_fmt_print; \<open>openlog\<close> gets the options LOG_CONS, LOG_PID and LOG_NDELAY and the facility LOG_LOCAL0, with no name.\<close>

definition init_fmt_print :: "(string option \<Rightarrow> u32 \<Rightarrow> u32 \<Rightarrow> 'w \<Rightarrow> 'w) \<Rightarrow> 'w \<Rightarrow> int \<times> 'w" where
  "init_fmt_print openlog w = (let ret = 0 in (ret, openlog None (2 OR 1 OR 8) (push_bit 3 16) w))"

end
