(* ===== verification/Unit_Tests.thy ===== *)
theory Unit_Tests
  imports Sha1 Hex_Dump Crc32 Atomics Zmalloc Proc_Stat Logging
begin

text \<open>
  The small test programs of src/unit_test: sha1_ut.c, math_ut.c, atomic_ut.c and mem_ut.c. What they log is
  their result.
\<close>

section \<open>The programs\<close>

definition chars :: "string \<Rightarrow> u8 list" where "chars s = map of_char s"

text \<open>The context is not initialised before SHA1Init.\<close>

definition do_sha1 :: "SHA1_CTX \<Rightarrow> fault + string list" where
  "do_sha1 ctx =
     (let data = chars ''abc''; len = of_nat (length data) in
      bindE (SHA1Update (SHA1Init ctx) data len) (\<lambda>ctx.
      bindE (SHA1Final ctx) (\<lambda>(hash, ctx).
      hex_dump (''sha1 of '' @ [CHR 0x22] @ ''abc'' @ [CHR 0x22] @ '':'') (Some hash) 20)))"

definition ut_do_crc32 :: "u64 \<Rightarrow> u8 list \<Rightarrow> fault + u32" where
  "ut_do_crc32 pval data = get_crc32 pval 0 data"

text \<open>\<open>pval\<close> is the address of the array.\<close>

definition do_crc32_ut :: "u64 \<Rightarrow> fault + u32" where
  "do_crc32_ut pval = ut_do_crc32 pval (chars ''hello world'')"

definition atomic_ut :: "s32 list" where
  "atomic_ut =
     (let t1 = atomic_set 0 100;
          t1 = atomic_add t1 100; (ret1, t1) = atomic_add_return t1 100;
          t1 = atomic_sub t1 100; (ret2, t1) = atomic_sub_return t1 100;
          t1 = atomic_inc t1; (ret3, t1) = atomic_inc_return t1;
          t1 = atomic_dec t1; (ret4, t1) = atomic_dec_return t1;
          t1 = 0; ret5 = t1 + 1
      in [ret1, ret2, ret3, ret4, ret5])"

lemma sint_inc: "sint i < 2 ^ 31 - 1 \<Longrightarrow> sint (i + 1 :: s32) = sint i + 1"
  using sint_range_size [of i] by (simp add: sint_word_ariths signed_take_bit_int_eq_self word_size)

text \<open>\<open>while (i < 1000000)\<close>, with a counter of type int32_t.\<close>

function pef_loop :: "s32 \<Rightarrow> atomic_t \<Rightarrow> atomic_t" where
  "pef_loop i t1 = (if sint i < 1000000 then pef_loop (i + 1) (atomic_inc t1) else t1)"
  by auto

termination
  by (relation "measure (\<lambda>(i, t). nat (1000000 - sint i))") (auto simp: sint_inc)

declare pef_loop.simps [simp del]

text \<open>\<open>t0\<close> and \<open>t1\<close> are the two readings of gettimeofday, \<open>place\<close> is the place of the log.\<close>

definition atomic_pef_ut :: "log_place \<Rightarrow> int \<times> int \<Rightarrow> int \<times> int \<Rightarrow> atomic_t \<times> string" where
  "atomic_pef_ut place t0 t1 =
     (let us = get_ustime t0; c = pef_loop 0 (atomic_set 0 0); us = get_ustime t1 - us
      in (c, logEasy place (''Using time:'' @ dec_int (sint us) @ '' us'')))"

text \<open>
  mem_ut.c. \<open>flt\<close> converts a size_t to a float, \<open>quot\<close> divides floats and \<open>pf\<close> prints one as %f. The two
  readings of /proc/self/stat are \<open>f1\<close> and \<open>f2\<close>, \<open>b1\<close> and \<open>b2\<close> what the array for them holds.
\<close>

definition zmalloc_get_fragmentation_ratio :: "(u64 \<Rightarrow> 'f) \<Rightarrow> ('f \<Rightarrow> 'f \<Rightarrow> 'f) \<Rightarrow> zm_state \<Rightarrow> u64 \<Rightarrow> 'f" where
  "zmalloc_get_fragmentation_ratio flt quot st rss = quot (flt rss) (flt (zmalloc_used_memory st))"

definition do_mem_ut :: "(u64 \<Rightarrow> 'f) \<Rightarrow> ('f \<Rightarrow> 'f \<Rightarrow> 'f) \<Rightarrow> ('f \<Rightarrow> string) \<Rightarrow> int \<Rightarrow> libc_malloc \<Rightarrow> string \<times> string option
    \<Rightarrow> string \<times> string option \<Rightarrow> zm_state \<Rightarrow> fault + string list \<times> zm_state" where
  "do_mem_ut flt quot pf page malloc = (\<lambda>(b1, f1) (b2, f2) st.
     bindE (zmalloc_get_rss page b1 f1) (\<lambda>len1.
     bindE (zmalloc malloc st (1024 * 100)) (\<lambda>(buf, st).
     bindE (derefE buf) (\<lambda>buf. bindE (mem_store buf 8 (replicate 1024 0)) (\<lambda>buf.
     bindE (zmalloc_get_rss page b2 f2) (\<lambda>len2.
     let rate = zmalloc_get_fragmentation_ratio flt quot st len2 in
     bindE (zfree st (Some buf)) (\<lambda>st.
     Inr ([''Before alloc,usage length = '' @ dec_nat (unat len1) @ ''.'',
           ''After alloc,usage length = '' @ dec_nat (unat len2) @ ''.'', ''Ration = '' @ pf rate], st))))))))"

text \<open>The variants of the two readings for systems without /proc.\<close>

definition zmalloc_get_rss_estimate :: "zm_state \<Rightarrow> u64" where
  "zmalloc_get_rss_estimate st = zmalloc_used_memory st"

definition zmalloc_get_smap_none :: "string \<Rightarrow> u64" where
  "zmalloc_get_smap_none field = 0"

section \<open>What they log\<close>

lemma pef_loop_adds: "int k = 1000000 - sint i \<Longrightarrow> pef_loop i t = t + of_nat k"
proof (induction k arbitrary: i t)
  case 0
  then show ?case by (subst pef_loop.simps) simp
next
  case (Suc k)
  then have "sint i < 1000000" by simp
  then show ?case using Suc.IH [of "i + 1" "t + 1"] Suc.prems
    by (subst pef_loop.simps) (simp add: atomic_inc_def sint_inc)
qed

lemma atomic_pef_ut_count: "fst (atomic_pef_ut place t0 t1) = 1000000"
  using pef_loop_adds [of 1000000 0 0] by (simp add: atomic_pef_ut_def atomic_set_def)

text \<open>The memory the test takes is given back: the accounting ends where it began.\<close>

lemma do_mem_ut_accounting:
  assumes "do_mem_ut flt quot pf page malloc r1 r2 st = Inr (l, st')"
  shows "used_memory st' = used_memory st \<and> length l = 3"
proof -
  obtain st1 blk blk' where z: "zmalloc malloc st (1024 * 100) = Inr (Some blk, st1)" "mem_store blk 8 (replicate 1024 0) = Inr blk'"
      "zfree st1 (Some blk') = Inr st'" "length l = 3"
    using assms by (cases r1; cases r2) (auto simp: do_mem_ut_def bindE_Inr_iff derefE_def Let_def split: option.splits)
  note e = zmalloc_effect [OF z(1), simplified]
  have "take 8 blk' = take 8 blk" using mem_store_behind [of blk 0 "replicate 1024 0" blk'] z(2) by simp
  moreover have "8 \<le> length blk'" using e mem_store_length [OF z(2)] by simp
  ultimately show ?thesis using e z(3,4) zfree_effect [of blk' st1] by (auto simp: charge_def)
qed

lemma atomic_ut_log: "atomic_ut = [300, 100, 102, 100, 1]"
  by (simp add: atomic_ut_def atomic_set_def atomic_add_def atomic_add_return_def atomic_sub_def atomic_sub_return_def
      atomic_inc_def atomic_inc_return_def atomic_dec_def atomic_dec_return_def)

lemma crc_hello: "crc32c 0 (chars ''hello world'') = 0xc99465aa"
  by code_simp

lemma do_crc32_ut_result: "unat pval < 2 ^ 64 - 14 \<Longrightarrow> do_crc32_ut pval = Inr 0xc99465aa"
  using get_crc32_eq [of pval "chars ''hello world''" 0] crc_hello
  by (simp add: do_crc32_ut_def ut_do_crc32_def) (simp add: chars_def)

lemma dec_20: "dec_nat 20 = ''20''"
  by code_simp

lemma length_fips_sha1: "length (fips_sha1 m) = 20"
  using length_fips_blocks [of sha_H0 "fips_pad m"]
  by (simp add: fips_sha1_def length_concat comp_def be_bytes_def sum_list_triv sha_H0_def)

text \<open>The test program of the hash, whatever its context holds at first: the dump of the SHA-1 of the three
  bytes of abc, 16 bytes in the first line behind the header and four in the second.\<close>

theorem do_sha1_dumps:
  assumes "length (buffer ctx) = 64"
  shows "do_sha1 ctx = Inr [''[sha1 of '' @ [CHR 0x22] @ ''abc'' @ [CHR 0x22] @ '': length=20]:'',
    hex_row (take 16 (fips_sha1 (chars ''abc''))), hex_row (drop 16 (fips_sha1 (chars ''abc'')))]"
proof -
  define m where "m = chars ''abc''"
  define d where "d = fips_sha1 m"
  have l: "length m = 3" by (simp add: m_def chars_def)
  have "bindE (feed sha_upd (SHA1Init ctx) [m]) digest_of = Inr d"
    using sha_stream.feed_out [OF SHA1Init_rep [OF assms], of "[m]"] l by (auto simp: d_def)
  then obtain c c' where c: "SHA1Update (SHA1Init ctx) m (of_nat (length m)) = Inr c" "SHA1Final c = Inr (d, c')"
    by (auto simp: sha_upd_def digest_of_def bindE_Inr_iff)
  have n: "length d = 20" by (simp add: d_def length_fips_sha1)
  have "full_rows (20 div 16) d = [hex_row (take 16 d)]" by simp
  then have "hex_dump i (Some d) 20 = Inr [''['' @ i @ '' length=20]:'', hex_row (take 16 d), hex_row (drop 16 d)]" for i
    using hex_dump_lines [of i d] n by (simp add: dec_20)
  then show ?thesis
    unfolding do_sha1_def m_def [symmetric] Let_def c(1) bindE_simps c(2) prod.case d_def [symmetric] by simp
qed

theorem do_sha1_dumps_witness:
  "do_sha1 demo_ctx = Inr [''[sha1 of '' @ [CHR 0x22] @ ''abc'' @ [CHR 0x22] @ '': length=20]:'',
    hex_row (take 16 (fips_sha1 (chars ''abc''))), hex_row (drop 16 (fips_sha1 (chars ''abc'')))]"
  by (rule do_sha1_dumps) (simp add: demo_ctx_def)

end
