(* ===== verification/Spec2Isabelle.thy ===== *)
theory Spec2Isabelle
  imports Vector Zmalloc_Threads Atomics Crc32 Sha1 Mempool Hash_List Skip_Insert Event_Dispatch File_IO Mirror_Safety
    Proc_Stat Hex_Dump Vector_Test File_Test Pool_Test Skip_Test Unit_Tests
begin

text \<open>
  A verification library for spongeDB, a C library of containers, allocators and I/O helpers.

  The program and its theories. Every component is a library module that the others or the
  clients call; the main program is that of the unit tests, which are modelled too: one test program
  per component, and the mirror server with its client.

  \<^item> Spg_Prelude: fault values of a C run (NULL dereference, access outside a block, failed
    assertion, invalid free, dangling pointer, a loop that never ends), sequencing of
    fallible steps (bindE), bounds-checked blocks of bytes, return codes. The Makefile
    defines _DBG_VER_, so dbg_assert is assert and a fault of the model.
  \<^item> Zmalloc: src/src/zmalloc.c, the allocator behind smalloc, scalloc, srealloc and sfree:
    blocks with a size header, the count of used memory. Allocator: the contract of zmalloc
    and zrealloc that the containers rely on, a locale which Zmalloc interprets on the
    modelled functions. Zmalloc_Threads: the updates of that count as interleaved steps of threads, plain,
    by the atomic builtin or under the mutex.
  \<^item> Comparators: the compare callbacks of the containers, their contract (a locale), and the
    two callbacks of the unit tests, which meet it on half of the int range.
  \<^item> Locks: the lock wrappers of src/include/util/spg_type.h, on the functions of pthread, and what
    pthread documents of its readers-writer locks and mutexes.
  \<^item> Vector: src/src/spg_vector.c, a growing array of units in a block of bytes, with
    insertion, search, deletion, export and import. Shared_Objects: threads that call the operations of
    an object under its readers-writer lock (a locale). Shared_Vector: such threads on a vector.
  \<^item> Atomics: the atomic operations of src/include/util (builtins, and the variant with a
    mutex as an interleaving of steps), reference counts.
  \<^item> Crc32_Tables, Crc32: src/src/algo_crc32.c, against the bit-serial definition of CRC-32C.
  \<^item> Streams, Sha1: messages that arrive in pieces (a locale), and src/src/algo_sha1.c against
    the block function and padding of FIPS 180.
  \<^item> Mempool: src/src/mempool.c, a pool of free nodes with water-levels. What the pool takes from the allocator for its
    struct and its slot array, and gives back, is part of the model; the clients of a pool (the callbacks, the blocks of the
    allocator) are the locale pool_client.
  \<^item> Machines: runs of operations, the simulation of a specification by the code (a locale),
    the for loop that iteration macros expand to.
  \<^item> Linked_List, Hash_List: src/include/ds/list.h, on a heap of pointers, refining sequences.
  \<^item> Skip_List, Skip_Insert: src/src/spg_skiplist.c, on a heap of nodes.
  \<^item> Event_Loop, Event_Files, Event_Timers, Event_Pass, Event_Dispatch: src/src/ae.c with src/src/ae_epoll.src: the
    definitions, file events, time events, a pass over the due ones with callbacks that fire once, are to be called
    again or add events, and one round of the loop with its handlers.
  \<^item> File_IO: src/src/wr_file.c on a model of the C library's streams.
  \<^item> C_Strings: the functions of the C library on text that the sources below call (strchr,
    strncpy, snprintf of a number, strtoll, strtol). Logging: the log macros of src/include/util/fmt_print.h.
  \<^item> Anet: src/src/anet.c, every function, on the record sys of the socket system calls. The
    state net has ghosts for the descriptors that are open, those closed without being held and
    the address lists not yet freed. Anet_Ledger: what each function does to these.
    Anet_Streams: reading, writing, accepting, error texts, the blocking flag.
  \<^item> Mirror: src/unit_test/ut_srv_mirror.c and ut_clt_mirror.c. Mirror_Safety: the states that
    the running server goes through, and the client's connection.
  \<^item> Vector_Test, File_Test, Pool_Test, Skip_Test, Unit_Tests: the test programs of src/unit_test, with
    main of ut_main.c, for the vector, the file objects, the memory pool, the skip list, and for hash, CRC,
    atomics and memory. They compose the components: the pool test runs on the allocator, the hash test on the dump.
  \<^item> Proc_Stat: the readings from /proc in src/src/zmalloc.c, the clocks of
    src/src/spg_util.c. Hex_Dump: the dump of src/unit_test/ut.c.

  How they interact. The containers take memory through the allocator contract, compare
  through callbacks under the comparator contract, and the pool and the event loop call
  client functions; these functions are arguments of the definitions. The event loop calls
  the kernel through the record os of its parameters, the socket helpers through sys; in the mirror server the
  handlers of the one call the other, and both act on one kernel (net_os, mirror_os). A pointer is an address into a heap of
  records or an option; using a freed address is a fault.

  What the lemmas show.

  \<^item> Functional correctness: vector insertion keeps values and order, deletion and search act
    on the intended unit; the table-driven CRC equals the bit-serial one at every alignment;
    SHA-1 of any split of a message is that of FIPS 180; searching, removing and linking in a
    skip list; a pass of the event loop over its timers, while the clock moves on within a window in which no timer gets due.
  \<^item> Refinement: the list and hash-list operations refine operations on sequences; the event
    table and the kernel's interest set refine a map of watched descriptors; the mutex variant of the
    atomics refines the builtin one; threads that share a vector do what a serial run of their calls does; the
    test program of the file objects refines a file of bytes, that of the skip list a slot for one int; a round of the
    event loop refines the run of the handlers over the reported events and the due timers.
  \<^item> Invariants: used memory is the sum of the live blocks; nodes of a pool are neither lost
    nor doubled; skip lists stay well formed and sorted on every level; in every state the mirror
    server reaches, each open connection is watched or one that the full event table refused.
  \<^item> Liveness: threads that add to a shared vector, or that use the mutex atomics, never all wait, and nothing
    they add is lost; with the thread-safe flag the same holds of the accounting of the allocator.
  \<^item> Resources: making and destroying a pool gives back the struct and the slot arrays as well as the nodes; the test program
    of the pool gives all its memory back, and damages no element. A connect gives back every descriptor and address list but the socket it returns;
    a server call leaves at most the one socket whose SO_REUSEADDR failed.
  \<^item> Round trips: export and import of a vector; what a file object writes another one reads;
    what anetWrite puts on a stream anetRead takes from it, however the kernel cuts the transfers.
  \<^item> Defects, each with the inputs where it shows: a vector overflows its block after its first
    growth, and after an import; a lock taken twice is lost at its first unlock; the allocator wraps for its greatest sizes; a raised
    pool level reads outside the slots; a second insertion into a skip list dereferences NULL; the pointer
    to the next timer goes stale; poll timeouts of late timers are wrong; a file
    object that was never opened hands NULL to fclose; the mirror server reads past a message that
    fills its array; the hex dump loses the last row of some lengths; a handler that resizes the event table
    leaves the dispatch with a stale pointer; without the thread-safe flag two allocations at the same time count as one.

  Bounds and fuel. Loops that follow pointers take fuel, and Diverges is what a run without
  enough of it gives; the lemmas assume a bound on the length of the structure and prove the
  result, so they show that the loop ends: the length plus one for the list loops and the traversals of the
  skip list, the length plus 16 levels for its search and deletion. A pass over the timers starts over after every event it
  runs, on a list to which callbacks may have added: a bound is shown to exist from which on every fuel gives the result; the count plus one for anetRead and anetWrite, as every call moves a byte or ends the loop; the
  number of interruptions plus one for the retries of accept. Loops over counters are structural. Words keep their width where the code can wrap: sizes, counts and
  levels of vector, allocator and pool, the CRC and SHA-1 words, the poll timeout. Times, file
  offsets and descriptors are integers, as the sums the code forms of them cannot wrap.

  What is typed into a test program is a list of items; the draws of rand, the addresses of new blocks and what
  uninitialised memory holds are arguments. Its output is a list of texts.

  Not modelled, and why. srand has no state of the library; the texts of logs are results of the operations
  where a property speaks of them, without the place that the macros put in front. Operations on floats are arguments.
  The client of the mirror server ends in a loop without end, which is modelled by the number of its rounds. The
  struct types of src/src/spg_memcache.h and the prototypes of src/mod_test/paxos_test.h have no code. Interleavings
  are modelled for the vector under its lock, for the atomics and for the accounting of the allocator;
  the spinlocks of pool and skip list are values beside them, as no operation but those of the lock reads
  them and no code of the repository takes them. Of the streams of stdio the buffer
  is left out: what is written is in the file at once. errno is read from the state of the kernel, so
  that close and the logging do not change it before it is read.
\<close>

end
